(* ===== verification/StarTypes.thy ===== *)
theory StarTypes
  imports Complex_Main Prelude
begin

text \<open>
  The vocabulary of the program: \<^verbatim>\<open>src/common/types.h\<close> (identifiers, options, their printed
  form), the error codes the code returns, and \<^verbatim>\<open>src/common/config.cpp\<close> (the flags and their
  defaults). Flags are read where the code reads them, through a \<open>config\<close> record argument; the
  \<^verbatim>\<open>STATIC_EXCEPT_UT\<close> locals are modelled as in the unit-test build, recomputed at each call.

  Sizes, offsets and counts (\<^verbatim>\<open>size_t\<close>, \<^verbatim>\<open>off_t\<close>, \<^verbatim>\<open>uint64_t\<close>, \<^verbatim>\<open>uint32_t\<close>, \<^verbatim>\<open>int\<close>) that the code uses
  for geometry are natural numbers standing for the bit pattern, with the truncation to the
  width written out wherever the code narrows or can wrap (\<open>to_u32\<close>, \<open>to_u64\<close>).
\<close>

section \<open>Widths\<close>

definition to_u8 :: "nat \<Rightarrow> nat" where "to_u8 n = n mod 2 ^ 8"
definition to_u32 :: "nat \<Rightarrow> nat" where "to_u32 n = n mod 2 ^ 32"
definition to_u64 :: "nat \<Rightarrow> nat" where "to_u64 n = n mod 2 ^ 64"

text \<open>
  Signed values are integers. \<open>to_i32\<close> and \<open>to_i64\<close> are the conversion to the width (two's complement);
  \<open>checked_i64\<close> is the result of a signed 64-bit operation, \<open>None\<close> where it overflows (undefined behaviour).
\<close>

definition to_i32 :: "int \<Rightarrow> int" where "to_i32 x = signed_take_bit 31 x"
definition to_i64 :: "int \<Rightarrow> int" where "to_i64 x = signed_take_bit 63 x"

definition checked_i64 :: "int \<Rightarrow> int option" where
  "checked_i64 x = (if - (2 ^ 63) \<le> x \<and> x < 2 ^ 63 then Some x else None)"

lemma to_i32_id: "- (2 ^ 31) \<le> x \<Longrightarrow> x < 2 ^ 31 \<Longrightarrow> to_i32 x = x"
  by (simp add: to_i32_def signed_take_bit_int_eq_self)

lemma to_i64_id: "- (2 ^ 63) \<le> x \<Longrightarrow> x < 2 ^ 63 \<Longrightarrow> to_i64 x = x"
  by (simp add: to_i64_def signed_take_bit_int_eq_self)

lemma to_i64_add [simp]: "to_i64 (to_i64 x + y) = to_i64 (x + y)" "to_i64 (y + to_i64 x) = to_i64 (y + x)"
  unfolding to_i64_def by (metis signed_take_bit_add signed_take_bit_signed_take_bit min.idem)+

lemma to_i64_diff [simp]: "to_i64 (to_i64 x - y) = to_i64 (x - y)" "to_i64 (y - to_i64 x) = to_i64 (y - x)"
  unfolding to_i64_def by (metis signed_take_bit_diff signed_take_bit_signed_take_bit min.idem)+

lemma checked_i64_id [simp]: "- (2 ^ 63) \<le> x \<Longrightarrow> x < 2 ^ 63 \<Longrightarrow> checked_i64 x = Some x"
  by (simp add: checked_i64_def)

lemma checked_i64_nat [simp]: "n < 2 ^ 63 \<Longrightarrow> checked_i64 (int n) = Some (int n)"
  by (rule checked_i64_id) (simp, metis of_nat_less_iff of_nat_power of_nat_numeral)

lemma checked_i64_Some: "checked_i64 x = Some y \<Longrightarrow> y = x"
  by (simp add: checked_i64_def split: if_splits)

lemma to_u32_id [simp]: "n < 2 ^ 32 \<Longrightarrow> to_u32 n = n"
  by (simp add: to_u32_def)

lemma to_u64_id [simp]: "n < 2 ^ 64 \<Longrightarrow> to_u64 n = n"
  by (simp add: to_u64_def)

lemma to_u8_id [simp]: "n < 2 ^ 8 \<Longrightarrow> to_u8 n = n"
  by (simp add: to_u8_def)

lemma to_u32_bound: "to_u32 n < 2 ^ 32"
  by (simp add: to_u32_def)

section \<open>Status\<close>

text \<open>
  \<^verbatim>\<open>butil::Status\<close> as the code uses it: OK, or an error code (the message text is not modelled).
  \<open>Errno\<close> carries an \<^verbatim>\<open>errno\<close> value that the operating system reported.
\<close>

datatype errcode = ENOENT | EINVAL | ENOMEM | EEXIST | EBUSY | E_INTERNAL | Errno nat

datatype status = OK | Err errcode

fun ok :: "status \<Rightarrow> bool" where
  "ok OK = True"
| "ok (Err _) = False"

lemma ok_iff [simp]: "ok st = (st = OK)"
  by (cases st) simp_all

section \<open>Identifiers and options (\<^verbatim>\<open>common/types.h\<close>)\<close>

type_synonym cache_id = u64
type_synonym cache_key = bytes

definition KB :: nat where "KB = 1024"
definition MB :: nat where "MB = KB * 1024"
definition GB :: nat where "GB = MB * 1024"

record block_id =
  bi_dir_index :: nat
  bi_block_index :: nat

record block_key =
  bk_cache_id :: cache_id
  bk_block_index :: u32

record dir_space =
  ds_path :: string
  ds_quota_bytes :: nat

record cache_options =
  co_mem_quota_bytes :: nat
  co_disk_dir_spaces :: "dir_space list"

datatype write_mode = WRITE_BACK | WRITE_THROUGH
datatype read_mode = READ_BACK | READ_THROUGH

record write_options =
  wo_ttl_seconds :: nat
  wo_pinned :: bool
  wo_overwrite :: bool
  wo_mode :: write_mode

record read_options =
  ro_mode :: read_mode

definition default_write_options :: write_options where
  "default_write_options =
     \<lparr>wo_ttl_seconds = 0, wo_pinned = False, wo_overwrite = True, wo_mode = WRITE_BACK\<rparr>"

definition default_read_options :: read_options where
  "default_read_options = \<lparr>ro_mode = READ_BACK\<rparr>"

subsection \<open>Printed form\<close>

text \<open>An unsigned integer on a stream: its decimal digits.\<close>

fun show_nat :: "nat \<Rightarrow> string" where
  "show_nat n =
     (if n < 10 then [char_of (48 + n)] else show_nat (n div 10) @ [char_of (48 + n mod 10)])"

declare show_nat.simps [simp del]

definition show_bool :: "bool \<Rightarrow> string" where
  "show_bool b = (if b then ''1'' else ''0'')"

definition show_block_key :: "block_key \<Rightarrow> string" where
  "show_block_key k = show_nat (unat (bk_cache_id k)) @ ''_'' @ show_nat (unat (bk_block_index k))"

fun show_write_mode :: "write_mode \<Rightarrow> string" where
  "show_write_mode WRITE_BACK = ''write_back''"
| "show_write_mode WRITE_THROUGH = ''write_through''"

fun show_read_mode :: "read_mode \<Rightarrow> string" where
  "show_read_mode READ_BACK = ''read_back''"
| "show_read_mode READ_THROUGH = ''read_through''"

definition show_write_options :: "write_options \<Rightarrow> string" where
  "show_write_options w =
     ''{ ttl_seconds: '' @ show_nat (wo_ttl_seconds w) @ '', pinned: '' @ show_bool (wo_pinned w) @
     '', overwrite: '' @ show_bool (wo_overwrite w) @ '', mode: '' @ show_write_mode (wo_mode w) @
     '' }''"

definition show_read_options :: "read_options \<Rightarrow> string" where
  "show_read_options r = ''{ mode: '' @ show_read_mode (ro_mode r) @ '' }''"

text \<open>Decimal printing is injective, and so is the printed block key (the \<^verbatim>\<open>_\<close> separates).\<close>

definition digit_char :: "char \<Rightarrow> bool" where
  "digit_char c \<longleftrightarrow> 48 \<le> (of_char c :: nat) \<and> (of_char c :: nat) < 58"

lemma of_char_digit: "d < 10 \<Longrightarrow> (of_char (char_of (48 + d)) :: nat) = 48 + d"
  by (simp add: of_char_of)

lemma show_nat_digits: "\<forall>c \<in> set (show_nat n). digit_char c"
proof (induction n rule: show_nat.induct)
  case (1 n)
  then show ?case
    by (subst show_nat.simps) (auto simp: digit_char_def of_char_digit)
qed

fun read_digits :: "nat \<Rightarrow> string \<Rightarrow> nat" where
  "read_digits acc [] = acc"
| "read_digits acc (c # cs) = read_digits (acc * 10 + (of_char c - 48)) cs"

lemma read_digits_append: "read_digits a (xs @ ys) = read_digits (read_digits a xs) ys"
  by (induction xs arbitrary: a) simp_all

lemma read_show_nat: "read_digits 0 (show_nat n) = n"
proof (induction n rule: show_nat.induct)
  case (1 n)
  show ?case
  proof (cases "n < 10")
    case True
    then show ?thesis by (simp add: show_nat.simps [of n] of_char_digit)
  next
    case False
    then have "read_digits 0 (show_nat (n div 10)) = n div 10" by (rule "1.IH")
    then show ?thesis using False
      by (simp add: show_nat.simps [of n] read_digits_append of_char_digit)
  qed
qed

lemma show_nat_inject: "show_nat m = show_nat n \<Longrightarrow> m = n"
  by (metis read_show_nat)

lemma split_at_separator:
  assumes "xs @ c # ys = xs' @ c # ys'" and "c \<notin> set xs" and "c \<notin> set xs'"
  shows "xs = xs' \<and> ys = ys'"
  using assms
proof (induction xs arbitrary: xs')
  case Nil
  then show ?case by (cases xs') auto
next
  case (Cons x xs)
  then show ?case by (cases xs') auto
qed

lemma underscore_not_digit: "CHR ''_'' \<notin> set (show_nat n)"
  using show_nat_digits [of n] by (auto simp: digit_char_def)

section \<open>Flags (\<^verbatim>\<open>common/config.cpp\<close>)\<close>

record config =
  FLAGS_block_size :: nat
  FLAGS_slice_size :: nat
  FLAGS_block_file_size :: nat
  FLAGS_pre_allocate_block_file :: bool
  FLAGS_enable_disk_checksum :: bool
  FLAGS_max_concurrent_writes :: nat
  FLAGS_mem_evict_times :: nat
  FLAGS_disk_evict_times :: nat
  FLAGS_max_retry_when_allocate :: nat
  FLAGS_admission_max_check_size :: nat
  FLAGS_admission_flush_probability :: real
  FLAGS_admission_delete_probability :: real
  FLAGS_alloc_mem_threshold :: nat
  FLAGS_promotion_mem_threshold :: nat
  FLAGS_promotion_probalility :: nat
  FLAGS_evict_touch_mem_probalility :: nat
  FLAGS_evict_touch_disk_probalility :: nat
  FLAGS_enable_os_page_cache :: bool
  FLAGS_io_align_unit_size :: nat
  FLAGS_access_index_shard_bits :: nat
  FLAGS_sharded_lock_shard_bits :: nat
  FLAGS_lru_container_shard_bits :: nat

definition default_config :: config where
  "default_config = \<lparr>
     FLAGS_block_size = 1048576,
     FLAGS_slice_size = 65536,
     FLAGS_block_file_size = 10737418240,
     FLAGS_pre_allocate_block_file = False,
     FLAGS_enable_disk_checksum = True,
     FLAGS_max_concurrent_writes = 1500000,
     FLAGS_mem_evict_times = 2,
     FLAGS_disk_evict_times = 2,
     FLAGS_max_retry_when_allocate = 10,
     FLAGS_admission_max_check_size = 65536,
     FLAGS_admission_flush_probability = 1,
     FLAGS_admission_delete_probability = 1,
     FLAGS_alloc_mem_threshold = 90,
     FLAGS_promotion_mem_threshold = 80,
     FLAGS_promotion_probalility = 30,
     FLAGS_evict_touch_mem_probalility = 30,
     FLAGS_evict_touch_disk_probalility = 30,
     FLAGS_enable_os_page_cache = False,
     FLAGS_io_align_unit_size = 4096,
     FLAGS_access_index_shard_bits = 5,
     FLAGS_sharded_lock_shard_bits = 12,
     FLAGS_lru_container_shard_bits = 5\<rparr>"

text \<open>
  The shape of configuration the geometry relies on: slices divide blocks, blocks divide block
  files, the direct-I/O unit divides slices, and a block fits the 32-bit offsets within a block.
\<close>

definition config_ok :: "config \<Rightarrow> bool" where
  "config_ok cfg \<longleftrightarrow>
     0 < FLAGS_slice_size cfg \<and> 0 < FLAGS_io_align_unit_size cfg \<and> 0 < FLAGS_block_size cfg \<and>
     FLAGS_slice_size cfg dvd FLAGS_block_size cfg \<and>
     FLAGS_io_align_unit_size cfg dvd FLAGS_slice_size cfg \<and>
     FLAGS_block_size cfg dvd FLAGS_block_file_size cfg \<and>
     0 < FLAGS_block_file_size cfg \<and>
     FLAGS_block_size cfg < 2 ^ 32 \<and> FLAGS_block_file_size cfg < 2 ^ 63"

lemma default_config_ok: "config_ok default_config"
  by (simp add: config_ok_def default_config_def dvd_eq_mod_eq_0)

end
