(* ===== verification/MemSpace.thy ===== *)
theory MemSpace
  imports StarTypes
begin

text \<open>
  \<^verbatim>\<open>src/mem_space_manager.{h,cpp}\<close>: the accounting of cache memory. The counters are 64-bit words;
  \<^verbatim>\<open>_need_bytes\<close> (an \<^verbatim>\<open>int64_t\<close> that the code compares with a \<^verbatim>\<open>size_t\<close>, so as unsigned) is kept as
  its bit pattern. The mutex makes each operation one atomic step. The locale \<open>mem_budget\<close> is the
  contract the memory cache relies on: successful reservations add up exactly and never exceed
  the quota.
\<close>

section \<open>State and operations\<close>

record mem_space =
  ms_quota_bytes :: u64
  ms_used_bytes :: u64
  ms_private_quota_bytes :: u64
  ms_need_bytes :: u64

definition mem_reset :: mem_space where
  "mem_reset = \<lparr>ms_quota_bytes = 0, ms_used_bytes = 0, ms_private_quota_bytes = 0, ms_need_bytes = 0\<rparr>"

definition add_cache_zone :: "u64 \<Rightarrow> mem_space \<Rightarrow> mem_space" where
  "add_cache_zone sz m = m\<lparr>ms_quota_bytes := ms_quota_bytes m + sz\<rparr>"

definition inc_mem :: "config \<Rightarrow> u64 \<Rightarrow> bool \<Rightarrow> mem_space \<Rightarrow> bool \<times> mem_space" where
  "inc_mem cfg sz urgent m =
     (if urgent \<and> sz \<le> ms_private_quota_bytes m then
        (True, m\<lparr>ms_private_quota_bytes := ms_private_quota_bytes m - sz,
                 ms_used_bytes := ms_used_bytes m + sz\<rparr>)
      else
        let public_quota_bytes = ms_quota_bytes m - ms_private_quota_bytes m;
            upper_threshold = public_quota_bytes * of_nat (FLAGS_alloc_mem_threshold cfg) div 100
        in if ms_used_bytes m + sz < upper_threshold then
             (True, m\<lparr>ms_used_bytes := ms_used_bytes m + sz\<rparr>)
           else (False, m\<lparr>ms_need_bytes := ms_need_bytes m + sz\<rparr>))"

definition dec_mem :: "u64 \<Rightarrow> mem_space \<Rightarrow> mem_space" where
  "dec_mem sz m =
     (let m' = (if sz \<le> ms_need_bytes m then
                  m\<lparr>ms_private_quota_bytes := ms_private_quota_bytes m + sz,
                    ms_need_bytes := ms_need_bytes m - sz\<rparr>
                else
                  m\<lparr>ms_private_quota_bytes := ms_private_quota_bytes m + ms_need_bytes m,
                    ms_need_bytes := 0\<rparr>)
      in m'\<lparr>ms_used_bytes := ms_used_bytes m' - sz\<rparr>)"

section \<open>The invariant\<close>

text \<open>
  The used bytes and the bytes set aside for urgent requests fit the quota, and the quota is small
  enough for the percentage to be computed without overflow.
\<close>

definition mem_ok :: "config \<Rightarrow> mem_space \<Rightarrow> bool" where
  "mem_ok cfg m \<longleftrightarrow>
     unat (ms_used_bytes m) + unat (ms_private_quota_bytes m) \<le> unat (ms_quota_bytes m) \<and>
     unat (ms_quota_bytes m) * 100 < 2 ^ 64 \<and> FLAGS_alloc_mem_threshold cfg \<le> 100"

definition mem_used :: "mem_space \<Rightarrow> nat" where "mem_used m = unat (ms_used_bytes m)"
definition mem_quota :: "mem_space \<Rightarrow> nat" where "mem_quota m = unat (ms_quota_bytes m)"

lemma threshold_unat:
  assumes "mem_ok cfg m"
  shows "unat ((ms_quota_bytes m - ms_private_quota_bytes m) *
      of_nat (FLAGS_alloc_mem_threshold cfg) div 100)
    = (unat (ms_quota_bytes m) - unat (ms_private_quota_bytes m)) * FLAGS_alloc_mem_threshold cfg div 100"
proof -
  let ?q = "unat (ms_quota_bytes m)" and ?p = "unat (ms_private_quota_bytes m)"
    and ?t = "FLAGS_alloc_mem_threshold cfg"
  from assms have le: "?p \<le> ?q" and q: "?q * 100 < 2 ^ 64" and t: "?t \<le> 100"
    by (auto simp: mem_ok_def)
  have sub: "unat (ms_quota_bytes m - ms_private_quota_bytes m) = ?q - ?p"
    using le by (simp add: unat_sub word_le_nat_alt)
  have tt: "unat (of_nat ?t :: u64) = ?t" using t by (simp add: unat_of_nat)
  have "(?q - ?p) * ?t \<le> ?q * 100" using t by (intro mult_le_mono) simp_all
  with q have "(?q - ?p) * ?t < 2 ^ 64" by linarith
  then have "unat ((ms_quota_bytes m - ms_private_quota_bytes m) * of_nat ?t) = (?q - ?p) * ?t"
    by (simp add: unat_word_ariths sub tt)
  then show ?thesis by (simp add: unat_div)
qed

text \<open>The public branch grants only what stays under the public quota, without wrap-around.\<close>

lemma public_grant:
  assumes ok: "mem_ok cfg m" and small: "unat (ms_used_bytes m) + unat sz < 2 ^ 64"
    and lt: "ms_used_bytes m + sz < (ms_quota_bytes m - ms_private_quota_bytes m) *
      of_nat (FLAGS_alloc_mem_threshold cfg) div 100"
  shows "unat (ms_used_bytes m) + unat sz <
      (unat (ms_quota_bytes m) - unat (ms_private_quota_bytes m)) * FLAGS_alloc_mem_threshold cfg div 100"
    and "unat (ms_used_bytes m) + unat sz + unat (ms_private_quota_bytes m) \<le> unat (ms_quota_bytes m)"
proof -
  let ?q = "unat (ms_quota_bytes m)" and ?p = "unat (ms_private_quota_bytes m)"
    and ?t = "FLAGS_alloc_mem_threshold cfg"
  from lt show 1: "unat (ms_used_bytes m) + unat sz < (?q - ?p) * ?t div 100"
    by (simp only: word_less_nat_alt threshold_unat [OF ok] unat_plus_no_wrap [OF small])
  have "(?q - ?p) * ?t \<le> (?q - ?p) * 100" using ok by (intro mult_le_mono) (auto simp: mem_ok_def)
  then have "(?q - ?p) * ?t div 100 \<le> ?q - ?p"
    by (metis div_le_mono nonzero_mult_div_cancel_right zero_neq_numeral)
  with 1 ok show "unat (ms_used_bytes m) + unat sz + ?p \<le> ?q" by (auto simp: mem_ok_def)
qed

text \<open>
  A request never wraps the counter: the caller asks for less than \<open>2 ^ 63\<close> bytes.
\<close>

lemma used_plus_small:
  assumes "mem_ok cfg m" and "unat (sz :: u64) < 2 ^ 63"
  shows "unat (ms_used_bytes m) + unat sz < 2 ^ 64"
proof -
  have "unat (ms_used_bytes m) * 100 < 2 ^ 64" using assms(1) unfolding mem_ok_def by linarith
  with assms(2) show ?thesis by simp
qed

lemma inc_mem_True:
  assumes "mem_ok cfg m" and "unat sz < 2 ^ 63" and "inc_mem cfg sz urgent m = (True, m')"
  shows "mem_used m' = mem_used m + unat sz" and "mem_ok cfg m'" and "mem_quota m' = mem_quota m"
proof -
  note small = used_plus_small [OF assms(1,2)]
  have *: "mem_used m' = mem_used m + unat sz \<and> mem_ok cfg m' \<and> mem_quota m' = mem_quota m"
  proof (cases "urgent \<and> sz \<le> ms_private_quota_bytes m")
    case True
    then show ?thesis using assms(1,3) small
      by (auto simp: inc_mem_def mem_ok_def mem_used_def mem_quota_def unat_plus_no_wrap
          unat_sub word_le_nat_alt)
  next
    case False
    with assms(3) have lt: "ms_used_bytes m + sz < (ms_quota_bytes m - ms_private_quota_bytes m) *
        of_nat (FLAGS_alloc_mem_threshold cfg) div 100"
      and m': "m' = m\<lparr>ms_used_bytes := ms_used_bytes m + sz\<rparr>"
      by (auto simp: inc_mem_def Let_def split: if_splits)
    show ?thesis using public_grant [OF assms(1) small lt] assms(1)
      by (simp add: m' mem_ok_def mem_used_def mem_quota_def unat_plus_no_wrap [OF small])
  qed
  then show "mem_used m' = mem_used m + unat sz" and "mem_ok cfg m'" and "mem_quota m' = mem_quota m"
    by simp_all
qed

lemma inc_mem_False:
  assumes "mem_ok cfg m" and "inc_mem cfg sz urgent m = (False, m')"
  shows "mem_used m' = mem_used m" and "mem_ok cfg m'" and "mem_quota m' = mem_quota m"
  using assms by (auto simp: inc_mem_def Let_def mem_used_def mem_quota_def mem_ok_def split: if_splits)

lemma dec_mem_ok:
  assumes "mem_ok cfg m" and "unat sz \<le> mem_used m"
  shows "mem_used (dec_mem sz m) = mem_used m - unat sz" and "mem_ok cfg (dec_mem sz m)"
    and "mem_quota (dec_mem sz m) = mem_quota m"
proof -
  let ?u = "ms_used_bytes m" and ?p = "ms_private_quota_bytes m" and ?n = "ms_need_bytes m"
  have sub: "unat (?u - sz) = unat ?u - unat sz"
    using assms(2) by (simp add: mem_used_def unat_sub word_le_nat_alt)
  have grow: "unat (?p + x) = unat ?p + unat x" if "unat x \<le> unat sz" for x
  proof (rule unat_plus_no_wrap)
    have "unat ?p + unat x \<le> unat (ms_quota_bytes m)"
      using assms that by (auto simp: mem_ok_def mem_used_def)
    then show "unat ?p + unat x < 2 ^ 64" using assms(1) unfolding mem_ok_def by linarith
  qed
  show "mem_used (dec_mem sz m) = mem_used m - unat sz"
    using sub by (simp add: dec_mem_def Let_def mem_used_def)
  show "mem_quota (dec_mem sz m) = mem_quota m" by (simp add: dec_mem_def Let_def mem_quota_def)
  show "mem_ok cfg (dec_mem sz m)"
    using assms sub grow [of sz] grow [of ?n]
    by (auto simp: dec_mem_def Let_def mem_ok_def mem_used_def word_le_nat_alt)
qed

section \<open>The contract of a memory budget\<close>

datatype mem_event = Inc u64 bool | Dec u64

text \<open>
  A run of requests, with the sizes of the granted reservations that are still outstanding. A
  release that matches no outstanding reservation is not part of the protocol.
\<close>

fun mem_run :: "(u64 \<Rightarrow> bool \<Rightarrow> 's \<Rightarrow> bool \<times> 's) \<Rightarrow> (u64 \<Rightarrow> 's \<Rightarrow> 's) \<Rightarrow>
    mem_event list \<Rightarrow> 's \<times> u64 list \<Rightarrow> ('s \<times> u64 list) option" where
  "mem_run inc dec [] s = Some s"
| "mem_run inc dec (Inc n urgent # es) (m, out) =
     (case inc n urgent m of
        (True, m') \<Rightarrow> mem_run inc dec es (m', n # out)
      | (False, m') \<Rightarrow> mem_run inc dec es (m', out))"
| "mem_run inc dec (Dec n # es) (m, out) =
     (if n \<in> set out then mem_run inc dec es (dec n m, remove1 n out) else None)"

fun small_request :: "mem_event \<Rightarrow> bool" where
  "small_request (Inc n urgent) = (unat n < 2 ^ 63)"
| "small_request (Dec n) = True"

definition outstanding :: "u64 list \<Rightarrow> nat" where
  "outstanding out = sum_list (map unat out)"

lemma outstanding_Cons [simp]: "outstanding (n # out) = unat n + outstanding out"
  by (simp add: outstanding_def)

lemma outstanding_remove1: "n \<in> set out \<Longrightarrow> outstanding (remove1 n out) + unat n = outstanding out"
  unfolding outstanding_def by (induction out) auto

locale mem_budget =
  fixes inc :: "u64 \<Rightarrow> bool \<Rightarrow> 's \<Rightarrow> bool \<times> 's"
    and dec :: "u64 \<Rightarrow> 's \<Rightarrow> 's"
    and used :: "'s \<Rightarrow> nat"
    and quota :: "'s \<Rightarrow> nat"
    and ok :: "'s \<Rightarrow> bool"
  assumes inc_granted: "ok s \<Longrightarrow> unat n < 2 ^ 63 \<Longrightarrow> inc n urgent s = (True, s') \<Longrightarrow>
      used s' = used s + unat n \<and> ok s' \<and> quota s' = quota s"
    and inc_refused: "ok s \<Longrightarrow> inc n urgent s = (False, s') \<Longrightarrow>
      used s' = used s \<and> ok s' \<and> quota s' = quota s"
    and dec_granted: "ok s \<Longrightarrow> unat n \<le> used s \<Longrightarrow>
      used (dec n s) = used s - unat n \<and> ok (dec n s) \<and> quota (dec n s) = quota s"
    and within_quota: "ok s \<Longrightarrow> used s \<le> quota s"
begin

lemma run_accounts:
  assumes "mem_run inc dec es (s, out) = Some (s', out')" and "ok s" and "used s = outstanding out"
    and "list_all small_request es"
  shows "ok s' \<and> used s' = outstanding out' \<and> used s' \<le> quota s' \<and> quota s' = quota s"
  using assms
proof (induction es arbitrary: s out)
  case Nil
  then show ?case using within_quota [of s] by simp
next
  case (Cons e es)
  show ?case
  proof (cases e)
    case (Inc n urgent)
    obtain b t where t: "inc n urgent s = (b, t)" by fastforce
    show ?thesis
    proof (cases b)
      case True
      with t Cons.prems Inc inc_granted [of s n urgent t] show ?thesis
        using Cons.IH [of t "n # out"] by (simp add: add.commute)
    next
      case False
      with t Cons.prems Inc inc_refused [of s n urgent t] show ?thesis
        using Cons.IH [of t out] by simp
    qed
  next
    case (Dec n)
    with Cons.prems have n: "n \<in> set out" and run: "mem_run inc dec es (dec n s, remove1 n out) = Some (s', out')"
      by (auto split: if_splits)
    from outstanding_remove1 [OF n] Cons.prems(3) have le: "unat n \<le> used s" by linarith
    note g = dec_granted [OF Cons.prems(2) le]
    have "used (dec n s) = outstanding (remove1 n out)"
      using g outstanding_remove1 [OF n] Cons.prems(3) by linarith
    then show ?thesis using Cons.IH [OF run] g Cons.prems(4) by simp
  qed
qed

end

interpretation ms: mem_budget "inc_mem cfg" dec_mem mem_used mem_quota "mem_ok cfg"
proof unfold_locales
  show "mem_ok cfg s \<Longrightarrow> unat n < 2 ^ 63 \<Longrightarrow> inc_mem cfg n urgent s = (True, s') \<Longrightarrow>
      mem_used s' = mem_used s + unat n \<and> mem_ok cfg s' \<and> mem_quota s' = mem_quota s" for s n urgent s'
    using inc_mem_True by blast
  show "mem_ok cfg s \<Longrightarrow> inc_mem cfg n urgent s = (False, s') \<Longrightarrow>
      mem_used s' = mem_used s \<and> mem_ok cfg s' \<and> mem_quota s' = mem_quota s" for s n urgent s'
    using inc_mem_False by blast
  show "mem_ok cfg s \<Longrightarrow> unat n \<le> mem_used s \<Longrightarrow> mem_used (dec_mem n s) = mem_used s - unat n \<and>
      mem_ok cfg (dec_mem n s) \<and> mem_quota (dec_mem n s) = mem_quota s" for s n
    using dec_mem_ok by blast
  show "mem_ok cfg s \<Longrightarrow> mem_used s \<le> mem_quota s" for s
    by (simp add: mem_ok_def mem_used_def mem_quota_def)
qed

section \<open>Memory set aside for an urgent retry\<close>

lemma dec_mem_need:
  "ms_need_bytes (dec_mem sz m) = ms_need_bytes m - (if sz \<le> ms_need_bytes m then sz else ms_need_bytes m)"
  "ms_private_quota_bytes (dec_mem sz m) =
     ms_private_quota_bytes m + (if sz \<le> ms_need_bytes m then sz else ms_need_bytes m)"
  by (simp_all add: dec_mem_def Let_def)

text \<open>
  Releases move their bytes to the private quota until the recorded need is met: the sum of the
  two grows to the need, and the private quota to at least the released amount or the need.
\<close>

lemma releases_meet_need:
  assumes "unat (ms_private_quota_bytes m) + unat (ms_need_bytes m) < 2 ^ 64"
  shows "min (unat (ms_need_bytes m)) (outstanding ns) + unat (ms_private_quota_bytes m)
    \<le> unat (ms_private_quota_bytes (fold dec_mem ns m))"
  using assms
proof (induction ns arbitrary: m)
  case Nil
  then show ?case by (simp add: outstanding_def)
next
  case (Cons n ns)
  let ?m = "dec_mem n m" and ?p = "unat (ms_private_quota_bytes m)" and ?n = "unat (ms_need_bytes m)"
  have p: "unat (ms_private_quota_bytes ?m) = ?p + min (unat n) ?n"
    using Cons.prems by (auto simp: dec_mem_need unat_plus_no_wrap word_le_nat_alt min_def)
  have n: "unat (ms_need_bytes ?m) = ?n - min (unat n) ?n"
    by (auto simp: dec_mem_need unat_sub word_le_nat_alt min_def)
  have "min (unat (ms_need_bytes ?m)) (outstanding ns) + unat (ms_private_quota_bytes ?m)
      \<le> unat (ms_private_quota_bytes (fold dec_mem ns ?m))"
    using Cons.prems p n by (intro Cons.IH) simp
  then show ?case using p n by (simp add: min_def split: if_splits)
qed

section \<open>Properties\<close>

text \<open>C13: whatever the order of requests and releases, the used bytes are exactly the outstanding
  reservations and never exceed the quota.\<close>

theorem mem_space_never_exceeds_quota:
  assumes "unat quota * 100 < 2 ^ 64" and "FLAGS_alloc_mem_threshold cfg \<le> 100"
    and "list_all small_request es"
    and "mem_run (inc_mem cfg) dec_mem es (add_cache_zone quota mem_reset, []) = Some (m, out)"
  shows "mem_used m = outstanding out \<and> mem_used m \<le> unat quota"
proof -
  have "mem_ok cfg (add_cache_zone quota mem_reset)"
    using assms(1,2) by (simp add: mem_ok_def add_cache_zone_def mem_reset_def)
  then show ?thesis
    using ms.run_accounts [OF assms(4) _ _ assms(3)]
    by (simp add: add_cache_zone_def mem_reset_def mem_used_def mem_quota_def outstanding_def)
qed

theorem mem_space_never_exceeds_quota_witness:
  "\<exists>m out. mem_run (inc_mem default_config) dec_mem [Inc 400 False, Inc 600 False, Dec 400, Inc 50 True]
      (add_cache_zone 1000 mem_reset, []) = Some (m, out) \<and> mem_used m = outstanding out \<and>
      mem_used m \<le> 1000 \<and> out = [50]"
proof -
  let ?es = "[Inc 400 False, Inc 600 False, Dec 400, Inc 50 True]"
  let ?m = "\<lparr>ms_quota_bytes = 1000, ms_used_bytes = 50, ms_private_quota_bytes = 350,
    ms_need_bytes = 200\<rparr> :: mem_space"
  have run: "mem_run (inc_mem default_config) dec_mem ?es (add_cache_zone 1000 mem_reset, [])
      = Some (?m, [50])"
    by (simp add: add_cache_zone_def mem_reset_def inc_mem_def dec_mem_def default_config_def Let_def)
  have "mem_used ?m = outstanding [50] \<and> mem_used ?m \<le> unat (1000 :: u64)"
    by (rule mem_space_never_exceeds_quota [OF _ _ _ run]) (simp_all add: default_config_def)
  then show ?thesis using run by auto
qed

text \<open>C32: a request that was refused succeeds when it is retried as urgent after releases of at
  least its size.\<close>

theorem urgent_retry_succeeds:
  assumes "inc_mem cfg sz urgent m = (False, m')"
    and "unat (ms_private_quota_bytes m) + unat (ms_need_bytes m) + unat sz < 2 ^ 64"
    and "unat sz \<le> outstanding ns"
  shows "fst (inc_mem cfg sz True (fold dec_mem ns m'))"
proof -
  have m': "ms_need_bytes m' = ms_need_bytes m + sz"
      "ms_private_quota_bytes m' = ms_private_quota_bytes m"
    using assms(1) by (auto simp: inc_mem_def Let_def split: if_splits)
  have need: "unat (ms_need_bytes m + sz) = unat (ms_need_bytes m) + unat sz"
    using assms(2) by (intro unat_plus_no_wrap) linarith
  have "min (unat (ms_need_bytes m')) (outstanding ns) + unat (ms_private_quota_bytes m')
      \<le> unat (ms_private_quota_bytes (fold dec_mem ns m'))"
    using assms(2) by (intro releases_meet_need) (simp add: m' need)
  then have "sz \<le> ms_private_quota_bytes (fold dec_mem ns m')"
    using assms(3) by (simp add: m' need word_le_nat_alt)
  then show ?thesis by (simp add: inc_mem_def)
qed

theorem urgent_retry_succeeds_witness:
  "fst (inc_mem default_config 600 True (fold dec_mem [200, 400]
      (snd (inc_mem default_config 600 False
        \<lparr>ms_quota_bytes = 1000, ms_used_bytes = 800, ms_private_quota_bytes = 0, ms_need_bytes = 0\<rparr>))))"
proof -
  let ?m = "\<lparr>ms_quota_bytes = 1000, ms_used_bytes = 800, ms_private_quota_bytes = 0,
    ms_need_bytes = 0\<rparr> :: mem_space"
  have refused: "inc_mem default_config 600 False ?m = (False, ?m\<lparr>ms_need_bytes := 600\<rparr>)"
    by (simp add: inc_mem_def default_config_def)
  show ?thesis
    unfolding refused snd_conv
    by (rule urgent_retry_succeeds [OF refused]) (simp_all add: outstanding_def)
qed

end
