(* ===== verification/AuxFuncs.thy ===== *)
theory AuxFuncs
  imports StarTypes "HOL-Library.Signed_Division"
begin

text \<open>
  \<^verbatim>\<open>src/aux_funcs.h\<close> and \<^verbatim>\<open>src/aux_funcs.cpp\<close>: the block and slice geometry, rounding, the
  alignment decision for direct I/O, the aligned copy of a buffer and the checksum of a buffer.

  \<^verbatim>\<open>butil::IOBuf\<close>, \<^verbatim>\<open>butil::crc32c\<close> and \<^verbatim>\<open>boost::alignment\<close> are not part of the repository. An
  \<^verbatim>\<open>IOBuf\<close> is represented by what the code reads of it, its list of backing blocks; the
  operations of these libraries are the fields of an \<open>ext_ops\<close> record that every definition
  using them takes as an argument, and \<open>ext_ok\<close> states the documented behaviour the program
  relies on.
\<close>

section \<open>The libraries the program calls\<close>

type_synonym iobuf = "bytes list"

abbreviation iobuf_bytes :: "iobuf \<Rightarrow> bytes" where "iobuf_bytes \<equiv> concat"
abbreviation iobuf_size :: "iobuf \<Rightarrow> nat" where "iobuf_size b \<equiv> length (concat b)"

record ext_ops =
  x_append_to :: "iobuf \<Rightarrow> nat \<Rightarrow> nat \<Rightarrow> iobuf"
  x_append :: "iobuf \<Rightarrow> iobuf \<Rightarrow> iobuf"
  x_append_user_data :: "iobuf \<Rightarrow> bytes \<Rightarrow> iobuf"
  x_pop_front :: "iobuf \<Rightarrow> nat \<Rightarrow> iobuf"
  x_pop_back :: "iobuf \<Rightarrow> nat \<Rightarrow> iobuf"
  x_crc32c_extend :: "u32 \<Rightarrow> bytes \<Rightarrow> u32"
  x_is_aligned :: "nat \<Rightarrow> nat \<Rightarrow> bool"

text \<open>
  \<open>x_append_to X b n pos\<close> is the buffer that \<^verbatim>\<open>b.append_to(&out, n, pos)\<close> leaves in an empty
  \<^verbatim>\<open>out\<close>: at most \<open>n\<close> bytes of \<open>b\<close> from position \<open>pos\<close>. \<^verbatim>\<open>crc32c::Extend\<close> continues the checksum
  of a prefix.
\<close>

definition ext_ok :: "ext_ops \<Rightarrow> bool" where
  "ext_ok X \<longleftrightarrow>
     (\<forall>b n pos. iobuf_bytes (x_append_to X b n pos) = take n (drop pos (iobuf_bytes b))) \<and>
     (\<forall>b c. iobuf_bytes (x_append X b c) = iobuf_bytes b @ iobuf_bytes c) \<and>
     (\<forall>b d. iobuf_bytes (x_append_user_data X b d) = iobuf_bytes b @ d) \<and>
     (\<forall>b n. iobuf_bytes (x_pop_front X b n) = drop n (iobuf_bytes b)) \<and>
     (\<forall>b n. iobuf_bytes (x_pop_back X b n) = take (iobuf_size b - n) (iobuf_bytes b)) \<and>
     (\<forall>h. x_crc32c_extend X h [] = h) \<and>
     (\<forall>h a b. x_crc32c_extend X (x_crc32c_extend X h a) b = x_crc32c_extend X h (a @ b)) \<and>
     (\<forall>p u. x_is_aligned X p u = (p mod u = 0))"

lemma ext_okD:
  assumes "ext_ok X"
  shows ext_append_to: "iobuf_bytes (x_append_to X b n pos) = take n (drop pos (iobuf_bytes b))"
    and ext_append: "iobuf_bytes (x_append X b c) = iobuf_bytes b @ iobuf_bytes c"
    and ext_user_data: "iobuf_bytes (x_append_user_data X b d) = iobuf_bytes b @ d"
    and ext_pop_front: "iobuf_bytes (x_pop_front X b n) = drop n (iobuf_bytes b)"
    and ext_pop_back: "iobuf_bytes (x_pop_back X b n) = take (iobuf_size b - n) (iobuf_bytes b)"
    and ext_crc_nil: "x_crc32c_extend X h [] = h"
    and ext_crc_append:
      "x_crc32c_extend X (x_crc32c_extend X h a1) a2 = x_crc32c_extend X h (a1 @ a2)"
    and ext_is_aligned: "x_is_aligned X p u = (p mod u = 0)"
  using assms by (simp_all add: ext_ok_def)

text \<open>A concrete library with that behaviour, on which the witnesses run.\<close>

definition simple_ext :: ext_ops where
  "simple_ext = \<lparr>
     x_append_to = (\<lambda>b n pos. [take n (drop pos (concat b))]),
     x_append = (@),
     x_append_user_data = (\<lambda>b d. b @ [d]),
     x_pop_front = (\<lambda>b n. [drop n (concat b)]),
     x_pop_back = (\<lambda>b n. [take (length (concat b) - n) (concat b)]),
     x_crc32c_extend = foldl (\<lambda>h c. h * 31 + ucast c),
     x_is_aligned = (\<lambda>p u. p mod u = 0)\<rparr>"

lemma simple_ext_ok: "ext_ok simple_ext"
  by (simp add: ext_ok_def simple_ext_def)

section \<open>Blocks and slices\<close>

definition off2block :: "config \<Rightarrow> nat \<Rightarrow> nat" where
  "off2block cfg offset = to_u32 (offset div FLAGS_block_size cfg)"

definition block_lower :: "config \<Rightarrow> nat \<Rightarrow> nat" where
  "block_lower cfg block_index = to_u32 (block_index * FLAGS_block_size cfg)"

definition block_upper :: "config \<Rightarrow> nat \<Rightarrow> nat" where
  "block_upper cfg block_index = to_u32 ((block_index + 1) * FLAGS_block_size cfg + (2 ^ 32 - 1))"

definition off2slice :: "config \<Rightarrow> nat \<Rightarrow> nat" where
  "off2slice cfg offset = to_u32 (offset div FLAGS_slice_size cfg)"

definition slice_lower :: "config \<Rightarrow> nat \<Rightarrow> nat" where
  "slice_lower cfg slice_index = to_u32 (slice_index * FLAGS_slice_size cfg)"

definition slice_upper :: "config \<Rightarrow> nat \<Rightarrow> nat" where
  "slice_upper cfg slice_index = to_u32 ((slice_index + 1) * FLAGS_slice_size cfg + (2 ^ 32 - 1))"

definition block_shard :: "block_key \<Rightarrow> u64" where
  "block_shard key = bk_cache_id key + ucast (bk_block_index key)"

definition block_slice_count :: "config \<Rightarrow> nat" where
  "block_slice_count cfg = to_u32 (FLAGS_block_size cfg div FLAGS_slice_size cfg)"

definition file_block_count :: "config \<Rightarrow> nat" where
  "file_block_count cfg = to_u32 (FLAGS_block_file_size cfg div FLAGS_block_size cfg)"

text \<open>The named rules with which the geometry of offsets below 4 GiB is computed.\<close>

named_theorems geometry "block and slice arithmetic below 4 GiB"

lemma minus_one_u32: "0 < n \<Longrightarrow> n \<le> 2 ^ 32 \<Longrightarrow> to_u32 (n + (2 ^ 32 - 1)) = n - 1"
proof -
  assume n: "0 < n" "n \<le> 2 ^ 32"
  then have "n + (2 ^ 32 - 1) = (n - 1) + 2 ^ 32" by simp
  then have "to_u32 (n + (2 ^ 32 - 1)) = (n - 1) mod 2 ^ 32"
    unfolding to_u32_def by (metis mod_add_self2)
  with n show ?thesis by simp
qed

lemma off2slice_small [geometry]: "off < 2 ^ 32 \<Longrightarrow> off2slice cfg off = off div FLAGS_slice_size cfg"
  unfolding off2slice_def using div_le_dividend [of off "FLAGS_slice_size cfg"]
  by (intro to_u32_id) linarith

lemma off2block_small [geometry]: "off < 2 ^ 32 \<Longrightarrow> off2block cfg off = off div FLAGS_block_size cfg"
  unfolding off2block_def using div_le_dividend [of off "FLAGS_block_size cfg"]
  by (intro to_u32_id) linarith

lemma slice_lower_small [geometry]:
  "i * FLAGS_slice_size cfg < 2 ^ 32 \<Longrightarrow> slice_lower cfg i = i * FLAGS_slice_size cfg"
  by (simp add: slice_lower_def)

lemma block_lower_small [geometry]:
  "i * FLAGS_block_size cfg < 2 ^ 32 \<Longrightarrow> block_lower cfg i = i * FLAGS_block_size cfg"
  by (simp add: block_lower_def)

lemma slice_upper_small [geometry]:
  "0 < FLAGS_slice_size cfg \<Longrightarrow> (i + 1) * FLAGS_slice_size cfg \<le> 2 ^ 32 \<Longrightarrow>
     slice_upper cfg i = (i + 1) * FLAGS_slice_size cfg - 1"
  unfolding slice_upper_def by (intro minus_one_u32) simp_all

lemma block_upper_small [geometry]:
  "0 < FLAGS_block_size cfg \<Longrightarrow> (i + 1) * FLAGS_block_size cfg \<le> 2 ^ 32 \<Longrightarrow>
     block_upper cfg i = (i + 1) * FLAGS_block_size cfg - 1"
  unfolding block_upper_def by (intro minus_one_u32) simp_all

lemma slice_lower_off [geometry]:
  assumes "off < 2 ^ 32"
  shows "slice_lower cfg (off2slice cfg off) = off - off mod FLAGS_slice_size cfg"
proof -
  have "off div FLAGS_slice_size cfg * FLAGS_slice_size cfg \<le> off" by simp
  with assms have "off div FLAGS_slice_size cfg * FLAGS_slice_size cfg < 2 ^ 32" by linarith
  then show ?thesis using assms by (simp add: geometry minus_mod_eq_div_mult)
qed

lemma slice_count_mult:
  assumes "config_ok cfg"
  shows "block_slice_count cfg * FLAGS_slice_size cfg = FLAGS_block_size cfg"
    and "0 < block_slice_count cfg"
proof -
  from assms have dvd: "FLAGS_slice_size cfg dvd FLAGS_block_size cfg"
    and pos: "0 < FLAGS_block_size cfg" "0 < FLAGS_slice_size cfg"
    and bd: "FLAGS_block_size cfg < 2 ^ 32"
    by (auto simp: config_ok_def)
  have "FLAGS_block_size cfg div FLAGS_slice_size cfg < 2 ^ 32"
    using bd div_le_dividend [of "FLAGS_block_size cfg" "FLAGS_slice_size cfg"] by linarith
  then have eq: "block_slice_count cfg = FLAGS_block_size cfg div FLAGS_slice_size cfg"
    by (simp add: block_slice_count_def)
  show m: "block_slice_count cfg * FLAGS_slice_size cfg = FLAGS_block_size cfg"
    using dvd by (simp add: eq)
  show "0 < block_slice_count cfg"
    using m pos by (metis gr0I mult_0 not_less_zero)
qed

section \<open>Rounding\<close>

text \<open>
  Signed 64-bit arithmetic: the division truncates towards zero (\<open>sdiv\<close>) and is undefined for a zero
  divisor, and every intermediate result that leaves the range of \<^verbatim>\<open>int64_t\<close> is undefined too
  (\<open>None\<close>). The second \<^verbatim>\<open>return\<close> of \<^verbatim>\<open>round_down\<close> in the source is unreachable.
\<close>

definition round_up :: "int \<Rightarrow> int \<Rightarrow> int option" where
  "round_up v factor =
     do { f \<leftarrow> checked_i64 (factor - 1);
          n \<leftarrow> checked_i64 (v + f);
          guard (factor \<noteq> 0);
          q \<leftarrow> checked_i64 (n sdiv factor);
          checked_i64 (q * factor) }"

definition round_down :: "int \<Rightarrow> int \<Rightarrow> int option" where
  "round_down v factor =
     do { f \<leftarrow> checked_i64 (factor - 1);
          n \<leftarrow> checked_i64 (v + f);
          guard (factor \<noteq> 0);
          q \<leftarrow> checked_i64 (n sdiv factor);
          checked_i64 (q * factor) }"

lemma sdiv_nonneg: "0 \<le> a \<Longrightarrow> 0 < b \<Longrightarrow> (a :: int) sdiv b = a div b"
  by (auto simp: signed_divide_int_def sgn_if)

lemma sdiv_round:
  assumes "0 < u"
  shows "(int n + (int u - 1)) sdiv int u = int ((n + (u - 1)) div u)"
proof -
  have "int n + (int u - 1) = int (n + (u - 1))" using assms by simp
  then show ?thesis using assms by (simp only: sdiv_nonneg zdiv_int of_nat_0_le_iff of_nat_0_less_iff)
qed

text \<open>A sum that leaves the range is refused; any other is rounded up to a multiple.\<close>

lemma round_up_SomeD:
  assumes "0 < u" and "round_up (int n) (int u) = Some r"
  shows "r = int ((n + (u - 1)) div u * u)"
  using assms by (auto simp: round_up_def sdiv_round split: Option.bind_splits dest!: checked_i64_Some)

lemma round_up_nat:
  assumes "0 < u" and "n + u \<le> 2 ^ 63"
  shows "round_up (int n) (int u) = Some (int ((n + (u - 1)) div u * u))"
proof -
  let ?q = "(n + (u - 1)) div u"
  have b: "n + (u - 1) < 2 ^ 63" using assms by linarith
  have "?q * u \<le> n + (u - 1)" "?q \<le> n + (u - 1)" by (rule div_times_less_eq_dividend, rule div_le_dividend)
  with b have lt: "?q * u < 2 ^ 63" "?q < 2 ^ 63" by linarith+
  have q: "checked_i64 (int ?q * int u) = Some (int (?q * u))" "checked_i64 (int ?q) = Some (int ?q)"
    using checked_i64_nat [OF lt(1)] checked_i64_nat [OF lt(2)] by (simp_all only: of_nat_mult)
  have eq: "int (u - 1) = int u - 1" "int (n + (u - 1)) = int n + (int u - 1)" using assms(1) by simp_all
  have "u - 1 < 2 ^ 63" using b by linarith
  note f = checked_i64_nat [OF this, unfolded eq] and s = checked_i64_nat [OF b, unfolded eq]
  have "int u \<noteq> 0" using assms(1) by simp
  then show ?thesis by (simp only: round_up_def f s q sdiv_round [OF assms(1)] bind.bind_lunit) simp
qed

lemma round_up_mult_bounds:
  assumes "0 < (u :: nat)"
  shows "n \<le> (n + (u - 1)) div u * u" and "(n + (u - 1)) div u * u < n + u"
proof -
  let ?q = "(n + (u - 1)) div u" and ?r = "(n + (u - 1)) mod u"
  have "?q * u + ?r = n + (u - 1)" by simp
  moreover have "?r < u" using assms by simp
  ultimately show "n \<le> ?q * u" "?q * u < n + u" using assms by linarith+
qed

section \<open>Alignment\<close>

definition mem_need_align :: "ext_ops \<Rightarrow> config \<Rightarrow> nat \<Rightarrow> nat \<Rightarrow> bool" where
  "mem_need_align X cfg data sz =
     (if FLAGS_enable_os_page_cache cfg then False
      else let aligned_unit = FLAGS_io_align_unit_size cfg in
        if x_is_aligned X data aligned_unit \<and> sz mod aligned_unit = 0 then False else True)"

text \<open>
  \<open>memalign n\<close> is what \<^verbatim>\<open>posix_memalign\<close> answers for \<open>n\<close> bytes: \<open>None\<close> when it fails, else the
  (indeterminate) content of the fresh memory. \<^verbatim>\<open>align_iobuf\<close> returns the aligned size, 0 when the
  allocation fails, and the filled memory.
\<close>

definition align_iobuf ::
    "config \<Rightarrow> (nat \<Rightarrow> bytes option) \<Rightarrow> iobuf \<Rightarrow> (nat \<times> bytes) option" where
  "align_iobuf cfg memalign buf =
     do { aligned_size \<leftarrow> round_up (int (iobuf_size buf)) (int (FLAGS_io_align_unit_size cfg));
          (case memalign (nat aligned_size) of
             None \<Rightarrow> Some (0, [])
           | Some mem \<Rightarrow>
               Some (nat aligned_size, iobuf_bytes buf @ drop (iobuf_size buf) mem)) }"

definition memalign_ok :: "(nat \<Rightarrow> bytes option) \<Rightarrow> bool" where
  "memalign_ok memalign \<longleftrightarrow> (\<forall>n mem. memalign n = Some mem \<longrightarrow> length mem = n)"

section \<open>Checksums\<close>

fun crc32_blocks :: "ext_ops \<Rightarrow> iobuf \<Rightarrow> u32 \<Rightarrow> u32" where
  "crc32_blocks X [] hash = hash"
| "crc32_blocks X (sp # sps) hash =
     crc32_blocks X sps (if sp \<noteq> [] then x_crc32c_extend X hash sp else hash)"

definition crc32_iobuf :: "ext_ops \<Rightarrow> iobuf \<Rightarrow> u32" where
  "crc32_iobuf X buf = crc32_blocks X buf 0"

lemma crc32_blocks_eq:
  "ext_ok X \<Longrightarrow> crc32_blocks X buf h = x_crc32c_extend X h (iobuf_bytes buf)"
  by (induction buf arbitrary: h) (auto simp: ext_crc_nil ext_crc_append)

lemma crc32_iobuf_eq: "ext_ok X \<Longrightarrow> crc32_iobuf X buf = x_crc32c_extend X 0 (iobuf_bytes buf)"
  by (simp add: crc32_iobuf_def crc32_blocks_eq)

lemma align_iobuf_Some:
  assumes "0 < FLAGS_io_align_unit_size cfg" and "memalign_ok memalign"
    and "align_iobuf cfg memalign buf = Some (n, d)" and "n \<noteq> 0"
  shows "length d = n" and "take (iobuf_size buf) d = iobuf_bytes buf"
    and "FLAGS_io_align_unit_size cfg dvd n" and "iobuf_size buf \<le> n"
    and "n < iobuf_size buf + FLAGS_io_align_unit_size cfg"
proof -
  let ?u = "FLAGS_io_align_unit_size cfg" and ?s = "iobuf_size buf"
  from assms(3,4) obtain mem where mem: "memalign ((?s + (?u - 1)) div ?u * ?u) = Some mem"
    and n: "n = (?s + (?u - 1)) div ?u * ?u" and d: "d = iobuf_bytes buf @ drop ?s mem"
    unfolding align_iobuf_def
    by (auto split: option.splits Option.bind_splits dest!: round_up_SomeD [OF assms(1)] simp flip: of_nat_mult)
  have len: "length mem = n" using mem n assms(2) by (auto simp: memalign_ok_def)
  show bounds: "?s \<le> n" "n < ?s + ?u"
    using round_up_mult_bounds [OF assms(1), of ?s] by (simp_all only: n)
  show "?u dvd n" by (simp only: n dvd_triv_right)
  show "length d = n" "take ?s d = iobuf_bytes buf" using len bounds d by simp_all
qed

section \<open>Properties of the geometry, of rounding and of checksums\<close>

text \<open>
  Below 4 GiB, the slice an offset is assigned to starts at or before the offset, ends at or
  after it, and has the slice size.
\<close>

lemma slice_bounds_cover_offset:
  assumes "0 < FLAGS_slice_size cfg" and "off + FLAGS_slice_size cfg \<le> 2 ^ 32"
  shows "slice_lower cfg (off2slice cfg off) \<le> off \<and> off \<le> slice_upper cfg (off2slice cfg off) \<and>
    slice_upper cfg (off2slice cfg off) + 1 = slice_lower cfg (off2slice cfg off) + FLAGS_slice_size cfg"
proof -
  let ?s = "FLAGS_slice_size cfg" and ?q = "off div FLAGS_slice_size cfg"
  have off: "off < 2 ^ 32" using assms by linarith
  have m: "?q * ?s + off mod ?s = off" "off mod ?s < ?s" using assms(1) by simp_all
  have "(?q + 1) * ?s = ?q * ?s + ?s" by simp
  then have le: "(?q + 1) * ?s \<le> 2 ^ 32" using assms(2) m(1) by linarith
  have "slice_upper cfg (off2slice cfg off) + 1 = ?q * ?s + ?s"
    using slice_upper_small [OF assms(1) le] assms(1) by (simp add: off2slice_small [OF off])
  moreover have "slice_lower cfg (off2slice cfg off) = ?q * ?s"
    using slice_lower_off [OF off, of cfg] m(1) by linarith
  ultimately show ?thesis using m by linarith
qed

text \<open>
  C38: the bounds of the slice and of the block of an offset are those of the offset reduced modulo \<open>2 ^ 32\<close>, for every
  configuration and every offset; so from 4 GiB on the slice and the block an offset is assigned to end before it.
\<close>

theorem bounds_wrap_beyond_4GiB:
  assumes "0 < FLAGS_slice_size cfg" and "0 < FLAGS_block_size cfg"
  shows "slice_lower cfg (off2slice cfg off) = off div FLAGS_slice_size cfg * FLAGS_slice_size cfg mod 2 ^ 32 \<and>
    slice_upper cfg (off2slice cfg off) = (off div FLAGS_slice_size cfg * FLAGS_slice_size cfg + FLAGS_slice_size cfg - 1) mod 2 ^ 32 \<and>
    block_lower cfg (off2block cfg off) = off div FLAGS_block_size cfg * FLAGS_block_size cfg mod 2 ^ 32 \<and>
    block_upper cfg (off2block cfg off) = (off div FLAGS_block_size cfg * FLAGS_block_size cfg + FLAGS_block_size cfg - 1) mod 2 ^ 32 \<and>
    (2 ^ 32 \<le> off \<longrightarrow> slice_upper cfg (off2slice cfg off) < off \<and> block_upper cfg (off2block cfg off) < off)"
proof -
  have upper: "to_u32 ((to_u32 q + 1) * u + (2 ^ 32 - 1)) = (q * u + u - 1) mod 2 ^ 32" if "0 < u" for q u :: nat
  proof -
    have "((q mod 2 ^ 32 + 1) * u + (2 ^ 32 - 1)) mod 2 ^ 32 = ((q + 1) * u + (2 ^ 32 - 1)) mod 2 ^ 32"
      by (intro mod_add_cong mod_mult_cong) (simp_all add: mod_add_left_eq)
    also have "(q + 1) * u + (2 ^ 32 - 1) = (q * u + u - 1) + 2 ^ 32" using that by simp
    finally show ?thesis by (simp only: to_u32_def mod_add_self2)
  qed
  have "slice_upper cfg (off2slice cfg off) < 2 ^ 32" "block_upper cfg (off2block cfg off) < 2 ^ 32"
    by (simp_all only: slice_upper_def block_upper_def to_u32_bound)
  moreover have "to_u32 (to_u32 q * u) = q * u mod 2 ^ 32" for q u by (simp only: to_u32_def mod_mult_left_eq)
  ultimately show ?thesis
    by (simp only: slice_lower_def slice_upper_def block_lower_def block_upper_def off2slice_def off2block_def upper [OF assms(1)] upper [OF assms(2)])
      linarith
qed

theorem bounds_wrap_beyond_4GiB_witness:
  "slice_lower default_config (off2slice default_config (2 ^ 32 + 70000)) = 65536 \<and>
   slice_upper default_config (off2slice default_config (2 ^ 32 + 70000)) = 131071"
  using bounds_wrap_beyond_4GiB [of default_config "2 ^ 32 + 70000"] by (simp add: default_config_def)

text \<open>\<^verbatim>\<open>round_down\<close> does not round down: off the multiples of the factor it returns a larger value.\<close>

lemma round_down_rounds_up:
  assumes "0 < (u :: nat)" and "\<not> u dvd n" and "n + u \<le> 2 ^ 63"
  shows "\<exists>m. round_down (int n) (int u) = Some (int m) \<and> n < m \<and> u dvd m \<and> m < n + u"
proof -
  let ?m = "(n + (u - 1)) div u * u"
  have "round_down (int n) (int u) = Some (int ?m)"
    using round_up_nat [OF assms(1,3)] by (simp only: round_down_def round_up_def)
  moreover have "n \<noteq> ?m" using assms(2) by (metis dvd_triv_right)
  ultimately show ?thesis using round_up_mult_bounds [OF assms(1), of n] by (metis dvd_triv_right le_neq_implies_less)
qed

text \<open>
  C39: the checksum stored with a block does not depend on how the buffer is cut into backing blocks,
  so data read back in other pieces still verifies.
\<close>

theorem crc32_ignores_fragmentation:
  assumes "ext_ok X" and "iobuf_bytes a = iobuf_bytes b"
  shows "crc32_iobuf X a = crc32_iobuf X b"
  using assms by (simp add: crc32_iobuf_eq)

theorem crc32_ignores_fragmentation_witness:
  "crc32_iobuf simple_ext [[1, 2], [], [3]] = crc32_iobuf simple_ext [[1], [2, 3]]"
  by (rule crc32_ignores_fragmentation [OF simple_ext_ok]) simp

end
