(* ===== verification/BlockFile.thy ===== *)
theory BlockFile
  imports AuxFuncs
begin

text \<open>
  \<^verbatim>\<open>BlockFile\<close> of \<^verbatim>\<open>src/block_file.{h,cpp}\<close>: a file of blocks, opened for direct I/O unless the page
  cache is enabled, and its positional reads and writes. The system calls are a record of functions
  on an abstract operating system state (\<open>os_ops\<close>); \<open>os_ok\<close> states what POSIX documents of them. A
  call answers with its return value and \<^verbatim>\<open>errno\<close>.
\<close>

section \<open>The system calls\<close>

text \<open>
  \<open>os_open path direct\<close>; \<open>os_pread fd buf off\<close> gives the buffer after the call (of the same length);
  \<open>os_memalign n\<close> the fresh memory, or \<open>None\<close>; \<open>os_list_dir path\<close> the names in a
  directory and whether each is a directory, or \<open>None\<close> (the iterator throws); \<open>os_byte w fd i\<close> is byte \<open>i\<close> of the open file.
\<close>

record 'w os_ops =
  os_open :: "string \<Rightarrow> bool \<Rightarrow> 'w \<Rightarrow> int \<times> nat \<times> 'w"
  os_ftruncate :: "int \<Rightarrow> nat \<Rightarrow> 'w \<Rightarrow> int \<times> nat \<times> 'w"
  os_close :: "int \<Rightarrow> 'w \<Rightarrow> int \<times> nat \<times> 'w"
  os_pwrite :: "int \<Rightarrow> bytes \<Rightarrow> nat \<Rightarrow> 'w \<Rightarrow> int \<times> nat \<times> 'w"
  os_pwritev :: "int \<Rightarrow> bytes list \<Rightarrow> nat \<Rightarrow> 'w \<Rightarrow> int \<times> nat \<times> 'w"
  os_pread :: "int \<Rightarrow> bytes \<Rightarrow> nat \<Rightarrow> 'w \<Rightarrow> int \<times> nat \<times> bytes"
  os_preadv :: "int \<Rightarrow> bytes list \<Rightarrow> nat \<Rightarrow> 'w \<Rightarrow> int \<times> nat \<times> bytes list"
  os_memalign :: "nat \<Rightarrow> bytes option"
  os_memalign_error :: nat
  os_malloc :: "nat \<Rightarrow> bytes"
  os_list_dir :: "string \<Rightarrow> 'w \<Rightarrow> (string \<times> bool) list option"
  os_remove :: "string \<Rightarrow> 'w \<Rightarrow> nat \<times> 'w"
  os_exists :: "string \<Rightarrow> 'w \<Rightarrow> bool"
  os_create_directory :: "string \<Rightarrow> 'w \<Rightarrow> bool \<times> 'w"
  os_byte :: "'w \<Rightarrow> int \<Rightarrow> nat \<Rightarrow> byte"

text \<open>
  What POSIX promises: a successful \<^verbatim>\<open>pwrite\<close> of \<open>r\<close> bytes puts the first \<open>r\<close> bytes of the buffer at the
  offset and changes nothing else; a successful \<^verbatim>\<open>pread\<close> of \<open>r\<close> bytes fills the first \<open>r\<close> bytes of the
  buffer; \<open>r\<close> is at most the size asked for; a failed call sets \<^verbatim>\<open>errno\<close> and writes nothing.
\<close>

definition pwrite_ok :: "'w os_ops \<Rightarrow> bool" where
  "pwrite_ok OS \<longleftrightarrow> (\<forall>fd d off w r e w'. os_pwrite OS fd d off w = (r, e, w') \<longrightarrow>
     (if r < 0 then e \<noteq> 0 \<and> (\<forall>f i. os_byte OS w' f i = os_byte OS w f i)
      else nat r \<le> length d \<and> (\<forall>f i. os_byte OS w' f i =
        (if f = fd \<and> off \<le> i \<and> i < off + nat r then d ! (i - off) else os_byte OS w f i))))"

definition pread_ok :: "'w os_ops \<Rightarrow> bool" where
  "pread_ok OS \<longleftrightarrow> (\<forall>fd d off w r e d'. os_pread OS fd d off w = (r, e, d') \<longrightarrow> length d' = length d \<and>
     (if r < 0 then r = - 1 \<and> e \<noteq> 0
      else nat r \<le> length d \<and> (\<forall>i < nat r. d' ! i = os_byte OS w fd (off + i))))"

definition os_ok :: "'w os_ops \<Rightarrow> bool" where
  "os_ok OS \<longleftrightarrow> pwrite_ok OS \<and> pread_ok OS \<and> memalign_ok (os_memalign OS) \<and> os_memalign_error OS \<noteq> 0 \<and>
     (\<forall>n. length (os_malloc OS n) = n) \<and>
     (\<forall>fd bs off w. os_pwritev OS fd bs off w = os_pwrite OS fd (concat bs) off w)"

section \<open>The operations\<close>

record block_file =
  bf_path :: string
  bf_quota :: nat
  bf_fd :: int

definition block_file_new :: "string \<Rightarrow> nat \<Rightarrow> block_file" where
  "block_file_new path quota = \<lparr>bf_path = path, bf_quota = quota, bf_fd = 0\<rparr>"

text \<open>A status built from \<^verbatim>\<open>errno\<close> is an error unless \<^verbatim>\<open>errno\<close> is 0.\<close>

definition report_io_error :: "nat \<Rightarrow> status" where
  "report_io_error errno = (if errno = 0 then OK else Err (Errno errno))"

definition bf_open :: "'w os_ops \<Rightarrow> config \<Rightarrow> bool \<Rightarrow> block_file \<Rightarrow> 'w \<Rightarrow> status \<times> block_file \<times> 'w" where
  "bf_open OS cfg pre_allocate f w =
     (let (fd, e, w) = os_open OS (bf_path f) (\<not> FLAGS_enable_os_page_cache cfg) w;
          f = f\<lparr>bf_fd := fd\<rparr>
      in if fd < 0 then (report_io_error e, f, w)
         else if pre_allocate then
           (let (r, e, w) = os_ftruncate OS fd (bf_quota f) w
            in if r \<noteq> 0 then (report_io_error e, f, w) else (OK, f, w))
         else (OK, f, w))"

definition bf_close :: "'w os_ops \<Rightarrow> block_file \<Rightarrow> 'w \<Rightarrow> status \<times> 'w" where
  "bf_close OS f w =
     (let (r, e, w) = os_close OS (bf_fd f) w
      in if r \<noteq> 0 then (report_io_error e, w) else (OK, w))"

text \<open>The destructor closes a file whose descriptor is positive.\<close>

definition bf_destroy :: "'w os_ops \<Rightarrow> block_file \<Rightarrow> 'w \<Rightarrow> 'w" where
  "bf_destroy OS f w = (if 0 < bf_fd f then snd (bf_close OS f w) else w)"

text \<open>
  \<open>data_addr\<close> is the address of the first backing block. The three ways to write: an aligned copy,
  the single block in place, or all blocks by \<^verbatim>\<open>pwritev\<close>. Where \<^verbatim>\<open>align_iobuf\<close> returns 0 no call is made
  and \<^verbatim>\<open>ret\<close> is still -1. \<open>None\<close> is a zero \<^verbatim>\<open>io_align_unit_size\<close>.
\<close>

definition write_aligned ::
    "'w os_ops \<Rightarrow> config \<Rightarrow> int \<Rightarrow> nat \<Rightarrow> iobuf \<Rightarrow> 'w \<Rightarrow> (nat \<times> int \<times> nat \<times> 'w) option" where
  "write_aligned OS cfg fd offset buf w =
     do { (aligned_size, aligned_data) \<leftarrow> align_iobuf cfg (os_memalign OS) buf;
          Some (aligned_size, if 0 < aligned_size then os_pwrite OS fd aligned_data offset w else (- 1, 0, w)) }"

definition bf_write ::
    "ext_ops \<Rightarrow> 'w os_ops \<Rightarrow> config \<Rightarrow> nat \<Rightarrow> block_file \<Rightarrow> nat \<Rightarrow> iobuf \<Rightarrow> 'w \<Rightarrow> (status \<times> 'w) option" where
  "bf_write X OS cfg data_addr f offset buf w =
     do { (aligned_size, ret, errno, w) \<leftarrow>
            (if length buf = 1 then
               (if mem_need_align X cfg data_addr (iobuf_size buf) then write_aligned OS cfg (bf_fd f) offset buf w
                else Some (iobuf_size buf, os_pwrite OS (bf_fd f) (hd buf) offset w))
             else if \<not> FLAGS_enable_os_page_cache cfg then write_aligned OS cfg (bf_fd f) offset buf w
             else Some (iobuf_size buf, os_pwritev OS (bf_fd f) buf offset w));
          Some (if ret < 0 then (if aligned_size = 0 then Err ENOMEM else report_io_error errno, w)
                else (OK, w)) }"

text \<open>A return value of 64 bits stored in an \<^verbatim>\<open>int\<close>.\<close>

definition to_int :: "int \<Rightarrow> int" where
  "to_int r = (r + 2 ^ 31) mod 2 ^ 32 - 2 ^ 31"

lemma to_int_id: "- (2 ^ 31) \<le> r \<Longrightarrow> r < 2 ^ 31 \<Longrightarrow> to_int r = r"
  by (simp add: to_int_def)

definition bf_read ::
    "ext_ops \<Rightarrow> 'w os_ops \<Rightarrow> config \<Rightarrow> block_file \<Rightarrow> nat \<Rightarrow> nat \<Rightarrow> iobuf \<Rightarrow> 'w \<Rightarrow> (status \<times> iobuf) option" where
  "bf_read X OS cfg f offset sz buf w =
     do { data \<leftarrow>
            (if FLAGS_enable_os_page_cache cfg then Some (Some (os_malloc OS sz))
             else do { aligned_size \<leftarrow> round_up (int sz) (int (FLAGS_io_align_unit_size cfg));
                       Some (os_memalign OS (nat aligned_size)) });
          Some (case data of
             None \<Rightarrow> (report_io_error (os_memalign_error OS), buf)
           | Some data \<Rightarrow>
               (let (r, errno, data) = os_pread OS (bf_fd f) data offset w;
                    ret = to_int r
                in if ret < 0 then (report_io_error errno, buf)
                   else (OK, x_append_user_data X buf data))) }"

definition bf_writev :: "'w os_ops \<Rightarrow> block_file \<Rightarrow> nat \<Rightarrow> iobuf list \<Rightarrow> 'w \<Rightarrow> status \<times> 'w" where
  "bf_writev OS f offset bufv w =
     (let (ret, errno, w) = os_pwritev OS (bf_fd f) (concat bufv) offset w
      in if ret < 0 then (report_io_error errno, w) else (OK, w))"

definition bf_readv ::
    "ext_ops \<Rightarrow> 'w os_ops \<Rightarrow> block_file \<Rightarrow> nat \<Rightarrow> nat list \<Rightarrow> iobuf list \<Rightarrow> 'w \<Rightarrow> (status \<times> iobuf list) option" where
  "bf_readv X OS f offset sizev bufv w =
     (let iov = map (os_malloc OS) sizev;
          (r, errno, iov) = os_preadv OS (bf_fd f) iov offset w;
          ret = to_int r
      in if ret < 0 then Some (report_io_error errno, bufv)
         else do { guard (length sizev \<le> length bufv);
                   Some (OK, map2 (x_append_user_data X) bufv iov @ drop (length sizev) bufv) })"


section \<open>What a write leaves and a read returns\<close>

lemma report_io_error_OK [simp]: "(report_io_error e = OK) = (e = 0)" "(OK = report_io_error e) = (e = 0)"
  by (simp_all add: report_io_error_def)

lemma pwriteD:
  assumes "os_ok OS" and "os_pwrite OS fd d off w = (r, e, w')"
  shows "r < 0 \<Longrightarrow> e \<noteq> 0 \<and> os_byte OS w' f i = os_byte OS w f i"
    and "0 \<le> r \<Longrightarrow> nat r \<le> length d \<and> os_byte OS w' f i =
           (if f = fd \<and> off \<le> i \<and> i < off + nat r then d ! (i - off) else os_byte OS w f i)"
  using assms by (force simp: os_ok_def pwrite_ok_def split: if_splits)+

lemma preadD:
  assumes "os_ok OS" and "os_pread OS fd d off w = (r, e, d')"
  shows "length d' = length d" and "r < 0 \<Longrightarrow> r = - 1 \<and> e \<noteq> 0"
    and "0 \<le> r \<Longrightarrow> i < nat r \<Longrightarrow> d' ! i = os_byte OS w fd (off + i)" and "0 \<le> r \<Longrightarrow> nat r \<le> length d"
  using assms by (force simp: os_ok_def pread_ok_def split: if_splits)+

text \<open>Every path of \<open>bf_write\<close> is at most one positional write of the buffer, possibly padded.\<close>

lemma bf_write_cases:
  assumes "os_ok OS" and "0 < FLAGS_io_align_unit_size cfg"
    and "bf_write X OS cfg a f off buf w = Some (st, w')"
  obtains (call) d r e where "os_pwrite OS (bf_fd f) d off w = (r, e, w')" and "take (iobuf_size buf) d = iobuf_bytes buf"
      and "iobuf_size buf \<le> length d" and "length d < iobuf_size buf + FLAGS_io_align_unit_size cfg"
      and "length d = iobuf_size buf \<or> FLAGS_io_align_unit_size cfg dvd length d"
      and "st = (if r < 0 then (if length d = 0 then Err ENOMEM else report_io_error e) else OK)"
    | (no_call) "st \<noteq> OK" and "w' = w"
proof -
  let ?s = "iobuf_size buf" and ?u = "FLAGS_io_align_unit_size cfg"
  have mem: "memalign_ok (os_memalign OS)"
    and pv: "os_pwritev OS fd bs o' w = os_pwrite OS fd (concat bs) o' w" for fd bs o'
    using assms(1) by (simp_all add: os_ok_def)
  have direct: thesis if "a2 = iobuf_bytes buf" and "os_pwrite OS (bf_fd f) a2 off w = (r, e, w1)"
    and "Some (if r < 0 then (if ?s = 0 then Err ENOMEM else report_io_error e, w1) else (OK, w1)) = Some (st, w')"
    for a2 r e w1
    using that assms(2) by (intro call [of a2 r e]) (auto split: if_splits)
  have aligned: thesis if
    "write_aligned OS cfg (bf_fd f) off buf w = Some (n, r, e, w1)"
    and fin: "Some (if r < 0 then (if n = 0 then Err ENOMEM else report_io_error e, w1) else (OK, w1)) = Some (st, w')"
    for n r e w1
  proof -
    from that(1) obtain d where d: "align_iobuf cfg (os_memalign OS) buf = Some (n, d)"
      and c: "(if 0 < n then os_pwrite OS (bf_fd f) d off w else (- 1, 0, w)) = (r, e, w1)"
      by (auto simp: write_aligned_def split: Option.bind_splits)
    show thesis
    proof (cases "n = 0")
      case True
      with c fin show thesis by (intro no_call) auto
    next
      case False
      note A = align_iobuf_Some [OF assms(2) mem d False]
      show thesis using False c fin A by (intro call [of d r e]) (auto split: if_splits)
    qed
  qed
  have one: "concat buf = hd buf" if "length buf = 1"
    using that by (cases buf) auto
  from assms(3) obtain n r e w1 where q:
      "(if length buf = 1 then
          (if mem_need_align X cfg a ?s then write_aligned OS cfg (bf_fd f) off buf w
           else Some (?s, os_pwrite OS (bf_fd f) (hd buf) off w))
        else if \<not> FLAGS_enable_os_page_cache cfg then write_aligned OS cfg (bf_fd f) off buf w
        else Some (?s, os_pwritev OS (bf_fd f) buf off w)) = Some (n, r, e, w1)"
    and fin: "Some (if r < 0 then (if n = 0 then Err ENOMEM else report_io_error e, w1) else (OK, w1)) = Some (st, w')"
    unfolding bf_write_def bind_eq_Some_conv by auto
  show thesis
  proof (cases "write_aligned OS cfg (bf_fd f) off buf w = Some (n, r, e, w1)")
    case True
    then show thesis using fin by (rule aligned)
  next
    case False
    with q one pv have n: "n = ?s" and p: "os_pwrite OS (bf_fd f) (concat buf) off w = (r, e, w1)"
      by (auto split: if_splits)
    from fin n have "Some (if r < 0 then (if ?s = 0 then Err ENOMEM else report_io_error e, w1) else (OK, w1)) = Some (st, w')"
      by (simp only: n)
    then show thesis by (rule direct [OF refl p])
  qed
qed


text \<open>
  A successful \<open>bf_read\<close> is one positional read into a buffer of at least the size asked for; the whole
  buffer is returned, of which the first \<open>m\<close> bytes, the count the call answered, are those of the file.
\<close>

lemma bf_read_call:
  assumes os: "os_ok OS" and ext: "ext_ok X" and u: "0 < FLAGS_io_align_unit_size cfg"
    and small: "sz + FLAGS_io_align_unit_size cfg < 2 ^ 31"
    and r: "bf_read X OS cfg f off sz [] w = Some (OK, out)"
  obtains b m e where "os_pread OS (bf_fd f) b off w = (int m, e, iobuf_bytes out)" and "m \<le> length b" and "sz \<le> length b"
    and "length b = iobuf_size out" and "\<And>i. i < m \<Longrightarrow> iobuf_bytes out ! i = os_byte OS w (bf_fd f) (off + i)"
proof -
  define k where "k = (sz + (FLAGS_io_align_unit_size cfg - 1)) div FLAGS_io_align_unit_size cfg * FLAGS_io_align_unit_size cfg"
  have "sz + FLAGS_io_align_unit_size cfg \<le> 2 ^ 63" using small by simp
  note R = round_up_nat [OF u this, folded k_def] and B = round_up_mult_bounds [OF u, of sz, folded k_def]
  from os have E: "os_memalign_error OS \<noteq> 0" and M: "memalign_ok (os_memalign OS)"
    and L: "length (os_malloc OS sz) = sz"
    by (auto simp: os_ok_def)
  obtain data n where len: "length data = n" and n: "sz \<le> n" "n < 2 ^ 31"
    and q: "(let (r, errno, data) = os_pread OS (bf_fd f) data off w; ret = to_int r
             in if ret < 0 then (report_io_error errno, []) else (OK, x_append_user_data X [] data)) = (OK, out)"
  proof (cases "FLAGS_enable_os_page_cache cfg")
    case True
    show thesis using r True small by (intro that [OF L]) (auto simp: bf_read_def)
  next
    case False
    then obtain data where d: "os_memalign OS k = Some data"
      using r E unfolding bf_read_def R nat_int by (auto split: option.splits)
    moreover have "length data = k" using d M by (auto simp: memalign_ok_def)
    ultimately show thesis using r False small B unfolding bf_read_def R nat_int
      by (intro that [of data k]) auto
  qed
  obtain t e d where p: "os_pread OS (bf_fd f) data off w = (t, e, d)" by (cases "os_pread OS (bf_fd f) data off w")
  have t0: "0 \<le> t"
    using q p preadD(2) [OF os p] by (cases "t < 0") (auto simp: to_int_def)
  then have t: "nat t \<le> n" "int (nat t) = t" using preadD(4) [OF os p] len by simp_all
  then have "to_int t = t" using n t0 by (intro to_int_id) simp_all
  then have out: "iobuf_bytes out = d" using q p t0 ext by (auto simp: ext_user_data)
  show thesis
    using p preadD(1) [OF os p] preadD(3) [OF os p t0] t n len by (intro that [of data "nat t" e]) (simp_all add: out)
qed


section \<open>A concrete operating system\<close>

text \<open>
  The paths opened so far and the bytes of each descriptor; descriptors count up from 3 and every
  transfer is complete. \<open>lazy_os\<close> accepts every write and transfers nothing, as POSIX allows.
\<close>

type_synonym simple_world = "string list \<times> (int \<Rightarrow> nat \<Rightarrow> byte)"

definition put_bytes :: "(int \<Rightarrow> nat \<Rightarrow> byte) \<Rightarrow> int \<Rightarrow> nat \<Rightarrow> bytes \<Rightarrow> int \<Rightarrow> nat \<Rightarrow> byte" where
  "put_bytes m fd off d = (\<lambda>f i. if f = fd \<and> off \<le> i \<and> i < off + length d then d ! (i - off) else m f i)"

definition get_bytes :: "(int \<Rightarrow> nat \<Rightarrow> byte) \<Rightarrow> int \<Rightarrow> nat \<Rightarrow> nat \<Rightarrow> bytes" where
  "get_bytes m fd off n = map (\<lambda>i. m fd (off + i)) [0..<n]"

fun get_pieces :: "(int \<Rightarrow> nat \<Rightarrow> byte) \<Rightarrow> int \<Rightarrow> nat \<Rightarrow> nat list \<Rightarrow> bytes list" where
  "get_pieces m fd off [] = []"
| "get_pieces m fd off (n # ns) = get_bytes m fd off n # get_pieces m fd (off + n) ns"

definition simple_os :: "simple_world os_ops" where
  "simple_os = \<lparr>
     os_open = (\<lambda>path direct (ps, m). (int (length ps) + 3, 0, (ps @ [path], m))),
     os_ftruncate = (\<lambda>fd n w. (0, 0, w)),
     os_close = (\<lambda>fd w. (0, 0, w)),
     os_pwrite = (\<lambda>fd d off (ps, m). (int (length d), 0, (ps, put_bytes m fd off d))),
     os_pwritev = (\<lambda>fd bs off (ps, m). (int (length (concat bs)), 0, (ps, put_bytes m fd off (concat bs)))),
     os_pread = (\<lambda>fd d off (ps, m). (int (length d), 0, get_bytes m fd off (length d))),
     os_preadv = (\<lambda>fd bs off (ps, m).
       (int (length (concat bs)), 0, get_pieces m fd off (map length bs))),
     os_memalign = (\<lambda>n. Some (replicate n 0)),
     os_memalign_error = 12,
     os_malloc = (\<lambda>n. replicate n 0),
     os_list_dir = (\<lambda>path w. Some []),
     os_remove = (\<lambda>path w. (0, w)),
     os_exists = (\<lambda>path w. True),
     os_create_directory = (\<lambda>path w. (True, w)),
     os_byte = snd\<rparr>"

definition lazy_os :: "simple_world os_ops" where
  "lazy_os = simple_os\<lparr>os_pwrite := (\<lambda>fd d off w. (0, 0, w)), os_pwritev := (\<lambda>fd bs off w. (0, 0, w))\<rparr>"

lemma simple_os_ok: "os_ok simple_os"
  by (auto simp: os_ok_def simple_os_def pwrite_ok_def pread_ok_def memalign_ok_def
        put_bytes_def get_bytes_def split: prod.splits)

lemma lazy_os_ok: "os_ok lazy_os"
  using simple_os_ok by (auto simp: os_ok_def lazy_os_def pwrite_ok_def pread_ok_def)

definition buffered_config :: config where
  "buffered_config = default_config\<lparr>FLAGS_enable_os_page_cache := True\<rparr>"

lemma buffered_config_unit: "FLAGS_io_align_unit_size buffered_config = 4096"
  by (simp add: buffered_config_def default_config_def)

section \<open>Properties of block files\<close>



text \<open>
  A write, successful or not, changes no byte of any other file and none of this one outside the
  range that starts at the offset and is shorter than the buffer plus one alignment unit.
\<close>

lemma block_file_write_is_local:
  assumes "os_ok OS" and "0 < FLAGS_io_align_unit_size cfg"
    and "bf_write X OS cfg a f off buf w = Some (st, w')"
    and "fd \<noteq> bf_fd f \<or> i < off \<or> off + iobuf_size buf + FLAGS_io_align_unit_size cfg \<le> i + 1"
  shows "os_byte OS w' fd i = os_byte OS w fd i"
proof (rule bf_write_cases [OF assms(1-3)])
  fix d r e
  assume p: "os_pwrite OS (bf_fd f) d off w = (r, e, w')"
    and d: "length d < iobuf_size buf + FLAGS_io_align_unit_size cfg"
  show ?thesis
  proof (cases "r < 0")
    case True
    then show ?thesis using pwriteD(1) [OF assms(1) p] by simp
  next
    case False
    then show ?thesis using pwriteD(2) [OF assms(1) p, of fd i] assms(4) d by auto
  qed
qed simp

text \<open>
  A short transfer is not noticed: there is an operating system that keeps every promise of POSIX
  on which a write reports success and stores not one byte.
\<close>

lemma short_write_reports_success:
  "os_ok lazy_os \<and> bf_write simple_ext lazy_os buffered_config 0 (block_file_new ''f'' 9) off [[b]] w = Some (OK, w)"
  by (intro conjI lazy_os_ok) (simp add: bf_write_def buffered_config_def lazy_os_def block_file_new_def mem_need_align_def)

end
