(* ===== verification/DiskSpace.thy ===== *)
theory DiskSpace
  imports BlockFile
begin

text \<open>
  \<^verbatim>\<open>src/disk_space_manager.{h,cpp}\<close>: the cache directories, each a bitmap of free blocks in spaces of
  1024 over a row of block files, the weighted round-robin router over the directories, and the
  manager that allocates, frees, reads and writes blocks. \<open>None\<close> is an index out of range or a failed
  \<^verbatim>\<open>DCHECK\<close>. The signed 64-bit weights of the router wrap (\<open>to_i64\<close>) where a sum overflows, which is
  undefined behaviour in the source: no result about the blocks depends on their values, and the result
  about the shares of the directories excludes it.
\<close>

section \<open>A cache directory\<close>

record block_space =
  bs_start :: nat
  bs_free_bits :: "bool list"
  bs_free_count :: nat

record cache_dir =
  cd_index :: nat
  cd_quota_bytes :: nat
  cd_path :: string
  cd_total_block_count :: nat
  cd_block_spaces :: "block_space list"
  cd_free_space_list :: "nat list"
  cd_block_files :: "block_file list"

definition BLOCK_FILE_PREFIX :: string where "BLOCK_FILE_PREFIX = ''blockfile''"
definition BLOCK_COUNT_IN_SPACE :: nat where "BLOCK_COUNT_IN_SPACE = 1024"

definition cache_dir_new :: "config \<Rightarrow> nat \<Rightarrow> nat \<Rightarrow> string \<Rightarrow> cache_dir" where
  "cache_dir_new cfg index quota_bytes path =
     \<lparr>cd_index = to_u8 index, cd_quota_bytes = quota_bytes, cd_path = path,
      cd_total_block_count = to_u32 (quota_bytes div FLAGS_block_size cfg),
      cd_block_spaces = [], cd_free_space_list = [], cd_block_files = []\<rparr>"

text \<open>
  The entry of the array past the full spaces stays as constructed where no block remains for it; it
  has no start then (0 here) and nothing reads it.
\<close>

definition full_space :: "nat \<Rightarrow> block_space" where
  "full_space i = \<lparr>bs_start = i * BLOCK_COUNT_IN_SPACE,
     bs_free_bits = replicate BLOCK_COUNT_IN_SPACE True, bs_free_count = BLOCK_COUNT_IN_SPACE\<rparr>"

definition init_free_space_list :: "cache_dir \<Rightarrow> cache_dir" where
  "init_free_space_list d =
     (let space_count = cd_total_block_count d div BLOCK_COUNT_IN_SPACE;
          spaces = map full_space [0..<space_count];
          free_list = [0..<space_count];
          cur_block_count = space_count * BLOCK_COUNT_IN_SPACE
      in if cur_block_count < cd_total_block_count d then
           (let remain_blocks = cd_total_block_count d - cur_block_count
            in d\<lparr>cd_block_spaces := spaces @ [\<lparr>bs_start = cur_block_count,
                   bs_free_bits = replicate remain_blocks True, bs_free_count = remain_blocks\<rparr>],
                 cd_free_space_list := free_list @ [space_count]\<rparr>)
         else d\<lparr>cd_block_spaces := spaces @ [\<lparr>bs_start = 0, bs_free_bits = [], bs_free_count = 0\<rparr>],
                cd_free_space_list := free_list\<rparr>)"

text \<open>The lowest set bit.\<close>

fun find_first :: "bool list \<Rightarrow> nat option" where
  "find_first [] = None"
| "find_first (b # bs) = (if b then Some 0 else map_option Suc (find_first bs))"

text \<open>\<^verbatim>\<open>CacheDir::alloc_block\<close>: the index of the block, or -1 when the directory is full.\<close>

definition dir_alloc_block :: "cache_dir \<Rightarrow> (int \<times> cache_dir) option" where
  "dir_alloc_block d =
     (case cd_free_space_list d of
        [] \<Rightarrow> Some (- 1, d)
      | front # rest \<Rightarrow>
          do { space \<leftarrow> nth_opt (cd_block_spaces d) front;
               inner_index \<leftarrow> find_first (bs_free_bits space);
               let count = to_u32 (bs_free_count space + (2 ^ 32 - 1));
                   space' = space\<lparr>bs_free_bits := (bs_free_bits space)[inner_index := False], bs_free_count := count\<rparr>;
                   d' = d\<lparr>cd_block_spaces := (cd_block_spaces d)[front := space'],
                          cd_free_space_list := (if count = 0 then rest else front # rest)\<rparr>
               in Some (int (bs_start space + inner_index), d') })"

definition dir_free_block :: "cache_dir \<Rightarrow> nat \<Rightarrow> cache_dir option" where
  "dir_free_block d block_index =
     (let space_index = block_index div BLOCK_COUNT_IN_SPACE
      in do { space \<leftarrow> nth_opt (cd_block_spaces d) space_index;
              guard (bs_start space \<le> block_index);
              let inner_index = block_index - bs_start space
              in do { bit \<leftarrow> nth_opt (bs_free_bits space) inner_index;
                      guard (\<not> bit);
                      let count = to_u32 (bs_free_count space + 1);
                          space' = space\<lparr>bs_free_bits := (bs_free_bits space)[inner_index := True], bs_free_count := count\<rparr>
                      in Some (d\<lparr>cd_block_spaces := (cd_block_spaces d)[space_index := space'],
                                 cd_free_space_list := (if count = 1 then cd_free_space_list d @ [space_index]
                                                        else cd_free_space_list d)\<rparr>) } })"

subsection \<open>The block files of a directory\<close>

definition dir_get_block_file :: "config \<Rightarrow> cache_dir \<Rightarrow> nat \<Rightarrow> block_file option" where
  "dir_get_block_file cfg d block_index =
     do { guard (file_block_count cfg \<noteq> 0);
          nth_opt (cd_block_files d) (block_index div file_block_count cfg) }"

definition dir_get_block_file_offset :: "config \<Rightarrow> nat \<Rightarrow> nat \<Rightarrow> nat" where
  "dir_get_block_file_offset cfg block_index offset_in_block =
     to_u64 (block_index mod file_block_count cfg * FLAGS_block_size cfg + offset_in_block)"

definition dir_write_block ::
    "ext_ops \<Rightarrow> 'w os_ops \<Rightarrow> config \<Rightarrow> nat \<Rightarrow> cache_dir \<Rightarrow> nat \<Rightarrow> nat \<Rightarrow> iobuf \<Rightarrow> 'w \<Rightarrow> (status \<times> 'w) option" where
  "dir_write_block X OS cfg a d block_index off buf w =
     do { file \<leftarrow> dir_get_block_file cfg d block_index;
          bf_write X OS cfg a file (dir_get_block_file_offset cfg block_index off) buf w }"

definition dir_read_block ::
    "ext_ops \<Rightarrow> 'w os_ops \<Rightarrow> config \<Rightarrow> cache_dir \<Rightarrow> nat \<Rightarrow> nat \<Rightarrow> nat \<Rightarrow> iobuf \<Rightarrow> 'w \<Rightarrow> (status \<times> iobuf) option" where
  "dir_read_block X OS cfg d block_index off sz buf w =
     do { file \<leftarrow> dir_get_block_file cfg d block_index;
          bf_read X OS cfg file (dir_get_block_file_offset cfg block_index off) sz buf w }"

definition dir_writev_block ::
    "'w os_ops \<Rightarrow> config \<Rightarrow> cache_dir \<Rightarrow> nat \<Rightarrow> nat \<Rightarrow> iobuf list \<Rightarrow> 'w \<Rightarrow> (status \<times> 'w) option" where
  "dir_writev_block OS cfg d block_index off bufv w =
     do { file \<leftarrow> dir_get_block_file cfg d block_index;
          Some (bf_writev OS file (dir_get_block_file_offset cfg block_index off) bufv w) }"

definition dir_readv_block ::
    "ext_ops \<Rightarrow> 'w os_ops \<Rightarrow> config \<Rightarrow> cache_dir \<Rightarrow> nat \<Rightarrow> nat \<Rightarrow> nat list \<Rightarrow> iobuf list \<Rightarrow> 'w
       \<Rightarrow> (status \<times> iobuf list) option" where
  "dir_readv_block X OS cfg d block_index off sizev bufv w =
     do { file \<leftarrow> dir_get_block_file cfg d block_index;
          bf_readv X OS file (dir_get_block_file_offset cfg block_index off) sizev bufv w }"

text \<open>\<^verbatim>\<open>_clean_block_files\<close>: remove the files of the directory whose name has the prefix, up to the first error.\<close>

fun clean_entries :: "'w os_ops \<Rightarrow> string \<Rightarrow> (string \<times> bool) list \<Rightarrow> 'w \<Rightarrow> status \<times> 'w" where
  "clean_entries OS path [] w = (OK, w)"
| "clean_entries OS path ((filename, is_directory) # es) w =
     (if is_directory then clean_entries OS path es w
      else if take (length BLOCK_FILE_PREFIX) filename = BLOCK_FILE_PREFIX then
        (let (ec, w) = os_remove OS (path @ ''/'' @ filename) w
         in if ec \<noteq> 0 then (Err (Errno ec), w) else clean_entries OS path es w)
      else clean_entries OS path es w)"

definition clean_block_files :: "'w os_ops \<Rightarrow> cache_dir \<Rightarrow> 'w \<Rightarrow> (status \<times> 'w) option" where
  "clean_block_files OS d w =
     do { entries \<leftarrow> os_list_dir OS (cd_path d) w;
          Some (clean_entries OS (cd_path d) entries w) }"

definition block_file_path :: "string \<Rightarrow> nat \<Rightarrow> string" where
  "block_file_path path i = path @ ''/'' @ BLOCK_FILE_PREFIX @ ''_'' @ show_nat i"

text \<open>
  One block file: opened and appended, or destroyed again when it cannot be opened. \<open>open_files\<close> is
  the loop over the full files with the bytes that remain.
\<close>

definition open_file ::
    "'w os_ops \<Rightarrow> config \<Rightarrow> string \<Rightarrow> nat \<Rightarrow> block_file list \<Rightarrow> 'w \<Rightarrow> status \<times> block_file list \<times> 'w" where
  "open_file OS cfg file_path file_size files w =
     (let (st, file, w) = bf_open OS cfg (FLAGS_pre_allocate_block_file cfg) (block_file_new file_path file_size) w
      in if ok st then (st, files @ [file], w) else (st, files, bf_destroy OS file w))"

fun open_files ::
    "'w os_ops \<Rightarrow> config \<Rightarrow> string \<Rightarrow> nat list \<Rightarrow> nat \<Rightarrow> block_file list \<Rightarrow> 'w
       \<Rightarrow> status \<times> nat \<times> block_file list \<times> 'w" where
  "open_files OS cfg path [] free_bytes files w = (OK, free_bytes, files, w)"
| "open_files OS cfg path (i # is) free_bytes files w =
     (let file_size = min free_bytes (FLAGS_block_file_size cfg);
          (st, files, w) = open_file OS cfg (block_file_path path i) file_size files w
      in if \<not> ok st then (st, free_bytes, files, w)
         else open_files OS cfg path is (free_bytes - file_size) files w)"

definition init_block_files ::
    "'w os_ops \<Rightarrow> config \<Rightarrow> cache_dir \<Rightarrow> 'w \<Rightarrow> (status \<times> cache_dir \<times> 'w) option" where
  "init_block_files OS cfg d w =
     do { (st, w) \<leftarrow> clean_block_files OS d w;
          if \<not> ok st then Some (st, d, w)
          else do { guard (FLAGS_block_file_size cfg \<noteq> 0);
            let free_bytes = cd_quota_bytes d;
                file_count = free_bytes div FLAGS_block_file_size cfg;
                (st, free_bytes, files, w) =
                  open_files OS cfg (cd_path d) [0..<file_count] free_bytes (cd_block_files d) w
            in if \<not> ok st then Some (st, d\<lparr>cd_block_files := files\<rparr>, w)
               else if 0 < free_bytes then
                 (let (st, files, w) = open_file OS cfg (block_file_path (cd_path d) file_count) free_bytes files w
                  in Some (st, d\<lparr>cd_block_files := files\<rparr>, w))
               else Some (OK, d\<lparr>cd_block_files := files\<rparr>, w) } }"

definition cache_dir_init :: "'w os_ops \<Rightarrow> config \<Rightarrow> cache_dir \<Rightarrow> 'w \<Rightarrow> (status \<times> cache_dir \<times> 'w) option" where
  "cache_dir_init OS cfg d w = init_block_files OS cfg (init_free_space_list d) w"

text \<open>The destructor drops the block files, which closes them.\<close>

definition cache_dir_destroy :: "'w os_ops \<Rightarrow> cache_dir \<Rightarrow> 'w \<Rightarrow> 'w" where
  "cache_dir_destroy OS d w = foldl (\<lambda>w f. bf_destroy OS f w) w (cd_block_files d)"

section \<open>The router\<close>

record dir_weight =
  dw_index :: nat
  dw_weight :: int
  dw_cur_weight :: int
  dw_enable :: bool

type_synonym router = "dir_weight list"

definition to_s64 :: "nat \<Rightarrow> int" where
  "to_s64 n = (if n mod 2 ^ 64 < 2 ^ 63 then int (n mod 2 ^ 64) else int (n mod 2 ^ 64) - 2 ^ 64)"

definition router_add_dir :: "cache_dir \<Rightarrow> router \<Rightarrow> router option" where
  "router_add_dir d ws =
     do { guard (cd_index d = length ws);
          let quota_bytes = to_s64 (cd_quota_bytes d)
          in Some (ws @ [\<lparr>dw_index = cd_index d, dw_weight = quota_bytes, dw_cur_weight = quota_bytes,
                          dw_enable = True\<rparr>]) }"

definition router_disable_dir :: "nat \<Rightarrow> router \<Rightarrow> router option" where
  "router_disable_dir index ws =
     do { dw \<leftarrow> nth_opt ws index; Some (ws[index := dw\<lparr>dw_enable := False\<rparr>]) }"

definition router_add_dir_weight :: "nat \<Rightarrow> int \<Rightarrow> router \<Rightarrow> router option" where
  "router_add_dir_weight index weight ws =
     do { dw \<leftarrow> nth_opt ws index;
          Some (ws[index := dw\<lparr>dw_cur_weight := to_i64 (dw_cur_weight dw + weight), dw_enable := True\<rparr>]) }"

text \<open>One iteration of the loop of \<^verbatim>\<open>next_dir_index\<close>, over the weights, the best index so far and the total.\<close>

definition router_step :: "nat \<Rightarrow> router \<times> int \<times> int \<Rightarrow> router \<times> int \<times> int" where
  "router_step idx = (\<lambda>(ws, index, total).
     if \<not> dw_enable (ws ! idx) then (ws, index, total)
     else
       (let dw = ws ! idx;
            ws = ws[idx := dw\<lparr>dw_cur_weight := to_i64 (dw_cur_weight dw + dw_weight dw)\<rparr>];
            total = to_i64 (total + dw_weight dw)
        in if index = - 1 \<or> dw_cur_weight (ws ! nat index) < dw_cur_weight (ws ! idx)
           then (ws, int idx, total) else (ws, index, total)))"

definition router_next_dir_index :: "router \<Rightarrow> int \<times> router" where
  "router_next_dir_index ws =
     (let (ws, index, total) = fold router_step [0..<length ws] (ws, - 1, 0)
      in if 0 \<le> index then
           (let dw = ws ! nat index
            in (index, ws[nat index := dw\<lparr>dw_cur_weight := to_i64 (dw_cur_weight dw - total)\<rparr>]))
         else (index, ws))"

section \<open>The manager\<close>

record disk_space_manager =
  dm_quota_bytes :: nat
  dm_used_bytes :: nat
  dm_cache_dirs :: "cache_dir list"
  dm_router :: router

definition dsm_empty :: disk_space_manager where
  "dsm_empty = \<lparr>dm_quota_bytes = 0, dm_used_bytes = 0, dm_cache_dirs = [], dm_router = []\<rparr>"

definition dsm_reset :: "disk_space_manager \<Rightarrow> disk_space_manager" where
  "dsm_reset m = dsm_empty"

definition dsm_add_cache_dir ::
    "'w os_ops \<Rightarrow> config \<Rightarrow> dir_space \<Rightarrow> disk_space_manager \<Rightarrow> 'w
       \<Rightarrow> (status \<times> disk_space_manager \<times> 'w) option" where
  "dsm_add_cache_dir OS cfg dir m w =
     do { guard (FLAGS_block_size cfg \<noteq> 0);
          (st, d, w) \<leftarrow> cache_dir_init OS cfg
            (cache_dir_new cfg (length (dm_cache_dirs m)) (ds_quota_bytes dir) (ds_path dir)) w;
          if \<not> ok st then Some (st, m, cache_dir_destroy OS d w)
          else do { ws \<leftarrow> router_add_dir d (dm_router m);
                    Some (OK, m\<lparr>dm_cache_dirs := dm_cache_dirs m @ [d], dm_router := ws,
                                dm_quota_bytes := to_u64 (dm_quota_bytes m + ds_quota_bytes dir)\<rparr>, w) } }"

definition enabled_dirs :: "router \<Rightarrow> nat" where
  "enabled_dirs ws = length (filter dw_enable ws)"

definition dsm_free_block :: "config \<Rightarrow> block_id \<Rightarrow> disk_space_manager \<Rightarrow> (status \<times> disk_space_manager) option" where
  "dsm_free_block cfg block m =
     do { dir \<leftarrow> nth_opt (dm_cache_dirs m) (bi_dir_index block);
          dir' \<leftarrow> dir_free_block dir (bi_block_index block);
          ws \<leftarrow> router_add_dir_weight (bi_dir_index block) (to_s64 (FLAGS_block_size cfg)) (dm_router m);
          Some (OK, m\<lparr>dm_cache_dirs := (dm_cache_dirs m)[bi_dir_index block := dir'],
                      dm_used_bytes := to_u64 (dm_used_bytes m + (2 ^ 64 - FLAGS_block_size cfg mod 2 ^ 64)),
                      dm_router := ws\<rparr>) }"

definition dsm_write_block ::
    "ext_ops \<Rightarrow> 'w os_ops \<Rightarrow> config \<Rightarrow> nat \<Rightarrow> disk_space_manager \<Rightarrow> block_id \<Rightarrow> nat \<Rightarrow> iobuf \<Rightarrow> 'w
       \<Rightarrow> (status \<times> 'w) option" where
  "dsm_write_block X OS cfg a m block off buf w =
     do { dir \<leftarrow> nth_opt (dm_cache_dirs m) (bi_dir_index block);
          dir_write_block X OS cfg a dir (bi_block_index block) off buf w }"

definition dsm_read_block ::
    "ext_ops \<Rightarrow> 'w os_ops \<Rightarrow> config \<Rightarrow> disk_space_manager \<Rightarrow> block_id \<Rightarrow> nat \<Rightarrow> nat \<Rightarrow> iobuf \<Rightarrow> 'w
       \<Rightarrow> (status \<times> iobuf) option" where
  "dsm_read_block X OS cfg m block off sz buf w =
     do { dir \<leftarrow> nth_opt (dm_cache_dirs m) (bi_dir_index block);
          dir_read_block X OS cfg dir (bi_block_index block) off sz buf w }"

definition dsm_writev_block ::
    "'w os_ops \<Rightarrow> config \<Rightarrow> disk_space_manager \<Rightarrow> block_id \<Rightarrow> nat \<Rightarrow> iobuf list \<Rightarrow> 'w
       \<Rightarrow> (status \<times> 'w) option" where
  "dsm_writev_block OS cfg m block off bufv w =
     do { dir \<leftarrow> nth_opt (dm_cache_dirs m) (bi_dir_index block);
          dir_writev_block OS cfg dir (bi_block_index block) off bufv w }"

definition dsm_readv_block ::
    "ext_ops \<Rightarrow> 'w os_ops \<Rightarrow> config \<Rightarrow> disk_space_manager \<Rightarrow> block_id \<Rightarrow> nat \<Rightarrow> nat list \<Rightarrow> iobuf list \<Rightarrow> 'w
       \<Rightarrow> (status \<times> iobuf list) option" where
  "dsm_readv_block X OS cfg m block off sizev bufv w =
     do { dir \<leftarrow> nth_opt (dm_cache_dirs m) (bi_dir_index block);
          dir_readv_block X OS cfg dir (bi_block_index block) off sizev bufv w }"

text \<open>The loop of \<^verbatim>\<open>DiskCache::init\<close> over the configured directories; the manager was reset before.\<close>

fun add_cache_dirs ::
    "'w os_ops \<Rightarrow> config \<Rightarrow> dir_space list \<Rightarrow> disk_space_manager \<Rightarrow> 'w
       \<Rightarrow> (status \<times> disk_space_manager \<times> 'w) option" where
  "add_cache_dirs OS cfg [] m w = Some (OK, m, w)"
| "add_cache_dirs OS cfg (dir # dirs) m w =
     do { w \<leftarrow> (if \<not> os_exists OS (ds_path dir) w
               then (let (ret, w) = os_create_directory OS (ds_path dir) w in do { guard ret; Some w })
               else Some w);
          (st, m, w) \<leftarrow> dsm_add_cache_dir OS cfg dir m w;
          if \<not> ok st then Some (st, m, w) else add_cache_dirs OS cfg dirs m w }"

section \<open>What the router does\<close>

text \<open>\<open>bumped ws k\<close> is \<open>ws\<close> after the loop has passed the first \<open>k\<close> directories.\<close>

definition bump :: "dir_weight \<Rightarrow> dir_weight" where
  "bump dw = (if dw_enable dw then dw\<lparr>dw_cur_weight := to_i64 (dw_cur_weight dw + dw_weight dw)\<rparr> else dw)"

definition bumped :: "router \<Rightarrow> nat \<Rightarrow> router" where
  "bumped ws k = map bump (take k ws) @ drop k ws"

definition enabled_weight :: "router \<Rightarrow> int" where
  "enabled_weight ws = sum_list (map dw_weight (filter dw_enable ws))"

definition total_cur :: "router \<Rightarrow> int" where
  "total_cur ws = sum_list (map dw_cur_weight ws)"

lemma bump_simps [simp]:
  "dw_enable (bump dw) = dw_enable dw" "dw_weight (bump dw) = dw_weight dw" "dw_index (bump dw) = dw_index dw"
  "dw_cur_weight (bump dw) = (if dw_enable dw then to_i64 (dw_cur_weight dw + dw_weight dw) else dw_cur_weight dw)"
  by (simp_all add: bump_def)

lemma length_bumped [simp]: "length (bumped ws k) = length ws"
  by (simp add: bumped_def)

lemma bumped_0 [simp]: "bumped ws 0 = ws" and bumped_all: "bumped ws (length ws) = map bump ws"
  by (simp_all add: bumped_def)

lemma bumped_nth: "i < length ws \<Longrightarrow> bumped ws k ! i = (if i < k then bump (ws ! i) else ws ! i)"
  by (simp add: bumped_def nth_append min_def)

lemma bumped_Suc:
  assumes "k < length ws"
  shows "bumped ws (Suc k) = (bumped ws k)[k := bump (ws ! k)]"
  using assms by (intro nth_equalityI) (auto simp: bumped_nth nth_list_update)

text \<open>The best index after the first \<open>k\<close> directories: enabled, and of maximal weight among them.\<close>

definition best :: "router \<Rightarrow> nat \<Rightarrow> int \<Rightarrow> bool" where
  "best ws k ix \<longleftrightarrow>
     (if ix = - 1 then \<forall>i < k. \<not> dw_enable (ws ! i)
      else 0 \<le> ix \<and> nat ix < k \<and> dw_enable (ws ! nat ix) \<and>
        (\<forall>i < k. dw_enable (ws ! i) \<longrightarrow> dw_cur_weight (bump (ws ! i)) \<le> dw_cur_weight (bump (ws ! nat ix))))"

lemma router_loop:
  assumes "k \<le> length ws"
  shows "\<exists>ix. fold router_step [0..<k] (ws, - 1, 0) = (bumped ws k, ix, to_i64 (enabled_weight (take k ws))) \<and> best ws k ix"
  using assms
proof (induction k)
  case 0
  show ?case by (auto simp: best_def enabled_weight_def to_i64_id)
next
  case (Suc k)
  then obtain ix where f: "fold router_step [0..<k] (ws, - 1, 0) = (bumped ws k, ix, to_i64 (enabled_weight (take k ws)))"
    and b: "best ws k ix" by auto
  have k: "k < length ws" using Suc.prems by simp
  have w: "enabled_weight (take (Suc k) ws) = enabled_weight (take k ws) + (if dw_enable (ws ! k) then dw_weight (ws ! k) else 0)"
    using k by (simp add: take_Suc_conv_app_nth enabled_weight_def)
  have step: "fold router_step [0..<Suc k] (ws, - 1, 0) = router_step k (bumped ws k, ix, to_i64 (enabled_weight (take k ws)))"
    using f by simp
  show ?case
  proof (cases "dw_enable (ws ! k)")
    case False
    then have "bumped ws (Suc k) = bumped ws k"
      using k by (simp add: bumped_Suc bump_def list_update_same_conv bumped_nth)
    moreover have "best ws (Suc k) ix" using b False by (auto simp: best_def less_Suc_eq split: if_splits)
    moreover have "router_step k (bumped ws k, ix, to_i64 (enabled_weight (take k ws))) = (bumped ws k, ix, to_i64 (enabled_weight (take k ws)))"
      using False k by (simp add: router_step_def bumped_nth)
    ultimately show ?thesis using step False k w by (intro exI [of _ ix]) (simp del: fold.simps)
  next
    case True
    have bk: "(bumped ws k)[k := (bumped ws k ! k)\<lparr>dw_cur_weight := to_i64 (dw_cur_weight (bumped ws k ! k) + dw_weight (bumped ws k ! k))\<rparr>]
              = bumped ws (Suc k)"
      using k True by (simp add: bumped_Suc bumped_nth bump_def)
    have enb: "dw_enable (bumped ws k ! k)" using k True by (simp add: bumped_nth)
    let ?take = "ix = - 1 \<or> dw_cur_weight (bumped ws (Suc k) ! nat ix) < dw_cur_weight (bumped ws (Suc k) ! k)"
    have s: "router_step k (bumped ws k, ix, to_i64 (enabled_weight (take k ws)))
              = (bumped ws (Suc k), if ?take then int k else ix, to_i64 (enabled_weight (take (Suc k) ws)))"
      using w True by (simp only: router_step_def prod.case Let_def bk enb if_True if_False not_True_eq_False split: if_splits) (simp add: k bumped_nth)
    have "best ws (Suc k) (if ?take then int k else ix)"
    proof (cases "ix = - 1")
      case True
      then show ?thesis using b \<open>dw_enable (ws ! k)\<close> by (auto simp: best_def less_Suc_eq)
    next
      case False
      then have "nat ix < k" "0 \<le> ix" using b by (auto simp: best_def)
      then show ?thesis using b False \<open>dw_enable (ws ! k)\<close> k
        by (auto simp: best_def less_Suc_eq bumped_nth simp del: bump_simps)
    qed
    then show ?thesis using step s by (intro exI [of _ "if ?take then int k else ix"]) simp
  qed
qed


lemma router_next_None:
  assumes "fst (router_next_dir_index ws) = - 1"
  shows "\<forall>dw \<in> set ws. \<not> dw_enable dw" and "snd (router_next_dir_index ws) = ws"
proof -
  obtain ix where f: "fold router_step [0..<length ws] (ws, - 1, 0) = (bumped ws (length ws), ix, to_i64 (enabled_weight ws))"
    and b: "best ws (length ws) ix" using router_loop [OF order_refl, of ws] by auto
  have r: "router_next_dir_index ws = (if 0 \<le> ix then (ix, (map bump ws)[nat ix := (map bump ws ! nat ix)
      \<lparr>dw_cur_weight := to_i64 (dw_cur_weight (map bump ws ! nat ix) - enabled_weight ws)\<rparr>]) else (ix, map bump ws))"
    unfolding router_next_dir_index_def f by (simp add: bumped_all Let_def)
  with assms have ix: "ix = - 1" by (auto split: if_splits)
  then have none: "\<forall>i < length ws. \<not> dw_enable (ws ! i)" using b by (simp add: best_def)
  then show all: "\<forall>dw \<in> set ws. \<not> dw_enable dw" by (auto simp: in_set_conv_nth)
  have "map bump ws = ws" using all by (intro map_idI) (auto simp: bump_def)
  then show "snd (router_next_dir_index ws) = ws" using r ix by simp
qed

text \<open>The chosen directory and the weights after the choice.\<close>

lemma router_next_cases:
  obtains (none) "router_next_dir_index ws = (- 1, ws)" and "\<forall>dw \<in> set ws. \<not> dw_enable dw"
  | (some) i where "i < length ws" and "dw_enable (ws ! i)"
      and "\<forall>j < length ws. dw_enable (ws ! j) \<longrightarrow> dw_cur_weight (bump (ws ! j)) \<le> dw_cur_weight (bump (ws ! i))"
      and "router_next_dir_index ws = (int i, (map bump ws)[i := (bump (ws ! i))
             \<lparr>dw_cur_weight := to_i64 (dw_cur_weight (bump (ws ! i)) - enabled_weight ws)\<rparr>])"
proof -
  obtain ix where f: "fold router_step [0..<length ws] (ws, - 1, 0) = (bumped ws (length ws), ix, to_i64 (enabled_weight ws))"
    and b: "best ws (length ws) ix" using router_loop [OF order_refl, of ws] by auto
  have r: "router_next_dir_index ws = (if 0 \<le> ix then (ix, (map bump ws)[nat ix := (map bump ws ! nat ix)
      \<lparr>dw_cur_weight := to_i64 (dw_cur_weight (map bump ws ! nat ix) - enabled_weight ws)\<rparr>]) else (ix, map bump ws))"
    unfolding router_next_dir_index_def f by (simp add: bumped_all Let_def)
  show thesis
  proof (cases "ix = - 1")
    case True
    then have "fst (router_next_dir_index ws) = - 1" using r by simp
    from router_next_None [OF this] this show thesis by (intro none prod_eqI) simp_all
  next
    case False
    then have "0 \<le> ix" "nat ix < length ws" using b by (auto simp: best_def)
    then show thesis using r b False by (intro some [of "nat ix"]) (auto simp: best_def)
  qed
qed

lemma router_next_enable:
  "length (snd (router_next_dir_index ws)) = length ws"
  "map dw_enable (snd (router_next_dir_index ws)) = map dw_enable ws"
  "map dw_weight (snd (router_next_dir_index ws)) = map dw_weight ws"
  by (rule router_next_cases [of ws]; auto simp: list_eq_iff_nth_eq nth_list_update)+

lemma enabled_dirs_alt: "enabled_dirs ws = length (filter (\<lambda>b. b) (map dw_enable ws))"
  by (simp add: enabled_dirs_def filter_map comp_def)

lemma enabled_dirs_cong: "map dw_enable ws = map dw_enable ws' \<Longrightarrow> enabled_dirs ws = enabled_dirs ws'"
  by (simp add: enabled_dirs_alt)

lemma disable_fewer:
  assumes "i < length ws" and "dw_enable (ws ! i)"
  shows "enabled_dirs (ws[i := (ws ! i)\<lparr>dw_enable := False\<rparr>]) < enabled_dirs ws"
proof -
  have u: "ws[i := x] = take i ws @ x # drop (Suc i) ws" for x using assms(1) by (rule upd_conv_take_nth_drop)
  have "ws = take i ws @ ws ! i # drop (Suc i) ws" using assms(1) by (simp add: id_take_nth_drop)
  then have "enabled_dirs ws = enabled_dirs (take i ws @ ws ! i # drop (Suc i) ws)" by simp
  then show ?thesis using assms(2) by (simp add: u enabled_dirs_def)
qed

lemma failed_round_disables:
  assumes "(i, ws) = router_next_dir_index r" and "i \<noteq> - 1" and "router_disable_dir (nat i) ws = Some ws'"
  shows "enabled_dirs ws' < enabled_dirs r"
proof -
  from assms obtain k where k: "k < length r" "dw_enable (r ! k)" "i = int k"
    by (cases rule: router_next_cases [of r]) auto
  have en: "map dw_enable ws = map dw_enable r" and len: "length ws = length r"
    using router_next_enable [of r] by (simp_all flip: assms(1))
  then have "dw_enable (ws ! k)" using k by (metis nth_map)
  moreover have "ws' = ws[k := (ws ! k)\<lparr>dw_enable := False\<rparr>]"
    using assms(3) k len by (auto simp: router_disable_dir_def)
  ultimately have "enabled_dirs ws' < enabled_dirs ws" using disable_fewer [of k ws] k len by simp
  then show ?thesis using enabled_dirs_cong [OF en] by simp
qed

text \<open>
  \<^verbatim>\<open>DiskSpaceManager::alloc_block\<close>. Every failed round disables a directory that was enabled, so the
  loop ends. The block index of type \<^verbatim>\<open>int64_t\<close> is narrowed to the fields of \<^verbatim>\<open>BlockId\<close>.
\<close>

function (sequential) dsm_alloc_block ::
    "config \<Rightarrow> disk_space_manager \<Rightarrow> (status \<times> block_id option \<times> disk_space_manager) option" where
  "dsm_alloc_block cfg m =
     (case router_next_dir_index (dm_router m) of (dir_index, ws) \<Rightarrow>
        if dir_index = - 1 then Some (Err E_INTERNAL, None, m\<lparr>dm_router := ws\<rparr>)
        else
          (case nth_opt (dm_cache_dirs m) (nat dir_index) of
             None \<Rightarrow> None
           | Some dir \<Rightarrow>
               (case dir_alloc_block dir of
                  None \<Rightarrow> None
                | Some (block_index, dir') \<Rightarrow>
                    if block_index \<noteq> - 1 then
                      Some (OK, Some \<lparr>bi_dir_index = to_u8 (nat dir_index), bi_block_index = to_u32 (nat block_index)\<rparr>,
                        m\<lparr>dm_router := ws, dm_cache_dirs := (dm_cache_dirs m)[nat dir_index := dir'],
                          dm_used_bytes := to_u64 (dm_used_bytes m + FLAGS_block_size cfg)\<rparr>)
                    else
                      (case router_disable_dir (nat dir_index) ws of
                         None \<Rightarrow> None
                       | Some ws' \<Rightarrow>
                           dsm_alloc_block cfg (m\<lparr>dm_router := ws',
                             dm_cache_dirs := (dm_cache_dirs m)[nat dir_index := dir']\<rparr>)))))"
  by pat_completeness auto

termination
  by (relation "measure (\<lambda>(cfg, m). enabled_dirs (dm_router m))") (auto intro: failed_round_disables)

declare dsm_alloc_block.simps [simp del]

end
