(* ===== verification/DiskAlloc.thy ===== *)
theory DiskAlloc
  imports DiskSpace
begin

text \<open>
  Correctness of block allocation: the invariant of a directory's bitmap and free list, the
  invariant of the manager over its directories and router, and the contract of a block allocator
  (\<open>block_allocator\<close>), proved once for every sequence of allocations and frees and interpreted on the
  manager of the code.
\<close>

section \<open>The bitmap of a space\<close>

abbreviation ones :: "bool list \<Rightarrow> nat" where "ones bs \<equiv> length (filter (\<lambda>b. b) bs)"

lemma find_first_Some: "find_first bs = Some k \<Longrightarrow> k < length bs \<and> bs ! k \<and> (\<forall>j < k. \<not> bs ! j)"
proof (induction bs arbitrary: k)
  case (Cons b bs)
  then show ?case by (cases k) (auto split: if_splits simp: All_less_Suc2)
qed simp

lemma find_first_None: "find_first bs = None \<Longrightarrow> ones bs = 0"
  by (induction bs) (auto split: if_splits)

lemma ones_update:
  "k < length bs \<Longrightarrow> ones (bs[k := x]) + (if bs ! k then 1 else 0) = ones bs + (if x then 1 else 0)"
proof (induction bs arbitrary: k)
  case (Cons b bs)
  show ?case
  proof (cases k)
    case (Suc n)
    then show ?thesis using Cons.IH [of n] Cons.prems by auto
  qed auto
qed simp

lemma ones_replicate [simp]: "ones (replicate n True) = n" by (induction n) auto

lemma ones_pos: "0 < ones bs \<longleftrightarrow> (\<exists>k < length bs. bs ! k)"
  by (simp add: filter_empty_conv in_set_conv_nth Bex_def) (metis in_set_conv_nth)

section \<open>The invariant of a directory\<close>

definition space_ok :: "nat \<Rightarrow> nat \<Rightarrow> block_space \<Rightarrow> bool" where
  "space_ok tot i sp \<longleftrightarrow>
     length (bs_free_bits sp) = min BLOCK_COUNT_IN_SPACE (tot - i * BLOCK_COUNT_IN_SPACE) \<and>
     bs_free_count sp = ones (bs_free_bits sp) \<and>
     (bs_free_bits sp \<noteq> [] \<longrightarrow> bs_start sp = i * BLOCK_COUNT_IN_SPACE)"

definition dir_ok :: "cache_dir \<Rightarrow> bool" where
  "dir_ok d \<longleftrightarrow>
     cd_total_block_count d < 2 ^ 32 \<and>
     length (cd_block_spaces d) = cd_total_block_count d div BLOCK_COUNT_IN_SPACE + 1 \<and>
     (\<forall>i < length (cd_block_spaces d). space_ok (cd_total_block_count d) i (cd_block_spaces d ! i)) \<and>
     distinct (cd_free_space_list d) \<and>
     (\<forall>i. i \<in> set (cd_free_space_list d) \<longleftrightarrow>
        i < length (cd_block_spaces d) \<and> 0 < bs_free_count (cd_block_spaces d ! i))"

lemma dir_okD:
  assumes "dir_ok d"
  shows dir_ok_total: "cd_total_block_count d < 2 ^ 32"
    and dir_ok_length: "length (cd_block_spaces d) = cd_total_block_count d div BLOCK_COUNT_IN_SPACE + 1"
    and dir_ok_space: "i < length (cd_block_spaces d) \<Longrightarrow> space_ok (cd_total_block_count d) i (cd_block_spaces d ! i)"
    and dir_ok_distinct: "distinct (cd_free_space_list d)"
    and dir_ok_listed: "j \<in> set (cd_free_space_list d) \<longleftrightarrow>
          j < length (cd_block_spaces d) \<and> 0 < bs_free_count (cd_block_spaces d ! j)"
  using assms by (simp_all add: dir_ok_def)

definition is_free :: "cache_dir \<Rightarrow> nat \<Rightarrow> bool" where
  "is_free d b \<longleftrightarrow> b < cd_total_block_count d \<and>
     bs_free_bits (cd_block_spaces d ! (b div BLOCK_COUNT_IN_SPACE)) ! (b mod BLOCK_COUNT_IN_SPACE)"

text \<open>What the operations on blocks leave alone.\<close>

definition same_shape :: "cache_dir \<Rightarrow> cache_dir \<Rightarrow> bool" where
  "same_shape d d' \<longleftrightarrow> cd_total_block_count d' = cd_total_block_count d \<and> cd_block_files d' = cd_block_files d"

lemma BC_pos [simp]: "0 < BLOCK_COUNT_IN_SPACE" "BLOCK_COUNT_IN_SPACE \<noteq> 0" and BC_small: "BLOCK_COUNT_IN_SPACE < 2 ^ 32"
  by (simp_all add: BLOCK_COUNT_IN_SPACE_def)

lemma block_coords:
  assumes "dir_ok d" and "b < cd_total_block_count d"
  shows "b div BLOCK_COUNT_IN_SPACE < length (cd_block_spaces d)"
    and "b mod BLOCK_COUNT_IN_SPACE < length (bs_free_bits (cd_block_spaces d ! (b div BLOCK_COUNT_IN_SPACE)))"
    and "bs_start (cd_block_spaces d ! (b div BLOCK_COUNT_IN_SPACE)) = b div BLOCK_COUNT_IN_SPACE * BLOCK_COUNT_IN_SPACE"
proof -
  let ?n = BLOCK_COUNT_IN_SPACE
  have "b div ?n \<le> cd_total_block_count d div ?n" using assms(2) by (simp add: div_le_mono)
  then show i: "b div ?n < length (cd_block_spaces d)" using assms(1) by (simp add: dir_ok_def)
  have "b = b div ?n * ?n + b mod ?n" and "b mod ?n < ?n" by simp_all
  then have "b mod ?n < min ?n (cd_total_block_count d - b div ?n * ?n)" using assms(2) by linarith
  then show k: "b mod ?n < length (bs_free_bits (cd_block_spaces d ! (b div ?n)))"
    using dir_ok_space [OF assms(1) i] by (simp add: space_ok_def)
  then have "bs_free_bits (cd_block_spaces d ! (b div ?n)) \<noteq> []" by auto
  then show "bs_start (cd_block_spaces d ! (b div ?n)) = b div ?n * ?n"
    using dir_ok_space [OF assms(1) i] by (simp add: space_ok_def)
qed

lemma block_of_coords:
  assumes "dir_ok d" and "i < length (cd_block_spaces d)" and "k < length (bs_free_bits (cd_block_spaces d ! i))"
  shows "bs_start (cd_block_spaces d ! i) = i * BLOCK_COUNT_IN_SPACE"
    and "i * BLOCK_COUNT_IN_SPACE + k < cd_total_block_count d" and "k < BLOCK_COUNT_IN_SPACE"
    and "(i * BLOCK_COUNT_IN_SPACE + k) div BLOCK_COUNT_IN_SPACE = i"
    and "(i * BLOCK_COUNT_IN_SPACE + k) mod BLOCK_COUNT_IN_SPACE = k"
proof -
  have s: "space_ok (cd_total_block_count d) i (cd_block_spaces d ! i)" using assms by (simp add: dir_ok_def)
  then show "bs_start (cd_block_spaces d ! i) = i * BLOCK_COUNT_IN_SPACE" using assms(3) by (auto simp: space_ok_def)
  show k: "k < BLOCK_COUNT_IN_SPACE" "i * BLOCK_COUNT_IN_SPACE + k < cd_total_block_count d"
    using s assms(3) by (auto simp: space_ok_def)
  show "(i * BLOCK_COUNT_IN_SPACE + k) div BLOCK_COUNT_IN_SPACE = i" "(i * BLOCK_COUNT_IN_SPACE + k) mod BLOCK_COUNT_IN_SPACE = k"
    using k by simp_all
qed

text \<open>Setting one bit of one space, with its count and the free list kept in step.\<close>

lemma set_bit_ok:
  assumes d: "dir_ok d" and b: "b < cd_total_block_count d" and i: "i = b div BLOCK_COUNT_IN_SPACE"
    and sp: "sp = cd_block_spaces d ! i" and ch: "bs_free_bits sp ! (b mod BLOCK_COUNT_IN_SPACE) \<noteq> x"
    and d': "d' = d\<lparr>cd_block_spaces := (cd_block_spaces d)[i := sp\<lparr>bs_free_bits := (bs_free_bits sp)[b mod BLOCK_COUNT_IN_SPACE := x],
               bs_free_count := n\<rparr>], cd_free_space_list := fl\<rparr>"
    and n: "n = (if x then bs_free_count sp + 1 else bs_free_count sp - 1)"
    and fl: "distinct fl" "\<And>j. j \<in> set fl \<longleftrightarrow> (if j = i then 0 < n else j \<in> set (cd_free_space_list d))"
  shows "dir_ok d'" and "is_free d' c = (if c = b then x else is_free d c)" and "same_shape d d'"
proof -
  note C = block_coords [OF d b, folded i, folded sp]
  let ?k = "b mod BLOCK_COUNT_IN_SPACE"
  have cnt: "n = ones ((bs_free_bits sp)[?k := x])"
  proof -
    have "bs_free_count sp = ones (bs_free_bits sp)" using dir_ok_space [OF d C(1)] sp by (simp add: space_ok_def)
    with n ones_update [OF C(2), of x] ch show ?thesis by (auto split: if_splits)
  qed
  show "same_shape d d'" by (simp add: same_shape_def d')
  have S: "space_ok (cd_total_block_count d) i (sp\<lparr>bs_free_bits := (bs_free_bits sp)[?k := x], bs_free_count := n\<rparr>)"
    using dir_ok_space [OF d C(1), folded sp] cnt C by (auto simp: space_ok_def)
  show "dir_ok d'" unfolding dir_ok_def
  proof (intro conjI allI impI)
    fix j
    show "space_ok (cd_total_block_count d') j (cd_block_spaces d' ! j)" if "j < length (cd_block_spaces d')"
      using that S C(1) dir_ok_space [OF d, of j] by (cases "i = j") (simp_all add: d')
    show "j \<in> set (cd_free_space_list d') \<longleftrightarrow> j < length (cd_block_spaces d') \<and> 0 < bs_free_count (cd_block_spaces d' ! j)"
      using fl(2) [of j] C(1) dir_ok_listed [OF d, of j] by (simp add: d' nth_list_update)
  qed (use fl(1) dir_ok_total [OF d] dir_ok_length [OF d] in \<open>simp_all add: d'\<close>)
  show "is_free d' c = (if c = b then x else is_free d c)"
  proof (cases "c < cd_total_block_count d")
    case True
    show ?thesis
    proof (cases "c div BLOCK_COUNT_IN_SPACE = i")
      case False
      then show ?thesis using True b i by (auto simp: is_free_def d')
    next
      case same: True
      then have "(c mod BLOCK_COUNT_IN_SPACE = ?k) = (c = b)" "(?k = c mod BLOCK_COUNT_IN_SPACE) = (c = b)"
        using i by (metis div_mult_mod_eq)+
      moreover have "cd_block_spaces d' ! i = sp\<lparr>bs_free_bits := (bs_free_bits sp)[?k := x], bs_free_count := n\<rparr>"
        using C(1) by (simp add: d')
      ultimately show ?thesis using True C(2) d' sp
        by (simp add: is_free_def same nth_list_update del: d')
    qed
  next
    case False
    then show ?thesis using b by (auto simp: is_free_def d')
  qed
qed

lemma free_iff_listed:
  assumes "dir_ok d"
  shows "cd_free_space_list d = [] \<longleftrightarrow> (\<forall>b. \<not> is_free d b)"
proof
  assume e: "cd_free_space_list d = []"
  show "\<forall>b. \<not> is_free d b"
  proof (intro allI notI)
    fix b assume f: "is_free d b"
    then have b: "b < cd_total_block_count d" by (simp add: is_free_def)
    note C = block_coords [OF assms b]
    have "0 < ones (bs_free_bits (cd_block_spaces d ! (b div BLOCK_COUNT_IN_SPACE)))"
      using C(2) f unfolding ones_pos is_free_def by blast
    then have "b div BLOCK_COUNT_IN_SPACE \<in> set (cd_free_space_list d)"
      using assms C(1) by (simp add: dir_ok_def space_ok_def)
    with e show False by simp
  qed
next
  assume n: "\<forall>b. \<not> is_free d b"
  show "cd_free_space_list d = []"
  proof (rule ccontr)
    assume "cd_free_space_list d \<noteq> []"
    then obtain i where "i \<in> set (cd_free_space_list d)" by (cases "cd_free_space_list d") auto
    then have i: "i < length (cd_block_spaces d)" "0 < ones (bs_free_bits (cd_block_spaces d ! i))"
      using assms by (auto simp: dir_ok_def space_ok_def)
    then obtain k where k: "k < length (bs_free_bits (cd_block_spaces d ! i))" "bs_free_bits (cd_block_spaces d ! i) ! k"
      unfolding ones_pos by blast
    have "is_free d (i * BLOCK_COUNT_IN_SPACE + k)"
      unfolding is_free_def block_of_coords(4,5) [OF assms i(1) k(1)]
      using block_of_coords(2) [OF assms i(1) k(1)] k(2) by simp
    with n show False by blast
  qed
qed

section \<open>Allocation and release in a directory\<close>

lemma dir_alloc_full: "dir_ok d \<Longrightarrow> \<forall>b. \<not> is_free d b \<Longrightarrow> dir_alloc_block d = Some (- 1, d)"
  by (simp add: free_iff_listed [symmetric] dir_alloc_block_def)

lemma dir_alloc_some:
  assumes d: "dir_ok d" and "is_free d c"
  obtains b d' where "dir_alloc_block d = Some (int b, d')" and "is_free d b" and "dir_ok d'" and "same_shape d d'"
    and "\<And>x. is_free d' x = (is_free d x \<and> x \<noteq> b)"
proof -
  obtain i rest where fl: "cd_free_space_list d = i # rest"
    using assms free_iff_listed [OF d] by (cases "cd_free_space_list d") auto
  let ?sp = "cd_block_spaces d ! i"
  have i: "i < length (cd_block_spaces d)" "0 < bs_free_count ?sp"
    using dir_ok_listed [OF d, of i] fl by auto
  have S: "space_ok (cd_total_block_count d) i ?sp" by (rule dir_ok_space [OF d i(1)])
  obtain k where k: "find_first (bs_free_bits ?sp) = Some k"
    using i S find_first_None [of "bs_free_bits ?sp"] by (cases "find_first (bs_free_bits ?sp)") (auto simp: space_ok_def)
  have kl: "k < length (bs_free_bits ?sp)" "bs_free_bits ?sp ! k" using find_first_Some [OF k] by auto
  note C = block_of_coords [OF d i(1) kl(1)]
  let ?b = "i * BLOCK_COUNT_IN_SPACE + k"
  have "bs_free_count ?sp \<le> BLOCK_COUNT_IN_SPACE"
    using S length_filter_le [of "\<lambda>b. b" "bs_free_bits ?sp"] by (auto simp: space_ok_def)
  then have cnt: "to_u32 (bs_free_count ?sp + (2 ^ 32 - 1)) = bs_free_count ?sp - 1"
    using i(2) BC_small by (intro minus_one_u32) auto
  let ?fl = "if bs_free_count ?sp - 1 = 0 then rest else i # rest"
  let ?d = "d\<lparr>cd_block_spaces := (cd_block_spaces d)[i := ?sp\<lparr>bs_free_bits := (bs_free_bits ?sp)[k := False],
               bs_free_count := bs_free_count ?sp - 1\<rparr>], cd_free_space_list := ?fl\<rparr>"
  have r: "dir_alloc_block d = Some (int ?b, ?d)"
    using i k C(1) cnt by (simp add: dir_alloc_block_def fl Let_def)
  have dist: "distinct (i # rest)" using d fl by (simp add: dir_ok_def)
  have A: "dir_ok ?d" "is_free ?d x = (if x = ?b then False else is_free d x)" "same_shape d ?d" for x
    by (rule set_bit_ok [OF d C(2), where i = i and sp = ?sp and x = False and n = "bs_free_count ?sp - 1" and fl = ?fl];
        use C kl dist fl in \<open>auto split: if_splits\<close>)+
  have "is_free d ?b" unfolding is_free_def C using C(2) kl(2) by simp
  then show thesis using r A by (intro that [of ?b ?d]) auto
qed

lemma dir_free_spec:
  assumes d: "dir_ok d" and b: "b < cd_total_block_count d" and f: "\<not> is_free d b"
  obtains d' where "dir_free_block d b = Some d'" and "dir_ok d'" and "same_shape d d'"
    and "\<And>x. is_free d' x = (is_free d x \<or> x = b)"
proof -
  let ?i = "b div BLOCK_COUNT_IN_SPACE" and ?k = "b mod BLOCK_COUNT_IN_SPACE"
  let ?sp = "cd_block_spaces d ! ?i"
  note C = block_coords [OF d b]
  have S: "space_ok (cd_total_block_count d) ?i ?sp" using d C(1) by (simp add: dir_ok_def)
  have k: "b - bs_start ?sp = ?k" "bs_start ?sp \<le> b" using C(3) by (simp_all add: minus_div_mult_eq_mod)
  have nb: "\<not> bs_free_bits ?sp ! ?k" using f b by (simp add: is_free_def)
  have "bs_free_count ?sp \<le> BLOCK_COUNT_IN_SPACE"
    using S length_filter_le [of "\<lambda>b. b" "bs_free_bits ?sp"] by (auto simp: space_ok_def)
  then have cnt: "to_u32 (bs_free_count ?sp + 1) = bs_free_count ?sp + 1"
    using BC_small by (intro to_u32_id) (simp add: BLOCK_COUNT_IN_SPACE_def)
  let ?fl = "if bs_free_count ?sp + 1 = 1 then cd_free_space_list d @ [?i] else cd_free_space_list d"
  let ?d = "d\<lparr>cd_block_spaces := (cd_block_spaces d)[?i := ?sp\<lparr>bs_free_bits := (bs_free_bits ?sp)[?k := True],
               bs_free_count := bs_free_count ?sp + 1\<rparr>], cd_free_space_list := ?fl\<rparr>"
  have r: "dir_free_block d b = Some ?d"
    using C k nb cnt by (simp add: dir_free_block_def Let_def)
  have listed: "?i \<in> set (cd_free_space_list d) \<longleftrightarrow> 0 < bs_free_count ?sp" "distinct (cd_free_space_list d)"
    using d C(1) by (auto simp: dir_ok_def)
  have A: "dir_ok ?d" "is_free ?d x = (if x = b then True else is_free d x)" "same_shape d ?d" for x
    by (rule set_bit_ok [OF d b, where i = ?i and sp = ?sp and x = True and n = "bs_free_count ?sp + 1" and fl = ?fl];
        use nb listed in \<open>auto split: if_splits\<close>)+
  show thesis using r A by (intro that [of ?d]) auto
qed


section \<open>The manager\<close>

text \<open>Subtraction in 64 bits undoes addition.\<close>

lemma to_u64_sub: "to_u64 (to_u64 (a + b) + (2 ^ 64 - b mod 2 ^ 64)) = to_u64 a"
proof -
  define M :: nat where "M = 2 ^ 64"
  have M: "0 < M" by (simp add: M_def)
  have "b div M * M + b mod M = b" "b mod M < M" using M by simp_all
  then have "a + b + (M - b mod M) = a + (b div M * M + M)" by linarith
  then have "a + b + (M - b mod M) = a + (b div M + 1) * M" by simp
  then have "(a + b + (M - b mod M)) mod M = a mod M" by (metis mod_mult_self1 mult.commute)
  then show ?thesis unfolding to_u64_def M_def [symmetric] by (simp add: mod_add_left_eq)
qed

definition dsm_valid :: "disk_space_manager \<Rightarrow> block_id set" where
  "dsm_valid m = {blk. bi_dir_index blk < length (dm_cache_dirs m) \<and>
     bi_block_index blk < cd_total_block_count (dm_cache_dirs m ! bi_dir_index blk)}"

definition dsm_live :: "disk_space_manager \<Rightarrow> block_id set" where
  "dsm_live m = {blk \<in> dsm_valid m. \<not> is_free (dm_cache_dirs m ! bi_dir_index blk) (bi_block_index blk)}"

definition dirs_ok :: "disk_space_manager \<Rightarrow> bool" where
  "dirs_ok m \<longleftrightarrow> length (dm_router m) = length (dm_cache_dirs m) \<and> length (dm_cache_dirs m) \<le> 256 \<and>
     (\<forall>i < length (dm_cache_dirs m). dir_ok (dm_cache_dirs m ! i) \<and>
        (dw_enable (dm_router m ! i) \<or> (\<forall>b. \<not> is_free (dm_cache_dirs m ! i) b)))"

definition dsm_ok :: "config \<Rightarrow> disk_space_manager \<Rightarrow> bool" where
  "dsm_ok cfg m \<longleftrightarrow> dirs_ok m \<and> dm_used_bytes m = to_u64 (FLAGS_block_size cfg * card (dsm_live m))"

lemma finite_valid [simp]: "finite (dsm_valid m)"
proof (rule finite_subset)
  let ?n = "Max (insert 0 (cd_total_block_count ` set (dm_cache_dirs m)))"
  show "dsm_valid m \<subseteq> (\<lambda>(i, b). \<lparr>bi_dir_index = i, bi_block_index = b\<rparr>) ` ({..<length (dm_cache_dirs m)} \<times> {..<?n})"
  proof
    fix x assume "x \<in> dsm_valid m"
    then have x: "bi_dir_index x < length (dm_cache_dirs m)"
      "bi_block_index x < cd_total_block_count (dm_cache_dirs m ! bi_dir_index x)" by (auto simp: dsm_valid_def)
    have "cd_total_block_count (dm_cache_dirs m ! bi_dir_index x) \<le> ?n" using x(1) by (intro Max_ge) auto
    with x(2) have "bi_block_index x < ?n" by (rule less_le_trans)
    with x(1) show "x \<in> (\<lambda>(i, b). \<lparr>bi_dir_index = i, bi_block_index = b\<rparr>) ` ({..<length (dm_cache_dirs m)} \<times> {..<?n})"
      by (intro image_eqI [of _ _ "(bi_dir_index x, bi_block_index x)"]) auto
  qed
qed simp

lemma finite_live [simp]: "finite (dsm_live m)"
  by (rule finite_subset [OF _ finite_valid [of m]]) (auto simp: dsm_live_def)

lemma live_valid: "b \<in> dsm_live m \<Longrightarrow> b \<in> dsm_valid m"
  by (simp add: dsm_live_def)

text \<open>Replacing one directory by one of the same shape changes the live blocks of that directory only.\<close>

lemma replace_dir:
  assumes "k < length (dm_cache_dirs m)" and "same_shape (dm_cache_dirs m ! k) d"
    and "dm_cache_dirs m' = (dm_cache_dirs m)[k := d]"
  shows "dsm_valid m' = dsm_valid m"
    and "x \<in> dsm_live m' \<longleftrightarrow> x \<in> dsm_valid m \<and>
           \<not> is_free (if bi_dir_index x = k then d else dm_cache_dirs m ! bi_dir_index x) (bi_block_index x)"
proof -
  show v: "dsm_valid m' = dsm_valid m"
    using assms by (auto simp: dsm_valid_def same_shape_def nth_list_update)
  show "x \<in> dsm_live m' \<longleftrightarrow> x \<in> dsm_valid m \<and>
           \<not> is_free (if bi_dir_index x = k then d else dm_cache_dirs m ! bi_dir_index x) (bi_block_index x)"
    using assms by (auto simp: dsm_live_def v nth_list_update)
qed

lemma dirs_ok_replace:
  assumes "dirs_ok m" and "k < length (dm_cache_dirs m)" and "dir_ok d"
    and "dm_cache_dirs m' = (dm_cache_dirs m)[k := d]" and "length (dm_router m') = length (dm_router m)"
    and "dw_enable (dm_router m' ! k) \<or> (\<forall>b. \<not> is_free d b)"
    and "\<And>i. i < length (dm_cache_dirs m) \<Longrightarrow> i \<noteq> k \<Longrightarrow> dw_enable (dm_router m' ! i) = dw_enable (dm_router m ! i)"
  shows "dirs_ok m'"
  unfolding dirs_ok_def
proof (intro conjI allI impI)
  fix i assume i: "i < length (dm_cache_dirs m')"
  show "dir_ok (dm_cache_dirs m' ! i)" "dw_enable (dm_router m' ! i) \<or> (\<forall>b. \<not> is_free (dm_cache_dirs m' ! i) b)"
    using assms i by (cases "i = k"; simp add: dirs_ok_def)+
qed (use assms in \<open>simp_all add: dirs_ok_def\<close>)

lemma dsm_alloc_spec:
  assumes "dsm_ok cfg m"
  shows "\<exists>st r m'. dsm_alloc_block cfg m = Some (st, r, m') \<and> dsm_ok cfg m' \<and> dsm_valid m' = dsm_valid m \<and>
    (case r of None \<Rightarrow> st = Err E_INTERNAL \<and> dsm_live m' = dsm_live m \<and> dsm_live m = dsm_valid m
     | Some b \<Rightarrow> st = OK \<and> b \<in> dsm_valid m - dsm_live m \<and> dsm_live m' = insert b (dsm_live m))"
  using assms
proof (induction cfg m rule: dsm_alloc_block.induct)
  case (1 cfg m)
  let ?r = "dm_router m"
  have D: "dirs_ok m" and U: "dm_used_bytes m = to_u64 (FLAGS_block_size cfg * card (dsm_live m))"
    using "1.prems" by (simp_all add: dsm_ok_def)
  have len: "length ?r = length (dm_cache_dirs m)" "length (dm_cache_dirs m) \<le> 256" using D by (simp_all add: dirs_ok_def)
  show ?case
  proof (cases rule: router_next_cases [of ?r])
    case none
    then have "\<forall>i < length (dm_cache_dirs m). \<forall>b. \<not> is_free (dm_cache_dirs m ! i) b"
      using D by (auto simp: dirs_ok_def)
    then have "dsm_live m = dsm_valid m" by (auto simp: dsm_live_def dsm_valid_def)
    then show ?thesis using none "1.prems" by (simp add: dsm_alloc_block.simps [of cfg m])
  next
    case (some k)
    let ?d = "dm_cache_dirs m ! k"
    define ws where "ws = snd (router_next_dir_index ?r)"
    have n: "router_next_dir_index ?r = (int k, ws)" using some(4) by (simp add: ws_def)
    have k: "k < length (dm_cache_dirs m)" using some(1) len by simp
    have dk: "dir_ok ?d" using D k by (simp add: dirs_ok_def)
    have lw: "length ws = length ?r" and me: "map dw_enable ws = map dw_enable ?r"
      using router_next_enable [of ?r] by (simp_all add: ws_def)
    have en: "dw_enable (ws ! i) = dw_enable (?r ! i)" if "i < length ?r" for i
      using that lw arg_cong [OF me, of "\<lambda>bs. bs ! i"] by simp
    show ?thesis
    proof (cases "\<exists>b. is_free ?d b")
      case False
      then have a: "dir_alloc_block ?d = Some (- 1, ?d)" using dir_alloc_full [OF dk] by blast
      define ws' where "ws' = ws[k := (ws ! k)\<lparr>dw_enable := False\<rparr>]"
      have w': "router_disable_dir (nat (int k)) ws = Some ws'" using k len lw by (simp add: router_disable_dir_def ws'_def)
      let ?m = "m\<lparr>dm_router := ws', dm_cache_dirs := (dm_cache_dirs m)[nat (int k) := ?d]\<rparr>"
      have r: "dsm_alloc_block cfg m = dsm_alloc_block cfg ?m"
        using k a w' by (simp add: dsm_alloc_block.simps [of cfg m] n)
      have "dirs_ok ?m"
        by (rule dirs_ok_replace [OF D k dk]) (use False lw len en in \<open>simp_all add: ws'_def\<close>)
      moreover have same: "dsm_valid ?m = dsm_valid m" "dsm_live ?m = dsm_live m"
        by (simp_all add: dsm_valid_def dsm_live_def)
      ultimately have ok: "dsm_ok cfg ?m" using U by (simp add: dsm_ok_def)
      note IH = "1.IH" [OF n [symmetric] _ _ a refl _ w' ok]
      show ?thesis unfolding r using IH k unfolding same by simp
    next
      case True
      then obtain c where c: "is_free ?d c" by blast
      obtain b d' where a: "dir_alloc_block ?d = Some (int b, d')" and fb: "is_free ?d b" and d': "dir_ok d'" "same_shape ?d d'"
        "\<And>x. is_free d' x = (is_free ?d x \<and> x \<noteq> b)" by (rule dir_alloc_some [OF dk c]) blast
      have b: "b < cd_total_block_count ?d" using fb by (simp add: is_free_def)
      then have b32: "to_u32 b = b" using dir_ok_total [OF dk] by (intro to_u32_id) simp
      have k8: "to_u8 k = k" using k len by (intro to_u8_id) simp
      let ?blk = "\<lparr>bi_dir_index = k, bi_block_index = b\<rparr>"
      let ?m = "m\<lparr>dm_router := ws, dm_cache_dirs := (dm_cache_dirs m)[k := d'],
                  dm_used_bytes := to_u64 (dm_used_bytes m + FLAGS_block_size cfg)\<rparr>"
      have r: "dsm_alloc_block cfg m = Some (OK, Some ?blk, ?m)"
        using k a by (simp add: dsm_alloc_block.simps [of cfg m] n b32 k8)
      have R: "dsm_valid ?m = dsm_valid m" "x \<in> dsm_live ?m \<longleftrightarrow> x \<in> dsm_valid m \<and>
           \<not> is_free (if bi_dir_index x = k then d' else dm_cache_dirs m ! bi_dir_index x) (bi_block_index x)" for x
        by (rule replace_dir [OF k d'(2)], simp)+
      have new: "?blk \<in> dsm_valid m - dsm_live m" using k b fb by (simp add: dsm_valid_def dsm_live_def)
      have live: "dsm_live ?m = insert ?blk (dsm_live m)"
      proof (rule set_eqI)
        fix x :: block_id
        show "x \<in> dsm_live ?m \<longleftrightarrow> x \<in> insert ?blk (dsm_live m)"
          unfolding R(2) [of x] using new d'(3) by (cases x) (auto simp: dsm_live_def)
      qed
      have "dirs_ok ?m" by (rule dirs_ok_replace [OF D k d'(1)]) (use lw len en some k in simp_all)
      moreover have "to_u64 (dm_used_bytes m + FLAGS_block_size cfg) = to_u64 (FLAGS_block_size cfg * card (dsm_live ?m))"
      proof -
        have "card (dsm_live ?m) = Suc (card (dsm_live m))" unfolding live using new by simp
        then show ?thesis unfolding U by (simp only: to_u64_def mod_add_left_eq mod_add_right_eq mult_Suc_right add.commute)
      qed
      ultimately have "dsm_ok cfg ?m" by (simp add: dsm_ok_def)
      then show ?thesis using r new live R(1) by (intro exI [of _ OK] exI [of _ "Some ?blk"] exI [of _ ?m]) simp
    qed
  qed
qed

lemma dsm_free_spec:
  assumes "dsm_ok cfg m" and "b \<in> dsm_live m"
  shows "\<exists>m'. dsm_free_block cfg b m = Some (OK, m') \<and> dsm_ok cfg m' \<and> dsm_valid m' = dsm_valid m \<and>
    dsm_live m' = dsm_live m - {b}"
proof -
  let ?k = "bi_dir_index b" and ?i = "bi_block_index b"
  let ?d = "dm_cache_dirs m ! ?k"
  have D: "dirs_ok m" and U: "dm_used_bytes m = to_u64 (FLAGS_block_size cfg * card (dsm_live m))"
    using assms(1) by (simp_all add: dsm_ok_def)
  have k: "?k < length (dm_cache_dirs m)" "?i < cd_total_block_count ?d" "\<not> is_free ?d ?i"
    using assms(2) by (simp_all add: dsm_live_def dsm_valid_def)
  have dk: "dir_ok ?d" and len: "length (dm_router m) = length (dm_cache_dirs m)" using D k by (simp_all add: dirs_ok_def)
  obtain d' where a: "dir_free_block ?d ?i = Some d'" and d': "dir_ok d'" "same_shape ?d d'"
    "\<And>x. is_free d' x = (is_free ?d x \<or> x = ?i)" by (rule dir_free_spec [OF dk k(2,3)]) blast
  let ?dw = "dm_router m ! ?k"
  let ?m = "m\<lparr>dm_cache_dirs := (dm_cache_dirs m)[?k := d'],
              dm_used_bytes := to_u64 (dm_used_bytes m + (2 ^ 64 - FLAGS_block_size cfg mod 2 ^ 64)),
              dm_router := (dm_router m)[?k := ?dw\<lparr>dw_cur_weight := to_i64 (dw_cur_weight ?dw + to_s64 (FLAGS_block_size cfg)),
                                               dw_enable := True\<rparr>]\<rparr>"
  have r: "dsm_free_block cfg b m = Some (OK, ?m)"
    using k a len by (simp add: dsm_free_block_def router_add_dir_weight_def)
  have R: "dsm_valid ?m = dsm_valid m" "x \<in> dsm_live ?m \<longleftrightarrow> x \<in> dsm_valid m \<and>
       \<not> is_free (if bi_dir_index x = ?k then d' else dm_cache_dirs m ! bi_dir_index x) (bi_block_index x)" for x
    by (rule replace_dir [OF k(1) d'(2)], simp)+
  have live: "dsm_live ?m = dsm_live m - {b}"
  proof (rule set_eqI)
    fix x :: block_id
    show "x \<in> dsm_live ?m \<longleftrightarrow> x \<in> dsm_live m - {b}"
      unfolding R(2) [of x] using d'(3) by (cases x; cases b) (auto simp: dsm_live_def)
  qed
  have "dirs_ok ?m" by (rule dirs_ok_replace [OF D k(1) d'(1)]) (use len k(1) in simp_all)
  moreover have "to_u64 (dm_used_bytes m + (2 ^ 64 - FLAGS_block_size cfg mod 2 ^ 64)) = to_u64 (FLAGS_block_size cfg * card (dsm_live ?m))"
  proof -
    obtain n where n: "card (dsm_live ?m) = n" by simp
    have "Suc (card (dsm_live m - {b})) = card (dsm_live m)" by (rule card_Suc_Diff1 [OF finite_live assms(2)])
    then have c: "card (dsm_live m) = Suc n" using n live by simp
    show ?thesis unfolding n unfolding U unfolding c mult_Suc_right add.commute [of "FLAGS_block_size cfg"] by (rule to_u64_sub)
  qed
  ultimately have "dsm_ok cfg ?m" by (simp add: dsm_ok_def)
  then show ?thesis using r live R(1) by (intro exI [of _ ?m]) simp
qed


section \<open>Initialisation\<close>

lemma init_free_ok:
  assumes "cd_total_block_count d < 2 ^ 32"
  shows "dir_ok (init_free_space_list d)" and "is_free (init_free_space_list d) b = (b < cd_total_block_count d)"
    and "cd_total_block_count (init_free_space_list d) = cd_total_block_count d"
proof -
  let ?n = BLOCK_COUNT_IN_SPACE and ?t = "cd_total_block_count d"
  let ?c = "?t div ?n" and ?d = "init_free_space_list d"
  let ?last = "if ?c * ?n < ?t then \<lparr>bs_start = ?c * ?n, bs_free_bits = replicate (?t - ?c * ?n) True, bs_free_count = ?t - ?c * ?n\<rparr>
               else \<lparr>bs_start = 0, bs_free_bits = [], bs_free_count = 0\<rparr>"
  have d: "cd_block_spaces ?d = map full_space [0..<?c] @ [?last]"
    "cd_free_space_list ?d = [0..<?c] @ (if ?c * ?n < ?t then [?c] else [])"
    and t: "cd_total_block_count ?d = ?t" by (simp_all add: init_free_space_list_def Let_def)
  show "cd_total_block_count ?d = ?t" by (rule t)
  have le: "?c * ?n \<le> ?t" and lt: "?t - ?c * ?n < ?n" using mod_less_divisor [of ?n ?t] by (simp_all add: minus_div_mult_eq_mod)
  have mid: "?n \<le> ?t - i * ?n" if "i < ?c" for i
  proof -
    have "(i + 1) * ?n \<le> ?c * ?n" using that by (intro mult_le_mono1) simp
    then have "(i + 1) * ?n \<le> ?t" using le by (rule le_trans)
    then show ?thesis by (simp add: algebra_simps)
  qed
  have nth: "cd_block_spaces ?d ! i = (if i < ?c then full_space i else ?last)" if "i \<le> ?c" for i
    using that by (simp add: d nth_append)
  show ok: "dir_ok ?d" unfolding dir_ok_def
  proof (intro conjI allI impI)
    fix i
    show "space_ok (cd_total_block_count ?d) i (cd_block_spaces ?d ! i)" if "i < length (cd_block_spaces ?d)"
    proof (cases "i < ?c")
      case True
      then show ?thesis using mid [OF True] nth [of i] by (simp add: space_ok_def full_space_def t)
    next
      case False
      then have "i = ?c" using that by (simp add: d)
      then show ?thesis using lt nth [of ?c] by (auto simp: space_ok_def t)
    qed
    show "i \<in> set (cd_free_space_list ?d) \<longleftrightarrow> i < length (cd_block_spaces ?d) \<and> 0 < bs_free_count (cd_block_spaces ?d ! i)"
      using nth [of i] by (auto simp: d full_space_def nth_append)
  qed (use assms in \<open>simp_all add: d t\<close>)
  show "is_free ?d b = (b < ?t)"
  proof (cases "b < ?t")
    case True
    let ?sp = "cd_block_spaces ?d ! (b div ?n)"
    have "b mod ?n < length (bs_free_bits ?sp)" using block_coords(2) [OF ok] True t by simp
    moreover have "\<forall>k < length (bs_free_bits ?sp). bs_free_bits ?sp ! k"
      using nth [of "b div ?n"] True by (auto simp: full_space_def div_le_mono)
    ultimately show ?thesis using True by (simp add: is_free_def t)
  qed (simp add: is_free_def t)
qed

text \<open>The block files are opened without touching the bitmap.\<close>

lemma init_block_files_shape:
  assumes "init_block_files OS cfg d w = Some (st, d', w')"
  shows "\<exists>fs. d' = d\<lparr>cd_block_files := fs\<rparr>"
proof -
  have "\<exists>fs. d = d\<lparr>cd_block_files := fs\<rparr>" by (intro exI [of _ "cd_block_files d"]) simp
  then show ?thesis using assms
    by (auto simp: init_block_files_def Let_def bind_eq_Some_conv split: if_splits prod.splits)
qed

lemma cache_dir_init_ok:
  assumes "cache_dir_init OS cfg (cache_dir_new cfg i q p) w = Some (st, d, w')"
  shows "dir_ok d" and "is_free d b = (b < cd_total_block_count d)" and "cd_index d = to_u8 i"
proof -
  obtain fs where d: "d = (init_free_space_list (cache_dir_new cfg i q p))\<lparr>cd_block_files := fs\<rparr>"
    using init_block_files_shape [OF assms [unfolded cache_dir_init_def]] by auto
  have t: "cd_total_block_count (cache_dir_new cfg i q p) < 2 ^ 32"
    using to_u32_bound by (simp add: cache_dir_new_def)
  note I = init_free_ok [OF t]
  show "dir_ok d" using I(1) by (simp add: d dir_ok_def)
  show "is_free d b = (b < cd_total_block_count d)" using I(2,3) by (simp add: d is_free_def)
  show "cd_index d = to_u8 i" by (simp add: d init_free_space_list_def cache_dir_new_def Let_def)
qed

lemma add_cache_dir_ok:
  assumes "dsm_ok cfg m" and "dsm_live m = {}" and "dsm_add_cache_dir OS cfg dir m w = Some (st, m', w')"
  shows "dsm_ok cfg m' \<and> dsm_live m' = {}"
proof -
  obtain d w1 st1 where i: "cache_dir_init OS cfg (cache_dir_new cfg (length (dm_cache_dirs m)) (ds_quota_bytes dir) (ds_path dir)) w
      = Some (st1, d, w1)"
    and c: "\<not> ok st1 \<and> m' = m \<or> (\<exists>ws. router_add_dir d (dm_router m) = Some ws \<and>
        m' = m\<lparr>dm_cache_dirs := dm_cache_dirs m @ [d], dm_router := ws, dm_quota_bytes := to_u64 (dm_quota_bytes m + ds_quota_bytes dir)\<rparr>)"
    using assms(3) by (auto simp: dsm_add_cache_dir_def split: Option.bind_splits if_splits)
  note D = cache_dir_init_ok [OF i]
  from c show ?thesis
  proof
    assume "\<exists>ws. router_add_dir d (dm_router m) = Some ws \<and>
        m' = m\<lparr>dm_cache_dirs := dm_cache_dirs m @ [d], dm_router := ws, dm_quota_bytes := to_u64 (dm_quota_bytes m + ds_quota_bytes dir)\<rparr>"
    moreover define dw where "dw = \<lparr>dw_index = cd_index d, dw_weight = to_s64 (cd_quota_bytes d),
        dw_cur_weight = to_s64 (cd_quota_bytes d), dw_enable = True\<rparr>"
    ultimately have g: "cd_index d = length (dm_router m)" and en: "dw_enable dw"
      and m': "dm_cache_dirs m' = dm_cache_dirs m @ [d]" "dm_router m' = dm_router m @ [dw]" "dm_used_bytes m' = dm_used_bytes m"
      by (auto simp: router_add_dir_def Let_def)
    have ok: "dirs_ok m" using assms(1) by (simp add: dsm_ok_def)
    have "to_u8 (length (dm_cache_dirs m)) < 2 ^ 8" unfolding to_u8_def by (rule mod_less_divisor) simp
    then have len: "length (dm_cache_dirs m) < 256" using g D(3) ok by (simp add: dirs_ok_def)
    have "dirs_ok m'" using ok len D(1) en by (auto simp: dirs_ok_def m' nth_append less_Suc_eq)
    moreover have "dsm_live m' = {}"
    proof -
      have "x \<notin> dsm_live m'" for x
      proof
        assume "x \<in> dsm_live m'"
        then show False using assms(2) D(2) [of "bi_block_index x"]
          by (auto simp: dsm_live_def dsm_valid_def m' nth_append less_Suc_eq split: if_splits)
      qed
      then show ?thesis by blast
    qed
    ultimately show ?thesis using assms(1,2) by (simp add: dsm_ok_def m')
  qed (use assms in auto)
qed

lemma add_cache_dirs_ok:
  assumes "add_cache_dirs OS cfg dirs m w = Some (st, m', w')" and "dsm_ok cfg m" and "dsm_live m = {}"
  shows "dsm_ok cfg m' \<and> dsm_live m' = {}"
  using assms
proof (induction dirs arbitrary: m w)
  case (Cons dir dirs)
  from Cons.prems(1) obtain w1 st1 m1 w2 where a: "dsm_add_cache_dir OS cfg dir m w1 = Some (st1, m1, w2)"
    and r: "(if \<not> ok st1 then Some (st1, m1, w2) else add_cache_dirs OS cfg dirs m1 w2) = Some (st, m', w')"
    by (auto split: Option.bind_splits)
  show ?case using r Cons.IH add_cache_dir_ok [OF Cons.prems(2,3) a] by (auto split: if_splits)
qed simp

lemma dsm_empty_ok: "dsm_ok cfg dsm_empty" "dsm_live dsm_empty = {}"
  by (simp_all add: dsm_ok_def dirs_ok_def dsm_empty_def dsm_live_def dsm_valid_def to_u64_def)

section \<open>The contract of a block allocator\<close>

datatype block_op = AllocOp | FreeOp nat

text \<open>
  A client that remembers the blocks it holds: \<open>FreeOp n\<close> frees the \<open>n\<close>-th of them, if there is one.
\<close>

fun alloc_run ::
    "('s \<Rightarrow> ('b option \<times> 's) option) \<Rightarrow> ('b \<Rightarrow> 's \<Rightarrow> 's option) \<Rightarrow> block_op list \<Rightarrow> 'b list \<times> 's
       \<Rightarrow> ('b list \<times> 's) option" where
  "alloc_run al fr [] (held, s) = Some (held, s)"
| "alloc_run al fr (AllocOp # xs) (held, s) =
     (case al s of None \<Rightarrow> None
      | Some (None, s') \<Rightarrow> alloc_run al fr xs (held, s')
      | Some (Some b, s') \<Rightarrow> alloc_run al fr xs (held @ [b], s'))"
| "alloc_run al fr (FreeOp n # xs) (held, s) =
     (if n < length held then
        (case fr (held ! n) s of None \<Rightarrow> None
         | Some s' \<Rightarrow> alloc_run al fr xs (take n held @ drop (Suc n) held, s'))
      else alloc_run al fr xs (held, s))"

locale block_allocator =
  fixes al :: "'s \<Rightarrow> ('b option \<times> 's) option"
    and fr :: "'b \<Rightarrow> 's \<Rightarrow> 's option"
    and inv :: "'s \<Rightarrow> bool"
    and valid :: "'s \<Rightarrow> 'b set"
    and live :: "'s \<Rightarrow> 'b set"
  assumes alloc_law: "inv s \<Longrightarrow> \<exists>r s'. al s = Some (r, s') \<and> inv s' \<and> valid s' = valid s \<and>
      (case r of None \<Rightarrow> live s' = live s \<and> live s = valid s
       | Some b \<Rightarrow> b \<in> valid s - live s \<and> live s' = insert b (live s))"
    and free_law: "inv s \<Longrightarrow> b \<in> live s \<Longrightarrow> \<exists>s'. fr b s = Some s' \<and> inv s' \<and> valid s' = valid s \<and> live s' = live s - {b}"
begin

lemma alloc_fails_iff_full: "inv s \<Longrightarrow> (\<exists>s'. al s = Some (None, s')) \<longleftrightarrow> live s = valid s"
  using alloc_law [of s] by (cases "al s") (fastforce split: option.splits)+

lemma run_ok:
  assumes "inv s" and "distinct held" and "set held = live s"
  shows "\<exists>held' s'. alloc_run al fr xs (held, s) = Some (held', s') \<and> inv s' \<and> distinct held' \<and> set held' = live s' \<and>
    valid s' = valid s"
  using assms
proof (induction xs arbitrary: held s)
  case (Cons x xs)
  show ?case
  proof (cases x)
    case AllocOp
    from alloc_law [OF Cons.prems(1)] obtain r s' where a: "al s = Some (r, s')" "inv s'" "valid s' = valid s"
      and r: "case r of None \<Rightarrow> live s' = live s \<and> live s = valid s | Some b \<Rightarrow> b \<in> valid s - live s \<and> live s' = insert b (live s)"
      by blast
    show ?thesis
    proof (cases r)
      case None
      then show ?thesis using Cons.IH [of s' held] Cons.prems a r AllocOp by auto
    next
      case (Some b)
      then have "distinct (held @ [b])" "set (held @ [b]) = live s'" using Cons.prems r by auto
      then show ?thesis using Cons.IH [of s' "held @ [b]"] a Some AllocOp by auto
    qed
  next
    case (FreeOp n)
    show ?thesis
    proof (cases "n < length held")
      case True
      then have "held ! n \<in> live s" using Cons.prems(3) nth_mem by blast
      from free_law [OF Cons.prems(1) this] obtain s' where
        f: "fr (held ! n) s = Some s'" "inv s'" "valid s' = valid s" "live s' = live s - {held ! n}" by blast
      let ?h = "take n held @ drop (Suc n) held"
      have split: "held = take n held @ held ! n # drop (Suc n) held" using True by (rule id_take_nth_drop)
      then have "distinct (take n held @ held ! n # drop (Suc n) held)" using Cons.prems(2) by metis
      then have d: "distinct ?h" "held ! n \<notin> set ?h" by auto
      have "set held = insert (held ! n) (set ?h)" by (subst split) auto
      then have "set ?h = live s'" using d(2) Cons.prems(3) f(4) by auto
      then show ?thesis using Cons.IH [OF f(2) d(1)] f True FreeOp by auto
    next
      case False
      then show ?thesis using Cons.IH [OF Cons.prems] FreeOp by simp
    qed
  qed
qed simp

end

text \<open>The disk space manager keeps the contract.\<close>

definition dsm_alloc :: "config \<Rightarrow> disk_space_manager \<Rightarrow> (block_id option \<times> disk_space_manager) option" where
  "dsm_alloc cfg m = map_option snd (dsm_alloc_block cfg m)"

definition dsm_free :: "config \<Rightarrow> block_id \<Rightarrow> disk_space_manager \<Rightarrow> disk_space_manager option" where
  "dsm_free cfg b m = map_option snd (dsm_free_block cfg b m)"

interpretation disk_blocks: block_allocator "dsm_alloc cfg" "dsm_free cfg" "dsm_ok cfg" dsm_valid dsm_live for cfg
proof (unfold_locales, goal_cases)
  case (1 m)
  obtain st r m' where a: "dsm_alloc_block cfg m = Some (st, r, m')" and "dsm_ok cfg m'" "dsm_valid m' = dsm_valid m"
    and "case r of None \<Rightarrow> st = Err E_INTERNAL \<and> dsm_live m' = dsm_live m \<and> dsm_live m = dsm_valid m
         | Some b \<Rightarrow> st = OK \<and> b \<in> dsm_valid m - dsm_live m \<and> dsm_live m' = insert b (dsm_live m)"
    using dsm_alloc_spec [OF 1] by blast
  then show ?case by (intro exI [of _ r] exI [of _ m']) (cases r; simp add: dsm_alloc_def)
next
  case (2 m b)
  obtain m' where "dsm_free_block cfg b m = Some (OK, m')" "dsm_ok cfg m'" "dsm_valid m' = dsm_valid m"
    "dsm_live m' = dsm_live m - {b}" using dsm_free_spec [OF 2] by blast
  then show ?case by (intro exI [of _ m']) (simp add: dsm_free_def)
qed

end
