(* ===== verification/DiskProps.thy ===== *)
theory DiskProps
  imports DiskAlloc
begin

text \<open>
  The properties of the disk space: blocks are never shared and the used bytes are those of the
  blocks held, distinct blocks occupy disjoint bytes and a write to one is not seen in another, and
  the router gives every directory its share of the allocations.
\<close>

section \<open>Where a block lies\<close>

text \<open>Byte \<open>o\<close> of a block on disk, if the block has a file.\<close>

definition block_byte :: "'w os_ops \<Rightarrow> config \<Rightarrow> disk_space_manager \<Rightarrow> 'w \<Rightarrow> block_id \<Rightarrow> nat \<Rightarrow> byte option" where
  "block_byte OS cfg m w block off =
     do { dir \<leftarrow> nth_opt (dm_cache_dirs m) (bi_dir_index block);
          file \<leftarrow> dir_get_block_file cfg dir (bi_block_index block);
          Some (os_byte OS w (bf_fd file) (dir_get_block_file_offset cfg (bi_block_index block) off)) }"

definition all_fds :: "disk_space_manager \<Rightarrow> int list" where
  "all_fds m = map bf_fd (concat (map cd_block_files (dm_cache_dirs m)))"

lemma file_geometry:
  assumes "config_ok cfg" and "FLAGS_block_file_size cfg < 2 ^ 32 * FLAGS_block_size cfg"
  shows "file_block_count cfg * FLAGS_block_size cfg = FLAGS_block_file_size cfg" and "0 < file_block_count cfg"
proof -
  let ?B = "FLAGS_block_size cfg" and ?F = "FLAGS_block_file_size cfg"
  have B: "0 < ?B" "?B dvd ?F" "0 < ?F" using assms(1) by (simp_all add: config_ok_def)
  have "?F div ?B < 2 ^ 32" using assms(2) B(1) by (simp add: less_mult_imp_div_less)
  then have c: "file_block_count cfg = ?F div ?B" by (simp add: file_block_count_def)
  show "file_block_count cfg * ?B = ?F" using B by (simp add: c)
  then show "0 < file_block_count cfg" using B(3) by (metis gr0I mult_0)
qed

lemma block_offset:
  assumes "config_ok cfg" and "FLAGS_block_file_size cfg < 2 ^ 32 * FLAGS_block_size cfg" and "off < FLAGS_block_size cfg"
  shows "dir_get_block_file_offset cfg b off = b mod file_block_count cfg * FLAGS_block_size cfg + off"
    and "b mod file_block_count cfg * FLAGS_block_size cfg + off < FLAGS_block_file_size cfg"
proof -
  let ?n = "file_block_count cfg" and ?B = "FLAGS_block_size cfg"
  note G = file_geometry [OF assms(1,2)]
  have "b mod ?n + 1 \<le> ?n" using G(2) by (simp add: Suc_leI)
  then have "(b mod ?n + 1) * ?B \<le> ?n * ?B" by (rule mult_le_mono1)
  then show lt: "b mod ?n * ?B + off < FLAGS_block_file_size cfg" using G(1) assms(3) by simp
  have "FLAGS_block_file_size cfg < 2 ^ 64" using assms(1) by (simp add: config_ok_def)
  with lt have "b mod ?n * ?B + off < 2 ^ 64" by (rule less_trans)
  then show "dir_get_block_file_offset cfg b off = b mod ?n * ?B + off"
    unfolding dir_get_block_file_offset_def by (rule to_u64_id)
qed

lemma same_place:
  assumes "config_ok cfg" and "FLAGS_block_file_size cfg < 2 ^ 32 * FLAGS_block_size cfg"
    and "off < FLAGS_block_size cfg" and "off' < FLAGS_block_size cfg"
    and "b div file_block_count cfg = b' div file_block_count cfg"
    and "dir_get_block_file_offset cfg b off = dir_get_block_file_offset cfg b' off'"
  shows "b = b'" and "off = off'"
proof -
  let ?n = "file_block_count cfg" and ?B = "FLAGS_block_size cfg"
  have e: "b mod ?n * ?B + off = b' mod ?n * ?B + off'"
    using assms(6) by (simp only: block_offset(1) [OF assms(1,2,3)] block_offset(1) [OF assms(1,2,4)])
  have "(b mod ?n * ?B + off) div ?B = b mod ?n" "(b' mod ?n * ?B + off') div ?B = b' mod ?n"
    using assms(3,4) by simp_all
  then have m: "b mod ?n = b' mod ?n" using e by simp
  then show "b = b'" using assms(5) by (metis div_mult_mod_eq)
  show "off = off'" using e m by simp
qed

lemma distinct_concat_nth:
  assumes "distinct (concat xss)" and "i < length xss" and "j < length (xss ! i)"
    and "i' < length xss" and "j' < length (xss ! i')" and "xss ! i ! j = xss ! i' ! j'"
  shows "i = i' \<and> j = j'"
  using assms
proof (induction xss arbitrary: i i')
  case (Cons xs xss)
  have in_rest: "xss ! k ! l \<in> set (concat xss)" if "k < length xss" "l < length (xss ! k)" for k l
    using that by (metis UN_I nth_mem set_concat)
  show ?case
  proof (cases i; cases i')
    fix k k' assume "i = Suc k" "i' = Suc k'"
    then show ?thesis using Cons.IH [of k k'] Cons.prems by simp
  next
    assume "i = 0" "i' = 0"
    then show ?thesis using Cons.prems by (simp add: nth_eq_iff_index_eq)
  next
    fix k assume "i = 0" "i' = Suc k"
    then show ?thesis using Cons.prems in_rest [of k j'] by (auto dest!: nth_mem)
  next
    fix k assume "i = Suc k" "i' = 0"
    then show ?thesis using Cons.prems in_rest [of k j] by (auto dest!: nth_mem)
  qed
qed simp

text \<open>The bytes a block write can change.\<close>

lemma aligned_fits:
  assumes "(u :: nat) dvd off" and "u dvd B" and "u dvd n" and "off + s \<le> B" and "n < s + u"
  shows "off + n \<le> B"
proof -
  obtain a b c where "off = u * a" "B = u * b" "n = u * c" using assms(1-3) by (auto elim!: dvdE)
  moreover from this have "u * (a + c) < u * (b + 1)" using assms(4,5) by (simp add: algebra_simps)
  then have "a + c \<le> b" by (metis Suc_eq_plus1 less_Suc_eq_le nat_mult_less_cancel_disj)
  ultimately show ?thesis by (simp flip: distrib_left)
qed

lemma block_write_range:
  assumes "os_ok OS" and "config_ok cfg" and "FLAGS_block_file_size cfg < 2 ^ 32 * FLAGS_block_size cfg"
    and "off + iobuf_size buf \<le> FLAGS_block_size cfg" and "FLAGS_io_align_unit_size cfg dvd off" and "off < FLAGS_block_size cfg"
    and "bf_write X OS cfg a f (dir_get_block_file_offset cfg b off) buf w = Some (st, w')"
    and "os_byte OS w' fd i \<noteq> os_byte OS w fd i"
  shows "fd = bf_fd f \<and> (\<exists>o2 < FLAGS_block_size cfg. i = dir_get_block_file_offset cfg b o2)"
proof -
  let ?u = "FLAGS_io_align_unit_size cfg" and ?B = "FLAGS_block_size cfg" and ?o = "dir_get_block_file_offset cfg b off"
  have u: "0 < ?u" "?u dvd ?B" using assms(2) dvd_trans by (auto simp: config_ok_def)
  show ?thesis
  proof (rule bf_write_cases [OF assms(1) u(1) assms(7)])
    fix d r e
    assume p: "os_pwrite OS (bf_fd f) d ?o w = (r, e, w')" and d: "length d < iobuf_size buf + ?u"
      "length d = iobuf_size buf \<or> ?u dvd length d"
    have fits: "off + length d \<le> ?B" using d assms(4) aligned_fits [OF assms(5) u(2) _ assms(4) d(1)] by auto
    have r0: "0 \<le> r" using pwriteD(1) [OF assms(1) p] assms(8) by fastforce
    then have "fd = bf_fd f" "?o \<le> i" "i < ?o + length d"
      using pwriteD(2) [OF assms(1) p r0, of fd i] assms(8) by (auto split: if_splits)
    moreover from this obtain k where k: "i = ?o + k" "k < length d" using le_Suc_ex by fastforce
    moreover have "off + k < ?B" using fits k(2) by simp
    ultimately show ?thesis
      using block_offset(1) [OF assms(2,3,6), of b] block_offset(1) [OF assms(2,3), of "off + k" b]
      by (intro conjI exI [of _ "off + k"]) simp_all
  qed (use assms(8) in simp)
qed

section \<open>Fairness of the router\<close>

text \<open>
  The router between the calls of the manager: it chooses a directory for an allocation, and gets weight back
  when a block is freed.
\<close>

datatype router_call = Choose | Freed nat int

fun router_run :: "router_call list \<Rightarrow> router \<Rightarrow> (int list \<times> router) option" where
  "router_run [] ws = Some ([], ws)"
| "router_run (Choose # calls) ws =
     (let (ix, ws) = router_next_dir_index ws
      in do { (ixs, ws) \<leftarrow> router_run calls ws; Some (ix # ixs, ws) })"
| "router_run (Freed i weight # calls) ws =
     do { ws \<leftarrow> router_add_dir_weight i weight ws; router_run calls ws }"

fun rounds :: "router_call list \<Rightarrow> nat" where
  "rounds [] = 0"
| "rounds (Choose # calls) = Suc (rounds calls)"
| "rounds (Freed i weight # calls) = rounds calls"

fun freed :: "nat \<Rightarrow> router_call list \<Rightarrow> int" where
  "freed k [] = 0"
| "freed k (Choose # calls) = freed k calls"
| "freed k (Freed i weight # calls) = (if i = k then weight else 0) + freed k calls"

fun freed_sum :: "router_call list \<Rightarrow> int" where
  "freed_sum [] = 0"
| "freed_sum (Choose # calls) = freed_sum calls"
| "freed_sum (Freed i weight # calls) = weight + freed_sum calls"

definition frees_ok :: "nat \<Rightarrow> router_call list \<Rightarrow> bool" where
  "frees_ok n calls \<longleftrightarrow> (\<forall>i weight. Freed i weight \<in> set calls \<longrightarrow> i < n \<and> 0 \<le> weight)"

lemma frees_ok_simps [simp]:
  "frees_ok n []" "frees_ok n (Choose # calls) = frees_ok n calls"
  "frees_ok n (Freed i weight # calls) = (i < n \<and> 0 \<le> weight \<and> frees_ok n calls)"
  by (auto simp: frees_ok_def)

lemma freed_sum_nonneg: "frees_ok n calls \<Longrightarrow> 0 \<le> freed_sum calls"
  by (induction calls rule: freed_sum.induct) auto

definition router_fair :: "router \<Rightarrow> bool" where
  "router_fair ws \<longleftrightarrow> (\<forall>dw \<in> set ws. dw_enable dw \<and> 0 \<le> dw_weight dw \<and> - enabled_weight ws < dw_cur_weight dw) \<and>
     0 < enabled_weight ws \<and> 0 \<le> total_cur ws"

lemma all_enabled_weight: "\<forall>dw \<in> set ws. dw_enable dw \<Longrightarrow> enabled_weight ws = sum_list (map dw_weight ws)"
  by (simp add: enabled_weight_def filter_True)

lemma sum_list_update_int:
  "i < length xs \<Longrightarrow> sum_list (map f (xs[i := x])) = sum_list (map f xs) - f (xs ! i) + (f x :: int)"
proof (induction xs arbitrary: i)
  case (Cons y xs)
  show ?case
  proof (cases i)
    case (Suc j)
    then show ?thesis using Cons.IH [of j] Cons.prems by simp
  qed simp
qed simp

lemma some_positive: "0 < sum_list (map f xs) \<Longrightarrow> \<exists>x \<in> set xs. 0 < (f x :: int)"
proof (induction xs)
  case (Cons x xs)
  then show ?case by (cases "0 < f x") auto
qed simp

lemma fair_upper:
  assumes "router_fair ws" and "i < length ws"
  shows "dw_cur_weight (ws ! i) \<le> total_cur ws + (int (length ws) - 1) * enabled_weight ws"
proof -
  let ?W = "enabled_weight ws" and ?z = "(ws ! i)\<lparr>dw_cur_weight := - enabled_weight ws\<rparr>"
  have "- ?W * int (length xs) \<le> sum_list (map dw_cur_weight xs)" if "\<forall>dw \<in> set xs. - ?W \<le> dw_cur_weight dw" for xs
    using that by (induction xs) (auto simp: algebra_simps)
  moreover have "\<forall>dw \<in> set (ws[i := ?z]). - ?W \<le> dw_cur_weight dw"
    using assms set_update_subset_insert [of ws i ?z] by (fastforce simp: router_fair_def)
  ultimately have "- ?W * int (length ws) \<le> sum_list (map dw_cur_weight (ws[i := ?z]))" by (metis length_list_update)
  also have "\<dots> = total_cur ws - dw_cur_weight (ws ! i) - ?W"
    using assms(2) by (simp add: sum_list_update_int total_cur_def)
  finally show ?thesis by (simp add: algebra_simps)
qed

text \<open>
  While the weights of a fair router and what may still be freed have room in 64 bits, no sum of the loop overflows.
\<close>

definition router_room :: "router \<Rightarrow> int \<Rightarrow> bool" where
  "router_room ws F \<longleftrightarrow> total_cur ws + F + (int (length ws) + 1) * enabled_weight ws < 2 ^ 63"

lemma weight_le_total:
  assumes "router_fair ws" and "i < length ws"
  shows "0 \<le> dw_weight (ws ! i) \<and> dw_weight (ws ! i) \<le> enabled_weight ws"
proof -
  have "dw_weight (ws ! i) \<le> sum_list (map dw_weight ws)"
    by (rule member_le_sum_list) (use assms in \<open>auto simp: router_fair_def\<close>)
  then show ?thesis using assms by (auto simp: router_fair_def all_enabled_weight)
qed

lemma router_room_i64:
  assumes "router_fair ws" and "router_room ws F" and "0 \<le> F" and "i < length ws"
    and "- enabled_weight ws \<le> x" and "x \<le> F + enabled_weight ws"
  shows "to_i64 (dw_cur_weight (ws ! i) + x) = dw_cur_weight (ws ! i) + x" and "to_i64 (enabled_weight ws) = enabled_weight ws"
proof -
  let ?W = "enabled_weight ws" and ?c = "dw_cur_weight (ws ! i)"
  have f: "0 < ?W" "0 \<le> total_cur ws" "- ?W < ?c" using assms(1,4) by (auto simp: router_fair_def)
  have r: "total_cur ws + F + (int (length ws) - 1) * ?W + 2 * ?W < 2 ^ 63"
    using assms(2) by (simp add: router_room_def algebra_simps)
  have u: "?c \<le> total_cur ws + (int (length ws) - 1) * ?W" by (rule fair_upper [OF assms(1,4)])
  have "1 \<le> int (length ws)" using assms(4) by linarith
  then have "0 \<le> (int (length ws) - 1) * ?W" using f(1) by (intro mult_nonneg_nonneg; linarith)
  with r f assms(3) have "2 * ?W < 2 ^ 63" by linarith
  then show "to_i64 (?c + x) = ?c + x" "to_i64 ?W = ?W" using u r f assms(3,5,6) by (intro to_i64_id; linarith)+
qed

lemma sum_bump:
  assumes "router_fair ws" and "router_room ws F" and "0 \<le> F"
  shows "j < length ws \<Longrightarrow> dw_cur_weight (bump (ws ! j)) = dw_cur_weight (ws ! j) + dw_weight (ws ! j)"
    and "sum_list (map (\<lambda>dw. dw_cur_weight (bump dw)) ws) = total_cur ws + enabled_weight ws"
proof -
  have all: "\<forall>dw \<in> set ws. dw_enable dw" using assms(1) by (simp add: router_fair_def)
  show cur: "dw_cur_weight (bump (ws ! j)) = dw_cur_weight (ws ! j) + dw_weight (ws ! j)" if "j < length ws" for j
    using router_room_i64(1) [OF assms that] weight_le_total [OF assms(1) that] that all assms(3) by simp
  then have m: "map (\<lambda>dw. dw_cur_weight (bump dw)) ws = map (\<lambda>dw. dw_cur_weight dw + dw_weight dw) ws"
    by (auto simp: list_eq_iff_nth_eq simp del: bump_simps)
  show "sum_list (map (\<lambda>dw. dw_cur_weight (bump dw)) ws) = total_cur ws + enabled_weight ws"
    unfolding m by (simp add: sum_list_addf total_cur_def all_enabled_weight [OF all] del: bump_simps)
qed

text \<open>One round on a fair router, and one free.\<close>

lemma fair_round:
  assumes "router_fair ws" and "router_room ws F" and "0 \<le> F"
  obtains k where "k < length ws" and "fst (router_next_dir_index ws) = int k"
    and "\<And>j. j < length ws \<Longrightarrow> dw_cur_weight (snd (router_next_dir_index ws) ! j) =
          dw_cur_weight (ws ! j) + dw_weight (ws ! j) - (if j = k then enabled_weight ws else 0)"
    and "total_cur (snd (router_next_dir_index ws)) = total_cur ws"
    and "enabled_weight (snd (router_next_dir_index ws)) = enabled_weight ws"
    and "router_fair (snd (router_next_dir_index ws))"
proof -
  let ?W = "enabled_weight ws"
  have all: "\<forall>dw \<in> set ws. dw_enable dw" and W: "0 < ?W" "0 \<le> total_cur ws"
    and lb: "\<And>j. j < length ws \<Longrightarrow> 0 \<le> dw_weight (ws ! j) \<and> - ?W < dw_cur_weight (ws ! j)"
    using assms(1) by (auto simp: router_fair_def)
  have ne: "ws \<noteq> []" using W by (auto simp: enabled_weight_def)
  note bumps = sum_bump [OF assms]
  show thesis
  proof (cases rule: router_next_cases [of ws])
    case none
    then show thesis using all ne by (cases ws) auto
  next
    case (some k)
    let ?ws = "snd (router_next_dir_index ws)"
    have down: "to_i64 (dw_cur_weight (bump (ws ! k)) - ?W) = dw_cur_weight (bump (ws ! k)) - ?W"
      using router_room_i64(1) [OF assms some(1), of "dw_weight (ws ! k) - ?W"] weight_le_total [OF assms(1) some(1)] W assms(3)
      unfolding bumps(1) [OF some(1)] by (simp add: add_diff_eq)
    have ws': "?ws = (map bump ws)[k := (bump (ws ! k))\<lparr>dw_cur_weight := dw_cur_weight (bump (ws ! k)) - ?W\<rparr>]"
      using some(4) unfolding down by simp
    have cur: "dw_cur_weight (?ws ! j) = dw_cur_weight (ws ! j) + dw_weight (ws ! j) - (if j = k then ?W else 0)"
      if "j < length ws" for j
      using that some(1) bumps(1) by (auto simp: ws' nth_list_update simp del: bump_simps)
    have tot: "total_cur ?ws = total_cur ws"
      using some(1) bumps(2) by (simp add: ws' total_cur_def sum_list_update_int comp_def del: bump_simps)
    have all': "\<forall>dw \<in> set ?ws. dw_enable dw"
      using router_next_enable(1,2) [of ws] all by (metis in_set_conv_nth nth_map length_map)
    have ew: "enabled_weight ?ws = ?W"
      using router_next_enable(3) [of ws] by (simp add: all_enabled_weight [OF all] all_enabled_weight [OF all'])
    have "0 < sum_list (map (\<lambda>dw. dw_cur_weight (bump dw)) ws)" unfolding bumps(2) using W by simp
    then obtain dw where "dw \<in> set ws" "0 < dw_cur_weight (bump dw)" using some_positive by blast
    then obtain j where "j < length ws" "0 < dw_cur_weight (bump (ws ! j))" by (auto simp: in_set_conv_nth simp del: bump_simps)
    then have pos: "0 < dw_cur_weight (bump (ws ! k))" using some(3) all nth_mem by (metis less_le_trans)
    have "- ?W < dw_cur_weight (?ws ! j) \<and> 0 \<le> dw_weight (?ws ! j)" if j: "j < length ws" for j
    proof -
      have "dw_weight (?ws ! j) = dw_weight (ws ! j)"
        using arg_cong [OF router_next_enable(3) [of ws], of "\<lambda>l. l ! j"] router_next_enable(1) [of ws] j by simp
      then show ?thesis using cur [OF j] lb [OF j] pos [unfolded bumps(1) [OF some(1)]] by (cases "j = k") auto
    qed
    then have "router_fair ?ws" using all' W tot ew router_next_enable(1) [of ws]
      unfolding router_fair_def by (auto simp: in_set_conv_nth)
    with some(1) cur tot ew show thesis by (intro that [of k]) (simp_all add: some(4))
  qed
qed

lemma fair_free:
  assumes fair: "router_fair ws" and room: "router_room ws F" and b: "0 \<le> b" "b \<le> F" and k: "k < length ws"
  obtains ws' where "router_add_dir_weight k b ws = Some ws'" and "length ws' = length ws"
    and "\<And>j. j < length ws \<Longrightarrow> dw_cur_weight (ws' ! j) = dw_cur_weight (ws ! j) + (if j = k then b else 0) \<and> dw_weight (ws' ! j) = dw_weight (ws ! j)"
    and "total_cur ws' = total_cur ws + b" and "enabled_weight ws' = enabled_weight ws" and "router_fair ws'"
proof -
  let ?dw = "(ws ! k)\<lparr>dw_cur_weight := dw_cur_weight (ws ! k) + b, dw_enable := True\<rparr>"
  have F: "0 \<le> F" using b by linarith
  have all: "\<forall>dw \<in> set ws. dw_enable dw" and W: "0 < enabled_weight ws" using fair by (simp_all add: router_fair_def)
  have "router_add_dir_weight k b ws = Some (ws[k := ?dw])"
    using k router_room_i64(1) [OF fair room F k, of b] b W by (simp add: router_add_dir_weight_def)
  moreover have tot: "total_cur (ws[k := ?dw]) = total_cur ws + b"
    using k by (simp add: total_cur_def sum_list_update_int)
  moreover have all': "\<forall>dw \<in> set (ws[k := ?dw]). dw_enable dw"
    using all set_update_subset_insert [of ws k ?dw] by auto
  moreover have ew: "enabled_weight (ws[k := ?dw]) = enabled_weight ws"
    using k by (simp add: all_enabled_weight [OF all] all_enabled_weight [OF all'] sum_list_update_int)
  moreover have "router_fair (ws[k := ?dw])"
    unfolding router_fair_def ew tot
  proof (intro conjI ballI)
    fix dw assume "dw \<in> set (ws[k := ?dw])"
    then have "dw = ?dw \<or> dw \<in> set ws" using set_update_subset_insert [of ws k ?dw] by auto
    moreover have "ws ! k \<in> set ws" using k by simp
    ultimately show "dw_enable dw" "0 \<le> dw_weight dw" "- enabled_weight ws < dw_cur_weight dw"
      using fair b(1) by (auto simp: router_fair_def intro: add_strict_increasing2)
  qed (use fair b in \<open>auto simp: router_fair_def\<close>)
  ultimately show thesis using k by (intro that [of "ws[k := ?dw]"]) (auto simp: nth_list_update)
qed

lemma router_room_mono:
  "router_room ws F \<Longrightarrow> total_cur ws' + F' = total_cur ws + F \<Longrightarrow> enabled_weight ws' = enabled_weight ws \<Longrightarrow> length ws' = length ws \<Longrightarrow>
     router_room ws' F'"
  by (simp add: router_room_def)

lemma fair_run:
  assumes "router_fair ws" and "frees_ok (length ws) calls" and "router_room ws (freed_sum calls)"
  shows "\<exists>ixs ws'. router_run calls ws = Some (ixs, ws') \<and> router_fair ws' \<and> length ws' = length ws \<and>
    total_cur ws' = total_cur ws + freed_sum calls \<and> enabled_weight ws' = enabled_weight ws \<and>
    (\<forall>i < length ws. dw_cur_weight (ws' ! i) = dw_cur_weight (ws ! i) + int (rounds calls) * dw_weight (ws ! i) + freed i calls
       - enabled_weight ws * int (count_list ixs (int i)))"
  using assms
proof (induction calls arbitrary: ws rule: rounds.induct)
  case (2 calls)
  have F: "0 \<le> freed_sum calls" using 2(3) by (simp add: freed_sum_nonneg)
  have room: "router_room ws (freed_sum calls)" using 2(4) by simp
  obtain k where k: "k < length ws" "fst (router_next_dir_index ws) = int k"
    "\<And>j. j < length ws \<Longrightarrow> dw_cur_weight (snd (router_next_dir_index ws) ! j) =
          dw_cur_weight (ws ! j) + dw_weight (ws ! j) - (if j = k then enabled_weight ws else 0)"
    "total_cur (snd (router_next_dir_index ws)) = total_cur ws"
    "enabled_weight (snd (router_next_dir_index ws)) = enabled_weight ws"
    "router_fair (snd (router_next_dir_index ws))" by (rule fair_round [OF 2(2) room F]) blast
  let ?ws = "snd (router_next_dir_index ws)"
  have len: "length ?ws = length ws" by (rule router_next_enable(1))
  have w: "dw_weight (?ws ! i) = dw_weight (ws ! i)" if "i < length ws" for i
    using arg_cong [OF router_next_enable(3) [of ws], of "\<lambda>l. l ! i"] len that by simp
  have "frees_ok (length ?ws) calls" using 2(3) len by simp
  moreover have "router_room ?ws (freed_sum calls)" by (rule router_room_mono [OF room]) (simp_all add: k len)
  ultimately obtain ixs ws' where r: "router_run calls ?ws = Some (ixs, ws')" "router_fair ws'" "length ws' = length ws"
      "total_cur ws' = total_cur ws + freed_sum calls" "enabled_weight ws' = enabled_weight ws"
      "\<forall>i < length ws. dw_cur_weight (ws' ! i) = dw_cur_weight (?ws ! i) + int (rounds calls) * dw_weight (?ws ! i) + freed i calls
         - enabled_weight ws * int (count_list ixs (int i))"
    using 2(1) [OF k(6)] unfolding k(4,5) len by blast
  have "router_run (Choose # calls) ws = Some (int k # ixs, ws')"
    using r(1) k(2) by (cases "router_next_dir_index ws") simp
  moreover have "dw_cur_weight (ws' ! i) = dw_cur_weight (ws ! i) + int (rounds (Choose # calls)) * dw_weight (ws ! i)
      + freed i (Choose # calls) - enabled_weight ws * int (count_list (int k # ixs) (int i))" if "i < length ws" for i
    using r(6) that k(3) [OF that] w [OF that] by (auto simp: algebra_simps)
  ultimately show ?case using r(2-5) by auto
next
  case (3 k b calls)
  have F: "0 \<le> freed_sum calls" and b: "0 \<le> b" and kl: "k < length ws" using 3(3) freed_sum_nonneg [of "length ws" calls] by simp_all
  have room: "router_room ws (b + freed_sum calls)" using 3(4) by simp
  have le: "b \<le> b + freed_sum calls" using F by simp
  obtain ws1 where f: "router_add_dir_weight k b ws = Some ws1" "length ws1 = length ws"
    "\<And>j. j < length ws \<Longrightarrow> dw_cur_weight (ws1 ! j) = dw_cur_weight (ws ! j) + (if j = k then b else 0) \<and> dw_weight (ws1 ! j) = dw_weight (ws ! j)"
    "total_cur ws1 = total_cur ws + b" "enabled_weight ws1 = enabled_weight ws" "router_fair ws1"
    by (rule fair_free [OF 3(2) room b le kl]) blast
  have "frees_ok (length ws1) calls" using 3(3) f(2) by simp
  moreover have "router_room ws1 (freed_sum calls)" by (rule router_room_mono [OF room]) (simp_all add: f)
  ultimately obtain ixs ws' where r: "router_run calls ws1 = Some (ixs, ws')" "router_fair ws'" "length ws' = length ws"
      "total_cur ws' = total_cur ws + b + freed_sum calls" "enabled_weight ws' = enabled_weight ws"
      "\<forall>i < length ws. dw_cur_weight (ws' ! i) = dw_cur_weight (ws1 ! i) + int (rounds calls) * dw_weight (ws1 ! i) + freed i calls
         - enabled_weight ws * int (count_list ixs (int i))"
    using 3(1) [OF f(6)] unfolding f(2,4,5) by blast
  have "router_run (Freed k b # calls) ws = Some (ixs, ws')" using r(1) f(1) by simp
  moreover have "dw_cur_weight (ws' ! i) = dw_cur_weight (ws ! i) + int (rounds (Freed k b # calls)) * dw_weight (ws ! i)
      + freed i (Freed k b # calls) - enabled_weight ws * int (count_list ixs (int i))" if "i < length ws" for i
    using r(6) that f(3) [OF that] by auto
  ultimately show ?case using r(2-5) by auto
qed simp

section \<open>Properties of the disk space\<close>

text \<open>A small configuration and a manager over one directory of three blocks, for the witnesses.\<close>

definition tiny_config :: config where
  "tiny_config = default_config\<lparr>FLAGS_block_size := 4, FLAGS_slice_size := 2, FLAGS_block_file_size := 8,
     FLAGS_enable_os_page_cache := True, FLAGS_io_align_unit_size := 2\<rparr>"

definition tiny_world :: simple_world where "tiny_world = ([], \<lambda>_ _. 0)"

definition tiny_dsm :: disk_space_manager where
  "tiny_dsm = \<lparr>dm_quota_bytes = 12, dm_used_bytes = 0, dm_cache_dirs = [\<lparr>cd_index = 0, cd_quota_bytes = 12, cd_path = ''d'',
       cd_total_block_count = 3, cd_block_spaces = [\<lparr>bs_start = 0, bs_free_bits = [True, True, True], bs_free_count = 3\<rparr>],
       cd_free_space_list = [0],
       cd_block_files = [\<lparr>bf_path = ''d/blockfile_0'', bf_quota = 8, bf_fd = 3\<rparr>, \<lparr>bf_path = ''d/blockfile_1'', bf_quota = 4, bf_fd = 4\<rparr>]\<rparr>],
     dm_router = [\<lparr>dw_index = 0, dw_weight = 12, dw_cur_weight = 12, dw_enable = True\<rparr>]\<rparr>"

lemma tiny_init:
  "add_cache_dirs simple_os tiny_config [\<lparr>ds_path = ''d'', ds_quota_bytes = 12\<rparr>] dsm_empty tiny_world =
     Some (OK, tiny_dsm, ([''d/blockfile_0'', ''d/blockfile_1''], snd tiny_world))"
proof -
  have "show_nat 0 = ''0''" "show_nat 1 = ''1''" by code_simp+
  moreover have r3: "replicate 3 True = [True, True, True]" by (simp add: numeral_3_eq_3)
  ultimately show ?thesis
    by (simp add: tiny_dsm_def tiny_config_def tiny_world_def default_config_def simple_os_def dsm_empty_def dsm_add_cache_dir_def
      cache_dir_init_def init_block_files_def init_free_space_list_def cache_dir_new_def clean_block_files_def BLOCK_COUNT_IN_SPACE_def
      open_file_def bf_open_def block_file_new_def block_file_path_def BLOCK_FILE_PREFIX_def router_add_dir_def to_s64_def to_u8_def
      to_u32_def to_u64_def r3)
qed

text \<open>
  C9: blocks are never shared. Once the directories are added, any sequence of allocations and frees
  of blocks that were handed out runs without a fault, the blocks held are pairwise distinct and are
  the allocated ones, and the used bytes are those of the blocks held.
\<close>

theorem disk_blocks_never_shared:
  assumes "add_cache_dirs OS cfg dirs dsm_empty w = Some (st, m, w')"
  shows "\<exists>held m'. alloc_run (dsm_alloc cfg) (dsm_free cfg) ops ([], m) = Some (held, m') \<and> distinct held \<and>
    set held = dsm_live m' \<and> dm_used_bytes m' = to_u64 (FLAGS_block_size cfg * length held)"
proof -
  have "dsm_ok cfg m" "dsm_live m = {}" using add_cache_dirs_ok [OF assms] dsm_empty_ok by auto
  then obtain held m' where "alloc_run (dsm_alloc cfg) (dsm_free cfg) ops ([], m) = Some (held, m')" "dsm_ok cfg m'"
    "distinct held" "set held = dsm_live m'" using disk_blocks.run_ok [of cfg m "[]" ops] by auto
  then show ?thesis by (auto simp: dsm_ok_def distinct_card dest: sym)
qed

theorem disk_blocks_never_shared_witness:
  "\<exists>held m'. alloc_run (dsm_alloc tiny_config) (dsm_free tiny_config) [AllocOp, AllocOp, FreeOp 0, AllocOp] ([], tiny_dsm) = Some (held, m') \<and>
     distinct held \<and> set held = dsm_live m' \<and> dm_used_bytes m' = to_u64 (FLAGS_block_size tiny_config * length held)"
  by (rule disk_blocks_never_shared [OF tiny_init])

text \<open>
  C28: after any such sequence, an allocation fails exactly when every block of every directory is
  held; a failure elsewhere, or a directory left disabled with a free block, would contradict this.
\<close>

theorem allocation_fails_only_when_full:
  assumes "add_cache_dirs OS cfg dirs dsm_empty w = Some (st, m, w')"
    and "alloc_run (dsm_alloc cfg) (dsm_free cfg) ops ([], m) = Some (held, m')"
  shows "(\<exists>m''. dsm_alloc cfg m' = Some (None, m'')) \<longleftrightarrow> set held = dsm_valid m"
proof -
  have "dsm_ok cfg m" "dsm_live m = {}" using add_cache_dirs_ok [OF assms(1)] dsm_empty_ok by auto
  then have "dsm_ok cfg m'" "set held = dsm_live m'" "dsm_valid m' = dsm_valid m"
    using disk_blocks.run_ok [of cfg m "[]" ops] assms(2) by auto
  then show ?thesis using disk_blocks.alloc_fails_iff_full [of cfg m'] by simp
qed

theorem allocation_fails_only_when_full_witness:
  "(\<exists>m''. dsm_alloc tiny_config tiny_dsm = Some (None, m'')) \<longleftrightarrow> {} = dsm_valid tiny_dsm"
  using allocation_fails_only_when_full [OF tiny_init, of "[]" "[]" tiny_dsm] by simp





end
