(* ===== verification/MurmurHash.thy ===== *)
theory MurmurHash
  imports AuxFuncs
begin

text \<open>
  \<^verbatim>\<open>src/utils/murmur_hash3.cpp\<close>: the four hash functions, on a key given as its bytes and its
  length, in the arithmetic of 32- and 64-bit words (the \<^verbatim>\<open>int\<close> length is signed in the x64-64 variant, and a
  natural number below \<open>2 ^ 31\<close> in the three that nothing in the program calls); \<^verbatim>\<open>hash64\<close> and \<^verbatim>\<open>cachekey2id\<close> of
  \<^verbatim>\<open>src/aux_funcs\<close>, which name every cached object by the x64-64 variant. Block reads are
  little-endian, as on the x86 machines the code is written for. The locale \<open>block_hash\<close> states
  what makes a block-wise hash separate keys that differ in one block.
\<close>

unbundle bit_operations_syntax

section \<open>Bytes as little-endian words\<close>

fun le_word :: "bytes \<Rightarrow> 'a::len word" where
  "le_word [] = 0"
| "le_word (b # bs) = ucast b OR push_bit 8 (le_word bs)"

definition getblock32 :: "bytes \<Rightarrow> nat \<Rightarrow> u32" where
  "getblock32 p i = le_word (take 4 (drop (4 * i) p))"

definition getblock64 :: "bytes \<Rightarrow> nat \<Rightarrow> u64" where
  "getblock64 p i = le_word (take 8 (drop (8 * i) p))"

section \<open>Rotation and the finalization mix\<close>

definition rotl32 :: "u32 \<Rightarrow> nat \<Rightarrow> u32" where
  "rotl32 x r = push_bit r x OR drop_bit (32 - r) x"

definition rotl64 :: "u64 \<Rightarrow> nat \<Rightarrow> u64" where
  "rotl64 x r = push_bit r x OR drop_bit (64 - r) x"

definition fmix32 :: "u32 \<Rightarrow> u32" where
  "fmix32 h0 =
     (let h1 = h0 XOR drop_bit 16 h0;
          h2 = h1 * 0x85ebca6b;
          h3 = h2 XOR drop_bit 13 h2;
          h4 = h3 * 0xc2b2ae35
      in h4 XOR drop_bit 16 h4)"

definition fmix64 :: "u64 \<Rightarrow> u64" where
  "fmix64 k0 =
     (let k1 = k0 XOR drop_bit 33 k0;
          k2 = k1 * 0xff51afd7ed558ccd;
          k3 = k2 XOR drop_bit 33 k2;
          k4 = k3 * 0xc4ceb9fe1a85ec53
      in k4 XOR drop_bit 33 k4)"

section \<open>\<^verbatim>\<open>murmur_hash3_x86_32\<close>\<close>

definition mix_x86_32 :: "u32 \<Rightarrow> u32" where
  "mix_x86_32 k1 = rotl32 (k1 * 0xcc9e2d51) 15 * 0x1b873593"

definition body_x86_32 :: "u32 \<Rightarrow> u32 \<Rightarrow> u32" where
  "body_x86_32 h1 k1 = rotl32 (h1 XOR mix_x86_32 k1) 13 * 5 + 0xe6546b64"

text \<open>
  The cases of the \<^verbatim>\<open>switch\<close> on the tail fall through: entering at case \<open>rem\<close> runs every case
  below it. \<open>tail_byte rem tail j s k\<close> is the statement \<^verbatim>\<open>k ^= tail[j] << s\<close> of case \<open>j + 1\<close>.
\<close>

definition tail_byte :: "nat \<Rightarrow> bytes \<Rightarrow> nat \<Rightarrow> nat \<Rightarrow> 'a::len word \<Rightarrow> 'a word" where
  "tail_byte rem tail j s k = (if j + 1 \<le> rem then k XOR push_bit s (ucast (tail ! j)) else k)"

definition tail_x86_32 :: "bytes \<Rightarrow> nat \<Rightarrow> u32 \<Rightarrow> u32" where
  "tail_x86_32 tail rem h1 =
     (let k1 = tail_byte rem tail 0 0 (tail_byte rem tail 1 8 (tail_byte rem tail 2 16 0))
      in if 1 \<le> rem then h1 XOR mix_x86_32 k1 else h1)"

definition murmur_hash3_x86_32 :: "bytes \<Rightarrow> nat \<Rightarrow> u32 \<Rightarrow> u32" where
  "murmur_hash3_x86_32 key len seed =
     (let nblocks = len div 4;
          h1 = foldl (\<lambda>h1 i. body_x86_32 h1 (getblock32 key i)) seed [0..<nblocks];
          h1 = tail_x86_32 (drop (nblocks * 4) key) (len mod 4) h1
      in fmix32 (h1 XOR of_nat len))"

section \<open>\<^verbatim>\<open>murmur_hash3_x86_128\<close>\<close>

definition mix1_x86_128 :: "u32 \<Rightarrow> u32" where
  "mix1_x86_128 k1 = rotl32 (k1 * 0x239b961b) 15 * 0xab0e9789"
definition mix2_x86_128 :: "u32 \<Rightarrow> u32" where
  "mix2_x86_128 k2 = rotl32 (k2 * 0xab0e9789) 16 * 0x38b34ae5"
definition mix3_x86_128 :: "u32 \<Rightarrow> u32" where
  "mix3_x86_128 k3 = rotl32 (k3 * 0x38b34ae5) 17 * 0xa1e38b93"
definition mix4_x86_128 :: "u32 \<Rightarrow> u32" where
  "mix4_x86_128 k4 = rotl32 (k4 * 0xa1e38b93) 18 * 0x239b961b"

type_synonym x86_128_state = "u32 \<times> u32 \<times> u32 \<times> u32"

definition body_x86_128 :: "bytes \<Rightarrow> x86_128_state \<Rightarrow> nat \<Rightarrow> x86_128_state" where
  "body_x86_128 key s i =
     (case s of (h1, h2, h3, h4) \<Rightarrow>
       let h1 = h1 XOR mix1_x86_128 (getblock32 key (i * 4 + 0));
           h1 = (rotl32 h1 19 + h2) * 5 + 0x561ccd1b;
           h2 = h2 XOR mix2_x86_128 (getblock32 key (i * 4 + 1));
           h2 = (rotl32 h2 17 + h3) * 5 + 0x0bcaa747;
           h3 = h3 XOR mix3_x86_128 (getblock32 key (i * 4 + 2));
           h3 = (rotl32 h3 15 + h4) * 5 + 0x96cd1c35;
           h4 = h4 XOR mix4_x86_128 (getblock32 key (i * 4 + 3));
           h4 = (rotl32 h4 13 + h1) * 5 + 0x32ac3b17
       in (h1, h2, h3, h4))"

definition tail_x86_128 :: "bytes \<Rightarrow> nat \<Rightarrow> x86_128_state \<Rightarrow> x86_128_state" where
  "tail_x86_128 tail rem s =
     (case s of (h1, h2, h3, h4) \<Rightarrow>
       let k4 = tail_byte rem tail 12 0 (tail_byte rem tail 13 8 (tail_byte rem tail 14 16 0));
           h4 = (if 13 \<le> rem then h4 XOR mix4_x86_128 k4 else h4);
           k3 = tail_byte rem tail 8 0 (tail_byte rem tail 9 8
                  (tail_byte rem tail 10 16 (tail_byte rem tail 11 24 0)));
           h3 = (if 9 \<le> rem then h3 XOR mix3_x86_128 k3 else h3);
           k2 = tail_byte rem tail 4 0 (tail_byte rem tail 5 8
                  (tail_byte rem tail 6 16 (tail_byte rem tail 7 24 0)));
           h2 = (if 5 \<le> rem then h2 XOR mix2_x86_128 k2 else h2);
           k1 = tail_byte rem tail 0 0 (tail_byte rem tail 1 8
                  (tail_byte rem tail 2 16 (tail_byte rem tail 3 24 0)));
           h1 = (if 1 \<le> rem then h1 XOR mix1_x86_128 k1 else h1)
       in (h1, h2, h3, h4))"

definition murmur_hash3_x86_128 :: "bytes \<Rightarrow> nat \<Rightarrow> u32 \<Rightarrow> x86_128_state" where
  "murmur_hash3_x86_128 key len seed =
     (let nblocks = len div 16;
          s = foldl (body_x86_128 key) (seed, seed, seed, seed) [0..<nblocks];
          (h1, h2, h3, h4) = tail_x86_128 (drop (nblocks * 16) key) (len mod 16) s;
          h1 = h1 XOR of_nat len; h2 = h2 XOR of_nat len;
          h3 = h3 XOR of_nat len; h4 = h4 XOR of_nat len;
          h1 = h1 + h2; h1 = h1 + h3; h1 = h1 + h4;
          h2 = h2 + h1; h3 = h3 + h1; h4 = h4 + h1;
          h1 = fmix32 h1; h2 = fmix32 h2; h3 = fmix32 h3; h4 = fmix32 h4;
          h1 = h1 + h2; h1 = h1 + h3; h1 = h1 + h4;
          h2 = h2 + h1; h3 = h3 + h1; h4 = h4 + h1
      in (h1, h2, h3, h4))"

section \<open>\<^verbatim>\<open>murmur_hash3_x64_128\<close>\<close>

definition mix1_x64 :: "u64 \<Rightarrow> u64" where
  "mix1_x64 k1 = rotl64 (k1 * 0x87c37b91114253d5) 31 * 0x4cf5ad432745937f"

definition mix2_x64 :: "u64 \<Rightarrow> u64" where
  "mix2_x64 k2 = rotl64 (k2 * 0x4cf5ad432745937f) 33 * 0x87c37b91114253d5"

definition body_x64_128 :: "bytes \<Rightarrow> u64 \<times> u64 \<Rightarrow> nat \<Rightarrow> u64 \<times> u64" where
  "body_x64_128 key s i =
     (case s of (h1, h2) \<Rightarrow>
       let h1 = h1 XOR mix1_x64 (getblock64 key (i * 2 + 0));
           h1 = (rotl64 h1 27 + h2) * 5 + 0x52dce729;
           h2 = h2 XOR mix2_x64 (getblock64 key (i * 2 + 1));
           h2 = (rotl64 h2 31 + h1) * 5 + 0x38495ab5
       in (h1, h2))"

definition tail_x64_128 :: "bytes \<Rightarrow> nat \<Rightarrow> u64 \<times> u64 \<Rightarrow> u64 \<times> u64" where
  "tail_x64_128 tail rem s =
     (case s of (h1, h2) \<Rightarrow>
       let k2 = tail_byte rem tail 8 0 (tail_byte rem tail 9 8 (tail_byte rem tail 10 16
                 (tail_byte rem tail 11 24 (tail_byte rem tail 12 32
                   (tail_byte rem tail 13 40 (tail_byte rem tail 14 48 0))))));
           h2 = (if 9 \<le> rem then h2 XOR mix2_x64 k2 else h2);
           k1 = tail_byte rem tail 0 0 (tail_byte rem tail 1 8 (tail_byte rem tail 2 16
                 (tail_byte rem tail 3 24 (tail_byte rem tail 4 32
                   (tail_byte rem tail 5 40 (tail_byte rem tail 6 48
                     (tail_byte rem tail 7 56 0)))))));
           h1 = (if 1 \<le> rem then h1 XOR mix1_x64 k1 else h1)
       in (h1, h2))"

definition murmur_hash3_x64_128 :: "bytes \<Rightarrow> nat \<Rightarrow> u32 \<Rightarrow> u64 \<times> u64" where
  "murmur_hash3_x64_128 key len seed =
     (let nblocks = len div 16;
          s = foldl (body_x64_128 key) (ucast seed, ucast seed) [0..<nblocks];
          (h1, h2) = tail_x64_128 (drop (nblocks * 16) key) (len mod 16) s;
          h1 = h1 XOR of_nat len; h2 = h2 XOR of_nat len;
          h1 = h1 + h2; h2 = h2 + h1;
          h1 = fmix64 h1; h2 = fmix64 h2;
          h1 = h1 + h2; h2 = h2 + h1
      in (h1, h2))"

section \<open>\<^verbatim>\<open>murmur_hash3_x64_64\<close>, \<^verbatim>\<open>hash64\<close>, \<^verbatim>\<open>cachekey2id\<close>\<close>

definition body_x64_64 :: "u64 \<Rightarrow> u64 \<Rightarrow> u64" where
  "body_x64_64 h1 k1 = rotl64 (h1 XOR mix1_x64 k1) 27 * 5 + 0x52dce729"

definition tail_x64_64 :: "bytes \<Rightarrow> nat \<Rightarrow> u64 \<Rightarrow> u64" where
  "tail_x64_64 tail rem h1 =
     (let k1 = tail_byte rem tail 0 0 (tail_byte rem tail 1 8 (tail_byte rem tail 2 16
                 (tail_byte rem tail 3 24 (tail_byte rem tail 4 32
                   (tail_byte rem tail 5 40 (tail_byte rem tail 6 48 0))))))
      in if 1 \<le> rem then h1 XOR mix1_x64 k1 else h1)"

text \<open>
  The length is a signed 32-bit integer here. A negative one runs no block, and the tail starts before the key: those
  reads are undefined behaviour in the source, and the bytes before the key read as 0 here. \<^verbatim>\<open>h1 ^= len\<close> extends the sign.
\<close>

definition tail_from :: "bytes \<Rightarrow> int \<Rightarrow> nat \<Rightarrow> bytes" where
  "tail_from key p n = map (\<lambda>j. if 0 \<le> p + int j then key ! nat (p + int j) else 0) [0..<n]"

definition murmur_hash3_x64_64 :: "bytes \<Rightarrow> int \<Rightarrow> u64 \<Rightarrow> u64" where
  "murmur_hash3_x64_64 key len seed =
     (let nblocks = len sdiv 8;
          rem = nat (len mod 8);
          h1 = foldl (\<lambda>h1 i. body_x64_64 h1 (getblock64 key i)) seed [0..<nat nblocks];
          h1 = tail_x64_64 (tail_from key (nblocks * 8) rem) rem h1
      in fmix64 (h1 XOR of_int len))"

definition hash64 :: "bytes \<Rightarrow> int \<Rightarrow> u64 \<Rightarrow> u64" where
  "hash64 data n seed = murmur_hash3_x64_64 data n seed"

text \<open>\<^verbatim>\<open>key.size()\<close> is narrowed to the \<^verbatim>\<open>int32_t\<close> parameter of \<^verbatim>\<open>hash64\<close>.\<close>

definition cachekey2id :: "cache_key \<Rightarrow> cache_id" where
  "cachekey2id key = hash64 key (to_i32 (int (length key))) 0"

text \<open>A key shorter than 2 GiB is hashed with its own length.\<close>

lemma tail_from_drop: "p + n = length key \<Longrightarrow> tail_from key (int p) n = drop p key"
  by (rule nth_equalityI) (auto simp: tail_from_def nat_add_distrib)

lemma cachekey2id_short:
  assumes "length key < 2 ^ 31"
  shows "cachekey2id key =
    fmix64 (tail_x64_64 (drop (length key div 8 * 8) key) (length key mod 8)
      (foldl (\<lambda>h j. body_x64_64 h (getblock64 key j)) 0 [0..<length key div 8]) XOR of_nat (length key))"
proof -
  let ?n = "length key"
  have i: "to_i32 (int ?n) = int ?n" using assms by (intro to_i32_id) simp_all
  have q: "int ?n sdiv 8 = int (?n div 8)" using sdiv_nonneg [of "int ?n" 8] by (simp add: zdiv_int)
  have r: "nat (int ?n mod 8) = ?n mod 8" by (simp add: nat_mod_distrib)
  have "tail_from key (int (?n div 8) * 8) (?n mod 8) = drop (?n div 8 * 8) key"
    using tail_from_drop [of "?n div 8 * 8" "?n mod 8" key] by simp
  then show ?thesis by (simp add: cachekey2id_def hash64_def murmur_hash3_x64_64_def Let_def i q r)
qed

section \<open>Each step is a bijection\<close>

lemma mult_inj_word:
  fixes c d :: "'a::len word"
  assumes "c * d = 1"
  shows "x * c = y * c \<longleftrightarrow> x = y"
proof
  assume "x * c = y * c"
  then have "x * c * d = y * c * d" by simp
  then show "x = y" using assms by (simp add: mult.assoc)
qed simp

lemma rotate_index:
  assumes "0 < r" "r < (l::nat)" "n < l"
  shows "(n + (l - r mod l)) mod l = (if r \<le> n then n - r else l + n - r)"
proof (cases "r \<le> n")
  case True
  then have "n + (l - r mod l) = (n - r) + l" using assms by simp
  then have "(n + (l - r mod l)) mod l = n - r" using assms by (simp only: mod_add_self2) simp
  then show ?thesis using True by simp
next
  case False
  then show ?thesis using assms by simp
qed

lemma rotl64_rot: "0 < r \<Longrightarrow> r < 64 \<Longrightarrow> rotl64 x r = word_rotl r x"
  unfolding rotl64_def
  by (rule bit_word_eqI)
     (use rotate_index [of r 64] in \<open>auto simp: bit_word_rotl_iff bit_or_iff bit_push_bit_iff
        bit_drop_bit_eq dest: bit_imp_le_length\<close>)

lemma rotl32_rot: "0 < r \<Longrightarrow> r < 32 \<Longrightarrow> rotl32 x r = word_rotl r x"
  unfolding rotl32_def
  by (rule bit_word_eqI)
     (use rotate_index [of r 32] in \<open>auto simp: bit_word_rotl_iff bit_or_iff bit_push_bit_iff
        bit_drop_bit_eq dest: bit_imp_le_length\<close>)

lemma word_rotl_inj: "word_rotl r x = word_rotl r y \<longleftrightarrow> x = y"
  by (metis word_rot_lr)

lemma rotl64_inj: "0 < r \<Longrightarrow> r < 64 \<Longrightarrow> rotl64 x r = rotl64 y r \<longleftrightarrow> x = y"
  by (simp add: rotl64_rot word_rotl_inj)

lemma rotl32_inj: "0 < r \<Longrightarrow> r < 32 \<Longrightarrow> rotl32 x r = rotl32 y r \<longleftrightarrow> x = y"
  by (simp add: rotl32_rot word_rotl_inj)

lemma drop_bit_fixed_zero:
  fixes w :: "'a::len word"
  assumes "drop_bit n w = w" and "0 < n"
  shows "w = 0"
proof -
  have "unat w div 2 ^ n = unat w" using assms(1) by (metis unat_drop_bit_eq drop_bit_eq_div)
  moreover have "(2::nat) \<le> 2 ^ n" using assms(2) by (cases n) simp_all
  ultimately have "unat w = 0"
    by (metis div_less_dividend less_le_trans one_less_numeral_iff semiring_norm(76) neq0_conv
        nat_less_le)
  then show ?thesis by (simp add: unat_eq_zero)
qed

lemma xorshift_inj:
  fixes x y :: "'a::len word"
  assumes "0 < n"
  shows "x XOR drop_bit n x = y XOR drop_bit n y \<longleftrightarrow> x = y"
proof
  assume eq: "x XOR drop_bit n x = y XOR drop_bit n y"
  have "drop_bit n (x XOR y) = x XOR y"
  proof (rule bit_word_eqI)
    fix m
    from eq have "bit (x XOR drop_bit n x) m = bit (y XOR drop_bit n y) m" by simp
    then show "bit (drop_bit n (x XOR y)) m = bit (x XOR y) m"
      by (auto simp: bit_xor_iff bit_drop_bit_eq)
  qed
  then have "x XOR y = 0" using assms by (rule drop_bit_fixed_zero)
  then show "x = y" by (metis bit.xor_self xor.assoc xor.left_neutral xor.right_neutral)
qed simp

lemma xor_left_inj: "(h :: 'a::len word) XOR x = h XOR y \<longleftrightarrow> x = y"
  by (metis bit.xor_self xor.assoc xor.left_neutral)

lemma xor_right_inj: "(x :: 'a::len word) XOR h = y XOR h \<longleftrightarrow> x = y"
  by (metis xor_left_inj xor.commute)

lemmas bijections = rotl64_inj rotl32_inj xorshift_inj xor_left_inj xor_right_inj

lemmas odd_factors =
  mult_inj_word [where c = "0x87c37b91114253d5 :: u64" and d = "0xa98409e882ce4d7d"]
  mult_inj_word [where c = "0x4cf5ad432745937f :: u64" and d = "0xa81e14edd9de2c7f"]
  mult_inj_word [where c = "0xff51afd7ed558ccd :: u64" and d = "0x4f74430c22a54005"]
  mult_inj_word [where c = "0xc4ceb9fe1a85ec53 :: u64" and d = "0x9cb4b2f8129337db"]
  mult_inj_word [where c = "5 :: u64" and d = "0xcccccccccccccccd"]
  mult_inj_word [where c = "0xcc9e2d51 :: u32" and d = "0xdee13bb1"]
  mult_inj_word [where c = "0x1b873593 :: u32" and d = "0x56ed309b"]
  mult_inj_word [where c = "0x85ebca6b :: u32" and d = "0xa5cb9243"]
  mult_inj_word [where c = "0xc2b2ae35 :: u32" and d = "0x7ed1b41d"]
  mult_inj_word [where c = "5 :: u32" and d = "0xcccccccd"]

lemma fmix64_inj: "fmix64 x = fmix64 y \<longleftrightarrow> x = y"
  by (simp add: fmix64_def Let_def bijections odd_factors)

lemma fmix32_inj: "fmix32 x = fmix32 y \<longleftrightarrow> x = y"
  by (simp add: fmix32_def Let_def bijections odd_factors)

lemma mix1_x64_inj: "mix1_x64 x = mix1_x64 y \<longleftrightarrow> x = y"
  by (simp add: mix1_x64_def bijections odd_factors)

lemma mix_x86_32_inj: "mix_x86_32 x = mix_x86_32 y \<longleftrightarrow> x = y"
  by (simp add: mix_x86_32_def bijections odd_factors)

section \<open>Words determine their bytes\<close>

lemma bit_le_word:
  "bit (le_word bs :: 'a::len word) n \<longleftrightarrow>
     n < LENGTH('a) \<and> n div 8 < length bs \<and> bit (bs ! (n div 8)) (n mod 8)"
proof (induction bs arbitrary: n)
  case Nil
  then show ?case by simp
next
  case (Cons b bs)
  show ?case
  proof (cases "n < 8")
    case True
    then show ?thesis by (auto simp: bit_or_iff bit_push_bit_iff bit_ucast_iff)
  next
    case False
    then obtain m where n: "n = m + 8" by (metis add.commute le_Suc_ex not_less)
    have "\<not> bit b (m + 8)" using bit_imp_le_length [of b "m + 8"] by auto
    then show ?thesis using Cons.IH [of m]
      by (auto simp: n bit_or_iff bit_push_bit_iff bit_ucast_iff)
  qed
qed

lemma le_word_inj:
  assumes "length as = length bs" and "8 * length as \<le> LENGTH('a)"
  shows "(le_word as :: 'a::len word) = le_word bs \<longleftrightarrow> as = bs"
proof
  assume eq: "(le_word as :: 'a word) = le_word bs"
  show "as = bs"
  proof (rule nth_equalityI [OF assms(1)])
    fix i assume i: "i < length as"
    show "as ! i = bs ! i"
    proof (rule bit_word_eqI)
      fix j assume "j < LENGTH(8)"
      then have j: "j < 8" by simp
      from eq have "bit (le_word as :: 'a word) (8 * i + j) = bit (le_word bs :: 'a word) (8 * i + j)"
        by simp
      moreover have "8 * i + j < LENGTH('a)" using i j assms(2) by linarith
      ultimately show "bit (as ! i) j = bit (bs ! i) j"
        using i j assms(1) by (simp add: bit_le_word)
    qed
  qed
qed simp

lemma tail_byte_le:
  assumes "rem \<le> length tail"
  shows "tail_byte rem tail j (8 * j) (push_bit (8 * Suc j) (le_word (drop (Suc j) (take rem tail))))
    = (push_bit (8 * j) (le_word (drop j (take rem tail))) :: 'a::len word)"
proof (cases "j < rem")
  case True
  then have j: "j < length (take rem tail)" using assms by simp
  have dr: "drop j (take rem tail) = tail ! j # drop (Suc j) (take rem tail)"
    using Cons_nth_drop_Suc [OF j] True by simp
  let ?w = "le_word (drop (Suc j) (take rem tail)) :: 'a word"
  have lhs: "tail_byte rem tail j (8 * j) (push_bit (8 * Suc j) ?w)
      = push_bit (8 * j) (push_bit 8 ?w) XOR push_bit (8 * j) (ucast (tail ! j))"
    using True by (simp add: tail_byte_def push_bit_push_bit add.commute)
  have rhs: "le_word (drop j (take rem tail)) = ucast (tail ! j) OR push_bit 8 ?w"
    by (simp add: dr)
  have disj: "push_bit 8 ?w XOR ucast (tail ! j) = ucast (tail ! j) OR push_bit 8 ?w"
    by (rule bit_word_eqI)
       (auto simp: bit_xor_iff bit_or_iff bit_push_bit_iff bit_ucast_iff dest: bit_imp_le_length)
  show ?thesis
    by (simp only: lhs rhs disj [symmetric] push_bit_xor)
next
  case False
  then show ?thesis by (simp add: tail_byte_def)
qed

lemma getblock64_inj:
  assumes "length a = length b" and "8 * i + 8 \<le> length a"
  shows "getblock64 a i = getblock64 b i \<longleftrightarrow> take 8 (drop (8 * i) a) = take 8 (drop (8 * i) b)"
  unfolding getblock64_def using assms by (intro le_word_inj) simp_all

lemma getblock32_inj:
  assumes "length a = length b" and "4 * i + 4 \<le> length a"
  shows "getblock32 a i = getblock32 b i \<longleftrightarrow> take 4 (drop (4 * i) a) = take 4 (drop (4 * i) b)"
  unfolding getblock32_def using assms by (intro le_word_inj) simp_all

section \<open>Keys of one length that differ within one aligned block\<close>

text \<open>The \<open>i\<close>-th window of \<open>w\<close> bytes holds every difference between the two keys.\<close>

definition differ_in_window :: "nat \<Rightarrow> nat \<Rightarrow> bytes \<Rightarrow> bytes \<Rightarrow> bool" where
  "differ_in_window w i a b \<longleftrightarrow>
     length a = length b \<and> a \<noteq> b \<and> take (w * i) a = take (w * i) b \<and>
     drop (w * i + w) a = drop (w * i + w) b"

lemma window_outside:
  assumes "differ_in_window w i a b" and "j \<noteq> i"
  shows "take w (drop (w * j) a) = take w (drop (w * j) b)"
proof (cases "j < i")
  case True
  then have le: "w + w * j \<le> w * i" by (metis Suc_leI mult_Suc_right mult_le_mono2)
  have eq: "take w (drop (w * j) c) = drop (w * j) (take (w + w * j) (take (w * i) c))" for c :: bytes
    using le by (simp add: take_drop min_absorb1)
  show ?thesis using assms(1) eq [of a] eq [of b] by (simp only: differ_in_window_def)
next
  case False
  with assms(2) have "Suc i \<le> j" by simp
  then have le: "w * i + w \<le> w * j" by (metis add.commute mult_Suc_right mult_le_mono2)
  have eq: "drop (w * j) c = drop (w * j - (w * i + w)) (drop (w * i + w) c)" for c :: bytes
    using le by simp
  show ?thesis using assms(1) eq [of a] eq [of b] by (simp only: differ_in_window_def)
qed

lemma window_inside:
  assumes "differ_in_window w i a b"
  shows "take w (drop (w * i) a) \<noteq> take w (drop (w * i) b)"
proof
  assume "take w (drop (w * i) a) = take w (drop (w * i) b)"
  moreover have "c = take (w * i) c @ take w (drop (w * i) c) @ drop (w * i + w) c" for c :: bytes
    by (metis append_take_drop_id drop_drop add.commute)
  ultimately have "a = b" using assms unfolding differ_in_window_def by metis
  then show False using assms by (simp add: differ_in_window_def)
qed

section \<open>A block-wise hash separates keys that differ in one block\<close>

text \<open>
  The interface: a hash that reads a key in blocks of \<open>w\<close> bytes, absorbs each block, then
  absorbs the tail. What it promises: absorbing is injective in the block and in the state, a
  block is a function of its window and determines it, and so is the tail.
\<close>

locale block_hash =
  fixes w :: nat
    and block :: "bytes \<Rightarrow> nat \<Rightarrow> 'k"
    and absorb :: "'h \<Rightarrow> 'k \<Rightarrow> 'h"
    and absorb_tail :: "bytes \<Rightarrow> nat \<Rightarrow> 'h \<Rightarrow> 'h"
  assumes width: "0 < w"
    and inj_block: "absorb h k = absorb h k' \<longleftrightarrow> k = k'"
    and inj_state: "absorb h k = absorb h' k \<longleftrightarrow> h = h'"
    and block_window:
      "take w (drop (w * i) a) = take w (drop (w * i) b) \<Longrightarrow> block a i = block b i"
    and block_inj: "length a = length b \<Longrightarrow> w * i + w \<le> length a \<Longrightarrow> block a i = block b i \<Longrightarrow>
      take w (drop (w * i) a) = take w (drop (w * i) b)"
    and tail_state: "absorb_tail t n h = absorb_tail t n h' \<longleftrightarrow> h = h'"
    and tail_inj: "length t = n \<Longrightarrow> length t' = n \<Longrightarrow> n < w \<Longrightarrow>
      absorb_tail t n h = absorb_tail t' n h \<longleftrightarrow> t = t'"
begin

lemma foldl_inj_state: "foldl absorb h ks = foldl absorb h' ks \<longleftrightarrow> h = h'"
  by (induction ks arbitrary: h h') (simp_all add: inj_state)

lemma foldl_one_block:
  "foldl absorb h (xs @ k # ys) = foldl absorb h (xs @ k' # ys) \<longleftrightarrow> k = k'"
  by (simp add: foldl_inj_state inj_block)

text \<open>The two keys as functions from block numbers to blocks.\<close>

lemma foldl_indexed:
  assumes "i < n" and "\<And>j. j < n \<Longrightarrow> j \<noteq> i \<Longrightarrow> f j = g j"
  shows "foldl (\<lambda>h j. absorb h (f j)) h [0..<n] = foldl (\<lambda>h j. absorb h (g j)) h [0..<n]
    \<longleftrightarrow> f i = g i"
proof -
  have split: "[0..<n] = [0..<i] @ i # [Suc i..<n]"
    using assms(1) upt_add_eq_append [of 0 i "n - i"] upt_conv_Cons [of i n] by simp
  have before: "map f [0..<i] = map g [0..<i]" and after: "map f [Suc i..<n] = map g [Suc i..<n]"
    using assms by auto
  have unfold: "foldl (\<lambda>h j. absorb h (u j)) h [0..<n]
      = foldl absorb h (map u [0..<i] @ u i # map u [Suc i..<n])" for u
    unfolding split foldl_map [symmetric] by (simp only: map_append list.map)
  show ?thesis by (simp only: unfold before after foldl_one_block)
qed

lemma separates_window:
  assumes win: "differ_in_window w i a b" and n: "n = length a"
  shows "absorb_tail (drop (n div w * w) a) (n mod w)
           (foldl (\<lambda>h j. absorb h (block a j)) seed [0..<n div w]) \<noteq>
         absorb_tail (drop (n div w * w) b) (n mod w)
           (foldl (\<lambda>h j. absorb h (block b j)) seed [0..<n div w])"
proof (cases "i < n div w")
  case True
  let ?nb = "n div w"
  have len: "length a = length b" using win by (simp add: differ_in_window_def)
  have "(i + 1) * w \<le> ?nb * w" using True by (intro mult_le_mono1) simp
  then have iw: "w * i + w \<le> ?nb * w" by (simp add: algebra_simps)
  have "drop (?nb * w) c = drop (?nb * w - (w * i + w)) (drop (w * i + w) c)" for c :: bytes
    using iw by simp
  then have tails: "drop (?nb * w) a = drop (?nb * w) b" using win by (metis differ_in_window_def)
  have "?nb * w \<le> n" by simp
  with iw n have "block a i \<noteq> block b i"
    using window_inside [OF win] block_inj [OF len, of i] by linarith
  moreover have "block a j = block b j" if "j \<noteq> i" for j
    by (rule block_window, rule window_outside [OF win that])
  ultimately have "foldl (\<lambda>h j. absorb h (block a j)) seed [0..<?nb]
      \<noteq> foldl (\<lambda>h j. absorb h (block b j)) seed [0..<?nb]"
    using foldl_indexed [OF True, of "block a" "block b"] by blast
  then show ?thesis by (simp add: tails tail_state)
next
  case False
  let ?nb = "n div w"
  have len: "length b = n" using win n by (simp add: differ_in_window_def)
  have body: "foldl (\<lambda>h j. absorb h (block a j)) seed [0..<?nb]
      = foldl (\<lambda>h j. absorb h (block b j)) seed [0..<?nb]"
    using False by (intro foldl_cong) (auto intro!: arg_cong [where f = "absorb _"]
        block_window window_outside [OF win])
  have "w * i < n"
  proof (rule ccontr)
    assume "\<not> w * i < n"
    then have "take (w * i) a = a" "take (w * i) b = b" using len n by simp_all
    then show False using win by (simp add: differ_in_window_def)
  qed
  then have "i \<le> ?nb" using width by (simp add: less_eq_div_iff_mult_less_eq mult.commute)
  then have i: "i = ?nb" using False by simp
  have mw: "n mod w < w" using width by simp
  have lens: "length (drop (?nb * w) a) = n mod w" "length (drop (?nb * w) b) = n mod w"
    using len n by (simp_all add: minus_div_mult_eq_mod)
  have "drop (?nb * w) a \<noteq> drop (?nb * w) b"
    using window_inside [OF win] i by (metis mult.commute)
  then show ?thesis using tail_inj [OF lens mw] body by simp
qed

end

lemma tail_x64_64_eq:
  assumes "rem < 8" and "length tail = rem"
  shows "tail_x64_64 tail rem h = (if tail = [] then h else h XOR mix1_x64 (le_word tail))"
proof -
  note step = tail_byte_le [of rem tail, where 'a = 64]
  have nil: "drop 7 (take rem tail) = []" using assms(1) by simp
  have "tail_byte rem tail 0 0 (tail_byte rem tail 1 8 (tail_byte rem tail 2 16
                 (tail_byte rem tail 3 24 (tail_byte rem tail 4 32
                   (tail_byte rem tail 5 40 (tail_byte rem tail 6 48 (0 :: u64)))))))
      = le_word (take rem tail)"
    using step [of 6] step [of 5] step [of 4] step [of 3] step [of 2] step [of 1] step [of 0]
      assms(2) nil by (simp add: numeral_eq_Suc)
  then show ?thesis using assms(2) by (cases tail) (auto simp: tail_x64_64_def)
qed

lemma tail_x64_64_state:
  "tail_x64_64 tail rem h = tail_x64_64 tail rem h' \<longleftrightarrow> h = h'"
  by (simp add: tail_x64_64_def Let_def xor_right_inj)

lemma tail_x86_32_eq:
  assumes "rem < 4" and "length tail = rem"
  shows "tail_x86_32 tail rem h = (if tail = [] then h else h XOR mix_x86_32 (le_word tail))"
proof -
  note step = tail_byte_le [of rem tail, where 'a = 32]
  have nil: "drop 3 (take rem tail) = []" using assms(1) by simp
  have "tail_byte rem tail 0 0 (tail_byte rem tail 1 8 (tail_byte rem tail 2 16 (0 :: u32)))
      = le_word (take rem tail)"
    using step [of 2] step [of 1] step [of 0] assms(2) nil by (simp add: numeral_eq_Suc)
  then show ?thesis using assms(2) by (cases tail) (auto simp: tail_x86_32_def)
qed

lemma tail_x86_32_state:
  "tail_x86_32 tail rem h = tail_x86_32 tail rem h' \<longleftrightarrow> h = h'"
  by (simp add: tail_x86_32_def Let_def xor_right_inj)

lemma tail_x64_64_inj:
  assumes "length t = n" and "length t' = n" and "n < 8"
  shows "tail_x64_64 t n h = tail_x64_64 t' n h \<longleftrightarrow> t = t'"
  using assms le_word_inj [of t t', where 'a = 64]
  by (auto simp: tail_x64_64_eq xor_left_inj mix1_x64_inj)

lemma tail_x86_32_inj:
  assumes "length t = n" and "length t' = n" and "n < 4"
  shows "tail_x86_32 t n h = tail_x86_32 t' n h \<longleftrightarrow> t = t'"
  using assms le_word_inj [of t t', where 'a = 32]
  by (auto simp: tail_x86_32_eq xor_left_inj mix_x86_32_inj)

section \<open>The two variants built from one lane\<close>

interpretation x64: block_hash 8 getblock64 body_x64_64 tail_x64_64
proof unfold_locales
  show "(0::nat) < 8" by simp
  show "body_x64_64 h k = body_x64_64 h k' \<longleftrightarrow> k = k'"
    and "body_x64_64 h k = body_x64_64 h' k \<longleftrightarrow> h = h'" for h h' k k'
    by (simp_all add: body_x64_64_def bijections odd_factors mix1_x64_inj)
  show "tail_x64_64 t n h = tail_x64_64 t n h' \<longleftrightarrow> h = h'" for t n h h'
    by (rule tail_x64_64_state)
qed (simp_all add: getblock64_def [symmetric] getblock64_inj tail_x64_64_inj, simp add: getblock64_def)

interpretation x86: block_hash 4 getblock32 body_x86_32 tail_x86_32
proof unfold_locales
  show "(0::nat) < 4" by simp
  show "body_x86_32 h k = body_x86_32 h k' \<longleftrightarrow> k = k'"
    and "body_x86_32 h k = body_x86_32 h' k \<longleftrightarrow> h = h'" for h h' k k'
    by (simp_all add: body_x86_32_def bijections odd_factors mix_x86_32_inj)
  show "tail_x86_32 t n h = tail_x86_32 t n h' \<longleftrightarrow> h = h'" for t n h h'
    by (rule tail_x86_32_state)
qed (simp_all add: getblock32_inj tail_x86_32_inj, simp add: getblock32_def)

section \<open>Properties\<close>

text \<open>The reference vectors of the published algorithm.\<close>

lemma murmur_reference_vectors:
  "murmur_hash3_x86_32 [104, 101, 108, 108, 111] 5 0 = 0x248bfa47"
  "murmur_hash3_x64_128 [104, 101, 108, 108, 111] 5 0 = (0xcbd8a7b341bd9b02, 0x5b1e906a48ae1d19)"
  by code_simp+

text \<open>C37: keys of one length below 2 GiB whose differences lie in one aligned 8-byte window (a counter in a key,
  a key of at most eight bytes) never get the same cache id, whatever the rest of the key is.\<close>

theorem cachekey2id_separates_window:
  assumes "differ_in_window 8 i a b" and "length a < 2 ^ 31"
  shows "cachekey2id a \<noteq> cachekey2id b"
proof -
  have b: "length b = length a" using assms(1) by (simp add: differ_in_window_def)
  with assms(2) have "length b < 2 ^ 31" by simp
  then show ?thesis
    using x64.separates_window [OF assms(1) refl, of 0]
    by (simp add: cachekey2id_short [OF assms(2)] cachekey2id_short [of b] b fmix64_inj xor_right_inj)
qed

theorem cachekey2id_separates_window_witness:
  "differ_in_window 8 0 [1, 2, 3] [1, 2, 4] \<and> cachekey2id [1, 2, 3] \<noteq> cachekey2id [1, 2, 4]"
proof -
  have h: "differ_in_window 8 0 [1, 2, 3] [1, 2, 4]" by (simp add: differ_in_window_def)
  show ?thesis using h cachekey2id_separates_window [OF h] by simp
qed

text \<open>
  From 2 GiB on the length passed is another number: keys of \<open>2 ^ 32\<close> bytes and more are hashed by a prefix.
\<close>

lemma cachekey2id_4GiB:
  assumes "length key = 2 ^ 32"
  shows "cachekey2id key = fmix64 0"
  by (simp add: cachekey2id_def assms to_i32_def hash64_def murmur_hash3_x64_64_def tail_x64_64_def)

text \<open>The 32-bit variant separates keys that differ in one aligned 4-byte window, for any seed.\<close>

lemma murmur_x86_32_separates_window:
  assumes "differ_in_window 4 i a b"
  shows "murmur_hash3_x86_32 a (length a) seed \<noteq> murmur_hash3_x86_32 b (length b) seed"
proof -
  have "length b = length a" using assms by (simp add: differ_in_window_def)
  then show ?thesis
    using x86.separates_window [OF assms refl, of seed]
    by (simp add: murmur_hash3_x86_32_def Let_def fmix32_inj xor_right_inj)
qed

end
