(* ===== verification/LruKey.thy ===== *)
theory LruKey
  imports MurmurHash
begin

text \<open>
  \<^verbatim>\<open>LRUKey\<close> of \<^verbatim>\<open>src/utils/lru_container.h\<close> and its hash of \<^verbatim>\<open>lru_container.cpp\<close>: a slice of bytes.
  The pointer and the size of the source are the byte list; an access or a removed prefix past the
  end, which the source guards with \<^verbatim>\<open>assert\<close>, is \<open>None\<close>.
\<close>

unbundle bit_operations_syntax

type_synonym lru_key = bytes

definition key_empty :: "lru_key \<Rightarrow> bool" where
  "key_empty k \<longleftrightarrow> length k = 0"

definition key_at :: "lru_key \<Rightarrow> nat \<Rightarrow> byte option" where
  "key_at k n = nth_opt k n"

definition key_clear :: "lru_key \<Rightarrow> lru_key" where
  "key_clear k = []"

definition key_remove_prefix :: "lru_key \<Rightarrow> nat \<Rightarrow> lru_key option" where
  "key_remove_prefix k n = (if n \<le> length k then Some (drop n k) else None)"

text \<open>\<^verbatim>\<open>memcmp\<close> on the first \<open>n\<close> bytes: the sign of the first difference, as unsigned bytes.\<close>

fun memcmp :: "bytes \<Rightarrow> bytes \<Rightarrow> nat \<Rightarrow> int" where
  "memcmp (a # as) (b # bs) (Suc n) =
     (if a < b then - 1 else if b < a then 1 else memcmp as bs n)"
| "memcmp _ _ _ = 0"

definition key_eq :: "lru_key \<Rightarrow> lru_key \<Rightarrow> bool" where
  "key_eq k other \<longleftrightarrow> length k = length other \<and> memcmp k other (length k) = 0"

definition key_compare :: "lru_key \<Rightarrow> lru_key \<Rightarrow> int" where
  "key_compare k b =
     (let min_len = (if length k < length b then length k else length b);
          r = memcmp k b min_len
      in if r = 0 then
           (if length k < length b then - 1 else if length b < length k then 1 else r)
         else r)"

definition key_starts_with :: "lru_key \<Rightarrow> lru_key \<Rightarrow> bool" where
  "key_starts_with k x \<longleftrightarrow> length x \<le> length k \<and> memcmp k x (length x) = 0"

definition decode_fixed32 :: "bytes \<Rightarrow> u32" where
  "decode_fixed32 p = le_word (take 4 p)"

section \<open>The hash\<close>

text \<open>Four bytes at a time, then the up to three remaining bytes (the cases fall through).\<close>

fun key_hash_body :: "bytes \<Rightarrow> u32 \<Rightarrow> u32" where
  "key_hash_body data h =
     (if 4 \<le> length data then
        let w = decode_fixed32 data;
            h = h + w;
            h = h * 0xc6a4a793;
            h = h XOR drop_bit 16 h
        in key_hash_body (drop 4 data) h
      else
        let h = (if 3 \<le> length data then h + push_bit 16 (ucast (data ! 2)) else h);
            h = (if 2 \<le> length data then h + push_bit 8 (ucast (data ! 1)) else h)
        in if 1 \<le> length data then
             let h = h + ucast (data ! 0);
                 h = h * 0xc6a4a793
             in h XOR drop_bit 24 h
           else h)"

declare key_hash_body.simps [simp del]

definition key_hash :: "lru_key \<Rightarrow> u32 \<Rightarrow> u32" where
  "key_hash k seed = key_hash_body k (seed XOR (of_nat (length k) * 0xc6a4a793))"

section \<open>Comparison\<close>

lemma memcmp_same_length:
  "length a = length b \<Longrightarrow> memcmp a b (length a) = 0 \<longleftrightarrow> a = b"
  by (induction a b rule: list_induct2) auto

lemma key_eq_iff [simp]: "key_eq a b \<longleftrightarrow> a = b"
  unfolding key_eq_def using memcmp_same_length by auto

lemma memcmp_prefix: "length x \<le> length k \<Longrightarrow> memcmp k x (length x) = 0 \<longleftrightarrow> take (length x) k = x"
proof (induction x arbitrary: k)
  case Nil
  then show ?case by (cases k) simp_all
next
  case (Cons b x)
  then obtain a k' where k: "k = a # k'" by (cases k) auto
  with Cons show ?case by auto
qed

lemma key_starts_with_iff: "key_starts_with k x \<longleftrightarrow> (\<exists>r. k = x @ r)"
proof
  assume "key_starts_with k x"
  then have "take (length x) k = x" using memcmp_prefix [of x k] by (simp add: key_starts_with_def)
  then have "k = x @ drop (length x) k" by (metis append_take_drop_id)
  then show "\<exists>r. k = x @ r" by blast
next
  assume "\<exists>r. k = x @ r"
  then show "key_starts_with k x" by (auto simp: key_starts_with_def memcmp_prefix)
qed

text \<open>\<^verbatim>\<open>compare\<close> is the lexicographic order on unsigned bytes, shorter prefixes first.\<close>

fun lex_cmp :: "bytes \<Rightarrow> bytes \<Rightarrow> int" where
  "lex_cmp [] [] = 0"
| "lex_cmp [] (_ # _) = - 1"
| "lex_cmp (_ # _) [] = 1"
| "lex_cmp (a # as) (b # bs) = (if a < b then - 1 else if b < a then 1 else lex_cmp as bs)"

lemma key_compare_Nil [simp]:
  "key_compare [] [] = 0" "key_compare [] (b # bs) = - 1" "key_compare (a # as) [] = 1"
  by (simp_all add: key_compare_def)

lemma key_compare_Cons [simp]:
  "key_compare (a # as) (b # bs) = (if a < b then - 1 else if b < a then 1 else key_compare as bs)"
  by (simp add: key_compare_def Let_def)

lemma key_compare_lex: "key_compare a b = lex_cmp a b"
  by (induction a b rule: lex_cmp.induct) simp_all

lemma lex_cmp_eq_0: "lex_cmp a b = 0 \<longleftrightarrow> a = b"
  by (induction a b rule: lex_cmp.induct) auto

lemma lex_cmp_antisym: "lex_cmp b a = - lex_cmp a b"
  by (induction a b rule: lex_cmp.induct) auto

lemma lex_cmp_trans: "lex_cmp a b = - 1 \<Longrightarrow> lex_cmp b c = - 1 \<Longrightarrow> lex_cmp a c = - 1"
proof (induction a b arbitrary: c rule: lex_cmp.induct)
  case (2 y ys)
  then show ?case by (cases c) auto
next
  case (4 x xs y ys)
  then obtain z zs where "c = z # zs" by (cases c) auto
  with 4 show ?case by (auto split: if_splits)
qed simp_all

text \<open>The byte-wise equality, prefix test and three-way comparison of keys agree with the list
  notions, and the comparison is a total order.\<close>

lemma lru_key_order:
  "(key_compare a b = 0 \<longleftrightarrow> key_eq a b) \<and> key_compare b a = - key_compare a b \<and>
   (key_compare a b = - 1 \<longrightarrow> key_compare b c = - 1 \<longrightarrow> key_compare a c = - 1) \<and>
   (key_starts_with a b \<longleftrightarrow> (\<exists>r. a = b @ r))"
  by (metis key_compare_lex lex_cmp_eq_0 lex_cmp_antisym lex_cmp_trans key_eq_iff key_starts_with_iff)

end
