(* ===== verification/HandleTable.thy ===== *)
theory HandleTable
  imports LruKey
begin

text \<open>
  \<^verbatim>\<open>LRUHandle\<close> and \<^verbatim>\<open>HandleTable\<close> of \<^verbatim>\<open>src/utils/lru_container.{h,cpp}\<close>, at the level of pointers:
  a heap maps addresses to handles, a bucket array holds the heads of chains linked by
  \<^verbatim>\<open>next_hash\<close>, and \<^verbatim>\<open>_find_pointer\<close> returns the slot (a bucket or a \<^verbatim>\<open>next_hash\<close> field) through
  which the caller then writes. Results are in the option monad: \<open>None\<close> is a null or dangling
  dereference, an index out of range, or a walk that never ends.

  The second half relates the table to lists of addresses (\<open>table_inv\<close>) and shows that every
  operation is defined and does on the chains what it should.
\<close>

unbundle bit_operations_syntax

section \<open>Handles and the heap\<close>

type_synonym addr = nat

text \<open>
  \<^verbatim>\<open>value\<close> is null or points to an \<^verbatim>\<open>LRUKey\<close> (the only reading of it, in \<^verbatim>\<open>key()\<close>); \<^verbatim>\<open>key_length\<close>
  is the length of \<^verbatim>\<open>key_data\<close>.
\<close>

record lru_handle =
  h_value :: "lru_key option"
  h_next_hash :: "addr option"
  h_next :: "addr option"
  h_prev :: "addr option"
  h_charge :: u64
  h_key_data :: bytes
  h_valid :: bool
  h_refs :: u32
  h_hash :: u32

type_synonym heap = "addr \<rightharpoonup> lru_handle"

text \<open>\<^verbatim>\<open>LRUHandle::key\<close>: a handle whose \<^verbatim>\<open>next\<close> is itself keeps a key in \<^verbatim>\<open>value\<close>.\<close>

definition handle_key :: "heap \<Rightarrow> addr \<Rightarrow> lru_key option" where
  "handle_key hp a =
     do { h \<leftarrow> hp a;
          (if h_next h = Some a then h_value h else Some (h_key_data h)) }"

definition upd :: "addr \<Rightarrow> (lru_handle \<Rightarrow> lru_handle) \<Rightarrow> heap \<Rightarrow> heap option" where
  "upd a f hp = do { h \<leftarrow> hp a; Some (hp(a \<mapsto> f h)) }"

section \<open>The table\<close>

record handle_table =
  t_length :: u32
  t_elems :: u32
  t_list :: "addr option list"

datatype slot = Bucket nat | NextHash addr

fun slot_get :: "heap \<Rightarrow> handle_table \<Rightarrow> slot \<Rightarrow> addr option option" where
  "slot_get hp t (Bucket i) = nth_opt (t_list t) i"
| "slot_get hp t (NextHash a) = map_option h_next_hash (hp a)"

fun slot_set :: "heap \<Rightarrow> handle_table \<Rightarrow> slot \<Rightarrow> addr option \<Rightarrow> (heap \<times> handle_table) option" where
  "slot_set hp t (Bucket i) p =
     (if i < length (t_list t) then Some (hp, t\<lparr>t_list := (t_list t)[i := p]\<rparr>) else None)"
| "slot_set hp t (NextHash a) p = do { hp' \<leftarrow> upd a (h_next_hash_update (\<lambda>_. p)) hp; Some (hp', t) }"

partial_function (option) find_from ::
    "heap \<Rightarrow> handle_table \<Rightarrow> lru_key \<Rightarrow> u32 \<Rightarrow> slot \<Rightarrow> slot option" where
  "find_from hp t key hash s =
     do { p \<leftarrow> slot_get hp t s;
          (case p of
             None \<Rightarrow> Some s
           | Some a \<Rightarrow>
               do { h \<leftarrow> hp a;
                    (if h_hash h \<noteq> hash then find_from hp t key hash (NextHash a)
                     else do { k \<leftarrow> handle_key hp a;
                               (if \<not> key_eq key k then find_from hp t key hash (NextHash a)
                                else Some s) }) }) }"

definition bucket_of :: "u32 \<Rightarrow> u32 \<Rightarrow> nat" where
  "bucket_of hash len = unat (hash AND (len - 1))"

definition find_pointer :: "heap \<Rightarrow> handle_table \<Rightarrow> lru_key \<Rightarrow> u32 \<Rightarrow> slot option" where
  "find_pointer hp t key hash = find_from hp t key hash (Bucket (bucket_of hash (t_length t)))"

definition table_lookup :: "heap \<Rightarrow> handle_table \<Rightarrow> lru_key \<Rightarrow> u32 \<Rightarrow> addr option option" where
  "table_lookup hp t key hash = do { s \<leftarrow> find_pointer hp t key hash; slot_get hp t s }"

definition table_remove ::
    "heap \<Rightarrow> handle_table \<Rightarrow> lru_key \<Rightarrow> u32 \<Rightarrow> (addr option \<times> heap \<times> handle_table) option" where
  "table_remove hp t key hash =
     do { s \<leftarrow> find_pointer hp t key hash;
          result \<leftarrow> slot_get hp t s;
          (case result of
             None \<Rightarrow> Some (None, hp, t)
           | Some a \<Rightarrow>
               do { h \<leftarrow> hp a;
                    (hp', t') \<leftarrow> slot_set hp t s (h_next_hash h);
                    Some (Some a, hp', t'\<lparr>t_elems := t_elems t' - 1\<rparr>) }) }"

section \<open>Resizing\<close>

text \<open>\<^verbatim>\<open>while (new_length < _elems) new_length *= 2\<close>, in 32 bits.\<close>

partial_function (option) grow :: "u32 \<Rightarrow> u32 \<Rightarrow> u32 option" where
  "grow elems new_length =
     (if new_length < elems then grow elems (new_length * 2) else Some new_length)"

text \<open>The inner loop: every handle of one chain moves to the front of its new bucket.\<close>

partial_function (option) rehash_chain ::
    "u32 \<Rightarrow> heap \<Rightarrow> addr option list \<Rightarrow> u32 \<Rightarrow> addr option \<Rightarrow> (heap \<times> addr option list \<times> u32) option" where
  "rehash_chain new_length hp new_list count p =
     (case p of
        None \<Rightarrow> Some (hp, new_list, count)
      | Some a \<Rightarrow>
          do { h \<leftarrow> hp a;
               let i = bucket_of (h_hash h) new_length;
               q \<leftarrow> nth_opt new_list i;
               rehash_chain new_length (hp(a \<mapsto> h\<lparr>h_next_hash := q\<rparr>)) (new_list[i := Some a])
                 (count + 1) (h_next_hash h) })"

fun rehash_all ::
    "u32 \<Rightarrow> addr option list \<Rightarrow> heap \<times> addr option list \<times> u32 \<Rightarrow> (heap \<times> addr option list \<times> u32) option" where
  "rehash_all new_length [] s = Some s"
| "rehash_all new_length (p # ps) (hp, new_list, count) =
     do { s \<leftarrow> rehash_chain new_length hp new_list count p; rehash_all new_length ps s }"

text \<open>
  \<open>alloc\<close> tells whether \<^verbatim>\<open>new (std::nothrow)\<close> succeeds. When the counts differ the source gives the
  new array back and reports a failure, the chains already being relinked.
\<close>

definition resize :: "bool \<Rightarrow> heap \<Rightarrow> handle_table \<Rightarrow> (bool \<times> heap \<times> handle_table) option" where
  "resize alloc hp t =
     do { new_length \<leftarrow> grow (t_elems t) 4;
          (if \<not> alloc then Some (False, hp, t)
           else
             do { (hp', new_list, count) \<leftarrow>
                    rehash_all new_length (take (unat (t_length t)) (t_list t))
                      (hp, replicate (unat new_length) None, 0);
                  (if t_elems t \<noteq> count then Some (False, hp', t)
                   else Some (True, hp', t\<lparr>t_list := new_list, t_length := new_length\<rparr>)) }) }"

definition table_insert ::
    "bool \<Rightarrow> heap \<Rightarrow> handle_table \<Rightarrow> addr \<Rightarrow> (addr option \<times> heap \<times> handle_table) option" where
  "table_insert alloc hp t a =
     do { h \<leftarrow> hp a;
          k \<leftarrow> handle_key hp a;
          s \<leftarrow> find_pointer hp t k (h_hash h);
          old \<leftarrow> slot_get hp t s;
          nh \<leftarrow> (case old of None \<Rightarrow> Some None | Some b \<Rightarrow> map_option h_next_hash (hp b));
          hp1 \<leftarrow> upd a (h_next_hash_update (\<lambda>_. nh)) hp;
          (hp2, t2) \<leftarrow> slot_set hp1 t s (Some a);
          (if old = None then
             (let t3 = t2\<lparr>t_elems := t_elems t2 + 1\<rparr> in
              if t_length t3 < t_elems t3 then
                do { (grown, hp4, t4) \<leftarrow> resize alloc hp2 t3;
                     (if \<not> grown then Some (None, hp4, t4) else Some (old, hp4, t4)) }
              else Some (old, hp2, t3))
           else Some (old, hp2, t2)) }"

text \<open>The constructor: an empty table that \<^verbatim>\<open>_resize\<close> gives its first four buckets.\<close>

definition table_new :: "bool \<Rightarrow> heap \<Rightarrow> (bool \<times> heap \<times> handle_table) option" where
  "table_new alloc hp = resize alloc hp \<lparr>t_length = 0, t_elems = 0, t_list = []\<rparr>"

section \<open>Chains on the heap\<close>

text \<open>The field a chain follows, as a map of its own; and the heap with that field erased.\<close>

definition nh :: "heap \<Rightarrow> addr \<Rightarrow> addr option option" where
  "nh hp a = map_option h_next_hash (hp a)"

definition frame :: "heap \<Rightarrow> addr \<Rightarrow> lru_handle option" where
  "frame hp a = map_option (h_next_hash_update (\<lambda>_. None)) (hp a)"

fun chain :: "(addr \<Rightarrow> addr option option) \<Rightarrow> addr option \<Rightarrow> addr list \<Rightarrow> bool" where
  "chain f p [] = (p = None)"
| "chain f p (a # as) = (p = Some a \<and> (case f a of None \<Rightarrow> False | Some q \<Rightarrow> chain f q as))"

lemma chain_cong: "(\<And>a. a \<in> set as \<Longrightarrow> f a = g a) \<Longrightarrow> chain f p as = chain g p as"
  by (induction as arbitrary: p) (auto split: option.splits)

lemma chain_upd_notin [simp]: "b \<notin> set as \<Longrightarrow> chain (f(b := q)) p as = chain f p as"
  by (rule chain_cong) auto

lemma chain_defined: "chain f p as \<Longrightarrow> a \<in> set as \<Longrightarrow> f a \<noteq> None"
  by (induction as arbitrary: p) (auto split: option.splits)


lemma nh_upd [simp]: "nh (hp(a \<mapsto> h)) = (nh hp)(a \<mapsto> h_next_hash h)"
  by (auto simp: nh_def)

lemma frame_upd [simp]: "frame (hp(a \<mapsto> h)) = (frame hp)(a \<mapsto> h\<lparr>h_next_hash := None\<rparr>)"
  by (auto simp: frame_def)

lemma frame_dom: "frame hp = frame hp' \<Longrightarrow> (hp a = None) = (hp' a = None)"
  by (metis frame_def map_option_is_None)

lemma frame_same_next:
  "hp a = Some h \<Longrightarrow> frame (hp(a \<mapsto> h\<lparr>h_next_hash := q\<rparr>)) = frame hp"
  by (rule ext) (simp add: frame_def)

lemma frame_cell:
  assumes "frame hp = frame hp'" and "hp a = Some h"
  shows "\<exists>q. hp' a = Some (h\<lparr>h_next_hash := q\<rparr>)"
proof -
  have "frame hp' a = Some (h\<lparr>h_next_hash := None\<rparr>)"
    using assms by (metis frame_def option.map(2))
  then obtain h' where h': "hp' a = Some h'" "h'\<lparr>h_next_hash := None\<rparr> = h\<lparr>h_next_hash := None\<rparr>"
    by (auto simp: frame_def)
  from h'(2) have "h' = h\<lparr>h_next_hash := h_next_hash h'\<rparr>" by (cases h; cases h') simp
  with h'(1) show ?thesis by metis
qed

text \<open>The identity of a handle: the pair that lookups compare. It does not depend on the chains.\<close>

definition hid :: "heap \<Rightarrow> addr \<Rightarrow> (u32 \<times> lru_key) option" where
  "hid hp a = do { h \<leftarrow> hp a; k \<leftarrow> handle_key hp a; Some (h_hash h, k) }"

lemma frame_hid: "frame hp = frame hp' \<Longrightarrow> hid hp a = hid hp' a"
proof (cases "hp a")
  case None
  moreover assume "frame hp = frame hp'"
  ultimately have "hp' a = None" using frame_dom by metis
  with None show ?thesis by (simp add: hid_def)
next
  case (Some h)
  moreover assume "frame hp = frame hp'"
  ultimately obtain q where "hp' a = Some (h\<lparr>h_next_hash := q\<rparr>)" using frame_cell by metis
  with Some show ?thesis by (simp add: hid_def handle_key_def)
qed

lemma hid_Some_iff:
  "hid hp a = Some (hash, key) \<longleftrightarrow> (\<exists>h. hp a = Some h \<and> h_hash h = hash \<and> handle_key hp a = Some key)"
  by (auto simp: hid_def bind_eq_Some_conv)

section \<open>Walking and splicing a chain\<close>

definition slot_after :: "slot \<Rightarrow> addr list \<Rightarrow> slot" where
  "slot_after s xs = (if xs = [] then s else NextHash (last xs))"

lemma slot_after_Cons: "slot_after s (a # xs) = slot_after (NextHash a) xs"
  by (simp add: slot_after_def)

lemma find_from_walk:
  assumes "chain (nh hp) p (xs @ ys)" and "slot_get hp t s = Some p"
    and "\<And>a. a \<in> set xs \<Longrightarrow> hid hp a \<noteq> None \<and> hid hp a \<noteq> Some (hash, key)"
    and "ys = [] \<or> hid hp (hd ys) = Some (hash, key)"
  shows "find_from hp t key hash s = Some (slot_after s xs) \<and>
    slot_get hp t (slot_after s xs) = Some (if ys = [] then None else Some (hd ys))"
  using assms
proof (induction xs arbitrary: s p)
  case Nil
  show ?case
  proof (cases ys)
    case Nil
    with Nil.prems show ?thesis by (simp add: find_from.simps slot_after_def)
  next
    case (Cons a zs)
    with Nil.prems show ?thesis
      by (auto simp: find_from.simps [of hp t key hash s] slot_after_def hid_Some_iff)
  qed
next
  case (Cons a xs)
  from Cons.prems(1) obtain q where p: "p = Some a" and q: "nh hp a = Some q"
    and ch: "chain (nh hp) q (xs @ ys)" by (auto split: option.splits)
  from q obtain h where h: "hp a = Some h" "h_next_hash h = q" by (auto simp: nh_def)
  have "slot_get hp t (NextHash a) = Some q" using h by simp
  note IH = Cons.IH [OF ch this]
  from Cons.prems(3) [of a] h(1) obtain k where k: "handle_key hp a = Some k"
    and neq: "h_hash h \<noteq> hash \<or> k \<noteq> key"
    by (auto simp: hid_def bind_eq_None_conv)
  have "find_from hp t key hash s = find_from hp t key hash (NextHash a)"
    using Cons.prems(2) p h(1) k neq by (auto simp: find_from.simps [of hp t key hash s])
  then show ?case using IH Cons.prems(3,4) by (simp add: slot_after_Cons)
qed

lemma chain_splice:
  assumes "chain f p (xs @ ys)" and "xs \<noteq> []" and "distinct xs" and "chain f q zs"
    and "last xs \<notin> set zs"
  shows "chain (f(last xs := Some q)) p (xs @ zs)"
  using assms
proof (induction xs arbitrary: p)
  case Nil
  then show ?case by simp
next
  case (Cons a xs)
  show ?case
  proof (cases "xs = []")
    case True
    have "chain (f(a := Some q)) q zs" using Cons.prems True by (subst chain_upd_notin) auto
    with Cons.prems(1) True show ?thesis by (simp del: fun_upd_apply add: fun_upd_same)
  next
    case False
    with Cons show ?thesis by (auto split: option.splits)
  qed
qed

lemma chain_suffix:
  "chain f p (xs @ ys) \<Longrightarrow> ys \<noteq> [] \<Longrightarrow> \<exists>q. chain f q ys"
  by (induction xs arbitrary: p) (auto split: option.splits)

text \<open>What writing through the slot after \<open>xs\<close> does to bucket \<open>i\<close>, and leaves alone.\<close>

lemma slot_set_splice:
  assumes "chain (nh hp) (t_list t ! i) (xs @ ys)" and "i < length (t_list t)" and "distinct xs"
    and "chain (nh hp) q zs" and "set xs \<inter> set zs = {}"
  shows "\<exists>hp' t'. slot_set hp t (slot_after (Bucket i) xs) q = Some (hp', t') \<and>
    chain (nh hp') (t_list t' ! i) (xs @ zs) \<and> frame hp' = frame hp \<and>
    (\<forall>a. a \<notin> set xs \<longrightarrow> nh hp' a = nh hp a) \<and> length (t_list t') = length (t_list t) \<and>
    (\<forall>j. j \<noteq> i \<longrightarrow> t_list t' ! j = t_list t ! j) \<and> t_length t' = t_length t \<and> t_elems t' = t_elems t"
proof (cases "xs = []")
  case True
  then show ?thesis using assms by (simp add: slot_after_def)
next
  case False
  let ?a = "last xs"
  from chain_defined [OF assms(1), of ?a] False obtain h where h: "hp ?a = Some h"
    by (auto simp: nh_def)
  let ?hp = "hp(?a \<mapsto> h\<lparr>h_next_hash := q\<rparr>)"
  have "chain (nh ?hp) (t_list t ! i) (xs @ zs)"
    using chain_splice [OF assms(1) False assms(3,4)] disjoint_iff_not_equal last_in_set [OF False] assms(5)
    by simp blast
  moreover have "frame ?hp = frame hp" by (rule frame_same_next, rule h)
  ultimately show ?thesis using False h by (auto simp: slot_after_def upd_def)
qed

section \<open>The table invariant\<close>

text \<open>
  \<open>table_inv hp t chs\<close>: bucket \<open>i\<close> holds exactly the handles \<open>chs ! i\<close>, each of which hashes to
  \<open>i\<close>, no two handles have the same identity, and \<^verbatim>\<open>_elems\<close> counts them. \<open>table_rep hp t S\<close>: the table
  holds the handles \<open>S\<close>.
\<close>

definition hbucket :: "heap \<Rightarrow> u32 \<Rightarrow> addr \<Rightarrow> nat" where
  "hbucket hp len a = (case hp a of None \<Rightarrow> 0 | Some h \<Rightarrow> bucket_of (h_hash h) len)"

definition chains_ok :: "heap \<Rightarrow> addr option list \<Rightarrow> addr list list \<Rightarrow> bool" where
  "chains_ok hp buckets chs \<longleftrightarrow> length buckets = length chs \<and>
     (\<forall>i < length chs. chain (nh hp) (buckets ! i) (chs ! i))"

definition table_inv :: "heap \<Rightarrow> handle_table \<Rightarrow> addr list list \<Rightarrow> bool" where
  "table_inv hp t chs \<longleftrightarrow>
     t_length t \<noteq> 0 \<and> length chs = unat (t_length t) \<and> chains_ok hp (t_list t) chs \<and>
     (\<forall>i < length chs. distinct (chs ! i) \<and>
        (\<forall>a \<in> set (chs ! i). hbucket hp (t_length t) a = i \<and> hid hp a \<noteq> None)) \<and>
     inj_on (hid hp) (set (concat chs)) \<and>
     unat (t_elems t) = length (concat chs)"

definition table_rep :: "heap \<Rightarrow> handle_table \<Rightarrow> addr set \<Rightarrow> bool" where
  "table_rep hp t S \<longleftrightarrow> (\<exists>chs. table_inv hp t chs \<and> S = set (concat chs))"

lemma frame_hbucket: "frame hp = frame hp' \<Longrightarrow> hbucket hp len a = hbucket hp' len a"
proof (cases "hp a")
  case None
  moreover assume "frame hp = frame hp'"
  ultimately have "hp' a = None" using frame_dom by metis
  with None show ?thesis by (simp add: hbucket_def)
next
  case (Some h)
  moreover assume "frame hp = frame hp'"
  ultimately obtain q where "hp' a = Some (h\<lparr>h_next_hash := q\<rparr>)" using frame_cell by metis
  with Some show ?thesis by (simp add: hbucket_def)
qed

lemma bucket_of_less: "len \<noteq> 0 \<Longrightarrow> bucket_of hash len < unat len"
proof -
  assume "len \<noteq> 0"
  then have "0 < unat len" by (simp add: unat_gt_0)
  have "unat (hash AND (len - 1)) \<le> unat (len - 1)"
    by (rule word_and_le1 [THEN word_le_nat_alt [THEN iffD1]])
  moreover have "unat (len - 1) = unat len - 1" using \<open>len \<noteq> 0\<close> by (rule unat_minus_one)
  ultimately show ?thesis using \<open>0 < unat len\<close> by (simp add: bucket_of_def)
qed

lemma hid_bucket: "hid hp a = Some (hash, key) \<Longrightarrow> hbucket hp len a = bucket_of hash len"
  by (auto simp: hid_Some_iff hbucket_def)

lemma length_concat_update:
  "i < length xss \<Longrightarrow> length (concat (xss[i := xs])) + length (xss ! i) = length (concat xss) + length xs"
  using sum_list_update_nat [of i xss length xs] by (simp add: length_concat)

lemma set_concat_nth: "set (concat xss) = (\<Union>i < length xss. set (xss ! i))"
proof -
  have "set xss = (!) xss ` {..<length xss}" by (auto simp: set_conv_nth)
  then show ?thesis by simp
qed

text \<open>In a table, a handle with the identity searched for can only sit in the bucket of its hash.\<close>

lemma table_inv_bucket:
  assumes "table_inv hp t chs" and "hid hp a = Some (hash, key)" and "a \<in> set (concat chs)"
  shows "a \<in> set (chs ! bucket_of hash (t_length t))"
proof -
  from assms(3) obtain i where i: "i < length chs" "a \<in> set (chs ! i)"
    unfolding set_concat_nth by blast
  with assms(1) have "hbucket hp (t_length t) a = i" by (simp add: table_inv_def)
  with assms(2) i(2) show ?thesis by (simp add: hid_bucket)
qed

text \<open>
  The one walk every operation makes: the chain of the bucket splits into the handles passed and
  the rest, which starts with the handle found, if there is one.
\<close>

lemma find_pointer_split:
  assumes inv: "table_inv hp t chs" and i_def: "i = bucket_of hash (t_length t)"
  obtains xs ys where "chs ! i = xs @ ys" and "i < length chs"
    and "chain (nh hp) (t_list t ! i) (xs @ ys)"
    and "find_pointer hp t key hash = Some (slot_after (Bucket i) xs)"
    and "slot_get hp t (slot_after (Bucket i) xs) = Some (if ys = [] then None else Some (hd ys))"
    and "ys \<noteq> [] \<Longrightarrow> hid hp (hd ys) = Some (hash, key) \<and> hd ys \<in> set (concat chs)"
    and "ys = [] \<Longrightarrow> \<forall>a \<in> set (concat chs). hid hp a \<noteq> Some (hash, key)"
proof -
  let ?P = "\<lambda>a. hid hp a \<noteq> Some (hash, key)"
  define xs ys where "xs = takeWhile ?P (chs ! i)" and "ys = dropWhile ?P (chs ! i)"
  have split: "chs ! i = xs @ ys" by (simp add: xs_def ys_def)
  have i: "i < length chs"
    using inv bucket_of_less [of "t_length t" hash] by (simp add: i_def table_inv_def)
  have ch: "chain (nh hp) (t_list t ! i) (xs @ ys)"
    using inv i by (simp add: split [symmetric] table_inv_def chains_ok_def)
  have get: "slot_get hp t (Bucket i) = Some (t_list t ! i)"
    using inv i by (simp add: table_inv_def chains_ok_def)
  have pass: "hid hp a \<noteq> None \<and> hid hp a \<noteq> Some (hash, key)" if "a \<in> set xs" for a
  proof -
    have "?P a" using that unfolding xs_def by (rule set_takeWhileD [THEN conjunct2])
    moreover have "a \<in> set (chs ! i)" using that by (simp add: split)
    ultimately show ?thesis using inv i by (simp add: table_inv_def)
  qed
  have stop: "ys = [] \<or> hid hp (hd ys) = Some (hash, key)"
    using hd_dropWhile [of ?P "chs ! i"] by (auto simp: ys_def)
  note walk = find_from_walk [OF ch get pass stop]
  have none: "\<forall>a \<in> set (concat chs). hid hp a \<noteq> Some (hash, key)" if "ys = []"
  proof (rule ballI, rule notI)
    fix a assume "a \<in> set (concat chs)" "hid hp a = Some (hash, key)"
    then have "a \<in> set xs" using table_inv_bucket [OF inv] split that by (auto simp: i_def)
    then show False using pass \<open>hid hp a = Some (hash, key)\<close> by blast
  qed
  have found: "hid hp (hd ys) = Some (hash, key) \<and> hd ys \<in> set (concat chs)" if "ys \<noteq> []"
  proof -
    have "hd ys \<in> set (chs ! i)" using that by (simp add: split)
    then show ?thesis using stop that i unfolding set_concat_nth by blast
  qed
  show ?thesis
    by (rule that [OF split i ch _ _ found none]) (use walk in \<open>simp_all add: find_pointer_def i_def\<close>)
qed

lemma table_lookup_spec:
  assumes "table_rep hp t S"
  shows "\<exists>r. table_lookup hp t key hash = Some r \<and>
    (case r of None \<Rightarrow> \<forall>a \<in> S. hid hp a \<noteq> Some (hash, key)
     | Some a \<Rightarrow> a \<in> S \<and> hid hp a = Some (hash, key))"
proof -
  from assms obtain chs where inv: "table_inv hp t chs" and S: "S = set (concat chs)"
    by (auto simp: table_rep_def)
  obtain xs ys where
    "find_pointer hp t key hash = Some (slot_after (Bucket (bucket_of hash (t_length t))) xs)"
    "slot_get hp t (slot_after (Bucket (bucket_of hash (t_length t))) xs)
       = Some (if ys = [] then None else Some (hd ys))"
    "ys \<noteq> [] \<Longrightarrow> hid hp (hd ys) = Some (hash, key) \<and> hd ys \<in> set (concat chs)"
    "ys = [] \<Longrightarrow> \<forall>a \<in> set (concat chs). hid hp a \<noteq> Some (hash, key)"
    using find_pointer_split [OF inv refl, of hash key] by metis
  then show ?thesis by (auto simp: table_lookup_def S)
qed

section \<open>Updating one bucket\<close>

lemma table_inv_at:
  "table_inv hp t chs \<Longrightarrow> i < length chs \<Longrightarrow> a \<in> set (chs ! i) \<Longrightarrow> hbucket hp (t_length t) a = i"
  by (simp add: table_inv_def)

lemma table_inv_disjoint:
  assumes "table_inv hp t chs" and "i < length chs" and "j < length chs" and "i \<noteq> j"
  shows "set (chs ! i) \<inter> set (chs ! j) = {}"
  using assms(4) table_inv_at [OF assms(1,2)] table_inv_at [OF assms(1,3)] by blast

lemma concat_update_parts:
  assumes "i < length xss"
  shows "set (concat (xss[i := xs])) = set xs \<union> (\<Union>j \<in> {..<length xss} - {i}. set (xss ! j))"
  unfolding set_concat_nth length_list_update
  using assms by (auto simp: nth_list_update split: if_splits)

lemma table_inv_update:
  assumes inv: "table_inv hp t chs" and i: "i < length chs"
    and fr: "frame hp' = frame hp" and ch: "chain (nh hp') (t_list t' ! i) zs"
    and len: "length (t_list t') = length (t_list t)" and tlen: "t_length t' = t_length t"
    and other: "\<And>j. j < length chs \<Longrightarrow> j \<noteq> i \<Longrightarrow> t_list t' ! j = t_list t ! j \<and>
      (\<forall>a \<in> set (chs ! j). nh hp' a = nh hp a)"
    and zs: "distinct zs" "\<And>a. a \<in> set zs \<Longrightarrow> hbucket hp (t_length t) a = i \<and> hid hp a \<noteq> None"
    and inj: "inj_on (hid hp) (set (concat (chs[i := zs])))"
    and elems: "unat (t_elems t') = length (concat (chs[i := zs]))"
  shows "table_inv hp' t' (chs[i := zs])"
proof -
  have hid: "hid hp' = hid hp" using frame_hid [OF fr] by (simp add: fun_eq_iff)
  have hb: "hbucket hp' (t_length t) a = hbucket hp (t_length t) a" for a
    by (rule frame_hbucket [OF fr])
  have "chain (nh hp') (t_list t' ! j) (chs[i := zs] ! j)" if "j < length chs" for j
  proof (cases "j = i")
    case True
    with ch i show ?thesis by simp
  next
    case False
    have "chain (nh hp) (t_list t ! j) (chs ! j)"
      using inv that by (simp add: table_inv_def chains_ok_def)
    moreover have "chain (nh hp') (t_list t ! j) (chs ! j) = chain (nh hp) (t_list t ! j) (chs ! j)"
      by (rule chain_cong) (use other [OF that False] in simp)
    ultimately show ?thesis using other [OF that False] False that by simp
  qed
  then have "chains_ok hp' (t_list t') (chs[i := zs])"
    using inv len by (simp add: table_inv_def chains_ok_def)
  moreover have "distinct (chs[i := zs] ! j) \<and>
      (\<forall>a \<in> set (chs[i := zs] ! j). hbucket hp (t_length t) a = j \<and> hid hp a \<noteq> None)"
    if "j < length chs" for j
    using zs inv that i by (cases "j = i") (auto simp: table_inv_def)
  ultimately show ?thesis
    using inv i inj elems tlen by (simp add: table_inv_def hid hb)
qed

lemma table_remove_spec:
  assumes "table_rep hp t S"
  shows "\<exists>r hp' t'. table_remove hp t key hash = Some (r, hp', t') \<and> frame hp' = frame hp \<and>
    (case r of
       None \<Rightarrow> hp' = hp \<and> t' = t \<and> (\<forall>a \<in> S. hid hp a \<noteq> Some (hash, key))
     | Some a \<Rightarrow> a \<in> S \<and> hid hp a = Some (hash, key) \<and> table_rep hp' t' (S - {a}))"
proof -
  from assms obtain chs where inv: "table_inv hp t chs" and S: "S = set (concat chs)"
    by (auto simp: table_rep_def)
  let ?i = "bucket_of hash (t_length t)"
  obtain xs ys where split: "chs ! ?i = xs @ ys" and i: "?i < length chs"
    and ch: "chain (nh hp) (t_list t ! ?i) (xs @ ys)"
    and fp: "find_pointer hp t key hash = Some (slot_after (Bucket ?i) xs)"
    and get: "slot_get hp t (slot_after (Bucket ?i) xs) = Some (if ys = [] then None else Some (hd ys))"
    and found: "ys \<noteq> [] \<Longrightarrow> hid hp (hd ys) = Some (hash, key) \<and> hd ys \<in> set (concat chs)"
    and none: "ys = [] \<Longrightarrow> \<forall>a \<in> set (concat chs). hid hp a \<noteq> Some (hash, key)"
    by (rule find_pointer_split [OF inv refl, of hash key]) blast
  show ?thesis
  proof (cases ys)
    case Nil
    with fp get none show ?thesis by (simp add: table_remove_def S)
  next
    case (Cons a zs)
    have di: "distinct (xs @ a # zs)" using inv i split Cons by (metis table_inv_def)
    from chain_defined [OF ch, of a] Cons obtain h where h: "hp a = Some h" by (auto simp: nh_def)
    have tl: "chain (nh hp) (h_next_hash h) zs"
    proof -
      obtain q where "chain (nh hp) q (a # zs)" using chain_suffix ch Cons by blast
      with h show ?thesis by (simp add: nh_def)
    qed
    have "?i < length (t_list t)" using inv i by (simp add: table_inv_def chains_ok_def)
    moreover have "distinct xs" "set xs \<inter> set zs = {}" using di by auto
    ultimately obtain hp' t' where set: "slot_set hp t (slot_after (Bucket ?i) xs) (h_next_hash h) = Some (hp', t')"
      and sp: "chain (nh hp') (t_list t' ! ?i) (xs @ zs)" "frame hp' = frame hp"
        "\<And>b. b \<notin> set xs \<Longrightarrow> nh hp' b = nh hp b" "length (t_list t') = length (t_list t)"
        "\<And>j. j \<noteq> ?i \<Longrightarrow> t_list t' ! j = t_list t ! j" "t_length t' = t_length t" "t_elems t' = t_elems t"
      using slot_set_splice [OF ch _ _ tl] by blast
    have len: "length (concat (chs[?i := xs @ zs])) + 1 = length (concat chs)"
      using length_concat_update [OF i, of "xs @ zs"] split Cons by simp
    have el: "unat (t_elems t) = length (concat chs)" using inv by (simp add: table_inv_def)
    have parts: "set (concat (chs[?i := xs @ zs])) = set (concat chs) - {a}"
    proof -
      have "chs = chs[?i := xs @ a # zs]" using split Cons by (metis list_update_id)
      then have "set (concat chs) =
          set (xs @ a # zs) \<union> (\<Union>j \<in> {..<length chs} - {?i}. set (chs ! j))"
        using concat_update_parts [OF i, of "xs @ a # zs"] by simp
      moreover have "a \<notin> (\<Union>j \<in> {..<length chs} - {?i}. set (chs ! j))"
        using table_inv_disjoint [OF inv i] split Cons by fastforce
      ultimately show ?thesis using di concat_update_parts [OF i, of "xs @ zs"] by auto
    qed
    have "table_inv hp' (t'\<lparr>t_elems := t_elems t' - 1\<rparr>) (chs[?i := xs @ zs])"
    proof (rule table_inv_update [OF inv i sp(2)])
      show "inj_on (hid hp) (set (concat (chs[?i := xs @ zs])))"
        using inv unfolding parts by (auto simp: table_inv_def intro: inj_on_diff)
      have "t_elems t \<noteq> 0" using el len by (metis add_is_0 one_neq_zero unat_0)
      then show "unat (t_elems (t'\<lparr>t_elems := t_elems t' - 1\<rparr>)) = length (concat (chs[?i := xs @ zs]))"
        using el len sp(7) by (simp add: unat_minus_one)
      show "distinct (xs @ zs)" using di by simp
      show "hbucket hp (t_length t) b = ?i \<and> hid hp b \<noteq> None" if "b \<in> set (xs @ zs)" for b
      proof -
        have "b \<in> set (chs ! ?i)" using that split Cons by auto
        then show ?thesis using inv i by (auto simp: table_inv_def)
      qed
      show "t_list (t'\<lparr>t_elems := t_elems t' - 1\<rparr>) ! j = t_list t ! j \<and>
          (\<forall>b \<in> set (chs ! j). nh hp' b = nh hp b)" if "j < length chs" "j \<noteq> ?i" for j
        using sp(3,5) that table_inv_disjoint [OF inv that(1) i that(2)] split by auto
    qed (use sp in simp_all)
    then have "table_rep hp' (t'\<lparr>t_elems := t_elems t' - 1\<rparr>) (S - {a})"
      unfolding table_rep_def S using parts by metis
    with fp get set h sp(2) found Cons show ?thesis by (simp add: table_remove_def S)
  qed
qed

section \<open>Growing the bucket array\<close>

lemma grow_reaches:
  assumes "unat elems \<le> 2 ^ 31" and "k \<le> 31" and "unat new_length = 2 ^ k"
  shows "\<exists>r. grow elems new_length = Some r \<and> elems \<le> r \<and> r \<noteq> 0"
  using assms(2,3)
proof (induction "31 - k" arbitrary: k new_length)
  case 0
  then have "unat new_length = 2 ^ 31" by simp
  then have "\<not> new_length < elems" "new_length \<noteq> 0" using assms(1) by (auto simp: word_less_nat_alt)
  then show ?case by (simp add: grow.simps [of elems new_length])
next
  case (Suc n)
  show ?case
  proof (cases "new_length < elems")
    case True
    have "unat new_length * 2 = 2 ^ Suc k" using Suc.prems by simp
    also have "(2::nat) ^ Suc k \<le> 2 ^ 31" using Suc.hyps(2) by (intro power_increasing) auto
    finally have "unat (new_length * 2) = 2 ^ Suc k"
      using Suc.prems by (subst unat_mult_lem [THEN iffD1]) auto
    moreover have "n = 31 - Suc k" "Suc k \<le> 31" using Suc.hyps(2) by auto
    ultimately obtain r where "grow elems (new_length * 2) = Some r" "elems \<le> r" "r \<noteq> 0"
      using Suc.hyps(1) by blast
    with True show ?thesis by (simp add: grow.simps [of elems new_length])
  next
    case False
    have "new_length \<noteq> 0" using Suc.prems(2) by auto
    with False show ?thesis by (simp add: grow.simps [of elems new_length])
  qed
qed

section \<open>Rehashing\<close>

definition push :: "heap \<Rightarrow> u32 \<Rightarrow> addr \<Rightarrow> addr list list \<Rightarrow> addr list list" where
  "push hp len a chs = chs[hbucket hp len a := a # chs ! hbucket hp len a]"

lemma length_push [simp]: "length (push hp len a chs) = length chs"
  by (simp add: push_def)

lemma frame_push: "frame hp' = frame hp \<Longrightarrow> push hp' len = push hp len"
  using frame_hbucket [of hp' hp len] by (simp add: push_def fun_eq_iff)

lemma hbucket_less: "len \<noteq> 0 \<Longrightarrow> hbucket hp len a < unat len"
  by (auto simp: hbucket_def bucket_of_less unat_gt_0 split: option.splits)

lemma set_concat_push:
  assumes "hbucket hp len a < length chs"
  shows "set (concat (push hp len a chs)) = insert a (set (concat chs))"
    and "length (concat (push hp len a chs)) = Suc (length (concat chs))"
proof -
  let ?i = "hbucket hp len a"
  have "chs = chs[?i := chs ! ?i]" by simp
  then have "set (concat chs) = set (chs ! ?i) \<union> (\<Union>j \<in> {..<length chs} - {?i}. set (chs ! j))"
    using concat_update_parts [OF assms, of "chs ! ?i"] by simp
  then show "set (concat (push hp len a chs)) = insert a (set (concat chs))"
    unfolding push_def concat_update_parts [OF assms] by simp
  show "length (concat (push hp len a chs)) = Suc (length (concat chs))"
    unfolding push_def using length_concat_update [OF assms, of "a # chs ! ?i"] by simp
qed

lemma chains_ok_push:
  assumes ok: "chains_ok hp lst chs" and i: "hbucket hp len a < length chs" and a: "a \<notin> set (concat chs)"
    and h: "hp a = Some h"
  shows "chains_ok (hp(a \<mapsto> h\<lparr>h_next_hash := lst ! hbucket hp len a\<rparr>)) (lst[hbucket hp len a := Some a])
    (push hp len a chs)"
proof -
  have "a \<notin> set (chs ! j)" if "j < length chs" for j
    using a that by (auto simp: set_concat_nth)
  then show ?thesis using ok i
    by (auto simp: chains_ok_def push_def nth_list_update chain_upd_notin)
qed

lemma rehash_chain_fold:
  assumes "chain (nh hp) p xs" and "distinct xs" and "set xs \<inter> set (concat chs) = {}"
    and "chains_ok hp lst chs" and "length chs = unat len" and "len \<noteq> 0"
  shows "\<exists>hp' lst'. rehash_chain len hp lst count p = Some (hp', lst', count + of_nat (length xs)) \<and>
    chains_ok hp' lst' (fold (push hp len) xs chs) \<and> frame hp' = frame hp \<and>
    (\<forall>a. a \<notin> set xs \<longrightarrow> nh hp' a = nh hp a)"
  using assms(1-5)
proof (induction xs arbitrary: hp p chs lst count)
  case Nil
  then show ?case by (simp add: rehash_chain.simps)
next
  case (Cons a xs)
  from Cons.prems(1) obtain q where p: "p = Some a" and q: "nh hp a = Some q"
    and chq: "chain (nh hp) q xs" by (auto split: option.splits)
  from q obtain h where h: "hp a = Some h" "h_next_hash h = q" by (auto simp: nh_def)
  have ch: "chain (nh hp) (h_next_hash h) xs" using chq h(2) by simp
  note h = h(1)
  let ?i = "hbucket hp len a"
  let ?hp = "hp(a \<mapsto> h\<lparr>h_next_hash := lst ! ?i\<rparr>)"
  have i: "?i < length chs" using hbucket_less [OF assms(6)] Cons.prems(5) by simp
  have bi: "bucket_of (h_hash h) len = ?i" using h by (simp add: hbucket_def)
  have fr: "frame ?hp = frame hp" by (rule frame_same_next, rule h)
  have ok: "chains_ok ?hp (lst[?i := Some a]) (push hp len a chs)"
    using chains_ok_push [OF Cons.prems(4) i _ h] Cons.prems(3) by auto
  have ch1: "chain (nh ?hp) (h_next_hash h) xs" using ch Cons.prems(2) by simp
  have disj: "set xs \<inter> set (concat (push hp len a chs)) = {}"
    using Cons.prems(2,3) unfolding set_concat_push(1) [OF i] by auto
  have dl: "distinct xs" "length (push hp len a chs) = unat len" using Cons.prems(2,5) by simp_all
  obtain hp' lst' where
    IH: "rehash_chain len ?hp (lst[?i := Some a]) (count + 1) (h_next_hash h) =
        Some (hp', lst', count + 1 + of_nat (length xs))"
      "chains_ok hp' lst' (fold (push ?hp len) xs (push hp len a chs))" "frame hp' = frame ?hp"
      "\<forall>b. b \<notin> set xs \<longrightarrow> nh hp' b = nh ?hp b"
    using Cons.IH [OF ch1 dl(1) disj ok dl(2), of "count + 1"] by (elim exE conjE) rule
  have "nth_opt lst ?i = Some (lst ! ?i)" using i Cons.prems(4) by (simp add: chains_ok_def)
  then have "rehash_chain len hp lst count p = Some (hp', lst', count + of_nat (length (a # xs)))"
    using IH(1) h p bi by (simp add: rehash_chain.simps [of len hp lst count "Some a"] Let_def add.assoc)
  then show ?case using IH(2,3,4) fr frame_push [OF fr] by auto
qed

lemma rehash_all_fold:
  assumes "list_all2 (chain (nh hp)) ps xss" and "distinct (concat xss)"
    and "set (concat xss) \<inter> set (concat chs) = {}"
    and "chains_ok hp lst chs" and "length chs = unat len" and "len \<noteq> 0"
  shows "\<exists>hp' lst'. rehash_all len ps (hp, lst, count) = Some (hp', lst', count + of_nat (length (concat xss))) \<and>
    chains_ok hp' lst' (fold (push hp len) (concat xss) chs) \<and> frame hp' = frame hp"
  using assms(1-5)
proof (induction ps arbitrary: hp xss chs lst count)
  case Nil
  then show ?case by simp
next
  case (Cons p ps hp yss chs lst count)
  from Cons.prems(1) obtain xs xss where yss: "yss = xs # xss" and chp: "chain (nh hp) p xs"
    and chps: "list_all2 (chain (nh hp)) ps xss" by (auto simp: list_all2_Cons1)
  note prems = Cons.prems(2-5) [unfolded yss]
  have d: "distinct xs" "set xs \<inter> set (concat chs) = {}" using prems(1,2) by auto
  obtain hp1 lst1 where s1: "rehash_chain len hp lst count p = Some (hp1, lst1, count + of_nat (length xs))"
    and ok1: "chains_ok hp1 lst1 (fold (push hp len) xs chs)" and fr1: "frame hp1 = frame hp"
    and nh1: "\<forall>a. a \<notin> set xs \<longrightarrow> nh hp1 a = nh hp a"
    using rehash_chain_fold [OF chp d prems(3,4) assms(6)] by blast
  have sc: "set (concat (fold (push hp len) ys cs)) = set ys \<union> set (concat cs)"
      "length (fold (push hp len) ys cs) = length cs"
    if "length cs = unat len" for ys cs
    using that
  proof (induction ys arbitrary: cs)
    case (Cons b ys)
    { case 1 then show ?case using Cons.IH(1) [of "push hp len b cs"]
        set_concat_push(1) [of hp len b cs] hbucket_less [OF assms(6), of hp b] by auto }
    { case 2 then show ?case using Cons.IH(2) [of "push hp len b cs"] by simp }
  qed simp_all
  have rest: "list_all2 (chain (nh hp1)) ps xss"
  proof (rule list_all2_all_nthI)
    show "length ps = length xss" using chps by (rule list_all2_lengthD)
    fix n assume n: "n < length ps"
    then have "chain (nh hp) (ps ! n) (xss ! n)" using chps by (simp add: list_all2_nthD)
    moreover have "xss ! n \<in> set xss" using n chps by (simp add: list_all2_lengthD)
    then have "set (xss ! n) \<subseteq> set (concat xss)" by auto
    then have "chain (nh hp1) (ps ! n) (xss ! n) = chain (nh hp) (ps ! n) (xss ! n)"
      using nh1 prems(1) by (intro chain_cong) auto
    ultimately show "chain (nh hp1) (ps ! n) (xss ! n)" by simp
  qed
  have "set (concat xss) \<inter> set (concat (fold (push hp len) xs chs)) = {}"
    unfolding sc(1) [OF prems(4)] using prems(1,2) by auto
  moreover have "distinct (concat xss)" using prems(1) by simp
  moreover have "length (fold (push hp len) xs chs) = unat len" using sc(2) prems(4) by simp
  ultimately obtain hp' lst' where
    s2: "rehash_all len ps (hp1, lst1, count + of_nat (length xs)) =
        Some (hp', lst', count + of_nat (length xs) + of_nat (length (concat xss)))"
      "chains_ok hp' lst' (fold (push hp1 len) (concat xss) (fold (push hp len) xs chs))"
      "frame hp' = frame hp1"
    using Cons.IH [OF rest _ _ ok1] by blast
  then show ?case using s1 frame_push [OF fr1] fr1 yss by (simp add: add.assoc)
qed

definition rehashed :: "heap \<Rightarrow> u32 \<Rightarrow> addr list \<Rightarrow> addr list list \<Rightarrow> bool" where
  "rehashed hp len as chs \<longleftrightarrow> set (concat chs) = set as \<and> length (concat chs) = length as \<and>
     length chs = unat len \<and>
     (\<forall>i < length chs. distinct (chs ! i) \<and> (\<forall>a \<in> set (chs ! i). hbucket hp len a = i))"

lemma rehashed_push:
  assumes "rehashed hp len as chs" and "a \<notin> set as" and "len \<noteq> 0"
  shows "rehashed hp len (as @ [a]) (push hp len a chs)"
proof -
  let ?i = "hbucket hp len a"
  have i: "?i < length chs" using hbucket_less [OF assms(3)] assms(1) by (simp add: rehashed_def)
  have a: "a \<notin> set (chs ! ?i)"
    using assms(1,2) i unfolding rehashed_def set_concat_nth by blast
  have ok: "distinct (chs ! j)" "\<forall>b \<in> set (chs ! j). hbucket hp len b = j" if "j < length chs" for j
    using assms(1) that by (simp_all add: rehashed_def)
  have "distinct (push hp len a chs ! j) \<and> (\<forall>b \<in> set (push hp len a chs ! j). hbucket hp len b = j)"
    if "j < length chs" for j
    using ok [OF that] a that by (cases "j = ?i") (simp_all add: push_def)
  then show ?thesis
    using assms(1) set_concat_push [OF i] by (simp only: rehashed_def length_push set_append length_append) simp
qed

lemma rehashed_fold:
  assumes "distinct as" and "len \<noteq> 0"
  shows "rehashed hp len as (fold (push hp len) as (replicate (unat len) []))"
  using assms(1)
proof (induction as rule: rev_induct)
  case Nil
  show ?case by (simp add: rehashed_def)
next
  case (snoc a as)
  then show ?case using rehashed_push [OF _ _ assms(2)] by simp
qed

lemma table_inv_distinct:
  assumes "table_inv hp t chs"
  shows "distinct (concat chs)"
proof -
  have "distinct (concat ys)" if "\<And>i. i < length ys \<Longrightarrow> distinct (ys ! i)"
      and "\<And>i a. i < length ys \<Longrightarrow> a \<in> set (ys ! i) \<Longrightarrow> hbucket hp (t_length t) a = k + i" for ys k
    using that
  proof (induction ys arbitrary: k)
    case (Cons y ys)
    have "hbucket hp (t_length t) a = Suc k + i" if "i < length ys" "a \<in> set (ys ! i)" for i a
      using Cons.prems(2) [of "Suc i" a] that by simp
    moreover have "distinct (ys ! i)" if "i < length ys" for i
      using Cons.prems(1) [of "Suc i"] that by simp
    moreover have "hbucket hp (t_length t) a = k" if "a \<in> set y" for a
      using Cons.prems(2) [of 0 a] that by simp
    moreover have "distinct y" using Cons.prems(1) [of 0] by simp
    ultimately show ?case using Cons.IH [of "Suc k"] by (fastforce simp: in_set_conv_nth)
  qed simp
  then show ?thesis using assms table_inv_at [OF assms] by (metis table_inv_def add_0)
qed

text \<open>
  Resizing keeps the handles; the count it makes always agrees with \<^verbatim>\<open>_elems\<close>, so the only failure
  is that of the allocation.
\<close>

lemma resize_core:
  assumes chs: "list_all2 (chain (nh hp)) (take (unat (t_length t)) (t_list t)) chs"
    and di: "distinct (concat chs)" and hid: "\<And>a. a \<in> set (concat chs) \<Longrightarrow> hid hp a \<noteq> None"
    and inj: "inj_on (hid hp) (set (concat chs))"
    and elems: "unat (t_elems t) = length (concat chs)" and small: "unat (t_elems t) \<le> 2 ^ 31"
  shows "\<exists>hp' t' chs'. resize True hp t = Some (True, hp', t') \<and> frame hp' = frame hp \<and>
    table_inv hp' t' chs' \<and> set (concat chs') = set (concat chs) \<and> t_elems t' = t_elems t \<and>
    t_elems t' \<le> t_length t'"
proof -
  obtain len where g: "grow (t_elems t) 4 = Some len" "t_elems t \<le> len" "len \<noteq> 0"
    using grow_reaches [OF small, of 2 4] by auto
  let ?chs = "fold (push hp len) (concat chs) (replicate (unat len) [])"
  have "chains_ok hp (replicate (unat len) None) (replicate (unat len) [])"
    by (simp add: chains_ok_def)
  then obtain hp' lst' where
    r: "rehash_all len (take (unat (t_length t)) (t_list t)) (hp, replicate (unat len) None, 0) =
          Some (hp', lst', 0 + of_nat (length (concat chs)))"
      "chains_ok hp' lst' ?chs" and fr: "frame hp' = frame hp"
    using rehash_all_fold [OF chs di _ _ _ g(3), of "replicate (unat len) []"] by fastforce
  have count: "(of_nat (length (concat chs)) :: u32) = t_elems t"
    unfolding elems [symmetric] by simp
  have rh: "rehashed hp len (concat chs) ?chs" by (rule rehashed_fold [OF di g(3)])
  let ?t = "t\<lparr>t_list := lst', t_length := len\<rparr>"
  have hids: "hid hp' = hid hp" using frame_hid [OF fr] by (simp add: fun_eq_iff)
  have hbs: "hbucket hp' len a = hbucket hp len a" for a by (rule frame_hbucket [OF fr])
  have "hid hp a \<noteq> None" if "i < length ?chs" "a \<in> set (?chs ! i)" for i a
  proof -
    have "a \<in> set (concat ?chs)" using that unfolding set_concat_nth by blast
    then show ?thesis using hid rh unfolding rehashed_def by blast
  qed
  then have "table_inv hp' ?t ?chs"
    using rh r(2) inj elems g(3) unfolding table_inv_def rehashed_def hids by (simp add: hbs)
  then show ?thesis
    using g r(1) count fr rh by (intro exI [of _ hp'] exI [of _ ?t] exI [of _ ?chs])
      (simp add: resize_def rehashed_def hbs)
qed

lemma table_inv_list_all2:
  assumes "table_inv hp t chs"
  shows "list_all2 (chain (nh hp)) (take (unat (t_length t)) (t_list t)) chs"
  using assms by (auto simp: table_inv_def chains_ok_def list_all2_conv_all_nth)

lemma table_inv_hid: "table_inv hp t chs \<Longrightarrow> a \<in> set (concat chs) \<Longrightarrow> hid hp a \<noteq> None"
  unfolding table_inv_def set_concat_nth by blast

lemma resize_spec:
  assumes "table_rep hp t S" and "card S \<le> 2 ^ 31"
  shows "\<exists>hp' t'. resize alloc hp t = Some (alloc, hp', t') \<and> frame hp' = frame hp \<and>
    table_rep hp' t' S \<and> (alloc \<longrightarrow> t_elems t' \<le> t_length t')"
proof -
  from assms(1) obtain chs where inv: "table_inv hp t chs" and S: "S = set (concat chs)"
    by (auto simp: table_rep_def)
  have di: "distinct (concat chs)" using inv by (rule table_inv_distinct)
  have el: "unat (t_elems t) = length (concat chs)" using inv by (simp add: table_inv_def)
  then have small: "unat (t_elems t) \<le> 2 ^ 31" using assms(2) distinct_card [OF di] S by simp
  have inj: "inj_on (hid hp) (set (concat chs))" using inv by (simp add: table_inv_def)
  show ?thesis
  proof (cases alloc)
    case True
    then show ?thesis
      using resize_core [OF table_inv_list_all2 [OF inv] di table_inv_hid [OF inv] inj el small] S
      unfolding table_rep_def by metis
  next
    case False
    obtain len where "grow (t_elems t) 4 = Some len"
      using grow_reaches [OF small, of 2 4] by auto
    then show ?thesis using False assms(1) by (simp add: resize_def)
  qed
qed

lemma table_new_spec:
  "\<exists>t. table_new True hp = Some (True, hp, t) \<and> table_rep hp t {}"
proof -
  have "grow 0 4 = Some 4" by (simp add: grow.simps)
  then have "table_new True hp = Some (True, hp, \<lparr>t_length = 4, t_elems = 0, t_list = replicate 4 None\<rparr>)"
    by (simp add: table_new_def resize_def)
  moreover have "table_inv hp \<lparr>t_length = 4, t_elems = 0, t_list = replicate 4 None\<rparr> (replicate 4 [])"
    by (simp add: table_inv_def chains_ok_def)
  ultimately show ?thesis unfolding table_rep_def by fastforce
qed

section \<open>Insertion\<close>

lemma table_repI: "table_inv hp t chs \<Longrightarrow> S = set (concat chs) \<Longrightarrow> table_rep hp t S"
  by (auto simp: table_rep_def)

lemma in_set_tl: "x \<in> set (tl xs) \<Longrightarrow> x \<in> set xs"
  by (cases xs) simp_all

lemma inj_on_insert_new:
  assumes "inj_on f T" and "S \<subseteq> insert a T" and "\<And>b. b \<in> S \<Longrightarrow> b \<noteq> a \<Longrightarrow> f b \<noteq> f a"
  shows "inj_on f S"
proof (rule inj_onI)
  fix x y assume "x \<in> S" "y \<in> S" "f x = f y"
  then show "x = y" using assms inj_onD [OF assms(1), of x y] by (cases "x = a"; cases "y = a") auto
qed

lemma table_inv_frame:
  assumes inv: "table_inv hp t chs" and fr: "frame hp' = frame hp"
    and nh: "\<And>a. a \<in> set (concat chs) \<Longrightarrow> nh hp' a = nh hp a"
  shows "table_inv hp' t chs"
proof -
  have hid: "hid hp' = hid hp" using frame_hid [OF fr] by (simp add: fun_eq_iff)
  have hb: "hbucket hp' (t_length t) a = hbucket hp (t_length t) a" for a
    by (rule frame_hbucket [OF fr])
  have "chain (nh hp') (t_list t ! j) (chs ! j)" if "j < length chs" for j
  proof -
    have "chain (nh hp) (t_list t ! j) (chs ! j)"
      using inv that by (simp add: table_inv_def chains_ok_def)
    moreover have "nh hp' a = nh hp a" if "a \<in> set (chs ! j)" for a
      using nh that \<open>j < length chs\<close> unfolding set_concat_nth by blast
    ultimately show ?thesis using chain_cong by metis
  qed
  then show ?thesis using inv by (simp add: table_inv_def chains_ok_def hid hb)
qed

lemma table_rep_frame:
  assumes "table_rep hp t S" and "frame hp' = frame hp" and "\<And>a. a \<in> S \<Longrightarrow> nh hp' a = nh hp a"
  shows "table_rep hp' t S"
  using assms table_inv_frame unfolding table_rep_def by metis

text \<open>The part of \<^verbatim>\<open>insert\<close> before the resize: the handle replaces its match, or joins the chain.\<close>

lemma table_link:
  assumes inv: "table_inv hp t chs" and a: "a \<notin> set (concat chs)" and h: "hp a = Some h"
    and id: "hid hp a = Some (hash, key)" and i_def: "i = bucket_of hash (t_length t)"
    and fp: "find_pointer hp t key hash = Some s" and get: "slot_get hp t s = Some old"
    and nxt: "(case old of None \<Rightarrow> Some None | Some b \<Rightarrow> map_option h_next_hash (hp b)) = Some q"
  defines "S' \<equiv> insert a (case old of None \<Rightarrow> set (concat chs) | Some b \<Rightarrow> set (concat chs) - {b})"
  shows "\<exists>hp' t' chs'. slot_set (hp(a \<mapsto> h\<lparr>h_next_hash := q\<rparr>)) t s (Some a) = Some (hp', t') \<and>
    frame hp' = frame hp \<and> t_elems t' = t_elems t \<and> set (concat chs') = S' \<and>
    (\<forall>e. unat e = length (concat chs') \<longrightarrow> table_inv hp' (t'\<lparr>t_elems := e\<rparr>) chs') \<and>
    length (concat chs') = (if old = None then Suc (length (concat chs)) else length (concat chs)) \<and>
    (case old of None \<Rightarrow> \<forall>b \<in> set (concat chs). hid hp b \<noteq> Some (hash, key)
     | Some b \<Rightarrow> b \<in> set (concat chs) \<and> hid hp b = Some (hash, key))"
proof -
  obtain xs ys where split: "chs ! i = xs @ ys" and i: "i < length chs"
    and ch: "chain (nh hp) (t_list t ! i) (xs @ ys)"
    and s: "s = slot_after (Bucket i) xs" and old: "old = (if ys = [] then None else Some (hd ys))"
    and found: "ys \<noteq> [] \<Longrightarrow> hid hp (hd ys) = Some (hash, key) \<and> hd ys \<in> set (concat chs)"
    and none: "ys = [] \<Longrightarrow> \<forall>b \<in> set (concat chs). hid hp b \<noteq> Some (hash, key)"
    by (rule find_pointer_split [OF inv i_def, where key = key]) (use fp get in force)
  let ?hp = "hp(a \<mapsto> h\<lparr>h_next_hash := q\<rparr>)"
  have notin: "a \<notin> set (chs ! j)" if "j < length chs" for j
    using a that unfolding set_concat_nth by blast
  have di: "distinct (xs @ ys)" using inv i split by (metis table_inv_def)
  have fr: "frame ?hp = frame hp" by (rule frame_same_next, rule h)
  have ch1: "chain (nh ?hp) (t_list t ! i) (xs @ ys)"
    using ch notin [OF i] split by simp
  have tl: "chain (nh hp) q (tl ys)"
  proof (cases ys)
    case Nil
    with nxt old show ?thesis by simp
  next
    case (Cons b zs)
    obtain r where "chain (nh hp) r (b # zs)" using chain_suffix ch Cons by blast
    with nxt old Cons show ?thesis by (auto simp: nh_def)
  qed
  let ?zs = "a # tl ys"
  have "a \<notin> set (xs @ ys)" using notin [OF i] split by simp
  then have nin: "a \<notin> set xs" "a \<notin> set ys" "a \<notin> set (tl ys)" by (auto dest: in_set_tl)
  have dxs: "distinct xs" "set xs \<inter> set ?zs = {}" "distinct (xs @ ?zs)"
    using di nin by (auto dest: in_set_tl simp: distinct_tl)
  have tl1: "chain (nh ?hp) (Some a) ?zs" using tl nin by simp
  have "i < length (t_list t)" using inv i by (simp add: table_inv_def chains_ok_def)
  then obtain hp' t' where set: "slot_set ?hp t s (Some a) = Some (hp', t')"
    and sp: "chain (nh hp') (t_list t' ! i) (xs @ ?zs)" "frame hp' = frame ?hp"
      "\<And>b. b \<notin> set xs \<Longrightarrow> nh hp' b = nh ?hp b" "length (t_list t') = length (t_list t)"
      "\<And>j. j \<noteq> i \<Longrightarrow> t_list t' ! j = t_list t ! j" "t_length t' = t_length t" "t_elems t' = t_elems t"
    using slot_set_splice [OF ch1 _ dxs(1) tl1 dxs(2)] s by blast
  let ?chs = "chs[i := xs @ ?zs]"
  have parts: "set (concat chs) = set (xs @ ys) \<union> (\<Union>j \<in> {..<length chs} - {i}. set (chs ! j))"
    using concat_update_parts [OF i, of "chs ! i", unfolded list_update_id] unfolding split .
  have hdnot: "hd ys \<notin> (\<Union>j \<in> {..<length chs} - {i}. set (chs ! j))" if "ys \<noteq> []"
  proof -
    have "hd ys \<in> set (chs ! i)" using split that by simp
    then show ?thesis using table_inv_disjoint [OF inv i] by blast
  qed
  have S': "set (concat ?chs) = S'"
    unfolding S'_def concat_update_parts [OF i] parts old
    using di hdnot by (cases ys) auto
  have len: "length (concat ?chs) = (if old = None then Suc (length (concat chs)) else length (concat chs))"
    using length_concat_update [OF i, of "xs @ ?zs"] split old by (cases ys) auto
  have "table_inv hp' (t'\<lparr>t_elems := e\<rparr>) ?chs" if e: "unat e = length (concat ?chs)" for e
  proof (rule table_inv_update [OF inv i])
    show "frame hp' = frame hp" using sp(2) fr by simp
    show "inj_on (hid hp) (set (concat ?chs))"
    proof -
      have inj: "inj_on (hid hp) (set (concat chs))" using inv by (simp add: table_inv_def)
      have new: "hid hp b \<noteq> Some (hash, key)" if "b \<in> S'" "b \<noteq> a" for b
      proof (cases ys)
        case Nil
        then have "b \<in> set (concat chs)" using that unfolding S'_def old by simp
        then show ?thesis using none [OF Nil] by (rule bspec [rotated])
      next
        case (Cons c zs)
        then have "b \<in> set (concat chs)" "b \<noteq> c" using that unfolding S'_def old by simp_all
        moreover have "c \<in> set (concat chs)" "hid hp c = Some (hash, key)" using Cons found by simp_all
        ultimately show ?thesis
          using inj_onD [OF inj, of b c] by metis
      qed
      have sub: "S' \<subseteq> insert a (set (concat chs))" unfolding S'_def by (auto split: option.splits)
      show ?thesis unfolding S' by (rule inj_on_insert_new [OF inj sub]) (simp add: id new)
    qed
    show "hbucket hp (t_length t) b = i \<and> hid hp b \<noteq> None" if "b \<in> set (xs @ ?zs)" for b
    proof (cases "b = a")
      case True
      then show ?thesis using id i_def hid_bucket by auto
    next
      case False
      then have "b \<in> set (chs ! i)" using that split by (auto dest: in_set_tl)
      then show ?thesis using inv i by (auto simp: table_inv_def)
    qed
    show "t_list (t'\<lparr>t_elems := e\<rparr>) ! j = t_list t ! j \<and> (\<forall>b \<in> set (chs ! j). nh hp' b = nh hp b)"
      if "j < length chs" "j \<noteq> i" for j
    proof (intro conjI ballI)
      fix b assume b: "b \<in> set (chs ! j)"
      then have "b \<noteq> a" "b \<notin> set xs"
        using notin [OF that(1)] table_inv_disjoint [OF inv that(1) i that(2)] split by auto
      then show "nh hp' b = nh hp b" using sp(3) [of b] by simp
    qed (use sp(5) that in simp)
    show "unat (t_elems (t'\<lparr>t_elems := e\<rparr>)) = length (concat ?chs)" using e by simp
  qed (use sp dxs in simp_all)
  then show ?thesis
    using set sp(2,7) fr S' len none found old by (intro exI [of _ hp'] exI [of _ t'] exI [of _ ?chs]) auto
qed

lemma table_insert_spec:
  assumes rep: "table_rep hp t S" and a: "a \<notin> S" and id: "hid hp a = Some (hash, key)"
    and card: "card S < 2 ^ 31"
  shows "\<exists>old hp' t'. table_insert alloc hp t a = Some (old, hp', t') \<and> frame hp' = frame hp \<and>
    (case old of
       None \<Rightarrow> table_rep hp' t' (insert a S) \<and> (\<forall>b \<in> S. hid hp b \<noteq> Some (hash, key))
     | Some b \<Rightarrow> b \<in> S \<and> hid hp b = Some (hash, key) \<and> table_rep hp' t' (insert a (S - {b})))"
proof -
  from rep obtain chs where inv: "table_inv hp t chs" and S: "S = set (concat chs)"
    by (auto simp: table_rep_def)
  have a: "a \<notin> set (concat chs)" using a S by simp
  from id obtain h where h: "hp a = Some h" "h_hash h = hash" "handle_key hp a = Some key"
    by (auto simp: hid_Some_iff)
  define i where i_def: "i = bucket_of hash (t_length t)"
  obtain xs ys where fp: "find_pointer hp t key hash = Some (slot_after (Bucket i) xs)"
    and get: "slot_get hp t (slot_after (Bucket i) xs) = Some (if ys = [] then None else Some (hd ys))"
    and found: "ys \<noteq> [] \<Longrightarrow> hid hp (hd ys) = Some (hash, key) \<and> hd ys \<in> set (concat chs)"
    using find_pointer_split [OF inv i_def, where key = key] by metis
  let ?s = "slot_after (Bucket i) xs" and ?old = "if ys = [] then None else Some (hd ys)"
  obtain q where q: "(case ?old of None \<Rightarrow> Some None | Some b \<Rightarrow> map_option h_next_hash (hp b)) = Some q"
    using found by (cases ys) (auto simp: hid_Some_iff)
  obtain hp' t' chs' where set: "slot_set (hp(a \<mapsto> h\<lparr>h_next_hash := q\<rparr>)) t ?s (Some a) = Some (hp', t')"
    and fr: "frame hp' = frame hp" and te: "t_elems t' = t_elems t"
    and S': "set (concat chs') = insert a (case ?old of None \<Rightarrow> set (concat chs) | Some b \<Rightarrow> set (concat chs) - {b})"
    and inv': "\<And>e. unat e = length (concat chs') \<Longrightarrow> table_inv hp' (t'\<lparr>t_elems := e\<rparr>) chs'"
    and len: "length (concat chs') = (if ?old = None then Suc (length (concat chs)) else length (concat chs))"
    and match: "(case ?old of None \<Rightarrow> \<forall>b \<in> set (concat chs). hid hp b \<noteq> Some (hash, key)
       | Some b \<Rightarrow> b \<in> set (concat chs) \<and> hid hp b = Some (hash, key))"
    using table_link [OF inv a h(1) id i_def fp get q] by blast
  have el: "unat (t_elems t) = length (concat chs)" using inv by (simp add: table_inv_def)
  have cardS: "length (concat chs) = card S"
    using distinct_card [OF table_inv_distinct [OF inv]] S by simp
  show ?thesis
  proof (cases "ys = []")
    case False
    have "t'\<lparr>t_elems := t_elems t\<rparr> = t'" using te by simp
    then have "table_inv hp' t' chs'" using inv' [of "t_elems t"] el len False by simp
    then have "table_rep hp' t' (insert a (S - {hd ys}))"
      by (rule table_repI) (use S' S False in simp)
    moreover obtain g where "hp (hd ys) = Some g" "h_next_hash g = q" using q False by auto
    ultimately show ?thesis using fp get h set fr match False S
      by (simp add: table_insert_def upd_def)
  next
    case True
    let ?t = "t'\<lparr>t_elems := t_elems t' + 1\<rparr>"
    have "unat (t_elems t' + 1) = Suc (card S)"
      using te el cardS card by (subst unat_plus_simple [THEN iffD1])
        (simp_all add: word_le_nat_alt unat_word_ariths)
    then have "table_inv hp' ?t chs'" using inv' len True cardS by simp
    then have rep': "table_rep hp' ?t (insert a S)"
      by (rule table_repI) (use S' S True in simp)
    moreover have "card (insert a S) \<le> 2 ^ 31" using card S by (simp add: card_insert_if)
    ultimately obtain hp2 t2 where "resize alloc hp' ?t = Some (alloc, hp2, t2)" "frame hp2 = frame hp'"
      "table_rep hp2 t2 (insert a S)" using resize_spec by metis
    then show ?thesis using fp get h q set fr match True S rep'
      by (simp add: table_insert_def upd_def Let_def)
  qed
qed

section \<open>Properties of the table\<close>

lemma table_lookup_unique:
  assumes "table_rep hp t S"
  shows "table_lookup hp t key hash =
    Some (if \<exists>a \<in> S. hid hp a = Some (hash, key) then Some (THE a. a \<in> S \<and> hid hp a = Some (hash, key)) else None)"
proof -
  from assms obtain chs where inv: "table_inv hp t chs" and S: "S = set (concat chs)"
    by (auto simp: table_rep_def)
  then have inj: "inj_on (hid hp) S" by (simp add: table_inv_def)
  have the: "(THE a. a \<in> S \<and> hid hp a = Some (hash, key)) = b"
    if "b \<in> S" "hid hp b = Some (hash, key)" for b
  proof (rule the_equality)
    show "a = b" if "a \<in> S \<and> hid hp a = Some (hash, key)" for a
      using that \<open>b \<in> S\<close> \<open>hid hp b = Some (hash, key)\<close> inj_onD [OF inj, of a b] by simp
  qed (use that in simp)
  obtain r where r: "table_lookup hp t key hash = Some r" "case r of None \<Rightarrow> \<forall>a \<in> S. hid hp a \<noteq> Some (hash, key)
     | Some a \<Rightarrow> a \<in> S \<and> hid hp a = Some (hash, key)"
    using table_lookup_spec [OF assms] by blast
  show ?thesis
  proof (cases r)
    case None
    with r show ?thesis by auto
  next
    case (Some a)
    with r the [of a] show ?thesis by auto
  qed
qed

text \<open>
  C18: resizing the hash table changes the bucket array and every chain, yet \<^verbatim>\<open>lookup\<close> gives for
  every key and hash the handle it gave before.
\<close>

theorem resize_preserves_lookups:
  assumes "table_rep hp t S" and "card S \<le> 2 ^ 31" and "resize alloc hp t = Some (grown, hp', t')"
  shows "table_lookup hp' t' key hash = table_lookup hp t key hash"
proof -
  have fr: "frame hp' = frame hp" and rep: "table_rep hp' t' S"
    using resize_spec [OF assms(1,2), of alloc] assms(3) by auto
  have "hid hp' a = hid hp a" for a by (rule frame_hid [OF fr])
  then show ?thesis using table_lookup_unique [OF rep] table_lookup_unique [OF assms(1)] by simp
qed

definition demo_heap :: heap where
  "demo_heap = [1 \<mapsto> \<lparr>h_value = None, h_next_hash = None, h_next = None, h_prev = None, h_charge = 1,
      h_key_data = [7], h_valid = True, h_refs = 1, h_hash = 5\<rparr>]"

definition demo_table :: handle_table where
  "demo_table = \<lparr>t_length = 4, t_elems = 1, t_list = [None, Some 1, None, None]\<rparr>"

lemma demo_table_rep: "table_rep demo_heap demo_table {1}"
proof (rule table_repI)
  have b: "bucket_of 5 4 = 1" by (simp add: bucket_of_def)
  have id: "hid demo_heap 1 = Some (5, [7])" by (simp add: hid_def demo_heap_def handle_key_def)
  have hb: "hbucket demo_heap 4 1 = 1" using b by (simp add: hbucket_def demo_heap_def)
  have ch: "chain (nh demo_heap) (Some 1) [1]" by (simp add: nh_def demo_heap_def)
  show "table_inv demo_heap demo_table [[], [1], [], []]"
    using id hb ch by (simp add: table_inv_def chains_ok_def demo_table_def All_less_Suc)
qed simp

lemma grow_result:
  assumes "grow elems len = Some r" and "len = 0 \<or> (\<exists>k \<le> 31. unat len = 2 ^ k)"
  shows "elems \<le> r \<and> (r = 0 \<or> (\<exists>k \<le> 31. unat r = 2 ^ k))"
proof -
  have "len = 0 \<or> (\<exists>k \<le> 31. unat len = 2 ^ k) \<longrightarrow> elems \<le> r \<and> (r = 0 \<or> (\<exists>k \<le> 31. unat r = 2 ^ k))"
  proof (rule grow.raw_induct [OF _ assms(1)])
    fix g :: "u32 \<Rightarrow> u32 \<Rightarrow> u32 option" and e l r
    assume IH: "\<And>e l r. g e l = Some r \<Longrightarrow>
        l = 0 \<or> (\<exists>k \<le> 31. unat l = 2 ^ k) \<longrightarrow> e \<le> r \<and> (r = 0 \<or> (\<exists>k \<le> 31. unat r = 2 ^ k))"
      and r: "(if l < e then g e (l * 2) else Some l) = Some r"
    have double: "l * 2 = 0 \<or> (\<exists>k \<le> 31. unat (l * 2) = 2 ^ k)" if l: "l = 0 \<or> (\<exists>k \<le> 31. unat l = 2 ^ k)"
    proof (cases "l = 0")
      case False
      then obtain k where k: "k \<le> 31" "unat l = 2 ^ k" using l by auto
      have m: "unat (l * 2) = (2 ^ Suc k) mod 2 ^ 32" using k(2) by (simp add: unat_word_ariths mult.commute)
      show ?thesis
      proof (cases "k = 31")
        case True
        then show ?thesis using m by (simp add: unat_eq_zero [symmetric] del: unat_eq_zero)
      next
        case False
        then have "Suc k \<le> 31" using k(1) by simp
        moreover then have "(2::nat) ^ Suc k < 2 ^ 32" by (intro power_strict_increasing) auto
        ultimately show ?thesis using m by (metis mod_less)
      qed
    qed simp
    show "l = 0 \<or> (\<exists>k \<le> 31. unat l = 2 ^ k) \<longrightarrow> e \<le> r \<and> (r = 0 \<or> (\<exists>k \<le> 31. unat r = 2 ^ k))"
      using IH [of e "l * 2" r] double r by (auto simp: word_gt_0 not_less split: if_splits)
  qed
  with assms(2) show ?thesis by blast
qed

text \<open>
  C36: \<^verbatim>\<open>_resize\<close> never returns once the table counts more than \<open>2 ^ 31\<close> handles: the 32-bit
  \<^verbatim>\<open>new_length\<close> doubles to zero and stays there.
\<close>

theorem resize_diverges:
  assumes "2 ^ 31 < unat (t_elems t)"
  shows "resize alloc hp t = None"
proof (cases "grow (t_elems t) 4")
  case None
  then show ?thesis by (simp add: resize_def)
next
  case (Some r)
  have "(4 :: u32) = 0 \<or> (\<exists>k \<le> 31. unat (4 :: u32) = 2 ^ k)"
    by (intro disjI2 exI [of _ 2]) simp
  then have r: "t_elems t \<le> r \<and> (r = 0 \<or> (\<exists>k \<le> 31. unat r = 2 ^ k))"
    by (rule grow_result [OF Some])
  have "unat r \<le> 2 ^ 31"
  proof (cases "r = 0")
    case False
    then obtain k where "k \<le> 31" "unat r = 2 ^ k" using r by blast
    then show ?thesis using power_increasing [of k 31 "2 :: nat"] by simp
  qed simp
  then have False using assms r by (simp add: word_le_nat_alt)
  then show ?thesis ..
qed

theorem resize_diverges_witness:
  "resize True Map.empty \<lparr>t_length = 4, t_elems = 0x80000001, t_list = []\<rparr> = None"
  by (rule resize_diverges) simp

theorem resize_preserves_lookups_witness:
  "\<exists>hp' t'. resize True demo_heap demo_table = Some (True, hp', t') \<and>
     table_lookup hp' t' [7] 5 = table_lookup demo_heap demo_table [7] 5"
proof -
  have c: "card {1 :: nat} \<le> 2 ^ 31" by simp
  obtain hp' t' where r: "resize True demo_heap demo_table = Some (True, hp', t')"
    using resize_spec [OF demo_table_rep c, of True] by blast
  then show ?thesis using resize_preserves_lookups [OF demo_table_rep c r, of "[7]" 5] by blast
qed

end
