(* ===== verification/LruContainer.thy ===== *)
theory LruContainer
  imports HandleTable
begin

text \<open>
  \<^verbatim>\<open>LRUContainer\<close> of \<^verbatim>\<open>src/utils/lru_container.{h,cpp}\<close>, one shard: the hash table, the circular doubly
  linked list through \<^verbatim>\<open>next\<close> and \<^verbatim>\<open>prev\<close> whose dummy head \<^verbatim>\<open>_lru\<close> is the cell at address 0, the
  reference counts and the usage. Each operation runs under \<^verbatim>\<open>_mutex\<close>, so it is one step. \<open>None\<close> is
  undefined behaviour or a failed \<^verbatim>\<open>DCHECK\<close>. \<^verbatim>\<open>malloc\<close> is the address \<open>a\<close> given to \<open>lru_insert\<close>; \<^verbatim>\<open>free()\<close>
  takes the cell from the heap and logs the deleter's call.

  The second half states the container as a map and a list (\<open>lru_abs\<close>) and proves that every
  operation on the pointers is defined and simulates the operation on the map and the list.
\<close>

unbundle bit_operations_syntax

record lru_container =
  c_heap :: heap
  c_table :: handle_table
  c_usage :: u64
  c_lookups :: u64
  c_freed :: "(lru_key \<times> lru_key option) list"

definition null_handle :: lru_handle where
  "null_handle = \<lparr>h_value = None, h_next_hash = None, h_next = None, h_prev = None, h_charge = 0,
     h_key_data = [], h_valid = False, h_refs = 0, h_hash = 0\<rparr>"

text \<open>The constructor makes an empty circular list; the table gets its first buckets.\<close>

definition lru_new :: "bool \<Rightarrow> lru_container option" where
  "lru_new alloc =
     do { (_, hp, t) \<leftarrow> table_new alloc [0 \<mapsto> null_handle\<lparr>h_next := Some 0, h_prev := Some 0\<rparr>];
          Some \<lparr>c_heap = hp, c_table = t, c_usage = 0, c_lookups = 0, c_freed = []\<rparr> }"

definition lru_upd :: "addr \<Rightarrow> (lru_handle \<Rightarrow> lru_handle) \<Rightarrow> lru_container \<Rightarrow> lru_container option" where
  "lru_upd a f c = do { hp \<leftarrow> upd a f (c_heap c); Some (c\<lparr>c_heap := hp\<rparr>) }"

definition handle_free :: "addr \<Rightarrow> lru_container \<Rightarrow> lru_container option" where
  "handle_free a c =
     do { h \<leftarrow> c_heap c a;
          k \<leftarrow> handle_key (c_heap c) a;
          Some (c\<lparr>c_heap := (c_heap c)(a := None), c_freed := c_freed c @ [(k, h_value h)]\<rparr>) }"

definition lru_unref :: "addr \<Rightarrow> lru_container \<Rightarrow> (bool \<times> lru_container) option" where
  "lru_unref e c =
     do { h \<leftarrow> c_heap c e;
          guard (0 < h_refs h);
          c \<leftarrow> lru_upd e (\<lambda>h. h\<lparr>h_refs := h_refs h - 1\<rparr>) c;
          Some (h_refs h - 1 = 0, c) }"

definition lru_remove :: "addr \<Rightarrow> lru_container \<Rightarrow> lru_container option" where
  "lru_remove e c =
     do { h \<leftarrow> c_heap c e;
          n \<leftarrow> h_next h;
          c \<leftarrow> lru_upd n (h_prev_update (\<lambda>_. h_prev h)) c;
          h \<leftarrow> c_heap c e;
          p \<leftarrow> h_prev h;
          c \<leftarrow> lru_upd p (h_next_update (\<lambda>_. h_next h)) c;
          lru_upd e (\<lambda>h. h\<lparr>h_prev := None, h_next := None\<rparr>) c }"

definition lru_append :: "addr \<Rightarrow> addr \<Rightarrow> lru_container \<Rightarrow> lru_container option" where
  "lru_append list e c =
     do { c \<leftarrow> lru_upd e (h_next_update (\<lambda>_. Some list)) c;
          l \<leftarrow> c_heap c list;
          c \<leftarrow> lru_upd e (h_prev_update (\<lambda>_. h_prev l)) c;
          h \<leftarrow> c_heap c e;
          p \<leftarrow> h_prev h;
          c \<leftarrow> lru_upd p (h_next_update (\<lambda>_. Some e)) c;
          h \<leftarrow> c_heap c e;
          n \<leftarrow> h_next h;
          lru_upd n (h_prev_update (\<lambda>_. Some e)) c }"

definition get_lookup_count :: "lru_container \<Rightarrow> u64" where
  "get_lookup_count c = c_lookups c"

definition get_usage :: "lru_container \<Rightarrow> u64" where
  "get_usage c = c_usage c"

definition lru_lookup :: "lru_key \<Rightarrow> u32 \<Rightarrow> lru_container \<Rightarrow> (addr option \<times> lru_container) option" where
  "lru_lookup key hash c =
     do { let c = c\<lparr>c_lookups := c_lookups c + 1\<rparr>;
          r \<leftarrow> table_lookup (c_heap c) (c_table c) key hash;
          (case r of
             None \<Rightarrow> Some (None, c)
           | Some e \<Rightarrow>
               do { h \<leftarrow> c_heap c e;
                    guard (h_valid h);
                    c \<leftarrow> (if h_refs h = 1 then lru_remove e c else Some c);
                    c \<leftarrow> lru_upd e (\<lambda>h. h\<lparr>h_refs := h_refs h + 1\<rparr>) c;
                    Some (Some e, c) }) }"

definition lru_release :: "addr option \<Rightarrow> lru_container \<Rightarrow> lru_container option" where
  "lru_release handle c =
     (case handle of
        None \<Rightarrow> Some c
      | Some e \<Rightarrow>
          do { (last_ref, c) \<leftarrow> lru_unref e c;
               h \<leftarrow> c_heap c e;
               c \<leftarrow> (if last_ref then Some (c\<lparr>c_usage := c_usage c - h_charge h\<rparr>)
                    else if h_valid h \<and> h_refs h = 1 then lru_append 0 e c
                    else Some c);
               (if last_ref then handle_free e c else Some c) })"

definition evict_one_entry :: "addr \<Rightarrow> lru_container \<Rightarrow> lru_container option" where
  "evict_one_entry e c =
     do { h \<leftarrow> c_heap c e;
          guard (h_valid h);
          guard (h_refs h = 1);
          c \<leftarrow> lru_remove e c;
          k \<leftarrow> handle_key (c_heap c) e;
          h \<leftarrow> c_heap c e;
          (_, hp, t) \<leftarrow> table_remove (c_heap c) (c_table c) k (h_hash h);
          let c = c\<lparr>c_heap := hp, c_table := t\<rparr>;
          c \<leftarrow> lru_upd e (h_valid_update (\<lambda>_. False)) c;
          (_, c) \<leftarrow> lru_unref e c;
          h \<leftarrow> c_heap c e;
          Some (c\<lparr>c_usage := c_usage c - h_charge h\<rparr>) }"

partial_function (option) evict_from_lru ::
    "u64 \<Rightarrow> u64 \<Rightarrow> addr list \<Rightarrow> lru_container \<Rightarrow> (addr list \<times> lru_container) option" where
  "evict_from_lru charge evicted_size evicted c =
     do { cur \<leftarrow> c_heap c 0;
          (if evicted_size < charge \<and> h_next cur \<noteq> Some 0 then
             do { old \<leftarrow> h_next cur;
                  c \<leftarrow> evict_one_entry old c;
                  h \<leftarrow> c_heap c old;
                  evict_from_lru charge (evicted_size + h_charge h) (evicted @ [old]) c }
           else Some (evicted, c)) }"

definition lru_evict :: "u64 \<Rightarrow> addr list \<Rightarrow> lru_container \<Rightarrow> (addr list \<times> lru_container) option" where
  "lru_evict charge evicted c = evict_from_lru charge 0 evicted c"

definition free_all :: "addr list \<Rightarrow> lru_container \<Rightarrow> lru_container option" where
  "free_all es c = fold_opt handle_free es c"

definition lru_insert ::
    "bool \<Rightarrow> addr \<Rightarrow> lru_key \<Rightarrow> u32 \<Rightarrow> u64 \<Rightarrow> lru_key option \<Rightarrow> lru_container \<Rightarrow>
       (addr \<times> lru_container) option" where
  "lru_insert alloc a key hash charge value c =
     do { let e = \<lparr>h_value = value, h_next_hash = None, h_next = None, h_prev = None, h_charge = charge,
                   h_key_data = key, h_valid = True, h_refs = 2, h_hash = hash\<rparr>;
          (old, hp, t) \<leftarrow> table_insert alloc ((c_heap c)(a \<mapsto> e)) (c_table c) a;
          let c = c\<lparr>c_heap := hp, c_table := t, c_usage := c_usage c + charge\<rparr>;
          (last_ref_list, c) \<leftarrow>
            (case old of
               None \<Rightarrow> Some ([], c)
             | Some old \<Rightarrow>
                 do { c \<leftarrow> lru_upd old (h_valid_update (\<lambda>_. False)) c;
                      (last_ref, c) \<leftarrow> lru_unref old c;
                      (if last_ref then
                         do { h \<leftarrow> c_heap c old;
                              c \<leftarrow> lru_remove old (c\<lparr>c_usage := c_usage c - h_charge h\<rparr>);
                              Some ([old], c) }
                       else Some ([], c)) });
          c \<leftarrow> free_all last_ref_list c;
          Some (a, c) }"

definition lru_erase :: "lru_key \<Rightarrow> u32 \<Rightarrow> lru_container \<Rightarrow> lru_container option" where
  "lru_erase key hash c =
     do { (r, hp, t) \<leftarrow> table_remove (c_heap c) (c_table c) key hash;
          let c = c\<lparr>c_heap := hp, c_table := t\<rparr>;
          (case r of
             None \<Rightarrow> Some c
           | Some e \<Rightarrow>
               do { (last_ref, c) \<leftarrow> lru_unref e c;
                    h \<leftarrow> c_heap c e;
                    c \<leftarrow> (if last_ref then
                           (let c = c\<lparr>c_usage := c_usage c - h_charge h\<rparr>
                            in if h_valid h then lru_remove e c else Some c)
                         else Some c);
                    c \<leftarrow> lru_upd e (h_valid_update (\<lambda>_. False)) c;
                    (if last_ref then handle_free e c else Some c) }) }"

partial_function (option) prune_from ::
    "addr list \<Rightarrow> lru_container \<Rightarrow> (addr list \<times> lru_container) option" where
  "prune_from last_ref_list c =
     do { lru \<leftarrow> c_heap c 0;
          (if h_next lru \<noteq> Some 0 then
             do { old \<leftarrow> h_next lru;
                  c \<leftarrow> evict_one_entry old c;
                  prune_from (last_ref_list @ [old]) c }
           else Some (last_ref_list, c)) }"

text \<open>The loop body of \<^verbatim>\<open>prune\<close> repeats that of \<^verbatim>\<open>_evict_one_entry\<close> statement by statement.\<close>

definition lru_prune :: "lru_container \<Rightarrow> (nat \<times> lru_container) option" where
  "lru_prune c =
     do { (last_ref_list, c) \<leftarrow> prune_from [] c;
          c \<leftarrow> free_all last_ref_list c;
          Some (length last_ref_list, c) }"

section \<open>Circular lists\<close>

fun path :: "(addr \<Rightarrow> addr option) \<Rightarrow> (addr \<Rightarrow> addr option) \<Rightarrow> addr list \<Rightarrow> bool" where
  "path f g (x # y # zs) = (f x = Some y \<and> g y = Some x \<and> path f g (y # zs))"
| "path f g _ = True"

lemma path_append: "path f g (xs @ m # ys) = (path f g (xs @ [m]) \<and> path f g (m # ys))"
proof (induction xs)
  case (Cons x xs)
  then show ?case by (cases xs) auto
qed simp

lemma path_cong:
  "(\<And>x. x \<in> set (butlast xs) \<Longrightarrow> f' x = f x) \<Longrightarrow> (\<And>x. x \<in> set (tl xs) \<Longrightarrow> g' x = g x) \<Longrightarrow>
     path f' g' xs = path f g xs"
proof (induction f g xs rule: path.induct)
  case (1 f g x y zs)
  have "path f' g' (y # zs) = path f g (y # zs)"
    by (rule "1.IH") (use "1.prems" in \<open>auto dest: in_set_tl\<close>)
  then show ?case using "1.prems" by simp
qed simp_all

text \<open>\<open>ring f g xs\<close>: the list from the dummy head through \<open>xs\<close> (oldest first) back to it.\<close>

definition ring :: "(addr \<Rightarrow> addr option) \<Rightarrow> (addr \<Rightarrow> addr option) \<Rightarrow> addr list \<Rightarrow> bool" where
  "ring f g xs \<longleftrightarrow> path f g (0 # xs @ [0]) \<and> distinct (0 # xs)"

definition before :: "addr list \<Rightarrow> addr" where
  "before xs = last (0 # xs)"

definition after :: "addr list \<Rightarrow> addr" where
  "after ys = hd (ys @ [0])"

lemma ring_split:
  assumes "ring f g (xs @ e # ys)"
  shows "f e = Some (after ys)" and "g e = Some (before xs)"
    and "f (before xs) = Some e" and "g (after ys) = Some e"
proof -
  obtain us where us: "0 # xs = us @ [before xs]"
    unfolding before_def by (metis append_butlast_last_id list.distinct(1))
  obtain vs where vs: "ys @ [0] = after ys # vs"
    unfolding after_def by (cases ys) auto
  have "0 # (xs @ e # ys) @ [0] = us @ before xs # e # after ys # vs"
    using us vs by (metis append.assoc append_Cons append_Nil)
  then have "path f g (us @ before xs # e # after ys # vs)" using assms by (simp add: ring_def)
  then show "f e = Some (after ys)" "g e = Some (before xs)" "f (before xs) = Some e" "g (after ys) = Some e"
    by (subst (asm) path_append; simp)+
qed

lemma ring_remove:
  assumes r: "ring f g (xs @ e # ys)"
    and f': "\<And>a. f' a = (if a = before xs then Some (after ys) else if a = e then None else f a)"
    and g': "\<And>a. g' a = (if a = after ys then Some (before xs) else if a = e then None else g a)"
  shows "ring f' g' (xs @ ys)"
proof -
  obtain us where us: "0 # xs = us @ [before xs]"
    unfolding before_def by (metis append_butlast_last_id list.distinct(1))
  obtain vs where vs: "ys @ [0] = after ys # vs"
    unfolding after_def by (cases ys) auto
  have all: "0 # (xs @ e # ys) @ [0] = us @ before xs # e # after ys # vs"
    using us vs by (metis append.assoc append_Cons append_Nil)
  have d: "distinct (0 # xs @ e # ys)" using r by (simp add: ring_def)
  have "path f g (us @ before xs # e # after ys # vs)" using r all by (simp add: ring_def)
  then have p: "path f g (us @ [before xs])" "path f g (after ys # vs)"
    by (subst (asm) path_append; simp)+
  have tlu: "tl (us @ [before xs]) = xs" and blu: "butlast (us @ [before xs]) = us"
    using us by (metis list.sel(3), simp)
  have blv: "butlast (after ys # vs) = ys" using vs by (metis butlast_snoc)
  have vs_mem: "set vs \<subseteq> insert 0 (set ys)"
    using arg_cong [OF vs, of set] by auto
  have after_mem: "after ys \<in> insert 0 (set ys)" by (cases ys) (simp_all add: after_def)
  have before_mem: "before xs \<in> insert 0 (set xs)" using us by (metis in_set_conv_decomp set_simps(2))
  have dus: "distinct (us @ [before xs])" "set us \<subseteq> insert 0 (set xs)"
    using d us by (metis distinct_append append_Cons, metis Un_upper1 set_append set_simps(2))
  have dvs: "distinct (after ys # vs)"
    using d unfolding vs [symmetric] by auto
  have "path f' g' (us @ [before xs])"
  proof (subst path_cong [of _ f' f g' g])
    show "f' x = f x" if "x \<in> set (butlast (us @ [before xs]))" for x
      using that dus d f' [of x] unfolding blu by auto
    show "g' x = g x" if "x \<in> set (tl (us @ [before xs]))" for x
      using that after_mem d g' [of x] unfolding tlu by auto
  qed (rule p)
  moreover have "path f' g' (after ys # vs)"
  proof (subst path_cong [of _ f' f g' g])
    show "f' x = f x" if "x \<in> set (butlast (after ys # vs))" for x
      using that before_mem d f' [of x] unfolding blv by auto
    show "g' x = g x" if "x \<in> set (tl (after ys # vs))" for x
      using that dvs vs_mem d g' [of x] by auto
  qed (rule p)
  moreover have "f' (before xs) = Some (after ys)" "g' (after ys) = Some (before xs)"
    using f' g' by simp_all
  ultimately have "path f' g' (us @ before xs # after ys # vs)"
    by (subst path_append) simp
  moreover have "0 # (xs @ ys) @ [0] = us @ before xs # after ys # vs"
    using us vs by (metis append.assoc append_Cons append_Nil)
  ultimately show ?thesis using d by (simp add: ring_def)
qed

lemma ring_append:
  assumes r: "ring f g xs" and e: "e \<notin> set (0 # xs)"
    and f': "\<And>a. f' a = (if a = e then Some 0 else if a = before xs then Some e else f a)"
    and g': "\<And>a. g' a = (if a = 0 then Some e else if a = e then Some (before xs) else g a)"
  shows "ring f' g' (xs @ [e])"
proof -
  have de: "distinct (0 # xs @ [e])" using r e by (auto simp: ring_def)
  obtain us where us: "0 # xs = us @ [before xs]"
    unfolding before_def by (metis append_butlast_last_id list.distinct(1))
  have d: "distinct (0 # xs)" using r by (simp add: ring_def)
  have all: "0 # xs @ [0] = us @ before xs # [0]" using us by (metis append.assoc append_Cons append_Nil)
  have "path f g (0 # xs @ [0])" using r by (simp add: ring_def)
  then have "path f g (us @ before xs # [0])" unfolding all .
  then have p: "path f g (us @ [before xs])" by (subst (asm) path_append) simp
  have tlu: "tl (us @ [before xs]) = xs" and blu: "butlast (us @ [before xs]) = us"
    using us by (metis list.sel(3), simp)
  have dus: "distinct (us @ [before xs])" "set (us @ [before xs]) = insert 0 (set xs)"
    using d unfolding us [symmetric] by simp_all
  have "path f' g' (us @ [before xs])"
  proof (subst path_cong [of _ f' f g' g])
    show "f' x = f x" if "x \<in> set (butlast (us @ [before xs]))" for x
      using that dus e f' [of x] unfolding blu by auto
    show "g' x = g x" if "x \<in> set (tl (us @ [before xs]))" for x
      using that e d g' [of x] unfolding tlu by auto
  qed (rule p)
  moreover have "before xs \<noteq> e" using dus e by auto
  ultimately have "path f' g' (us @ before xs # [e, 0])"
    using f' g' e by (subst path_append) auto
  moreover have "0 # (xs @ [e]) @ [0] = us @ before xs # [e, 0]"
    using us by (metis append.assoc append_Cons append_Nil)
  ultimately have "path f' g' (0 # (xs @ [e]) @ [0])" by (simp only:)
  then show ?thesis using de unfolding ring_def by blast
qed

section \<open>Views of the heap\<close>

text \<open>
  What the list, the table and the accounting each see of the heap: the two links, and the handle
  without any of its links. (\<open>nh\<close> and \<open>hid\<close> are the table's.)
\<close>

definition nx :: "heap \<Rightarrow> addr \<Rightarrow> addr option" where
  "nx hp a = (case hp a of None \<Rightarrow> None | Some h \<Rightarrow> h_next h)"

definition pv :: "heap \<Rightarrow> addr \<Rightarrow> addr option" where
  "pv hp a = (case hp a of None \<Rightarrow> None | Some h \<Rightarrow> h_prev h)"

definition core :: "lru_handle \<Rightarrow> lru_handle" where
  "core h = h\<lparr>h_next_hash := None, h_next := None, h_prev := None\<rparr>"

definition cells :: "heap \<Rightarrow> addr \<Rightarrow> lru_handle option" where
  "cells hp a = map_option core (hp a)"

lemma core_simps [simp]:
  "h_value (core h) = h_value h" "h_charge (core h) = h_charge h" "h_key_data (core h) = h_key_data h"
  "h_valid (core h) = h_valid h" "h_refs (core h) = h_refs h" "h_hash (core h) = h_hash h"
  "core (h_next_update f h) = core h" "core (h_prev_update f h) = core h"
  "core (h_refs_update r h) = h_refs_update r (core h)"
  "core (h_valid_update v h) = h_valid_update v (core h)"
  "core (core h) = core h"
  by (simp_all add: core_def)

lemma views_upd [simp]:
  "nx (hp(a \<mapsto> h)) = (nx hp)(a := h_next h)" "pv (hp(a \<mapsto> h)) = (pv hp)(a := h_prev h)"
  "cells (hp(a \<mapsto> h)) = (cells hp)(a \<mapsto> core h)"
  by (auto simp: nx_def pv_def cells_def)

lemma cells_SomeD: "cells hp a = Some k \<Longrightarrow> \<exists>h. hp a = Some h \<and> k = core h"
  by (auto simp: cells_def)

lemma nx_SomeD: "nx hp a = Some b \<Longrightarrow> \<exists>h. hp a = Some h \<and> h_next h = Some b"
  by (auto simp: nx_def split: option.splits)

lemma upd_next:
  assumes "hp a \<noteq> None"
  shows "\<exists>hp'. upd a (h_next_update (\<lambda>_. q)) hp = Some hp' \<and> nx hp' = (nx hp)(a := q) \<and> pv hp' = pv hp \<and>
    cells hp' = cells hp \<and> nh hp' = nh hp \<and> (\<forall>b. b \<noteq> a \<longrightarrow> hp' b = hp b)"
proof -
  from assms obtain h where h: "hp a = Some h" by blast
  then have "(pv hp)(a := h_prev h) = pv hp" "(cells hp)(a \<mapsto> core h) = cells hp"
    "(nh hp)(a \<mapsto> h_next_hash h) = nh hp"
    by (auto simp: pv_def cells_def nh_def)
  with h show ?thesis by (simp add: upd_def)
qed

lemma upd_prev:
  assumes "hp a \<noteq> None"
  shows "\<exists>hp'. upd a (h_prev_update (\<lambda>_. q)) hp = Some hp' \<and> nx hp' = nx hp \<and> pv hp' = (pv hp)(a := q) \<and>
    cells hp' = cells hp \<and> nh hp' = nh hp \<and> (\<forall>b. b \<noteq> a \<longrightarrow> hp' b = hp b)"
proof -
  from assms obtain h where h: "hp a = Some h" by blast
  then have "(nx hp)(a := h_next h) = nx hp" "(cells hp)(a \<mapsto> core h) = cells hp"
    "(nh hp)(a \<mapsto> h_next_hash h) = nh hp"
    by (auto simp: nx_def cells_def nh_def)
  with h show ?thesis by (simp add: upd_def)
qed

lemma upd_unlink:
  assumes "hp a \<noteq> None"
  shows "\<exists>hp'. upd a (\<lambda>h. h\<lparr>h_prev := None, h_next := None\<rparr>) hp = Some hp' \<and>
    nx hp' = (nx hp)(a := None) \<and> pv hp' = (pv hp)(a := None) \<and>
    cells hp' = cells hp \<and> nh hp' = nh hp \<and> (\<forall>b. b \<noteq> a \<longrightarrow> hp' b = hp b)"
proof -
  from assms obtain h where h: "hp a = Some h" by blast
  then have "(cells hp)(a \<mapsto> core h) = cells hp" "(nh hp)(a \<mapsto> h_next_hash h) = nh hp"
    by (auto simp: cells_def nh_def)
  with h show ?thesis by (simp add: upd_def)
qed

text \<open>Unlinking a member, and linking a handle in front of the dummy head.\<close>

lemma ring_members: "ring f g xs \<Longrightarrow> a \<in> set (0 # xs) \<Longrightarrow> f a \<noteq> None"
proof -
  have "path f g ys \<Longrightarrow> a \<in> set (butlast ys) \<Longrightarrow> f a \<noteq> None" for ys
    by (induction f g ys rule: path.induct) (auto split: if_splits)
  moreover have "butlast (0 # xs @ [0]) = 0 # xs" by (simp add: butlast_append)
  moreover assume "ring f g xs" "a \<in> set (0 # xs)"
  ultimately show ?thesis unfolding ring_def by metis
qed

lemma ring_dom: "ring (nx hp) g xs \<Longrightarrow> a \<in> set (0 # xs) \<Longrightarrow> hp a \<noteq> None"
  using ring_members [of "nx hp" g xs a] by (auto simp: nx_def split: option.splits)

lemma lru_remove_spec:
  assumes r: "ring (nx (c_heap c)) (pv (c_heap c)) (xs @ e # ys)"
  shows "\<exists>hp'. lru_remove e c = Some (c\<lparr>c_heap := hp'\<rparr>) \<and> ring (nx hp') (pv hp') (xs @ ys) \<and>
    nx hp' e = None \<and> pv hp' e = None \<and> (\<forall>a. a \<notin> set (0 # xs @ e # ys) \<longrightarrow> hp' a = c_heap c a) \<and>
    cells hp' = cells (c_heap c) \<and> nh hp' = nh (c_heap c)"
proof -
  let ?hp = "c_heap c" and ?n = "after ys" and ?p = "before xs"
  note sp = ring_split [OF r]
  have d: "distinct (0 # xs @ e # ys)" using r by (simp add: ring_def)
  have nm: "?n \<in> insert 0 (set ys)" and pm: "?p \<in> insert 0 (set xs)"
    by (cases ys; simp add: after_def) (simp add: before_def)
  then have ne: "?n \<noteq> e" "?p \<noteq> e" using d by auto
  have dom: "?hp a \<noteq> None" if "a \<in> set (0 # xs @ e # ys)" for a
    by (rule ring_dom [OF r that])
  have "?hp ?n \<noteq> None" "?hp ?p \<noteq> None" "?hp e \<noteq> None" using dom nm pm by auto
  then obtain h where h: "?hp e = Some h" by blast
  then have hn: "h_next h = Some ?n" and hp: "h_prev h = Some ?p" using sp by (simp_all add: nx_def pv_def)
  obtain hp1 where 1: "upd ?n (h_prev_update (\<lambda>_. h_prev h)) ?hp = Some hp1" "nx hp1 = nx ?hp"
    "pv hp1 = (pv ?hp)(?n := h_prev h)" "cells hp1 = cells ?hp" "nh hp1 = nh ?hp"
    "\<And>b. b \<noteq> ?n \<Longrightarrow> hp1 b = ?hp b"
    using upd_prev [where hp = ?hp, OF \<open>?hp ?n \<noteq> None\<close>] by blast
  have "hp1 ?p \<noteq> None" using 1(4) \<open>?hp ?p \<noteq> None\<close> by (metis cells_def map_option_is_None)
  then obtain hp2 where 2: "upd ?p (h_next_update (\<lambda>_. h_next h)) hp1 = Some hp2"
    "nx hp2 = (nx hp1)(?p := h_next h)" "pv hp2 = pv hp1" "cells hp2 = cells hp1" "nh hp2 = nh hp1"
    "\<And>b. b \<noteq> ?p \<Longrightarrow> hp2 b = hp1 b"
    using upd_next by blast
  have e1: "hp1 e = Some h" "hp2 e = Some h" using 1(6) 2(6) ne h by metis+
  then obtain hp3 where 3: "upd e (\<lambda>h. h\<lparr>h_prev := None, h_next := None\<rparr>) hp2 = Some hp3"
    "nx hp3 = (nx hp2)(e := None)" "pv hp3 = (pv hp2)(e := None)" "cells hp3 = cells hp2"
    "nh hp3 = nh hp2" "\<And>b. b \<noteq> e \<Longrightarrow> hp3 b = hp2 b"
    using upd_unlink [of hp2 e] by blast
  have "lru_remove e c = Some (c\<lparr>c_heap := hp3\<rparr>)"
    using h hn hp 1(1) 2(1) e1 3(1) by (simp add: lru_remove_def lru_upd_def)
  moreover have "ring (nx hp3) (pv hp3) (xs @ ys)"
    by (rule ring_remove [OF r]) (use 1 2 3 hn hp ne in auto)
  moreover have "hp3 a = ?hp a" if "a \<notin> set (0 # xs @ e # ys)" for a
    using that nm pm 1(6) 2(6) 3(6) by (metis UnCI insert_iff list.set(2) set_append)
  ultimately show ?thesis using 1 2 3 by auto
qed

lemma lru_append_spec:
  assumes r: "ring (nx (c_heap c)) (pv (c_heap c)) xs" and e: "e \<notin> set (0 # xs)"
    and dom: "c_heap c e \<noteq> None"
  shows "\<exists>hp'. lru_append 0 e c = Some (c\<lparr>c_heap := hp'\<rparr>) \<and> ring (nx hp') (pv hp') (xs @ [e]) \<and>
    (\<forall>a. a \<notin> set (0 # xs @ [e]) \<longrightarrow> hp' a = c_heap c a) \<and>
    cells hp' = cells (c_heap c) \<and> nh hp' = nh (c_heap c)"
proof -
  let ?hp = "c_heap c" and ?p = "before xs"
  have pm: "?p \<in> insert 0 (set xs)" by (simp add: before_def)
  have pe: "?p \<noteq> e" "0 \<noteq> e" using pm e by auto
  have "?hp ?p \<noteq> None" "?hp 0 \<noteq> None" using ring_dom [OF r] pm by auto
  then obtain l where l: "?hp 0 = Some l" by blast
  have p0: "h_prev l = Some ?p"
  proof -
    have "path (nx ?hp) (pv ?hp) (0 # xs @ [0])" using r by (simp add: ring_def)
    moreover obtain us where "0 # xs = us @ [?p]"
      unfolding before_def by (metis append_butlast_last_id list.distinct(1))
    then have "0 # xs @ [0] = us @ ?p # [0]" by (metis append.assoc append_Cons append_Nil)
    ultimately have "pv ?hp 0 = Some ?p" using path_append [of "nx ?hp" "pv ?hp" us ?p "[0]"] by simp
    then show ?thesis using l by (simp add: pv_def)
  qed
  obtain hp1 where 1: "upd e (h_next_update (\<lambda>_. Some 0)) ?hp = Some hp1" "nx hp1 = (nx ?hp)(e := Some 0)"
    "pv hp1 = pv ?hp" "cells hp1 = cells ?hp" "nh hp1 = nh ?hp" "\<And>b. b \<noteq> e \<Longrightarrow> hp1 b = ?hp b"
    using upd_next [where hp = ?hp, OF dom] by blast
  have l1: "hp1 0 = Some l" using 1(6) pe l by metis
  have "hp1 e \<noteq> None" using 1(4) dom by (metis cells_def map_option_is_None)
  then obtain hp2 where 2: "upd e (h_prev_update (\<lambda>_. h_prev l)) hp1 = Some hp2" "nx hp2 = nx hp1"
    "pv hp2 = (pv hp1)(e := h_prev l)" "cells hp2 = cells hp1" "nh hp2 = nh hp1"
    "\<And>b. b \<noteq> e \<Longrightarrow> hp2 b = hp1 b"
    using upd_prev by blast
  have "hp2 e \<noteq> None" using 2(4) \<open>hp1 e \<noteq> None\<close> by (metis cells_def map_option_is_None)
  then obtain h2 where h2: "hp2 e = Some h2" by blast
  then have h2p: "h_prev h2 = Some ?p" and h2n: "h_next h2 = Some 0"
    using 1(2) 2(2,3) p0 by (auto simp: nx_def pv_def fun_eq_iff split: option.splits if_splits)
  have "hp2 ?p \<noteq> None" using 1(6) 2(6) pe \<open>?hp ?p \<noteq> None\<close> by metis
  then obtain hp3 where 3: "upd ?p (h_next_update (\<lambda>_. Some e)) hp2 = Some hp3"
    "nx hp3 = (nx hp2)(?p := Some e)" "pv hp3 = pv hp2" "cells hp3 = cells hp2" "nh hp3 = nh hp2"
    "\<And>b. b \<noteq> ?p \<Longrightarrow> hp3 b = hp2 b"
    using upd_next by blast
  have h3: "hp3 e = Some h2" using 3(6) pe h2 by metis
  have "hp3 0 \<noteq> None" using 2(4) 3(4) l1 by (metis cells_def map_option_is_None option.distinct(1))
  then obtain hp4 where 4: "upd 0 (h_prev_update (\<lambda>_. Some e)) hp3 = Some hp4" "nx hp4 = nx hp3"
    "pv hp4 = (pv hp3)(0 := Some e)" "cells hp4 = cells hp3" "nh hp4 = nh hp3"
    "\<And>b. b \<noteq> 0 \<Longrightarrow> hp4 b = hp3 b"
    using upd_prev by blast
  have "lru_append 0 e c = Some (c\<lparr>c_heap := hp4\<rparr>)"
    using 1(1) l1 2(1) h2 h2p 3(1) h3 h2n 4(1) by (simp add: lru_append_def lru_upd_def)
  moreover have "ring (nx hp4) (pv hp4) (xs @ [e])"
    by (rule ring_append [OF r e]) (use 1 2 3 4 p0 pe in auto)
  moreover have "hp4 a = ?hp a" if "a \<notin> set (0 # xs @ [e])" for a
    using that pm 1(6) 2(6) 3(6) 4(6) by (metis UnCI insert_iff list.set(1,2) set_append)
  ultimately show ?thesis using 1 2 3 4 by auto
qed

section \<open>The container as a map and a list\<close>

text \<open>
  The specification: the handles by address, the index from a hash and key to its handle, the
  handles that may be evicted from the oldest to the newest, the usage, and what has been freed.
\<close>

record lru_abs =
  a_cells :: "addr \<rightharpoonup> lru_handle"
  a_index :: "(u32 \<times> lru_key) \<rightharpoonup> addr"
  a_order :: "addr list"
  a_usage :: u64
  a_lookups :: u64
  a_freed :: "(lru_key \<times> lru_key option) list"

definition a_upd :: "addr \<Rightarrow> (lru_handle \<Rightarrow> lru_handle) \<Rightarrow> lru_abs \<Rightarrow> lru_abs" where
  "a_upd a f s = s\<lparr>a_cells := (a_cells s)(a := map_option f (a_cells s a))\<rparr>"

definition a_free :: "addr \<Rightarrow> lru_abs \<Rightarrow> lru_abs" where
  "a_free a s = (case a_cells s a of None \<Rightarrow> s
     | Some h \<Rightarrow> s\<lparr>a_cells := (a_cells s)(a := None), a_freed := a_freed s @ [(h_key_data h, h_value h)]\<rparr>)"

definition a_lookup :: "lru_key \<Rightarrow> u32 \<Rightarrow> lru_abs \<Rightarrow> addr option \<times> lru_abs" where
  "a_lookup key hash s =
     (let s = s\<lparr>a_lookups := a_lookups s + 1\<rparr> in
      case a_index s (hash, key) of
        None \<Rightarrow> (None, s)
      | Some e \<Rightarrow> (Some e, a_upd e (\<lambda>h. h\<lparr>h_refs := h_refs h + 1\<rparr>) (s\<lparr>a_order := remove1 e (a_order s)\<rparr>)))"

definition a_release :: "addr \<Rightarrow> lru_abs \<Rightarrow> lru_abs" where
  "a_release e s = (case a_cells s e of None \<Rightarrow> s
     | Some h \<Rightarrow>
         (let s = a_upd e (\<lambda>h. h\<lparr>h_refs := h_refs h - 1\<rparr>) s in
          if h_refs h = 1 then a_free e (s\<lparr>a_usage := a_usage s - h_charge h\<rparr>)
          else if h_valid h \<and> h_refs h = 2 then s\<lparr>a_order := a_order s @ [e]\<rparr>
          else s))"

text \<open>The container gives up its own reference to a handle that has left the index.\<close>

definition a_retire :: "addr \<Rightarrow> lru_abs \<Rightarrow> lru_abs" where
  "a_retire e s = (case a_cells s e of None \<Rightarrow> s
     | Some h \<Rightarrow>
         (let s = a_upd e (\<lambda>h. h\<lparr>h_valid := False, h_refs := h_refs h - 1\<rparr>) s in
          if h_refs h = 1 then
            a_free e (s\<lparr>a_order := remove1 e (a_order s), a_usage := a_usage s - h_charge h\<rparr>)
          else s))"

definition a_evict_one :: "addr \<Rightarrow> lru_abs \<Rightarrow> lru_abs" where
  "a_evict_one e s = (case a_cells s e of None \<Rightarrow> s
     | Some h \<Rightarrow>
         a_upd e (\<lambda>h. h\<lparr>h_valid := False, h_refs := h_refs h - 1\<rparr>)
           (s\<lparr>a_order := remove1 e (a_order s), a_index := (a_index s)((h_hash h, h_key_data h) := None),
              a_usage := a_usage s - h_charge h\<rparr>))"

definition a_charge :: "lru_abs \<Rightarrow> addr \<Rightarrow> u64" where
  "a_charge s a = (case a_cells s a of None \<Rightarrow> 0 | Some h \<Rightarrow> h_charge h)"

text \<open>How many of the oldest handles an eviction takes: until their charges reach the request.\<close>

fun evict_prefix :: "(addr \<Rightarrow> u64) \<Rightarrow> u64 \<Rightarrow> u64 \<Rightarrow> addr list \<Rightarrow> addr list" where
  "evict_prefix ch charge evicted_size [] = []"
| "evict_prefix ch charge evicted_size (a # as) =
     (if evicted_size < charge then a # evict_prefix ch charge (evicted_size + ch a) as else [])"

definition a_evict :: "u64 \<Rightarrow> lru_abs \<Rightarrow> addr list \<times> lru_abs" where
  "a_evict charge s =
     (let es = evict_prefix (a_charge s) charge 0 (a_order s) in (es, fold a_evict_one es s))"

definition a_insert :: "addr \<Rightarrow> lru_key \<Rightarrow> u32 \<Rightarrow> u64 \<Rightarrow> lru_key option \<Rightarrow> lru_abs \<Rightarrow> lru_abs" where
  "a_insert a key hash charge value s =
     (let e = null_handle\<lparr>h_value := value, h_charge := charge, h_key_data := key, h_valid := True,
                h_refs := 2, h_hash := hash\<rparr>;
          s' = s\<lparr>a_cells := (a_cells s)(a \<mapsto> e), a_index := (a_index s)((hash, key) \<mapsto> a),
                 a_usage := a_usage s + charge\<rparr>
      in case a_index s (hash, key) of None \<Rightarrow> s' | Some old \<Rightarrow> a_retire old s')"

definition a_erase :: "lru_key \<Rightarrow> u32 \<Rightarrow> lru_abs \<Rightarrow> lru_abs" where
  "a_erase key hash s = (case a_index s (hash, key) of None \<Rightarrow> s
     | Some e \<Rightarrow> a_retire e (s\<lparr>a_index := (a_index s)((hash, key) := None)\<rparr>))"

definition a_prune :: "lru_abs \<Rightarrow> nat \<times> lru_abs" where
  "a_prune s = (length (a_order s), fold a_free (a_order s) (fold a_evict_one (a_order s) s))"

section \<open>The simulation relation\<close>

definition linked :: "heap \<Rightarrow> addr list \<Rightarrow> bool" where
  "linked hp xs \<longleftrightarrow> ring (nx hp) (pv hp) xs \<and>
     (\<forall>a. a \<notin> set (0 # xs) \<longrightarrow> nx hp a = None \<and> pv hp a = None)"

definition cells_rel :: "heap \<Rightarrow> (addr \<rightharpoonup> lru_handle) \<Rightarrow> bool" where
  "cells_rel hp m \<longleftrightarrow> m = (cells hp)(0 := None)"

lemma cells_rel_cong: "cells hp' = cells hp \<Longrightarrow> cells_rel hp' m = cells_rel hp m"
  by (simp add: cells_rel_def)

definition index_rel :: "(u32 \<times> lru_key \<rightharpoonup> addr) \<Rightarrow> (addr \<rightharpoonup> lru_handle) \<Rightarrow> bool" where
  "index_rel idx m \<longleftrightarrow> (\<forall>hash key a. idx (hash, key) = Some a \<longrightarrow>
     (\<exists>h. m a = Some h \<and> h_hash h = hash \<and> h_key_data h = key))"

definition rel :: "lru_container \<Rightarrow> lru_abs \<Rightarrow> bool" where
  "rel c s \<longleftrightarrow> linked (c_heap c) (a_order s) \<and>
     cells_rel (c_heap c) (a_cells s) \<and> index_rel (a_index s) (a_cells s) \<and>
     table_rep (c_heap c) (c_table c) (ran (a_index s)) \<and>
     c_usage c = a_usage s \<and> c_lookups c = a_lookups s \<and> c_freed c = a_freed s"

lemma ring_no_self:
  assumes "ring f g xs" and "a \<in> set xs"
  shows "f a \<noteq> Some a"
proof -
  from assms(2) obtain us vs where xs: "xs = us @ a # vs" by (meson split_list)
  with assms(1) have "f a = Some (after vs)" by (simp add: ring_split)
  moreover have "after vs \<in> insert 0 (set vs)" by (cases vs) (simp_all add: after_def)
  moreover have "distinct (0 # us @ a # vs)" using assms(1) xs by (simp add: ring_def)
  ultimately show ?thesis by auto
qed

lemma linked_no_self: "linked hp xs \<Longrightarrow> a \<noteq> 0 \<Longrightarrow> nx hp a \<noteq> Some a"
  using ring_no_self [of "nx hp" "pv hp" xs a] by (cases "a \<in> set xs") (auto simp: linked_def)

text \<open>In a well-linked heap, the identity of a handle is a matter of its cell only.\<close>

lemma linked_hid:
  assumes "linked hp xs" and "a \<noteq> 0"
  shows "hid hp a = map_option (\<lambda>h. (h_hash h, h_key_data h)) (cells hp a)"
proof (cases "hp a")
  case (Some h)
  then have "h_next h \<noteq> Some a" using linked_no_self [OF assms] by (simp add: nx_def)
  with Some show ?thesis by (simp add: hid_def handle_key_def cells_def)
qed (simp add: hid_def cells_def)

lemma linked_handle_key:
  assumes "linked hp xs" and "a \<noteq> 0" and "hp a = Some h"
  shows "handle_key hp a = Some (h_key_data h)"
  using linked_no_self [OF assms(1,2)] assms(3) by (simp add: handle_key_def nx_def)

lemma table_rep_cong:
  assumes "table_rep hp t S" and "\<And>a. a \<in> S \<Longrightarrow> nh hp' a = nh hp a \<and> hid hp' a = hid hp a"
  shows "table_rep hp' t S"
proof -
  from assms(1) obtain chs where inv: "table_inv hp t chs" and S: "S = set (concat chs)"
    by (auto simp: table_rep_def)
  have mem: "a \<in> S" if "i < length chs" "a \<in> set (chs ! i)" for i a
    using that unfolding S set_concat_nth by blast
  have hb: "hbucket hp' (t_length t) a = hbucket hp (t_length t) a" if "a \<in> S" for a
  proof -
    have "hid hp a \<noteq> None" by (rule table_inv_hid [OF inv]) (use that S in simp)
    then obtain id where "hid hp a = Some id" by blast
    moreover then have "hid hp' a = Some id" using assms(2) that by simp
    ultimately show ?thesis by (cases id) (simp add: hid_bucket)
  qed
  have "chain (nh hp') (t_list t ! i) (chs ! i)" if "i < length chs" for i
  proof -
    have "chain (nh hp) (t_list t ! i) (chs ! i)" using inv that by (simp add: table_inv_def chains_ok_def)
    moreover have "nh hp' a = nh hp a" if "a \<in> set (chs ! i)" for a
      using assms(2) mem [OF \<open>i < length chs\<close> that] by simp
    ultimately show ?thesis using chain_cong by metis
  qed
  moreover have "inj_on (hid hp') (set (concat chs))"
    using inv assms(2) S unfolding table_inv_def by (metis inj_on_cong)
  moreover have "hid hp' a \<noteq> None" if "i < length chs" "a \<in> set (chs ! i)" for i a
    using inv that assms(2) mem [OF that] by (simp add: table_inv_def)
  ultimately have "table_inv hp' t chs"
    using inv hb mem unfolding table_inv_def chains_ok_def by (metis (no_types, lifting))
  then show ?thesis using S by (rule table_repI)
qed

text \<open>One rule for every step that leaves the chains alone.\<close>

lemma table_rep_linked:
  assumes "table_rep hp t S" and "linked hp xs" and "linked hp' xs'" and "0 \<notin> S"
    and "\<And>a. a \<in> S \<Longrightarrow> nh hp' a = nh hp a"
    and "\<And>a. a \<in> S \<Longrightarrow> map_option (\<lambda>h. (h_hash h, h_key_data h)) (cells hp' a) =
      map_option (\<lambda>h. (h_hash h, h_key_data h)) (cells hp a)"
  shows "table_rep hp' t S"
proof (rule table_rep_cong [OF assms(1)])
  fix a assume "a \<in> S"
  moreover then have "a \<noteq> 0" using assms(4) by metis
  ultimately show "nh hp' a = nh hp a \<and> hid hp' a = hid hp a"
    using assms(5,6) linked_hid [OF assms(2)] linked_hid [OF assms(3)] by simp
qed

lemma rel_cell:
  assumes "rel c s" and "a_cells s a = Some k"
  shows "a \<noteq> 0 \<and> (\<exists>h. c_heap c a = Some h \<and> k = core h)"
proof -
  have "a_cells s a = (if a = 0 then None else cells (c_heap c) a)"
    using assms(1) by (simp add: rel_def cells_rel_def)
  with assms(2) show ?thesis by (auto dest: cells_SomeD split: if_splits)
qed

lemma rel_index:
  assumes "rel c s" and "a_index s (hash, key) = Some a"
  shows "a \<noteq> 0 \<and> (\<exists>h. c_heap c a = Some h \<and> a_cells s a = Some (core h) \<and> h_hash h = hash \<and> h_key_data h = key)"
proof -
  from assms obtain k where "a_cells s a = Some k" "h_hash k = hash" "h_key_data k = key"
    unfolding rel_def index_rel_def by blast
  then show ?thesis using rel_cell [OF assms(1)] by fastforce
qed

lemma rel_ran_nonzero: "rel c s \<Longrightarrow> 0 \<notin> ran (a_index s)"
  using rel_index by (fastforce simp: ran_def)

section \<open>The steps of the operations\<close>

lemma rel_dummy: "rel c s \<Longrightarrow> c_heap c 0 \<noteq> None"
  using ring_dom [of "c_heap c" "pv (c_heap c)" "a_order s" 0] by (auto simp: rel_def linked_def)

text \<open>A change of the lookup counter, the usage, or the log changes nothing else.\<close>

lemma rel_misc:
  "rel c s \<Longrightarrow> rel (c\<lparr>c_lookups := l\<rparr>) (s\<lparr>a_lookups := l\<rparr>)"
  "rel c s \<Longrightarrow> rel (c\<lparr>c_usage := u\<rparr>) (s\<lparr>a_usage := u\<rparr>)"
  by (simp_all add: rel_def)

lemma rel_usage: "rel c s \<Longrightarrow> c_usage c = a_usage s" and rel_lookups: "rel c s \<Longrightarrow> c_lookups c = a_lookups s"
  by (simp_all add: rel_def)

lemma rel_remove:
  assumes rel: "rel c s" and e: "e \<in> set (a_order s)"
  shows "\<exists>c'. lru_remove e c = Some c' \<and> rel c' (s\<lparr>a_order := remove1 e (a_order s)\<rparr>)"
proof -
  from e obtain xs ys where o: "a_order s = xs @ e # ys" "e \<notin> set xs" by (meson split_list_first)
  have l: "linked (c_heap c) (xs @ e # ys)" using rel o by (simp add: rel_def)
  then have r: "ring (nx (c_heap c)) (pv (c_heap c)) (xs @ e # ys)" by (simp add: linked_def)
  obtain hp' where hp': "lru_remove e c = Some (c\<lparr>c_heap := hp'\<rparr>)" "ring (nx hp') (pv hp') (xs @ ys)"
    "nx hp' e = None" "pv hp' e = None" "\<And>a. a \<notin> set (0 # xs @ e # ys) \<Longrightarrow> hp' a = c_heap c a"
    "cells hp' = cells (c_heap c)" "nh hp' = nh (c_heap c)"
    using lru_remove_spec [OF r] by blast
  have "nx hp' a = None \<and> pv hp' a = None" if "a \<notin> set (0 # xs @ ys)" for a
    using that hp'(3,4) hp'(5) [of a] l by (cases "a = e") (auto simp: linked_def nx_def pv_def)
  then have l': "linked hp' (xs @ ys)" using hp'(2) by (simp add: linked_def)
  have "table_rep (c_heap c) (c_table c) (ran (a_index s))" using rel by (simp add: rel_def)
  then have "table_rep hp' (c_table c) (ran (a_index s))"
    by (rule table_rep_linked [OF _ l l' rel_ran_nonzero [OF rel]]) (simp_all add: hp')
  then have "rel (c\<lparr>c_heap := hp'\<rparr>) (s\<lparr>a_order := remove1 e (a_order s)\<rparr>)"
    using rel l' cells_rel_cong [OF hp'(6)] o by (simp add: rel_def remove1_append)
  then show ?thesis using hp'(1) by blast
qed

lemma rel_append:
  assumes rel: "rel c s" and e: "e \<notin> set (a_order s)" "a_cells s e = Some h"
  shows "\<exists>c'. lru_append 0 e c = Some c' \<and> rel c' (s\<lparr>a_order := a_order s @ [e]\<rparr>)"
proof -
  let ?xs = "a_order s"
  have e0: "e \<noteq> 0" "c_heap c e \<noteq> None" using rel_cell [OF rel e(2)] by auto
  have l: "linked (c_heap c) ?xs" using rel by (simp add: rel_def)
  then have r: "ring (nx (c_heap c)) (pv (c_heap c)) ?xs" by (simp add: linked_def)
  have en: "e \<notin> set (0 # ?xs)" using e e0 by simp
  obtain hp' where hp': "lru_append 0 e c = Some (c\<lparr>c_heap := hp'\<rparr>)" "ring (nx hp') (pv hp') (?xs @ [e])"
    "\<And>a. a \<notin> set (0 # ?xs @ [e]) \<Longrightarrow> hp' a = c_heap c a"
    "cells hp' = cells (c_heap c)" "nh hp' = nh (c_heap c)"
    using lru_append_spec [OF r en e0(2)] by blast
  have "nx hp' a = None \<and> pv hp' a = None" if "a \<notin> set (0 # ?xs @ [e])" for a
    using that hp'(3) [of a] l by (auto simp: linked_def nx_def pv_def)
  then have l': "linked hp' (?xs @ [e])" using hp'(2) by (simp add: linked_def)
  have "table_rep (c_heap c) (c_table c) (ran (a_index s))" using rel by (simp add: rel_def)
  then have "table_rep hp' (c_table c) (ran (a_index s))"
    by (rule table_rep_linked [OF _ l l' rel_ran_nonzero [OF rel]]) (simp_all add: hp')
  then have "rel (c\<lparr>c_heap := hp'\<rparr>) (s\<lparr>a_order := ?xs @ [e]\<rparr>)"
    using rel l' cells_rel_cong [OF hp'(4)] by (simp add: rel_def)
  then show ?thesis using hp'(1) by blast
qed

text \<open>Updates of the reference count and the valid bit.\<close>

definition keeps_links :: "(lru_handle \<Rightarrow> lru_handle) \<Rightarrow> bool" where
  "keeps_links f \<longleftrightarrow> (\<forall>h. h_next_hash (f h) = h_next_hash h \<and> h_next (f h) = h_next h \<and>
     h_prev (f h) = h_prev h \<and> h_hash (f h) = h_hash h \<and> h_key_data (f h) = h_key_data h \<and>
     core (f h) = f (core h))"

lemma keeps_links_simps [simp]:
  "keeps_links (h_valid_update (\<lambda>_. v))"
  "keeps_links (\<lambda>h. h\<lparr>h_refs := h_refs h + 1\<rparr>)" "keeps_links (\<lambda>h. h\<lparr>h_refs := h_refs h - 1\<rparr>)"
  by (simp_all add: keeps_links_def core_def)

lemma rel_upd:
  assumes rel: "rel c s" and a: "a_cells s a = Some k" and f: "keeps_links f"
  shows "\<exists>c'. lru_upd a f c = Some c' \<and> rel c' (a_upd a f s)"
proof -
  obtain h where h: "a \<noteq> 0" "c_heap c a = Some h" "k = core h" using rel_cell [OF rel a] by blast
  let ?hp = "(c_heap c)(a \<mapsto> f h)"
  have v: "nx ?hp = nx (c_heap c)" "pv ?hp = pv (c_heap c)" "nh ?hp = nh (c_heap c)"
    "cells ?hp = (cells (c_heap c))(a \<mapsto> f k)"
    using h f by (auto simp: keeps_links_def nx_def pv_def nh_def fun_eq_iff)
  have l: "linked (c_heap c) (a_order s)" using rel by (simp add: rel_def)
  have l': "linked ?hp (a_order s)" using l unfolding linked_def v .
  have "table_rep (c_heap c) (c_table c) (ran (a_index s))" using rel by (simp add: rel_def)
  then have "table_rep ?hp (c_table c) (ran (a_index s))"
    by (rule table_rep_linked [OF _ l l' rel_ran_nonzero [OF rel]])
      (use h f v in \<open>auto simp: cells_def keeps_links_def core_def\<close>)
  moreover have "cells_rel ?hp (a_cells (a_upd a f s))"
    using rel h(1) a v(4) by (auto simp: rel_def cells_rel_def a_upd_def)
  moreover have "index_rel (a_index s) (a_cells (a_upd a f s))"
    unfolding index_rel_def
    using rel_index [OF rel] a f by (fastforce simp: a_upd_def keeps_links_def)
  ultimately have "rel (c\<lparr>c_heap := ?hp\<rparr>) (a_upd a f s)"
    using rel l' unfolding rel_def by (simp add: a_upd_def)
  then show ?thesis using h(2) by (simp add: lru_upd_def upd_def)
qed

lemma a_upd_cell [simp]: "a_cells s a = Some k \<Longrightarrow> a_cells (a_upd a f s) a = Some (f k)"
  by (simp add: a_upd_def)

lemma a_upd_fields [simp]:
  "a_index (a_upd a f s) = a_index s" "a_order (a_upd a f s) = a_order s" "a_usage (a_upd a f s) = a_usage s"
  "a_lookups (a_upd a f s) = a_lookups s" "a_freed (a_upd a f s) = a_freed s"
  by (simp_all add: a_upd_def)

lemma rel_unref:
  assumes rel: "rel c s" and e: "a_cells s e = Some k" and pos: "h_refs k \<noteq> 0"
  shows "\<exists>c'. lru_unref e c = Some (h_refs k = 1, c') \<and> rel c' (a_upd e (\<lambda>h. h\<lparr>h_refs := h_refs h - 1\<rparr>) s)"
proof -
  obtain h where h: "c_heap c e = Some h" "k = core h" using rel_cell [OF rel e] by blast
  obtain c' where "lru_upd e (\<lambda>h. h\<lparr>h_refs := h_refs h - 1\<rparr>) c = Some c'"
    "rel c' (a_upd e (\<lambda>h. h\<lparr>h_refs := h_refs h - 1\<rparr>) s)"
    using rel_upd [OF rel e keeps_links_simps(3)] by blast
  moreover have "(h_refs h - 1 = 0) = (h_refs h = 1)" by (metis diff_eq_diff_eq cancel_comm_monoid_add_class.diff_cancel)
  ultimately show ?thesis using h pos by (simp add: lru_unref_def word_gt_0)
qed

lemma rel_free:
  assumes rel: "rel c s" and e: "a_cells s e = Some k" and off: "e \<notin> set (a_order s)" "e \<notin> ran (a_index s)"
  shows "\<exists>c'. handle_free e c = Some c' \<and> rel c' (a_free e s)"
proof -
  obtain h where h: "e \<noteq> 0" "c_heap c e = Some h" "k = core h" using rel_cell [OF rel e] by blast
  let ?hp = "(c_heap c)(e := None)"
  have l: "linked (c_heap c) (a_order s)" using rel by (simp add: rel_def)
  have none: "nx (c_heap c) e = None" "pv (c_heap c) e = None" using l off h(1) by (simp_all add: linked_def)
  then have v: "nx ?hp = nx (c_heap c)" "pv ?hp = pv (c_heap c)" by (auto simp: nx_def pv_def fun_eq_iff)
  have l': "linked ?hp (a_order s)" using l unfolding linked_def v .
  have "table_rep (c_heap c) (c_table c) (ran (a_index s))" using rel by (simp add: rel_def)
  then have "table_rep ?hp (c_table c) (ran (a_index s))"
    by (rule table_rep_linked [OF _ l l' rel_ran_nonzero [OF rel]]) (use off in \<open>auto simp: nh_def cells_def\<close>)
  moreover have "cells ?hp = (cells (c_heap c))(e := None)" by (auto simp: cells_def)
  then have "cells_rel ?hp (a_cells (a_free e s))"
    using rel e h(1) by (simp add: rel_def cells_rel_def a_free_def fun_upd_twist)
  moreover have "index_rel (a_index s) (a_cells (a_free e s))"
    unfolding index_rel_def
    using rel_index [OF rel] e off(2) by (fastforce simp: a_free_def ran_def)
  moreover have k: "handle_key (c_heap c) e = Some (h_key_data h)" by (rule linked_handle_key [OF l h(1,2)])
  ultimately have "rel (c\<lparr>c_heap := ?hp, c_freed := c_freed c @ [(h_key_data h, h_value h)]\<rparr>) (a_free e s)"
    using rel l' e h(3) unfolding rel_def by (auto simp: a_free_def)
  then show ?thesis using h(2) k by (simp add: handle_free_def)
qed

text \<open>The table seen through the index.\<close>

lemma rel_hid: "rel c s \<Longrightarrow> a_index s i = Some a \<Longrightarrow> hid (c_heap c) a = Some i"
proof -
  assume rel: "rel c s" and id: "a_index s i = Some a"
  then have l: "linked (c_heap c) (a_order s)" by (simp add: rel_def)
  show "hid (c_heap c) a = Some i"
    using rel_index [OF rel, of "fst i" "snd i" a] id linked_hid [OF l, of a] by (auto simp: cells_def)
qed

lemma rel_table_lookup:
  assumes "rel c s"
  shows "table_lookup (c_heap c) (c_table c) key hash = Some (a_index s (hash, key))"
proof -
  let ?id = "(hash, key)"
  have "table_rep (c_heap c) (c_table c) (ran (a_index s))" using assms by (simp add: rel_def)
  then obtain r where r: "table_lookup (c_heap c) (c_table c) key hash = Some r"
    "case r of None \<Rightarrow> \<forall>a \<in> ran (a_index s). hid (c_heap c) a \<noteq> Some ?id
     | Some a \<Rightarrow> a \<in> ran (a_index s) \<and> hid (c_heap c) a = Some ?id"
    using table_lookup_spec by blast
  have "r = a_index s ?id"
  proof (cases r)
    case None
    then have "a_index s ?id \<noteq> Some a" for a using r(2) rel_hid [OF assms, of ?id a] by (auto simp: ran_def)
    then show ?thesis using None by (cases "a_index s ?id") auto
  next
    case (Some a)
    then obtain i where "a_index s i = Some a" using r(2) by (auto simp: ran_def)
    then show ?thesis using Some r(2) rel_hid [OF assms, of i a] by simp
  qed
  with r(1) show ?thesis by simp
qed

lemma frame_views:
  assumes "frame hp' = frame hp"
  shows "nx hp' = nx hp" and "pv hp' = pv hp" and "cells hp' = cells hp"
proof -
  have "nx hp' a = nx hp a \<and> pv hp' a = pv hp a \<and> cells hp' a = cells hp a" for a
  proof (cases "hp a")
    case None
    then have "hp' a = None" using frame_dom [OF assms] by simp
    with None show ?thesis by (simp add: nx_def pv_def cells_def)
  next
    case (Some h)
    then obtain q where "hp' a = Some (h\<lparr>h_next_hash := q\<rparr>)" using frame_cell [OF assms [symmetric]] by blast
    with Some show ?thesis by (simp add: nx_def pv_def cells_def core_def)
  qed
  then show "nx hp' = nx hp" "pv hp' = pv hp" "cells hp' = cells hp" by auto
qed

lemma linked_frame:
  assumes "frame hp' = frame hp"
  shows "linked hp' xs = linked hp xs"
  unfolding linked_def frame_views(1,2) [OF assms] ..

lemma rel_frame:
  assumes "rel c s" and "frame hp' = frame (c_heap c)" and "table_rep hp' t (ran idx)"
    and "index_rel idx (a_cells s)"
  shows "rel (c\<lparr>c_heap := hp', c_table := t\<rparr>) (s\<lparr>a_index := idx\<rparr>)"
  using assms linked_frame [OF assms(2)] cells_rel_cong [OF frame_views(3) [OF assms(2)]]
  by (simp add: rel_def)

lemma rel_index_inj: "rel c s \<Longrightarrow> a_index s i = Some a \<Longrightarrow> a_index s i' = Some a \<Longrightarrow> i = i'"
  using rel_hid [of c s i a] rel_hid [of c s i' a] by simp

lemma ran_upd_inj:
  assumes "m k = Some a" and "\<And>k'. m k' = Some a \<Longrightarrow> k' = k"
  shows "ran (m(k := None)) = ran m - {a}" and "ran (m(k \<mapsto> b)) = insert b (ran m - {a})"
proof -
  have *: "(\<exists>k'. k' \<noteq> k \<and> m k' = Some c) \<longleftrightarrow> (\<exists>k'. m k' = Some c) \<and> c \<noteq> a" for c
    using assms by (metis option.inject)
  have n: "c \<in> ran (m(k := None)) \<longleftrightarrow> (\<exists>k'. k' \<noteq> k \<and> m k' = Some c)" for c
    unfolding ran_def by simp metis
  show "ran (m(k := None)) = ran m - {a}"
    by (rule set_eqI) (simp only: n *, simp add: ran_def)
  have s: "c \<in> ran (m(k \<mapsto> b)) \<longleftrightarrow> c = b \<or> (\<exists>k'. k' \<noteq> k \<and> m k' = Some c)" for c
    unfolding ran_def by simp metis
  show "ran (m(k \<mapsto> b)) = insert b (ran m - {a})"
    by (rule set_eqI) (simp only: s *, simp add: ran_def)
qed

lemma rel_table_remove:
  assumes rel: "rel c s"
  shows "\<exists>hp' t'. table_remove (c_heap c) (c_table c) key hash = Some (a_index s (hash, key), hp', t') \<and>
    rel (c\<lparr>c_heap := hp', c_table := t'\<rparr>) (s\<lparr>a_index := (a_index s)((hash, key) := None)\<rparr>)"
proof -
  let ?id = "(hash, key)"
  have rep: "table_rep (c_heap c) (c_table c) (ran (a_index s))" using rel by (simp add: rel_def)
  then obtain r hp' t' where r: "table_remove (c_heap c) (c_table c) key hash = Some (r, hp', t')"
    and fr: "frame hp' = frame (c_heap c)"
    and m: "case r of None \<Rightarrow> hp' = c_heap c \<and> t' = c_table c \<and> (\<forall>a \<in> ran (a_index s). hid (c_heap c) a \<noteq> Some ?id)
     | Some a \<Rightarrow> a \<in> ran (a_index s) \<and> hid (c_heap c) a = Some ?id \<and> table_rep hp' t' (ran (a_index s) - {a})"
    using table_remove_spec by blast
  have ir: "index_rel ((a_index s)(?id := None)) (a_cells s)"
    using rel by (auto simp: rel_def index_rel_def)
  have "r = a_index s ?id \<and> table_rep hp' t' (ran ((a_index s)(?id := None)))"
  proof (cases r)
    case None
    then have "a_index s ?id \<noteq> Some a" for a using m rel_hid [OF rel, of ?id a] by (auto simp: ran_def)
    then have "a_index s ?id = None" by (cases "a_index s ?id") auto
    moreover then have "(a_index s)(?id := None) = a_index s" by auto
    ultimately show ?thesis using None m rep by simp
  next
    case (Some a)
    then obtain i where "a_index s i = Some a" using m by (auto simp: ran_def)
    then have id: "a_index s ?id = Some a" using Some m rel_hid [OF rel, of i a] by simp
    have "ran ((a_index s)(?id := None)) = ran (a_index s) - {a}"
      using id rel_index_inj [OF rel _ id] by (rule ran_upd_inj)
    then show ?thesis using Some m id by simp
  qed
  then have eq: "r = a_index s ?id" and rep': "table_rep hp' t' (ran ((a_index s)(?id := None)))" by blast+
  show ?thesis by (intro exI conjI) (rule r [unfolded eq], rule rel_frame [OF rel fr rep' ir])
qed

lemma rel_new_cell:
  assumes rel: "rel c s" and a: "a \<noteq> 0" "c_heap c a = None" and e: "h_next e = None" "h_prev e = None"
  shows "rel (c\<lparr>c_heap := (c_heap c)(a \<mapsto> e)\<rparr>) (s\<lparr>a_cells := (a_cells s)(a \<mapsto> core e)\<rparr>)"
    and "hid ((c_heap c)(a \<mapsto> e)) a = Some (h_hash e, h_key_data e)"
    and "a \<notin> ran (a_index s)"
proof -
  let ?hp = "(c_heap c)(a \<mapsto> e)"
  have l: "linked (c_heap c) (a_order s)" using rel by (simp add: rel_def)
  have v: "nx ?hp = nx (c_heap c)" "pv ?hp = pv (c_heap c)"
    using a(2) e by (auto simp: nx_def pv_def fun_eq_iff)
  have l': "linked ?hp (a_order s)" using l unfolding linked_def v .
  show n: "a \<notin> ran (a_index s)" using rel_index [OF rel] a(2) by (fastforce simp: ran_def)
  have "table_rep (c_heap c) (c_table c) (ran (a_index s))" using rel by (simp add: rel_def)
  then have "table_rep ?hp (c_table c) (ran (a_index s))"
    by (rule table_rep_linked [OF _ l l' rel_ran_nonzero [OF rel]]) (use n in auto)
  moreover have "cells_rel ?hp ((a_cells s)(a \<mapsto> core e))"
    using rel a(1) by (auto simp: rel_def cells_rel_def)
  moreover have "index_rel (a_index s) ((a_cells s)(a \<mapsto> core e))"
    using rel_index [OF rel] a(2) unfolding index_rel_def by fastforce
  ultimately show "rel (c\<lparr>c_heap := ?hp\<rparr>) (s\<lparr>a_cells := (a_cells s)(a \<mapsto> core e)\<rparr>)"
    using rel l' by (simp add: rel_def)
  show "hid ?hp a = Some (h_hash e, h_key_data e)"
    using linked_hid [OF l' a(1)] by simp
qed

lemma rel_table_insert:
  assumes rel: "rel c s" and a: "a \<notin> ran (a_index s)" "a_cells s a = Some k"
    and card: "card (ran (a_index s)) < 2 ^ 31"
  shows "\<exists>hp' t'. table_insert alloc (c_heap c) (c_table c) a = Some (a_index s (h_hash k, h_key_data k), hp', t') \<and>
    rel (c\<lparr>c_heap := hp', c_table := t'\<rparr>) (s\<lparr>a_index := (a_index s)((h_hash k, h_key_data k) \<mapsto> a)\<rparr>)"
proof -
  let ?id = "(h_hash k, h_key_data k)"
  have l: "linked (c_heap c) (a_order s)" using rel by (simp add: rel_def)
  have rep: "table_rep (c_heap c) (c_table c) (ran (a_index s))" using rel by (simp add: rel_def)
  have "hid (c_heap c) a = Some ?id"
    using linked_hid [OF l] rel_cell [OF rel a(2)] by (auto simp: cells_def)
  then obtain old hp' t' where r: "table_insert alloc (c_heap c) (c_table c) a = Some (old, hp', t')"
    and fr: "frame hp' = frame (c_heap c)"
    and m: "case old of
       None \<Rightarrow> table_rep hp' t' (insert a (ran (a_index s))) \<and> (\<forall>b \<in> ran (a_index s). hid (c_heap c) b \<noteq> Some ?id)
     | Some b \<Rightarrow> b \<in> ran (a_index s) \<and> hid (c_heap c) b = Some ?id \<and>
         table_rep hp' t' (insert a (ran (a_index s) - {b}))"
    using table_insert_spec [OF rep a(1) _ card] by blast
  have ir: "index_rel ((a_index s)(?id \<mapsto> a)) (a_cells s)"
    using rel a(2) by (auto simp: rel_def index_rel_def)
  have "old = a_index s ?id \<and> table_rep hp' t' (ran ((a_index s)(?id \<mapsto> a)))"
  proof (cases old)
    case None
    then have "a_index s ?id \<noteq> Some b" for b using m rel_hid [OF rel, of ?id b] by (auto simp: ran_def)
    then have "a_index s ?id = None" by (cases "a_index s ?id") auto
    then show ?thesis using None m by simp
  next
    case (Some b)
    then obtain i where "a_index s i = Some b" using m by (auto simp: ran_def)
    then have id: "a_index s ?id = Some b" using Some m rel_hid [OF rel, of i b] by simp
    have "ran ((a_index s)(?id \<mapsto> a)) = insert a (ran (a_index s) - {b})"
      using id rel_index_inj [OF rel _ id] by (rule ran_upd_inj)
    then show ?thesis using Some m id by simp
  qed
  then have eq: "old = a_index s ?id" and rep': "table_rep hp' t' (ran ((a_index s)(?id \<mapsto> a)))" by blast+
  show ?thesis by (intro exI conjI) (rule r [unfolded eq], rule rel_frame [OF rel fr rep' ir])
qed

end
