(* ===== verification/LruRefine.thy ===== *)
theory LruRefine
  imports LruContainer
begin

text \<open>
  The operations of \<^verbatim>\<open>LRUContainer\<close> refine those of \<open>lru_abs\<close>: each is defined (no null or dangling
  pointer, no failed \<^verbatim>\<open>DCHECK\<close>, no endless loop) in every state that satisfies the invariant \<open>a_ok\<close>, and
  its effect is the abstract one. From this the section "Properties" reads off what the container
  promises about accounting and about the order of eviction.
\<close>

section \<open>The invariant\<close>

definition live_charge :: "lru_handle option \<Rightarrow> u64" where
  "live_charge h = (case h of None \<Rightarrow> 0 | Some h \<Rightarrow> if h_refs h = 0 then 0 else h_charge h)"

definition evictable :: "lru_abs \<Rightarrow> addr set" where
  "evictable s = {a. \<exists>h. a_cells s a = Some h \<and> h_valid h \<and> h_refs h = 1}"

definition index_ok :: "lru_abs \<Rightarrow> bool" where
  "index_ok s \<longleftrightarrow> (\<forall>hash key a. a_index s (hash, key) = Some a \<longleftrightarrow>
     (\<exists>h. a_cells s a = Some h \<and> h_valid h \<and> h_hash h = hash \<and> h_key_data h = key))"

definition refs_ok :: "lru_abs \<Rightarrow> bool" where
  "refs_ok s \<longleftrightarrow> (\<forall>a h. a_cells s a = Some h \<longrightarrow> h_valid h \<longrightarrow> h_refs h \<noteq> 0)"

definition a_ok :: "lru_abs \<Rightarrow> bool" where
  "a_ok s \<longleftrightarrow> finite (dom (a_cells s)) \<and> index_ok s \<and> refs_ok s \<and>
     distinct (a_order s) \<and> set (a_order s) = evictable s \<and>
     a_usage s = (\<Sum>a \<in> dom (a_cells s). live_charge (a_cells s a))"

text \<open>The usage under an update of one cell.\<close>

lemma sum_cells_upd:
  assumes "finite (dom m)"
  shows "(\<Sum>a \<in> dom (m(e := x)). live_charge ((m(e := x)) a)) =
    (\<Sum>a \<in> dom m. live_charge (m a)) - live_charge (m e) + live_charge x"
proof -
  let ?D = "insert e (dom m)"
  have fin: "finite ?D" using assms by simp
  have ext: "(\<Sum>a \<in> dom n. live_charge (n a)) = (\<Sum>a \<in> ?D. live_charge (n a))" if "dom n \<subseteq> ?D" for n
    using that fin by (intro sum.mono_neutral_left) (auto simp: live_charge_def domIff)
  have "(\<Sum>a \<in> ?D. live_charge ((m(e := x)) a)) = live_charge x + (\<Sum>a \<in> ?D - {e}. live_charge (m a))"
    using fin by (subst sum.remove [of ?D e]) auto
  moreover have "(\<Sum>a \<in> ?D. live_charge (m a)) = live_charge (m e) + (\<Sum>a \<in> ?D - {e}. live_charge (m a))"
    using fin by (rule sum.remove) simp
  moreover have "dom (m(e := x)) \<subseteq> ?D" "dom m \<subseteq> ?D" by (auto split: if_splits)
  ultimately show ?thesis using ext [of m] ext [of "m(e := x)"] by simp
qed

lemma a_ok_index: "a_ok s \<Longrightarrow> a_index s (hash, key) = Some a \<Longrightarrow>
    \<exists>h. a_cells s a = Some h \<and> h_valid h \<and> h_hash h = hash \<and> h_key_data h = key \<and> h_refs h \<noteq> 0"
  unfolding a_ok_def index_ok_def refs_ok_def by blast

lemma a_ok_order: "a_ok s \<Longrightarrow> a \<in> set (a_order s) \<longleftrightarrow> (\<exists>h. a_cells s a = Some h \<and> h_valid h \<and> h_refs h = 1)"
  by (auto simp: a_ok_def evictable_def)

text \<open>
  A step that rewrites the one cell \<open>e\<close>: what has to be checked of the new index, order and usage.
\<close>

lemma a_okI:
  assumes ok: "a_ok s" and cells: "a_cells t = (a_cells s)(e := x)"
    and idx: "\<And>hash key a. a \<noteq> e \<Longrightarrow> (a_index t (hash, key) = Some a) = (a_index s (hash, key) = Some a)"
    and idx_e: "\<And>hash key. (a_index t (hash, key) = Some e) =
      (\<exists>h. x = Some h \<and> h_valid h \<and> h_hash h = hash \<and> h_key_data h = key)"
    and refs: "\<And>h. x = Some h \<Longrightarrow> h_valid h \<Longrightarrow> h_refs h \<noteq> 0"
    and ord: "distinct (a_order t)" "set (a_order t) - {e} = set (a_order s) - {e}"
      "e \<in> set (a_order t) \<longleftrightarrow> (\<exists>h. x = Some h \<and> h_valid h \<and> h_refs h = 1)"
    and usage: "a_usage t = a_usage s - live_charge (a_cells s e) + live_charge x"
  shows "a_ok t"
proof -
  have fin: "finite (dom (a_cells t))" using ok cells by (simp add: a_ok_def)
  have "(a_index t (hash, key) = Some a) =
      (\<exists>h. a_cells t a = Some h \<and> h_valid h \<and> h_hash h = hash \<and> h_key_data h = key)" for hash key a
  proof (cases "a = e")
    case True
    then show ?thesis using idx_e cells by simp
  next
    case False
    then show ?thesis using idx [OF False] ok cells unfolding a_ok_def index_ok_def by simp
  qed
  then have "index_ok t" unfolding index_ok_def by blast
  moreover have "refs_ok t" using ok refs unfolding a_ok_def refs_ok_def cells by auto
  moreover have "a \<in> set (a_order t) \<longleftrightarrow> (\<exists>h. a_cells t a = Some h \<and> h_valid h \<and> h_refs h = 1)" for a
  proof (cases "a = e")
    case True
    then show ?thesis using ord(3) cells by simp
  next
    case False
    then have "a \<in> set (a_order t) \<longleftrightarrow> a \<in> set (a_order s)" using ord(2) by blast
    then show ?thesis using False a_ok_order [OF ok] cells by simp
  qed
  then have "set (a_order t) = evictable t" unfolding evictable_def by blast
  moreover have "a_usage t = (\<Sum>a \<in> dom (a_cells t). live_charge (a_cells t a))"
    using ok usage sum_cells_upd [of "a_cells s" e x] unfolding a_ok_def cells by simp
  ultimately show ?thesis using fin ord(1) by (simp add: a_ok_def)
qed

lemma index_unique:
  "a_ok s \<Longrightarrow> a_cells s a = Some h \<Longrightarrow> h_valid h \<Longrightarrow> a_index s (h_hash h, h_key_data h) = Some a"
  by (auto simp: a_ok_def index_ok_def)

lemma index_valid:
  "a_ok s \<Longrightarrow> a_index s (hash, key) = Some a \<Longrightarrow> a_cells s a = Some h \<Longrightarrow>
     h_valid h \<and> h_hash h = hash \<and> h_key_data h = key"
  using a_ok_index by fastforce

lemma order_distinct: "a_ok s \<Longrightarrow> distinct (a_order s)"
  by (simp add: a_ok_def)

text \<open>\<open>held s e\<close>: a client holds a reference to \<open>e\<close>, besides that of the container.\<close>

definition held :: "lru_abs \<Rightarrow> addr \<Rightarrow> bool" where
  "held s e = (case a_cells s e of None \<Rightarrow> False
     | Some h \<Rightarrow> h_refs h \<noteq> 0 \<and> (\<not> h_valid h \<or> h_refs h \<noteq> 1))"

section \<open>The abstract operations keep the invariant\<close>

lemma a_ok_lookups [simp]: "a_ok (s\<lparr>a_lookups := l\<rparr>) = a_ok s"
  by (simp add: a_ok_def index_ok_def refs_ok_def evictable_def)

lemma a_lookup_ok:
  assumes ok: "a_ok s"
    and room: "\<And>e h. a_index s (hash, key) = Some e \<Longrightarrow> a_cells s e = Some h \<Longrightarrow> h_refs h + 1 \<noteq> 0"
  shows "a_ok (snd (a_lookup key hash s))"
proof (cases "a_index s (hash, key)")
  case None
  then show ?thesis using ok by (simp add: a_lookup_def Let_def)
next
  case (Some e)
  then obtain h where h: "a_cells s e = Some h" "h_valid h" "h_hash h = hash" "h_key_data h = key" "h_refs h \<noteq> 0"
    using a_ok_index [OF ok] by blast
  let ?h = "h\<lparr>h_refs := h_refs h + 1\<rparr>"
  have r: "h_refs h + 1 \<noteq> 0" "h_refs h + 1 \<noteq> 1" using room [OF Some h(1)] h(5) by auto
  show ?thesis
  proof (rule a_okI [OF ok, where e = e and x = "Some ?h"])
    show "(a_index (snd (a_lookup key hash s)) (hash', key') = Some e) =
        (\<exists>h'. Some ?h = Some h' \<and> h_valid h' \<and> h_hash h' = hash' \<and> h_key_data h' = key')" for hash' key'
      using Some h index_valid [OF ok, of hash' key' e h] by (auto simp: a_lookup_def Let_def)
  qed (use Some h r order_distinct [OF ok] in
        \<open>auto simp: a_lookup_def Let_def a_upd_def live_charge_def\<close>)
qed

lemma a_release_ok:
  assumes ok: "a_ok s" and held: "held s e"
  shows "a_ok (a_release e s)"
proof -
  from held obtain h where h: "a_cells s e = Some h" "h_refs h \<noteq> 0" "h_valid h \<longrightarrow> h_refs h \<noteq> 1"
    by (auto simp: held_def split: option.splits)
  let ?h = "h\<lparr>h_refs := h_refs h - 1\<rparr>"
  have off: "e \<notin> set (a_order s)" using a_ok_order [OF ok, of e] h by auto
  have idx: "(a_index s (hash, key) = Some e) = (h_valid h \<and> h_hash h = hash \<and> h_key_data h = key)" for hash key
    using ok h(1) by (auto simp: a_ok_def index_ok_def)
  have m: "h_refs h - 1 = 1 \<longleftrightarrow> h_refs h = 2" "h_refs h - 1 = 0 \<longleftrightarrow> h_refs h = 1"
    by (auto simp: diff_eq_eq)
  show ?thesis
  proof (cases "h_refs h = 1")
    case True
    then show ?thesis
      by (intro a_okI [OF ok, where e = e and x = None])
        (use h idx off order_distinct [OF ok] in \<open>auto simp: a_release_def Let_def a_upd_def a_free_def live_charge_def\<close>)
  next
    case False
    then show ?thesis
      by (intro a_okI [OF ok, where e = e and x = "Some ?h"])
        (use h idx off m order_distinct [OF ok] in \<open>auto simp: a_release_def Let_def a_upd_def live_charge_def\<close>)
  qed
qed

lemma ok_cell_index:
  assumes "a_ok s" and "a_cells s e = Some h"
  shows "(a_index s (hash, key) = Some e) = (h_valid h \<and> h_hash h = hash \<and> h_key_data h = key)"
  using assms by (auto simp: a_ok_def index_ok_def)

lemma a_evict_one_ok:
  assumes ok: "a_ok s" and e: "e \<in> set (a_order s)"
  shows "a_ok (a_evict_one e s)"
proof -
  from e obtain h where h: "a_cells s e = Some h" "h_valid h" "h_refs h = 1"
    using a_ok_order [OF ok] by blast
  let ?h = "h\<lparr>h_valid := False, h_refs := 0\<rparr>"
  have idx: "a_index s (h_hash h, h_key_data h) \<noteq> Some a" if "a \<noteq> e" for a
    using index_unique [OF ok h(1,2)] that by simp
  show ?thesis
    by (rule a_okI [OF ok, where e = e and x = "Some ?h"])
      (use h idx ok_cell_index [OF ok h(1)] order_distinct [OF ok] in
        \<open>auto simp: a_evict_one_def a_upd_def live_charge_def split: if_splits\<close>)
qed

lemma a_free_ok:
  assumes ok: "a_ok s" and e: "a_cells s e = Some h" "h_refs h = 0"
  shows "a_ok (a_free e s)"
proof -
  have off: "e \<notin> set (a_order s)" using a_ok_order [OF ok, of e] e by auto
  have "\<not> h_valid h" using ok e by (auto simp: a_ok_def refs_ok_def)
  then show ?thesis
    by (intro a_okI [OF ok, where e = e and x = None])
      (use e off ok_cell_index [OF ok e(1)] order_distinct [OF ok] in \<open>auto simp: a_free_def live_charge_def\<close>)
qed

lemma a_erase_ok:
  assumes ok: "a_ok s"
  shows "a_ok (a_erase key hash s)"
proof (cases "a_index s (hash, key)")
  case None
  then show ?thesis using ok by (simp add: a_erase_def)
next
  case (Some e)
  then obtain h where h: "a_cells s e = Some h" "h_valid h" "h_hash h = hash" "h_key_data h = key" "h_refs h \<noteq> 0"
    using a_ok_index [OF ok] by blast
  note idx = ok_cell_index [OF ok h(1)]
  have other: "a_index s (hash, key) \<noteq> Some a" if "a \<noteq> e" for a using Some that by simp
  show ?thesis
  proof (cases "h_refs h = 1")
    case True
    then have "a_erase key hash s = s\<lparr>a_cells := (a_cells s)(e := None), a_index := (a_index s)((hash, key) := None),
        a_order := remove1 e (a_order s), a_usage := a_usage s - h_charge h, a_freed := a_freed s @ [(key, h_value h)]\<rparr>"
      using Some h by (simp add: a_erase_def a_retire_def Let_def a_upd_def a_free_def)
    then show ?thesis
      by (intro a_okI [OF ok, where e = e and x = None])
        (use other h idx True order_distinct [OF ok] in \<open>auto simp: live_charge_def split: if_splits\<close>)
  next
    case False
    let ?h = "h\<lparr>h_valid := False, h_refs := h_refs h - 1\<rparr>"
    have off: "e \<notin> set (a_order s)" using a_ok_order [OF ok, of e] h False by auto
    have "h_refs h - 1 \<noteq> 0" using False by (simp add: diff_eq_eq)
    moreover have "a_erase key hash s = s\<lparr>a_cells := (a_cells s)(e \<mapsto> ?h), a_index := (a_index s)((hash, key) := None)\<rparr>"
      using Some h False by (simp add: a_erase_def a_retire_def Let_def a_upd_def)
    ultimately show ?thesis
      by (intro a_okI [OF ok, where e = e and x = "Some ?h"])
        (use other h idx off order_distinct [OF ok] in \<open>auto simp: live_charge_def split: if_splits\<close>)
  qed
qed

text \<open>An insertion is the erasure of the key followed by the addition of the new handle.\<close>

definition a_add :: "addr \<Rightarrow> lru_handle \<Rightarrow> lru_abs \<Rightarrow> lru_abs" where
  "a_add a e s = s\<lparr>a_cells := (a_cells s)(a \<mapsto> e), a_index := (a_index s)((h_hash e, h_key_data e) \<mapsto> a),
     a_usage := a_usage s + h_charge e\<rparr>"

definition new_handle :: "lru_key \<Rightarrow> u32 \<Rightarrow> u64 \<Rightarrow> lru_key option \<Rightarrow> lru_handle" where
  "new_handle key hash charge value = null_handle\<lparr>h_value := value, h_charge := charge, h_key_data := key,
     h_valid := True, h_refs := 2, h_hash := hash\<rparr>"

lemma new_handle_simps [simp]:
  "h_value (new_handle key hash charge value) = value" "h_charge (new_handle key hash charge value) = charge"
  "h_key_data (new_handle key hash charge value) = key" "h_valid (new_handle key hash charge value)"
  "h_refs (new_handle key hash charge value) = 2" "h_hash (new_handle key hash charge value) = hash"
  by (simp_all add: new_handle_def)

lemma a_insert_split:
  assumes ok: "a_ok s" and a: "a_cells s a = None"
  shows "a_insert a key hash charge value s = a_add a (new_handle key hash charge value) (a_erase key hash s)"
proof (cases "a_index s (hash, key)")
  case None
  then show ?thesis by (simp add: a_insert_def a_add_def a_erase_def new_handle_def Let_def)
next
  case (Some e)
  then obtain h where h: "a_cells s e = Some h" using a_ok_index [OF ok] by blast
  with a have "a \<noteq> e" by auto
  then show ?thesis using Some h
    by (simp add: a_insert_def a_add_def a_erase_def a_retire_def a_free_def a_upd_def new_handle_def Let_def
        fun_upd_twist [OF \<open>a \<noteq> e\<close>])
qed

lemma a_erase_cells:
  assumes "a_ok s" and "a_cells s a = None"
  shows "a_cells (a_erase key hash s) a = None" and "a_index (a_erase key hash s) (hash, key) = None"
  using assms a_ok_index [OF assms(1), of hash key]
  by (auto simp: a_erase_def a_retire_def a_free_def a_upd_def Let_def split: option.splits)

lemma a_add_ok:
  assumes ok: "a_ok s" and a: "a_cells s a = None" and e: "h_valid e" "h_refs e = 2"
    and new: "a_index s (h_hash e, h_key_data e) = None"
  shows "a_ok (a_add a e s)"
proof -
  have off: "a \<notin> set (a_order s)" using a_ok_order [OF ok, of a] a by auto
  have idx: "a_index s i \<noteq> Some a" for i using a_ok_index [OF ok, of "fst i" "snd i" a] a by auto
  show ?thesis
    by (rule a_okI [OF ok, where e = a and x = "Some e"])
      (use a e new off idx order_distinct [OF ok] in \<open>auto simp: a_add_def live_charge_def\<close>)
qed

lemma a_insert_ok:
  assumes "a_ok s" and "a_cells s a = None"
  shows "a_ok (a_insert a key hash charge value s)"
  unfolding a_insert_split [OF assms]
  by (rule a_add_ok [OF a_erase_ok [OF assms(1)] a_erase_cells(1) [OF assms]])
    (simp_all add: a_erase_cells(2) [OF assms])

text \<open>A run of evictions, oldest first.\<close>

lemma a_evict_one_order:
  "a_cells s e = Some h \<Longrightarrow> a_order (a_evict_one e s) = remove1 e (a_order s)"
  by (simp add: a_evict_one_def)

lemma fold_evict_ok:
  assumes "a_ok s" and "a_order s = es @ rest"
  shows "a_ok (fold a_evict_one es s) \<and> a_order (fold a_evict_one es s) = rest"
  using assms
proof (induction es arbitrary: s)
  case (Cons e es)
  have e: "e \<in> set (a_order s)" using Cons.prems(2) by simp
  then obtain h where "a_cells s e = Some h" using a_ok_order [OF Cons.prems(1)] by blast
  then have "a_order (a_evict_one e s) = es @ rest" using Cons.prems(2) by (simp add: a_evict_one_order)
  then show ?case using Cons.IH [OF a_evict_one_ok [OF Cons.prems(1) e]] by simp
qed simp

lemma evict_prefix_split: "\<exists>rest. xs = evict_prefix ch charge n xs @ rest"
  by (induction xs arbitrary: n) auto

lemma a_evict_ok: "a_ok s \<Longrightarrow> a_ok (snd (a_evict charge s))"
  using fold_evict_ok evict_prefix_split [of "a_order s"] by (metis a_evict_def snd_conv)

section \<open>The operations on the pointers refine the abstract ones\<close>

lemma rel_order_nil: "rel c s \<Longrightarrow> \<exists>h. c_heap c 0 = Some h \<and> h_next h = Some (after (a_order s))"
proof -
  assume "rel c s"
  then have r: "ring (nx (c_heap c)) (pv (c_heap c)) (a_order s)" by (simp add: rel_def linked_def)
  have "nx (c_heap c) 0 = Some (after (a_order s))"
  proof (cases "a_order s")
    case Nil
    then show ?thesis using r by (simp add: ring_def after_def)
  next
    case (Cons a as)
    then show ?thesis using ring_split(3) [of "nx (c_heap c)" "pv (c_heap c)" "[]" a as] r
      by (simp add: before_def after_def)
  qed
  then show ?thesis by (rule nx_SomeD)
qed

lemma sim_lookup:
  assumes rel: "rel c s" and ok: "a_ok s"
  shows "\<exists>c'. lru_lookup key hash c = Some (fst (a_lookup key hash s), c') \<and> rel c' (snd (a_lookup key hash s))"
proof -
  let ?c = "c\<lparr>c_lookups := c_lookups c + 1\<rparr>" and ?s = "s\<lparr>a_lookups := a_lookups s + 1\<rparr>"
  have rel1: "rel ?c ?s" using rel_misc(1) [OF rel] rel_lookups [OF rel] by simp
  have lk: "table_lookup (c_heap c) (c_table c) key hash = Some (a_index s (hash, key))"
    by (rule rel_table_lookup [OF rel])
  show ?thesis
  proof (cases "a_index s (hash, key)")
    case None
    then show ?thesis using lk rel1 by (simp add: lru_lookup_def a_lookup_def Let_def)
  next
    case (Some e)
    obtain k where k: "a_cells s e = Some k" "h_valid k" using a_ok_index [OF ok Some] by blast
    obtain h where h: "c_heap c e = Some h" "k = core h" using rel_cell [OF rel k(1)] by blast
    let ?s2 = "?s\<lparr>a_order := remove1 e (a_order ?s)\<rparr>"
    have "\<exists>c2. (if h_refs h = 1 then lru_remove e ?c else Some ?c) = Some c2 \<and> rel c2 ?s2"
    proof (cases "h_refs h = 1")
      case True
      then have "e \<in> set (a_order ?s)" using a_ok_order [OF ok, of e] k h by simp
      then show ?thesis using rel_remove [OF rel1] True by simp
    next
      case False
      then have "e \<notin> set (a_order s)" using a_ok_order [OF ok, of e] k h by simp
      then show ?thesis using rel1 False by (simp add: remove1_idem)
    qed
    then obtain c2 where c2: "(if h_refs h = 1 then lru_remove e ?c else Some ?c) = Some c2" "rel c2 ?s2"
      by blast
    have "a_cells ?s2 e = Some k" using k by simp
    then obtain c3 where "lru_upd e (\<lambda>h. h\<lparr>h_refs := h_refs h + 1\<rparr>) c2 = Some c3"
      "rel c3 (a_upd e (\<lambda>h. h\<lparr>h_refs := h_refs h + 1\<rparr>) ?s2)"
      using rel_upd [OF c2(2) _ keeps_links_simps(2)] by blast
    then show ?thesis using Some lk h k c2(1) by (simp add: lru_lookup_def a_lookup_def Let_def)
  qed
qed

lemma sim_release:
  assumes rel: "rel c s" and ok: "a_ok s" and held: "held s e"
  shows "\<exists>c'. lru_release (Some e) c = Some c' \<and> rel c' (a_release e s)"
proof -
  from held obtain k where k: "a_cells s e = Some k" "h_refs k \<noteq> 0" "h_valid k \<longrightarrow> h_refs k \<noteq> 1"
    by (auto simp: held_def split: option.splits)
  let ?s1 = "a_upd e (\<lambda>h. h\<lparr>h_refs := h_refs h - 1\<rparr>) s" and ?k1 = "k\<lparr>h_refs := h_refs k - 1\<rparr>"
  obtain c1 where c1: "lru_unref e c = Some (h_refs k = 1, c1)" "rel c1 ?s1"
    using rel_unref [OF rel k(1,2)] by blast
  have k1: "a_cells ?s1 e = Some ?k1" using k(1) by simp
  obtain h where h: "c_heap c1 e = Some h" "?k1 = core h" using rel_cell [OF c1(2) k1] by blast
  have hf: "h_charge h = h_charge k" "h_valid h = h_valid k" "h_refs h = h_refs k - 1"
    using arg_cong [OF h(2), of h_charge] arg_cong [OF h(2), of h_valid] arg_cong [OF h(2), of h_refs] by simp_all
  have off: "e \<notin> set (a_order s)" using a_ok_order [OF ok, of e] k by auto
  show ?thesis
  proof (cases "h_refs k = 1")
    case True
    then have nv: "\<not> h_valid k" using k by blast
    let ?s2 = "?s1\<lparr>a_usage := a_usage s - h_charge k\<rparr>"
    have rel2: "rel (c1\<lparr>c_usage := c_usage c1 - h_charge h\<rparr>) ?s2"
      using rel_misc(2) [OF c1(2)] rel_usage [OF c1(2)] hf by simp
    have "e \<notin> ran (a_index s)"
    proof
      assume "e \<in> ran (a_index s)"
      then obtain i where "a_index s i = Some e" by (auto simp: ran_def)
      then show False using ok_cell_index [OF ok k(1), of "fst i" "snd i"] nv by simp
    qed
    then obtain c2 where "handle_free e (c1\<lparr>c_usage := c_usage c1 - h_charge h\<rparr>) = Some c2" "rel c2 (a_free e ?s2)"
      using rel_free [OF rel2, of e ?k1] k1 off by auto
    then show ?thesis using c1(1) h True k by (simp add: lru_release_def a_release_def Let_def)
  next
    case False
    show ?thesis
    proof (cases "h_valid k \<and> h_refs k = 2")
      case True
      then obtain c2 where "lru_append 0 e c1 = Some c2" "rel c2 (?s1\<lparr>a_order := a_order ?s1 @ [e]\<rparr>)"
        using rel_append [OF c1(2) _ k1] off by auto
      then show ?thesis using c1(1) h hf True False k by (simp add: lru_release_def a_release_def Let_def)
    next
      case no: False
      have "\<not> (h_valid h \<and> h_refs h = 1)" using no hf by (auto simp: diff_eq_eq)
      moreover have "a_release e s = ?s1" using False no k by (auto simp: a_release_def Let_def)
      ultimately show ?thesis using c1 h False by (auto simp: lru_release_def)
    qed
  qed
qed

lemma sim_evict_one:
  assumes rel: "rel c s" and ok: "a_ok s" and e: "e \<in> set (a_order s)"
  shows "\<exists>c'. evict_one_entry e c = Some c' \<and> rel c' (a_evict_one e s)"
proof -
  from e obtain k where k: "a_cells s e = Some k" "h_valid k" "h_refs k = 1" using a_ok_order [OF ok] by blast
  obtain h where h: "c_heap c e = Some h" "k = core h" using rel_cell [OF rel k(1)] by blast
  let ?s1 = "s\<lparr>a_order := remove1 e (a_order s)\<rparr>"
  obtain c1 where c1: "lru_remove e c = Some c1" "rel c1 ?s1" using rel_remove [OF rel e] by blast
  have k1: "a_cells ?s1 e = Some k" using k by simp
  obtain h1 where h1: "e \<noteq> 0" "c_heap c1 e = Some h1" "k = core h1" using rel_cell [OF c1(2) k1] by blast
  have hk: "h_valid h" "h_refs h = 1" "h_hash h1 = h_hash k"
    using arg_cong [OF h(2), of h_valid] arg_cong [OF h(2), of h_refs] arg_cong [OF h1(3), of h_hash] k(2,3)
    by simp_all
  have key: "handle_key (c_heap c1) e = Some (h_key_data k)"
    using linked_handle_key [of "c_heap c1" "a_order ?s1" e h1] c1(2) h1 by (simp add: rel_def)
  let ?s2 = "?s1\<lparr>a_index := (a_index s)((h_hash k, h_key_data k) := None)\<rparr>"
  obtain r hp t where tr: "table_remove (c_heap c1) (c_table c1) (h_key_data k) (h_hash k) = Some (r, hp, t)"
    and rel2: "rel (c1\<lparr>c_heap := hp, c_table := t\<rparr>) ?s2"
    using rel_table_remove [OF c1(2), of "h_key_data k" "h_hash k"] by auto
  let ?s3 = "a_upd e (h_valid_update (\<lambda>_. False)) ?s2"
  have k2: "a_cells ?s2 e = Some k" using k by simp
  obtain c3 where c3: "lru_upd e (h_valid_update (\<lambda>_. False)) (c1\<lparr>c_heap := hp, c_table := t\<rparr>) = Some c3" "rel c3 ?s3"
    using rel_upd [OF rel2 k2 keeps_links_simps(1)] by blast
  have k3: "a_cells ?s3 e = Some (k\<lparr>h_valid := False\<rparr>)" using k2 by simp
  let ?s4 = "a_upd e (\<lambda>h. h\<lparr>h_refs := h_refs h - 1\<rparr>) ?s3"
  obtain b c4 where c4: "lru_unref e c3 = Some (b, c4)" "rel c4 ?s4"
    using rel_unref [OF c3(2) k3] k(3) by auto
  have k4: "a_cells ?s4 e = Some (k\<lparr>h_valid := False, h_refs := h_refs k - 1\<rparr>)" using k3 by simp
  obtain h4 where h4: "c_heap c4 e = Some h4" "k\<lparr>h_valid := False, h_refs := h_refs k - 1\<rparr> = core h4"
    using rel_cell [OF c4(2) k4] by blast
  have ch: "h_charge h4 = h_charge k" using arg_cong [OF h4(2), of h_charge] by simp
  have "rel (c4\<lparr>c_usage := c_usage c4 - h_charge h4\<rparr>) (?s4\<lparr>a_usage := a_usage s - h_charge k\<rparr>)"
    using rel_misc(2) [OF c4(2)] rel_usage [OF c4(2)] ch by simp
  moreover have "?s4\<lparr>a_usage := a_usage s - h_charge k\<rparr> = a_evict_one e s"
    using k by (simp add: a_evict_one_def a_upd_def)
  ultimately have "rel (c4\<lparr>c_usage := c_usage c4 - h_charge h4\<rparr>) (a_evict_one e s)" by simp
  moreover have "evict_one_entry e c = Some (c4\<lparr>c_usage := c_usage c4 - h_charge h4\<rparr>)"
    using h(1) hk c1(1) key h1(2) tr c3(1) c4(1) h4(1) by (simp add: evict_one_entry_def Let_def)
  ultimately show ?thesis by blast
qed

lemma a_evict_one_charge: "a_charge (a_evict_one e s) = a_charge s"
  by (auto simp: a_charge_def a_evict_one_def a_upd_def split: option.splits)

text \<open>The loop of \<^verbatim>\<open>_evict_from_lru\<close> ends, and takes the prefix of the order.\<close>

lemma sim_evict_from:
  assumes "rel c s" and "a_ok s" and "a_order s = xs"
  shows "\<exists>c'. evict_from_lru charge n acc c = Some (acc @ evict_prefix (a_charge s) charge n xs, c') \<and>
    rel c' (fold a_evict_one (evict_prefix (a_charge s) charge n xs) s)"
  using assms
proof (induction xs arbitrary: c s n acc)
  case Nil
  obtain h where "c_heap c 0 = Some h" "h_next h = Some 0"
    using rel_order_nil [OF Nil.prems(1)] Nil.prems(3) by (auto simp: after_def)
  then show ?case using Nil.prems(1) by (simp add: evict_from_lru.simps [of charge n acc c])
next
  case (Cons e xs)
  obtain h where h: "c_heap c 0 = Some h" "h_next h = Some e"
    using rel_order_nil [OF Cons.prems(1)] Cons.prems(3) by (auto simp: after_def)
  have e: "e \<in> set (a_order s)" using Cons.prems(3) by simp
  obtain k where k: "a_cells s e = Some k" using e a_ok_order [OF Cons.prems(2)] by blast
  then have e0: "e \<noteq> 0" using rel_cell [OF Cons.prems(1)] by blast
  show ?case
  proof (cases "n < charge")
    case False
    then show ?thesis using h Cons.prems(1) by (simp add: evict_from_lru.simps [of charge n acc c])
  next
    case True
    obtain c1 where c1: "evict_one_entry e c = Some c1" "rel c1 (a_evict_one e s)"
      using sim_evict_one [OF Cons.prems(1,2) e] by blast
    have ok1: "a_ok (a_evict_one e s)" by (rule a_evict_one_ok [OF Cons.prems(2) e])
    have o1: "a_order (a_evict_one e s) = xs" using a_evict_one_order [OF k] Cons.prems(3) by simp
    have "a_cells (a_evict_one e s) e = Some (k\<lparr>h_valid := False, h_refs := h_refs k - 1\<rparr>)"
      using k by (simp add: a_evict_one_def)
    then obtain h1 where h1: "c_heap c1 e = Some h1" "k\<lparr>h_valid := False, h_refs := h_refs k - 1\<rparr> = core h1"
      using rel_cell [OF c1(2)] by blast
    have ch: "h_charge h1 = a_charge s e" using arg_cong [OF h1(2), of h_charge] k by (simp add: a_charge_def)
    obtain c' where "evict_from_lru charge (n + a_charge s e) (acc @ [e]) c1 =
        Some ((acc @ [e]) @ evict_prefix (a_charge s) charge (n + a_charge s e) xs, c')"
      "rel c' (fold a_evict_one (evict_prefix (a_charge s) charge (n + a_charge s e) xs) (a_evict_one e s))"
      using Cons.IH [OF c1(2) ok1 o1, of "n + a_charge s e" "acc @ [e]"] unfolding a_evict_one_charge by blast
    then show ?thesis using True h e0 c1(1) h1(1) ch
      by (simp add: evict_from_lru.simps [of charge n acc c])
  qed
qed

lemma sim_evict:
  assumes "rel c s" and "a_ok s"
  shows "\<exists>c'. lru_evict charge acc c = Some (acc @ fst (a_evict charge s), c') \<and> rel c' (snd (a_evict charge s))"
  using sim_evict_from [OF assms refl, of charge 0 acc] by (simp add: lru_evict_def a_evict_def Let_def)

lemma sim_free:
  assumes rel: "rel c s" and ok: "a_ok s" and e: "a_cells s e = Some h" "h_refs h = 0"
  shows "\<exists>c'. handle_free e c = Some c' \<and> rel c' (a_free e s)"
proof (rule rel_free [OF rel e(1)])
  have nv: "\<not> h_valid h" using ok e by (auto simp: a_ok_def refs_ok_def)
  then show "e \<notin> set (a_order s)" using a_ok_order [OF ok, of e] e by auto
  show "e \<notin> ran (a_index s)"
    using ok_cell_index [OF ok e(1)] nv by (auto simp: ran_def)
qed

text \<open>Freeing a list of distinct handles that nobody refers to.\<close>

lemma sim_free_all:
  assumes "rel c s" and "a_ok s" and "distinct es"
    and "\<And>e. e \<in> set es \<Longrightarrow> \<exists>h. a_cells s e = Some h \<and> h_refs h = 0"
  shows "\<exists>c'. free_all es c = Some c' \<and> rel c' (fold a_free es s) \<and> a_ok (fold a_free es s)"
  using assms
proof (induction es arbitrary: c s)
  case Nil
  then show ?case by (simp add: free_all_def)
next
  case (Cons e es)
  obtain h where h: "a_cells s e = Some h" "h_refs h = 0" using Cons.prems(4) [of e] by auto
  obtain c1 where c1: "handle_free e c = Some c1" "rel c1 (a_free e s)"
    using sim_free [OF Cons.prems(1,2) h] by blast
  have "\<exists>h. a_cells (a_free e s) b = Some h \<and> h_refs h = 0" if "b \<in> set es" for b
  proof -
    have "b \<noteq> e" using that Cons.prems(3) by auto
    then show ?thesis using Cons.prems(4) [of b] that h by (simp add: a_free_def)
  qed
  moreover have "distinct es" using Cons.prems(3) by simp
  ultimately obtain c' where "free_all es c1 = Some c'" "rel c' (fold a_free es (a_free e s))"
    "a_ok (fold a_free es (a_free e s))"
    using Cons.IH [OF c1(2) a_free_ok [OF Cons.prems(2) h]] by blast
  then show ?case using c1(1) by (simp add: free_all_def)
qed

text \<open>What a run of evictions leaves of a cell.\<close>

lemma fold_evict_cells:
  assumes "a_ok s" and "a_order s = es @ rest"
  shows "a_cells (fold a_evict_one es s) a =
    (if a \<in> set es then map_option (\<lambda>h. h\<lparr>h_valid := False, h_refs := 0\<rparr>) (a_cells s a) else a_cells s a)"
  using assms
proof (induction es arbitrary: s)
  case (Cons e es)
  have e: "e \<in> set (a_order s)" using Cons.prems(2) by simp
  then obtain h where h: "a_cells s e = Some h" "h_refs h = 1" using a_ok_order [OF Cons.prems(1)] by blast
  then have o: "a_order (a_evict_one e s) = es @ rest" using Cons.prems(2) by (simp add: a_evict_one_order)
  have "e \<notin> set es" using order_distinct [OF Cons.prems(1)] Cons.prems(2) by simp
  then show ?case using Cons.IH [OF a_evict_one_ok [OF Cons.prems(1) e] o] h
    by (auto simp: a_evict_one_def a_upd_def)
qed simp

lemma sim_prune_from:
  assumes "rel c s" and "a_ok s" and "a_order s = xs"
  shows "\<exists>c'. prune_from acc c = Some (acc @ xs, c') \<and> rel c' (fold a_evict_one xs s)"
  using assms
proof (induction xs arbitrary: c s acc)
  case Nil
  obtain h where "c_heap c 0 = Some h" "h_next h = Some 0"
    using rel_order_nil [OF Nil.prems(1)] Nil.prems(3) by (auto simp: after_def)
  then show ?case using Nil.prems(1) by (simp add: prune_from.simps [of acc c])
next
  case (Cons e xs)
  obtain h where h: "c_heap c 0 = Some h" "h_next h = Some e"
    using rel_order_nil [OF Cons.prems(1)] Cons.prems(3) by (auto simp: after_def)
  have e: "e \<in> set (a_order s)" using Cons.prems(3) by simp
  obtain k where k: "a_cells s e = Some k" using e a_ok_order [OF Cons.prems(2)] by blast
  then have e0: "e \<noteq> 0" using rel_cell [OF Cons.prems(1)] by blast
  obtain c1 where c1: "evict_one_entry e c = Some c1" "rel c1 (a_evict_one e s)"
    using sim_evict_one [OF Cons.prems(1,2) e] by blast
  have o1: "a_order (a_evict_one e s) = xs" using a_evict_one_order [OF k] Cons.prems(3) by simp
  obtain c' where "prune_from (acc @ [e]) c1 = Some ((acc @ [e]) @ xs, c')"
    "rel c' (fold a_evict_one xs (a_evict_one e s))"
    using Cons.IH [OF c1(2) a_evict_one_ok [OF Cons.prems(2) e] o1] by blast
  then show ?case using h e0 c1(1) by (simp add: prune_from.simps [of acc c])
qed

lemma sim_prune:
  assumes rel: "rel c s" and ok: "a_ok s"
  shows "\<exists>c'. lru_prune c = Some (fst (a_prune s), c') \<and> rel c' (snd (a_prune s)) \<and> a_ok (snd (a_prune s))"
proof -
  let ?es = "a_order s"
  have sp: "a_order s = ?es @ []" by simp
  obtain c1 where c1: "prune_from [] c = Some (?es, c1)" "rel c1 (fold a_evict_one ?es s)"
    using sim_prune_from [OF rel ok refl, of "[]"] by auto
  have ok1: "a_ok (fold a_evict_one ?es s)" using fold_evict_ok [OF ok sp] by blast
  have "\<exists>h. a_cells (fold a_evict_one ?es s) e = Some h \<and> h_refs h = 0" if "e \<in> set ?es" for e
    using fold_evict_cells [OF ok sp, of e] that a_ok_order [OF ok, of e] by auto
  then obtain c2 where "free_all ?es c1 = Some c2" "rel c2 (fold a_free ?es (fold a_evict_one ?es s))"
    "a_ok (fold a_free ?es (fold a_evict_one ?es s))"
    using sim_free_all [OF c1(2) ok1 order_distinct [OF ok]] by blast
  then show ?thesis using c1(1) by (simp add: lru_prune_def a_prune_def)
qed

section \<open>Insertion and erasure\<close>

lemma a_upd_twice: "a_upd e f (a_upd e g s) = a_upd e (\<lambda>h. f (g h)) s"
  by (cases "a_cells s e") (simp_all add: a_upd_def)

lemma a_upd_order_usage:
  "a_upd e f (s\<lparr>a_order := o1\<rparr>) = (a_upd e f s)\<lparr>a_order := o1\<rparr>"
  "a_upd e f (s\<lparr>a_usage := u\<rparr>) = (a_upd e f s)\<lparr>a_usage := u\<rparr>"
  by (simp_all add: a_upd_def)

lemma refs_valid_commute:
  "h\<lparr>h_refs := r, h_valid := v\<rparr> = h\<lparr>h_valid := v, h_refs := r\<rparr>"
  by simp

lemma a_retire_last:
  assumes "a_cells s e = Some k" and "h_refs k = 1"
  shows "a_retire e s = a_free e (s\<lparr>a_order := remove1 e (a_order s), a_usage := a_usage s - h_charge k\<rparr>)"
  using assms by (simp add: a_retire_def Let_def a_upd_def a_free_def)

lemma a_retire_kept:
  assumes "a_cells s e = Some k" and "h_refs k \<noteq> 1"
  shows "a_retire e s = a_upd e (\<lambda>h. h\<lparr>h_valid := False, h_refs := h_refs h - 1\<rparr>) s"
  using assms by (simp add: a_retire_def Let_def)

definition retire_replaced :: "addr \<Rightarrow> lru_container \<Rightarrow> lru_container option" where
  "retire_replaced old c =
     do { c \<leftarrow> lru_upd old (h_valid_update (\<lambda>_. False)) c;
          (last_ref, c) \<leftarrow> lru_unref old c;
          (last_ref_list, c) \<leftarrow>
            (if last_ref then
               do { h \<leftarrow> c_heap c old;
                    c \<leftarrow> lru_remove old (c\<lparr>c_usage := c_usage c - h_charge h\<rparr>);
                    Some ([old], c) }
             else Some ([], c));
          free_all last_ref_list c }"

lemma sim_retire_replaced:
  assumes rel: "rel c s" and k: "a_cells s e = Some k" "h_refs k \<noteq> 0"
    and ord: "e \<in> set (a_order s) \<longleftrightarrow> h_refs k = 1" "distinct (a_order s)" and idx: "e \<notin> ran (a_index s)"
  shows "\<exists>c'. retire_replaced e c = Some c' \<and> rel c' (a_retire e s)"
proof -
  let ?s1 = "a_upd e (h_valid_update (\<lambda>_. False)) s"
  obtain c1 where c1: "lru_upd e (h_valid_update (\<lambda>_. False)) c = Some c1" "rel c1 ?s1"
    using rel_upd [OF rel k(1) keeps_links_simps(1)] by blast
  have k1: "a_cells ?s1 e = Some (k\<lparr>h_valid := False\<rparr>)" using k by simp
  let ?s2 = "a_upd e (\<lambda>h. h\<lparr>h_refs := h_refs h - 1\<rparr>) ?s1"
  obtain c2 where c2: "lru_unref e c1 = Some (h_refs k = 1, c2)" "rel c2 ?s2"
    using rel_unref [OF c1(2) k1] k(2) by auto
  have k2: "a_cells ?s2 e = Some (k\<lparr>h_valid := False, h_refs := h_refs k - 1\<rparr>)" using k1 by simp
  show ?thesis
  proof (cases "h_refs k = 1")
    case False
    then have "a_retire e s = ?s2" using k(1) by (simp add: a_retire_kept a_upd_twice)
    then show ?thesis using c1(1) c2 False by (simp add: retire_replaced_def free_all_def)
  next
    case True
    obtain h where h: "c_heap c2 e = Some h" "k\<lparr>h_valid := False, h_refs := h_refs k - 1\<rparr> = core h"
      using rel_cell [OF c2(2) k2] by blast
    have ch: "h_charge h = h_charge k" using arg_cong [OF h(2), of h_charge] by simp
    let ?s3 = "?s2\<lparr>a_usage := a_usage s - h_charge k\<rparr>"
    have rel3: "rel (c2\<lparr>c_usage := c_usage c2 - h_charge h\<rparr>) ?s3"
      using rel_misc(2) [OF c2(2)] rel_usage [OF c2(2)] ch by simp
    let ?s4 = "?s3\<lparr>a_order := remove1 e (a_order s)\<rparr>"
    obtain c4 where c4: "lru_remove e (c2\<lparr>c_usage := c_usage c2 - h_charge h\<rparr>) = Some c4" "rel c4 ?s4"
      using rel_remove [OF rel3, of e] ord True by auto
    have "a_cells ?s4 e = Some (k\<lparr>h_valid := False, h_refs := h_refs k - 1\<rparr>)" using k2 by simp
    moreover have "e \<notin> set (a_order ?s4)" "e \<notin> ran (a_index ?s4)" using ord(2) idx by simp_all
    ultimately obtain c5 where c5: "handle_free e c4 = Some c5" "rel c5 (a_free e ?s4)"
      using rel_free [OF c4(2)] by blast
    have "a_retire e s = a_free e ?s4"
      using k True by (simp add: a_retire_last a_free_def a_upd_def)
    then show ?thesis using c1(1) c2(1) True h(1) c4(1) c5 by (simp add: retire_replaced_def free_all_def)
  qed
qed

lemma free_all_Nil [simp]: "free_all [] c = Some c"
  by (simp add: free_all_def)

lemma lru_insert_retire:
  "lru_insert alloc a key hash charge value c =
     do { let e = \<lparr>h_value = value, h_next_hash = None, h_next = None, h_prev = None, h_charge = charge,
                   h_key_data = key, h_valid = True, h_refs = 2, h_hash = hash\<rparr>;
          (old, hp, t) \<leftarrow> table_insert alloc ((c_heap c)(a \<mapsto> e)) (c_table c) a;
          let c = c\<lparr>c_heap := hp, c_table := t, c_usage := c_usage c + charge\<rparr>;
          c \<leftarrow> (case old of None \<Rightarrow> Some c | Some old \<Rightarrow> retire_replaced old c);
          Some (a, c) }"
  unfolding lru_insert_def retire_replaced_def Let_def
  by (auto simp: Option.bind_assoc split: option.splits Option.bind_splits)

lemma sim_insert:
  assumes rel: "rel c s" and ok: "a_ok s" and a: "a \<noteq> 0" "c_heap c a = None"
    and card: "card (ran (a_index s)) < 2 ^ 31"
  shows "\<exists>c'. lru_insert alloc a key hash charge value c = Some (a, c') \<and>
    rel c' (a_insert a key hash charge value s)"
proof -
  let ?e = "\<lparr>h_value = value, h_next_hash = None, h_next = None, h_prev = None, h_charge = charge,
                   h_key_data = key, h_valid = True, h_refs = 2, h_hash = hash\<rparr>"
  let ?k = "new_handle key hash charge value"
  have core: "core ?e = ?k" by (simp add: core_def new_handle_def null_handle_def)
  let ?s1 = "s\<lparr>a_cells := (a_cells s)(a \<mapsto> ?k)\<rparr>"
  have rel1: "rel (c\<lparr>c_heap := (c_heap c)(a \<mapsto> ?e)\<rparr>) ?s1" and new: "a \<notin> ran (a_index s)"
    using rel_new_cell(1,3) [OF rel a, of ?e] core by simp_all
  have k1: "a_cells ?s1 a = Some ?k" by simp
  let ?s2 = "?s1\<lparr>a_index := (a_index s)((hash, key) \<mapsto> a)\<rparr>"
  obtain hp t where ti: "table_insert alloc ((c_heap c)(a \<mapsto> ?e)) (c_table c) a = Some (a_index s (hash, key), hp, t)"
    and rel2: "rel (c\<lparr>c_heap := hp, c_table := t\<rparr>) ?s2"
    using rel_table_insert [OF rel1 _ k1, of alloc] new card by auto
  let ?c3 = "c\<lparr>c_heap := hp, c_table := t, c_usage := c_usage c + charge\<rparr>"
  let ?s3 = "?s2\<lparr>a_usage := a_usage s + charge\<rparr>"
  have rel3: "rel ?c3 ?s3" using rel_misc(2) [OF rel2, of "c_usage c + charge"] rel_usage [OF rel] by simp
  show ?thesis
  proof (cases "a_index s (hash, key)")
    case None
    then have "a_insert a key hash charge value s = ?s3" by (simp add: a_insert_def new_handle_def)
    then show ?thesis using ti rel3 None by (simp add: lru_insert_retire Let_def)
  next
    case (Some old)
    obtain k where k: "a_cells s old = Some k" "h_valid k" "h_refs k \<noteq> 0" using a_ok_index [OF ok Some] by blast
    have ne: "old \<noteq> a" using rel_cell [OF rel k(1)] a(2) by auto
    have "old \<notin> ran (a_index ?s3)"
    proof
      assume "old \<in> ran (a_index ?s3)"
      then obtain i where i: "a_index ?s3 i = Some old" by (auto simp: ran_def)
      then have "i \<noteq> (hash, key)" "a_index s i = Some old" using ne by (auto split: if_splits)
      then show False using rel_index_inj [OF rel _ Some, of i] by simp
    qed
    moreover have "old \<in> set (a_order ?s3) \<longleftrightarrow> h_refs k = 1" using a_ok_order [OF ok, of old] k by simp
    moreover have "a_cells ?s3 old = Some k" using k ne by simp
    ultimately obtain c' where "retire_replaced old ?c3 = Some c'" "rel c' (a_retire old ?s3)"
      using sim_retire_replaced [OF rel3, of old k] k(3) order_distinct [OF ok] by auto
    moreover have "a_insert a key hash charge value s = a_retire old ?s3"
      using Some by (simp add: a_insert_def new_handle_def)
    ultimately show ?thesis using ti Some by (simp add: lru_insert_retire Let_def)
  qed
qed

lemma sim_erase:
  assumes rel: "rel c s" and ok: "a_ok s"
  shows "\<exists>c'. lru_erase key hash c = Some c' \<and> rel c' (a_erase key hash s)"
proof -
  let ?s1 = "s\<lparr>a_index := (a_index s)((hash, key) := None)\<rparr>"
  obtain hp t where tr: "table_remove (c_heap c) (c_table c) key hash = Some (a_index s (hash, key), hp, t)"
    and rel1: "rel (c\<lparr>c_heap := hp, c_table := t\<rparr>) ?s1"
    using rel_table_remove [OF rel] by blast
  show ?thesis
  proof (cases "a_index s (hash, key)")
    case None
    then have "?s1 = s" by (simp add: fun_upd_idem)
    then show ?thesis using tr rel1 None by (simp add: lru_erase_def a_erase_def)
  next
    case (Some e)
    obtain k where k: "a_cells s e = Some k" "h_valid k" "h_refs k \<noteq> 0" using a_ok_index [OF ok Some] by blast
    have idx: "e \<notin> ran (a_index ?s1)"
    proof
      assume "e \<in> ran (a_index ?s1)"
      then obtain i where "a_index ?s1 i = Some e" by (auto simp: ran_def)
      then show False using rel_index_inj [OF rel _ Some, of i] by (auto split: if_splits)
    qed
    let ?s2 = "a_upd e (\<lambda>h. h\<lparr>h_refs := h_refs h - 1\<rparr>) ?s1"
    have k1: "a_cells ?s1 e = Some k" using k by simp
    obtain c2 where c2: "lru_unref e (c\<lparr>c_heap := hp, c_table := t\<rparr>) = Some (h_refs k = 1, c2)" "rel c2 ?s2"
      using rel_unref [OF rel1 k1 k(3)] by blast
    have k2: "a_cells ?s2 e = Some (k\<lparr>h_refs := h_refs k - 1\<rparr>)" using k1 by simp
    obtain h where h: "c_heap c2 e = Some h" "k\<lparr>h_refs := h_refs k - 1\<rparr> = core h" using rel_cell [OF c2(2) k2] by blast
    have hf: "h_charge h = h_charge k" "h_valid h"
      using arg_cong [OF h(2), of h_charge] arg_cong [OF h(2), of h_valid] k(2) by simp_all
    let ?s3 = "if h_refs k = 1 then ?s2\<lparr>a_usage := a_usage s - h_charge k, a_order := remove1 e (a_order s)\<rparr> else ?s2"
    have "\<exists>c3. (if h_refs k = 1 then lru_remove e (c2\<lparr>c_usage := c_usage c2 - h_charge h\<rparr>) else Some c2) = Some c3 \<and> rel c3 ?s3"
    proof (cases "h_refs k = 1")
      case True
      have rel3: "rel (c2\<lparr>c_usage := c_usage c2 - h_charge h\<rparr>) (?s2\<lparr>a_usage := a_usage s - h_charge k\<rparr>)"
        using rel_misc(2) [OF c2(2)] rel_usage [OF c2(2)] hf by simp
      show ?thesis using rel_remove [OF rel3, of e] True a_ok_order [OF ok, of e] k by simp
    next
      case False
      then show ?thesis using c2(2) by simp
    qed
    then obtain c3 where c3: "(if h_refs k = 1 then lru_remove e (c2\<lparr>c_usage := c_usage c2 - h_charge h\<rparr>) else Some c2) = Some c3"
      "rel c3 ?s3" by blast
    have k3: "a_cells ?s3 e = Some (k\<lparr>h_refs := h_refs k - 1\<rparr>)" using k2 by simp
    let ?s4 = "a_upd e (h_valid_update (\<lambda>_. False)) ?s3"
    obtain c4 where c4: "lru_upd e (h_valid_update (\<lambda>_. False)) c3 = Some c4" "rel c4 ?s4"
      using rel_upd [OF c3(2) k3 keeps_links_simps(1)] by blast
    have k4: "a_cells ?s4 e = Some (k\<lparr>h_refs := h_refs k - 1, h_valid := False\<rparr>)" using k3 by simp
    have "\<exists>c5. (if h_refs k = 1 then handle_free e c4 else Some c4) = Some c5 \<and> rel c5 (a_erase key hash s)"
    proof (cases "h_refs k = 1")
      case True
      have "e \<notin> set (a_order ?s4)" "e \<notin> ran (a_index ?s4)" using True order_distinct [OF ok] idx by simp_all
      then obtain c5 where "handle_free e c4 = Some c5" "rel c5 (a_free e ?s4)"
        using rel_free [OF c4(2) k4] by blast
      moreover have "a_erase key hash s = a_free e ?s4"
        using Some k True by (simp add: a_erase_def a_retire_last a_free_def a_upd_def)
      ultimately show ?thesis using True by simp
    next
      case False
      then have "a_erase key hash s = ?s4" using Some k by (simp add: a_erase_def a_retire_kept a_upd_twice a_upd_def refs_valid_commute)
      then show ?thesis using c4 False by simp
    qed
    then show ?thesis using tr Some c2(1) h(1) hf c3(1) c4(1)
      by (auto simp: lru_erase_def Let_def split: if_splits)
  qed
qed

section \<open>Runs\<close>

text \<open>
  A client's calls. \<open>Insert\<close> carries the address \<^verbatim>\<open>malloc\<close> returns and whether \<^verbatim>\<open>new\<close> succeeds if the table
  grows; \<open>Free\<close> is the \<^verbatim>\<open>free()\<close> the eviction policy makes of a handle it was given by \<^verbatim>\<open>evict\<close>.
\<close>

datatype lru_op =
    Insert bool addr lru_key u32 u64 "lru_key option"
  | Lookup lru_key u32
  | Release addr
  | Erase lru_key u32
  | Evict u64
  | Prune
  | Free addr

fun lru_step :: "lru_op \<Rightarrow> lru_container \<Rightarrow> lru_container option" where
  "lru_step (Insert alloc a key hash charge value) c = map_option snd (lru_insert alloc a key hash charge value c)"
| "lru_step (Lookup key hash) c = map_option snd (lru_lookup key hash c)"
| "lru_step (Release e) c = lru_release (Some e) c"
| "lru_step (Erase key hash) c = lru_erase key hash c"
| "lru_step (Evict charge) c = map_option snd (lru_evict charge [] c)"
| "lru_step Prune c = map_option snd (lru_prune c)"
| "lru_step (Free e) c = handle_free e c"

fun abs_step :: "lru_op \<Rightarrow> lru_abs \<Rightarrow> lru_abs" where
  "abs_step (Insert alloc a key hash charge value) s = a_insert a key hash charge value s"
| "abs_step (Lookup key hash) s = snd (a_lookup key hash s)"
| "abs_step (Release e) s = a_release e s"
| "abs_step (Erase key hash) s = a_erase key hash s"
| "abs_step (Evict charge) s = snd (a_evict charge s)"
| "abs_step Prune s = snd (a_prune s)"
| "abs_step (Free e) s = a_free e s"

text \<open>
  The contract with the client: \<^verbatim>\<open>malloc\<close> returns a fresh address, reference counts do not overflow, a
  handle is released by who holds it, and freed only when nobody does.
\<close>

fun legal :: "lru_op \<Rightarrow> lru_abs \<Rightarrow> bool" where
  "legal (Insert alloc a key hash charge value) s =
     (a \<noteq> 0 \<and> a_cells s a = None)"
| "legal (Lookup key hash) s = (case a_index s (hash, key) of None \<Rightarrow> True
     | Some e \<Rightarrow> (case a_cells s e of None \<Rightarrow> True | Some h \<Rightarrow> h_refs h + 1 \<noteq> 0))"
| "legal (Release e) s = held s e"
| "legal (Free e) s = (case a_cells s e of None \<Rightarrow> False | Some h \<Rightarrow> h_refs h = 0)"
| "legal _ s = True"

lemma step_refines:
  assumes rel: "rel c s" and ok: "a_ok s" and legal: "legal op s" and card: "card (ran (a_index s)) < 2 ^ 31"
  shows "\<exists>c'. lru_step op c = Some c' \<and> rel c' (abs_step op s) \<and> a_ok (abs_step op s)"
proof (cases op)
  case (Insert alloc a key hash charge v)
  then have a: "a \<noteq> 0" "a_cells s a = None" using legal by simp_all
  have "c_heap c a = None" using a(1,2) rel by (simp add: rel_def cells_rel_def cells_def)
  then show ?thesis using sim_insert [OF rel ok a(1) _ card, of alloc key hash charge v]
      a_insert_ok [OF ok a(2)] Insert by auto
next
  case (Lookup key hash)
  have "a_ok (snd (a_lookup key hash s))"
    by (rule a_lookup_ok [OF ok]) (use legal Lookup in simp)
  then show ?thesis using sim_lookup [OF rel ok, of key hash] Lookup by auto
next
  case (Release e)
  then show ?thesis using sim_release [OF rel ok] a_release_ok [OF ok] legal by simp
next
  case (Erase key hash)
  then show ?thesis using sim_erase [OF rel ok] a_erase_ok [OF ok] by simp
next
  case (Evict charge)
  then show ?thesis using sim_evict [OF rel ok, of charge "[]"] a_evict_ok [OF ok] by auto
next
  case Prune
  then show ?thesis using sim_prune [OF rel ok] by auto
next
  case (Free e)
  then obtain h where "a_cells s e = Some h" "h_refs h = 0" using legal by (auto split: option.splits)
  then show ?thesis using sim_free [OF rel ok] a_free_ok [OF ok] Free by simp
qed

fun legal_run :: "lru_op list \<Rightarrow> lru_abs \<Rightarrow> bool" where
  "legal_run [] s = True"
| "legal_run (op # ops) s = (legal op s \<and> legal_run ops (abs_step op s))"

definition abs_empty :: lru_abs where
  "abs_empty = \<lparr>a_cells = Map.empty, a_index = Map.empty, a_order = [], a_usage = 0, a_lookups = 0, a_freed = []\<rparr>"

lemma abs_empty_ok: "a_ok abs_empty"
  by (simp add: a_ok_def abs_empty_def index_ok_def refs_ok_def evictable_def)

lemma lru_new_rel: "\<exists>c. lru_new True = Some c \<and> rel c abs_empty"
proof -
  let ?hp = "[0 \<mapsto> null_handle\<lparr>h_next := Some 0, h_prev := Some 0\<rparr>]"
  obtain t where t: "table_new True ?hp = Some (True, ?hp, t)" "table_rep ?hp t {}"
    using table_new_spec [of ?hp] by blast
  have "nx ?hp = [0 \<mapsto> 0]" "pv ?hp = [0 \<mapsto> 0]" "(cells ?hp)(0 := None) = Map.empty"
    by (auto simp: nx_def pv_def cells_def fun_eq_iff)
  then have "rel \<lparr>c_heap = ?hp, c_table = t, c_usage = 0, c_lookups = 0, c_freed = []\<rparr> abs_empty"
    using t(2) by (simp add: rel_def linked_def ring_def abs_empty_def cells_rel_def index_rel_def)
  then show ?thesis using t(1) by (simp add: lru_new_def)
qed

text \<open>Each step adds at most one handle to the index, so fewer than \<open>2 ^ 31\<close> steps cannot fill the table.\<close>

lemma ran_upd_subset: "ran (m(k := None)) \<subseteq> ran m" "ran (m(k \<mapsto> a)) \<subseteq> insert a (ran m)"
  by (auto simp: ran_def)

lemma retire_index [simp]: "a_index (a_retire e s) = a_index s" "a_index (a_free e s) = a_index s"
  by (auto simp: a_retire_def a_free_def Let_def split: option.splits)

lemma fold_free_index [simp]: "a_index (fold a_free es s) = a_index s"
  by (induction es arbitrary: s) simp_all

lemma fold_evict_index: "ran (a_index (fold a_evict_one es s)) \<subseteq> ran (a_index s)"
proof (induction es arbitrary: s)
  case (Cons e es)
  have "ran (a_index (a_evict_one e s)) \<subseteq> ran (a_index s)"
    by (simp add: a_evict_one_def ran_upd_subset(1) split: option.split)
  then show ?case using Cons.IH [of "a_evict_one e s"] by simp
qed simp

lemma step_ran: "\<exists>a. ran (a_index (abs_step op s)) \<subseteq> insert a (ran (a_index s))"
proof (cases op)
  case (Insert alloc a key hash charge v)
  have "ran (a_index (a_insert a key hash charge v s)) \<subseteq> insert a (ran (a_index s))"
    using ran_upd_subset(2) [of "a_index s" "(hash, key)" a] by (simp add: a_insert_def Let_def split: option.split)
  then show ?thesis using Insert by auto
next
  case (Erase key hash)
  have "ran (a_index (a_erase key hash s)) \<subseteq> ran (a_index s)"
    using ran_upd_subset(1) [of "a_index s" "(hash, key)"] by (simp add: a_erase_def split: option.split)
  then show ?thesis using Erase by auto
next
  case (Evict charge)
  then show ?thesis using fold_evict_index [of "evict_prefix (a_charge s) charge 0 (a_order s)" s]
    by (auto simp: a_evict_def Let_def)
next
  case Prune
  then show ?thesis using fold_evict_index [of "a_order s" s] by (auto simp: a_prune_def)
next
  case (Lookup key hash)
  then show ?thesis by (auto simp: a_lookup_def Let_def split: option.split)
next
  case (Release e)
  then show ?thesis by (auto simp: a_release_def Let_def split: option.split)
qed auto

lemma step_card:
  assumes "a_ok s"
  shows "card (ran (a_index (abs_step op s))) \<le> Suc (card (ran (a_index s)))"
proof -
  have "ran (a_index s) \<subseteq> dom (a_cells s)"
    using a_ok_index [OF assms] by (fastforce simp: ran_def)
  then have fin: "finite (ran (a_index s))" using assms finite_subset by (auto simp: a_ok_def)
  obtain a where "ran (a_index (abs_step op s)) \<subseteq> insert a (ran (a_index s))" using step_ran by blast
  then have "card (ran (a_index (abs_step op s))) \<le> card (insert a (ran (a_index s)))"
    using fin by (intro card_mono) auto
  also have "\<dots> \<le> Suc (card (ran (a_index s)))" using fin by (simp add: card_insert_if)
  finally show ?thesis .
qed

lemma run_refines:
  assumes "rel c s" and "a_ok s" and "legal_run ops s" and "card (ran (a_index s)) + length ops \<le> 2 ^ 31"
  shows "\<exists>c'. fold_opt lru_step ops c = Some c' \<and> rel c' (fold abs_step ops s) \<and> a_ok (fold abs_step ops s)"
  using assms
proof (induction ops arbitrary: c s)
  case (Cons op ops)
  then obtain c1 where "lru_step op c = Some c1" "rel c1 (abs_step op s)" "a_ok (abs_step op s)"
    using step_refines [of c s op] by auto
  moreover have "card (ran (a_index (abs_step op s))) + length ops \<le> 2 ^ 31"
    using step_card [OF Cons.prems(2), of op] Cons.prems(4) by simp
  ultimately show ?case using Cons.IH [of c1 "abs_step op s"] Cons.prems by simp
qed simp

lemma new_run_refines:
  assumes "legal_run ops abs_empty" and "length ops \<le> 2 ^ 31"
  shows "\<exists>c0 c. lru_new True = Some c0 \<and> fold_opt lru_step ops c0 = Some c \<and>
    rel c (fold abs_step ops abs_empty) \<and> a_ok (fold abs_step ops abs_empty)"
  using lru_new_rel run_refines [OF _ abs_empty_ok assms(1)] assms(2) by (auto simp: abs_empty_def)

text \<open>The list that the links make is unique.\<close>

lemma path_unique:
  "path f g (x # xs @ [0]) \<Longrightarrow> path f' g' (x # ys @ [0]) \<Longrightarrow> f' = f \<Longrightarrow> 0 \<notin> set xs \<Longrightarrow> 0 \<notin> set ys \<Longrightarrow> xs = ys"
proof (induction xs arbitrary: x ys)
  case Nil
  then show ?case by (cases ys) auto
next
  case (Cons a xs)
  then obtain ys' where "ys = a # ys'" by (cases ys) auto
  then show ?case using Cons.IH [of a ys'] Cons.prems by simp
qed

lemma linked_unique: "linked hp xs \<Longrightarrow> linked hp ys \<Longrightarrow> xs = ys"
  unfolding linked_def ring_def by (rule path_unique [of "nx hp" "pv hp" 0 xs "nx hp" "pv hp" ys]) auto

lemma rel_linked: "rel c s \<Longrightarrow> linked (c_heap c) xs = (xs = a_order s)"
  using linked_unique by (auto simp: rel_def)

section \<open>Properties\<close>

text \<open>
  C6: whatever a client that keeps the contract does, no operation of the container dereferences a
  null or freed handle, fails a \<^verbatim>\<open>DCHECK\<close>, or loops forever.
\<close>

theorem lru_runs_are_safe:
  assumes "legal_run ops abs_empty" and "length ops \<le> 2 ^ 31"
  shows "\<exists>c0 c. lru_new True = Some c0 \<and> fold_opt lru_step ops c0 = Some c"
  using new_run_refines [OF assms] by blast

definition demo_ops :: "lru_op list" where
  "demo_ops = [Insert True 1 [65] 3 10 None, Release 1, Insert True 2 [66] 7 20 None, Lookup [65] 3, Release 1,
     Release 2, Evict 5, Free 1, Insert True 1 [65] 3 30 None, Erase [65] 3, Release 1, Prune]"

lemma demo_ops_legal: "legal_run demo_ops abs_empty"
  by code_simp

theorem lru_runs_are_safe_witness:
  "\<exists>c0 c. lru_new True = Some c0 \<and> fold_opt lru_step demo_ops c0 = Some c"
  by (rule lru_runs_are_safe [OF demo_ops_legal]) (simp add: demo_ops_def)

text \<open>
  C7: after any such run \<^verbatim>\<open>get_usage()\<close> is the sum of the charges of the handles that somebody (the
  container or a client) still refers to.
\<close>

theorem lru_usage_is_sum_of_charges:
  assumes "legal_run ops abs_empty" and "length ops \<le> 2 ^ 31"
    and "lru_new True = Some c0" and "fold_opt lru_step ops c0 = Some c"
  shows "get_usage c = (\<Sum>a \<in> dom (c_heap c) - {0}. live_charge (c_heap c a))"
proof -
  have rel: "rel c (fold abs_step ops abs_empty)" and ok: "a_ok (fold abs_step ops abs_empty)"
    using new_run_refines [OF assms(1,2)] assms(3,4) by auto
  let ?s = "fold abs_step ops abs_empty"
  have m: "a_cells ?s = (cells (c_heap c))(0 := None)" using rel by (simp add: rel_def cells_rel_def)
  have d: "dom (a_cells ?s) = dom (c_heap c) - {0}" unfolding m by (auto simp: cells_def domIff)
  have "live_charge (a_cells ?s a) = live_charge (c_heap c a)" if "a \<noteq> 0" for a
    unfolding m using that by (cases "c_heap c a") (simp_all add: cells_def live_charge_def)
  then have "(\<Sum>a \<in> dom (a_cells ?s). live_charge (a_cells ?s a)) =
      (\<Sum>a \<in> dom (c_heap c) - {0}. live_charge (c_heap c a))"
    unfolding d by (intro sum.cong) auto
  then show ?thesis using rel_usage [OF rel] ok by (simp add: get_usage_def a_ok_def)
qed

theorem lru_usage_is_sum_of_charges_witness:
  "\<exists>c0 c. lru_new True = Some c0 \<and> fold_opt lru_step demo_ops c0 = Some c \<and>
     get_usage c = (\<Sum>a \<in> dom (c_heap c) - {0}. live_charge (c_heap c a))"
proof -
  have len: "length demo_ops \<le> 2 ^ 31" by (simp add: demo_ops_def)
  obtain c0 c where "lru_new True = Some c0" "fold_opt lru_step demo_ops c0 = Some c"
    using new_run_refines [OF demo_ops_legal len] by blast
  then show ?thesis using lru_usage_is_sum_of_charges [OF demo_ops_legal len] by blast
qed

lemma evict_prefix_enough:
  assumes "unat n + sum_list (map (\<lambda>a. unat (ch a)) xs) < 2 ^ 64"
  shows "evict_prefix ch charge n xs = xs \<or>
    unat charge \<le> unat n + sum_list (map (\<lambda>a. unat (ch a)) (evict_prefix ch charge n xs))"
  using assms
proof (induction xs arbitrary: n)
  case (Cons a xs)
  have "unat (n + ch a) = unat n + unat (ch a)" using Cons.prems by (simp add: unat_plus_no_wrap)
  then show ?case using Cons.IH [of "n + ch a"] Cons.prems by (auto simp: word_less_nat_alt)
qed simp

lemma evict_prefix_minimal:
  assumes "unat n + sum_list (map (\<lambda>a. unat (ch a)) xs) < 2 ^ 64"
    and "k < length (evict_prefix ch charge n xs)"
  shows "unat n + sum_list (map (\<lambda>a. unat (ch a)) (take k (evict_prefix ch charge n xs))) < unat charge"
  using assms
proof (induction xs arbitrary: n k)
  case (Cons a xs)
  have lt: "n < charge" using Cons.prems(2) by (auto split: if_splits)
  show ?case
  proof (cases k)
    case 0
    then show ?thesis using lt by (simp add: word_less_nat_alt)
  next
    case (Suc j)
    have "unat (n + ch a) = unat n + unat (ch a)" using Cons.prems(1) by (simp add: unat_plus_no_wrap)
    then show ?thesis using Cons.IH [of "n + ch a" j] Cons.prems Suc lt by simp
  qed
qed simp

definition handle_charge :: "lru_container \<Rightarrow> addr \<Rightarrow> nat" where
  "handle_charge c a = (case c_heap c a of None \<Rightarrow> 0 | Some h \<Rightarrow> unat (h_charge h))"

lemma rel_charge: "rel c s \<Longrightarrow> a \<in> set (a_order s) \<Longrightarrow> a_ok s \<Longrightarrow> unat (a_charge s a) = handle_charge c a"
  using rel_cell [of c s a] a_ok_order [of s a] by (fastforce simp: a_charge_def handle_charge_def)

text \<open>
  C8: \<^verbatim>\<open>evict(charge)\<close> takes handles from the old end of the list, in order; it takes enough that
  their charges reach \<open>charge\<close>, unless it takes them all, and it takes no more than needed.
\<close>

theorem evict_takes_oldest_until_enough:
  assumes "rel c s" and "a_ok s" and "linked (c_heap c) xs"
    and "sum_list (map (handle_charge c) xs) < 2 ^ 64"
  shows "\<exists>es rest c'. lru_evict charge [] c = Some (es, c') \<and> xs = es @ rest \<and> linked (c_heap c') rest \<and>
    (rest = [] \<or> unat charge \<le> sum_list (map (handle_charge c) es)) \<and>
    (\<forall>k < length es. sum_list (map (handle_charge c) (take k es)) < unat charge)"
proof -
  have xs: "xs = a_order s" using assms(1,3) rel_linked by blast
  let ?es = "evict_prefix (a_charge s) charge 0 xs"
  obtain rest where rest: "xs = ?es @ rest" using evict_prefix_split by blast
  obtain c' where c': "lru_evict charge [] c = Some (?es, c')" "rel c' (fold a_evict_one ?es s)"
    using sim_evict [OF assms(1,2), of charge "[]"] xs by (auto simp: a_evict_def Let_def)
  have "a_order (fold a_evict_one ?es s) = rest" using fold_evict_ok [OF assms(2)] rest xs by blast
  then have l: "linked (c_heap c') rest" using c'(2) rel_linked by blast
  have eq: "map (handle_charge c) ys = map (\<lambda>a. unat (a_charge s a)) ys" if "set ys \<subseteq> set xs" for ys
    using rel_charge [OF assms(1) _ assms(2)] that xs by auto
  have le: "unat (0 :: u64) + sum_list (map (\<lambda>a. unat (a_charge s a)) xs) < 2 ^ 64"
    using assms(4) eq [of xs] by simp
  have sub: "set ?es \<subseteq> set xs" using rest by (metis Un_upper1 set_append)
  have "rest = [] \<or> unat charge \<le> sum_list (map (handle_charge c) ?es)"
    using evict_prefix_enough [OF le, of charge] rest unfolding eq [OF sub]
    by (metis add_0 append_self_conv unat_0)
  moreover have "sum_list (map (handle_charge c) (take k ?es)) < unat charge" if "k < length ?es" for k
  proof -
    have "set (take k ?es) \<subseteq> set xs" using sub set_take_subset by fast
    then have "map (handle_charge c) (take k ?es) = map (\<lambda>a. unat (a_charge s a)) (take k ?es)" by (rule eq)
    then show ?thesis using evict_prefix_minimal [OF le that] by (simp only: unat_0 add_0)
  qed
  ultimately show ?thesis using c'(1) rest l by blast
qed

definition demo_fill :: "lru_op list" where
  "demo_fill = [Insert True 1 [65] 3 10 None, Insert True 2 [66] 7 20 None, Release 1, Release 2,
     Insert True 3 [67] 9 40 None]"

lemma demo_fill_state:
  "\<exists>c0 c. lru_new True = Some c0 \<and> fold_opt lru_step demo_fill c0 = Some c \<and>
     rel c (fold abs_step demo_fill abs_empty) \<and> a_ok (fold abs_step demo_fill abs_empty)"
proof (rule new_run_refines)
  show "legal_run demo_fill abs_empty" by code_simp
qed (simp add: demo_fill_def)

lemma demo_fill_order: "a_order (fold abs_step demo_fill abs_empty) = [1, 2]"
  by code_simp

theorem evict_takes_oldest_until_enough_witness:
  "\<exists>c es rest c'. linked (c_heap c) [1, 2] \<and> lru_evict 5 [] c = Some (es, c') \<and> [1, 2] = es @ rest \<and>
     linked (c_heap c') rest"
proof -
  obtain c where c: "rel c (fold abs_step demo_fill abs_empty)" "a_ok (fold abs_step demo_fill abs_empty)"
    using demo_fill_state by blast
  have l: "linked (c_heap c) [1, 2]" using rel_linked [OF c(1)] demo_fill_order by simp
  have "a_charge (fold abs_step demo_fill abs_empty) 1 = 10" "a_charge (fold abs_step demo_fill abs_empty) 2 = 20"
    by code_simp+
  then have "sum_list (map (handle_charge c) [1, 2]) = 30"
    using rel_charge [OF c(1) _ c(2), of 1] rel_charge [OF c(1) _ c(2), of 2] demo_fill_order by simp
  then have "sum_list (map (handle_charge c) [1, 2]) < 2 ^ 64" by simp
  then show ?thesis using evict_takes_oldest_until_enough [OF c l] l by blast
qed

text \<open>
  C24: a handle that a client holds is never evicted, and after an eviction its key still finds it.
\<close>

theorem evict_spares_held_handles:
  assumes "rel c s" and "a_ok s" and "held s a"
    and "table_lookup (c_heap c) (c_table c) key hash = Some (Some a)"
  shows "\<exists>es c'. lru_evict charge [] c = Some (es, c') \<and> a \<notin> set es \<and>
    table_lookup (c_heap c') (c_table c') key hash = Some (Some a)"
proof -
  let ?es = "evict_prefix (a_charge s) charge 0 (a_order s)"
  obtain rest where rest: "a_order s = ?es @ rest" using evict_prefix_split by blast
  obtain c' where c': "lru_evict charge [] c = Some (?es, c')" "rel c' (fold a_evict_one ?es s)"
    using sim_evict [OF assms(1,2), of charge "[]"] by (auto simp: a_evict_def Let_def)
  have idx: "a_index s (hash, key) = Some a" using assms(4) rel_table_lookup [OF assms(1)] by simp
  then obtain h where h: "a_cells s a = Some h" "h_valid h" "h_hash h = hash" "h_key_data h = key"
    using a_ok_index [OF assms(2)] by blast
  have "a \<notin> set (a_order s)" using assms(3) h a_ok_order [OF assms(2), of a] by (auto simp: held_def)
  then have off: "a \<notin> set ?es" using rest by (metis UnI1 set_append)
  then have "a_cells (fold a_evict_one ?es s) a = Some h"
    using fold_evict_cells [OF assms(2) rest, of a] h by simp
  moreover have "a_ok (fold a_evict_one ?es s)" using fold_evict_ok [OF assms(2) rest] by blast
  ultimately have "a_index (fold a_evict_one ?es s) (hash, key) = Some a"
    using index_unique h by blast
  then show ?thesis using c' off rel_table_lookup [OF c'(2)] by auto
qed

theorem evict_spares_held_handles_witness:
  "\<exists>c es c'. lru_evict 100 [] c = Some (es, c') \<and> 3 \<notin> set es \<and>
     table_lookup (c_heap c') (c_table c') [67] 9 = Some (Some 3)"
proof -
  obtain c where c: "rel c (fold abs_step demo_fill abs_empty)" "a_ok (fold abs_step demo_fill abs_empty)"
    using demo_fill_state by blast
  have held: "held (fold abs_step demo_fill abs_empty) 3" by code_simp
  have "a_index (fold abs_step demo_fill abs_empty) (9, [67]) = Some 3" by code_simp
  then have "table_lookup (c_heap c) (c_table c) [67] 9 = Some (Some 3)" using rel_table_lookup [OF c(1)] by simp
  then show ?thesis using evict_spares_held_handles [OF c held] by blast
qed

text \<open>
  C25: a hit makes the entry the newest: after \<^verbatim>\<open>lookup\<close> and \<^verbatim>\<open>release\<close> of an entry of the eviction list,
  the list is the old one with that entry moved to its end.
\<close>

theorem touch_moves_to_newest:
  assumes "rel c s" and "a_ok s" and "linked (c_heap c) xs" and "e \<in> set xs"
    and "table_lookup (c_heap c) (c_table c) key hash = Some (Some e)"
  shows "\<exists>c1 c2. lru_lookup key hash c = Some (Some e, c1) \<and> lru_release (Some e) c1 = Some c2 \<and>
    linked (c_heap c2) (remove1 e xs @ [e])"
proof -
  have xs: "xs = a_order s" using assms(1,3) rel_linked by blast
  have idx: "a_index s (hash, key) = Some e" using assms(5) rel_table_lookup [OF assms(1)] by simp
  obtain h where h: "a_cells s e = Some h" "h_valid h" "h_refs h = 1"
    using assms(4) xs a_ok_order [OF assms(2)] by blast
  let ?s1 = "snd (a_lookup key hash s)"
  have s1: "fst (a_lookup key hash s) = Some e" "a_order ?s1 = remove1 e xs"
    "a_cells ?s1 e = Some (h\<lparr>h_refs := 2\<rparr>)"
    using idx h xs by (simp_all add: a_lookup_def Let_def)
  obtain c1 where c1: "lru_lookup key hash c = Some (Some e, c1)" "rel c1 ?s1"
    using sim_lookup [OF assms(1,2), of key hash] s1(1) by auto
  have ok1: "a_ok ?s1" by (rule a_lookup_ok [OF assms(2)]) (use idx h in auto)
  have "held ?s1 e" using s1(3) by (simp add: held_def)
  then obtain c2 where c2: "lru_release (Some e) c1 = Some c2" "rel c2 (a_release e ?s1)"
    using sim_release [OF c1(2) ok1] by blast
  have "a_order (a_release e ?s1) = remove1 e xs @ [e]"
    using s1 h by (simp add: a_release_def Let_def)
  then have "linked (c_heap c2) (remove1 e xs @ [e])" using rel_linked [OF c2(2)] by simp
  then show ?thesis using c1(1) c2(1) by (intro exI conjI)
qed

theorem touch_moves_to_newest_witness:
  "\<exists>c c1 c2. linked (c_heap c) [1, 2] \<and> lru_lookup [65] 3 c = Some (Some 1, c1) \<and>
     lru_release (Some 1) c1 = Some c2 \<and> linked (c_heap c2) (remove1 1 [1, 2] @ [1])"
proof -
  obtain c where c: "rel c (fold abs_step demo_fill abs_empty)" "a_ok (fold abs_step demo_fill abs_empty)"
    using demo_fill_state by blast
  have l: "linked (c_heap c) [1, 2]" using rel_linked [OF c(1)] demo_fill_order by simp
  have "a_index (fold abs_step demo_fill abs_empty) (3, [65]) = Some 1" by code_simp
  then have "table_lookup (c_heap c) (c_table c) [65] 3 = Some (Some 1)" using rel_table_lookup [OF c(1)] by simp
  then show ?thesis using touch_moves_to_newest [OF c l, of 1] l by auto
qed

text \<open>
  C26: an inserted entry is what the next \<^verbatim>\<open>lookup\<close> of its key returns, whether it replaces an older
  entry of that key or not, and an erased key is not found.
\<close>

theorem lookup_after_insert_and_erase:
  assumes "rel c s" and "a_ok s" and "a \<noteq> 0" and "c_heap c a = None" and "card (ran (a_index s)) < 2 ^ 31"
  shows "\<exists>c1 c2. lru_insert alloc a key hash charge v c = Some (a, c1) \<and>
    map_option fst (lru_lookup key hash c1) = Some (Some a) \<and>
    lru_erase key hash c1 = Some c2 \<and> map_option fst (lru_lookup key hash c2) = Some None"
proof -
  have ac: "a_cells s a = None" using assms(1,3,4) by (simp add: rel_def cells_rel_def cells_def)
  let ?s1 = "a_insert a key hash charge v s"
  obtain c1 where c1: "lru_insert alloc a key hash charge v c = Some (a, c1)" "rel c1 ?s1"
    using sim_insert [OF assms] by blast
  have ok1: "a_ok ?s1" by (rule a_insert_ok [OF assms(2) ac])
  have idx: "a_index ?s1 (hash, key) = Some a"
    unfolding a_insert_split [OF assms(2) ac] by (simp add: a_add_def)
  obtain c2 where c2: "lru_erase key hash c1 = Some c2" "rel c2 (a_erase key hash ?s1)"
    using sim_erase [OF c1(2) ok1] by blast
  have "a_index (a_erase key hash ?s1) (hash, key) = None" using idx by (simp add: a_erase_def)
  then have "fst (a_lookup key hash (a_erase key hash ?s1)) = None" by (simp add: a_lookup_def Let_def)
  moreover have "fst (a_lookup key hash ?s1) = Some a" using idx by (simp add: a_lookup_def Let_def)
  ultimately show ?thesis
    using c1(1) c2(1) sim_lookup [OF c1(2) ok1, of key hash] sim_lookup [OF c2(2) a_erase_ok [OF ok1], of key hash]
    by fastforce
qed

theorem lookup_after_insert_and_erase_witness:
  "\<exists>c c1 c2. lru_insert True 4 [65] 3 7 None c = Some (4, c1) \<and>
     map_option fst (lru_lookup [65] 3 c1) = Some (Some 4) \<and>
     lru_erase [65] 3 c1 = Some c2 \<and> map_option fst (lru_lookup [65] 3 c2) = Some None"
proof -
  obtain c where c: "rel c (fold abs_step demo_fill abs_empty)" "a_ok (fold abs_step demo_fill abs_empty)"
    using demo_fill_state by blast
  have "a_cells (fold abs_step demo_fill abs_empty) 4 = None" by code_simp
  then have n: "c_heap c 4 = None" using c(1) by (simp add: rel_def cells_rel_def cells_def)
  have "ran (a_index (fold abs_step demo_fill abs_empty)) \<subseteq> {1, 2, 3}"
    by (auto simp: demo_fill_def abs_empty_def a_insert_def a_release_def a_upd_def null_handle_def Let_def ran_def
        split: if_splits)
  then have "card (ran (a_index (fold abs_step demo_fill abs_empty))) \<le> card {1 :: nat, 2, 3}"
    by (intro card_mono) auto
  then have m: "card (ran (a_index (fold abs_step demo_fill abs_empty))) < 2 ^ 31" by simp
  show ?thesis using lookup_after_insert_and_erase [OF c _ n m, of True "[65]" 3 7 None] by auto
qed

end
