(* ===== verification/ShardedLru.thy ===== *)
theory ShardedLru
  imports LruRefine
begin

text \<open>
  \<^verbatim>\<open>ShardedLRUContainer\<close> (\<^verbatim>\<open>src/utils/lru_container.cpp\<close>), \<^verbatim>\<open>LruEvictionPolicy\<close>
  (\<^verbatim>\<open>src/lru_eviction_policy-inl.h\<close>) and the interface \<^verbatim>\<open>EvictionPolicy\<close> with its handle
  (\<^verbatim>\<open>src/eviction_policy.h\<close>). A key goes to the shard of its hash. The memory of the handles is kept
  per shard, so a pointer to a handle is a shard and an address in it; \<^verbatim>\<open>malloc\<close> never returns an
  address twice (\<open>sl_brk\<close> is the next one).
\<close>

unbundle bit_operations_syntax

section \<open>The sharded container\<close>

record sharded_lru =
  sl_shards :: "lru_container list"
  sl_brk :: addr

type_synonym handle_ptr = "nat \<times> addr"

definition sharded_new :: "bool \<Rightarrow> nat \<Rightarrow> sharded_lru option" where
  "sharded_new alloc shard_count =
     do { c \<leftarrow> lru_new alloc; Some \<lparr>sl_shards = replicate shard_count c, sl_brk = 1\<rparr> }"

definition hash_slice :: "lru_key \<Rightarrow> u32" where
  "hash_slice s = key_hash s 0"

definition shard_of :: "sharded_lru \<Rightarrow> u32 \<Rightarrow> nat" where
  "shard_of s hash = (let shards_count = (of_nat (length (sl_shards s)) :: u32) in unat (hash AND (shards_count - 1)))"

definition set_shard :: "nat \<Rightarrow> lru_container \<Rightarrow> sharded_lru \<Rightarrow> sharded_lru" where
  "set_shard i c s = s\<lparr>sl_shards := (sl_shards s)[i := c]\<rparr>"

definition sh_insert ::
    "bool \<Rightarrow> lru_key \<Rightarrow> u64 \<Rightarrow> lru_key option \<Rightarrow> sharded_lru \<Rightarrow> (handle_ptr \<times> sharded_lru) option" where
  "sh_insert alloc key charge value s =
     (let hash = hash_slice key; i = shard_of s hash
      in do { c \<leftarrow> nth_opt (sl_shards s) i;
              (a, c) \<leftarrow> lru_insert alloc (sl_brk s) key hash charge value c;
              Some ((i, a), (set_shard i c s)\<lparr>sl_brk := sl_brk s + 1\<rparr>) })"

definition sh_lookup :: "lru_key \<Rightarrow> sharded_lru \<Rightarrow> (handle_ptr option \<times> sharded_lru) option" where
  "sh_lookup key s =
     (let hash = hash_slice key; i = shard_of s hash
      in do { c \<leftarrow> nth_opt (sl_shards s) i;
              (r, c) \<leftarrow> lru_lookup key hash c;
              Some (map_option (Pair i) r, set_shard i c s) })"

text \<open>The shard is taken from the hash in the handle; a handle of another shard is not in its memory.\<close>

definition sh_release :: "handle_ptr \<Rightarrow> sharded_lru \<Rightarrow> sharded_lru option" where
  "sh_release handle s =
     do { c \<leftarrow> nth_opt (sl_shards s) (fst handle);
          h \<leftarrow> c_heap c (snd handle);
          guard (shard_of s (h_hash h) = fst handle);
          c \<leftarrow> lru_release (Some (snd handle)) c;
          Some (set_shard (fst handle) c s) }"

definition sh_erase :: "lru_key \<Rightarrow> sharded_lru \<Rightarrow> sharded_lru option" where
  "sh_erase key s =
     (let hash = hash_slice key; i = shard_of s hash
      in do { c \<leftarrow> nth_opt (sl_shards s) i;
              c \<leftarrow> lru_erase key hash c;
              Some (set_shard i c s) })"

definition shard_evict :: "nat \<Rightarrow> u64 \<Rightarrow> handle_ptr list \<Rightarrow> sharded_lru \<Rightarrow> (handle_ptr list \<times> sharded_lru) option" where
  "shard_evict i charge evicted s =
     do { c \<leftarrow> nth_opt (sl_shards s) i;
          (es, c) \<leftarrow> lru_evict charge [] c;
          Some (evicted @ map (Pair i) es, set_shard i c s) }"

definition sh_evict :: "u64 \<Rightarrow> handle_ptr list \<Rightarrow> sharded_lru \<Rightarrow> (handle_ptr list \<times> sharded_lru) option" where
  "sh_evict charge evicted s =
     fold_opt (\<lambda>i (evicted, s). shard_evict i charge evicted s) [0..<length (sl_shards s)] (evicted, s)"

definition sh_evict_for ::
    "lru_key \<Rightarrow> u64 \<Rightarrow> handle_ptr list \<Rightarrow> sharded_lru \<Rightarrow> (handle_ptr list \<times> sharded_lru) option" where
  "sh_evict_for key charge evicted s = shard_evict (shard_of s (hash_slice key)) charge evicted s"

definition sh_get_stat :: "(lru_container \<Rightarrow> u64) \<Rightarrow> sharded_lru \<Rightarrow> u64" where
  "sh_get_stat mem_fun s = foldl (\<lambda>n c. n + mem_fun c) 0 (sl_shards s)"

definition shard_prune :: "nat \<Rightarrow> sharded_lru \<Rightarrow> sharded_lru option" where
  "shard_prune i s =
     do { c \<leftarrow> nth_opt (sl_shards s) i;
          (n, c) \<leftarrow> lru_prune c;
          Some (set_shard i c s) }"

definition sh_prune :: "sharded_lru \<Rightarrow> sharded_lru option" where
  "sh_prune s = fold_opt shard_prune [0..<length (sl_shards s)] s"

definition sh_get_usage :: "sharded_lru \<Rightarrow> u64" where "sh_get_usage s = sh_get_stat get_usage s"

definition sh_get_lookup_count :: "sharded_lru \<Rightarrow> u64" where
  "sh_get_lookup_count s = sh_get_stat get_lookup_count s"

text \<open>\<^verbatim>\<open>h->free()\<close> of a handle the policy was given.\<close>

definition sh_free :: "handle_ptr \<Rightarrow> sharded_lru \<Rightarrow> sharded_lru option" where
  "sh_free handle s =
     do { c \<leftarrow> nth_opt (sl_shards s) (fst handle);
          c \<leftarrow> handle_free (snd handle) c;
          Some (set_shard (fst handle) c s) }"

section \<open>The eviction policy\<close>

text \<open>
  The virtual functions of \<^verbatim>\<open>EvictionPolicy<T>\<close>, on a state \<open>'p\<close>. \<open>HandlePtr\<close> is null or owns a handle of the
  policy, which its destructor releases.
\<close>

record ('id, 'p) policy_ops =
  p_add :: "'id \<Rightarrow> nat \<Rightarrow> 'p \<Rightarrow> (bool \<times> 'p) option"
  p_touch :: "'id \<Rightarrow> 'p \<Rightarrow> (handle_ptr option \<times> 'p) option"
  p_evict :: "nat \<Rightarrow> 'id list \<Rightarrow> 'p \<Rightarrow> ('id list \<times> 'p) option"
  p_evict_for :: "'id \<Rightarrow> nat \<Rightarrow> 'id list \<Rightarrow> 'p \<Rightarrow> ('id list \<times> 'p) option"
  p_release :: "handle_ptr \<Rightarrow> 'p \<Rightarrow> 'p option"
  p_remove :: "'id \<Rightarrow> 'p \<Rightarrow> 'p option"
  p_clear :: "'p \<Rightarrow> 'p option"

definition handle_release :: "('id, 'p) policy_ops \<Rightarrow> handle_ptr option \<Rightarrow> 'p \<Rightarrow> 'p option" where
  "handle_release P hdl p = (case hdl of None \<Rightarrow> Some p | Some h \<Rightarrow> p_release P h p)"

text \<open>
  The bytes of an identifier of type \<^verbatim>\<open>T\<close> and back (\<^verbatim>\<open>reinterpret_cast\<close>). A \<^verbatim>\<open>BlockKey\<close> occupies 16
  bytes, of which the last four are padding with no defined content (\<open>pad\<close>).
\<close>

record 'id codec =
  enc :: "'id \<Rightarrow> bytes"
  dec :: "bytes \<Rightarrow> 'id"

definition word_bytes :: "nat \<Rightarrow> 'a::len word \<Rightarrow> bytes" where
  "word_bytes n w = map (\<lambda>i. ucast (drop_bit (8 * i) w)) [0..<n]"

definition cache_id_codec :: "cache_id codec" where
  "cache_id_codec = \<lparr>enc = word_bytes 8, dec = (\<lambda>bs. le_word (take 8 bs))\<rparr>"

definition block_key_codec :: "bytes \<Rightarrow> block_key codec" where
  "block_key_codec pad =
     \<lparr>enc = (\<lambda>k. word_bytes 8 (bk_cache_id k) @ word_bytes 4 (bk_block_index k) @ pad),
      dec = (\<lambda>bs. \<lparr>bk_cache_id = le_word (take 8 bs), bk_block_index = le_word (take 4 (drop 8 bs))\<rparr>)\<rparr>"

definition lru_policy_new :: "config \<Rightarrow> bool \<Rightarrow> sharded_lru option" where
  "lru_policy_new cfg alloc = sharded_new alloc (2 ^ FLAGS_lru_container_shard_bits cfg)"

definition lru_policy_destroy :: "sharded_lru \<Rightarrow> sharded_lru option" where
  "lru_policy_destroy s = sh_prune s"

definition pol_add :: "bool \<Rightarrow> 'id codec \<Rightarrow> 'id \<Rightarrow> nat \<Rightarrow> sharded_lru \<Rightarrow> (bool \<times> sharded_lru) option" where
  "pol_add alloc K ident sz s =
     do { (handle, s) \<leftarrow> sh_insert alloc (enc K ident) (of_nat sz) None s;
          s \<leftarrow> sh_release handle s;
          Some (True, s) }"

definition pol_touch :: "'id codec \<Rightarrow> 'id \<Rightarrow> sharded_lru \<Rightarrow> (handle_ptr option \<times> sharded_lru) option" where
  "pol_touch K ident s = sh_lookup (enc K ident) s"

text \<open>The loop over the evicted handles reads the identifier from the key and frees the handle.\<close>

definition collect_one :: "'id codec \<Rightarrow> handle_ptr \<Rightarrow> 'id list \<times> sharded_lru \<Rightarrow> ('id list \<times> sharded_lru) option" where
  "collect_one K h = (\<lambda>(evicted, s).
     do { c \<leftarrow> nth_opt (sl_shards s) (fst h);
          e \<leftarrow> c_heap c (snd h);
          s \<leftarrow> sh_free h s;
          Some (evicted @ [dec K (h_key_data e)], s) })"

definition collect_evicted :: "'id codec \<Rightarrow> handle_ptr list \<Rightarrow> 'id list \<Rightarrow> sharded_lru \<Rightarrow> ('id list \<times> sharded_lru) option" where
  "collect_evicted K handles evicted s = fold_opt (collect_one K) handles (evicted, s)"

definition pol_evict :: "'id codec \<Rightarrow> nat \<Rightarrow> 'id list \<Rightarrow> sharded_lru \<Rightarrow> ('id list \<times> sharded_lru) option" where
  "pol_evict K sz evicted s =
     do { (handles, s) \<leftarrow> sh_evict (of_nat sz) [] s;
          collect_evicted K handles evicted s }"

definition pol_evict_for :: "'id codec \<Rightarrow> 'id \<Rightarrow> nat \<Rightarrow> 'id list \<Rightarrow> sharded_lru \<Rightarrow> ('id list \<times> sharded_lru) option" where
  "pol_evict_for K ident sz evicted s =
     do { (handles, s) \<leftarrow> sh_evict_for (enc K ident) (of_nat sz) [] s;
          collect_evicted K handles evicted s }"

definition pol_remove :: "'id codec \<Rightarrow> 'id \<Rightarrow> sharded_lru \<Rightarrow> sharded_lru option" where
  "pol_remove K ident s = sh_erase (enc K ident) s"

definition lru_policy :: "bool \<Rightarrow> 'id codec \<Rightarrow> ('id, sharded_lru) policy_ops" where
  "lru_policy alloc K = \<lparr>p_add = pol_add alloc K, p_touch = pol_touch K, p_evict = pol_evict K,
     p_evict_for = pol_evict_for K, p_release = sh_release, p_remove = pol_remove K, p_clear = sh_prune\<rparr>"

section \<open>Encoding of identifiers\<close>

lemma length_word_bytes [simp]: "length (word_bytes n w) = n"
  by (simp add: word_bytes_def)

lemma le_word_bytes: "LENGTH('a) = 8 * n \<Longrightarrow> le_word (word_bytes n (w :: 'a::len word)) = w"
  by (intro bit_word_eqI) (auto simp: bit_le_word word_bytes_def bit_ucast_iff bit_drop_bit_eq)

lemma cache_id_dec [simp]: "dec cache_id_codec (enc cache_id_codec k) = k"
  using le_word_bytes [of 8 k] by (simp add: cache_id_codec_def)

lemma block_key_dec [simp]: "dec (block_key_codec pad) (enc (block_key_codec pad) k) = k"
  using le_word_bytes [of 8 "bk_cache_id k"] le_word_bytes [of 4 "bk_block_index k"]
  by (simp add: block_key_codec_def)

end
