(* ===== verification/EvictionPolicy.thy ===== *)
theory EvictionPolicy
  imports ShardedLru
begin

text \<open>
  The contract of an eviction policy, as the caches above it rely on it (\<open>eviction_policy\<close>), and the
  proof that \<^verbatim>\<open>LruEvictionPolicy\<close> over the sharded container keeps it. The budget \<open>n\<close> of the invariant
  counts the calls still allowed before a 31-bit table or a 32-bit reference count could overflow.
\<close>

unbundle bit_operations_syntax

section \<open>The contract\<close>

text \<open>
  The calls a cache makes: an addition, a read (a touch whose handle is dropped), a removal, the two
  evictions. A step returns the identifiers it reports: the one found, or those evicted.
\<close>

datatype 'id policy_call = Add 'id nat | Read 'id | Remove 'id | EvictAny nat | EvictFor 'id nat

definition policy_step :: "('id, 'p) policy_ops \<Rightarrow> 'id policy_call \<Rightarrow> 'p \<Rightarrow> ('id list \<times> 'p) option" where
  "policy_step P call s = (case call of
      Add x sz \<Rightarrow> do { (added, s) \<leftarrow> p_add P x sz s; Some ([], s) }
    | Read x \<Rightarrow> do { (hdl, s) \<leftarrow> p_touch P x s; s \<leftarrow> handle_release P hdl s;
                    Some (if hdl = None then [] else [x], s) }
    | Remove x \<Rightarrow> do { s \<leftarrow> p_remove P x s; Some ([], s) }
    | EvictAny sz \<Rightarrow> p_evict P sz [] s
    | EvictFor x sz \<Rightarrow> p_evict_for P x sz [] s)"

fun policy_run :: "('id, 'p) policy_ops \<Rightarrow> 'id policy_call list \<Rightarrow> 'p \<Rightarrow> ('id list list \<times> 'p) option" where
  "policy_run P [] s = Some ([], s)"
| "policy_run P (call # calls) s =
     do { (out, s) \<leftarrow> policy_step P call s; (outs, s) \<leftarrow> policy_run P calls s; Some (out # outs, s) }"

text \<open>
  The same calls on the set of tracked identifiers: which reports are allowed, and the set afterwards.
\<close>

definition report_ok :: "'id policy_call \<Rightarrow> 'id list \<Rightarrow> 'id set \<Rightarrow> bool" where
  "report_ok call out S = (case call of
      Add x sz \<Rightarrow> out = []
    | Read x \<Rightarrow> out = (if x \<in> S then [x] else [])
    | Remove x \<Rightarrow> out = []
    | EvictAny sz \<Rightarrow> distinct out \<and> set out \<subseteq> S
    | EvictFor x sz \<Rightarrow> distinct out \<and> set out \<subseteq> S)"

definition set_after :: "'id policy_call \<Rightarrow> 'id list \<Rightarrow> 'id set \<Rightarrow> 'id set" where
  "set_after call out S = (case call of
      Add x sz \<Rightarrow> insert x S | Read x \<Rightarrow> S | Remove x \<Rightarrow> S - {x}
    | EvictAny sz \<Rightarrow> S - set out | EvictFor x sz \<Rightarrow> S - set out)"

fun reports_ok :: "'id policy_call list \<Rightarrow> 'id list list \<Rightarrow> 'id set \<Rightarrow> bool" where
  "reports_ok [] [] S = True"
| "reports_ok (call # calls) (out # outs) S =
     (report_ok call out S \<and> reports_ok calls outs (set_after call out S))"
| "reports_ok _ _ S = False"

locale eviction_policy =
  fixes P :: "('id, 'p) policy_ops"
    and inv :: "nat \<Rightarrow> 'p \<Rightarrow> bool"
    and tracked :: "'p \<Rightarrow> 'id set"
    and holds :: "'p \<Rightarrow> handle_ptr \<Rightarrow> bool"
  assumes inv_mono: "inv (Suc n) s \<Longrightarrow> inv n s"
    and add_law: "inv (Suc n) s \<Longrightarrow> \<exists>s'. p_add P x sz s = Some (True, s') \<and> inv n s' \<and> tracked s' = insert x (tracked s)"
    and touch_law: "inv (Suc n) s \<Longrightarrow> \<exists>h s'. p_touch P x s = Some (h, s') \<and> inv n s' \<and> tracked s' = tracked s \<and>
      (case h of None \<Rightarrow> x \<notin> tracked s | Some p \<Rightarrow> x \<in> tracked s \<and> holds s' p)"
    and touch_miss_law: "inv n s \<Longrightarrow> x \<notin> tracked s \<Longrightarrow> \<exists>s'. p_touch P x s = Some (None, s') \<and> inv n s' \<and> tracked s' = tracked s"
    and touch_drop_law: "inv (Suc n) s \<Longrightarrow> \<exists>h s1 s2. p_touch P x s = Some (h, s1) \<and> handle_release P h s1 = Some s2 \<and>
      inv (Suc n) s2 \<and> tracked s2 = tracked s"
    and release_law: "inv n s \<Longrightarrow> holds s p \<Longrightarrow> \<exists>s'. p_release P p s = Some s' \<and> inv n s' \<and> tracked s' = tracked s"
    and remove_law: "inv n s \<Longrightarrow> \<exists>s'. p_remove P x s = Some s' \<and> inv n s' \<and> tracked s' = tracked s - {x}"
    and evict_law: "inv n s \<Longrightarrow> \<exists>out s'. p_evict P sz acc s = Some (acc @ out, s') \<and> inv n s' \<and>
      distinct out \<and> set out \<subseteq> tracked s \<and> tracked s' = tracked s - set out"
    and evict_for_law: "inv n s \<Longrightarrow> \<exists>out s'. p_evict_for P x sz acc s = Some (acc @ out, s') \<and> inv n s' \<and>
      distinct out \<and> set out \<subseteq> tracked s \<and> tracked s' = tracked s - set out"
    and clear_law: "inv n s \<Longrightarrow> \<exists>s'. p_clear P s = Some s' \<and> inv n s' \<and> tracked s' \<subseteq> tracked s"
begin

text \<open>Every call reports what the set of tracked identifiers allows, and changes that set accordingly.\<close>

lemma step_ok:
  assumes "inv (Suc n) s"
  shows "\<exists>out s'. policy_step P call s = Some (out, s') \<and> inv n s' \<and> report_ok call out (tracked s) \<and>
    tracked s' = set_after call out (tracked s)"
proof (cases call)
  case (Add x sz)
  then show ?thesis using add_law [OF assms, of x sz] by (auto simp: policy_step_def report_ok_def set_after_def)
next
  case (Read x)
  obtain h s1 s2 where t: "p_touch P x s = Some (h, s1)" "handle_release P h s1 = Some s2" "inv n s2" "tracked s2 = tracked s"
    using touch_drop_law [OF assms, of x] inv_mono by blast
  have "h = None \<longleftrightarrow> x \<notin> tracked s" using touch_law [OF assms, of x] t(1) by (auto split: option.splits)
  then show ?thesis using Read t by (auto simp: policy_step_def report_ok_def set_after_def)
next
  case (Remove x)
  then show ?thesis using remove_law [OF inv_mono [OF assms], of x] by (auto simp: policy_step_def report_ok_def set_after_def)
next
  case (EvictAny sz)
  then show ?thesis using evict_law [OF inv_mono [OF assms], of sz "[]"] by (auto simp: policy_step_def report_ok_def set_after_def)
next
  case (EvictFor x sz)
  then show ?thesis using evict_for_law [OF inv_mono [OF assms], of x sz "[]"] by (auto simp: policy_step_def report_ok_def set_after_def)
qed

lemma run_ok:
  "inv (length calls + n) s \<Longrightarrow> \<exists>outs s'. policy_run P calls s = Some (outs, s') \<and> inv n s' \<and> reports_ok calls outs (tracked s)"
proof (induction calls arbitrary: s)
  case (Cons call calls)
  from Cons.prems have "inv (Suc (length calls + n)) s" by simp
  then obtain out s1 where s1: "policy_step P call s = Some (out, s1)" "inv (length calls + n) s1" "report_ok call out (tracked s)"
    "tracked s1 = set_after call out (tracked s)"
    using step_ok by blast
  obtain outs s2 where "policy_run P calls s1 = Some (outs, s2)" "inv n s2" "reports_ok calls outs (tracked s1)"
    using Cons.IH [OF s1(2)] by blast
  then show ?case using s1 by (intro exI [of _ "out # outs"] exI [of _ s2]) simp
qed simp

text \<open>A removed identifier is not evicted any more, however much is asked for.\<close>

lemma removed_is_not_evicted:
  assumes "inv n s" and "p_remove P x s = Some s1" and "p_evict P sz [] s1 = Some (out, s2)"
  shows "x \<notin> set out"
proof -
  obtain s' where "p_remove P x s = Some s'" "inv n s'" "tracked s' = tracked s - {x}" using remove_law [OF assms(1)] by blast
  then have "inv n s1" "tracked s1 = tracked s - {x}" using assms(2) by auto
  then show ?thesis using evict_law [of n s1 sz "[]"] assms(3) by auto
qed

end

section \<open>The invariant of the sharded container\<close>

definition in_shard :: "'id codec \<Rightarrow> addr \<Rightarrow> nat \<Rightarrow> nat \<Rightarrow> addr \<Rightarrow> lru_handle \<Rightarrow> bool" where
  "in_shard K brk N i x h \<longleftrightarrow> x < brk \<and> h_hash h = hash_slice (h_key_data h) \<and>
     unat (h_hash h AND (of_nat N - 1)) = i \<and> (\<exists>k. h_key_data h = enc K k)"

definition cells_in :: "'id codec \<Rightarrow> addr \<Rightarrow> nat \<Rightarrow> nat \<Rightarrow> lru_abs \<Rightarrow> bool" where
  "cells_in K brk N i a \<longleftrightarrow> (\<forall>x h. a_cells a x = Some h \<longrightarrow> in_shard K brk N i x h)"

definition refs_below :: "nat \<Rightarrow> lru_abs \<Rightarrow> bool" where
  "refs_below m a \<longleftrightarrow> (\<forall>x h. a_cells a x = Some h \<longrightarrow> unat (h_refs h) < m)"

definition budget :: "nat \<Rightarrow> lru_abs \<Rightarrow> bool" where
  "budget n a \<longleftrightarrow> card (ran (a_index a)) + n \<le> 2 ^ 31 \<and> refs_below (2 ^ 32 - 1 - n) a"

definition shard_ok :: "'id codec \<Rightarrow> addr \<Rightarrow> nat \<Rightarrow> nat \<Rightarrow> nat \<Rightarrow> lru_container \<Rightarrow> lru_abs \<Rightarrow> bool" where
  "shard_ok K brk n N i c a \<longleftrightarrow> rel c a \<and> a_ok a \<and> cells_in K brk N i a \<and> budget n a"

definition sharded_ok :: "'id codec \<Rightarrow> nat \<Rightarrow> sharded_lru \<Rightarrow> bool" where
  "sharded_ok K n s \<longleftrightarrow> 0 < length (sl_shards s) \<and> length (sl_shards s) < 2 ^ 32 \<and> 0 < sl_brk s \<and>
     (\<forall>i < length (sl_shards s). \<exists>a. shard_ok K (sl_brk s) n (length (sl_shards s)) i (sl_shards s ! i) a)"

definition sh_tracked :: "'id codec \<Rightarrow> sharded_lru \<Rightarrow> 'id set" where
  "sh_tracked K s = {x. let key = enc K x; c = sl_shards s ! shard_of s (hash_slice key)
     in \<exists>e. table_lookup (c_heap c) (c_table c) key (hash_slice key) = Some (Some e)}"

definition sh_holds :: "sharded_lru \<Rightarrow> handle_ptr \<Rightarrow> bool" where
  "sh_holds s p \<longleftrightarrow> fst p < length (sl_shards s) \<and> snd p \<noteq> 0 \<and>
     (case c_heap (sl_shards s ! fst p) (snd p) of None \<Rightarrow> False
      | Some h \<Rightarrow> h_refs h \<noteq> 0 \<and> (\<not> h_valid h \<or> h_refs h \<noteq> 1))"

text \<open>An evicted handle that has not been freed.\<close>

definition pending :: "sharded_lru \<Rightarrow> handle_ptr \<Rightarrow> bool" where
  "pending s p \<longleftrightarrow> fst p < length (sl_shards s) \<and> snd p \<noteq> 0 \<and>
     (case c_heap (sl_shards s ! fst p) (snd p) of None \<Rightarrow> False | Some h \<Rightarrow> h_refs h = 0)"

definition key_of :: "'id codec \<Rightarrow> sharded_lru \<Rightarrow> handle_ptr \<Rightarrow> 'id" where
  "key_of K s p = (case c_heap (sl_shards s ! fst p) (snd p) of None \<Rightarrow> dec K [] | Some h \<Rightarrow> dec K (h_key_data h))"

lemma shard_of_less: "0 < length (sl_shards s) \<Longrightarrow> length (sl_shards s) < 2 ^ 32 \<Longrightarrow> shard_of s hash < length (sl_shards s)"
proof -
  let ?n = "length (sl_shards s)"
  assume n: "0 < ?n" "?n < 2 ^ 32"
  have "unat ((of_nat ?n :: u32) - 1) = ?n - 1"
  proof -
    have "unat (1 :: u32) \<le> unat (of_nat ?n :: u32)" using n by (simp add: unat_of_nat Suc_leI)
    then have "(1 :: u32) \<le> of_nat ?n" by (simp only: word_le_nat_alt)
    then show ?thesis using n by (simp add: unat_sub unat_of_nat)
  qed
  moreover have "unat (hash AND ((of_nat ?n :: u32) - 1)) \<le> unat ((of_nat ?n :: u32) - 1)"
    by (simp add: word_and_le1 flip: word_le_nat_alt)
  ultimately have "unat (hash AND ((of_nat ?n :: u32) - 1)) \<le> ?n - 1" by simp
  then show ?thesis using n(1) unfolding shard_of_def Let_def by linarith
qed

lemma shard_of_set [simp]: "shard_of (set_shard i c s) h = shard_of s h" "shard_of (s\<lparr>sl_brk := b\<rparr>) h = shard_of s h"
  and set_shard_fields [simp]: "sl_brk (set_shard i c s) = sl_brk s"
    "length (sl_shards (set_shard i c s)) = length (sl_shards s)"
  and set_shard_nth: "j < length (sl_shards s) \<Longrightarrow> sl_shards (set_shard i c s) ! j = (if j = i then c else sl_shards s ! j)"
  by (auto simp: set_shard_def shard_of_def Let_def nth_list_update)

lemma set_shard_brk: "set_shard i c (s\<lparr>sl_brk := b\<rparr>) = (set_shard i c s)\<lparr>sl_brk := b\<rparr>"
  by (simp add: set_shard_def)

lemma shard_ok_cell:
  assumes "shard_ok K brk n N i c a"
  shows "a_cells a x = (if x = 0 then None else map_option core (c_heap c x))"
  using assms by (auto simp: shard_ok_def rel_def cells_rel_def cells_def)

lemma shard_ok_lookup:
  "shard_ok K brk n N i c a \<Longrightarrow> table_lookup (c_heap c) (c_table c) key hash = Some (a_index a (hash, key))"
  using rel_table_lookup by (auto simp: shard_ok_def)

text \<open>Steps that only take references away.\<close>

definition below :: "lru_handle \<Rightarrow> lru_handle \<Rightarrow> bool" where
  "below h h0 \<longleftrightarrow> h_hash h = h_hash h0 \<and> h_key_data h = h_key_data h0 \<and> unat (h_refs h) \<le> unat (h_refs h0)"

definition shrinks :: "lru_abs \<Rightarrow> lru_abs \<Rightarrow> bool" where
  "shrinks a a' \<longleftrightarrow> ran (a_index a') \<subseteq> ran (a_index a) \<and>
     (\<forall>x h. a_cells a' x = Some h \<longrightarrow> (\<exists>h0. a_cells a x = Some h0 \<and> below h h0))"

lemma shrinksI:
  assumes "ran (a_index a') \<subseteq> ran (a_index a)"
    and "\<And>x h. a_cells a' x = Some h \<Longrightarrow> \<exists>h0. a_cells a x = Some h0 \<and> below h h0"
  shows "shrinks a a'"
  using assms by (simp add: shrinks_def)

lemma shrinks_cell: "shrinks a a' \<Longrightarrow> a_cells a' x = Some h \<Longrightarrow> \<exists>h0. a_cells a x = Some h0 \<and> below h h0"
  by (simp add: shrinks_def)

lemma below_refl [simp]: "below h h"
  by (simp add: below_def)

lemma shrinks_refl [simp]: "shrinks a a"
  by (simp add: shrinks_def)

lemma shrinks_trans:
  assumes "shrinks a b" and "shrinks b c"
  shows "shrinks a c"
proof (rule shrinksI)
  show "ran (a_index c) \<subseteq> ran (a_index a)" using assms by (auto simp: shrinks_def)
  fix x h assume "a_cells c x = Some h"
  then obtain h1 where 1: "a_cells b x = Some h1" "below h h1" using shrinks_cell [OF assms(2)] by blast
  then obtain h0 where "a_cells a x = Some h0" "below h1 h0" using shrinks_cell [OF assms(1)] by blast
  with 1 show "\<exists>h0. a_cells a x = Some h0 \<and> below h h0" by (auto simp: below_def)
qed

lemma shrinks_budget:
  assumes "shrinks a a'" and "budget n a" and "a_ok a"
  shows "budget n a'"
proof -
  have "ran (a_index a) \<subseteq> dom (a_cells a)" using a_ok_index [OF assms(3)] by (fastforce simp: ran_def)
  then have "finite (ran (a_index a))" using assms(3) finite_subset by (auto simp: a_ok_def)
  then have "card (ran (a_index a')) \<le> card (ran (a_index a))" using assms(1) by (intro card_mono) (auto simp: shrinks_def)
  moreover have "refs_below (2 ^ 32 - 1 - n) a'"
    unfolding refs_below_def
  proof (intro allI impI)
    fix x h assume "a_cells a' x = Some h"
    then obtain h0 where h0: "a_cells a x = Some h0" "below h h0" using shrinks_cell [OF assms(1)] by blast
    then have "unat (h_refs h0) < 2 ^ 32 - 1 - n" using assms(2) unfolding budget_def refs_below_def by blast
    with h0(2) show "unat (h_refs h) < 2 ^ 32 - 1 - n" unfolding below_def by (metis le_less_trans)
  qed
  ultimately show ?thesis using assms(2) by (simp add: budget_def)
qed

lemma in_shard_refs: "in_shard K brk N i x (h\<lparr>h_refs := r\<rparr>) = in_shard K brk N i x h"
  unfolding in_shard_def by simp

lemma below_in_shard: "below h h0 \<Longrightarrow> in_shard K brk N i x h0 \<Longrightarrow> in_shard K brk N i x h"
  by (auto simp: below_def in_shard_def)

lemma shrinks_cells_in:
  assumes "shrinks a a'" and "cells_in K brk N i a"
  shows "cells_in K brk N i a'"
  unfolding cells_in_def
proof (intro allI impI)
  fix x h assume "a_cells a' x = Some h"
  then obtain h0 where "a_cells a x = Some h0" "below h h0" using shrinks_cell [OF assms(1)] by blast
  with assms(2) below_in_shard show "in_shard K brk N i x h" unfolding cells_in_def by blast
qed

lemma dec_refs: "r \<noteq> 0 \<Longrightarrow> unat ((r :: u32) - 1) \<le> unat r"
  by (simp add: unat_minus_one)

lemma shrinks_free: "shrinks a (a_free e a)"
  by (auto simp: shrinks_def below_def a_free_def split: option.splits if_splits)

lemma shrinks_release: "held a e \<Longrightarrow> shrinks a (a_release e a)"
  by (auto simp: shrinks_def below_def a_release_def a_free_def a_upd_def Let_def held_def dec_refs split: option.splits if_splits)

lemma shrinks_evict_one:
  assumes "a_ok a" and "e \<in> set (a_order a)"
  shows "shrinks a (a_evict_one e a)"
proof -
  obtain h where h: "a_cells a e = Some h" "h_valid h" "h_refs h = 1" using a_ok_order [OF assms(1)] assms(2) by blast
  then show ?thesis using ran_upd_subset(1) [of "a_index a" "(h_hash h, h_key_data h)"]
    by (auto simp: shrinks_def below_def a_evict_one_def a_upd_def split: if_splits)
qed

lemma shrinks_fold_evict:
  "a_ok a \<Longrightarrow> a_order a = es @ rest \<Longrightarrow> shrinks a (fold a_evict_one es a)"
proof (induction es arbitrary: a)
  case (Cons e es)
  have e: "e \<in> set (a_order a)" using Cons.prems(2) by simp
  then obtain h where "a_cells a e = Some h" using a_ok_order [OF Cons.prems(1)] by blast
  then have "a_order (a_evict_one e a) = es @ rest" using Cons.prems(2) by (simp add: a_evict_one_order)
  then have "shrinks (a_evict_one e a) (fold a_evict_one es (a_evict_one e a))"
    by (rule Cons.IH [OF a_evict_one_ok [OF Cons.prems(1) e]])
  then show ?case using shrinks_trans [OF shrinks_evict_one [OF Cons.prems(1) e]] by simp
qed simp

lemma shrinks_fold_free: "shrinks a (fold a_free es a)"
  by (induction es arbitrary: a) (auto intro: shrinks_trans shrinks_free)

lemma shrinks_erase:
  assumes "a_ok a"
  shows "shrinks a (a_erase key hash a)"
proof (cases "a_index a (hash, key)")
  case (Some e)
  then obtain h where h: "a_cells a e = Some h" "h_refs h \<noteq> 0" using a_ok_index [OF assms] by blast
  then show ?thesis using Some dec_refs [OF h(2)] ran_upd_subset(1) [of "a_index a" "(hash, key)"]
    by (auto simp: shrinks_def below_def a_erase_def a_retire_def a_free_def a_upd_def Let_def split: if_splits)
qed (simp add: a_erase_def)

text \<open>One shard is replaced by one whose abstract state shrank.\<close>

lemma shard_ok_shrinks:
  assumes "shard_ok K brk n N i c a" and "rel c' a'" and "a_ok a'" and "shrinks a a'"
  shows "shard_ok K brk n N i c' a'"
  using assms shrinks_budget shrinks_cells_in by (auto simp: shard_ok_def)

lemma sharded_ok_set:
  assumes "sharded_ok K n s" and "i < length (sl_shards s)" and "shard_ok K (sl_brk s) n (length (sl_shards s)) i c' a'"
  shows "sharded_ok K n (set_shard i c' s)"
  using assms by (auto simp: sharded_ok_def set_shard_nth)

lemma sharded_okE:
  assumes "sharded_ok K n s" and "i < length (sl_shards s)"
  obtains a where "shard_ok K (sl_brk s) n (length (sl_shards s)) i (sl_shards s ! i) a" and "rel (sl_shards s ! i) a" and "a_ok a"
  using assms unfolding sharded_ok_def shard_ok_def by blast

text \<open>The identifiers tracked, read from the abstract index of their shard.\<close>

lemma tracked_iff:
  assumes "rel (sl_shards s ! shard_of s (hash_slice (enc K x))) a"
  shows "x \<in> sh_tracked K s \<longleftrightarrow> a_index a (hash_slice (enc K x), enc K x) \<noteq> None"
  using rel_table_lookup [OF assms] by (simp add: sh_tracked_def Let_def)

lemma tracked_set_shard:
  assumes "rel c' a'" and "i < length (sl_shards s)"
  shows "x \<in> sh_tracked K (set_shard i c' s) \<longleftrightarrow>
    (if shard_of s (hash_slice (enc K x)) = i then a_index a' (hash_slice (enc K x), enc K x) \<noteq> None
     else x \<in> sh_tracked K s)"
proof (cases "shard_of s (hash_slice (enc K x)) = i")
  case True
  then show ?thesis using tracked_iff [of "set_shard i c' s" K x a'] assms by (simp add: set_shard_nth)
next
  case False
  have "j < length (sl_shards s) \<or> length (sl_shards s) \<le> j" for j by auto
  moreover have "sl_shards (set_shard i c' s) ! j = sl_shards s ! j" if "j \<noteq> i" for j
    using that by (simp add: set_shard_def)
  ultimately show ?thesis using False by (simp add: sh_tracked_def Let_def)
qed


section \<open>Operations of the sharded container keep the invariant\<close>

lemma budget_mono: "budget (Suc n) a \<Longrightarrow> budget n a"
  by (force simp: budget_def refs_below_def)

lemma sharded_ok_mono: "sharded_ok K (Suc n) s \<Longrightarrow> sharded_ok K n s"
  unfolding sharded_ok_def shard_ok_def using budget_mono by blast

lemma budget_card: "budget (Suc n) a \<Longrightarrow> card (ran (a_index a)) < 2 ^ 31"
  by (simp add: budget_def)

lemma budget_refs:
  assumes "budget n a" and "a_cells a x = Some h"
  shows "unat (h_refs h) + n < 2 ^ 32 - 1"
proof -
  have "n \<le> 2 ^ 31" "unat (h_refs h) < 2 ^ 32 - 1 - n" using assms unfolding budget_def refs_below_def by auto
  then show ?thesis by simp
qed

text \<open>An insertion and the release of the new handle, in one shard.\<close>

lemma insert_release_shard:
  assumes ok: "shard_ok K brk (Suc n) N i c a" and brk: "0 < brk"
    and hash: "hash = hash_slice key" "key = enc K k" "unat (hash AND (of_nat N - 1)) = i"
  shows "\<exists>c1 h c2 a2. lru_insert alloc brk key hash charge v c = Some (brk, c1) \<and> c_heap c1 brk = Some h \<and> h_hash h = hash \<and>
    lru_release (Some brk) c1 = Some c2 \<and> shard_ok K (Suc brk) n N i c2 a2 \<and>
    a_index a2 = (a_index a)((hash, key) \<mapsto> brk)"
proof -
  have rel: "rel c a" and aok: "a_ok a" and cin: "cells_in K brk N i a" and bud: "budget (Suc n) a"
    using ok by (simp_all add: shard_ok_def)
  have fresh: "a_cells a brk = None"
  proof (cases "a_cells a brk")
    case (Some h)
    then have "in_shard K brk N i brk h" using cin unfolding cells_in_def by blast
    then show ?thesis by (simp add: in_shard_def)
  qed simp
  then have "c_heap c brk = None" using shard_ok_cell [OF ok, of brk] brk by (simp split: if_splits)
  then obtain c1 where c1: "lru_insert alloc brk key hash charge v c = Some (brk, c1)" "rel c1 (a_insert brk key hash charge v a)"
    using sim_insert [OF rel aok _ _ budget_card [OF bud]] brk by blast
  let ?e = "new_handle key hash charge v" and ?b = "a_erase key hash a"
  let ?a1 = "a_insert brk key hash charge v a"
  have a1: "?a1 = a_add brk ?e ?b" by (rule a_insert_split [OF aok fresh])
  have ok1: "a_ok ?a1" by (rule a_insert_ok [OF aok fresh])
  have cell: "a_cells ?a1 brk = Some ?e" by (simp add: a1 a_add_def)
  then obtain h where h: "c_heap c1 brk = Some h" "?e = core h" using rel_cell [OF c1(2)] by blast
  have hh: "h_hash h = hash" using arg_cong [OF h(2), of h_hash] by simp
  have held: "held ?a1 brk" using cell by (simp add: held_def)
  obtain c2 where c2: "lru_release (Some brk) c1 = Some c2" "rel c2 (a_release brk ?a1)"
    using sim_release [OF c1(2) ok1 held] by blast
  let ?a2 = "a_release brk ?a1"
  have ok2: "a_ok ?a2" by (rule a_release_ok [OF ok1 held])
  have sh: "shrinks a ?b" by (rule shrinks_erase [OF aok])
  have cells2: "a_cells ?a2 x = Some h' \<Longrightarrow> (x = brk \<and> h' = ?e\<lparr>h_refs := 1\<rparr>) \<or> (\<exists>h0. a_cells a x = Some h0 \<and> below h' h0)" for x h'
    using shrinks_cell [OF sh, of x h'] cell
    by (auto simp: a_release_def a1 a_add_def a_upd_def Let_def split: if_splits)
  have idx: "a_index ?a2 = (a_index a)((hash, key) \<mapsto> brk)"
  proof -
    have "a_index ?b = (a_index a)((hash, key) := None)"
      by (cases "a_index a (hash, key)") (auto simp: a_erase_def)
    then show ?thesis using cell by (simp add: a_release_def a1 a_add_def a_upd_def Let_def)
  qed
  have "cells_in K (Suc brk) N i ?a2"
    unfolding cells_in_def
  proof (intro allI impI)
    fix x h' assume "a_cells ?a2 x = Some h'"
    then consider "x = brk" "h' = ?e\<lparr>h_refs := 1\<rparr>" | h0 where "a_cells a x = Some h0" "below h' h0" using cells2 by blast
    then show "in_shard K (Suc brk) N i x h'"
    proof cases
      case 1
      then show ?thesis using hash by (auto simp: in_shard_def)
    next
      case 2
      then have "in_shard K brk N i x h'" using cin below_in_shard unfolding cells_in_def by blast
      then show ?thesis by (auto simp: in_shard_def)
    qed
  qed
  moreover have "budget n ?a2"
  proof -
    have "ran (a_index a) \<subseteq> dom (a_cells a)" using a_ok_index [OF aok] by (fastforce simp: ran_def)
    then have fin: "finite (ran (a_index a))" using aok finite_subset by (auto simp: a_ok_def)
    have "ran (a_index ?a2) \<subseteq> insert brk (ran (a_index a))" unfolding idx by (rule ran_upd_subset(2))
    then have "card (ran (a_index ?a2)) \<le> card (insert brk (ran (a_index a)))" using fin by (intro card_mono) auto
    also have "\<dots> \<le> Suc (card (ran (a_index a)))" using fin by (simp add: card_insert_if)
    finally have 1: "card (ran (a_index ?a2)) + n \<le> 2 ^ 31" using bud by (simp add: budget_def)
    have "refs_below (2 ^ 32 - 1 - n) ?a2"
      unfolding refs_below_def
    proof (intro allI impI)
      fix x h' assume "a_cells ?a2 x = Some h'"
      then consider "h' = ?e\<lparr>h_refs := 1\<rparr>" | h0 where "a_cells a x = Some h0" "below h' h0" using cells2 by blast
      then show "unat (h_refs h') < 2 ^ 32 - 1 - n"
      proof cases
        case 1
        have "Suc n \<le> 2 ^ 31" using bud unfolding budget_def by linarith
        then show ?thesis using 1 by simp
      next
        case 2
        have "unat (h_refs h') \<le> unat (h_refs h0)" using 2(2) by (simp add: below_def)
        then show ?thesis using budget_refs [OF bud 2(1)] by linarith
      qed
    qed
    with 1 show ?thesis by (simp add: budget_def)
  qed
  ultimately have "shard_ok K (Suc brk) n N i c2 ?a2" using c2 ok2 by (simp add: shard_ok_def)
  then show ?thesis using c1(1) h(1) hh c2(1) idx by blast
qed

lemma in_shard_brk: "in_shard K brk N i x h \<Longrightarrow> in_shard K (Suc brk) N i x h"
  by (auto simp: in_shard_def)

lemma shard_ok_brk: "shard_ok K brk n N i c a \<Longrightarrow> shard_ok K (Suc brk) n N i c a"
  unfolding shard_ok_def cells_in_def using in_shard_brk by blast

lemma enc_inj:
  assumes "\<And>x. dec K (enc K x) = x"
  shows "enc K x = enc K y \<longleftrightarrow> x = y"
  using assms by metis

lemma pol_add_ok:
  assumes inj: "\<And>x. dec K (enc K x) = x" and ok: "sharded_ok K (Suc n) s"
  shows "\<exists>s'. pol_add alloc K x sz s = Some (True, s') \<and> sharded_ok K n s' \<and> sh_tracked K s' = insert x (sh_tracked K s)"
proof -
  let ?key = "enc K x" and ?N = "length (sl_shards s)"
  let ?hash = "hash_slice ?key"
  let ?i = "shard_of s ?hash"
  have N: "0 < ?N" "?N < 2 ^ 32" "0 < sl_brk s" using ok by (simp_all add: sharded_ok_def)
  then have i: "?i < ?N" by (simp add: shard_of_less)
  obtain a where a: "shard_ok K (sl_brk s) (Suc n) ?N ?i (sl_shards s ! ?i) a" "rel (sl_shards s ! ?i) a"
    by (rule sharded_okE [OF ok i])
  have ii: "unat (?hash AND (of_nat ?N - 1)) = ?i" by (simp add: shard_of_def Let_def)
  obtain c1 h c2 a2 where r: "lru_insert alloc (sl_brk s) ?key ?hash (of_nat sz) None (sl_shards s ! ?i) = Some (sl_brk s, c1)"
    "c_heap c1 (sl_brk s) = Some h" "h_hash h = ?hash" "lru_release (Some (sl_brk s)) c1 = Some c2"
    "shard_ok K (Suc (sl_brk s)) n ?N ?i c2 a2" "a_index a2 = (a_index a)((?hash, ?key) \<mapsto> sl_brk s)"
    using insert_release_shard [OF a(1) N(3) refl refl ii, of alloc "of_nat sz" None] by blast
  let ?s = "(set_shard ?i c2 s)\<lparr>sl_brk := sl_brk s + 1\<rparr>"
  have "set_shard ?i c2 (set_shard ?i c1 s) = set_shard ?i c2 s" by (simp add: set_shard_def)
  then have "pol_add alloc K x sz s = Some (True, ?s)"
    using r i by (simp add: pol_add_def sh_insert_def sh_release_def Let_def set_shard_nth set_shard_brk)
  moreover have "sharded_ok K n ?s"
  proof -
    have "\<exists>a. shard_ok K (Suc (sl_brk s)) n ?N j (if j = ?i then c2 else sl_shards s ! j) a" if j: "j < ?N" for j
    proof (cases "j = ?i")
      case False
      obtain b where "shard_ok K (sl_brk s) n ?N j (sl_shards s ! j) b"
        by (rule sharded_okE [OF sharded_ok_mono [OF ok] j])
      then have "shard_ok K (Suc (sl_brk s)) n ?N j (sl_shards s ! j) b" by (rule shard_ok_brk)
      then show ?thesis using False by auto
    qed (use r(5) in auto)
    then show ?thesis using N by (simp add: sharded_ok_def set_shard_nth)
  qed
  moreover have "sh_tracked K ?s = insert x (sh_tracked K s)"
  proof (rule set_eqI)
    fix y
    have "sh_tracked K ?s = sh_tracked K (set_shard ?i c2 s)" by (simp add: sh_tracked_def Let_def)
    moreover have "rel c2 a2" using r(5) by (simp add: shard_ok_def)
    moreover have "y \<in> sh_tracked K s \<longleftrightarrow> a_index a (hash_slice (enc K y), enc K y) \<noteq> None" if "shard_of s (hash_slice (enc K y)) = ?i"
      by (rule tracked_iff) (use a(2) that in simp)
    ultimately show "y \<in> sh_tracked K ?s \<longleftrightarrow> y \<in> insert x (sh_tracked K s)"
      using r(6) enc_inj [of K, OF inj] by (auto simp: tracked_set_shard [OF _ i])
  qed
  ultimately show ?thesis by blast
qed


text \<open>The other steps replace one shard by one whose abstract state shrank, or gained a reference.\<close>

lemma tracked_same_index:
  assumes "rel (sl_shards s ! i) a" and "rel c' a'" and "a_index a' = a_index a" and "i < length (sl_shards s)"
  shows "sh_tracked K (set_shard i c' s) = sh_tracked K s"
proof (rule set_eqI)
  fix x
  have "x \<in> sh_tracked K s \<longleftrightarrow> a_index a (hash_slice (enc K x), enc K x) \<noteq> None" if "shard_of s (hash_slice (enc K x)) = i"
    by (rule tracked_iff) (use assms(1) that in simp)
  then show "x \<in> sh_tracked K (set_shard i c' s) \<longleftrightarrow> x \<in> sh_tracked K s"
    using assms(3) by (auto simp: tracked_set_shard [OF assms(2,4)])
qed

lemma rel_cell_iff: "rel c a \<Longrightarrow> a_cells a e = (if e = 0 then None else map_option core (c_heap c e))"
  by (auto simp: rel_def cells_rel_def cells_def)

lemma holds_iff: "rel (sl_shards s ! i) a \<Longrightarrow> sh_holds s (i, e) \<longleftrightarrow> i < length (sl_shards s) \<and> held a e"
  by (auto simp: sh_holds_def held_def rel_cell_iff split: option.splits)

lemma pending_iff:
  "rel (sl_shards s ! i) a \<Longrightarrow>
     pending s (i, e) \<longleftrightarrow> i < length (sl_shards s) \<and> (\<exists>h. a_cells a e = Some h \<and> h_refs h = 0)"
  by (auto simp: pending_def rel_cell_iff split: option.splits)

lemma key_of_cell: "rel (sl_shards s ! i) a \<Longrightarrow> a_cells a e = Some h \<Longrightarrow> key_of K s (i, e) = dec K (h_key_data h)"
  by (auto simp: key_of_def rel_cell_iff split: if_splits)

lemma cell_shard:
  assumes "shard_ok K (sl_brk s) n (length (sl_shards s)) i (sl_shards s ! i) a" and "a_cells a e = Some h"
  shows "shard_of s (h_hash h) = i"
proof -
  have "in_shard K (sl_brk s) (length (sl_shards s)) i e h" using assms unfolding shard_ok_def cells_in_def by blast
  then show ?thesis unfolding in_shard_def shard_of_def Let_def by blast
qed

lemma a_release_index: "a_index (a_release e a) = a_index a"
  by (auto simp: a_release_def Let_def a_upd_def split: option.splits)

lemma a_erase_index: "a_index (a_erase key hash a) = (a_index a)((hash, key) := None)"
  by (cases "a_index a (hash, key)") (auto simp: a_erase_def)

lemma sh_release_ok:
  assumes ok: "sharded_ok K n s" and p: "sh_holds s p"
  shows "\<exists>s'. sh_release p s = Some s' \<and> sharded_ok K n s' \<and> sh_tracked K s' = sh_tracked K s"
proof -
  obtain i e where pe: "p = (i, e)" by (cases p)
  then have i: "i < length (sl_shards s)" using p by (simp add: sh_holds_def)
  obtain a where a: "shard_ok K (sl_brk s) n (length (sl_shards s)) i (sl_shards s ! i) a" "rel (sl_shards s ! i) a" "a_ok a"
    by (rule sharded_okE [OF ok i])
  have held: "held a e" using p pe holds_iff [OF a(2)] by simp
  then obtain k where k: "a_cells a e = Some k" by (auto simp: held_def split: option.splits)
  then obtain h where h: "c_heap (sl_shards s ! i) e = Some h" "k = core h" using rel_cell [OF a(2)] by blast
  have sh: "shard_of s (h_hash h) = i" using cell_shard [OF a(1) k] h(2) by simp
  obtain c' where c': "lru_release (Some e) (sl_shards s ! i) = Some c'" "rel c' (a_release e a)"
    using sim_release [OF a(2,3) held] by blast
  have "sharded_ok K n (set_shard i c' s)"
    by (rule sharded_ok_set [OF ok i shard_ok_shrinks [OF a(1) c'(2) a_release_ok [OF a(3) held] shrinks_release [OF held]]])
  moreover have "sh_tracked K (set_shard i c' s) = sh_tracked K s"
    by (rule tracked_same_index [OF a(2) c'(2) a_release_index i])
  moreover have "sh_release p s = Some (set_shard i c' s)" using pe i h(1) sh c'(1) by (simp add: sh_release_def)
  ultimately show ?thesis by blast
qed

lemma pol_remove_ok:
  assumes inj: "\<And>x. dec K (enc K x) = x" and ok: "sharded_ok K n s"
  shows "\<exists>s'. pol_remove K x s = Some s' \<and> sharded_ok K n s' \<and> sh_tracked K s' = sh_tracked K s - {x}"
proof -
  let ?key = "enc K x"
  let ?hash = "hash_slice ?key"
  let ?i = "shard_of s ?hash"
  have i: "?i < length (sl_shards s)" using ok by (simp add: sharded_ok_def shard_of_less)
  obtain a where a: "shard_ok K (sl_brk s) n (length (sl_shards s)) ?i (sl_shards s ! ?i) a" "rel (sl_shards s ! ?i) a" "a_ok a"
    by (rule sharded_okE [OF ok i])
  obtain c' where c': "lru_erase ?key ?hash (sl_shards s ! ?i) = Some c'" "rel c' (a_erase ?key ?hash a)"
    using sim_erase [OF a(2,3)] by blast
  have "sharded_ok K n (set_shard ?i c' s)"
    by (rule sharded_ok_set [OF ok i shard_ok_shrinks [OF a(1) c'(2) a_erase_ok [OF a(3)] shrinks_erase [OF a(3)]]])
  moreover have "sh_tracked K (set_shard ?i c' s) = sh_tracked K s - {x}"
  proof (rule set_eqI)
    fix y
    have "y \<in> sh_tracked K s \<longleftrightarrow> a_index a (hash_slice (enc K y), enc K y) \<noteq> None" if "shard_of s (hash_slice (enc K y)) = ?i"
      by (rule tracked_iff) (use a(2) that in simp)
    then show "y \<in> sh_tracked K (set_shard ?i c' s) \<longleftrightarrow> y \<in> sh_tracked K s - {x}"
      using enc_inj [of K, OF inj] by (auto simp: tracked_set_shard [OF c'(2) i] a_erase_index)
  qed
  moreover have "pol_remove K x s = Some (set_shard ?i c' s)" using i c'(1) by (simp add: pol_remove_def sh_erase_def Let_def)
  ultimately show ?thesis by blast
qed


text \<open>A touch takes a reference: it consumes one unit of the budget.\<close>

lemma lookup_cells:
  assumes "a_index a (hash, key) = Some e" and "a_cells a e = Some h"
  shows "a_cells (snd (a_lookup key hash a)) = (a_cells a)(e \<mapsto> h\<lparr>h_refs := h_refs h + 1\<rparr>)"
  using assms by (simp add: a_lookup_def Let_def a_upd_def)

lemma lookup_index: "a_index (snd (a_lookup key hash a)) = a_index a"
  by (auto simp: a_lookup_def Let_def a_upd_def split: option.splits)

lemma lookup_shard_ok:
  assumes ok: "shard_ok K brk (Suc n) N i c a"
  shows "\<exists>c'. lru_lookup key hash c = Some (a_index a (hash, key), c') \<and> shard_ok K brk n N i c' (snd (a_lookup key hash a)) \<and>
    (\<forall>e. a_index a (hash, key) = Some e \<longrightarrow> held (snd (a_lookup key hash a)) e)"
proof -
  have rel: "rel c a" and aok: "a_ok a" and cin: "cells_in K brk N i a" and bud: "budget (Suc n) a"
    using ok by (simp_all add: shard_ok_def)
  have fst: "fst (a_lookup key hash a) = a_index a (hash, key)" by (auto simp: a_lookup_def Let_def split: option.split)
  obtain c' where c': "lru_lookup key hash c = Some (a_index a (hash, key), c')" "rel c' (snd (a_lookup key hash a))"
    using sim_lookup [OF rel aok, of key hash] fst by auto
  let ?a' = "snd (a_lookup key hash a)"
  show ?thesis
  proof (cases "a_index a (hash, key)")
    case None
    then have "a_cells ?a' = a_cells a" "a_ok ?a'" using aok by (simp_all add: a_lookup_def Let_def)
    then have "shard_ok K brk n N i c' ?a'"
      using c'(2) cin budget_mono [OF bud] by (simp add: shard_ok_def cells_in_def budget_def refs_below_def lookup_index)
    then show ?thesis using c' None lookup_index by fastforce
  next
    case (Some e)
    obtain h where h: "a_cells a e = Some h" "h_valid h" "h_refs h \<noteq> 0" using a_ok_index [OF aok Some] by blast
    have r: "unat (h_refs h) + Suc n < 2 ^ 32 - 1" by (rule budget_refs [OF bud h(1)])
    then have inc: "unat (h_refs h + 1) = unat (h_refs h) + 1" by (simp add: unat_word_ariths)
    have pos: "0 < unat (h_refs h)" using h(3) by (simp add: unat_gt_0)
    have cells: "a_cells ?a' = (a_cells a)(e \<mapsto> h\<lparr>h_refs := h_refs h + 1\<rparr>)" by (rule lookup_cells [OF Some h(1)])
    have ok': "a_ok ?a'"
      by (rule a_lookup_ok [OF aok]) (use Some h(1) inc in auto)
    have "in_shard K brk N i e h" using cin h(1) unfolding cells_in_def by blast
    then have "in_shard K brk N i e (h\<lparr>h_refs := h_refs h + 1\<rparr>)" by (simp only: in_shard_refs)
    then have "cells_in K brk N i ?a'" using cin by (auto simp: cells_in_def cells)
    moreover have "budget n ?a'"
    proof -
      have "refs_below (2 ^ 32 - 1 - n) a" using budget_mono [OF bud] by (simp add: budget_def)
      moreover have "unat (h_refs h + 1) < 2 ^ 32 - 1 - n" using inc r by linarith
      ultimately have "refs_below (2 ^ 32 - 1 - n) ?a'" by (simp add: refs_below_def cells)
      then show ?thesis using bud by (simp add: budget_def lookup_index)
    qed
    ultimately have "shard_ok K brk n N i c' ?a'" using c'(2) ok' by (simp add: shard_ok_def)
    moreover have "held ?a' e"
    proof -
      have "h_refs h + 1 \<noteq> 0" "h_refs h + 1 \<noteq> 1" using inc pos h(3) by auto
      then show ?thesis by (simp add: held_def cells)
    qed
    ultimately show ?thesis using c'(1) Some lookup_index by fastforce
  qed
qed

text \<open>A lookup that misses leaves every reference count alone.\<close>

lemma lookup_shard_miss:
  assumes ok: "shard_ok K brk n N i c a" and miss: "a_index a (hash, key) = None"
  shows "\<exists>c' a'. lru_lookup key hash c = Some (None, c') \<and> shard_ok K brk n N i c' a' \<and> a_index a' = a_index a"
proof -
  have rel: "rel c a" and aok: "a_ok a" and cin: "cells_in K brk N i a" and bud: "budget n a"
    using ok by (simp_all add: shard_ok_def)
  have fst: "fst (a_lookup key hash a) = None" using miss by (simp add: a_lookup_def Let_def)
  obtain c' where c': "lru_lookup key hash c = Some (None, c')" "rel c' (snd (a_lookup key hash a))"
    using sim_lookup [OF rel aok, of key hash] fst miss by auto
  have "a_cells (snd (a_lookup key hash a)) = a_cells a" "a_ok (snd (a_lookup key hash a))"
    using aok miss by (simp_all add: a_lookup_def Let_def)
  then have "shard_ok K brk n N i c' (snd (a_lookup key hash a))"
    using c'(2) cin bud by (simp add: shard_ok_def cells_in_def budget_def refs_below_def lookup_index)
  then show ?thesis using c'(1) lookup_index by blast
qed

lemma pol_touch_miss:
  assumes ok: "sharded_ok K n s" and miss: "x \<notin> sh_tracked K s"
  shows "\<exists>s'. pol_touch K x s = Some (None, s') \<and> sharded_ok K n s' \<and> sh_tracked K s' = sh_tracked K s"
proof -
  let ?key = "enc K x"
  let ?hash = "hash_slice ?key"
  let ?i = "shard_of s ?hash"
  have i: "?i < length (sl_shards s)" using ok by (simp add: sharded_ok_def shard_of_less)
  obtain a where a: "shard_ok K (sl_brk s) n (length (sl_shards s)) ?i (sl_shards s ! ?i) a" "rel (sl_shards s ! ?i) a" "a_ok a"
    by (rule sharded_okE [OF ok i])
  have none: "a_index a (?hash, ?key) = None" using tracked_iff [OF a(2)] miss by (cases "a_index a (?hash, ?key)") auto
  obtain c' a' where c': "lru_lookup ?key ?hash (sl_shards s ! ?i) = Some (None, c')"
    "shard_ok K (sl_brk s) n (length (sl_shards s)) ?i c' a'" "a_index a' = a_index a"
    using lookup_shard_miss [OF a(1) none] by blast
  have rel': "rel c' a'" using c'(2) by (simp add: shard_ok_def)
  let ?s = "set_shard ?i c' s"
  have "sharded_ok K n ?s" by (rule sharded_ok_set [OF ok i c'(2)])
  moreover have "sh_tracked K ?s = sh_tracked K s" by (rule tracked_same_index [OF a(2) rel' c'(3) i])
  moreover have "pol_touch K x s = Some (None, ?s)" using i c'(1) by (simp add: pol_touch_def sh_lookup_def Let_def)
  ultimately show ?thesis by blast
qed

lemma pol_touch_ok:
  assumes ok: "sharded_ok K (Suc n) s"
  shows "\<exists>h s'. pol_touch K x s = Some (h, s') \<and> sharded_ok K n s' \<and> sh_tracked K s' = sh_tracked K s \<and>
    (case h of None \<Rightarrow> x \<notin> sh_tracked K s | Some p \<Rightarrow> x \<in> sh_tracked K s \<and> sh_holds s' p)"
proof -
  let ?key = "enc K x"
  let ?hash = "hash_slice ?key"
  let ?i = "shard_of s ?hash"
  have i: "?i < length (sl_shards s)" using ok by (simp add: sharded_ok_def shard_of_less)
  obtain a where a: "shard_ok K (sl_brk s) (Suc n) (length (sl_shards s)) ?i (sl_shards s ! ?i) a" "rel (sl_shards s ! ?i) a" "a_ok a"
    by (rule sharded_okE [OF ok i])
  obtain c' a' where c': "lru_lookup ?key ?hash (sl_shards s ! ?i) = Some (a_index a (?hash, ?key), c')"
    "shard_ok K (sl_brk s) n (length (sl_shards s)) ?i c' a'" "a_index a' = a_index a"
    "\<forall>e. a_index a (?hash, ?key) = Some e \<longrightarrow> held a' e"
    using lookup_shard_ok [OF a(1)] lookup_index by blast
  have rel': "rel c' a'" using c'(2) by (simp add: shard_ok_def)
  let ?s = "set_shard ?i c' s"
  have "sharded_ok K n ?s" by (rule sharded_ok_set [OF sharded_ok_mono [OF ok] i c'(2)])
  moreover have "sh_tracked K ?s = sh_tracked K s" by (rule tracked_same_index [OF a(2) rel' c'(3) i])
  moreover have "pol_touch K x s = Some (map_option (Pair ?i) (a_index a (?hash, ?key)), ?s)"
    using i c'(1) by (simp add: pol_touch_def sh_lookup_def Let_def)
  moreover have "case map_option (Pair ?i) (a_index a (?hash, ?key)) of None \<Rightarrow> x \<notin> sh_tracked K s
    | Some p \<Rightarrow> x \<in> sh_tracked K s \<and> sh_holds ?s p"
  proof -
    have "rel (sl_shards ?s ! ?i) a'" using rel' i by (simp add: set_shard_nth)
    then have "sh_holds ?s (?i, e)" if "a_index a (?hash, ?key) = Some e" for e
      using c'(4) that i by (simp add: holds_iff)
    then show ?thesis using tracked_iff [OF a(2)] by (auto split: option.split)
  qed
  ultimately show ?thesis by blast
qed


text \<open>A touch whose handle is dropped at once, as on every read, gives its reference back.\<close>

lemma release_lookup_cells:
  assumes "a_cells a' = (a_cells a)(e \<mapsto> h\<lparr>h_refs := h_refs h + 1\<rparr>)" and "a_cells a e = Some h" and "h_refs h \<noteq> 0"
  shows "a_cells (a_release e a') = a_cells a"
proof -
  have "h_refs h + 1 \<noteq> 1" using assms(3) by simp
  then show ?thesis using assms(1,2) by (auto simp: a_release_def Let_def a_upd_def)
qed

lemma lookup_release_shard:
  assumes ok: "shard_ok K brk (Suc n) N i c a" and idx: "a_index a (hash, key) = Some e"
  shows "\<exists>c1 h c2 a2. lru_lookup key hash c = Some (Some e, c1) \<and> c_heap c1 e = Some h \<and> in_shard K brk N i e (core h) \<and>
    lru_release (Some e) c1 = Some c2 \<and> shard_ok K brk (Suc n) N i c2 a2 \<and> a_index a2 = a_index a"
proof -
  have aok: "a_ok a" and cin: "cells_in K brk N i a" and bud: "budget (Suc n) a" using ok by (simp_all add: shard_ok_def)
  let ?a1 = "snd (a_lookup key hash a)"
  obtain c1 where c1: "lru_lookup key hash c = Some (Some e, c1)" "shard_ok K brk n N i c1 ?a1" "held ?a1 e"
    using lookup_shard_ok [OF ok, of key hash] idx by auto
  have a1: "rel c1 ?a1" "a_ok ?a1" "cells_in K brk N i ?a1" using c1(2) by (simp_all add: shard_ok_def)
  obtain h0 where h0: "a_cells a e = Some h0" "h_valid h0" "h_refs h0 \<noteq> 0" using a_ok_index [OF aok idx] by blast
  have cells: "a_cells ?a1 = (a_cells a)(e \<mapsto> h0\<lparr>h_refs := h_refs h0 + 1\<rparr>)" by (rule lookup_cells [OF idx h0(1)])
  then have "a_cells ?a1 e = Some (h0\<lparr>h_refs := h_refs h0 + 1\<rparr>)" by simp
  then obtain h where h: "c_heap c1 e = Some h" "h0\<lparr>h_refs := h_refs h0 + 1\<rparr> = core h" using rel_cell [OF a1(1)] by blast
  have shard: "in_shard K brk N i e (core h)" using a1(3) cells h(2) unfolding cells_in_def by auto
  obtain c2 where c2: "lru_release (Some e) c1 = Some c2" "rel c2 (a_release e ?a1)"
    using sim_release [OF a1(1,2) c1(3)] by blast
  have "a_cells (a_release e ?a1) = a_cells a" by (rule release_lookup_cells [OF cells h0(1,3)])
  then have "shard_ok K brk (Suc n) N i c2 (a_release e ?a1)"
    using c2(2) a_release_ok [OF a1(2) c1(3)] cin bud
    by (simp add: shard_ok_def cells_in_def budget_def refs_below_def a_release_index lookup_index)
  then show ?thesis using shard c1(1) h(1) c2(1) by (metis a_release_index lookup_index)
qed

lemma pol_touch_drop:
  assumes ok: "sharded_ok K (Suc n) s"
  shows "\<exists>h s1 s2. pol_touch K x s = Some (h, s1) \<and> handle_release (lru_policy alloc K) h s1 = Some s2 \<and>
    sharded_ok K (Suc n) s2 \<and> sh_tracked K s2 = sh_tracked K s"
proof (cases "x \<in> sh_tracked K s")
  case False
  then obtain s1 where "pol_touch K x s = Some (None, s1)" "sharded_ok K (Suc n) s1" "sh_tracked K s1 = sh_tracked K s"
    using pol_touch_miss [OF ok] by blast
  then show ?thesis by (intro exI [of _ None]) (simp add: handle_release_def)
next
  case True
  let ?key = "enc K x"
  let ?hash = "hash_slice ?key"
  let ?i = "shard_of s ?hash" and ?N = "length (sl_shards s)"
  have i: "?i < ?N" using ok by (simp add: sharded_ok_def shard_of_less)
  obtain a where a: "shard_ok K (sl_brk s) (Suc n) ?N ?i (sl_shards s ! ?i) a" "rel (sl_shards s ! ?i) a" "a_ok a"
    by (rule sharded_okE [OF ok i])
  obtain e where e: "a_index a (?hash, ?key) = Some e" using tracked_iff [OF a(2)] True by auto
  obtain c1 h c2 a2 where c: "lru_lookup ?key ?hash (sl_shards s ! ?i) = Some (Some e, c1)" "c_heap c1 e = Some h"
    "in_shard K (sl_brk s) ?N ?i e (core h)" "lru_release (Some e) c1 = Some c2" "shard_ok K (sl_brk s) (Suc n) ?N ?i c2 a2"
    "a_index a2 = a_index a" using lookup_release_shard [OF a(1) e] by blast
  let ?s1 = "set_shard ?i c1 s" and ?s2 = "set_shard ?i c2 s"
  have rel2: "rel c2 a2" using c(5) by (simp add: shard_ok_def)
  have "pol_touch K x s = Some (Some (?i, e), ?s1)" using i c(1) by (simp add: pol_touch_def sh_lookup_def Let_def)
  moreover have "shard_of s (h_hash (core h)) = ?i" using c(3) unfolding in_shard_def shard_of_def Let_def by blast
  then have "shard_of ?s1 (h_hash h) = ?i" by (simp add: shard_of_def Let_def set_shard_def)
  then have "handle_release (lru_policy alloc K) (Some (?i, e)) ?s1 = Some ?s2"
    using i c(2,4) by (simp add: handle_release_def lru_policy_def sh_release_def set_shard_nth) (simp add: set_shard_def)
  moreover have "sharded_ok K (Suc n) ?s2" by (rule sharded_ok_set [OF ok i c(5)])
  moreover have "sh_tracked K ?s2 = sh_tracked K s" by (rule tracked_same_index [OF a(2) rel2 c(6) i])
  ultimately show ?thesis by blast
qed

section \<open>Evictions\<close>

text \<open>
  What an eviction of the handles \<open>hs\<close> has done: they are no longer tracked, their identifiers are
  distinct and were tracked, and they wait to be freed, as did the handles evicted before.
\<close>

definition evicts :: "'id codec \<Rightarrow> nat \<Rightarrow> sharded_lru \<Rightarrow> handle_ptr list \<Rightarrow> sharded_lru \<Rightarrow> bool" where
  "evicts K n s hs s' \<longleftrightarrow> sharded_ok K n s' \<and> length (sl_shards s') = length (sl_shards s) \<and>
     (\<forall>p \<in> set hs. pending s' p) \<and> distinct (map (key_of K s') hs) \<and> key_of K s' ` set hs \<subseteq> sh_tracked K s \<and>
     sh_tracked K s' = sh_tracked K s - key_of K s' ` set hs \<and>
     (\<forall>p. pending s p \<longrightarrow> pending s' p \<and> key_of K s' p = key_of K s p)"

lemma evicts_Nil: "sharded_ok K n s \<Longrightarrow> evicts K n s [] s"
  by (simp add: evicts_def)

lemma evictsD:
  assumes "evicts K n s hs s'"
  shows "sharded_ok K n s'" and "length (sl_shards s') = length (sl_shards s)" and "p \<in> set hs \<Longrightarrow> pending s' p"
    and "distinct (map (key_of K s') hs)" and "key_of K s' ` set hs \<subseteq> sh_tracked K s"
    and "sh_tracked K s' = sh_tracked K s - key_of K s' ` set hs"
    and "pending s p \<Longrightarrow> pending s' p" and "pending s p \<Longrightarrow> key_of K s' p = key_of K s p"
  using assms unfolding evicts_def by blast+

lemma evicts_trans:
  assumes 1: "evicts K n s hs s1" and 2: "evicts K n s1 hs1 s2"
  shows "evicts K n s (hs @ hs1) s2"
proof -
  have same: "map (key_of K s2) hs = map (key_of K s1) hs" using evictsD(8) [OF 2] evictsD(3) [OF 1] by simp
  then have im: "key_of K s2 ` set hs = key_of K s1 ` set hs" by (metis list.set_map)
  note t1 = evictsD(6) [OF 1] and sub = evictsD(5) [OF 1] evictsD(5) [OF 2]
  have "set (map (key_of K s2) hs) \<inter> set (map (key_of K s2) hs1) = {}" using t1 sub(2) im by (simp only: list.set_map) blast
  moreover have "distinct (map (key_of K s2) hs)" unfolding same by (rule evictsD(4) [OF 1])
  ultimately have "distinct (map (key_of K s2) (hs @ hs1))"
    using evictsD(4) [OF 2] by (simp only: map_append distinct_append)
  moreover have un: "key_of K s2 ` set (hs @ hs1) = key_of K s1 ` set hs \<union> key_of K s2 ` set hs1" using im by (simp add: image_Un)
  moreover have "key_of K s2 ` set (hs @ hs1) \<subseteq> sh_tracked K s" using sub t1 unfolding un by blast
  moreover have "sh_tracked K s2 = sh_tracked K s - key_of K s2 ` set (hs @ hs1)"
    using evictsD(6) [OF 2] t1 unfolding un by blast
  moreover have "pending s2 p" if "p \<in> set (hs @ hs1)" for p
  proof (cases "p \<in> set hs")
    case True
    from evictsD(7) [OF 2 evictsD(3) [OF 1 True]] show ?thesis .
  next
    case False
    then have "p \<in> set hs1" using that by simp
    from evictsD(3) [OF 2 this] show ?thesis .
  qed
  moreover have "pending s2 p \<and> key_of K s2 p = key_of K s p" if "pending s p" for p
    using evictsD(7,8) [OF 1 that] evictsD(7,8) [OF 2] by simp
  moreover have "length (sl_shards s2) = length (sl_shards s)" using evictsD(2) [OF 1] evictsD(2) [OF 2] by simp
  ultimately show ?thesis using evictsD(1) [OF 2] unfolding evicts_def by blast
qed

lemma fold_evict_index_exact:
  assumes "a_ok a" and "a_order a = es @ rest"
  shows "a_index (fold a_evict_one es a) (hash, key) =
    (case a_index a (hash, key) of None \<Rightarrow> None | Some e \<Rightarrow> if e \<in> set es then None else Some e)"
  using assms
proof (induction es arbitrary: a)
  case Nil
  then show ?case by (simp split: option.split)
next
  case (Cons e es)
  have e: "e \<in> set (a_order a)" using Cons.prems(2) by simp
  then obtain h where h: "a_cells a e = Some h" "h_valid h" "h_refs h = 1" using a_ok_order [OF Cons.prems(1)] by blast
  have o: "a_order (a_evict_one e a) = es @ rest" using h Cons.prems(2) by (simp add: a_evict_one_order)
  have "a_index a (hash, key) = Some e \<longleftrightarrow> (hash, key) = (h_hash h, h_key_data h)"
    using ok_cell_index [OF Cons.prems(1) h(1)] h(2) by auto
  then have "a_index (a_evict_one e a) (hash, key) = (if a_index a (hash, key) = Some e then None else a_index a (hash, key))"
    using h(1) by (auto simp: a_evict_one_def a_upd_def)
  then show ?case using Cons.IH [OF a_evict_one_ok [OF Cons.prems(1) e] o] by (auto split: option.splits)
qed

lemma shard_evict_ok:
  assumes inj: "\<And>x. dec K (enc K x) = x" and ok: "sharded_ok K n s" and i: "i < length (sl_shards s)"
  shows "\<exists>hs s'. shard_evict i charge acc s = Some (acc @ hs, s') \<and> evicts K n s hs s'"
proof -
  obtain a where a: "shard_ok K (sl_brk s) n (length (sl_shards s)) i (sl_shards s ! i) a" "rel (sl_shards s ! i) a" "a_ok a"
    by (rule sharded_okE [OF ok i])
  let ?es = "evict_prefix (a_charge a) charge 0 (a_order a)"
  let ?a' = "fold a_evict_one ?es a"
  obtain rest where sp: "a_order a = ?es @ rest" using evict_prefix_split by blast
  obtain c' where c': "lru_evict charge [] (sl_shards s ! i) = Some (?es, c')" "rel c' ?a'"
    using sim_evict [OF a(2,3), of charge "[]"] by (auto simp: a_evict_def Let_def)
  let ?s = "set_shard i c' s" and ?hs = "map (Pair i) ?es"
  have aok': "a_ok ?a'" using fold_evict_ok [OF a(3) sp] by blast
  have rel': "rel (sl_shards ?s ! i) ?a'" using c'(2) i by (simp add: set_shard_nth)
  have cells: "a_cells ?a' e = (if e \<in> set ?es then map_option (\<lambda>h. h\<lparr>h_valid := False, h_refs := 0\<rparr>) (a_cells a e) else a_cells a e)" for e
    by (rule fold_evict_cells [OF a(3) sp])
  have key: "\<exists>h x. a_cells a e = Some h \<and> h_valid h \<and> h_key_data h = enc K x \<and> h_hash h = hash_slice (enc K x) \<and>
      shard_of s (hash_slice (enc K x)) = i \<and> key_of K ?s (i, e) = x \<and> a_index a (hash_slice (enc K x), enc K x) = Some e"
    if "e \<in> set ?es" for e
  proof -
    have "e \<in> set (a_order a)" using that by (subst sp) simp
    then obtain h where h: "a_cells a e = Some h" "h_valid h" using a_ok_order [OF a(3)] by blast
    then have "in_shard K (sl_brk s) (length (sl_shards s)) i e h" using a(1) unfolding shard_ok_def cells_in_def by blast
    then obtain x where x: "h_key_data h = enc K x" "h_hash h = hash_slice (enc K x)" unfolding in_shard_def by auto
    have "key_of K ?s (i, e) = dec K (enc K x)" 
      using key_of_cell [OF rel', of e "h\<lparr>h_valid := False, h_refs := 0\<rparr>"] cells [of e] that h(1) x(1) by simp
    then show ?thesis using h x cell_shard [OF a(1) h(1)] ok_cell_index [OF a(3) h(1)] inj by auto
  qed
  have ok': "sharded_ok K n ?s"
    by (rule sharded_ok_set [OF ok i shard_ok_shrinks [OF a(1) c'(2) aok' shrinks_fold_evict [OF a(3) sp]]])
  have tr: "x \<in> sh_tracked K s \<longleftrightarrow> a_index a (hash_slice (enc K x), enc K x) \<noteq> None" if "shard_of s (hash_slice (enc K x)) = i" for x
    by (rule tracked_iff) (use a(2) that in simp)
  have "distinct (map (key_of K ?s) ?hs)"
  proof -
    have "inj_on (\<lambda>e. key_of K ?s (i, e)) (set ?es)"
    proof (rule inj_onI)
      fix e f assume e: "e \<in> set ?es" "f \<in> set ?es" and eq: "key_of K ?s (i, e) = key_of K ?s (i, f)"
      obtain x where "key_of K ?s (i, e) = x" "a_index a (hash_slice (enc K x), enc K x) = Some e" using key [OF e(1)] by blast
      moreover obtain y where "key_of K ?s (i, f) = y" "a_index a (hash_slice (enc K y), enc K y) = Some f" using key [OF e(2)] by blast
      ultimately show "e = f" using eq by simp
    qed
    moreover have "distinct (?es @ rest)" using order_distinct [OF a(3)] by (subst sp [symmetric])
    then have "distinct ?es" by simp
    ultimately have "distinct (map (\<lambda>e. key_of K ?s (i, e)) ?es)" by (simp add: distinct_map)
    then show ?thesis by (simp add: comp_def)
  qed
  moreover have pend: "pending ?s p" if p: "p \<in> set ?hs" for p
  proof -
    obtain e where e: "p = (i, e)" "e \<in> set ?es" using p by auto
    then obtain h where "a_cells a e = Some h" using key by blast
    then show ?thesis using e i cells [of e] by (simp add: pending_iff [OF rel'])
  qed
  moreover have "key_of K ?s ` set ?hs \<subseteq> sh_tracked K s"
  proof
    fix x assume "x \<in> key_of K ?s ` set ?hs"
    then obtain e where "e \<in> set ?es" "x = key_of K ?s (i, e)" by auto
    then show "x \<in> sh_tracked K s" using key [of e] tr by auto
  qed
  moreover have "sh_tracked K ?s = sh_tracked K s - key_of K ?s ` set ?hs"
  proof (rule set_eqI)
    fix x
    let ?k = "(hash_slice (enc K x), enc K x)"
    have "x \<in> key_of K ?s ` set ?hs \<longleftrightarrow> shard_of s (fst ?k) = i \<and> (\<exists>e \<in> set ?es. a_index a ?k = Some e)"
    proof
      assume "x \<in> key_of K ?s ` set ?hs"
      then obtain e where "e \<in> set ?es" "x = key_of K ?s (i, e)" by auto
      then show "shard_of s (fst ?k) = i \<and> (\<exists>e \<in> set ?es. a_index a ?k = Some e)" using key [of e] by auto
    next
      assume "shard_of s (fst ?k) = i \<and> (\<exists>e \<in> set ?es. a_index a ?k = Some e)"
      then obtain e where e: "e \<in> set ?es" "a_index a ?k = Some e" by blast
      obtain h y where h: "a_cells a e = Some h" "h_key_data h = enc K y" "key_of K ?s (i, e) = y" using key [OF e(1)] by blast
      have "h_key_data h = enc K x" using a_ok_index [OF a(3), of "fst ?k" "snd ?k" e] e(2) h(1) by auto
      then have "y = x" using h(2) enc_inj [of K, OF inj] by simp
      then have "x = key_of K ?s (i, e)" using h(3) by simp
      then show "x \<in> key_of K ?s ` set ?hs" using e(1) by auto
    qed
    moreover have "a_index ?a' ?k = (case a_index a ?k of None \<Rightarrow> None | Some e \<Rightarrow> if e \<in> set ?es then None else Some e)"
      by (rule fold_evict_index_exact [OF a(3) sp])
    ultimately show "x \<in> sh_tracked K ?s \<longleftrightarrow> x \<in> sh_tracked K s - key_of K ?s ` set ?hs"
      using tr [of x] tracked_set_shard [OF c'(2) i, of x K] by (auto split: option.splits if_splits)
  qed
  moreover have "pending ?s p \<and> key_of K ?s p = key_of K s p" if p: "pending s p" for p
  proof (cases "fst p = i")
    case True
    then obtain e h where e: "p = (i, e)" "a_cells a e = Some h" "h_refs h = 0" using p pending_iff [OF a(2)] by (cases p) auto
    have "e \<notin> set ?es"
    proof
      assume "e \<in> set ?es"
      then obtain h' where "a_cells a e = Some h'" "h_valid h'" using key by blast
      then have "h_valid h" using e(2) by simp
      then show False using a(3) e(2,3) by (auto simp: a_ok_def refs_ok_def)
    qed
    then have "a_cells ?a' e = Some h" using cells [of e] e(2) by simp
    then show ?thesis
      using e i by (simp add: pending_iff [OF rel'] key_of_cell [OF rel'] key_of_cell [OF a(2) e(2)])
  next
    case False
    then show ?thesis using p by (auto simp: pending_def key_of_def set_shard_nth split: option.splits)
  qed
  ultimately have "evicts K n s ?hs ?s" using ok' unfolding evicts_def by (auto simp only: set_shard_fields)
  moreover have "shard_evict i charge acc s = Some (acc @ ?hs, ?s)" using i c'(1) by (simp add: shard_evict_def)
  ultimately show ?thesis by blast
qed


lemma evict_shards_ok:
  assumes inj: "\<And>x. dec K (enc K x) = x" and "sharded_ok K n s" and "set is \<subseteq> {..<length (sl_shards s)}"
  shows "\<exists>hs s'. fold_opt (\<lambda>i (evicted, s). shard_evict i charge evicted s) is (acc, s) = Some (acc @ hs, s') \<and>
    evicts K n s hs s'"
  using assms(2,3)
proof (induction "is" arbitrary: acc s)
  case Nil
  then have "evicts K n s [] s" by (simp add: evicts_Nil)
  then show ?case by (intro exI [of _ "[]"] exI [of _ s]) simp
next
  case (Cons i "is")
  have i: "i < length (sl_shards s)" using Cons.prems(2) by simp
  obtain hs1 s1 where 1: "shard_evict i charge acc s = Some (acc @ hs1, s1)" "evicts K n s hs1 s1"
    using shard_evict_ok [OF inj Cons.prems(1) i] by blast
  have "set is \<subseteq> {..<length (sl_shards s1)}" using Cons.prems(2) evictsD(2) [OF 1(2)] by simp
  then obtain hs2 s2 where
    "fold_opt (\<lambda>i (evicted, s). shard_evict i charge evicted s) is (acc @ hs1, s1) = Some ((acc @ hs1) @ hs2, s2)"
    "evicts K n s1 hs2 s2"
    using Cons.IH [OF evictsD(1) [OF 1(2)], of "acc @ hs1"] by blast
  then show ?case using 1(1) evicts_trans [OF 1(2)] by (intro exI [of _ "hs1 @ hs2"] exI [of _ s2]) simp
qed

text \<open>Freeing an evicted handle leaves the other evicted handles as they are.\<close>

lemma sh_free_ok:
  assumes ok: "sharded_ok K n s" and p: "pending s p"
  shows "\<exists>s'. sh_free p s = Some s' \<and> sharded_ok K n s' \<and> sh_tracked K s' = sh_tracked K s \<and>
    (\<forall>q. q \<noteq> p \<longrightarrow> pending s q \<longrightarrow> pending s' q \<and> key_of K s' q = key_of K s q)"
proof -
  obtain i e where pe: "p = (i, e)" by (cases p)
  then have i: "i < length (sl_shards s)" using p by (simp add: pending_def)
  obtain a where a: "shard_ok K (sl_brk s) n (length (sl_shards s)) i (sl_shards s ! i) a" "rel (sl_shards s ! i) a" "a_ok a"
    by (rule sharded_okE [OF ok i])
  obtain h where h: "a_cells a e = Some h" "h_refs h = 0" using p pending_iff [OF a(2)] pe by auto
  obtain c' where c': "handle_free e (sl_shards s ! i) = Some c'" "rel c' (a_free e a)"
    using sim_free [OF a(2,3) h] by blast
  let ?s = "set_shard i c' s"
  have rel': "rel (sl_shards ?s ! i) (a_free e a)" using c'(2) i by (simp add: set_shard_nth)
  have "sharded_ok K n ?s"
    by (rule sharded_ok_set [OF ok i shard_ok_shrinks [OF a(1) c'(2) a_free_ok [OF a(3) h] shrinks_free]])
  moreover have "sh_tracked K ?s = sh_tracked K s" by (rule tracked_same_index [OF a(2) c'(2) _ i]) simp
  moreover have "pending ?s q \<and> key_of K ?s q = key_of K s q" if q: "q \<noteq> p" "pending s q" for q
  proof (cases "fst q = i")
    case True
    then obtain f k where f: "q = (i, f)" "f \<noteq> e" "a_cells a f = Some k" "h_refs k = 0"
      using q pe pending_iff [OF a(2)] by (cases q) auto
    then have k: "a_cells (a_free e a) f = Some k" by (simp add: a_free_def split: option.split)
    show ?thesis
      using f i k by (simp add: pending_iff [OF rel'] key_of_cell [OF rel' k] key_of_cell [OF a(2) f(3)])
  next
    case False
    then show ?thesis using q by (auto simp: pending_def key_of_def set_shard_nth split: option.splits)
  qed
  moreover have "sh_free p s = Some ?s" using pe i c'(1) by (simp add: sh_free_def)
  ultimately show ?thesis by blast
qed

lemma collect_ok:
  assumes "sharded_ok K n s" and "\<And>p. p \<in> set hs \<Longrightarrow> pending s p" and "distinct hs"
  shows "\<exists>s'. collect_evicted K hs acc s = Some (acc @ map (key_of K s) hs, s') \<and> sharded_ok K n s' \<and> sh_tracked K s' = sh_tracked K s"
  using assms
proof (induction hs arbitrary: acc s)
  case Nil
  then show ?case by (simp add: collect_evicted_def)
next
  case (Cons p hs)
  have p: "pending s p" using Cons.prems(2) by simp
  obtain s1 where s1: "sh_free p s = Some s1" "sharded_ok K n s1" "sh_tracked K s1 = sh_tracked K s"
    "\<forall>q. q \<noteq> p \<longrightarrow> pending s q \<longrightarrow> pending s1 q \<and> key_of K s1 q = key_of K s q"
    using sh_free_ok [OF Cons.prems(1) p] by blast
  have q: "pending s1 q \<and> key_of K s1 q = key_of K s q" if "q \<in> set hs" for q
  proof -
    have "q \<noteq> p" using that Cons.prems(3) by auto
    moreover have "pending s q" using that Cons.prems(2) [of q] by simp
    ultimately show ?thesis using s1(4) by blast
  qed
  then have same: "map (key_of K s1) hs = map (key_of K s) hs" by simp
  obtain e where "c_heap (sl_shards s ! fst p) (snd p) = Some e" using p by (auto simp: pending_def split: option.splits)
  then have "collect_one K p (acc, s) = Some (acc @ [key_of K s p], s1)"
    using s1(1) p by (simp add: collect_one_def key_of_def pending_def)
  moreover obtain s' where "collect_evicted K hs (acc @ [key_of K s p]) s1 = Some ((acc @ [key_of K s p]) @ map (key_of K s1) hs, s')"
    "sharded_ok K n s'" "sh_tracked K s' = sh_tracked K s1"
    using Cons.IH [OF s1(2), of "acc @ [key_of K s p]"] q Cons.prems(3) by auto
  ultimately show ?case using s1(3) same by (simp add: collect_evicted_def)
qed

lemma evicts_collect:
  assumes "evicts K n s hs s1"
  shows "\<exists>out s'. collect_evicted K hs acc s1 = Some (acc @ out, s') \<and> sharded_ok K n s' \<and>
    distinct out \<and> set out \<subseteq> sh_tracked K s \<and> sh_tracked K s' = sh_tracked K s - set out"
proof -
  have "distinct hs" using evictsD(4) [OF assms] by (simp add: distinct_map)
  then obtain s' where "collect_evicted K hs acc s1 = Some (acc @ map (key_of K s1) hs, s')" "sharded_ok K n s'"
    "sh_tracked K s' = sh_tracked K s1"
    using collect_ok [OF evictsD(1) [OF assms] evictsD(3) [OF assms]] by blast
  then show ?thesis using evictsD(4,5,6) [OF assms] by (intro exI conjI) auto
qed

lemma pol_evict_ok:
  assumes inj: "\<And>x. dec K (enc K x) = x" and ok: "sharded_ok K n s"
  shows "\<exists>out s'. pol_evict K sz acc s = Some (acc @ out, s') \<and> sharded_ok K n s' \<and>
    distinct out \<and> set out \<subseteq> sh_tracked K s \<and> sh_tracked K s' = sh_tracked K s - set out"
proof -
  have "set [0..<length (sl_shards s)] \<subseteq> {..<length (sl_shards s)}" by auto
  from evict_shards_ok [OF inj ok this, of "of_nat sz" "[]"] obtain hs s1 where
    "sh_evict (of_nat sz) [] s = Some (hs, s1)" "evicts K n s hs s1"
    unfolding sh_evict_def by auto
  then show ?thesis using evicts_collect [of K n s hs s1 acc] by (simp add: pol_evict_def)
qed

lemma pol_evict_for_ok:
  assumes inj: "\<And>x. dec K (enc K x) = x" and ok: "sharded_ok K n s"
  shows "\<exists>out s'. pol_evict_for K x sz acc s = Some (acc @ out, s') \<and> sharded_ok K n s' \<and>
    distinct out \<and> set out \<subseteq> sh_tracked K s \<and> sh_tracked K s' = sh_tracked K s - set out"
proof -
  have "shard_of s (hash_slice (enc K x)) < length (sl_shards s)" using ok by (simp add: sharded_ok_def shard_of_less)
  from shard_evict_ok [OF inj ok this, of "of_nat sz" "[]"] obtain hs s1 where
    "sh_evict_for (enc K x) (of_nat sz) [] s = Some (hs, s1)" "evicts K n s hs s1"
    unfolding sh_evict_for_def by auto
  then show ?thesis using evicts_collect [of K n s hs s1 acc] by (simp add: pol_evict_for_def)
qed

lemma shard_prune_ok:
  assumes ok: "sharded_ok K n s" and i: "i < length (sl_shards s)"
  shows "\<exists>s'. shard_prune i s = Some s' \<and> sharded_ok K n s' \<and> length (sl_shards s') = length (sl_shards s) \<and>
    sh_tracked K s' \<subseteq> sh_tracked K s"
proof -
  obtain a where a: "shard_ok K (sl_brk s) n (length (sl_shards s)) i (sl_shards s ! i) a" "rel (sl_shards s ! i) a" "a_ok a"
    by (rule sharded_okE [OF ok i])
  let ?a' = "snd (a_prune a)"
  obtain c' where c': "lru_prune (sl_shards s ! i) = Some (fst (a_prune a), c')" "rel c' ?a'" "a_ok ?a'"
    using sim_prune [OF a(2,3)] by blast
  have sp: "a_order a = a_order a @ []" by simp
  have sh: "shrinks a ?a'"
    using shrinks_trans [OF shrinks_fold_evict [OF a(3) sp] shrinks_fold_free] by (simp add: a_prune_def)
  have idx: "a_index ?a' k \<noteq> None \<Longrightarrow> a_index a k \<noteq> None" for k
    using fold_evict_index_exact [OF a(3) sp, of "fst k" "snd k"] by (auto simp: a_prune_def split: option.splits)
  let ?s = "set_shard i c' s"
  have "sharded_ok K n ?s" by (rule sharded_ok_set [OF ok i shard_ok_shrinks [OF a(1) c'(2,3) sh]])
  moreover have "sh_tracked K ?s \<subseteq> sh_tracked K s"
  proof
    fix x assume x: "x \<in> sh_tracked K ?s"
    have "x \<in> sh_tracked K s \<longleftrightarrow> a_index a (hash_slice (enc K x), enc K x) \<noteq> None" if "shard_of s (hash_slice (enc K x)) = i"
      by (rule tracked_iff) (use a(2) that in simp)
    then show "x \<in> sh_tracked K s" using x idx by (simp add: tracked_set_shard [OF c'(2) i] split: if_splits)
  qed
  moreover have "shard_prune i s = Some ?s" using i c'(1) by (simp add: shard_prune_def)
  ultimately show ?thesis using set_shard_fields(2) by blast
qed

lemma sh_prune_ok:
  assumes ok: "sharded_ok K n s"
  shows "\<exists>s'. sh_prune s = Some s' \<and> sharded_ok K n s' \<and> sh_tracked K s' \<subseteq> sh_tracked K s"
proof -
  let ?I = "\<lambda>t. sharded_ok K n t \<and> length (sl_shards t) = length (sl_shards s) \<and> sh_tracked K t \<subseteq> sh_tracked K s"
  have "\<exists>t. fold_opt shard_prune [0..<length (sl_shards s)] s = Some t \<and> ?I t"
  proof (rule fold_opt_total)
    fix i t assume i: "i \<in> set [0..<length (sl_shards s)]" and I: "?I t"
    then have "i < length (sl_shards t)" by simp
    then obtain t' where "shard_prune i t = Some t'" "sharded_ok K n t'" "length (sl_shards t') = length (sl_shards t)"
      "sh_tracked K t' \<subseteq> sh_tracked K t"
      using shard_prune_ok I by blast
    then show "\<exists>t'. shard_prune i t = Some t' \<and> ?I t'" using I by (intro exI [of _ t']) auto
  qed (use ok in simp)
  then show ?thesis unfolding sh_prune_def by blast
qed

section \<open>A new policy\<close>

lemma sharded_new_ok:
  assumes "0 < N" and "N < 2 ^ 32" and "n < 2 ^ 31"
  shows "\<exists>s. sharded_new True N = Some s \<and> sharded_ok K n s \<and> sh_tracked K s = {}"
proof -
  obtain c where c: "lru_new True = Some c" "rel c abs_empty" using lru_new_rel by blast
  let ?s = "\<lparr>sl_shards = replicate N c, sl_brk = 1\<rparr>"
  have "shard_ok K 1 n N i c abs_empty" for i
    using c(2) abs_empty_ok assms(3)
    by (simp add: shard_ok_def cells_in_def budget_def refs_below_def) (simp add: abs_empty_def)
  then have ok: "sharded_ok K n ?s" using assms by (auto simp: sharded_ok_def)
  moreover have "sh_tracked K ?s = {}"
  proof -
    have "x \<notin> sh_tracked K ?s" for x
    proof -
      have "shard_of ?s (hash_slice (enc K x)) < length (sl_shards ?s)" by (rule shard_of_less) (use assms in simp_all)
      then have "rel (sl_shards ?s ! shard_of ?s (hash_slice (enc K x))) abs_empty" using c(2) by simp
      from tracked_iff [OF this] show ?thesis by (simp add: abs_empty_def)
    qed
    then show ?thesis by blast
  qed
  ultimately show ?thesis using c(1) by (simp add: sharded_new_def)
qed

section \<open>The interface is provided by the LRU policy\<close>

lemma lru_policy_eviction_policy:
  assumes inj: "\<And>x. dec K (enc K x) = x"
  shows "eviction_policy (lru_policy alloc K) (sharded_ok K) (sh_tracked K) sh_holds"
  using pol_touch_drop [where alloc = alloc and K = K]
  by unfold_locales
    (simp_all add: lru_policy_def sharded_ok_mono pol_add_ok [OF inj] pol_touch_ok pol_touch_miss sh_release_ok pol_remove_ok [OF inj]
      pol_evict_ok [OF inj] pol_evict_for_ok [OF inj] sh_prune_ok)

interpretation mem_policy: eviction_policy "lru_policy True (block_key_codec pad)" "sharded_ok (block_key_codec pad)"
    "sh_tracked (block_key_codec pad)" sh_holds for pad
  by (rule lru_policy_eviction_policy) simp

interpretation disk_policy: eviction_policy "lru_policy True cache_id_codec" "sharded_ok cache_id_codec"
    "sh_tracked cache_id_codec" sh_holds
  by (rule lru_policy_eviction_policy) simp


text \<open>A run on a new policy, for a codec whose interface is interpreted.\<close>

lemma policy_run_from_new:
  assumes pol: "eviction_policy (lru_policy True K) (sharded_ok K) (sh_tracked K) sh_holds"
    and "FLAGS_lru_container_shard_bits cfg < 32" and "length calls < 2 ^ 31"
  shows "\<exists>s outs s'. lru_policy_new cfg True = Some s \<and> policy_run (lru_policy True K) calls s = Some (outs, s') \<and> reports_ok calls outs {}"
proof -
  have "2 ^ FLAGS_lru_container_shard_bits cfg < (2 :: nat) ^ 32" by (rule power_strict_increasing) (use assms(2) in simp_all)
  then obtain s where "sharded_new True (2 ^ FLAGS_lru_container_shard_bits cfg) = Some s" "sharded_ok K (length calls + 0) s"
    "sh_tracked K s = {}"
    using sharded_new_ok [of "2 ^ FLAGS_lru_container_shard_bits cfg" "length calls" K] assms(3) by auto
  then show ?thesis using eviction_policy.run_ok [OF pol, of calls 0 s] by (auto simp: lru_policy_new_def)
qed

text \<open>
  C11: every sequence of additions, touches, removals and evictions on a new LRU policy runs without undefined
  behaviour: a touch hits exactly the identifiers added and neither removed nor evicted since, and an eviction
  reports distinct identifiers that are tracked at that moment, never a removed one. This holds for the cache ids of
  the policy of the disk cache, and for the block keys of the policy of the memory cache as long as the padding
  bytes of a block key always have the same content.
\<close>
theorem policy_runs_meet_set_spec:
  assumes "FLAGS_lru_container_shard_bits cfg < 32" and "length calls < 2 ^ 31" and "length block_calls < 2 ^ 31"
  shows "(\<exists>s outs s'. lru_policy_new cfg True = Some s \<and> policy_run (lru_policy True cache_id_codec) calls s = Some (outs, s') \<and>
      reports_ok calls outs {}) \<and>
    (\<exists>s outs s'. lru_policy_new cfg True = Some s \<and>
      policy_run (lru_policy True (block_key_codec pad)) block_calls s = Some (outs, s') \<and> reports_ok block_calls outs {})"
  using policy_run_from_new [OF disk_policy.eviction_policy_axioms assms(1,2)]
    policy_run_from_new [OF mem_policy.eviction_policy_axioms assms(1,3)] by blast

theorem policy_runs_meet_set_spec_witness:
  "(\<exists>s outs s'. lru_policy_new default_config True = Some s \<and>
     policy_run (lru_policy True cache_id_codec) [Add 7 100, Read 7, Add 9 100, Remove 7, Read 7, EvictAny 1] s = Some (outs, s') \<and>
     reports_ok [Add 7 100, Read 7, Add 9 100, Remove 7, Read 7, EvictAny 1] outs {}) \<and>
   (\<exists>s outs s'. lru_policy_new default_config True = Some s \<and>
     policy_run (lru_policy True (block_key_codec [0, 0, 0, 0])) [Add \<lparr>bk_cache_id = 7, bk_block_index = 1\<rparr> 100, EvictAny 1] s = Some (outs, s') \<and>
     reports_ok [Add \<lparr>bk_cache_id = 7, bk_block_index = 1\<rparr> 100, EvictAny 1] outs {})"
  by (rule policy_runs_meet_set_spec) (simp_all add: default_config_def)

text \<open>
  An identifier that was removed from the policy of the memory cache is in no later eviction, whatever the
  content of the padding bytes of its key, as long as they are always the same.
\<close>
lemma removed_block_is_not_evicted:
  assumes "sharded_ok (block_key_codec pad) n s" and "pol_remove (block_key_codec pad) x s = Some s1"
    and "pol_evict (block_key_codec pad) sz [] s1 = Some (out, s2)"
  shows "x \<notin> set out"
  using mem_policy.removed_is_not_evicted [of pad n s x s1 sz out s2] assms by (simp add: lru_policy_def)


text \<open>
  C40: the padding bytes of a block key take part in the comparison: a block added under one content of
  the padding is not found by a touch of the same block under another.
\<close>
theorem touch_misses_other_padding:
  assumes "sharded_ok (block_key_codec pad) (Suc n) s" and "length pad' = length pad" and "pad' \<noteq> pad"
  shows "\<exists>s'. pol_touch (block_key_codec pad') x s = Some (None, s')"
proof -
  let ?key = "enc (block_key_codec pad') x"
  let ?i = "shard_of s (hash_slice ?key)"
  have i: "?i < length (sl_shards s)" using assms(1) by (simp add: sharded_ok_def shard_of_less)
  obtain a where a: "shard_ok (block_key_codec pad) (sl_brk s) (Suc n) (length (sl_shards s)) ?i (sl_shards s ! ?i) a" "a_ok a"
    by (rule sharded_okE [OF assms(1) i])
  have "a_index a (hash_slice ?key, ?key) = None"
  proof (rule ccontr)
    assume "a_index a (hash_slice ?key, ?key) \<noteq> None"
    then obtain e h where h: "a_cells a e = Some h" "h_key_data h = ?key" using a_ok_index [OF a(2)] by blast
    then obtain k where "?key = enc (block_key_codec pad) k"
      using a(1) unfolding shard_ok_def cells_in_def in_shard_def by metis
    then show False using assms(3) by (simp add: block_key_codec_def)
  qed
  then show ?thesis
    using i lookup_shard_ok [OF a(1), of ?key "hash_slice ?key"] by (auto simp: pol_touch_def sh_lookup_def Let_def)
qed

theorem touch_misses_other_padding_witness:
  "\<exists>s s'. sharded_ok (block_key_codec [0, 0, 0, 0]) 1 s \<and>
     \<lparr>bk_cache_id = 5, bk_block_index = 1\<rparr> \<in> sh_tracked (block_key_codec [0, 0, 0, 0]) s \<and>
     pol_touch (block_key_codec [0, 0, 1, 0]) \<lparr>bk_cache_id = 5, bk_block_index = 1\<rparr> s = Some (None, s')"
proof -
  let ?K = "block_key_codec [0, 0, 0, 0]" and ?x = "\<lparr>bk_cache_id = 5, bk_block_index = 1\<rparr>"
  obtain s0 where "sharded_ok ?K (Suc 1) s0" using sharded_new_ok [of 4 "Suc 1" ?K] by auto
  then obtain s where s: "sharded_ok ?K 1 s" "sh_tracked ?K s = insert ?x (sh_tracked ?K s0)"
    using pol_add_ok [OF block_key_dec, of "[0, 0, 0, 0]" 1 s0 True ?x 10] by auto
  then show ?thesis using touch_misses_other_padding [of "[0, 0, 0, 0]" 0 s "[0, 0, 1, 0]" ?x] by auto
qed

end
