(* ===== verification/CacheItems.thy ===== *)
theory CacheItems
  imports AuxFuncs
begin

text \<open>
  The objects of the cache: segments, memory blocks, disk blocks and their pair in a block
  (\<^verbatim>\<open>src/block_item.h\<close>), cache items and their state bits (\<^verbatim>\<open>src/cache_item.h\<close>). All are owned through
  \<^verbatim>\<open>std::shared_ptr\<close>: an object lives in a heap with its use count, and the operation that drops
  the last reference hands the object to its deleter.
\<close>

unbundle bit_operations_syntax

section \<open>Shared pointers\<close>

type_synonym ptr = nat
type_synonym 'a shared_heap = "ptr \<rightharpoonup> 'a \<times> nat"

definition deref :: "'a shared_heap \<Rightarrow> ptr \<Rightarrow> 'a option" where
  "deref hp p = map_option fst (hp p)"

definition modify :: "ptr \<Rightarrow> ('a \<Rightarrow> 'a) \<Rightarrow> 'a shared_heap \<Rightarrow> 'a shared_heap option" where
  "modify p f hp = do { (x, n) \<leftarrow> hp p; Some (hp(p \<mapsto> (f x, n))) }"

definition retain :: "ptr \<Rightarrow> 'a shared_heap \<Rightarrow> 'a shared_heap option" where
  "retain p hp = do { (x, n) \<leftarrow> hp p; Some (hp(p \<mapsto> (x, Suc n))) }"

text \<open>Dropping a reference; the object comes with the result when it was the last one.\<close>

definition drop_ref :: "ptr \<Rightarrow> 'a shared_heap \<Rightarrow> ('a option \<times> 'a shared_heap) option" where
  "drop_ref p hp = do { (x, n) \<leftarrow> hp p;
     Some (if n \<le> 1 then (Some x, hp(p := None)) else (None, hp(p \<mapsto> (x, n - 1)))) }"

section \<open>Blocks (\<^verbatim>\<open>block_item.h\<close>)\<close>

datatype block_state = CLEAN | DIRTY | EVICTED | REMOVED

record block_segment =
  sg_offset :: nat
  sg_size :: nat
  sg_buf :: iobuf

definition block_segment_new :: "nat \<Rightarrow> nat \<Rightarrow> iobuf \<Rightarrow> block_segment" where
  "block_segment_new offset sz buf = \<lparr>sg_offset = to_u32 offset, sg_size = to_u32 sz, sg_buf = buf\<rparr>"

record mem_block_item =
  mb_slices :: "ptr option list"
  mb_state :: block_state

definition mem_block_item_new :: "config \<Rightarrow> block_state \<Rightarrow> mem_block_item" where
  "mem_block_item_new cfg state =
     (let slice_count = block_slice_count cfg in \<lparr>mb_slices = replicate slice_count None, mb_state = state\<rparr>)"

text \<open>
  The loop of \<^verbatim>\<open>list_segments\<close>: consecutive slices that share a segment give it once. The pointers it
  pushes are copies, which own the segments too; the caller of the model takes these references.
\<close>

definition push_slice :: "ptr option list \<Rightarrow> nat \<Rightarrow> ptr list \<Rightarrow> ptr list option" where
  "push_slice slices i segments =
     do { sl \<leftarrow> nth_opt slices i;
          Some (case sl of None \<Rightarrow> segments
                | Some p \<Rightarrow> if segments = [] \<or> p \<noteq> last segments then segments @ [p] else segments) }"

definition list_segments_range :: "nat \<Rightarrow> nat \<Rightarrow> mem_block_item \<Rightarrow> ptr list \<Rightarrow> ptr list option" where
  "list_segments_range start_slice end_slice b segments =
     fold_opt (push_slice (mb_slices b)) [start_slice..<Suc end_slice] segments"

definition list_segments :: "config \<Rightarrow> mem_block_item \<Rightarrow> ptr list \<Rightarrow> ptr list option" where
  "list_segments cfg b segments = list_segments_range 0 (block_slice_count cfg - 1) b segments"

text \<open>The checksums are uninitialised (\<open>None\<close>) until they are written.\<close>

record disk_block_item =
  db_dir_index :: nat
  db_block_index :: nat
  db_checksums :: "u32 option list"

definition disk_block_item_new :: "config \<Rightarrow> nat \<Rightarrow> nat \<Rightarrow> disk_block_item" where
  "disk_block_item_new cfg dir_index block_index =
     \<lparr>db_dir_index = to_u8 dir_index, db_block_index = to_u32 block_index,
      db_checksums = replicate (block_slice_count cfg) None\<rparr>"

record block_item =
  blk_mem :: "ptr option"
  blk_disk :: "ptr option"

definition block_item_new :: block_item where
  "block_item_new = \<lparr>blk_mem = None, blk_disk = None\<rparr>"

section \<open>Cache items (\<^verbatim>\<open>cache_item.h\<close>)\<close>

datatype cache_item_state = PINNED | RELEASED

fun state_bit :: "cache_item_state \<Rightarrow> nat" where
  "state_bit PINNED = 0"
| "state_bit RELEASED = 1"

record cache_item =
  ci_cache_key :: cache_key
  ci_blocks :: "block_item list"
  ci_size :: nat
  ci_expire_time :: nat
  ci_state :: u8

definition block_count_of :: "config \<Rightarrow> nat \<Rightarrow> nat" where
  "block_count_of cfg sz = (if sz = 0 then 0 else (sz - 1) div FLAGS_block_size cfg + 1)"

definition block_count :: "config \<Rightarrow> cache_item \<Rightarrow> nat" where
  "block_count cfg it = block_count_of cfg (ci_size it)"

definition cache_item_new :: "config \<Rightarrow> cache_key \<Rightarrow> nat \<Rightarrow> nat \<Rightarrow> cache_item" where
  "cache_item_new cfg cache_key sz expire_time =
     \<lparr>ci_cache_key = cache_key, ci_blocks = replicate (block_count_of cfg sz) block_item_new, ci_size = sz,
      ci_expire_time = expire_time, ci_state = 0\<rparr>"

text \<open>Subtraction of \<^verbatim>\<open>size_t\<close> values.\<close>

definition sub64 :: "nat \<Rightarrow> nat \<Rightarrow> nat" where
  "sub64 a b = to_u64 (a + (2 ^ 64 - to_u64 b))"

lemma sub64_nat [simp]: "b \<le> a \<Longrightarrow> a < 2 ^ 64 \<Longrightarrow> sub64 a b = a - b"
proof -
  assume a: "b \<le> a" "a < 2 ^ 64"
  then have "a + (2 ^ 64 - to_u64 b) = (a - b) + 2 ^ 64" by simp
  then have "sub64 a b = ((a - b) + 2 ^ 64) mod 2 ^ 64" by (simp only: sub64_def to_u64_def)
  also have "\<dots> = (a - b) mod 2 ^ 64" by (rule mod_add_self2)
  finally show ?thesis using a by simp
qed

text \<open>The difference is computed in \<^verbatim>\<open>uint64_t\<close>, read as \<^verbatim>\<open>int64_t\<close> by the check, and compared as unsigned.\<close>

definition block_size :: "config \<Rightarrow> cache_item \<Rightarrow> nat \<Rightarrow> nat option" where
  "block_size cfg it block_index =
     (let tail_size = sub64 (ci_size it) (block_index * FLAGS_block_size cfg)
      in do { guard (tail_size < 2 ^ 63);
              Some (if tail_size < FLAGS_block_size cfg then tail_size else FLAGS_block_size cfg) })"

definition state_mask :: "cache_item_state \<Rightarrow> u8" where
  "state_mask st = push_bit (state_bit st) 1"

definition set_state :: "cache_item_state \<Rightarrow> cache_item \<Rightarrow> cache_item" where
  "set_state st it = it\<lparr>ci_state := ci_state it OR state_mask st\<rparr>"

definition reset_state :: "cache_item_state \<Rightarrow> cache_item \<Rightarrow> cache_item" where
  "reset_state st it = it\<lparr>ci_state := ci_state it AND NOT (state_mask st)\<rparr>"

definition has_state :: "cache_item_state \<Rightarrow> cache_item \<Rightarrow> bool" where
  "has_state st it \<longleftrightarrow> ci_state it AND state_mask st \<noteq> 0"

definition set_state_value :: "cache_item_state \<Rightarrow> bool \<Rightarrow> cache_item \<Rightarrow> bool \<times> cache_item" where
  "set_state_value st v it =
     (let mask = state_mask st; is_set = ci_state it AND mask \<noteq> 0
      in if v then
           if is_set then (False, it) else (True, it\<lparr>ci_state := ci_state it OR mask\<rparr>)
         else
           if \<not> is_set then (False, it) else (True, it\<lparr>ci_state := ci_state it AND NOT mask\<rparr>))"

definition set_pinned :: "bool \<Rightarrow> cache_item \<Rightarrow> bool \<times> cache_item" where
  "set_pinned pinned it = set_state_value PINNED pinned it"

definition is_pinned :: "cache_item \<Rightarrow> bool" where
  "is_pinned it = has_state PINNED it"

definition set_released :: "bool \<Rightarrow> cache_item \<Rightarrow> bool \<times> cache_item" where
  "set_released released it = set_state_value RELEASED released it"

definition is_released :: "cache_item \<Rightarrow> bool" where
  "is_released it = has_state RELEASED it"

definition release_if_empty :: "cache_item \<Rightarrow> bool \<times> cache_item" where
  "release_if_empty it =
     (if is_released it then (False, it)
      else if list_ex (\<lambda>b. blk_mem b \<noteq> None \<or> blk_disk b \<noteq> None) (ci_blocks it) then (False, it)
      else (True, set_state RELEASED it))"

section \<open>The state bits\<close>

lemma state_masks: "state_mask PINNED = 1" "state_mask RELEASED = 2"
  by (simp_all add: state_mask_def)

lemma and_mask_bit: "n < LENGTH('a) \<Longrightarrow> ((w :: 'a::len word) AND push_bit n 1 = 0) \<longleftrightarrow> \<not> bit w n"
proof (cases "bit w n")
  case True
  moreover assume "n < LENGTH('a)"
  ultimately have "bit (w AND push_bit n 1) n" by (simp add: bit_simps)
  then show ?thesis using True by auto
next
  case False
  have "w AND push_bit n 1 = 0"
    by (rule bit_word_eqI) (use False in \<open>auto simp: bit_and_iff bit_push_bit_iff bit_1_iff bit_exp_iff\<close>)
  then show ?thesis using False by simp
qed

lemma state_bit_less: "state_bit st < 8"
  by (cases st) simp_all

lemma state_bit_inj [simp]: "state_bit st = state_bit st' \<longleftrightarrow> st = st'"
  by (cases st; cases st') simp_all

lemma bit_state_mask: "bit (state_mask st) n \<longleftrightarrow> n = state_bit st"
  using state_bit_less [of st] by (auto simp: state_mask_def bit_simps)

lemma has_state_bit: "has_state st it \<longleftrightarrow> bit (ci_state it) (state_bit st)"
  using and_mask_bit [of "state_bit st" "ci_state it"] state_bit_less [of st] by (simp add: has_state_def state_mask_def)

text \<open>The set of states an item is in.\<close>

definition states_of :: "cache_item \<Rightarrow> cache_item_state set" where
  "states_of it = {st. has_state st it}"

lemma states_of_set: "states_of (set_state st it) = insert st (states_of it)"
  by (auto simp: states_of_def has_state_bit set_state_def bit_or_iff bit_state_mask)

lemma states_of_reset: "states_of (reset_state st it) = states_of it - {st}"
  using state_bit_less by (auto simp: states_of_def has_state_bit reset_state_def bit_and_iff bit_not_iff bit_state_mask)

lemma states_of_value: "states_of (snd (set_state_value st v it)) = (if v then insert st (states_of it) else states_of it - {st})"
proof -
  have "ci_state it AND state_mask st \<noteq> 0 \<longleftrightarrow> st \<in> states_of it" by (simp add: states_of_def has_state_def)
  then show ?thesis
    using states_of_set [of st it] states_of_reset [of st it]
    by (auto simp: set_state_value_def Let_def set_state_def reset_state_def insert_absorb)
qed

text \<open>
  The state byte represents a set of states: setting and resetting a state adds and removes it and
  leaves the other one, and the result says whether the set changed.
\<close>
lemma item_states_are_a_set:
  "(fst (set_state_value st v it) \<longleftrightarrow> (st \<in> states_of it) \<noteq> v) \<and>
   states_of (snd (set_state_value st v it)) = (if v then insert st (states_of it) else states_of it - {st}) \<and>
   states_of (set_state st it) = insert st (states_of it) \<and>
   states_of (reset_state st it) = states_of it - {st}"
  using states_of_value [of st v it] states_of_set [of st it] states_of_reset [of st it]
  by (auto simp: set_state_value_def Let_def states_of_def has_state_def)

text \<open>The blocks of an item.\<close>

lemma block_start:
  assumes "0 < FLAGS_block_size cfg" and "i < block_count_of cfg sz"
  shows "i * FLAGS_block_size cfg < sz"
proof -
  have "i \<le> (sz - 1) div FLAGS_block_size cfg" "sz \<noteq> 0" using assms(2) by (auto simp: block_count_of_def split: if_splits)
  then have "i * FLAGS_block_size cfg \<le> sz - 1" using assms(1) by (simp add: less_eq_div_iff_mult_less_eq)
  then show ?thesis using \<open>sz \<noteq> 0\<close> by linarith
qed

lemma block_size_eq:
  assumes "ci_size it < 2 ^ 63" and "i * FLAGS_block_size cfg \<le> ci_size it"
  shows "block_size cfg it i = Some (min (ci_size it - i * FLAGS_block_size cfg) (FLAGS_block_size cfg))"
proof -
  let ?o = "i * FLAGS_block_size cfg"
  have "sub64 (ci_size it) ?o = ci_size it - ?o" "ci_size it - ?o < 2 ^ 63" using assms by simp_all
  then show ?thesis by (simp add: block_size_def Let_def min_def)
qed

lemma sum_blocks: "0 < b \<Longrightarrow> (\<Sum>i < n. min (s - i * b) b) = min s (n * b)" for s b n :: nat
  by (induction n) (auto simp: min_def algebra_simps split: if_splits)

text \<open>
  The sizes of the blocks of an item are positive, at most the block size, and add up to the size
  of the object.
\<close>
lemma block_sizes_partition_item:
  assumes "0 < FLAGS_block_size cfg" and "ci_size it < 2 ^ 63"
  shows "(\<forall>i < block_count cfg it. \<exists>n. block_size cfg it i = Some n \<and> 0 < n \<and> n \<le> FLAGS_block_size cfg) \<and>
    (\<Sum>i < block_count cfg it. the (block_size cfg it i)) = ci_size it"
proof -
  let ?b = "FLAGS_block_size cfg"
  have below: "i * ?b < ci_size it" if "i < block_count cfg it" for i
    using block_start [of cfg i "ci_size it"] assms(1) that by (simp add: block_count_def)
  have eq: "block_size cfg it i = Some (min (ci_size it - i * ?b) ?b)" if "i < block_count cfg it" for i
    by (rule block_size_eq) (use below [OF that] assms(2) in simp_all)
  have "ci_size it \<le> block_count cfg it * ?b"
  proof (cases "ci_size it = 0")
    case False
    have "ci_size it - 1 < Suc ((ci_size it - 1) div ?b) * ?b"
      using assms(1) by (metis dividend_less_div_times mult.commute mult_Suc_right add.commute mult_Suc)
    then show ?thesis using False by (simp add: block_count_def block_count_of_def)
  qed simp
  moreover have "(\<Sum>i < block_count cfg it. the (block_size cfg it i)) = (\<Sum>i < block_count cfg it. min (ci_size it - i * ?b) ?b)"
    by (rule sum.cong) (simp_all add: eq)
  ultimately have "(\<Sum>i < block_count cfg it. the (block_size cfg it i)) = ci_size it"
    using sum_blocks [OF assms(1), of "ci_size it" "block_count cfg it"] by simp
  moreover have "\<exists>n. block_size cfg it i = Some n \<and> 0 < n \<and> n \<le> ?b" if "i < block_count cfg it" for i
    using eq [OF that] below [OF that] assms(1) by simp
  ultimately show ?thesis by blast
qed

text \<open>An item becomes released once, and only when none of its blocks holds anything.\<close>

lemma release_if_empty_iff:
  "fst (release_if_empty it) \<longleftrightarrow> \<not> is_released it \<and> (\<forall>b \<in> set (ci_blocks it). blk_mem b = None \<and> blk_disk b = None)"
  by (auto simp: release_if_empty_def list_ex_iff)

lemma release_if_empty_blocks [simp]: "ci_blocks (snd (release_if_empty it)) = ci_blocks it"
  "ci_size (snd (release_if_empty it)) = ci_size it" "ci_cache_key (snd (release_if_empty it)) = ci_cache_key it"
  by (simp_all add: release_if_empty_def set_state_def)

lemma set_state_value_fields [simp]: "ci_blocks (snd (set_state_value st v it)) = ci_blocks it"
  "ci_size (snd (set_state_value st v it)) = ci_size it" "ci_cache_key (snd (set_state_value st v it)) = ci_cache_key it"
  by (simp_all add: set_state_value_def Let_def)

end
