(* ===== verification/KvMap.thy ===== *)
theory KvMap
  imports Prelude
begin

text \<open>
  The two key-value maps of the code: \<^verbatim>\<open>ParallelHashMap\<close> (\<^verbatim>\<open>src/utils/parallel_hash_map.h\<close>), whose
  operations run a callback under the lock of a submap, and \<^verbatim>\<open>DBDHashMap\<close> (\<^verbatim>\<open>src/utils/dbd_hash_map.h\<close>), over a
  doubly buffered map. The hash maps inside are partial functions. Both provide the interface \<open>kv_map\<close>.
\<close>

section \<open>The interface\<close>

locale kv_map =
  fixes upd :: "'k \<Rightarrow> 'v \<Rightarrow> 'm \<Rightarrow> 'm"
    and get :: "'k \<Rightarrow> 'm \<Rightarrow> 'v option"
    and del :: "'k \<Rightarrow> 'm \<Rightarrow> bool \<times> 'm"
    and inv :: "'m \<Rightarrow> bool"
    and content :: "'m \<Rightarrow> ('k \<rightharpoonup> 'v)"
  assumes upd_law: "inv m \<Longrightarrow> inv (upd k v m) \<and> content (upd k v m) = (content m)(k \<mapsto> v)"
    and get_law: "inv m \<Longrightarrow> get k m = content m k"
    and del_law: "inv m \<Longrightarrow> inv (snd (del k m)) \<and> content (snd (del k m)) = (content m)(k := None) \<and>
      fst (del k m) = (content m k \<noteq> None)"
begin

lemma get_upd: "inv m \<Longrightarrow> get k' (upd k v m) = (if k' = k then Some v else get k' m)"
  using upd_law [of m k v] get_law by simp

lemma get_del: "inv m \<Longrightarrow> get k' (snd (del k m)) = (if k' = k then None else get k' m)"
  using del_law [of m k] get_law by simp

lemma del_twice: "inv m \<Longrightarrow> fst (del k (snd (del k m))) = False"
  using del_law [of m k] del_law [of "snd (del k m)" k] by simp

end

section \<open>The operations of \<^verbatim>\<open>phmap\<close> that are used\<close>

text \<open>
  \<^verbatim>\<open>try_emplace_l\<close> runs the callback on the value of a key that exists, and otherwise inserts; \<^verbatim>\<open>if_contains\<close> shows
  the value to the callback; \<^verbatim>\<open>erase_if\<close> erases the key when the callback agrees.
\<close>

definition try_emplace_l :: "'k \<Rightarrow> ('v \<Rightarrow> 'v) \<Rightarrow> 'v \<Rightarrow> ('k \<rightharpoonup> 'v) \<Rightarrow> bool \<times> ('k \<rightharpoonup> 'v)" where
  "try_emplace_l k f v m = (case m k of None \<Rightarrow> (True, m(k \<mapsto> v)) | Some old \<Rightarrow> (False, m(k \<mapsto> f old)))"

definition if_contains :: "'k \<Rightarrow> ('v \<Rightarrow> 'a) \<Rightarrow> ('k \<rightharpoonup> 'v) \<Rightarrow> 'a option" where
  "if_contains k f m = map_option f (m k)"

definition erase_if :: "'k \<Rightarrow> ('v \<Rightarrow> bool) \<Rightarrow> ('k \<rightharpoonup> 'v) \<Rightarrow> bool \<times> ('k \<rightharpoonup> 'v)" where
  "erase_if k f m = (case m k of None \<Rightarrow> (False, m) | Some v \<Rightarrow> if f v then (True, m(k := None)) else (False, m))"

section \<open>\<^verbatim>\<open>ParallelHashMap\<close>\<close>

definition phm_insert :: "'k \<Rightarrow> 'v \<Rightarrow> ('k \<rightharpoonup> 'v) \<Rightarrow> bool \<times> ('k \<rightharpoonup> 'v)" where
  "phm_insert key v m = try_emplace_l key (\<lambda>old. old) v m"

definition phm_update :: "'k \<Rightarrow> 'v \<Rightarrow> ('k \<rightharpoonup> 'v) \<Rightarrow> ('k \<rightharpoonup> 'v)" where
  "phm_update key v m = snd (try_emplace_l key (\<lambda>old. v) v m)"

definition phm_find :: "'k \<Rightarrow> ('k \<rightharpoonup> 'v) \<Rightarrow> 'v option" where
  "phm_find key m = if_contains key (\<lambda>v. v) m"

definition phm_remove :: "'k \<Rightarrow> ('k \<rightharpoonup> 'v) \<Rightarrow> bool \<times> ('k \<rightharpoonup> 'v)" where
  "phm_remove key m = erase_if key (\<lambda>v. True) m"

lemma phm_update_eq [simp]: "phm_update k v m = m(k \<mapsto> v)"
  by (simp add: phm_update_def try_emplace_l_def split: option.split)

lemma phm_find_eq [simp]: "phm_find k m = m k"
  by (simp add: phm_find_def if_contains_def option.map_ident)

lemma phm_remove_eq [simp]: "phm_remove k m = (m k \<noteq> None, m(k := None))"
  by (auto simp: phm_remove_def erase_if_def split: option.split)

interpretation phm: kv_map phm_update phm_find phm_remove "\<lambda>m. True" "\<lambda>m. m"
  by unfold_locales simp_all

section \<open>\<^verbatim>\<open>DBDHashMap\<close>\<close>

text \<open>
  \<^verbatim>\<open>butil::DoublyBufferedData\<close> is a parameter: \<open>dd_modify\<close> runs a function that returns a count and the changed
  map, \<open>dd_read\<close> gives a snapshot or fails. Its documented behaviour, for a state with content \<open>c\<close>: a
  modification returns the count the function gives on the content, and changes the content unless that count is 0; a
  snapshot shows the content.
\<close>

record ('k, 'v, 'd) dbd_ops =
  dd_modify :: "(('k \<rightharpoonup> 'v) \<Rightarrow> nat \<times> ('k \<rightharpoonup> 'v)) \<Rightarrow> 'd \<Rightarrow> nat \<times> 'd"
  dd_read :: "'d \<Rightarrow> ('k \<rightharpoonup> 'v) option"

definition dbd_laws :: "('k, 'v, 'd) dbd_ops \<Rightarrow> ('d \<Rightarrow> bool) \<Rightarrow> ('d \<Rightarrow> ('k \<rightharpoonup> 'v)) \<Rightarrow> bool" where
  "dbd_laws D good content \<longleftrightarrow>
     (\<forall>d f. good d \<longrightarrow> good (snd (dd_modify D f d)) \<and> fst (dd_modify D f d) = fst (f (content d)) \<and>
        content (snd (dd_modify D f d)) = (if fst (f (content d)) = 0 then content d else snd (f (content d)))) \<and>
     (\<forall>d. good d \<longrightarrow> dd_read D d = Some (content d))"

definition dbd_add :: "('k, 'v, 'd) dbd_ops \<Rightarrow> 'k \<Rightarrow> 'v \<Rightarrow> 'd \<Rightarrow> bool \<times> 'd" where
  "dbd_add D key v d =
     (let (n, d) = dd_modify D (\<lambda>m. if m key = None then (1, m(key \<mapsto> v)) else (0, m)) d in (n \<noteq> 0, d))"

definition dbd_update :: "('k, 'v, 'd) dbd_ops \<Rightarrow> 'k \<Rightarrow> 'v \<Rightarrow> 'd \<Rightarrow> 'd" where
  "dbd_update D key v d = snd (dd_modify D (\<lambda>m. (1, m(key \<mapsto> v))) d)"

definition dbd_get :: "('k, 'v, 'd) dbd_ops \<Rightarrow> 'k \<Rightarrow> 'd \<Rightarrow> 'v option" where
  "dbd_get D key d = (case dd_read D d of None \<Rightarrow> None | Some m \<Rightarrow> m key)"

definition dbd_remove :: "('k, 'v, 'd) dbd_ops \<Rightarrow> 'k \<Rightarrow> 'd \<Rightarrow> bool \<times> 'd" where
  "dbd_remove D key d =
     (let (n, d) = dd_modify D (\<lambda>m. (if m key = None then 0 else 1, m(key := None))) d in (n \<noteq> 0, d))"

text \<open>The keys, in the order in which the map iterates (\<open>iter\<close>).\<close>

definition dbd_list :: "('k, 'v, 'd) dbd_ops \<Rightarrow> (('k \<rightharpoonup> 'v) \<Rightarrow> 'k list) \<Rightarrow> 'k list \<Rightarrow> 'd \<Rightarrow> 'k list" where
  "dbd_list D iter keys d = (case dd_read D d of None \<Rightarrow> keys | Some m \<Rightarrow> keys @ iter m)"

lemma dbd_lawsD:
  assumes "dbd_laws D good content" and "good d"
  shows "good (snd (dd_modify D f d))" and "fst (dd_modify D f d) = fst (f (content d))"
    and "content (snd (dd_modify D f d)) = (if fst (f (content d)) = 0 then content d else snd (f (content d)))"
    and "dd_read D d = Some (content d)"
  using assms unfolding dbd_laws_def by blast+

lemma dbd_kv_map:
  assumes "dbd_laws D good content"
  shows "kv_map (dbd_update D) (dbd_get D) (dbd_remove D) good content"
  by unfold_locales
    (auto simp: dbd_update_def dbd_get_def dbd_remove_def dbd_lawsD [OF assms] Let_def case_prod_beta)

text \<open>An instance: a foreground and a background copy that change places.\<close>

definition two_copies :: "('k, 'v, ('k \<rightharpoonup> 'v) \<times> ('k \<rightharpoonup> 'v)) dbd_ops" where
  "two_copies = \<lparr>
     dd_modify = (\<lambda>f (fg, bg). let (n, bg') = f bg in if n = 0 then (0, (fg, bg)) else (n, (bg', snd (f fg)))),
     dd_read = (\<lambda>(fg, bg). Some fg)\<rparr>"

lemma two_copies_laws: "dbd_laws two_copies (\<lambda>(fg, bg). bg = fg) fst"
  by (auto simp: dbd_laws_def two_copies_def Let_def split: prod.splits)

interpretation dbd_two: kv_map "dbd_update two_copies" "dbd_get two_copies" "dbd_remove two_copies" "\<lambda>(fg, bg). bg = fg" fst
  by (rule dbd_kv_map [OF two_copies_laws])

text \<open>
  In both maps a lookup returns the last value written under its key, and nothing after the key was
  removed; a second removal reports that there is nothing to remove.
\<close>
lemma kv_maps_agree:
  assumes "dbd_laws D good content" and "good d"
  shows "dbd_get D k' (dbd_update D k v d) = (if k' = k then Some v else dbd_get D k' d) \<and>
    dbd_get D k' (snd (dbd_remove D k d)) = (if k' = k then None else dbd_get D k' d) \<and>
    fst (dbd_remove D k (snd (dbd_remove D k d))) = False \<and>
    phm_find k' (phm_update k v m) = (if k' = k then Some v else phm_find k' m) \<and>
    phm_find k' (snd (phm_remove k m)) = (if k' = k then None else phm_find k' m) \<and>
    fst (phm_remove k (snd (phm_remove k m))) = False"
proof -
  have "kv_map (dbd_update D) (dbd_get D) (dbd_remove D) good content" by (rule dbd_kv_map [OF assms(1)])
  then show ?thesis
    using kv_map.get_upd [of "dbd_update D" "dbd_get D" "dbd_remove D" good content d k' k v]
      kv_map.get_del [of "dbd_update D" "dbd_get D" "dbd_remove D" good content d k' k]
      kv_map.del_twice [of "dbd_update D" "dbd_get D" "dbd_remove D" good content d k] assms(2)
      phm.get_upd phm.get_del phm.del_twice
    by simp
qed

end
