(* ===== verification/CacheState.thy ===== *)
theory CacheState
  imports CacheItems MemSpace DiskAlloc ShardedLru KvMap
begin

text \<open>
  The state the two caches and the facade work on: the singletons \<^verbatim>\<open>MemSpaceManager\<close>, \<^verbatim>\<open>DiskSpaceManager\<close>
  and \<^verbatim>\<open>ShardedLockManager\<close> (\<^verbatim>\<open>src/sharded_lock_manager.h\<close>), the eviction policies, the access index
  (\<^verbatim>\<open>src/hashtable_access_index.cpp\<close>, \<^verbatim>\<open>src/utils/parallel_hash_map.h\<close>) and the heaps of shared objects
  with the deleters that give their memory and disk blocks back. One operation runs at a time: a lock
  that would make its only thread wait makes the operation \<open>None\<close>.
\<close>

unbundle bit_operations_syntax

section \<open>Environment and state\<close>

text \<open>
  What is not under \<^verbatim>\<open>src/\<close> or depends on the platform: buffers, checksums and system calls, object sizes,
  and one oracle for the values the code draws or observes: random numbers, the clock, addresses of buffers.
  The eviction policies come as tables of their virtual functions.
\<close>

record ('w, 'p, 'q) env =
  e_ext :: ext_ops
  e_os :: "'w os_ops"
  e_cfg :: config
  e_mem_ops :: "(block_key, 'p) policy_ops"
  e_disk_ops :: "(cache_id, 'q) policy_ops"
  e_mem_policy_new :: "'p option"
  e_disk_policy_new :: "'q option"
  e_oracle :: "nat \<Rightarrow> nat"
  e_sizeof_cache_item :: nat
  e_sizeof_block_item :: nat
  e_sizeof_block_segment :: nat

datatype lock = Free | Shared nat | Exclusive

record ('w, 'p, 'q) cache =
  cs_world :: 'w
  cs_mem :: mem_space
  cs_disk :: disk_space_manager
  cs_mem_policy :: 'p
  cs_disk_policy :: 'q
  cs_segments :: "block_segment shared_heap"
  cs_mem_blocks :: "mem_block_item shared_heap"
  cs_disk_blocks :: "disk_block_item shared_heap"
  cs_items :: "cache_item shared_heap"
  cs_brk :: ptr
  cs_index :: "cache_id \<rightharpoonup> ptr"
  cs_locks :: "nat \<Rightarrow> lock"
  cs_asked :: nat
  cs_rand_generator :: nat
  cs_concurrent_writes :: nat
  cs_options :: cache_options

text \<open>The state before \<^verbatim>\<open>init\<close>: no policy yet (the two states are placeholders until then), no quota.\<close>

definition cache_new :: "'w \<Rightarrow> 'p \<Rightarrow> 'q \<Rightarrow> nat \<Rightarrow> ('w, 'p, 'q) cache" where
  "cache_new w p q seed =
     \<lparr>cs_world = w, cs_mem = mem_reset, cs_disk = dsm_empty, cs_mem_policy = p, cs_disk_policy = q,
      cs_segments = Map.empty, cs_mem_blocks = Map.empty, cs_disk_blocks = Map.empty, cs_items = Map.empty, cs_brk = 0,
      cs_index = Map.empty, cs_locks = (\<lambda>i. Free), cs_asked = 0, cs_rand_generator = seed, cs_concurrent_writes = 0,
      cs_options = \<lparr>co_mem_quota_bytes = 0, co_disk_dir_spaces = []\<rparr>\<rparr>"

definition ask :: "('w, 'p, 'q) env \<Rightarrow> ('w, 'p, 'q) cache \<Rightarrow> nat \<times> ('w, 'p, 'q) cache" where
  "ask E s = (e_oracle E (cs_asked s), s\<lparr>cs_asked := cs_asked s + 1\<rparr>)"

text \<open>\<^verbatim>\<open>butil::fast_rand_less_than\<close>\<close>

definition rand_less_than :: "('w, 'p, 'q) env \<Rightarrow> nat \<Rightarrow> ('w, 'p, 'q) cache \<Rightarrow> nat \<times> ('w, 'p, 'q) cache" where
  "rand_less_than E n s = (let (r, s) = ask E s in (r mod n, s))"

text \<open>An environment of which every part is concrete, for the examples.\<close>

definition small_config :: config where
  "small_config = default_config\<lparr>FLAGS_block_size := 16, FLAGS_slice_size := 4, FLAGS_io_align_unit_size := 4,
     FLAGS_block_file_size := 64, FLAGS_lru_container_shard_bits := 1, FLAGS_sharded_lock_shard_bits := 2\<rparr>"

definition demo_env :: "config \<Rightarrow> (simple_world, sharded_lru, sharded_lru) env" where
  "demo_env cfg = \<lparr>e_ext = simple_ext, e_os = simple_os, e_cfg = cfg,
     e_mem_ops = lru_policy True (block_key_codec [0, 0, 0, 0]), e_disk_ops = lru_policy True cache_id_codec,
     e_mem_policy_new = lru_policy_new cfg True, e_disk_policy_new = lru_policy_new cfg True,
     e_oracle = (\<lambda>n. 7 * n), e_sizeof_cache_item = 120, e_sizeof_block_item = 32, e_sizeof_block_segment = 40\<rparr>"

definition demo_cache :: "(simple_world, sharded_lru, sharded_lru) cache" where
  "demo_cache = cache_new ([], \<lambda>fd i. 0) \<lparr>sl_shards = [], sl_brk = 1\<rparr> \<lparr>sl_shards = [], sl_brk = 1\<rparr> 1"

lemma small_config_ok: "config_ok small_config"
  by (simp add: config_ok_def small_config_def default_config_def dvd_eq_mod_eq_0)

lemma demo_env_simps [simp]: "e_ext (demo_env cfg) = simple_ext" "e_os (demo_env cfg) = simple_os" "e_cfg (demo_env cfg) = cfg"
  by (simp_all add: demo_env_def)

section \<open>Locks (\<^verbatim>\<open>sharded_lock_manager.h\<close>)\<close>

definition mutex_of :: "config \<Rightarrow> block_key \<Rightarrow> nat" where
  "mutex_of cfg key =
     (let shard_count = (of_nat (2 ^ FLAGS_sharded_lock_shard_bits cfg) :: u64)
      in unat (block_shard key AND (shard_count - 1)))"

definition lock_unique :: "('w, 'p, 'q) env \<Rightarrow> block_key \<Rightarrow> ('w, 'p, 'q) cache \<Rightarrow> ('w, 'p, 'q) cache option" where
  "lock_unique E key s =
     (let i = mutex_of (e_cfg E) key
      in do { guard (cs_locks s i = Free); Some (s\<lparr>cs_locks := (cs_locks s)(i := Exclusive)\<rparr>) })"

definition unlock_unique :: "('w, 'p, 'q) env \<Rightarrow> block_key \<Rightarrow> ('w, 'p, 'q) cache \<Rightarrow> ('w, 'p, 'q) cache option" where
  "unlock_unique E key s =
     (let i = mutex_of (e_cfg E) key
      in do { guard (cs_locks s i = Exclusive); Some (s\<lparr>cs_locks := (cs_locks s)(i := Free)\<rparr>) })"

definition lock_shared :: "('w, 'p, 'q) env \<Rightarrow> block_key \<Rightarrow> ('w, 'p, 'q) cache \<Rightarrow> ('w, 'p, 'q) cache option" where
  "lock_shared E key s =
     (let i = mutex_of (e_cfg E) key
      in case cs_locks s i of
           Free \<Rightarrow> Some (s\<lparr>cs_locks := (cs_locks s)(i := Shared 1)\<rparr>)
         | Shared n \<Rightarrow> Some (s\<lparr>cs_locks := (cs_locks s)(i := Shared (n + 1))\<rparr>)
         | Exclusive \<Rightarrow> None)"

definition unlock_shared :: "('w, 'p, 'q) env \<Rightarrow> block_key \<Rightarrow> ('w, 'p, 'q) cache \<Rightarrow> ('w, 'p, 'q) cache option" where
  "unlock_shared E key s =
     (let i = mutex_of (e_cfg E) key
      in case cs_locks s i of
           Shared n \<Rightarrow> Some (s\<lparr>cs_locks := (cs_locks s)(i := (if n \<le> 1 then Free else Shared (n - 1)))\<rparr>)
         | _ \<Rightarrow> None)"

text \<open>The macros \<^verbatim>\<open>LOCK_IF\<close> and \<^verbatim>\<open>UNLOCK_IF\<close>, on a unique lock of a block.\<close>

definition lock_if :: "('w, 'p, 'q) env \<Rightarrow> bool \<Rightarrow> block_key \<Rightarrow> ('w, 'p, 'q) cache \<Rightarrow> ('w, 'p, 'q) cache option" where
  "lock_if E c key s = (if c then lock_unique E key s else Some s)"

definition unlock_if :: "('w, 'p, 'q) env \<Rightarrow> bool \<Rightarrow> block_key \<Rightarrow> ('w, 'p, 'q) cache \<Rightarrow> ('w, 'p, 'q) cache option" where
  "unlock_if E c key s = (if c then unlock_unique E key s else Some s)"

section \<open>Releasing references\<close>

definition release_opt :: "(ptr \<Rightarrow> 's \<Rightarrow> 's option) \<Rightarrow> ptr option \<Rightarrow> 's \<Rightarrow> 's option" where
  "release_opt f p s = (case p of None \<Rightarrow> Some s | Some a \<Rightarrow> f a s)"

text \<open>The deleter of \<^verbatim>\<open>MemCache::new_block_segment\<close> gives back what the segment was charged.\<close>

definition segment_charge :: "('w, 'p, 'q) env \<Rightarrow> block_segment \<Rightarrow> u64" where
  "segment_charge E seg = of_nat (e_sizeof_block_segment E + iobuf_size (sg_buf seg))"

definition release_segment :: "('w, 'p, 'q) env \<Rightarrow> ptr \<Rightarrow> ('w, 'p, 'q) cache \<Rightarrow> ('w, 'p, 'q) cache option" where
  "release_segment E p s =
     do { (last_ref, hp) \<leftarrow> drop_ref p (cs_segments s);
          Some (case last_ref of
              None \<Rightarrow> s\<lparr>cs_segments := hp\<rparr>
            | Some seg \<Rightarrow> s\<lparr>cs_segments := hp, cs_mem := dec_mem (segment_charge E seg) (cs_mem s)\<rparr>) }"

text \<open>The destructor of a memory block drops its slices; an array is destroyed from its last element.\<close>

definition release_mem_block :: "('w, 'p, 'q) env \<Rightarrow> ptr \<Rightarrow> ('w, 'p, 'q) cache \<Rightarrow> ('w, 'p, 'q) cache option" where
  "release_mem_block E p s =
     do { (last_ref, hp) \<leftarrow> drop_ref p (cs_mem_blocks s);
          let s = s\<lparr>cs_mem_blocks := hp\<rparr>;
          case last_ref of
            None \<Rightarrow> Some s
          | Some b \<Rightarrow> fold_opt (release_opt (release_segment E)) (rev (mb_slices b)) s }"

text \<open>The deleter of \<^verbatim>\<open>DiskCache::new_block_item\<close> frees the disk block; its status is only logged.\<close>

definition block_id_of :: "disk_block_item \<Rightarrow> block_id" where
  "block_id_of b = \<lparr>bi_dir_index = db_dir_index b, bi_block_index = db_block_index b\<rparr>"

definition release_disk_block :: "('w, 'p, 'q) env \<Rightarrow> ptr \<Rightarrow> ('w, 'p, 'q) cache \<Rightarrow> ('w, 'p, 'q) cache option" where
  "release_disk_block E p s =
     do { (last_ref, hp) \<leftarrow> drop_ref p (cs_disk_blocks s);
          let s = s\<lparr>cs_disk_blocks := hp\<rparr>;
          case last_ref of
            None \<Rightarrow> Some s
          | Some b \<Rightarrow>
              do { (st, m) \<leftarrow> dsm_free_block (e_cfg E) (block_id_of b) (cs_disk s);
                   Some (s\<lparr>cs_disk := m\<rparr>) } }"

text \<open>Members are destroyed in the reverse order of their declaration.\<close>

definition release_block :: "('w, 'p, 'q) env \<Rightarrow> block_item \<Rightarrow> ('w, 'p, 'q) cache \<Rightarrow> ('w, 'p, 'q) cache option" where
  "release_block E b s =
     do { s \<leftarrow> release_opt (release_disk_block E) (blk_disk b) s;
          release_opt (release_mem_block E) (blk_mem b) s }"

definition item_charge :: "('w, 'p, 'q) env \<Rightarrow> nat \<Rightarrow> nat \<Rightarrow> u64" where
  "item_charge E key_size sz =
     of_nat (e_sizeof_cache_item E + key_size + e_sizeof_block_item E * block_count_of (e_cfg E) sz)"

definition release_item :: "('w, 'p, 'q) env \<Rightarrow> ptr \<Rightarrow> ('w, 'p, 'q) cache \<Rightarrow> ('w, 'p, 'q) cache option" where
  "release_item E p s =
     do { (last_ref, hp) \<leftarrow> drop_ref p (cs_items s);
          let s = s\<lparr>cs_items := hp\<rparr>;
          case last_ref of
            None \<Rightarrow> Some s
          | Some it \<Rightarrow>
              do { s \<leftarrow> fold_opt (release_block E) (rev (ci_blocks it)) s;
                   Some (s\<lparr>cs_mem := dec_mem (item_charge E (length (ci_cache_key it)) (ci_size it)) (cs_mem s)\<rparr>) } }"

section \<open>Taking references\<close>

definition retain_segment :: "ptr \<Rightarrow> ('w, 'p, 'q) cache \<Rightarrow> ('w, 'p, 'q) cache option" where
  "retain_segment p s = do { hp \<leftarrow> retain p (cs_segments s); Some (s\<lparr>cs_segments := hp\<rparr>) }"

definition retain_mem_block :: "ptr \<Rightarrow> ('w, 'p, 'q) cache \<Rightarrow> ('w, 'p, 'q) cache option" where
  "retain_mem_block p s = do { hp \<leftarrow> retain p (cs_mem_blocks s); Some (s\<lparr>cs_mem_blocks := hp\<rparr>) }"

definition retain_disk_block :: "ptr \<Rightarrow> ('w, 'p, 'q) cache \<Rightarrow> ('w, 'p, 'q) cache option" where
  "retain_disk_block p s = do { hp \<leftarrow> retain p (cs_disk_blocks s); Some (s\<lparr>cs_disk_blocks := hp\<rparr>) }"

definition retain_item :: "ptr \<Rightarrow> ('w, 'p, 'q) cache \<Rightarrow> ('w, 'p, 'q) cache option" where
  "retain_item p s = do { hp \<leftarrow> retain p (cs_items s); Some (s\<lparr>cs_items := hp\<rparr>) }"

section \<open>The blocks of an item\<close>

definition get_item :: "ptr \<Rightarrow> ('w, 'p, 'q) cache \<Rightarrow> cache_item option" where
  "get_item p s = deref (cs_items s) p"

definition update_item :: "ptr \<Rightarrow> (cache_item \<Rightarrow> cache_item) \<Rightarrow> ('w, 'p, 'q) cache \<Rightarrow> ('w, 'p, 'q) cache option" where
  "update_item p f s = do { hp \<leftarrow> modify p f (cs_items s); Some (s\<lparr>cs_items := hp\<rparr>) }"

definition get_block :: "ptr \<Rightarrow> nat \<Rightarrow> ('w, 'p, 'q) cache \<Rightarrow> block_item option" where
  "get_block p i s = do { it \<leftarrow> get_item p s; nth_opt (ci_blocks it) i }"

definition put_block :: "ptr \<Rightarrow> nat \<Rightarrow> block_item \<Rightarrow> ('w, 'p, 'q) cache \<Rightarrow> ('w, 'p, 'q) cache option" where
  "put_block p i b s = update_item p (\<lambda>it. it\<lparr>ci_blocks := (ci_blocks it)[i := b]\<rparr>) s"

text \<open>Assignment to a shared pointer: the new object gains a reference, then the old one loses one.\<close>

definition assign_mem :: "('w, 'p, 'q) env \<Rightarrow> ptr \<Rightarrow> nat \<Rightarrow> ptr option \<Rightarrow> ('w, 'p, 'q) cache \<Rightarrow> ('w, 'p, 'q) cache option" where
  "assign_mem E p i mem_block s =
     do { b \<leftarrow> get_block p i s;
          s \<leftarrow> release_opt retain_mem_block mem_block s;
          s \<leftarrow> put_block p i (b\<lparr>blk_mem := mem_block\<rparr>) s;
          release_opt (release_mem_block E) (blk_mem b) s }"

definition assign_disk :: "('w, 'p, 'q) env \<Rightarrow> ptr \<Rightarrow> nat \<Rightarrow> ptr option \<Rightarrow> ('w, 'p, 'q) cache \<Rightarrow> ('w, 'p, 'q) cache option" where
  "assign_disk E p i disk_block s =
     do { b \<leftarrow> get_block p i s;
          s \<leftarrow> release_opt retain_disk_block disk_block s;
          s \<leftarrow> put_block p i (b\<lparr>blk_disk := disk_block\<rparr>) s;
          release_opt (release_disk_block E) (blk_disk b) s }"

text \<open>\<open>lck\<close> is the lock passed to the setter, or \<open>None\<close> for the null pointer.\<close>

definition with_lock ::
    "('w, 'p, 'q) env \<Rightarrow> block_key option \<Rightarrow> (('w, 'p, 'q) cache \<Rightarrow> ('w, 'p, 'q) cache option)
       \<Rightarrow> ('w, 'p, 'q) cache \<Rightarrow> ('w, 'p, 'q) cache option" where
  "with_lock E lck f s = (case lck of None \<Rightarrow> f s
     | Some key \<Rightarrow> do { s \<leftarrow> lock_unique E key s; s \<leftarrow> f s; unlock_unique E key s })"

definition set_mem_block ::
    "('w, 'p, 'q) env \<Rightarrow> ptr \<Rightarrow> nat \<Rightarrow> ptr option \<Rightarrow> block_key option \<Rightarrow> ('w, 'p, 'q) cache \<Rightarrow> ('w, 'p, 'q) cache option" where
  "set_mem_block E p i mem_block lck s = with_lock E lck (assign_mem E p i mem_block) s"

definition set_disk_block ::
    "('w, 'p, 'q) env \<Rightarrow> ptr \<Rightarrow> nat \<Rightarrow> ptr option \<Rightarrow> block_key option \<Rightarrow> ('w, 'p, 'q) cache \<Rightarrow> ('w, 'p, 'q) cache option" where
  "set_disk_block E p i disk_block lck s = with_lock E lck (assign_disk E p i disk_block) s"

definition clear_block ::
    "('w, 'p, 'q) env \<Rightarrow> ptr \<Rightarrow> nat \<Rightarrow> block_key option \<Rightarrow> ('w, 'p, 'q) cache \<Rightarrow> ('w, 'p, 'q) cache option" where
  "clear_block E p i lck s =
     with_lock E lck (\<lambda>s. do { s \<leftarrow> assign_mem E p i None s; assign_disk E p i None s }) s"

text \<open>
  The getters copy the pointer under a shared lock, or under none; the copy owns the block until the
  caller drops it.
\<close>

definition shared_section ::
    "('w, 'p, 'q) env \<Rightarrow> block_key option \<Rightarrow> (('w, 'p, 'q) cache \<Rightarrow> ('a \<times> ('w, 'p, 'q) cache) option)
       \<Rightarrow> ('w, 'p, 'q) cache \<Rightarrow> ('a \<times> ('w, 'p, 'q) cache) option" where
  "shared_section E lck f s = (case lck of None \<Rightarrow> f s
     | Some key \<Rightarrow> do { s \<leftarrow> lock_shared E key s; (x, s) \<leftarrow> f s; s \<leftarrow> unlock_shared E key s; Some (x, s) })"

definition mem_block_of ::
    "('w, 'p, 'q) env \<Rightarrow> ptr \<Rightarrow> nat \<Rightarrow> block_key option \<Rightarrow> ('w, 'p, 'q) cache \<Rightarrow> (ptr option \<times> ('w, 'p, 'q) cache) option" where
  "mem_block_of E p i lck s = shared_section E lck (\<lambda>s.
     do { b \<leftarrow> get_block p i s; s \<leftarrow> release_opt retain_mem_block (blk_mem b) s; Some (blk_mem b, s) }) s"

definition disk_block_of ::
    "('w, 'p, 'q) env \<Rightarrow> ptr \<Rightarrow> nat \<Rightarrow> block_key option \<Rightarrow> ('w, 'p, 'q) cache \<Rightarrow> (ptr option \<times> ('w, 'p, 'q) cache) option" where
  "disk_block_of E p i lck s = shared_section E lck (\<lambda>s.
     do { b \<leftarrow> get_block p i s; s \<leftarrow> release_opt retain_disk_block (blk_disk b) s; Some (blk_disk b, s) }) s"

text \<open>\<^verbatim>\<open>CacheItem::clear_mem_blocks\<close> and \<^verbatim>\<open>clear_disk_blocks\<close>\<close>

definition clear_mem_blocks :: "('w, 'p, 'q) env \<Rightarrow> ptr \<Rightarrow> ('w, 'p, 'q) cache \<Rightarrow> ('w, 'p, 'q) cache option" where
  "clear_mem_blocks E p s =
     do { it \<leftarrow> get_item p s;
          fold_opt (\<lambda>i. assign_mem E p i None) [0..<block_count (e_cfg E) it] s }"

definition clear_disk_blocks :: "('w, 'p, 'q) env \<Rightarrow> ptr \<Rightarrow> ('w, 'p, 'q) cache \<Rightarrow> ('w, 'p, 'q) cache option" where
  "clear_disk_blocks E p s =
     do { it \<leftarrow> get_item p s;
          fold_opt (\<lambda>i. assign_disk E p i None) [0..<block_count (e_cfg E) it] s }"

text \<open>A member function of an item that updates it and returns a flag.\<close>

definition item_flag :: "ptr \<Rightarrow> (cache_item \<Rightarrow> bool \<times> cache_item) \<Rightarrow> ('w, 'p, 'q) cache \<Rightarrow> (bool \<times> ('w, 'p, 'q) cache) option" where
  "item_flag p f s =
     do { it \<leftarrow> get_item p s; s \<leftarrow> update_item p (\<lambda>it. snd (f it)) s; Some (fst (f it), s) }"

section \<open>The access index\<close>

text \<open>
  \<^verbatim>\<open>HashTableAccessIndex\<close> forwards to \<^verbatim>\<open>ParallelHashMap\<close>. The map owns its items: a copy that is stored takes a
  reference, a value that is overwritten or erased drops its own.
\<close>

definition index_insert :: "('w, 'p, 'q) env \<Rightarrow> cache_id \<Rightarrow> ptr \<Rightarrow> ('w, 'p, 'q) cache \<Rightarrow> (bool \<times> ('w, 'p, 'q) cache) option" where
  "index_insert E ident item s =
     do { s \<leftarrow> retain_item item s;
          let old = phm_find ident (cs_index s);
          let s = s\<lparr>cs_index := phm_update ident item (cs_index s)\<rparr>;
          s \<leftarrow> release_opt (release_item E) old s;
          Some (True, s) }"

definition index_find :: "cache_id \<Rightarrow> ('w, 'p, 'q) cache \<Rightarrow> (ptr option \<times> ('w, 'p, 'q) cache) option" where
  "index_find ident s =
     (let cache_item = phm_find ident (cs_index s)
      in do { s \<leftarrow> release_opt retain_item cache_item s; Some (cache_item, s) })"

definition index_remove :: "('w, 'p, 'q) env \<Rightarrow> cache_id \<Rightarrow> ('w, 'p, 'q) cache \<Rightarrow> (bool \<times> ('w, 'p, 'q) cache) option" where
  "index_remove E ident s =
     (let old = phm_find ident (cs_index s); (removed, m) = phm_remove ident (cs_index s)
      in do { s \<leftarrow> release_opt (release_item E) old (s\<lparr>cs_index := m\<rparr>); Some (removed, s) })"

end
