(* ===== verification/Policies.thy ===== *)
theory Policies
  imports CacheState
begin

text \<open>
  The admission policy, which decides what happens to a block evicted from memory
  (\<^verbatim>\<open>src/size_based_admission_policy.cpp\<close>), and the promotion policy, which decides where a block is
  written and whether one read from disk returns to memory (\<^verbatim>\<open>src/capacity_based_promotion_policy.cpp\<close>).
\<close>

section \<open>Admission\<close>

datatype block_admission = FLUSH | SKIP | DELETE

fun show_block_admission :: "block_admission \<Rightarrow> string" where
  "show_block_admission FLUSH = ''flush''"
| "show_block_admission SKIP = ''skip''"
| "show_block_admission DELETE = ''delete''"

record admission_policy =
  ap_max_check_size :: nat
  ap_flush_probability :: real
  ap_delete_probability :: real

definition admission_policy_new :: "config \<Rightarrow> admission_policy" where
  "admission_policy_new cfg =
     \<lparr>ap_max_check_size = FLAGS_admission_max_check_size cfg,
      ap_flush_probability = FLAGS_admission_flush_probability cfg,
      ap_delete_probability = FLAGS_admission_delete_probability cfg\<rparr>"

text \<open>\<^verbatim>\<open>std::minstd_rand\<close>: its step and its largest value.\<close>

definition minstd_next :: "nat \<Rightarrow> nat" where
  "minstd_next x = 48271 * x mod 2147483647"

definition minstd_max :: nat where "minstd_max = 2147483646"

text \<open>
  \<^verbatim>\<open>static_cast<double>(_rand_generator(), _rand_generator.max())\<close> is a comma expression: a number is drawn
  and dropped, and the value is that of \<^verbatim>\<open>max()\<close>. Doubles are real numbers here.
\<close>

definition check_admission :: "admission_policy \<Rightarrow> nat \<Rightarrow> nat \<Rightarrow> block_admission \<times> nat" where
  "check_admission ap item_size gen =
     (if ap_max_check_size ap \<le> item_size then (FLUSH, gen)
      else
        let size_ratio = real item_size / real (ap_max_check_size ap);
            gen = minstd_next gen;
            probability = real minstd_max
        in if probability < size_ratio * ap_flush_probability ap then (FLUSH, gen)
           else if probability < size_ratio * ap_delete_probability ap then (DELETE, gen)
           else (SKIP, gen))"

section \<open>Promotion\<close>

datatype block_location = NONE | MEM | DISK

fun show_block_location :: "block_location \<Rightarrow> string" where
  "show_block_location MEM = ''memory''"
| "show_block_location DISK = ''disk''"
| "show_block_location NONE = ''none''"

definition is_disk_overload :: bool where "is_disk_overload = False"
definition is_mem_overload :: bool where "is_mem_overload = False"

text \<open>The rate divides by the memory quota: with a quota of zero the division traps.\<close>

definition check_write ::
    "('w, 'p, 'q) env \<Rightarrow> write_options option \<Rightarrow> ('w, 'p, 'q) cache \<Rightarrow> block_location option" where
  "check_write E options s =
     (if (case options of None \<Rightarrow> False | Some o' \<Rightarrow> wo_mode o' = WRITE_THROUGH) then Some DISK
      else
        let disk_quota = dm_quota_bytes (cs_disk s)
        in if disk_quota = 0 then Some MEM
           else
             do { guard (ms_quota_bytes (cs_mem s) \<noteq> 0);
                  let used_rate = unat (ms_used_bytes (cs_mem s) * 100 div ms_quota_bytes (cs_mem s));
                  Some (if used_rate < FLAGS_promotion_mem_threshold (e_cfg E) \<and> \<not> is_mem_overload then MEM
                        else if \<not> is_disk_overload then DISK
                        else NONE) })"

definition check_promote ::
    "('w, 'p, 'q) env \<Rightarrow> read_options option \<Rightarrow> ('w, 'p, 'q) cache \<Rightarrow> bool \<times> ('w, 'p, 'q) cache" where
  "check_promote E options s =
     (if (case options of None \<Rightarrow> False | Some o' \<Rightarrow> ro_mode o' = READ_THROUGH) then (False, s)
      else if is_mem_overload then (False, s)
      else
        let (r, s) = rand_less_than E 100 s
        in if r < FLAGS_promotion_probalility (e_cfg E) then (True, s) else (False, s))"

section \<open>What they decide\<close>

text \<open>
  C34: as long as the configured probabilities are at most 1, the admission policy skips every object below
  the checked size: no block of a small object is ever flushed or deleted by chance.
\<close>
theorem small_objects_always_skipped:
  assumes "item_size < ap_max_check_size ap" and "ap_flush_probability ap \<le> 1" and "ap_delete_probability ap \<le> 1"
  shows "fst (check_admission ap item_size gen) = SKIP"
proof -
  let ?r = "real item_size / real (ap_max_check_size ap)"
  have r: "0 \<le> ?r" "?r \<le> 1" using assms(1) by simp_all
  have "?r * p \<le> 1" if "p \<le> 1" for p :: real
  proof -
    have "?r * p \<le> ?r * 1" using r(1) that by (rule mult_left_mono [rotated])
    then show ?thesis using r(2) by simp
  qed
  then have "?r * ap_flush_probability ap \<le> 1" "?r * ap_delete_probability ap \<le> 1" using assms(2,3) by blast+
  then have "\<not> real minstd_max < ?r * ap_flush_probability ap" "\<not> real minstd_max < ?r * ap_delete_probability ap"
    by (simp_all add: minstd_max_def)
  then show ?thesis using assms(1) by (simp add: check_admission_def Let_def)
qed

theorem small_objects_always_skipped_witness:
  "fst (check_admission (admission_policy_new default_config) 4096 7) = SKIP"
  by (rule small_objects_always_skipped) (simp_all add: admission_policy_new_def default_config_def)

text \<open>
  With a disk layer, where a block is written follows the share of memory in use: below the
  threshold it goes to memory, at or above it to disk; write-through always goes to disk, and without a
  disk everything else goes to memory. A write never finds both layers overloaded.
\<close>
lemma write_location_follows_memory_use:
  assumes "ms_quota_bytes (cs_mem s) \<noteq> 0" and "unat (ms_used_bytes (cs_mem s)) * 100 < 2 ^ 64"
  shows "check_write E options s = Some
    (if \<exists>o'. options = Some o' \<and> wo_mode o' = WRITE_THROUGH then DISK
     else if dm_quota_bytes (cs_disk s) = 0 then MEM
     else if mem_used (cs_mem s) * 100 div mem_quota (cs_mem s) < FLAGS_promotion_mem_threshold (e_cfg E) then MEM
     else DISK)"
proof -
  have "unat (ms_used_bytes (cs_mem s) * 100) = unat (ms_used_bytes (cs_mem s)) * 100"
    using assms(2) by (simp add: unat_word_ariths)
  then have "unat (ms_used_bytes (cs_mem s) * 100 div ms_quota_bytes (cs_mem s)) = mem_used (cs_mem s) * 100 div mem_quota (cs_mem s)"
    by (simp add: unat_div mem_used_def mem_quota_def)
  then show ?thesis using assms(1)
    by (auto simp: check_write_def Let_def is_mem_overload_def is_disk_overload_def split: option.splits)
qed

end
