(* ===== verification/MemCache.thy ===== *)
theory MemCache
  imports CacheState
begin

text \<open>
  \<^verbatim>\<open>MemCache\<close> (\<^verbatim>\<open>src/mem_cache.cpp\<close>): memory blocks made of shared segments, the memory they are charged,
  and the eviction policy of blocks.
\<close>

section \<open>Creation\<close>

definition mem_cache_init :: "('w, 'p, 'q) env \<Rightarrow> nat \<Rightarrow> ('w, 'p, 'q) cache \<Rightarrow> (status \<times> ('w, 'p, 'q) cache) option" where
  "mem_cache_init E mem_quota_bytes s =
     do { let m = add_cache_zone (of_nat mem_quota_bytes) mem_reset;
          p \<leftarrow> e_mem_policy_new E;
          Some (OK, s\<lparr>cs_mem := m, cs_mem_policy := p\<rparr>) }"

definition new_cache_item ::
    "('w, 'p, 'q) env \<Rightarrow> cache_key \<Rightarrow> nat \<Rightarrow> nat \<Rightarrow> bool \<Rightarrow> ('w, 'p, 'q) cache \<Rightarrow> ptr option \<times> ('w, 'p, 'q) cache" where
  "new_cache_item E cache_key sz expire_time urgent s =
     (let item_size = item_charge E (length cache_key) sz;
          (granted, m) = inc_mem (e_cfg E) item_size urgent (cs_mem s);
          s = s\<lparr>cs_mem := m\<rparr>
      in if \<not> granted then (None, s)
         else (Some (cs_brk s),
           s\<lparr>cs_items := (cs_items s)(cs_brk s \<mapsto> (cache_item_new (e_cfg E) cache_key sz expire_time, 1)),
             cs_brk := cs_brk s + 1\<rparr>))"

definition new_mem_block_item ::
    "('w, 'p, 'q) env \<Rightarrow> block_state \<Rightarrow> ('w, 'p, 'q) cache \<Rightarrow> ptr \<times> ('w, 'p, 'q) cache" where
  "new_mem_block_item E state s =
     (cs_brk s, s\<lparr>cs_mem_blocks := (cs_mem_blocks s)(cs_brk s \<mapsto> (mem_block_item_new (e_cfg E) state, 1)),
                  cs_brk := cs_brk s + 1\<rparr>)"

definition new_block_segment ::
    "('w, 'p, 'q) env \<Rightarrow> nat \<Rightarrow> nat \<Rightarrow> iobuf \<Rightarrow> bool \<Rightarrow> ('w, 'p, 'q) cache \<Rightarrow> ptr option \<times> ('w, 'p, 'q) cache" where
  "new_block_segment E offset sz buf urgent s =
     (let segment = block_segment_new offset sz buf;
          (granted, m) = inc_mem (e_cfg E) (segment_charge E segment) urgent (cs_mem s);
          s = s\<lparr>cs_mem := m\<rparr>
      in if \<not> granted then (None, s)
         else (Some (cs_brk s),
           s\<lparr>cs_segments := (cs_segments s)(cs_brk s \<mapsto> (segment, 1)), cs_brk := cs_brk s + 1\<rparr>))"

section \<open>The eviction component\<close>

definition mem_evict_track :: "('w, 'p, 'q) env \<Rightarrow> block_key \<Rightarrow> nat \<Rightarrow> ('w, 'p, 'q) cache \<Rightarrow> ('w, 'p, 'q) cache option" where
  "mem_evict_track E key sz s =
     do { (added, p) \<leftarrow> p_add (e_mem_ops E) key sz (cs_mem_policy s); Some (s\<lparr>cs_mem_policy := p\<rparr>) }"

definition mem_evict_untrack :: "('w, 'p, 'q) env \<Rightarrow> block_key \<Rightarrow> ('w, 'p, 'q) cache \<Rightarrow> ('w, 'p, 'q) cache option" where
  "mem_evict_untrack E key s =
     do { p \<leftarrow> p_remove (e_mem_ops E) key (cs_mem_policy s); Some (s\<lparr>cs_mem_policy := p\<rparr>) }"

definition mem_evict_touch ::
    "('w, 'p, 'q) env \<Rightarrow> block_key \<Rightarrow> bool \<Rightarrow> ('w, 'p, 'q) cache \<Rightarrow> (handle_ptr option \<times> ('w, 'p, 'q) cache) option" where
  "mem_evict_touch E key force s =
     (let (chosen, s) = (if force then (True, s)
                         else (let (r, s) = rand_less_than E 100 s in (r < FLAGS_evict_touch_mem_probalility (e_cfg E), s)))
      in if chosen then
           do { (h, p) \<leftarrow> p_touch (e_mem_ops E) key (cs_mem_policy s); Some (h, s\<lparr>cs_mem_policy := p\<rparr>) }
         else Some (None, s))"

text \<open>The destructor of the handle that a touch returned.\<close>

definition mem_drop_handle :: "('w, 'p, 'q) env \<Rightarrow> handle_ptr option \<Rightarrow> ('w, 'p, 'q) cache \<Rightarrow> ('w, 'p, 'q) cache option" where
  "mem_drop_handle E h s =
     do { p \<leftarrow> handle_release (e_mem_ops E) h (cs_mem_policy s); Some (s\<lparr>cs_mem_policy := p\<rparr>) }"

definition mem_evict :: "('w, 'p, 'q) env \<Rightarrow> nat \<Rightarrow> ('w, 'p, 'q) cache \<Rightarrow> (block_key list \<times> ('w, 'p, 'q) cache) option" where
  "mem_evict E sz s =
     do { (evicted, p) \<leftarrow> p_evict (e_mem_ops E) sz [] (cs_mem_policy s); Some (evicted, s\<lparr>cs_mem_policy := p\<rparr>) }"

definition mem_evict_for ::
    "('w, 'p, 'q) env \<Rightarrow> block_key \<Rightarrow> nat \<Rightarrow> ('w, 'p, 'q) cache \<Rightarrow> (block_key list \<times> ('w, 'p, 'q) cache) option" where
  "mem_evict_for E key sz s =
     do { (evicted, p) \<leftarrow> p_evict_for (e_mem_ops E) key sz [] (cs_mem_policy s); Some (evicted, s\<lparr>cs_mem_policy := p\<rparr>) }"

definition mem_quota_bytes :: "('w, 'p, 'q) cache \<Rightarrow> nat" where
  "mem_quota_bytes s = mem_quota (cs_mem s)"

definition mem_used_bytes :: "('w, 'p, 'q) cache \<Rightarrow> nat" where
  "mem_used_bytes s = mem_used (cs_mem s)"

section \<open>Writing a block\<close>

definition assign_slice :: "('w, 'p, 'q) env \<Rightarrow> ptr \<Rightarrow> ptr \<Rightarrow> nat \<Rightarrow> ('w, 'p, 'q) cache \<Rightarrow> ('w, 'p, 'q) cache option" where
  "assign_slice E block segment index s =
     do { b \<leftarrow> deref (cs_mem_blocks s) block;
          old \<leftarrow> nth_opt (mb_slices b) index;
          s \<leftarrow> retain_segment segment s;
          hp \<leftarrow> modify block (\<lambda>b. b\<lparr>mb_slices := (mb_slices b)[index := Some segment]\<rparr>) (cs_mem_blocks s);
          release_opt (release_segment E) old (s\<lparr>cs_mem_blocks := hp\<rparr>) }"

definition set_block_segment ::
    "('w, 'p, 'q) env \<Rightarrow> ptr \<Rightarrow> nat \<Rightarrow> nat \<Rightarrow> ptr \<Rightarrow> ('w, 'p, 'q) cache \<Rightarrow> ('w, 'p, 'q) cache option" where
  "set_block_segment E block start_slice_index end_slice_index segment s =
     fold_opt (assign_slice E block segment) [start_slice_index..<Suc end_slice_index] s"

text \<open>The last offset of a segment is computed in \<^verbatim>\<open>uint32_t\<close>.\<close>

definition write_segment :: "('w, 'p, 'q) env \<Rightarrow> ptr \<Rightarrow> ptr \<Rightarrow> ('w, 'p, 'q) cache \<Rightarrow> ('w, 'p, 'q) cache option" where
  "write_segment E block p s =
     do { seg \<leftarrow> deref (cs_segments s) p;
          if iobuf_size (sg_buf seg) = 0 then Some s
          else
            let start_slice_index = off2slice (e_cfg E) (sg_offset seg);
                end_slice_index = off2slice (e_cfg E) (to_u32 (sg_offset seg + sg_size seg + (2 ^ 32 - 1)))
            in set_block_segment E block start_slice_index end_slice_index p s }"

definition mem_write_block ::
    "('w, 'p, 'q) env \<Rightarrow> ptr \<Rightarrow> ptr list \<Rightarrow> ('w, 'p, 'q) cache \<Rightarrow> (status \<times> ('w, 'p, 'q) cache) option" where
  "mem_write_block E block segments s =
     do { s \<leftarrow> fold_opt (write_segment E block) segments s; Some (OK, s) }"

section \<open>Reading a block\<close>

text \<open>The part of a segment from offset \<open>segment_off\<close> of the block, at most \<open>n\<close> bytes.\<close>

definition cut_segment :: "('w, 'p, 'q) env \<Rightarrow> block_segment \<Rightarrow> nat \<Rightarrow> nat \<Rightarrow> block_segment" where
  "cut_segment E seg segment_off n =
     (let pos = to_u32 (segment_off + (2 ^ 32 - sg_offset seg));
          buf = x_append_to (e_ext E) (sg_buf seg) n pos
      in block_segment_new segment_off (iobuf_size buf) buf)"

definition flush_cur ::
    "('w, 'p, 'q) env \<Rightarrow> block_segment shared_heap \<Rightarrow> ptr option \<Rightarrow> nat \<Rightarrow> nat \<Rightarrow> block_segment list \<Rightarrow> block_segment list option" where
  "flush_cur E hp cur_segment segment_off n segments = (case cur_segment of None \<Rightarrow> Some segments
     | Some p \<Rightarrow> do { seg \<leftarrow> deref hp p; Some (segments @ [cut_segment E seg segment_off n]) })"

definition read_slice ::
    "('w, 'p, 'q) env \<Rightarrow> block_segment shared_heap \<Rightarrow> ptr option list \<Rightarrow> nat
       \<Rightarrow> ptr option \<times> nat \<times> nat \<times> block_segment list \<Rightarrow> (ptr option \<times> nat \<times> nat \<times> block_segment list) option" where
  "read_slice E hp slices index = (\<lambda>(cur_segment, segment_off, sz, segments).
     do { sl \<leftarrow> nth_opt slices index;
          if sl = cur_segment then Some (cur_segment, segment_off, sz, segments)
          else
            (let n = sub64 (slice_lower (e_cfg E) index) segment_off
             in do { segments \<leftarrow> flush_cur E hp cur_segment segment_off n segments;
                     Some (sl, slice_lower (e_cfg E) index, sub64 sz n, segments) }) })"

definition read_slices ::
    "('w, 'p, 'q) env \<Rightarrow> block_segment shared_heap \<Rightarrow> ptr option list \<Rightarrow> nat \<Rightarrow> nat \<Rightarrow> block_segment list option" where
  "read_slices E hp slices offset sz =
     (let start_slice_index = off2slice (e_cfg E) offset;
          end_slice_index = off2slice (e_cfg E) (sub64 (offset + sz) 1)
      in do { cur_segment \<leftarrow> nth_opt slices start_slice_index;
              (cur_segment, segment_off, sz, segments) \<leftarrow>
                fold_opt (read_slice E hp slices) [Suc start_slice_index..<Suc end_slice_index] (cur_segment, offset, sz, []);
              flush_cur E hp cur_segment segment_off sz segments })"

definition mem_read_block ::
    "('w, 'p, 'q) env \<Rightarrow> block_key \<Rightarrow> ptr option \<Rightarrow> nat \<Rightarrow> nat \<Rightarrow> ('w, 'p, 'q) cache
       \<Rightarrow> (status \<times> block_segment list \<times> ('w, 'p, 'q) cache) option" where
  "mem_read_block E key block offset sz s =
     (case block of
        None \<Rightarrow> Some (OK, [], s)
      | Some p \<Rightarrow>
          if sz = 0 then Some (OK, [], s)
          else
            do { (h, s) \<leftarrow> mem_evict_touch E key False s;
                 s \<leftarrow> mem_drop_handle E h s;
                 b \<leftarrow> deref (cs_mem_blocks s) p;
                 segments \<leftarrow> read_slices E (cs_segments s) (mb_slices b) offset sz;
                 Some (OK, segments, s) })"


section \<open>What a read of a memory block returns\<close>

text \<open>The byte a block holds at an offset: that of the segment its slice points to.\<close>

definition byte_at :: "config \<Rightarrow> block_segment shared_heap \<Rightarrow> ptr option list \<Rightarrow> nat \<Rightarrow> byte option" where
  "byte_at cfg hp slices j =
     (case slices ! (j div FLAGS_slice_size cfg) of None \<Rightarrow> None
      | Some p \<Rightarrow> (case deref hp p of None \<Rightarrow> None
          | Some seg \<Rightarrow> Some (iobuf_bytes (sg_buf seg) ! (j - sg_offset seg))))"

text \<open>Every slice of the range that holds a segment is covered by it.\<close>

definition covered :: "config \<Rightarrow> block_segment shared_heap \<Rightarrow> ptr option list \<Rightarrow> nat \<Rightarrow> nat \<Rightarrow> bool" where
  "covered cfg hp slices lo hi \<longleftrightarrow> (\<forall>j. lo \<le> j \<longrightarrow> j < hi \<longrightarrow> (case slices ! (j div FLAGS_slice_size cfg) of None \<Rightarrow> True
     | Some p \<Rightarrow> (case deref hp p of None \<Rightarrow> False
         | Some seg \<Rightarrow> sg_offset seg \<le> j \<and> j < sg_offset seg + iobuf_size (sg_buf seg))))"

text \<open>Bytes with their offsets: of a list of segments, and those present in a range.\<close>

definition segment_bytes :: "block_segment list \<Rightarrow> (nat \<times> byte) list" where
  "segment_bytes segs = concat (map (\<lambda>seg. zip [sg_offset seg..<sg_offset seg + iobuf_size (sg_buf seg)] (iobuf_bytes (sg_buf seg))) segs)"

definition present :: "(nat \<Rightarrow> byte option) \<Rightarrow> nat \<Rightarrow> nat \<Rightarrow> (nat \<times> byte) list" where
  "present f lo hi = concat (map (\<lambda>j. case f j of None \<Rightarrow> [] | Some x \<Rightarrow> [(j, x)]) [lo..<hi])"

lemma less_Suc_div: "0 < b \<Longrightarrow> n < Suc (n div b) * b" for n b :: nat
  using dividend_less_div_times [of b n] by (simp only: mult_Suc)

lemma present_split: "lo \<le> mid \<Longrightarrow> mid \<le> hi \<Longrightarrow> present f lo hi = present f lo mid @ present f mid hi"
proof -
  assume "lo \<le> mid" "mid \<le> hi"
  then have "[lo..<hi] = [lo..<mid] @ [mid..<hi]" by (metis upt_add_eq_append le_add_diff_inverse)
  then show ?thesis by (simp add: present_def)
qed

lemma present_none: "(\<And>j. lo \<le> j \<Longrightarrow> j < hi \<Longrightarrow> f j = None) \<Longrightarrow> present f lo hi = []"
  by (simp add: present_def)

lemma present_some:
  assumes "\<And>j. lo \<le> j \<Longrightarrow> j < lo + n \<Longrightarrow> f j = Some (d ! (j - lo))" and "length d = n"
  shows "present f lo (lo + n) = zip [lo..<lo + n] d"
proof -
  have "map (\<lambda>j. case f j of None \<Rightarrow> [] | Some x \<Rightarrow> [(j, x)]) [lo..<lo + n] = map (\<lambda>p. [p]) (zip [lo..<lo + n] d)"
    by (rule nth_equalityI) (use assms in auto)
  then show ?thesis by (simp add: present_def concat_map_singleton)
qed

lemma flush_cur_present:
  assumes X: "ext_ok (e_ext E)" and cov: "covered cfg hp slices so (so + m)" and so: "so + m < 2 ^ 32"
    and cur: "\<And>j. so \<le> j \<Longrightarrow> j < so + m \<Longrightarrow> slices ! (j div FLAGS_slice_size cfg) = cur" and m: "0 < m"
  shows "\<exists>segs'. flush_cur E hp cur so m segs = Some segs' \<and>
    segment_bytes segs' = segment_bytes segs @ present (byte_at cfg hp slices) so (so + m)"
proof (cases cur)
  case None
  then have "present (byte_at cfg hp slices) so (so + m) = []" using cur by (intro present_none) (simp add: byte_at_def)
  then show ?thesis using None by (simp add: flush_cur_def)
next
  case (Some p)
  have at: "case deref hp p of None \<Rightarrow> False | Some seg \<Rightarrow> sg_offset seg \<le> j \<and> j < sg_offset seg + iobuf_size (sg_buf seg)"
    if "so \<le> j" "j < so + m" for j
    using cov cur [OF that] that Some unfolding covered_def by fastforce
  obtain seg where seg: "deref hp p = Some seg" by (cases "deref hp p") (use at [of so] m in auto)
  have lo: "sg_offset seg \<le> so" using at [of so] seg m by simp
  have hi: "so + m \<le> sg_offset seg + iobuf_size (sg_buf seg)" 
  proof -
    have "so \<le> so + (m - 1)" "so + (m - 1) < so + m" using m by simp_all
    then have "so + (m - 1) < sg_offset seg + iobuf_size (sg_buf seg)" using at seg by fastforce
    then show ?thesis using m by linarith
  qed
  let ?d = "take m (drop (so - sg_offset seg) (iobuf_bytes (sg_buf seg)))"
  have len: "length ?d = m" using lo hi by simp
  have pos: "to_u32 (so + (2 ^ 32 - sg_offset seg)) = so - sg_offset seg"
  proof -
    have "so + (2 ^ 32 - sg_offset seg) = (so - sg_offset seg) + 2 ^ 32" using lo so by simp
    then have "to_u32 (so + (2 ^ 32 - sg_offset seg)) = ((so - sg_offset seg) + 2 ^ 32) mod 2 ^ 32" by (simp only: to_u32_def)
    also have "\<dots> = (so - sg_offset seg) mod 2 ^ 32" by (rule mod_add_self2)
    finally show ?thesis using so by simp
  qed
  have bytes: "iobuf_bytes (x_append_to (e_ext E) (sg_buf seg) m (so - sg_offset seg)) = ?d" by (rule ext_append_to [OF X])
  have cut: "sg_offset (cut_segment E seg so m) = so" "iobuf_bytes (sg_buf (cut_segment E seg so m)) = ?d"
    unfolding cut_segment_def pos Let_def using bytes so m by (simp_all add: block_segment_new_def)
  have "present (byte_at cfg hp slices) so (so + m) = zip [so..<so + m] ?d"
  proof (rule present_some [OF _ len])
    fix j assume j: "so \<le> j" "j < so + m"
    then show "byte_at cfg hp slices j = Some (?d ! (j - so))" using cur [OF j] Some seg lo hi by (simp add: byte_at_def)
  qed
  then have "segment_bytes (segs @ [cut_segment E seg so m]) = segment_bytes segs @ present (byte_at cfg hp slices) so (so + m)"
    using cut len by (simp add: segment_bytes_def)
  then show ?thesis using Some seg by (simp add: flush_cur_def)
qed

text \<open>The state of the loop before slice \<open>k\<close>.\<close>

definition read_state ::
    "config \<Rightarrow> block_segment shared_heap \<Rightarrow> ptr option list \<Rightarrow> nat \<Rightarrow> nat \<Rightarrow> nat
       \<Rightarrow> ptr option \<times> nat \<times> nat \<times> block_segment list \<Rightarrow> bool" where
  "read_state cfg hp slices lo hi k = (\<lambda>(cur, so, sz, segs). lo \<le> so \<and> so < k * FLAGS_slice_size cfg \<and> so < hi \<and> sz = hi - so \<and>
     (\<forall>j. so \<le> j \<longrightarrow> j < k * FLAGS_slice_size cfg \<longrightarrow> slices ! (j div FLAGS_slice_size cfg) = cur) \<and>
     segment_bytes segs = present (byte_at cfg hp slices) lo so)"

lemma read_slice_state:
  assumes X: "ext_ok (e_ext E)" and b: "0 < FLAGS_slice_size (e_cfg E)" and cov: "covered (e_cfg E) hp slices lo hi"
    and hi: "hi < 2 ^ 32" and k: "k * FLAGS_slice_size (e_cfg E) < hi" "k < length slices"
    and st: "read_state (e_cfg E) hp slices lo hi k t"
  shows "\<exists>t'. read_slice E hp slices k t = Some t' \<and> read_state (e_cfg E) hp slices lo hi (Suc k) t'"
proof -
  let ?b = "FLAGS_slice_size (e_cfg E)"
  obtain cur so sz segs where t: "t = (cur, so, sz, segs)" by (cases t)
  have S: "lo \<le> so" "so < k * ?b" "so < hi" "sz = hi - so" "segment_bytes segs = present (byte_at (e_cfg E) hp slices) lo so"
    and same: "\<And>j. so \<le> j \<Longrightarrow> j < k * ?b \<Longrightarrow> slices ! (j div ?b) = cur"
    using st t by (auto simp: read_state_def)
  have here: "slices ! (j div ?b) = slices ! k" if "k * ?b \<le> j" "j < Suc k * ?b" for j
    using that by (metis div_nat_eqI mult.commute)
  show ?thesis
  proof (cases "slices ! k = cur")
    case True
    have "slices ! (j div ?b) = cur" if "so \<le> j" "j < Suc k * ?b" for j
      using same here True that by (cases "j < k * ?b") auto
    then show ?thesis using t True k S by (auto simp: read_slice_def read_state_def)
  next
    case False
    have lower: "slice_lower (e_cfg E) k = k * ?b" using slice_lower_small k hi by simp
    have n: "sub64 (k * ?b) so = k * ?b - so" "sub64 sz (k * ?b - so) = hi - k * ?b" using S k hi by simp_all
    have cov': "covered (e_cfg E) hp slices so (so + (k * ?b - so))"
      using cov S k unfolding covered_def by simp
    obtain segs' where segs': "flush_cur E hp cur so (k * ?b - so) segs = Some segs'"
      "segment_bytes segs' = segment_bytes segs @ present (byte_at (e_cfg E) hp slices) so (k * ?b)"
      using flush_cur_present [OF X cov', of cur segs] same S k hi by auto
    have "segment_bytes segs' = present (byte_at (e_cfg E) hp slices) lo (k * ?b)"
      using segs'(2) S present_split [of lo so "k * ?b"] by simp
    then have "read_state (e_cfg E) hp slices lo hi (Suc k) (slices ! k, k * ?b, hi - k * ?b, segs')"
      using S k b here by (auto simp: read_state_def)
    moreover have "read_slice E hp slices k t = Some (slices ! k, k * ?b, hi - k * ?b, segs')"
      using t False k(2) lower n segs'(1) by (simp add: read_slice_def Let_def)
    ultimately show ?thesis by blast
  qed
qed

lemma read_slices_state:
  assumes "ext_ok (e_ext E)" and "0 < FLAGS_slice_size (e_cfg E)" and "covered (e_cfg E) hp slices lo hi" and "hi < 2 ^ 32"
    and "(k + m - 1) * FLAGS_slice_size (e_cfg E) < hi" and "k + m \<le> length slices"
    and "read_state (e_cfg E) hp slices lo hi k t"
  shows "\<exists>t'. fold_opt (read_slice E hp slices) [k..<k + m] t = Some t' \<and> read_state (e_cfg E) hp slices lo hi (k + m) t'"
  using assms(5-7)
proof (induction m)
  case (Suc m)
  have "(k + m) * FLAGS_slice_size (e_cfg E) < hi" using Suc.prems(1) by simp
  moreover have "(k + m - 1) * FLAGS_slice_size (e_cfg E) \<le> (k + m) * FLAGS_slice_size (e_cfg E)" by simp
  ultimately have "(k + m - 1) * FLAGS_slice_size (e_cfg E) < hi" by (rule le_less_trans [rotated])
  then obtain t1 where t1: "fold_opt (read_slice E hp slices) [k..<k + m] t = Some t1" "read_state (e_cfg E) hp slices lo hi (k + m) t1"
    using Suc.IH Suc.prems by auto
  then show ?case
    using read_slice_state [OF assms(1-4) _ _ t1(2)] Suc.prems by (auto simp: fold_opt_append)
qed simp

text \<open>
  C16: a read of a memory block returns exactly the bytes the block holds in the range, each at its offset and
  in order: the bytes of the slices without a segment are left out, and nothing else.
\<close>
theorem mem_read_returns_present_bytes:
  assumes "ext_ok (e_ext E)" and "config_ok (e_cfg E)" and "0 < sz" and "offset + sz \<le> FLAGS_block_size (e_cfg E)"
    and "length slices = block_slice_count (e_cfg E)" and "covered (e_cfg E) hp slices offset (offset + sz)"
  shows "\<exists>segs. read_slices E hp slices offset sz = Some segs \<and>
    segment_bytes segs = present (byte_at (e_cfg E) hp slices) offset (offset + sz)"
proof -
  let ?b = "FLAGS_slice_size (e_cfg E)" and ?hi = "offset + sz"
  have b: "0 < ?b" and dvd: "?b dvd FLAGS_block_size (e_cfg E)" and B: "FLAGS_block_size (e_cfg E) < 2 ^ 32"
    using assms(2) by (simp_all add: config_ok_def)
  have hi: "?hi < 2 ^ 32" using assms(4) B by simp
  let ?k = "offset div ?b" and ?e = "(?hi - 1) div ?b"
  have idx: "off2slice (e_cfg E) offset = ?k" "off2slice (e_cfg E) (sub64 ?hi 1) = ?e"
    using hi assms(3) by (simp_all add: off2slice_small)
  have e_len: "?e < length slices"
  proof -
    have "?e * ?b \<le> ?hi - 1" by (simp add: div_times_less_eq_dividend)
    moreover have "?hi - 1 < FLAGS_block_size (e_cfg E) div ?b * ?b" using assms(3,4) dvd by simp
    ultimately have "?e * ?b < FLAGS_block_size (e_cfg E) div ?b * ?b" by (rule le_less_trans)
    then have "?e < FLAGS_block_size (e_cfg E) div ?b" by simp
    moreover have "FLAGS_block_size (e_cfg E) div ?b < 2 ^ 32" using B by (metis div_le_dividend le_less_trans)
    ultimately show ?thesis using assms(5) by (simp add: block_slice_count_def)
  qed
  have ke: "?k \<le> ?e" using assms(3) by (intro div_le_mono) simp
  let ?m = "?e - ?k"
  have start: "read_state (e_cfg E) hp slices offset ?hi (Suc ?k) (slices ! ?k, offset, sz, [])"
  proof -
    have 1: "slices ! (j div ?b) = slices ! ?k" if "offset \<le> j" "j < Suc ?k * ?b" for j
    proof -
      have "?k * ?b \<le> j" using that(1) by (meson div_times_less_eq_dividend le_trans)
      then show ?thesis using that(2) by (metis div_nat_eqI mult.commute)
    qed
    have 2: "offset < Suc ?k * ?b" by (rule less_Suc_div [OF b])
    show ?thesis
      unfolding read_state_def prod.case
    proof (intro conjI allI impI)
      show "slices ! (j div ?b) = slices ! ?k" if "offset \<le> j" "j < Suc ?k * ?b" for j by (rule 1 [OF that])
      show "segment_bytes [] = present (byte_at (e_cfg E) hp slices) offset offset" by (simp add: segment_bytes_def present_def)
    qed (use assms(3) 2 in simp_all)
  qed
  have "(Suc ?k + ?m - 1) * ?b \<le> ?hi - 1" using ke by (simp add: div_times_less_eq_dividend)
  then have last: "(Suc ?k + ?m - 1) * ?b < ?hi" using assms(3) by linarith
  have "Suc ?k + ?m \<le> length slices" using ke e_len by simp
  from read_slices_state [OF assms(1) b assms(6) hi last this start]
  obtain t0 where t0: "fold_opt (read_slice E hp slices) [Suc ?k..<Suc ?k + ?m] (slices ! ?k, offset, sz, []) = Some t0"
    "read_state (e_cfg E) hp slices offset ?hi (Suc ?k + ?m) t0" by (elim exE conjE)
  obtain cur so rest segs where t0_eq: "t0 = (cur, so, rest, segs)" by (cases t0)
  note t = t0 [unfolded t0_eq]
  have e1: "Suc ?k + ?m = Suc ?e" using ke by simp
  have S: "offset \<le> so" "so < ?hi" "rest = ?hi - so" "segment_bytes segs = present (byte_at (e_cfg E) hp slices) offset so"
    and same: "\<And>j. so \<le> j \<Longrightarrow> j < Suc ?e * ?b \<Longrightarrow> slices ! (j div ?b) = cur"
    using t(2) e1 by (auto simp: read_state_def)
  have "?hi - 1 < Suc ?e * ?b" by (rule less_Suc_div [OF b])
  then have same': "slices ! (j div ?b) = cur" if "so \<le> j" "j < so + rest" for j using same that S by simp
  have "covered (e_cfg E) hp slices so (so + rest)" using assms(6) S unfolding covered_def by simp
  moreover have "so + rest < 2 ^ 32" "0 < rest" using S hi by simp_all
  ultimately obtain segs' where segs': "flush_cur E hp cur so rest segs = Some segs'"
    "segment_bytes segs' = segment_bytes segs @ present (byte_at (e_cfg E) hp slices) so (so + rest)"
    using flush_cur_present [OF assms(1) _ _ same', where segs = segs] by blast
  have "present (byte_at (e_cfg E) hp slices) offset ?hi =
      present (byte_at (e_cfg E) hp slices) offset so @ present (byte_at (e_cfg E) hp slices) so ?hi"
    by (rule present_split) (use S in simp_all)
  then have bytes: "segment_bytes segs' = present (byte_at (e_cfg E) hp slices) offset ?hi" using segs'(2) S by simp
  have first: "nth_opt slices ?k = Some (slices ! ?k)" using ke e_len by simp
  have "read_slices E hp slices offset sz = Some segs'"
    unfolding read_slices_def idx Let_def first bind.bind_lunit t(1) [unfolded e1] prod.case by (rule segs'(1))
  with bytes show ?thesis by blast
qed


lemma covered_code:
  "covered cfg hp slices lo hi \<longleftrightarrow> list_all (\<lambda>j. case slices ! (j div FLAGS_slice_size cfg) of None \<Rightarrow> True
     | Some p \<Rightarrow> (case deref hp p of None \<Rightarrow> False
         | Some seg \<Rightarrow> sg_offset seg \<le> j \<and> j < sg_offset seg + iobuf_size (sg_buf seg))) [lo..<hi]"
  by (auto simp: covered_def list_all_iff)

theorem mem_read_returns_present_bytes_witness:
  "\<exists>segs. read_slices (demo_env small_config)
      [0 \<mapsto> (block_segment_new 0 4 [[1, 2, 3, 4]], 1), 1 \<mapsto> (block_segment_new 8 8 [[5, 6, 7], [8, 9, 10, 11, 12]], 2)]
      [Some 0, None, Some 1, Some 1] 2 9 = Some segs \<and>
    segment_bytes segs = [(2, 3), (3, 4), (8, 5), (9, 6), (10, 7)]"
  using mem_read_returns_present_bytes [of "demo_env small_config" 9 2 "[Some 0, None, Some 1, Some 1]"
      "[0 \<mapsto> (block_segment_new 0 4 [[1, 2, 3, 4]], 1), 1 \<mapsto> (block_segment_new 8 8 [[5, 6, 7], [8, 9, 10, 11, 12]], 2)]"]
    simple_ext_ok small_config_ok
  by (simp add: covered_code small_config_def default_config_def block_slice_count_def block_segment_new_def deref_def
      present_def byte_at_def upt_rec)

end
