(* ===== verification/DiskCache.thy ===== *)
theory DiskCache
  imports CacheState
begin

text \<open>
  \<^verbatim>\<open>DiskCache\<close> (\<^verbatim>\<open>src/disk_cache.cpp\<close>): disk blocks with a checksum per slice, and the eviction policy of
  cache items.
\<close>

section \<open>Creation\<close>

definition disk_cache_init ::
    "('w, 'p, 'q) env \<Rightarrow> dir_space list \<Rightarrow> ('w, 'p, 'q) cache \<Rightarrow> (status \<times> ('w, 'p, 'q) cache) option" where
  "disk_cache_init E disk_dir_spaces s =
     do { (st, m, w) \<leftarrow> add_cache_dirs (e_os E) (e_cfg E) disk_dir_spaces (dsm_reset (cs_disk s)) (cs_world s);
          let s = s\<lparr>cs_disk := m, cs_world := w\<rparr>;
          if \<not> ok st then Some (st, s)
          else do { p \<leftarrow> e_disk_policy_new E; Some (OK, s\<lparr>cs_disk_policy := p\<rparr>) } }"

definition new_disk_block_item :: "('w, 'p, 'q) env \<Rightarrow> ('w, 'p, 'q) cache \<Rightarrow> (ptr option \<times> ('w, 'p, 'q) cache) option" where
  "new_disk_block_item E s =
     do { (st, blk, m) \<leftarrow> dsm_alloc_block (e_cfg E) (cs_disk s);
          let s = s\<lparr>cs_disk := m\<rparr>;
          if \<not> ok st then Some (None, s)
          else
            do { b \<leftarrow> blk;
                 Some (Some (cs_brk s),
                   s\<lparr>cs_disk_blocks := (cs_disk_blocks s)
                       (cs_brk s \<mapsto> (disk_block_item_new (e_cfg E) (bi_dir_index b) (bi_block_index b), 1)),
                     cs_brk := cs_brk s + 1\<rparr>) } }"

section \<open>The eviction component\<close>

definition disk_evict_track :: "('w, 'p, 'q) env \<Rightarrow> cache_id \<Rightarrow> nat \<Rightarrow> ('w, 'p, 'q) cache \<Rightarrow> ('w, 'p, 'q) cache option" where
  "disk_evict_track E ident sz s =
     do { (added, p) \<leftarrow> p_add (e_disk_ops E) ident sz (cs_disk_policy s); Some (s\<lparr>cs_disk_policy := p\<rparr>) }"

definition disk_evict_untrack :: "('w, 'p, 'q) env \<Rightarrow> cache_id \<Rightarrow> ('w, 'p, 'q) cache \<Rightarrow> ('w, 'p, 'q) cache option" where
  "disk_evict_untrack E ident s =
     do { p \<leftarrow> p_remove (e_disk_ops E) ident (cs_disk_policy s); Some (s\<lparr>cs_disk_policy := p\<rparr>) }"

definition disk_evict_touch ::
    "('w, 'p, 'q) env \<Rightarrow> cache_id \<Rightarrow> bool \<Rightarrow> ('w, 'p, 'q) cache \<Rightarrow> (handle_ptr option \<times> ('w, 'p, 'q) cache) option" where
  "disk_evict_touch E ident force s =
     (let (chosen, s) = (if force then (True, s)
                         else (let (r, s) = rand_less_than E 100 s in (r < FLAGS_evict_touch_disk_probalility (e_cfg E), s)))
      in if chosen then
           do { (h, p) \<leftarrow> p_touch (e_disk_ops E) ident (cs_disk_policy s); Some (h, s\<lparr>cs_disk_policy := p\<rparr>) }
         else Some (None, s))"

definition disk_drop_handle :: "('w, 'p, 'q) env \<Rightarrow> handle_ptr option \<Rightarrow> ('w, 'p, 'q) cache \<Rightarrow> ('w, 'p, 'q) cache option" where
  "disk_drop_handle E h s =
     do { p \<leftarrow> handle_release (e_disk_ops E) h (cs_disk_policy s); Some (s\<lparr>cs_disk_policy := p\<rparr>) }"

definition disk_evict :: "('w, 'p, 'q) env \<Rightarrow> nat \<Rightarrow> ('w, 'p, 'q) cache \<Rightarrow> (cache_id list \<times> ('w, 'p, 'q) cache) option" where
  "disk_evict E sz s =
     do { (evicted, p) \<leftarrow> p_evict (e_disk_ops E) sz [] (cs_disk_policy s); Some (evicted, s\<lparr>cs_disk_policy := p\<rparr>) }"

definition disk_evict_for ::
    "('w, 'p, 'q) env \<Rightarrow> cache_id \<Rightarrow> nat \<Rightarrow> ('w, 'p, 'q) cache \<Rightarrow> (cache_id list \<times> ('w, 'p, 'q) cache) option" where
  "disk_evict_for E ident sz s =
     do { (evicted, p) \<leftarrow> p_evict_for (e_disk_ops E) ident sz [] (cs_disk_policy s); Some (evicted, s\<lparr>cs_disk_policy := p\<rparr>) }"

definition disk_quota_bytes :: "('w, 'p, 'q) cache \<Rightarrow> nat" where
  "disk_quota_bytes s = dm_quota_bytes (cs_disk s)"

definition disk_used_bytes :: "('w, 'p, 'q) cache \<Rightarrow> nat" where
  "disk_used_bytes s = dm_used_bytes (cs_disk s)"

definition dir_spaces :: "('w, 'p, 'q) cache \<Rightarrow> dir_space list" where
  "dir_spaces s = map (\<lambda>d. \<lparr>ds_path = cd_path d, ds_quota_bytes = cd_quota_bytes d\<rparr>) (dm_cache_dirs (cs_disk s))"

section \<open>Checksums\<close>

text \<open>
  The offsets the two loops visit. \<open>slice_at\<close> is the slice index and the bytes of one round; a slice size of
  zero never ends the loop.
\<close>

definition slice_offsets :: "config \<Rightarrow> nat \<Rightarrow> nat list option" where
  "slice_offsets cfg sz =
     (let slice_size = to_u32 (FLAGS_slice_size cfg)
      in if slice_size = 0 then (if sz = 0 then Some [] else None)
         else Some (map (\<lambda>i. i * slice_size) [0..<(sz + slice_size - 1) div slice_size]))"

definition slice_at :: "ext_ops \<Rightarrow> config \<Rightarrow> block_segment \<Rightarrow> nat \<Rightarrow> nat \<times> iobuf" where
  "slice_at X cfg segment off =
     (let index = off2slice cfg (sg_offset segment + off);
          n = min (to_u32 (FLAGS_slice_size cfg)) (to_u32 (sub64 (sg_size segment) off))
      in (index, x_append_to X (sg_buf segment) n off))"

definition update_slice_checksum :: "ext_ops \<Rightarrow> config \<Rightarrow> block_segment \<Rightarrow> nat \<Rightarrow> u32 option list \<Rightarrow> u32 option list option" where
  "update_slice_checksum X cfg segment off checksums =
     (let (index, slice_buf) = slice_at X cfg segment off
      in do { guard (index < length checksums); Some (checksums[index := Some (crc32_iobuf X slice_buf)]) })"

definition update_block_checksum :: "ext_ops \<Rightarrow> config \<Rightarrow> block_segment \<Rightarrow> disk_block_item \<Rightarrow> disk_block_item option" where
  "update_block_checksum X cfg segment b =
     do { offs \<leftarrow> slice_offsets cfg (sg_size segment);
          cs \<leftarrow> fold_opt (update_slice_checksum X cfg segment) offs (db_checksums b);
          Some (b\<lparr>db_checksums := cs\<rparr>) }"

fun check_offsets :: "ext_ops \<Rightarrow> config \<Rightarrow> block_segment \<Rightarrow> u32 option list \<Rightarrow> nat list \<Rightarrow> bool option" where
  "check_offsets X cfg segment checksums [] = Some True"
| "check_offsets X cfg segment checksums (off # offs) =
     (let (index, slice_buf) = slice_at X cfg segment off
      in do { entry \<leftarrow> nth_opt checksums index;
              c \<leftarrow> entry;
              if c \<noteq> crc32_iobuf X slice_buf then Some False else check_offsets X cfg segment checksums offs })"

definition check_block_checksum :: "ext_ops \<Rightarrow> config \<Rightarrow> block_segment \<Rightarrow> disk_block_item \<Rightarrow> bool option" where
  "check_block_checksum X cfg segment b =
     do { offs \<leftarrow> slice_offsets cfg (sg_size segment); check_offsets X cfg segment (db_checksums b) offs }"

section \<open>Writing and reading\<close>

definition store_checksum :: "('w, 'p, 'q) env \<Rightarrow> ptr \<Rightarrow> block_segment \<Rightarrow> ('w, 'p, 'q) cache \<Rightarrow> ('w, 'p, 'q) cache option" where
  "store_checksum E block segment s =
     (if FLAGS_enable_disk_checksum (e_cfg E) then
        do { b \<leftarrow> deref (cs_disk_blocks s) block;
             b \<leftarrow> update_block_checksum (e_ext E) (e_cfg E) segment b;
             hp \<leftarrow> modify block (\<lambda>_. b) (cs_disk_blocks s);
             Some (s\<lparr>cs_disk_blocks := hp\<rparr>) }
      else Some s)"

definition disk_write_block ::
    "('w, 'p, 'q) env \<Rightarrow> ptr \<Rightarrow> block_segment \<Rightarrow> ('w, 'p, 'q) cache \<Rightarrow> (status \<times> ('w, 'p, 'q) cache) option" where
  "disk_write_block E block segment s =
     (if disk_quota_bytes s = 0 then Some (Err ENOENT, s)
      else if sg_offset segment mod FLAGS_slice_size (e_cfg E) \<noteq> 0 then Some (Err EINVAL, s)
      else
        do { s \<leftarrow> store_checksum E block segment s;
             b \<leftarrow> deref (cs_disk_blocks s) block;
             let (data_addr, s) = ask E s;
             (st, w) \<leftarrow> dsm_write_block (e_ext E) (e_os E) (e_cfg E) data_addr (cs_disk s) (block_id_of b)
                          (sg_offset segment) (sg_buf segment) (cs_world s);
             Some (st, s\<lparr>cs_world := w\<rparr>) })"

definition disk_read_block ::
    "('w, 'p, 'q) env \<Rightarrow> cache_id \<Rightarrow> ptr \<Rightarrow> block_segment \<Rightarrow> ('w, 'p, 'q) cache
       \<Rightarrow> (status \<times> block_segment \<times> ('w, 'p, 'q) cache) option" where
  "disk_read_block E cache_id block segment s =
     (if disk_quota_bytes s = 0 then Some (Err ENOENT, segment, s)
      else
        do { (h, s) \<leftarrow> disk_evict_touch E cache_id False s;
             s \<leftarrow> disk_drop_handle E h s;
             if sg_offset segment mod FLAGS_slice_size (e_cfg E) \<noteq> 0 then Some (Err EINVAL, segment, s)
             else
               do { b \<leftarrow> deref (cs_disk_blocks s) block;
                    (st, buf) \<leftarrow> dsm_read_block (e_ext E) (e_os E) (e_cfg E) (cs_disk s) (block_id_of b)
                                   (sg_offset segment) (sg_size segment) (sg_buf segment) (cs_world s);
                    let segment = segment\<lparr>sg_buf := buf\<rparr>;
                    if \<not> ok st then Some (st, segment, s)
                    else
                      do { valid \<leftarrow> (if FLAGS_enable_disk_checksum (e_cfg E)
                                   then check_block_checksum (e_ext E) (e_cfg E) segment b else Some True);
                           Some (if valid then OK else Err E_INTERNAL, segment, s) } } })"


section \<open>Checksums detect what they should, and nothing else\<close>

text \<open>The bytes of slice \<open>i\<close> of a segment, counted from its start.\<close>

definition slice_bytes :: "config \<Rightarrow> block_segment \<Rightarrow> nat \<Rightarrow> bytes" where
  "slice_bytes cfg seg i =
     take (FLAGS_slice_size cfg) (drop (i * FLAGS_slice_size cfg) (take (sg_size seg) (iobuf_bytes (sg_buf seg))))"

definition slices_in :: "config \<Rightarrow> nat \<Rightarrow> nat" where
  "slices_in cfg n = (n + FLAGS_slice_size cfg - 1) div FLAGS_slice_size cfg"

definition in_block :: "config \<Rightarrow> block_segment \<Rightarrow> bool" where
  "in_block cfg seg \<longleftrightarrow> sg_offset seg mod FLAGS_slice_size cfg = 0 \<and> sg_offset seg + sg_size seg \<le> FLAGS_block_size cfg"

lemma config_okD:
  assumes "config_ok cfg"
  shows "0 < FLAGS_slice_size cfg" and "FLAGS_slice_size cfg dvd FLAGS_block_size cfg" and "FLAGS_block_size cfg < 2 ^ 32"
    and "FLAGS_slice_size cfg < 2 ^ 32"
proof -
  show 1: "0 < FLAGS_slice_size cfg" "FLAGS_slice_size cfg dvd FLAGS_block_size cfg" "FLAGS_block_size cfg < 2 ^ 32"
    and "FLAGS_slice_size cfg < 2 ^ 32"
    using assms dvd_imp_le [of "FLAGS_slice_size cfg" "FLAGS_block_size cfg"] by (auto simp: config_ok_def)
qed

lemma below_slices: "0 < b \<Longrightarrow> i < (n + b - 1) div b \<longleftrightarrow> i * b < n" for i n b :: nat
proof -
  assume b: "0 < b"
  have "i < (n + b - 1) div b \<longleftrightarrow> Suc i * b \<le> n + b - 1" using b less_eq_div_iff_mult_less_eq [of b "Suc i" "n + b - 1"] by (simp add: Suc_le_eq)
  also have "\<dots> \<longleftrightarrow> i * b < n" using b by auto
  finally show ?thesis .
qed

lemma slice_at_eq:
  assumes X: "ext_ok X" and cfg: "config_ok cfg" and seg: "in_block cfg seg" and i: "i < slices_in cfg (sg_size seg)"
  shows "fst (slice_at X cfg seg (i * FLAGS_slice_size cfg)) = sg_offset seg div FLAGS_slice_size cfg + i"
    and "crc32_iobuf X (snd (slice_at X cfg seg (i * FLAGS_slice_size cfg))) = x_crc32c_extend X 0 (slice_bytes cfg seg i)"
    and "sg_offset seg div FLAGS_slice_size cfg + i < block_slice_count cfg"
proof -
  let ?b = "FLAGS_slice_size cfg"
  note C = config_okD [OF cfg]
  have lt: "i * ?b < sg_size seg" using i unfolding slices_in_def below_slices [OF C(1)] .
  have small: "sg_offset seg + i * ?b < FLAGS_block_size cfg" using seg lt by (simp add: in_block_def)
  have off: "sg_offset seg = sg_offset seg div ?b * ?b" using seg by (auto simp: in_block_def dvd_eq_mod_eq_0)
  then have quot: "(sg_offset seg + i * ?b) div ?b = sg_offset seg div ?b + i" using C(1) by (metis add_mult_distrib div_mult_self_is_m)
  then show "fst (slice_at X cfg seg (i * ?b)) = sg_offset seg div ?b + i"
    using off2slice_small [of "sg_offset seg + i * ?b" cfg] small C(3) by (simp add: slice_at_def Let_def)
  show "sg_offset seg div ?b + i < block_slice_count cfg"
  proof -
    have "(sg_offset seg div ?b + i) * ?b < FLAGS_block_size cfg" using small off by (simp add: add_mult_distrib)
    then have "sg_offset seg div ?b + i < FLAGS_block_size cfg div ?b"
      using C(2) by (metis dvd_div_mult_self mult_less_cancel2)
    moreover have "FLAGS_block_size cfg div ?b < 2 ^ 32" using C(3) by (metis div_le_dividend le_less_trans)
    ultimately show ?thesis by (simp add: block_slice_count_def)
  qed
  have sz: "sg_size seg < 2 ^ 32" using seg C(3) by (simp add: in_block_def)
  have "to_u32 (sub64 (sg_size seg) (i * ?b)) = sg_size seg - i * ?b" using lt sz by simp
  then have "iobuf_bytes (snd (slice_at X cfg seg (i * ?b))) =
      take (min ?b (sg_size seg - i * ?b)) (drop (i * ?b) (iobuf_bytes (sg_buf seg)))"
    using C(4) by (simp add: slice_at_def Let_def ext_append_to [OF X])
  also have "\<dots> = slice_bytes cfg seg i" by (simp add: slice_bytes_def drop_take)
  finally show "crc32_iobuf X (snd (slice_at X cfg seg (i * ?b))) = x_crc32c_extend X 0 (slice_bytes cfg seg i)"
    by (simp add: crc32_iobuf_eq [OF X])
qed

lemma slice_offsets_eq:
  "config_ok cfg \<Longrightarrow> slice_offsets cfg n = Some (map (\<lambda>i. i * FLAGS_slice_size cfg) [0..<slices_in cfg n])"
  using config_okD [of cfg] by (simp add: slice_offsets_def slices_in_def Let_def)

lemma fold_update_range:
  assumes "\<And>i cs. i < n \<Longrightarrow> length cs = N \<Longrightarrow> f (g i) cs = Some (cs[k + i := Some (v i)])" and "k + n \<le> N" and "length cs = N"
  shows "\<exists>cs'. fold_opt f (map g [0..<n]) cs = Some cs' \<and> length cs' = N \<and>
    (\<forall>j < N. cs' ! j = (if k \<le> j \<and> j < k + n then Some (v (j - k)) else cs ! j))"
  using assms
proof (induction n)
  case (Suc n)
  obtain cs1 where 1: "fold_opt f (map g [0..<n]) cs = Some cs1" "length cs1 = N"
    "\<forall>j < N. cs1 ! j = (if k \<le> j \<and> j < k + n then Some (v (j - k)) else cs ! j)"
    using Suc.IH Suc.prems by auto
  have "f (g n) cs1 = Some (cs1[k + n := Some (v n)])" using Suc.prems(1) [of n cs1] 1(2) by simp
  then show ?case using 1 Suc.prems(2) by (auto simp: fold_opt_append nth_list_update)
qed auto

lemma check_offsets_eq:
  assumes "\<And>off. off \<in> set offs \<Longrightarrow> nth_opt cs (fst (slice_at X cfg seg off)) = Some (Some (g off))"
  shows "check_offsets X cfg seg cs offs = Some (\<forall>off \<in> set offs. g off = crc32_iobuf X (snd (slice_at X cfg seg off)))"
  using assms by (induction offs) (auto simp: Let_def case_prod_beta)

lemma update_checksum_spec:
  assumes X: "ext_ok X" and cfg: "config_ok cfg" and seg: "in_block cfg seg"
    and len: "length (db_checksums b) = block_slice_count cfg"
  shows "\<exists>cs. update_block_checksum X cfg seg b = Some (b\<lparr>db_checksums := cs\<rparr>) \<and> length cs = block_slice_count cfg \<and>
    (\<forall>j < block_slice_count cfg. cs ! j =
       (if sg_offset seg div FLAGS_slice_size cfg \<le> j \<and> j < sg_offset seg div FLAGS_slice_size cfg + slices_in cfg (sg_size seg)
        then Some (x_crc32c_extend X 0 (slice_bytes cfg seg (j - sg_offset seg div FLAGS_slice_size cfg)))
        else db_checksums b ! j))"
proof -
  let ?n = "slices_in cfg (sg_size seg)" and ?k = "sg_offset seg div FLAGS_slice_size cfg"
  have bound: "?k + ?n \<le> block_slice_count cfg"
  proof (cases ?n)
    case 0
    have "?k \<le> FLAGS_block_size cfg div FLAGS_slice_size cfg" using seg by (intro div_le_mono) (simp add: in_block_def)
    moreover have "FLAGS_block_size cfg div FLAGS_slice_size cfg < 2 ^ 32"
      using config_okD(3) [OF cfg] by (metis div_le_dividend le_less_trans)
    ultimately show ?thesis using 0 by (simp add: block_slice_count_def)
  next
    case (Suc n)
    then show ?thesis using slice_at_eq(3) [OF X cfg seg, of n] by simp
  qed
  have "update_slice_checksum X cfg seg (i * FLAGS_slice_size cfg) cs =
      Some (cs[?k + i := Some (x_crc32c_extend X 0 (slice_bytes cfg seg i))])"
    if "i < ?n" "length cs = block_slice_count cfg" for i cs
    using slice_at_eq [OF X cfg seg that(1)] that(2) by (simp add: update_slice_checksum_def case_prod_beta)
  from fold_update_range [where f = "update_slice_checksum X cfg seg" and g = "\<lambda>i. i * FLAGS_slice_size cfg"
      and v = "\<lambda>i. x_crc32c_extend X 0 (slice_bytes cfg seg i)", OF this bound len]
  show ?thesis by (auto simp: update_block_checksum_def slice_offsets_eq [OF cfg])
qed

text \<open>
  C17: after the checksums of a segment were stored, checking a segment of the same range succeeds exactly when every
  slice has the checksum it had: data read back unchanged is always accepted, however it is
  fragmented, and a slice whose checksum differs is always rejected.
\<close>
theorem checksum_round_trip:
  assumes "ext_ok X" and "config_ok cfg" and "in_block cfg seg" and "length (db_checksums b) = block_slice_count cfg"
    and "sg_offset seg' = sg_offset seg" and "sg_size seg' = sg_size seg"
  shows "\<exists>b'. update_block_checksum X cfg seg b = Some b' \<and>
    check_block_checksum X cfg seg' b' = Some (\<forall>i < slices_in cfg (sg_size seg).
      x_crc32c_extend X 0 (slice_bytes cfg seg i) = x_crc32c_extend X 0 (slice_bytes cfg seg' i))"
proof -
  let ?n = "slices_in cfg (sg_size seg)" and ?k = "sg_offset seg div FLAGS_slice_size cfg"
  obtain cs where cs: "update_block_checksum X cfg seg b = Some (b\<lparr>db_checksums := cs\<rparr>)" "length cs = block_slice_count cfg"
    "\<And>j. j < block_slice_count cfg \<Longrightarrow> cs ! j = (if ?k \<le> j \<and> j < ?k + ?n
       then Some (x_crc32c_extend X 0 (slice_bytes cfg seg (j - ?k))) else db_checksums b ! j)"
    using update_checksum_spec [OF assms(1-4)] by blast
  have seg': "in_block cfg seg'" using assms(3,5,6) by (simp add: in_block_def)
  note at = slice_at_eq [OF assms(1,2) seg', unfolded assms(5,6)]
  have "check_offsets X cfg seg' cs (map (\<lambda>i. i * FLAGS_slice_size cfg) [0..<?n]) =
      Some (\<forall>off \<in> set (map (\<lambda>i. i * FLAGS_slice_size cfg) [0..<?n]).
        x_crc32c_extend X 0 (slice_bytes cfg seg (off div FLAGS_slice_size cfg)) = crc32_iobuf X (snd (slice_at X cfg seg' off)))"
  proof (rule check_offsets_eq)
    fix off assume "off \<in> set (map (\<lambda>i. i * FLAGS_slice_size cfg) [0..<?n])"
    then obtain i where i: "i < ?n" "off = i * FLAGS_slice_size cfg" by auto
    then show "nth_opt cs (fst (slice_at X cfg seg' off)) =
        Some (Some (x_crc32c_extend X 0 (slice_bytes cfg seg (off div FLAGS_slice_size cfg))))"
      using at(1,3) [OF i(1)] cs(2) cs(3) [of "?k + i"] config_okD(1) [OF assms(2)] by simp
  qed
  also have "\<dots> = Some (\<forall>i < ?n. x_crc32c_extend X 0 (slice_bytes cfg seg i) = x_crc32c_extend X 0 (slice_bytes cfg seg' i))"
    using at(2) config_okD(1) [OF assms(2)] by auto
  finally have "check_block_checksum X cfg seg' (b\<lparr>db_checksums := cs\<rparr>) =
      Some (\<forall>i < ?n. x_crc32c_extend X 0 (slice_bytes cfg seg i) = x_crc32c_extend X 0 (slice_bytes cfg seg' i))"
    by (simp add: check_block_checksum_def slice_offsets_eq [OF assms(2)] assms(6))
  with cs(1) show ?thesis by blast
qed

theorem checksum_round_trip_witness:
  "\<exists>b'. update_block_checksum simple_ext default_config (block_segment_new 65536 70000 [replicate 70000 7])
      (disk_block_item_new default_config 0 3) = Some b' \<and>
    check_block_checksum simple_ext default_config (block_segment_new 65536 70000 [replicate 40000 7, replicate 30000 7]) b' = Some True"
proof -
  let ?s = "block_segment_new 65536 70000 [replicate 70000 7]"
  let ?s' = "block_segment_new 65536 70000 [replicate 40000 7, replicate 30000 7]"
  have "slice_bytes default_config ?s = slice_bytes default_config ?s'"
    by (simp add: slice_bytes_def fun_eq_iff block_segment_new_def flip: replicate_add)
  then show ?thesis
    using checksum_round_trip [OF simple_ext_ok default_config_ok, of ?s "disk_block_item_new default_config 0 3" ?s']
    by (simp add: in_block_def block_segment_new_def disk_block_item_new_def default_config_def)
qed

end
