(* ===== verification/StarCacheImpl.thy ===== *)
theory StarCacheImpl
  imports Policies MemCache DiskCache MurmurHash
begin

text \<open>
  \<^verbatim>\<open>StarCacheImpl\<close> (\<^verbatim>\<open>src/star_cache_impl.cpp\<close>) and its facade \<^verbatim>\<open>StarCache\<close>: the operations on cache
  objects over the memory cache, the disk cache and the index. A local \<^verbatim>\<open>shared_ptr\<close> is a reference
  taken where the code copies it and released where its scope ends, on every path; a parameter that the
  caller owns for the whole call takes none. \<open>None\<close> is a null or dangling dereference, a failed \<^verbatim>\<open>DCHECK\<close>,
  a division by zero or a lock the only thread waits for.
\<close>

definition has_disk_layer :: "('w, 'p, 'q) cache \<Rightarrow> bool" where
  "has_disk_layer s \<longleftrightarrow> co_disk_dir_spaces (cs_options s) \<noteq> []"

definition block_key_of :: "cache_id \<Rightarrow> nat \<Rightarrow> block_key" where
  "block_key_of ident i = \<lparr>bk_cache_id = ident, bk_block_index = of_nat i\<rparr>"

definition key_index :: "block_key \<Rightarrow> nat" where
  "key_index key = unat (bk_block_index key)"

section \<open>Removing an item\<close>

definition remove_block :: "('w, 'p, 'q) env \<Rightarrow> cache_id \<Rightarrow> ptr \<Rightarrow> nat \<Rightarrow> ('w, 'p, 'q) cache \<Rightarrow> ('w, 'p, 'q) cache option" where
  "remove_block E ident p i s =
     (let block_key = block_key_of ident i
      in do { s \<leftarrow> lock_unique E block_key s;
              s \<leftarrow> clear_block E p i None s;
              s \<leftarrow> mem_evict_untrack E block_key s;
              unlock_unique E block_key s })"

definition remove_cache_item :: "('w, 'p, 'q) env \<Rightarrow> cache_id \<Rightarrow> ptr \<Rightarrow> ('w, 'p, 'q) cache \<Rightarrow> ('w, 'p, 'q) cache option" where
  "remove_cache_item E ident p s =
     do { (removed, s) \<leftarrow> index_remove E ident s;
          it \<leftarrow> get_item p s;
          s \<leftarrow> fold_opt (remove_block E ident p) [0..<block_count (e_cfg E) it] s;
          disk_evict_untrack E ident s }"

section \<open>Making room on disk\<close>

text \<open>The loop returns at the first evicted item that is not in the index.\<close>

fun process_evicted_disk_items :: "('w, 'p, 'q) env \<Rightarrow> cache_id list \<Rightarrow> ('w, 'p, 'q) cache \<Rightarrow> ('w, 'p, 'q) cache option" where
  "process_evicted_disk_items E [] s = Some s"
| "process_evicted_disk_items E (ident # evicted) s =
     do { (cache_item, s) \<leftarrow> index_find ident s;
          case cache_item of
            None \<Rightarrow> Some s
          | Some p \<Rightarrow>
              do { s \<leftarrow> clear_disk_blocks E p s;
                   (released, s) \<leftarrow> item_flag p release_if_empty s;
                   s \<leftarrow> (if released then remove_cache_item E ident p s else Some s);
                   s \<leftarrow> release_item E p s;
                   process_evicted_disk_items E evicted s } }"

definition evict_for_disk_block :: "('w, 'p, 'q) env \<Rightarrow> cache_id \<Rightarrow> nat \<Rightarrow> ('w, 'p, 'q) cache \<Rightarrow> ('w, 'p, 'q) cache option" where
  "evict_for_disk_block E ident sz s =
     do { (evicted, s) \<leftarrow> disk_evict_for E ident (to_u64 (sz * FLAGS_disk_evict_times (e_cfg E))) s;
          if evicted = [] then Some s else process_evicted_disk_items E evicted s }"

fun alloc_disk_retry :: "('w, 'p, 'q) env \<Rightarrow> cache_id \<Rightarrow> nat \<Rightarrow> ('w, 'p, 'q) cache \<Rightarrow> (ptr option \<times> ('w, 'p, 'q) cache) option" where
  "alloc_disk_retry E ident 0 s = Some (None, s)"
| "alloc_disk_retry E ident (Suc n) s =
     do { (disk_block, s) \<leftarrow> new_disk_block_item E s;
          if disk_block \<noteq> None then Some (disk_block, s)
          else do { s \<leftarrow> evict_for_disk_block E ident (FLAGS_block_size (e_cfg E)) s;
                    alloc_disk_retry E ident n s } }"

definition alloc_disk_block :: "('w, 'p, 'q) env \<Rightarrow> block_key \<Rightarrow> ('w, 'p, 'q) cache \<Rightarrow> (ptr option \<times> ('w, 'p, 'q) cache) option" where
  "alloc_disk_block E block_key s =
     alloc_disk_retry E (bk_cache_id block_key) (FLAGS_max_retry_when_allocate (e_cfg E)) s"

section \<open>Flushing a block from memory to disk\<close>

fun continuous_from :: "nat \<Rightarrow> block_segment list \<Rightarrow> nat" where
  "continuous_from sz [] = sz"
| "continuous_from sz (seg # segs) = (if sg_offset seg \<noteq> sz then sz else continuous_from (sz + sg_size seg) segs)"

definition continuous_segments_size :: "block_segment list \<Rightarrow> nat" where
  "continuous_segments_size segments = continuous_from 0 segments"

text \<open>The objects behind a vector of pointers.\<close>

fun deref_all :: "'a shared_heap \<Rightarrow> ptr list \<Rightarrow> 'a list option" where
  "deref_all hp [] = Some []"
| "deref_all hp (p # ps) = do { x \<leftarrow> deref hp p; xs \<leftarrow> deref_all hp ps; Some (x # xs) }"

fun write_segments :: "('w, 'p, 'q) env \<Rightarrow> ptr \<Rightarrow> block_segment list \<Rightarrow> ('w, 'p, 'q) cache \<Rightarrow> (status \<times> ('w, 'p, 'q) cache) option" where
  "write_segments E disk_block [] s = Some (OK, s)"
| "write_segments E disk_block (seg # segs) s =
     do { (st, s) \<leftarrow> disk_write_block E disk_block seg s;
          if \<not> ok st then Some (st, s) else write_segments E disk_block segs s }"

text \<open>The part of \<^verbatim>\<open>_flush_block_segments\<close> that has a disk block; a new one is written without the lock.\<close>

definition flush_to_disk_block ::
    "('w, 'p, 'q) env \<Rightarrow> ptr \<Rightarrow> block_key \<Rightarrow> ptr list \<Rightarrow> bool \<Rightarrow> ptr \<Rightarrow> ('w, 'p, 'q) cache \<Rightarrow> (status \<times> ('w, 'p, 'q) cache) option" where
  "flush_to_disk_block E p block_key segments new_block disk_block s =
     do { s \<leftarrow> lock_if E (\<not> new_block) block_key s;
          segs \<leftarrow> deref_all (cs_segments s) segments;
          (st, s) \<leftarrow> write_segments E disk_block segs s;
          if \<not> ok st then do { s \<leftarrow> unlock_if E (\<not> new_block) block_key s; Some (st, s) }
          else if new_block then
            do { s \<leftarrow> set_disk_block E p (key_index block_key) (Some disk_block) (Some block_key) s; Some (st, s) }
          else
            do { s \<leftarrow> set_disk_block E p (key_index block_key) (Some disk_block) None s;
                 s \<leftarrow> unlock_unique E block_key s;
                 Some (st, s) } }"

definition flush_block_segments ::
    "('w, 'p, 'q) env \<Rightarrow> ptr \<Rightarrow> block_key \<Rightarrow> ptr list \<Rightarrow> ('w, 'p, 'q) cache \<Rightarrow> (status \<times> ('w, 'p, 'q) cache) option" where
  "flush_block_segments E p block_key segments s =
     do { (old_block, s) \<leftarrow> disk_block_of E p (key_index block_key) (Some block_key) s;
          (st, s) \<leftarrow> (case old_block of
              Some d \<Rightarrow>
                do { (st, s) \<leftarrow> flush_to_disk_block E p block_key segments False d s;
                     s \<leftarrow> release_disk_block E d s;
                     Some (st, s) }
            | None \<Rightarrow>
                do { it \<leftarrow> get_item p s;
                     segs \<leftarrow> deref_all (cs_segments s) segments;
                     bs \<leftarrow> block_size (e_cfg E) it (key_index block_key);
                     guard (continuous_segments_size segs = bs);
                     (new_block, s) \<leftarrow> alloc_disk_block E block_key s;
                     case new_block of
                       None \<Rightarrow> Some (Err E_INTERNAL, s)
                     | Some d \<Rightarrow>
                         do { (st, s) \<leftarrow> flush_to_disk_block E p block_key segments True d s;
                              s \<leftarrow> release_disk_block E d s;
                              Some (st, s) } });
          s \<leftarrow> set_mem_block E p (key_index block_key) None (Some block_key) s;
          Some (st, s) }"

text \<open>The block is dropped, and with it the item when nothing else is left of it.\<close>

definition delete_block :: "('w, 'p, 'q) env \<Rightarrow> ptr \<Rightarrow> block_key \<Rightarrow> ('w, 'p, 'q) cache \<Rightarrow> (status \<times> ('w, 'p, 'q) cache) option" where
  "delete_block E p block_key s =
     do { s \<leftarrow> clear_block E p (key_index block_key) (Some block_key) s;
          (released, s) \<leftarrow> item_flag p release_if_empty s;
          s \<leftarrow> (if released then remove_cache_item E (bk_cache_id block_key) p s else Some s);
          Some (OK, s) }"

definition flush_admitted ::
    "('w, 'p, 'q) env \<Rightarrow> ptr \<Rightarrow> block_key \<Rightarrow> ptr \<Rightarrow> handle_ptr option \<Rightarrow> bool \<Rightarrow> ('w, 'p, 'q) cache
       \<Rightarrow> (status \<times> ('w, 'p, 'q) cache) option" where
  "flush_admitted E p block_key mem_block hdl pinned s =
     do { m \<leftarrow> deref (cs_mem_blocks s) mem_block;
          segments \<leftarrow> list_segments (e_cfg E) m [];
          s \<leftarrow> fold_opt retain_segment segments s;
          segs \<leftarrow> deref_all (cs_segments s) segments;
          it \<leftarrow> get_item p s;
          b \<leftarrow> get_block p (key_index block_key) s;
          partial_block \<leftarrow> (if blk_disk b \<noteq> None then Some False
             else do { bs \<leftarrow> block_size (e_cfg E) it (key_index block_key);
                       Some (continuous_segments_size segs \<noteq> bs) });
          if partial_block then
            do { s \<leftarrow> fold_opt (release_segment E) segments s; delete_block E p block_key s }
          else
            do { (st, s) \<leftarrow> flush_block_segments E p block_key segments s;
                 s \<leftarrow> (if st = OK \<and> hdl = None \<and> \<not> pinned
                     then disk_evict_track E (bk_cache_id block_key) (ci_size it) s else Some s);
                 s \<leftarrow> fold_opt (release_segment E) segments s;
                 Some (st, s) } }"

definition flush_mem_block ::
    "('w, 'p, 'q) env \<Rightarrow> ptr \<Rightarrow> block_key \<Rightarrow> ptr \<Rightarrow> handle_ptr option \<Rightarrow> ('w, 'p, 'q) cache
       \<Rightarrow> (status \<times> ('w, 'p, 'q) cache) option" where
  "flush_mem_block E p block_key mem_block hdl s =
     do { it \<leftarrow> get_item p s;
          let pinned = is_pinned it;
          let (admission, s) =
            (if pinned then (if has_disk_layer s then FLUSH else SKIP, s)
             else if \<not> has_disk_layer s then (DELETE, s)
             else (let (a, gen) = check_admission (admission_policy_new (e_cfg E)) (ci_size it) (cs_rand_generator s)
                   in (a, s\<lparr>cs_rand_generator := gen\<rparr>)));
          case admission of
            FLUSH \<Rightarrow> flush_admitted E p block_key mem_block hdl pinned s
          | SKIP \<Rightarrow>
              do { s \<leftarrow> (if \<not> pinned then
                        do { bs \<leftarrow> block_size (e_cfg E) it (key_index block_key); mem_evict_track E block_key bs s }
                      else Some s);
                   Some (OK, s) }
          | DELETE \<Rightarrow> delete_block E p block_key s }"

definition flush_block :: "('w, 'p, 'q) env \<Rightarrow> ptr \<Rightarrow> block_key \<Rightarrow> ('w, 'p, 'q) cache \<Rightarrow> (status \<times> ('w, 'p, 'q) cache) option" where
  "flush_block E p block_key s =
     do { it \<leftarrow> get_item p s;
          if is_released it then Some (OK, s)
          else
            do { (hdl, s) \<leftarrow> disk_evict_touch E (bk_cache_id block_key) True s;
                 b \<leftarrow> get_block p (key_index block_key) s;
                 (st, s) \<leftarrow> (case blk_mem b of
                     None \<Rightarrow> Some (OK, s)
                   | Some m \<Rightarrow>
                       do { s \<leftarrow> retain_mem_block m s;
                            (st, s) \<leftarrow> flush_mem_block E p block_key m hdl s;
                            s \<leftarrow> release_mem_block E m s;
                            Some (st, s) });
                 s \<leftarrow> disk_drop_handle E hdl s;
                 Some (st, s) } }"

section \<open>Making room in memory\<close>

text \<open>The unique lock of the block is held where the code holds it, and never during the flush.\<close>

definition evict_block_of_item :: "('w, 'p, 'q) env \<Rightarrow> ptr \<Rightarrow> block_key \<Rightarrow> ('w, 'p, 'q) cache \<Rightarrow> ('w, 'p, 'q) cache option" where
  "evict_block_of_item E p key s =
     do { s \<leftarrow> lock_unique E key s;
          it \<leftarrow> get_item p s;
          if block_count (e_cfg E) it \<le> key_index key then unlock_unique E key s
          else
            do { (mem_block, s) \<leftarrow> mem_block_of E p (key_index key) None s;
                 case mem_block of
                   None \<Rightarrow> unlock_unique E key s
                 | Some m \<Rightarrow>
                     do { mb \<leftarrow> deref (cs_mem_blocks s) m;
                          b \<leftarrow> get_block p (key_index key) s;
                          s \<leftarrow> (if mb_state mb = DIRTY \<or> blk_disk b = None then
                                 do { s \<leftarrow> unlock_unique E key s; (st, s) \<leftarrow> flush_block E p key s; Some s }
                               else
                                 do { s \<leftarrow> set_mem_block E p (key_index key) None None s; unlock_unique E key s });
                          release_mem_block E m s } } }"

definition evict_mem_key :: "('w, 'p, 'q) env \<Rightarrow> block_key \<Rightarrow> ('w, 'p, 'q) cache \<Rightarrow> ('w, 'p, 'q) cache option" where
  "evict_mem_key E key s =
     do { (cache_item, s) \<leftarrow> index_find (bk_cache_id key) s;
          case cache_item of
            None \<Rightarrow> Some s
          | Some p \<Rightarrow> do { s \<leftarrow> evict_block_of_item E p key s; release_item E p s } }"

definition process_evicted_mem_blocks :: "('w, 'p, 'q) env \<Rightarrow> block_key list \<Rightarrow> ('w, 'p, 'q) cache \<Rightarrow> ('w, 'p, 'q) cache option" where
  "process_evicted_mem_blocks E evicted s = fold_opt (evict_mem_key E) evicted s"

definition evict_mem_block :: "('w, 'p, 'q) env \<Rightarrow> nat \<Rightarrow> ('w, 'p, 'q) cache \<Rightarrow> ('w, 'p, 'q) cache option" where
  "evict_mem_block E sz s =
     do { (evicted, s) \<leftarrow> mem_evict E (to_u64 (sz * FLAGS_mem_evict_times (e_cfg E))) s;
          process_evicted_mem_blocks E evicted s }"

definition evict_for_mem_block :: "('w, 'p, 'q) env \<Rightarrow> block_key \<Rightarrow> nat \<Rightarrow> ('w, 'p, 'q) cache \<Rightarrow> ('w, 'p, 'q) cache option" where
  "evict_for_mem_block E block_key sz s =
     do { (evicted, s) \<leftarrow> mem_evict_for E block_key (to_u64 (sz * FLAGS_mem_evict_times (e_cfg E))) s;
          if evicted = [] then Some s else process_evicted_mem_blocks E evicted s }"

fun alloc_item_retry ::
    "('w, 'p, 'q) env \<Rightarrow> cache_key \<Rightarrow> nat \<Rightarrow> nat \<Rightarrow> bool \<Rightarrow> nat \<Rightarrow> ('w, 'p, 'q) cache \<Rightarrow> (ptr option \<times> ('w, 'p, 'q) cache) option" where
  "alloc_item_retry E cache_key sz expire_time urgent 0 s = Some (None, s)"
| "alloc_item_retry E cache_key sz expire_time urgent (Suc n) s =
     (let (cache_item, s) = new_cache_item E cache_key sz expire_time urgent s
      in if cache_item \<noteq> None then Some (cache_item, s)
         else do { s \<leftarrow> evict_mem_block E sz s; alloc_item_retry E cache_key sz expire_time True n s })"

definition alloc_cache_item ::
    "('w, 'p, 'q) env \<Rightarrow> cache_key \<Rightarrow> nat \<Rightarrow> nat \<Rightarrow> ('w, 'p, 'q) cache \<Rightarrow> (ptr option \<times> ('w, 'p, 'q) cache) option" where
  "alloc_cache_item E cache_key sz expire_time s =
     alloc_item_retry E cache_key sz expire_time False (FLAGS_max_retry_when_allocate (e_cfg E)) s"

fun alloc_segment_retry ::
    "('w, 'p, 'q) env \<Rightarrow> block_key \<Rightarrow> nat \<Rightarrow> nat \<Rightarrow> iobuf \<Rightarrow> bool \<Rightarrow> nat \<Rightarrow> ('w, 'p, 'q) cache
       \<Rightarrow> (ptr option \<times> ('w, 'p, 'q) cache) option" where
  "alloc_segment_retry E block_key offset sz buf urgent 0 s = Some (None, s)"
| "alloc_segment_retry E block_key offset sz buf urgent (Suc n) s =
     (let (segment, s) = new_block_segment E offset sz buf urgent s
      in if segment \<noteq> None then Some (segment, s)
         else do { s \<leftarrow> evict_for_mem_block E block_key sz s;
                   alloc_segment_retry E block_key offset sz buf True n s })"

text \<open>The size is narrowed to \<^verbatim>\<open>uint32_t\<close> by the parameter.\<close>

definition alloc_block_segment ::
    "('w, 'p, 'q) env \<Rightarrow> block_key \<Rightarrow> nat \<Rightarrow> nat \<Rightarrow> iobuf \<Rightarrow> ('w, 'p, 'q) cache \<Rightarrow> (ptr option \<times> ('w, 'p, 'q) cache) option" where
  "alloc_block_segment E block_key offset sz buf s =
     alloc_segment_retry E block_key offset (to_u32 sz) buf False (FLAGS_max_retry_when_allocate (e_cfg E)) s"

end
