(* ===== verification/StarCacheOps.thy ===== *)
theory StarCacheOps
  imports StarCacheImpl
begin

text \<open>
  The read and write paths of \<^verbatim>\<open>StarCacheImpl\<close> and its public operations, which the facade \<^verbatim>\<open>StarCache\<close>
  (\<^verbatim>\<open>src/star_cache.cpp\<close>) forwards to unchanged.
\<close>

section \<open>Promotion to memory\<close>

fun alloc_segments ::
    "('w, 'p, 'q) env \<Rightarrow> block_key \<Rightarrow> block_segment list \<Rightarrow> ptr list \<Rightarrow> ('w, 'p, 'q) cache \<Rightarrow> (ptr list \<times> ('w, 'p, 'q) cache) option" where
  "alloc_segments E block_key [] mem_segments s = Some (mem_segments, s)"
| "alloc_segments E block_key (seg # segs) mem_segments s =
     do { (segment, s) \<leftarrow> alloc_block_segment E block_key (sg_offset seg) (sg_size seg) (sg_buf seg) s;
          alloc_segments E block_key segs (case segment of None \<Rightarrow> mem_segments | Some q \<Rightarrow> mem_segments @ [q]) s }"

text \<open>
  The new segments enter the memory block of the block, or a new one. \<open>promote_write\<close> keeps its local
  reference to the memory block until the caller has tracked the block.
\<close>

definition promote_write ::
    "('w, 'p, 'q) env \<Rightarrow> ptr \<Rightarrow> block_key \<Rightarrow> ptr list \<Rightarrow> ('w, 'p, 'q) cache \<Rightarrow> (status \<times> ptr \<times> ('w, 'p, 'q) cache) option" where
  "promote_write E p block_key mem_segments s =
     do { s \<leftarrow> lock_unique E block_key s;
          (mem_block, s) \<leftarrow> mem_block_of E p (key_index block_key) None s;
          case mem_block of
            None \<Rightarrow>
              do { s \<leftarrow> unlock_unique E block_key s;
                   let (m, s) = new_mem_block_item E CLEAN s;
                   (st, s) \<leftarrow> mem_write_block E m mem_segments s;
                   s \<leftarrow> (if ok st then set_mem_block E p (key_index block_key) (Some m) (Some block_key) s else Some s);
                   Some (st, m, s) }
          | Some m \<Rightarrow>
              do { (st, s) \<leftarrow> mem_write_block E m mem_segments s;
                   s \<leftarrow> unlock_unique E block_key s;
                   Some (st, m, s) } }"

definition promote_block_segments ::
    "('w, 'p, 'q) env \<Rightarrow> ptr \<Rightarrow> block_key \<Rightarrow> block_segment list \<Rightarrow> ('w, 'p, 'q) cache \<Rightarrow> ('w, 'p, 'q) cache option" where
  "promote_block_segments E p block_key segments s =
     do { (hdl, s) \<leftarrow> mem_evict_touch E block_key True s;
          (mem_segments, s) \<leftarrow> alloc_segments E block_key segments [] s;
          s \<leftarrow> (if mem_segments = [] then Some s
              else
                do { (st, m, s) \<leftarrow> promote_write E p block_key mem_segments s;
                     s \<leftarrow> (if ok st \<and> hdl = None then
                            do { it \<leftarrow> get_item p s;
                                 bs \<leftarrow> block_size (e_cfg E) it (key_index block_key);
                                 mem_evict_track E block_key bs s }
                          else Some s);
                     s \<leftarrow> release_mem_block E m s;
                     fold_opt (release_segment E) mem_segments s });
          mem_drop_handle E hdl s }"

section \<open>Reading\<close>

text \<open>
  The loop over the segments found in memory fills the gaps from disk. Its result: the status of a failed
  disk read (which returns at once) or OK, whether a gap could not be filled, the cursor, the buffer and the segments read
  from disk.
\<close>

definition read_gap ::
    "('w, 'p, 'q) env \<Rightarrow> cache_id \<Rightarrow> ptr \<Rightarrow> nat \<Rightarrow> nat \<Rightarrow> iobuf \<Rightarrow> block_segment list \<Rightarrow> ('w, 'p, 'q) cache
       \<Rightarrow> (status \<times> iobuf \<times> block_segment list \<times> ('w, 'p, 'q) cache) option" where
  "read_gap E ident disk_block cursor n buf disk_segments s =
     (let bs = block_segment_new cursor n []
      in do { (st, bs, s) \<leftarrow> disk_read_block E ident disk_block bs s;
              Some (if \<not> ok st then (st, buf, disk_segments, s)
                    else (OK, x_append (e_ext E) buf (x_append_to (e_ext E) (sg_buf bs) (sg_size bs) 0),
                          disk_segments @ [bs], s)) })"

fun merge_segments ::
    "('w, 'p, 'q) env \<Rightarrow> cache_id \<Rightarrow> ptr option \<Rightarrow> block_segment list \<Rightarrow> nat \<Rightarrow> iobuf \<Rightarrow> block_segment list \<Rightarrow> ('w, 'p, 'q) cache
       \<Rightarrow> (status \<times> bool \<times> nat \<times> iobuf \<times> block_segment list \<times> ('w, 'p, 'q) cache) option" where
  "merge_segments E ident disk_block [] cursor buf disk_segments s = Some (OK, False, cursor, buf, disk_segments, s)"
| "merge_segments E ident disk_block (seg # segs) cursor buf disk_segments s =
     (if cursor < sg_offset seg \<and> disk_block = None then Some (OK, True, cursor, buf, disk_segments, s)
      else
        do { (st, buf, disk_segments, s) \<leftarrow>
               (if cursor < sg_offset seg then
                  do { d \<leftarrow> disk_block; read_gap E ident d cursor (sg_offset seg - cursor) buf disk_segments s }
                else Some (OK, buf, disk_segments, s));
             if \<not> ok st then Some (st, False, cursor, buf, disk_segments, s)
             else
               merge_segments E ident disk_block segs (sg_offset seg + iobuf_size (sg_buf seg))
                 (x_append (e_ext E) buf (sg_buf seg)) disk_segments s })"

text \<open>What \<^verbatim>\<open>_read_block\<close> does under the shared lock, with its two pointers.\<close>

definition read_block_locked ::
    "('w, 'p, 'q) env \<Rightarrow> block_key \<Rightarrow> ptr option \<Rightarrow> ptr option \<Rightarrow> nat \<Rightarrow> nat \<Rightarrow> ('w, 'p, 'q) cache
       \<Rightarrow> (status \<times> bool \<times> iobuf \<times> block_segment list \<times> ('w, 'p, 'q) cache) option" where
  "read_block_locked E block_key mem_block disk_block offset sz s =
     do { (st0, segments, s) \<leftarrow> mem_read_block E block_key mem_block offset sz s;
          (st, hole, cursor, buf, disk_segments, s) \<leftarrow>
            merge_segments E (bk_cache_id block_key) disk_block segments offset [] [] s;
          if \<not> ok st then Some (st, hole, buf, disk_segments, s)
          else (case disk_block of
              None \<Rightarrow> Some (OK, hole, buf, disk_segments, s)
            | Some d \<Rightarrow>
                if iobuf_size buf < sz then
                  do { (st, buf, disk_segments, s) \<leftarrow>
                         read_gap E (bk_cache_id block_key) d cursor (sz - iobuf_size buf) buf disk_segments s;
                       Some (st, hole, buf, disk_segments, s) }
                else Some (OK, hole, buf, disk_segments, s)) }"

definition read_block ::
    "('w, 'p, 'q) env \<Rightarrow> ptr \<Rightarrow> block_key \<Rightarrow> nat \<Rightarrow> nat \<Rightarrow> read_options option \<Rightarrow> ('w, 'p, 'q) cache
       \<Rightarrow> (status \<times> iobuf \<times> ('w, 'p, 'q) cache) option" where
  "read_block E p block_key offset sz options s =
     do { s \<leftarrow> lock_shared E block_key s;
          (mem_block, s) \<leftarrow> mem_block_of E p (key_index block_key) None s;
          (disk_block, s) \<leftarrow> disk_block_of E p (key_index block_key) None s;
          (st, hole_exist, buf, disk_segments, s) \<leftarrow> read_block_locked E block_key mem_block disk_block offset sz s;
          s \<leftarrow> unlock_shared E block_key s;
          (st, s) \<leftarrow>
            (if \<not> ok st then Some (st, s)
             else if iobuf_size buf < sz \<or> hole_exist then Some (Err ENOENT, s)
             else if disk_segments = [] then Some (OK, s)
             else
               (let (promote, s) = check_promote E options s
                in if promote then do { s \<leftarrow> promote_block_segments E p block_key disk_segments s; Some (OK, s) }
                   else Some (OK, s)));
          s \<leftarrow> release_opt (release_disk_block E) disk_block s;
          s \<leftarrow> release_opt (release_mem_block E) mem_block s;
          Some (st, buf, s) }"

text \<open>Lower and upper end of the range of whole slices, and the part of it in block \<open>i\<close>.\<close>

definition read_bounds :: "config \<Rightarrow> nat \<Rightarrow> nat \<Rightarrow> nat \<Rightarrow> nat \<times> nat" where
  "read_bounds cfg item_size offset sz =
     (let lower = slice_lower cfg (off2slice cfg offset);
          upper = slice_upper cfg (off2slice cfg (sub64 (offset + sz) 1))
      in (lower, if item_size \<le> upper then sub64 item_size 1 else upper))"

definition block_part :: "config \<Rightarrow> nat \<Rightarrow> nat \<Rightarrow> nat \<Rightarrow> nat \<times> nat" where
  "block_part cfg lower upper i =
     (let off_in_block = (if i = off2block cfg lower then sub64 lower (block_lower cfg i) else 0);
          to_read = (if i = off2block cfg upper then to_u64 (sub64 upper (block_lower cfg i + off_in_block) + 1)
                     else sub64 (FLAGS_block_size cfg) off_in_block)
      in (off_in_block, to_read))"

fun read_blocks ::
    "('w, 'p, 'q) env \<Rightarrow> cache_id \<Rightarrow> ptr \<Rightarrow> nat \<Rightarrow> nat \<Rightarrow> read_options option \<Rightarrow> nat list \<Rightarrow> iobuf \<Rightarrow> ('w, 'p, 'q) cache
       \<Rightarrow> (status \<times> iobuf \<times> ('w, 'p, 'q) cache) option" where
  "read_blocks E ident p lower upper options [] buf s = Some (OK, buf, s)"
| "read_blocks E ident p lower upper options (i # is) buf s =
     (let (off_in_block, to_read) = block_part (e_cfg E) lower upper i
      in do { (st, block_buf, s) \<leftarrow> read_block E p (block_key_of ident i) off_in_block to_read options s;
              if \<not> ok st then Some (st, buf, s)
              else read_blocks E ident p lower upper options is (x_append (e_ext E) buf block_buf) s })"

text \<open>The requested size, cut to what the item holds; the sum wraps at 64 bits.\<close>

definition clamp_size :: "nat \<Rightarrow> nat \<Rightarrow> nat \<Rightarrow> nat" where
  "clamp_size item_size offset sz =
     (if item_size < to_u64 (offset + sz) then (if item_size \<le> offset then 0 else sub64 item_size offset) else sz)"

definition read_cache_item ::
    "('w, 'p, 'q) env \<Rightarrow> cache_id \<Rightarrow> ptr \<Rightarrow> nat \<Rightarrow> nat \<Rightarrow> read_options option \<Rightarrow> ('w, 'p, 'q) cache
       \<Rightarrow> (status \<times> iobuf \<times> ('w, 'p, 'q) cache) option" where
  "read_cache_item E ident p offset sz options s =
     do { it \<leftarrow> get_item p s;
          let sz = clamp_size (ci_size it) offset sz;
          if sz = 0 then Some (OK, [], s)
          else
            (let (lower, upper) = read_bounds (e_cfg E) (ci_size it) offset sz
             in do { (st, buf, s) \<leftarrow>
                       read_blocks E ident p lower upper options
                         [off2block (e_cfg E) lower..<Suc (off2block (e_cfg E) upper)] [] s;
                     if \<not> ok st then Some (st, buf, s)
                     else
                       (let buf = x_pop_front (e_ext E) buf (sub64 offset lower)
                        in Some (OK, if sz < iobuf_size buf then x_pop_back (e_ext E) buf (iobuf_size buf - sz) else buf, s)) }) }"

text \<open>The object an operation works on: it must have the key, and not be released.\<close>

definition usable :: "cache_key \<Rightarrow> ptr option \<Rightarrow> ('w, 'p, 'q) cache \<Rightarrow> bool option" where
  "usable cache_key cache_item s = (case cache_item of None \<Rightarrow> Some False
     | Some p \<Rightarrow> do { it \<leftarrow> get_item p s; Some (ci_cache_key it = cache_key \<and> \<not> is_released it) })"

definition read_op ::
    "('w, 'p, 'q) env \<Rightarrow> cache_key \<Rightarrow> nat \<Rightarrow> nat \<Rightarrow> iobuf \<Rightarrow> read_options option \<Rightarrow> ('w, 'p, 'q) cache
       \<Rightarrow> (status \<times> iobuf \<times> ('w, 'p, 'q) cache) option" where
  "read_op E cache_key offset sz buf options s =
     (let cache_id = cachekey2id cache_key
      in do { (cache_item, s) \<leftarrow> index_find cache_id s;
              found \<leftarrow> usable cache_key cache_item s;
              (st, buf, s) \<leftarrow> (if \<not> found then Some (Err ENOENT, buf, s)
                else do { p \<leftarrow> cache_item; read_cache_item E cache_id p offset sz options s });
              s \<leftarrow> release_opt (release_item E) cache_item s;
              Some (st, buf, s) })"

definition get_op ::
    "('w, 'p, 'q) env \<Rightarrow> cache_key \<Rightarrow> iobuf \<Rightarrow> read_options option \<Rightarrow> ('w, 'p, 'q) cache
       \<Rightarrow> (status \<times> iobuf \<times> ('w, 'p, 'q) cache) option" where
  "get_op E cache_key buf options s =
     (let cache_id = cachekey2id cache_key
      in do { (cache_item, s) \<leftarrow> index_find cache_id s;
              found \<leftarrow> usable cache_key cache_item s;
              (st, buf, s) \<leftarrow> (if \<not> found then Some (Err ENOENT, buf, s)
                else do { p \<leftarrow> cache_item; it \<leftarrow> get_item p s;
                          read_cache_item E cache_id p 0 (ci_size it) options s });
              s \<leftarrow> release_opt (release_item E) cache_item s;
              Some (st, buf, s) })"

section \<open>Writing\<close>

definition opt_pinned :: "write_options option \<Rightarrow> bool" where
  "opt_pinned options = (case options of None \<Rightarrow> False | Some o' \<Rightarrow> wo_pinned o')"

text \<open>The copy of the data that goes to memory: aligned for direct I/O, or of the size of the data.\<close>

definition copy_for_memory :: "('w, 'p, 'q) env \<Rightarrow> iobuf \<Rightarrow> iobuf option option" where
  "copy_for_memory E buf =
     (if \<not> FLAGS_enable_os_page_cache (e_cfg E) then
        do { (sz, data) \<leftarrow> align_iobuf (e_cfg E) (os_memalign (e_os E)) buf;
             Some (if sz = 0 then None else Some (x_append_user_data (e_ext E) [] data)) }
      else Some (Some (x_append_user_data (e_ext E) [] (iobuf_bytes buf))))"

definition write_block_to_mem ::
    "('w, 'p, 'q) env \<Rightarrow> ptr \<Rightarrow> block_key \<Rightarrow> iobuf \<Rightarrow> write_options option \<Rightarrow> ('w, 'p, 'q) cache
       \<Rightarrow> (status \<times> ('w, 'p, 'q) cache) option" where
  "write_block_to_mem E p block_key buf options s =
     do { copied \<leftarrow> copy_for_memory E buf;
          case copied of
            None \<Rightarrow> Some (Err ENOMEM, s)
          | Some sbuf \<Rightarrow>
              do { (segment, s) \<leftarrow> alloc_block_segment E block_key 0 (iobuf_size buf) sbuf s;
                   case segment of
                     None \<Rightarrow> Some (Err E_INTERNAL, s)
                   | Some sg \<Rightarrow>
                       do { let (m, s) = new_mem_block_item E DIRTY s;
                            (st, s) \<leftarrow> mem_write_block E m [sg] s;
                            s \<leftarrow> (if \<not> ok st then Some s
                                else
                                  do { s \<leftarrow> set_mem_block E p (key_index block_key) (Some m) (Some block_key) s;
                                       if \<not> opt_pinned options \<or> has_disk_layer s then
                                         do { it \<leftarrow> get_item p s;
                                              bs \<leftarrow> block_size (e_cfg E) it (key_index block_key);
                                              mem_evict_track E block_key bs s }
                                       else Some s });
                            s \<leftarrow> release_mem_block E m s;
                            s \<leftarrow> release_segment E sg s;
                            Some (st, s) } } }"

definition write_block_to_disk ::
    "('w, 'p, 'q) env \<Rightarrow> ptr \<Rightarrow> block_key \<Rightarrow> iobuf \<Rightarrow> write_options option \<Rightarrow> ('w, 'p, 'q) cache
       \<Rightarrow> (status \<times> ('w, 'p, 'q) cache) option" where
  "write_block_to_disk E p block_key buf options s =
     do { (disk_block, s) \<leftarrow> alloc_disk_block E block_key s;
          case disk_block of
            None \<Rightarrow> Some (Err E_INTERNAL, s)
          | Some d \<Rightarrow>
              do { (st, s) \<leftarrow> disk_write_block E d (block_segment_new 0 (iobuf_size buf) buf) s;
                   s \<leftarrow> (if \<not> ok st then Some s
                       else
                         do { s \<leftarrow> set_disk_block E p (key_index block_key) (Some d) (Some block_key) s;
                              if \<not> opt_pinned options then
                                do { it \<leftarrow> get_item p s; disk_evict_track E (bk_cache_id block_key) (ci_size it) s }
                              else Some s });
                   s \<leftarrow> release_disk_block E d s;
                   Some (st, s) } }"

definition write_block ::
    "('w, 'p, 'q) env \<Rightarrow> ptr \<Rightarrow> block_key \<Rightarrow> iobuf \<Rightarrow> write_options option \<Rightarrow> ('w, 'p, 'q) cache
       \<Rightarrow> (status \<times> ('w, 'p, 'q) cache) option" where
  "write_block E p block_key buf options s =
     do { b \<leftarrow> get_block p (key_index block_key) s;
          location \<leftarrow> check_write E options s;
          case location of
            MEM \<Rightarrow> write_block_to_mem E p block_key buf options s
          | DISK \<Rightarrow> write_block_to_disk E p block_key buf options s
          | NONE \<Rightarrow> Some (Err E_INTERNAL, s) }"

fun write_blocks ::
    "('w, 'p, 'q) env \<Rightarrow> cache_id \<Rightarrow> ptr \<Rightarrow> iobuf \<Rightarrow> write_options option \<Rightarrow> nat list \<Rightarrow> ('w, 'p, 'q) cache
       \<Rightarrow> (status \<times> ('w, 'p, 'q) cache) option" where
  "write_blocks E ident p buf options [] s = Some (OK, s)"
| "write_blocks E ident p buf options (index # is) s =
     (let sz = FLAGS_block_size (e_cfg E);
          offset = index * sz;
          seg_buf = (if 1 < block_count_of (e_cfg E) (iobuf_size buf) then x_append_to (e_ext E) buf sz offset else buf)
      in do { (st, s) \<leftarrow> write_block E p (block_key_of ident index) seg_buf options s;
              if \<not> ok st then Some (st, s) else write_blocks E ident p buf options is s })"

text \<open>The item is used without a check: when it could not be allocated, the first use is of a null pointer.\<close>

definition write_cache_item ::
    "('w, 'p, 'q) env \<Rightarrow> cache_id \<Rightarrow> cache_key \<Rightarrow> iobuf \<Rightarrow> write_options option \<Rightarrow> ('w, 'p, 'q) cache
       \<Rightarrow> (status \<times> ('w, 'p, 'q) cache) option" where
  "write_cache_item E ident cache_key buf options s =
     (let (now, s) = ask E s;
          expire_time = to_u64 (now + (case options of None \<Rightarrow> 0 | Some o' \<Rightarrow> wo_ttl_seconds o'))
      in do { (cache_item, s) \<leftarrow> alloc_cache_item E cache_key (iobuf_size buf) expire_time s;
              p \<leftarrow> cache_item;
              s \<leftarrow> (if opt_pinned options then do { (changed, s) \<leftarrow> item_flag p (set_pinned True) s; Some s } else Some s);
              (st, s) \<leftarrow> write_blocks E ident p buf options
                          [0..<Suc ((iobuf_size buf - 1) div FLAGS_block_size (e_cfg E))] s;
              s \<leftarrow> (if \<not> ok st then Some s else do { (inserted, s) \<leftarrow> index_insert E ident p s; Some s });
              s \<leftarrow> release_item E p s;
              Some (st, s) })"

definition set_op ::
    "('w, 'p, 'q) env \<Rightarrow> cache_key \<Rightarrow> iobuf \<Rightarrow> write_options option \<Rightarrow> ('w, 'p, 'q) cache
       \<Rightarrow> (status \<times> ('w, 'p, 'q) cache) option" where
  "set_op E cache_key buf options s =
     (if iobuf_size buf = 0 then Some (Err E_INTERNAL, s)
      else if FLAGS_max_concurrent_writes (e_cfg E) < to_u64 (cs_concurrent_writes s + 1) then Some (Err EBUSY, s)
      else
        (let s = s\<lparr>cs_concurrent_writes := to_u64 (cs_concurrent_writes s + 1)\<rparr>;
             cache_id = cachekey2id cache_key
         in do { (cache_item, s) \<leftarrow> index_find cache_id s;
                 (st, s) \<leftarrow> (case cache_item of
                     None \<Rightarrow> Some (OK, s)
                   | Some p \<Rightarrow>
                       if (case options of None \<Rightarrow> True | Some o' \<Rightarrow> wo_overwrite o') then
                         do { s \<leftarrow> remove_cache_item E cache_id p s; Some (OK, s) }
                       else Some (Err EEXIST, s));
                 (st, s) \<leftarrow> (if ok st then write_cache_item E cache_id cache_key buf options s else Some (st, s));
                 let s = s\<lparr>cs_concurrent_writes := sub64 (cs_concurrent_writes s) 1\<rparr>;
                 s \<leftarrow> release_opt (release_item E) cache_item s;
                 Some (st, s) }))"

section \<open>Removing and pinning\<close>

definition remove_op :: "('w, 'p, 'q) env \<Rightarrow> cache_key \<Rightarrow> ('w, 'p, 'q) cache \<Rightarrow> (status \<times> ('w, 'p, 'q) cache) option" where
  "remove_op E cache_key s =
     (let cache_id = cachekey2id cache_key
      in do { (cache_item, s) \<leftarrow> index_find cache_id s;
              (st, s) \<leftarrow> (case cache_item of
                  None \<Rightarrow> Some (Err ENOENT, s)
                | Some p \<Rightarrow>
                    do { it \<leftarrow> get_item p s;
                         if ci_cache_key it \<noteq> cache_key then Some (Err ENOENT, s)
                         else
                           do { (changed, s) \<leftarrow> item_flag p (set_released True) s;
                                s \<leftarrow> (if changed then remove_cache_item E cache_id p s else Some s);
                                Some (OK, s) } });
              s \<leftarrow> release_opt (release_item E) cache_item s;
              Some (st, s) })"

definition pin_cache_item :: "('w, 'p, 'q) env \<Rightarrow> cache_id \<Rightarrow> ptr \<Rightarrow> ('w, 'p, 'q) cache \<Rightarrow> (status \<times> ('w, 'p, 'q) cache) option" where
  "pin_cache_item E ident p s =
     do { (changed, s) \<leftarrow> item_flag p (set_pinned True) s;
          s \<leftarrow> (if \<not> changed then Some s
              else if has_disk_layer s then disk_evict_untrack E ident s
              else do { it \<leftarrow> get_item p s;
                        fold_opt (\<lambda>i. mem_evict_untrack E (block_key_of ident i)) [0..<block_count (e_cfg E) it] s });
          Some (OK, s) }"

text \<open>The item is tracked by its size at the first block found on disk; the rest of the blocks is not looked at.\<close>

fun unpin_disk :: "('w, 'p, 'q) env \<Rightarrow> cache_id \<Rightarrow> ptr \<Rightarrow> nat list \<Rightarrow> ('w, 'p, 'q) cache \<Rightarrow> ('w, 'p, 'q) cache option" where
  "unpin_disk E ident p [] s = Some s"
| "unpin_disk E ident p (i # is) s =
     do { (disk_block, s) \<leftarrow> disk_block_of E p i (Some (block_key_of ident i)) s;
          s \<leftarrow> release_opt (release_disk_block E) disk_block s;
          if disk_block \<noteq> None then do { it \<leftarrow> get_item p s; disk_evict_track E ident (ci_size it) s }
          else unpin_disk E ident p is s }"

definition unpin_mem :: "('w, 'p, 'q) env \<Rightarrow> cache_id \<Rightarrow> ptr \<Rightarrow> nat \<Rightarrow> ('w, 'p, 'q) cache \<Rightarrow> ('w, 'p, 'q) cache option" where
  "unpin_mem E ident p i s =
     do { (mem_block, s) \<leftarrow> mem_block_of E p i (Some (block_key_of ident i)) s;
          s \<leftarrow> release_opt (release_mem_block E) mem_block s;
          if mem_block \<noteq> None then
            do { it \<leftarrow> get_item p s; bs \<leftarrow> block_size (e_cfg E) it i; mem_evict_track E (block_key_of ident i) bs s }
          else Some s }"

definition unpin_cache_item :: "('w, 'p, 'q) env \<Rightarrow> cache_id \<Rightarrow> ptr \<Rightarrow> ('w, 'p, 'q) cache \<Rightarrow> (status \<times> ('w, 'p, 'q) cache) option" where
  "unpin_cache_item E ident p s =
     do { (changed, s) \<leftarrow> item_flag p (set_pinned False) s;
          it \<leftarrow> get_item p s;
          s \<leftarrow> (if \<not> changed then Some s
              else if has_disk_layer s then unpin_disk E ident p [0..<block_count (e_cfg E) it] s
              else fold_opt (unpin_mem E ident p) [0..<block_count (e_cfg E) it] s);
          Some (OK, s) }"

definition on_item ::
    "('w, 'p, 'q) env \<Rightarrow> (cache_id \<Rightarrow> ptr \<Rightarrow> ('w, 'p, 'q) cache \<Rightarrow> (status \<times> ('w, 'p, 'q) cache) option)
       \<Rightarrow> cache_key \<Rightarrow> ('w, 'p, 'q) cache \<Rightarrow> (status \<times> ('w, 'p, 'q) cache) option" where
  "on_item E f cache_key s =
     (let cache_id = cachekey2id cache_key
      in do { (cache_item, s) \<leftarrow> index_find cache_id s;
              found \<leftarrow> usable cache_key cache_item s;
              (st, s) \<leftarrow> (if \<not> found then Some (Err ENOENT, s) else do { p \<leftarrow> cache_item; f cache_id p s });
              s \<leftarrow> release_opt (release_item E) cache_item s;
              Some (st, s) })"

definition pin_op :: "('w, 'p, 'q) env \<Rightarrow> cache_key \<Rightarrow> ('w, 'p, 'q) cache \<Rightarrow> (status \<times> ('w, 'p, 'q) cache) option" where
  "pin_op E cache_key s = on_item E (pin_cache_item E) cache_key s"

definition unpin_op :: "('w, 'p, 'q) env \<Rightarrow> cache_key \<Rightarrow> ('w, 'p, 'q) cache \<Rightarrow> (status \<times> ('w, 'p, 'q) cache) option" where
  "unpin_op E cache_key s = on_item E (unpin_cache_item E) cache_key s"

section \<open>Initialisation\<close>

text \<open>The generator of the admission policy is seeded from \<^verbatim>\<open>std::rand()\<close>; a seed of zero becomes one.\<close>

definition init_op :: "('w, 'p, 'q) env \<Rightarrow> cache_options \<Rightarrow> ('w, 'p, 'q) cache \<Rightarrow> (status \<times> ('w, 'p, 'q) cache) option" where
  "init_op E options s =
     do { let s = s\<lparr>cs_options := options\<rparr>;
          (st, s) \<leftarrow> mem_cache_init E (co_mem_quota_bytes options) s;
          if \<not> ok st then Some (st, s)
          else
            do { (st, s) \<leftarrow> disk_cache_init E (co_disk_dir_spaces options) s;
                 if \<not> ok st then Some (st, s)
                 else
                   (let (seed, s) = ask E (s\<lparr>cs_index := Map.empty\<rparr>);
                        gen = seed mod 2147483647
                    in Some (OK, s\<lparr>cs_rand_generator := (if gen = 0 then 1 else gen)\<rparr>)) } }"

definition options_op :: "('w, 'p, 'q) cache \<Rightarrow> cache_options" where
  "options_op s = cs_options s"

text \<open>\<^verbatim>\<open>StarCache::set_ttl\<close> does nothing.\<close>

definition set_ttl_op :: "cache_key \<Rightarrow> nat \<Rightarrow> ('w, 'p, 'q) cache \<Rightarrow> status \<times> ('w, 'p, 'q) cache" where
  "set_ttl_op cache_key ttl_seconds s = (OK, s)"


section \<open>The facade\<close>

text \<open>\<^verbatim>\<open>StarCache\<close> owns a \<^verbatim>\<open>StarCacheImpl\<close> and forwards every call.\<close>

definition star_cache_new :: "'w \<Rightarrow> 'p \<Rightarrow> 'q \<Rightarrow> nat \<Rightarrow> ('w, 'p, 'q) cache" where
  "star_cache_new w p q seed = cache_new w p q seed"

definition star_cache_options :: "('w, 'p, 'q) cache \<Rightarrow> cache_options" where
  "star_cache_options s = options_op s"

definition star_cache_init :: "('w, 'p, 'q) env \<Rightarrow> cache_options \<Rightarrow> ('w, 'p, 'q) cache \<Rightarrow> (status \<times> ('w, 'p, 'q) cache) option" where
  "star_cache_init E options s = init_op E options s"

definition star_cache_set ::
    "('w, 'p, 'q) env \<Rightarrow> cache_key \<Rightarrow> iobuf \<Rightarrow> write_options option \<Rightarrow> ('w, 'p, 'q) cache
       \<Rightarrow> (status \<times> ('w, 'p, 'q) cache) option" where
  "star_cache_set E cache_key buf options s = set_op E cache_key buf options s"

definition star_cache_get ::
    "('w, 'p, 'q) env \<Rightarrow> cache_key \<Rightarrow> iobuf \<Rightarrow> read_options option \<Rightarrow> ('w, 'p, 'q) cache
       \<Rightarrow> (status \<times> iobuf \<times> ('w, 'p, 'q) cache) option" where
  "star_cache_get E cache_key buf options s = get_op E cache_key buf options s"

definition star_cache_read ::
    "('w, 'p, 'q) env \<Rightarrow> cache_key \<Rightarrow> nat \<Rightarrow> nat \<Rightarrow> iobuf \<Rightarrow> read_options option \<Rightarrow> ('w, 'p, 'q) cache
       \<Rightarrow> (status \<times> iobuf \<times> ('w, 'p, 'q) cache) option" where
  "star_cache_read E cache_key offset sz buf options s = read_op E cache_key offset sz buf options s"

definition star_cache_remove :: "('w, 'p, 'q) env \<Rightarrow> cache_key \<Rightarrow> ('w, 'p, 'q) cache \<Rightarrow> (status \<times> ('w, 'p, 'q) cache) option" where
  "star_cache_remove E cache_key s = remove_op E cache_key s"

definition star_cache_pin :: "('w, 'p, 'q) env \<Rightarrow> cache_key \<Rightarrow> ('w, 'p, 'q) cache \<Rightarrow> (status \<times> ('w, 'p, 'q) cache) option" where
  "star_cache_pin E cache_key s = pin_op E cache_key s"

definition star_cache_unpin :: "('w, 'p, 'q) env \<Rightarrow> cache_key \<Rightarrow> ('w, 'p, 'q) cache \<Rightarrow> (status \<times> ('w, 'p, 'q) cache) option" where
  "star_cache_unpin E cache_key s = unpin_op E cache_key s"

end
