(* ===== verification/Ownership.thy ===== *)
theory Ownership
  imports StarCacheOps "HOL-Library.Multiset"
begin

text \<open>
  Who owns what: the use count of every shared object is the number of references to it, held by the index, by
  items, by memory blocks and by the local variables of the running operation (\<open>R\<close>). With it, releasing a
  reference never touches freed memory, and the memory manager is charged for exactly the live objects.
\<close>

section \<open>Sums over a heap\<close>

definition heap_sum :: "('a \<Rightarrow> 'b::comm_monoid_add) \<Rightarrow> 'a shared_heap \<Rightarrow> 'b" where
  "heap_sum g hp = (\<Sum>p \<in> dom hp. g (fst (the (hp p))))"

lemma heap_sum_empty [simp]: "heap_sum g Map.empty = 0"
  by (simp add: heap_sum_def)

lemma heap_sum_remove:
  assumes "finite (dom hp)" and "hp p = Some (x, n)"
  shows "heap_sum g hp = g x + heap_sum g (hp(p := None))"
proof -
  have "heap_sum g hp = g (fst (the (hp p))) + (\<Sum>q \<in> dom hp - {p}. g (fst (the (hp q))))"
    unfolding heap_sum_def using assms by (intro sum.remove) auto
  also have "(\<Sum>q \<in> dom hp - {p}. g (fst (the (hp q)))) = heap_sum g (hp(p := None))"
    unfolding heap_sum_def by (rule sum.cong) auto
  finally show ?thesis using assms(2) by simp
qed

lemma heap_sum_add:
  assumes "finite (dom hp)" and "hp p = None"
  shows "heap_sum g (hp(p \<mapsto> (x, n))) = g x + heap_sum g hp"
  using heap_sum_remove [of "hp(p \<mapsto> (x, n))" p x n g] assms by (simp add: fun_upd_idem)

lemma heap_sum_change:
  assumes "finite (dom hp)" and "hp p = Some (x, n)"
  shows "heap_sum g (hp(p \<mapsto> (y, k))) + g x = heap_sum g hp + g y"
  using heap_sum_remove [OF assms, of g] heap_sum_remove [of "hp(p \<mapsto> (y, k))" p y k g] assms(1)
  by (simp add: ac_simps)

lemma heap_sum_count:
  assumes "hp p = Some (x, n)"
  shows "heap_sum g (hp(p \<mapsto> (x, k))) = heap_sum g hp"
proof -
  have "dom (hp(p \<mapsto> (x, k))) = dom hp" using assms by auto
  then show ?thesis unfolding heap_sum_def using assms by (intro sum.cong) auto
qed

lemma heap_sum_member:
  assumes "finite (dom hp)" and "hp p = Some (x, n)" and "r \<in># g x"
  shows "r \<in># heap_sum g hp"
  using heap_sum_remove [OF assms(1,2), of g] assms(3) by simp

section \<open>References\<close>

datatype ref = RItem ptr | RMem ptr | RDisk ptr | RSeg ptr

definition opt_ref :: "(ptr \<Rightarrow> ref) \<Rightarrow> ptr option \<Rightarrow> ref multiset" where
  "opt_ref f p = (case p of None \<Rightarrow> {#} | Some a \<Rightarrow> {#f a#})"

lemma opt_ref_simps [simp]: "opt_ref f None = {#}" "opt_ref f (Some a) = {#f a#}"
  by (simp_all add: opt_ref_def)

definition block_refs :: "block_item \<Rightarrow> ref multiset" where
  "block_refs b = opt_ref RDisk (blk_disk b) + opt_ref RMem (blk_mem b)"

definition item_refs :: "cache_item \<Rightarrow> ref multiset" where
  "item_refs it = sum_list (map block_refs (ci_blocks it))"

definition mem_refs :: "mem_block_item \<Rightarrow> ref multiset" where
  "mem_refs b = sum_list (map (opt_ref RSeg) (mb_slices b))"

definition index_refs :: "(cache_id \<rightharpoonup> ptr) \<Rightarrow> ref multiset" where
  "index_refs m = (\<Sum>x \<in> dom m. {#RItem (the (m x))#})"

definition owners :: "('w, 'p, 'q) cache \<Rightarrow> ref multiset" where
  "owners s = heap_sum item_refs (cs_items s) + heap_sum mem_refs (cs_mem_blocks s) + index_refs (cs_index s)"

definition count_in :: "'a shared_heap \<Rightarrow> ptr \<Rightarrow> nat" where
  "count_in hp p = (case hp p of None \<Rightarrow> 0 | Some x \<Rightarrow> snd x)"

fun use_count :: "('w, 'p, 'q) cache \<Rightarrow> ref \<Rightarrow> nat" where
  "use_count s (RItem p) = count_in (cs_items s) p"
| "use_count s (RMem p) = count_in (cs_mem_blocks s) p"
| "use_count s (RDisk p) = count_in (cs_disk_blocks s) p"
| "use_count s (RSeg p) = count_in (cs_segments s) p"

definition counted :: "'a shared_heap \<Rightarrow> bool" where
  "counted hp \<longleftrightarrow> finite (dom hp) \<and> (\<forall>p x n. hp p = Some (x, n) \<longrightarrow> 0 < n)"

definition own :: "ref multiset \<Rightarrow> ('w, 'p, 'q) cache \<Rightarrow> bool" where
  "own R s \<longleftrightarrow> counted (cs_items s) \<and> counted (cs_mem_blocks s) \<and> counted (cs_disk_blocks s) \<and> counted (cs_segments s) \<and>
     finite (dom (cs_index s)) \<and> (\<forall>r. use_count s r = count (R + owners s) r)"

lemma ownD:
  assumes "own R s"
  shows "counted (cs_items s)" and "counted (cs_mem_blocks s)" and "counted (cs_disk_blocks s)" and "counted (cs_segments s)"
    and "finite (dom (cs_index s))" and "use_count s r = count R r + count (owners s) r"
  using assms by (simp_all add: own_def)

lemma counted_finite: "counted hp \<Longrightarrow> finite (dom hp)"
  by (simp add: counted_def)

lemma counted_pos: "counted hp \<Longrightarrow> hp p = Some (x, n) \<Longrightarrow> 0 < n"
  by (auto simp: counted_def)

lemma counted_upd: "counted hp \<Longrightarrow> 0 < n \<Longrightarrow> counted (hp(p \<mapsto> (x, n)))"
  by (auto simp: counted_def)

lemma counted_del: "counted hp \<Longrightarrow> counted (hp(p := None))"
  by (auto simp: counted_def split: if_splits)

lemma count_in_pos: "0 < count_in hp p \<Longrightarrow> \<exists>x. hp p = Some (x, count_in hp p)"
  by (auto simp: count_in_def split: option.splits)

text \<open>A referenced object is alive.\<close>

lemma own_alive:
  assumes "own R s" and "0 < count (R + owners s) r"
  shows "case r of RItem p \<Rightarrow> \<exists>x n. cs_items s p = Some (x, n) | RMem p \<Rightarrow> \<exists>x n. cs_mem_blocks s p = Some (x, n)
    | RDisk p \<Rightarrow> \<exists>x n. cs_disk_blocks s p = Some (x, n) | RSeg p \<Rightarrow> \<exists>x n. cs_segments s p = Some (x, n)"
proof -
  have "0 < use_count s r" using assms by (simp add: own_def)
  then show ?thesis by (cases r) (auto dest!: count_in_pos)
qed

lemma own_root:
  assumes "own R s"
  shows "RItem p \<in># R \<Longrightarrow> \<exists>x n. cs_items s p = Some (x, n)" and "RMem p \<in># R \<Longrightarrow> \<exists>x n. cs_mem_blocks s p = Some (x, n)"
    and "RSeg p \<in># R \<Longrightarrow> \<exists>x n. cs_segments s p = Some (x, n)" and "RDisk p \<in># R \<Longrightarrow> \<exists>x n. cs_disk_blocks s p = Some (x, n)"
  using own_alive [OF assms, of "RItem p"] own_alive [OF assms, of "RMem p"] own_alive [OF assms, of "RSeg p"]
    own_alive [OF assms, of "RDisk p"] by (simp_all add: count_greater_zero_iff [symmetric] del: count_greater_zero_iff)

lemma sum_list_member: "x \<in> set xs \<Longrightarrow> r \<in># f x \<Longrightarrow> r \<in># sum_list (map f xs)"
  by (induction xs) auto

lemma own_block:
  assumes "own R s" and "cs_items s p = Some (it, n)" and "b \<in> set (ci_blocks it)" and "r \<in># block_refs b"
  shows "0 < count (R + owners s) r"
proof -
  have "r \<in># item_refs it" unfolding item_refs_def using assms(3,4) by (rule sum_list_member)
  then have "r \<in># heap_sum item_refs (cs_items s)" by (rule heap_sum_member [OF counted_finite [OF ownD(1) [OF assms(1)]] assms(2)])
  then show ?thesis by (simp add: owners_def)
qed

lemma own_slice:
  assumes "own R s" and "cs_mem_blocks s m = Some (b, n)" and "Some g \<in> set (mb_slices b)"
  shows "0 < count (R + owners s) (RSeg g)"
proof -
  have "RSeg g \<in># mem_refs b" unfolding mem_refs_def using assms(3) by (rule sum_list_member) simp
  then have "RSeg g \<in># heap_sum mem_refs (cs_mem_blocks s)" by (rule heap_sum_member [OF counted_finite [OF ownD(2) [OF assms(1)]] assms(2)])
  then show ?thesis by (simp add: owners_def)
qed

lemma own_index:
  assumes "own R s" and "cs_index s x = Some p"
  shows "0 < count (R + owners s) (RItem p)"
proof -
  have "RItem p \<in># index_refs (cs_index s)"
    unfolding index_refs_def using ownD(5) [OF assms(1)] assms(2) by (subst sum.remove [of _ x]) auto
  then show ?thesis by (simp add: owners_def)
qed


section \<open>How the elementary changes of a state move references\<close>

lemma count_in_upd [simp]: "count_in (hp(p \<mapsto> (x, n))) q = (if q = p then n else count_in hp q)"
  by (simp add: count_in_def)

lemma count_in_del [simp]: "count_in (hp(p := None)) q = (if q = p then 0 else count_in hp q)"
  by (simp add: count_in_def)

lemma count_in_Some: "hp p = Some (x, n) \<Longrightarrow> count_in hp p = n"
  by (simp add: count_in_def)

lemma count_in_None: "hp p = None \<Longrightarrow> count_in hp p = 0"
  by (simp add: count_in_def)

lemma ownI:
  assumes "own R s"
    and "counted (cs_items s')" and "counted (cs_mem_blocks s')" and "counted (cs_disk_blocks s')" and "counted (cs_segments s')"
    and "finite (dom (cs_index s'))"
    and "\<And>p. count_in (cs_items s') p + count (R + owners s) (RItem p) = count_in (cs_items s) p + count (R' + owners s') (RItem p)"
    and "\<And>p. count_in (cs_mem_blocks s') p + count (R + owners s) (RMem p) =
      count_in (cs_mem_blocks s) p + count (R' + owners s') (RMem p)"
    and "\<And>p. count_in (cs_disk_blocks s') p + count (R + owners s) (RDisk p) =
      count_in (cs_disk_blocks s) p + count (R' + owners s') (RDisk p)"
    and "\<And>p. count_in (cs_segments s') p + count (R + owners s) (RSeg p) =
      count_in (cs_segments s) p + count (R' + owners s') (RSeg p)"
  shows "own R' s'"
proof -
  have "use_count s' r = count (R' + owners s') r" for r
  proof -
    have "use_count s r = count (R + owners s) r" using assms(1) by (simp add: own_def)
    then show ?thesis
      using assms(7) [of "case r of RItem p \<Rightarrow> p | _ \<Rightarrow> 0"] assms(8) [of "case r of RMem p \<Rightarrow> p | _ \<Rightarrow> 0"]
        assms(9) [of "case r of RDisk p \<Rightarrow> p | _ \<Rightarrow> 0"] assms(10) [of "case r of RSeg p \<Rightarrow> p | _ \<Rightarrow> 0"]
      by (cases r) auto
  qed
  then show ?thesis using assms(2-6) unfolding own_def by blast
qed

text \<open>Ownership depends on five components of the state.\<close>

lemma own_cong:
  assumes "own R s" and "cs_items s' = cs_items s" and "cs_mem_blocks s' = cs_mem_blocks s" and "cs_disk_blocks s' = cs_disk_blocks s"
    and "cs_segments s' = cs_segments s" and "cs_index s' = cs_index s"
  shows "own R s'"
proof -
  have "owners s' = owners s" using assms by (simp add: owners_def)
  moreover have "use_count s' r = use_count s r" for r using assms by (cases r) simp_all
  ultimately show ?thesis using assms unfolding own_def by simp
qed

lemma heap_sum_in: "counted hp \<Longrightarrow> hp p = Some (x, n) \<Longrightarrow> heap_sum g hp = g x + heap_sum g (hp(p := None))"
  by (rule heap_sum_remove [OF counted_finite])

lemma heap_sum_put: "counted hp \<Longrightarrow> hp p = None \<Longrightarrow> heap_sum g (hp(p \<mapsto> (x, n))) = g x + heap_sum g hp"
  by (rule heap_sum_add [OF counted_finite])

lemma heap_sum_swap: "counted hp \<Longrightarrow> hp p = Some (x, n) \<Longrightarrow> heap_sum g (hp(p \<mapsto> (y, k))) + g x = heap_sum g hp + g y"
  by (rule heap_sum_change [OF counted_finite])

lemma own_heaps:
  assumes "own R s"
  shows "counted (cs_items s)" and "counted (cs_mem_blocks s)" and "counted (cs_disk_blocks s)" and "counted (cs_segments s)"
    and "finite (dom (cs_index s))"
  using assms by (simp_all add: own_def)

lemmas own_arith = counted_upd counted_del owners_def heap_sum_count count_in_Some count_in_None

lemma own_retain_item:
  assumes "own R s" and "cs_items s p = Some (it, n)"
  shows "own (R + {#RItem p#}) (s\<lparr>cs_items := (cs_items s)(p \<mapsto> (it, Suc n))\<rparr>)"
  by (rule ownI [OF assms(1)]) (use assms(2) own_heaps [OF assms(1)] in \<open>auto simp: own_arith\<close>)

lemma own_retain_mem:
  assumes "own R s" and "cs_mem_blocks s p = Some (b, n)"
  shows "own (R + {#RMem p#}) (s\<lparr>cs_mem_blocks := (cs_mem_blocks s)(p \<mapsto> (b, Suc n))\<rparr>)"
  by (rule ownI [OF assms(1)]) (use assms(2) own_heaps [OF assms(1)] in \<open>auto simp: own_arith\<close>)

lemma own_retain_seg:
  assumes "own R s" and "cs_segments s p = Some (sg, n)"
  shows "own (R + {#RSeg p#}) (s\<lparr>cs_segments := (cs_segments s)(p \<mapsto> (sg, Suc n))\<rparr>)"
  by (rule ownI [OF assms(1)]) (use assms(2) own_heaps [OF assms(1)] in \<open>auto simp: own_arith\<close>)

lemma own_less_item:
  assumes "own (R + {#RItem p#}) s" and "cs_items s p = Some (it, n)" and "\<not> n \<le> 1"
  shows "own R (s\<lparr>cs_items := (cs_items s)(p \<mapsto> (it, n - 1))\<rparr>)"
  by (rule ownI [OF assms(1)]) (use assms(2,3) own_heaps [OF assms(1)] in \<open>auto simp: own_arith\<close>)

lemma own_less_mem:
  assumes "own (R + {#RMem p#}) s" and "cs_mem_blocks s p = Some (b, n)" and "\<not> n \<le> 1"
  shows "own R (s\<lparr>cs_mem_blocks := (cs_mem_blocks s)(p \<mapsto> (b, n - 1))\<rparr>)"
  by (rule ownI [OF assms(1)]) (use assms(2,3) own_heaps [OF assms(1)] in \<open>auto simp: own_arith\<close>)

lemma own_less_seg:
  assumes "own (R + {#RSeg p#}) s" and "cs_segments s p = Some (sg, n)" and "\<not> n \<le> 1"
  shows "own R (s\<lparr>cs_segments := (cs_segments s)(p \<mapsto> (sg, n - 1))\<rparr>)"
  by (rule ownI [OF assms(1)]) (use assms(2,3) own_heaps [OF assms(1)] in \<open>auto simp: own_arith\<close>)

lemma own_last_item:
  assumes "own (R + {#RItem p#}) s" and "cs_items s p = Some (it, n)" and "n \<le> 1"
  shows "own (R + item_refs it) (s\<lparr>cs_items := (cs_items s)(p := None)\<rparr>)"
proof -
  have "n = 1" using counted_pos [OF own_heaps(1) [OF assms(1)] assms(2)] assms(3) by simp
  then show ?thesis
    by (intro ownI [OF assms(1)]) (use assms(2) own_heaps [OF assms(1)] in \<open>auto simp: own_arith heap_sum_in [of "cs_items s" p]\<close>)
qed

lemma own_last_mem:
  assumes "own (R + {#RMem p#}) s" and "cs_mem_blocks s p = Some (b, n)" and "n \<le> 1"
  shows "own (R + mem_refs b) (s\<lparr>cs_mem_blocks := (cs_mem_blocks s)(p := None)\<rparr>)"
proof -
  have "n = 1" using counted_pos [OF own_heaps(2) [OF assms(1)] assms(2)] assms(3) by simp
  then show ?thesis
    by (intro ownI [OF assms(1)]) (use assms(2) own_heaps [OF assms(1)] in \<open>auto simp: own_arith heap_sum_in [of "cs_mem_blocks s" p]\<close>)
qed

lemma own_last_seg:
  assumes "own (R + {#RSeg p#}) s" and "cs_segments s p = Some (sg, n)" and "n \<le> 1"
  shows "own R (s\<lparr>cs_segments := (cs_segments s)(p := None)\<rparr>)"
proof -
  have "n = 1" using counted_pos [OF own_heaps(4) [OF assms(1)] assms(2)] assms(3) by simp
  then show ?thesis
    by (intro ownI [OF assms(1)]) (use assms(2) own_heaps [OF assms(1)] in \<open>auto simp: own_arith\<close>)
qed

lemma own_new_item:
  assumes "own R s" and "cs_items s p = None" and "item_refs it = {#}"
  shows "own (R + {#RItem p#}) (s\<lparr>cs_items := (cs_items s)(p \<mapsto> (it, 1))\<rparr>)"
  by (rule ownI [OF assms(1)]) (use assms(2,3) own_heaps [OF assms(1)] in \<open>auto simp: own_arith heap_sum_put\<close>)

lemma own_new_mem:
  assumes "own R s" and "cs_mem_blocks s p = None" and "mem_refs b = {#}"
  shows "own (R + {#RMem p#}) (s\<lparr>cs_mem_blocks := (cs_mem_blocks s)(p \<mapsto> (b, 1))\<rparr>)"
  by (rule ownI [OF assms(1)]) (use assms(2,3) own_heaps [OF assms(1)] in \<open>auto simp: own_arith heap_sum_put\<close>)

lemma own_new_seg:
  assumes "own R s" and "cs_segments s p = None"
  shows "own (R + {#RSeg p#}) (s\<lparr>cs_segments := (cs_segments s)(p \<mapsto> (sg, 1))\<rparr>)"
  by (rule ownI [OF assms(1)]) (use assms(2) own_heaps [OF assms(1)] in \<open>auto simp: own_arith heap_sum_put\<close>)

text \<open>Replacing an object gives up the references of the new one and takes over those of the old one.\<close>

lemma count_swap: "a + b = c + d \<Longrightarrow> count a r + count b r = count c r + count d r" for a :: "'a multiset"
  by (metis count_union)

lemma own_change_item:
  assumes "own (R + item_refs it') s" and "cs_items s p = Some (it, n)"
  shows "own (R + item_refs it) (s\<lparr>cs_items := (cs_items s)(p \<mapsto> (it', n))\<rparr>)"
proof -
  have "0 < n" by (rule counted_pos [OF own_heaps(1) [OF assms(1)] assms(2)])
  then show ?thesis
    using count_swap [OF heap_sum_swap [OF own_heaps(1) [OF assms(1)] assms(2), of item_refs it' n]]
    by (intro ownI [OF assms(1)]) (use assms(2) own_heaps [OF assms(1)] in \<open>auto simp: own_arith ac_simps\<close>)
qed

lemma own_change_mem:
  assumes "own (R + mem_refs b') s" and "cs_mem_blocks s p = Some (b, n)"
  shows "own (R + mem_refs b) (s\<lparr>cs_mem_blocks := (cs_mem_blocks s)(p \<mapsto> (b', n))\<rparr>)"
proof -
  have "0 < n" by (rule counted_pos [OF own_heaps(2) [OF assms(1)] assms(2)])
  then show ?thesis
    using count_swap [OF heap_sum_swap [OF own_heaps(2) [OF assms(1)] assms(2), of mem_refs b' n]]
    by (intro ownI [OF assms(1)]) (use assms(2) own_heaps [OF assms(1)] in \<open>auto simp: own_arith ac_simps\<close>)
qed

lemma index_refs_upd:
  assumes "finite (dom m)"
  shows "index_refs (m(x := v)) + opt_ref RItem (m x) = index_refs m + opt_ref RItem v"
proof -
  have del: "index_refs m = opt_ref RItem (m x) + index_refs (m(x := None))" if "finite (dom m)" for m :: "cache_id \<rightharpoonup> ptr"
  proof (cases "m x")
    case None
    then show ?thesis by (simp add: fun_upd_idem)
  next
    case (Some p)
    have "index_refs m = {#RItem (the (m x))#} + (\<Sum>y \<in> dom m - {x}. {#RItem (the (m y))#})"
      unfolding index_refs_def using that Some by (intro sum.remove) auto
    also have "(\<Sum>y \<in> dom m - {x}. {#RItem (the (m y))#}) = index_refs (m(x := None))"
      unfolding index_refs_def by (rule sum.cong) auto
    finally show ?thesis using Some by simp
  qed
  have "finite (dom (m(x := v)))" using assms by (cases v) simp_all
  from del [OF this] del [OF assms] show ?thesis by simp
qed

lemma own_index_upd:
  assumes "own (R + opt_ref RItem v) s"
  shows "own (R + opt_ref RItem (cs_index s x)) (s\<lparr>cs_index := (cs_index s)(x := v)\<rparr>)"
proof -
  have "finite (dom ((cs_index s)(x := v)))" using own_heaps(5) [OF assms] by (cases v) simp_all
  then show ?thesis
    using count_swap [OF index_refs_upd [OF own_heaps(5) [OF assms], of x v]]
    by (intro ownI [OF assms]) (use own_heaps [OF assms] in \<open>auto simp: owners_def ac_simps\<close>)
qed

end
