(* ===== verification/MemoryOnly.thy ===== *)
theory MemoryOnly
  imports Ownership EvictionPolicy
begin

text \<open>
  The cache without a disk layer: what every operation keeps of the state. The invariant says that every use count
  is exact, the memory account is exact, the memory of an object of the index holds the bytes last set under its
  key wherever it holds any, and the eviction policies are in order.
\<close>

section \<open>What the objects hold\<close>

text \<open>A memory block of which the slices in use share one segment that starts with the bytes \<open>d\<close>.\<close>

definition mem_holds :: "('w, 'p, 'q) env \<Rightarrow> ('w, 'p, 'q) cache \<Rightarrow> ptr \<Rightarrow> bytes \<Rightarrow> bool" where
  "mem_holds E s m d \<longleftrightarrow> (\<exists>b k g seg kg n. cs_mem_blocks s m = Some (b, k) \<and> cs_segments s g = Some (seg, kg) \<and>
     mb_slices b = replicate n (Some g) @ replicate (block_slice_count (e_cfg E) - n) None \<and> n \<le> block_slice_count (e_cfg E) \<and>
     length d \<le> n * FLAGS_slice_size (e_cfg E) \<and> 0 < n \<and>
     sg_offset seg = 0 \<and> length d \<le> iobuf_size (sg_buf seg) \<and> take (length d) (iobuf_bytes (sg_buf seg)) = d)"

text \<open>The bytes of block \<open>i\<close> of a value.\<close>

definition chunk :: "('w, 'p, 'q) env \<Rightarrow> bytes \<Rightarrow> nat \<Rightarrow> bytes" where
  "chunk E v i = take (FLAGS_block_size (e_cfg E)) (drop (i * FLAGS_block_size (e_cfg E)) v)"

definition item_holds :: "('w, 'p, 'q) env \<Rightarrow> ('w, 'p, 'q) cache \<Rightarrow> cache_item \<Rightarrow> bytes \<Rightarrow> bool" where
  "item_holds E s it v \<longleftrightarrow> ci_size it = length v \<and> v \<noteq> [] \<and> length v + FLAGS_slice_size (e_cfg E) \<le> 2 ^ 32 \<and>
     length (ci_blocks it) = block_count_of (e_cfg E) (length v) \<and> (\<forall>b \<in> set (ci_blocks it). blk_disk b = None) \<and>
     (\<forall>i m. i < length (ci_blocks it) \<longrightarrow> blk_mem (ci_blocks it ! i) = Some m \<longrightarrow> mem_holds E s m (chunk E v i))"

text \<open>Blocks may be cleared and the state may change, but a released item stays so; nothing else of an item changes.\<close>

definition cleared :: "cache_item \<Rightarrow> cache_item \<Rightarrow> bool" where
  "cleared it it' \<longleftrightarrow> ci_cache_key it' = ci_cache_key it \<and> ci_size it' = ci_size it \<and> length (ci_blocks it') = length (ci_blocks it) \<and>
     (is_released it \<longrightarrow> is_released it') \<and>
     (\<forall>i < length (ci_blocks it). blk_disk (ci_blocks it' ! i) \<in> {None, blk_disk (ci_blocks it ! i)} \<and>
        blk_mem (ci_blocks it' ! i) \<in> {None, blk_mem (ci_blocks it ! i)})"

lemma cleared_refl [simp]: "cleared it it"
  by (simp add: cleared_def)

lemma cleared_trans: "cleared a b \<Longrightarrow> cleared b c \<Longrightarrow> cleared a c"
  unfolding cleared_def by (auto) (metis)+

section \<open>How a state evolves\<close>

text \<open>The pointers handed out so far keep their objects, or lose them, and only the items of \<open>P\<close> may change at all; entries leave the index, locks and the count of writers return to what they were.\<close>

definition moves :: "ptr set \<Rightarrow> ('w, 'p, 'q) cache \<Rightarrow> ('w, 'p, 'q) cache \<Rightarrow> bool" where
  "moves P s s' \<longleftrightarrow> cs_brk s \<le> cs_brk s' \<and> cs_options s' = cs_options s \<and> cs_disk s' = cs_disk s \<and> cs_locks s' = cs_locks s \<and>
     cs_concurrent_writes s' = cs_concurrent_writes s \<and>
     (\<forall>g x k. cs_segments s' g = Some (x, k) \<longrightarrow> g < cs_brk s \<longrightarrow> (\<exists>k0. cs_segments s g = Some (x, k0))) \<and>
     (\<forall>m x k. cs_mem_blocks s' m = Some (x, k) \<longrightarrow> m < cs_brk s \<longrightarrow> (\<exists>k0. cs_mem_blocks s m = Some (x, k0))) \<and>
     (\<forall>p x k. cs_items s' p = Some (x, k) \<longrightarrow> p < cs_brk s \<longrightarrow> (\<exists>x0 k0. cs_items s p = Some (x0, k0) \<and> cleared x0 x \<and> (p \<notin> P \<longrightarrow> x = x0))) \<and>
     (\<forall>ident p. cs_index s' ident = Some p \<longrightarrow> cs_index s ident = Some p)"

lemma movesD:
  assumes "moves P s s'"
  shows "cs_brk s \<le> cs_brk s'" and "cs_options s' = cs_options s" and "cs_locks s' = cs_locks s"
    and "cs_concurrent_writes s' = cs_concurrent_writes s"
    and "cs_segments s' g = Some (sg, k) \<Longrightarrow> g < cs_brk s \<Longrightarrow> \<exists>k0. cs_segments s g = Some (sg, k0)"
    and "cs_mem_blocks s' m = Some (b, k) \<Longrightarrow> m < cs_brk s \<Longrightarrow> \<exists>k0. cs_mem_blocks s m = Some (b, k0)"
    and "cs_items s' p = Some (it, k) \<Longrightarrow> p < cs_brk s \<Longrightarrow> \<exists>it0 k0. cs_items s p = Some (it0, k0) \<and> cleared it0 it \<and> (p \<notin> P \<longrightarrow> it = it0)"
    and "cs_index s' ident = Some p \<Longrightarrow> cs_index s ident = Some p" and "cs_disk s' = cs_disk s"
  using assms unfolding moves_def by blast+

lemma moves_refl [simp]: "moves P s s"
  unfolding moves_def using cleared_refl by blast

lemma moves_trans:
  assumes "moves P a b" and "moves P b c"
  shows "moves P a c"
proof -
  note A = movesD [OF assms(1)] and B = movesD [OF assms(2)]
  have "\<exists>k0. cs_segments a g = Some (x, k0)" if "cs_segments c g = Some (x, k)" "g < cs_brk a" for g x k
    using B(5) [OF that(1)] A(5) that(2) A(1) by (meson order_less_le_trans)
  moreover have "\<exists>k0. cs_mem_blocks a g = Some (x, k0)" if "cs_mem_blocks c g = Some (x, k)" "g < cs_brk a" for g x k
    using B(6) [OF that(1)] A(6) that(2) A(1) by (meson order_less_le_trans)
  moreover have "\<exists>x0 k0. cs_items a p = Some (x0, k0) \<and> cleared x0 x \<and> (p \<notin> P \<longrightarrow> x = x0)"
    if p: "cs_items c p = Some (x, k)" "p < cs_brk a" for p x k
  proof -
    obtain y l where "cs_items b p = Some (y, l)" "cleared y x" "p \<notin> P \<longrightarrow> x = y" using B(7) [OF p(1)] p(2) A(1) by auto
    moreover then obtain z j where "cs_items a p = Some (z, j)" "cleared z y" "p \<notin> P \<longrightarrow> y = z" using A(7) p(2) by blast
    ultimately show ?thesis using cleared_trans by metis
  qed
  ultimately show ?thesis
    using A(1-4,8,9) B(1-4,8,9) unfolding moves_def by (simp add: le_trans)
qed

section \<open>The invariant\<close>

definition it_charge :: "('w, 'p, 'q) env \<Rightarrow> cache_item \<Rightarrow> u64" where
  "it_charge E it = item_charge E (length (ci_cache_key it)) (ci_size it)"

text \<open>The memory in use is the sum of the charges of the live objects, and of \<open>c\<close> for an object half destroyed.\<close>

definition acct :: "('w, 'p, 'q) env \<Rightarrow> u64 \<Rightarrow> ('w, 'p, 'q) cache \<Rightarrow> bool" where
  "acct E c s \<longleftrightarrow> ms_used_bytes (cs_mem s) = heap_sum (segment_charge E) (cs_segments s) + heap_sum (it_charge E) (cs_items s) + c"

definition below_brk :: "('w, 'p, 'q) cache \<Rightarrow> bool" where
  "below_brk s \<longleftrightarrow> (\<forall>p x. cs_items s p = Some x \<longrightarrow> p < cs_brk s) \<and> (\<forall>p x. cs_mem_blocks s p = Some x \<longrightarrow> p < cs_brk s) \<and>
     (\<forall>p x. cs_segments s p = Some x \<longrightarrow> p < cs_brk s)"

text \<open>Every object holds some value; those in the index hold the value \<open>S\<close> has for their key.\<close>

definition items_ok :: "('w, 'p, 'q) env \<Rightarrow> ('w, 'p, 'q) cache \<Rightarrow> bool" where
  "items_ok E s \<longleftrightarrow> (\<forall>p it k. cs_items s p = Some (it, k) \<longrightarrow> (\<exists>v. item_holds E s it v))"

definition index_holds :: "('w, 'p, 'q) env \<Rightarrow> (cache_key \<rightharpoonup> bytes) \<Rightarrow> ('w, 'p, 'q) cache \<Rightarrow> bool" where
  "index_holds E S s \<longleftrightarrow> (\<forall>ident p. cs_index s ident = Some p \<longrightarrow> (\<exists>it k v. cs_items s p = Some (it, k) \<and>
     cachekey2id (ci_cache_key it) = ident \<and> (is_released it \<or> S (ci_cache_key it) = Some v) \<and> item_holds E s it v))"

definition mem_only :: "('w, 'p, 'q) env \<Rightarrow> u64 \<Rightarrow> ref multiset \<Rightarrow> (cache_key \<rightharpoonup> bytes) \<Rightarrow> ('w, 'p, 'q) cache \<Rightarrow> bool" where
  "mem_only E c R S s \<longleftrightarrow> own R s \<and> acct E c s \<and> below_brk s \<and> items_ok E s \<and> index_holds E S s \<and>
     cs_disk_blocks s = Map.empty \<and> co_disk_dir_spaces (cs_options s) = [] \<and> cs_disk s = dsm_empty"

lemma mem_onlyD:
  assumes "mem_only E c R S s"
  shows "own R s" and "acct E c s" and "below_brk s" and "items_ok E s" and "index_holds E S s" and "cs_disk_blocks s = Map.empty"
    and "co_disk_dir_spaces (cs_options s) = []" and "cs_disk s = dsm_empty"
  using assms by (simp_all add: mem_only_def)

lemma below_brkD:
  assumes "below_brk s"
  shows "cs_items s p = Some x \<Longrightarrow> p < cs_brk s" and "cs_mem_blocks s p = Some y \<Longrightarrow> p < cs_brk s"
    and "cs_segments s p = Some z \<Longrightarrow> p < cs_brk s"
  using assms by (cases x; cases y; cases z; simp add: below_brk_def; blast)+

lemma mem_holds_moves:
  assumes "mem_holds E s m d" and "own R s'" and "moves P s s'" and "below_brk s" and "0 < count (R + owners s') (RMem m)"
  shows "mem_holds E s' m d"
proof -
  from assms(1) obtain b k g seg kg n where
    m: "cs_mem_blocks s m = Some (b, k)" and g: "cs_segments s g = Some (seg, kg)"
    and rest: "mb_slices b = replicate n (Some g) @ replicate (block_slice_count (e_cfg E) - n) None" "n \<le> block_slice_count (e_cfg E)"
      "length d \<le> n * FLAGS_slice_size (e_cfg E)" "0 < n" "sg_offset seg = 0" "length d \<le> iobuf_size (sg_buf seg)"
      "take (length d) (iobuf_bytes (sg_buf seg)) = d"
    unfolding mem_holds_def by (elim exE conjE)
  obtain b' k' where m': "cs_mem_blocks s' m = Some (b', k')" using own_alive [OF assms(2,5)] by auto
  have "b' = b" using movesD(6) [OF assms(3) m'] below_brkD(2) [OF assms(4) m] m by simp
  note m' = m' [unfolded this]
  have "Some g \<in> set (mb_slices b)" using rest(1,4) by simp
  then have "0 < count (R + owners s') (RSeg g)" by (rule own_slice [OF assms(2) m'])
  then obtain seg' kg' where g': "cs_segments s' g = Some (seg', kg')" using own_alive [OF assms(2)] by fastforce
  have "seg' = seg" using movesD(5) [OF assms(3) g'] below_brkD(3) [OF assms(4) g] g by simp
  with m' g' rest show ?thesis unfolding mem_holds_def by blast
qed

lemma item_holds_cleared:
  assumes "item_holds E s it v" and "cleared it it'" and "own R s'" and "moves P s s'" and "below_brk s"
    and "cs_items s' p = Some (it', k)"
  shows "item_holds E s' it' v"
proof -
  note H = assms(1) [unfolded item_holds_def]
  have len: "length (ci_blocks it') = length (ci_blocks it)" using assms(2) by (simp add: cleared_def)
  have blk: "blk_disk (ci_blocks it' ! i) \<in> {None, blk_disk (ci_blocks it ! i)}" "blk_mem (ci_blocks it' ! i) \<in> {None, blk_mem (ci_blocks it ! i)}"
    if "i < length (ci_blocks it)" for i using assms(2) that by (simp_all add: cleared_def)
  have "mem_holds E s' m (chunk E v i)" if i: "i < length (ci_blocks it')" "blk_mem (ci_blocks it' ! i) = Some m" for i m
  proof -
    have "mem_holds E s m (chunk E v i)" using H blk(2) [of i] i len by auto
    moreover have "0 < count (R + owners s') (RMem m)"
      by (rule own_block [OF assms(3,6) nth_mem [OF i(1)]]) (simp add: block_refs_def i(2))
    ultimately show ?thesis using mem_holds_moves assms(3-5) by blast
  qed
  moreover have "blk_disk b = None" if b: "b \<in> set (ci_blocks it')" for b
  proof -
    obtain i where i: "i < length (ci_blocks it')" "b = ci_blocks it' ! i" using b by (metis in_set_conv_nth)
    then have "blk_disk (ci_blocks it ! i) = None" using H len by simp
    then show ?thesis using blk(1) [of i] i len by auto
  qed
  moreover have "ci_size it' = length v" using H assms(2) by (simp add: cleared_def)
  ultimately show ?thesis using H len unfolding item_holds_def by simp
qed

text \<open>The step every operation takes: what is left to show of the invariant.\<close>

lemma mem_only_step:
  assumes M: "mem_only E c0 R S s" and "moves P s s'" and "own R' s'" and "acct E c s'" and "below_brk s'"
    and "cs_disk_blocks s' = cs_disk_blocks s"
    and new: "\<And>p it k. cs_items s' p = Some (it, k) \<Longrightarrow> cs_brk s \<le> p \<Longrightarrow> \<exists>v. item_holds E s' it v"
  shows "mem_only E c R' S s'"
proof -
  note M' = mem_onlyD [OF M]
  have "\<exists>v. item_holds E s' it v" if p: "cs_items s' p = Some (it, k)" for p it k
  proof (cases "p < cs_brk s")
    case True
    then obtain it0 k0 where it0: "cs_items s p = Some (it0, k0)" "cleared it0 it" using movesD(7) [OF assms(2) p] by blast
    then obtain v where "item_holds E s it0 v" using M'(4) unfolding items_ok_def by blast
    then show ?thesis using item_holds_cleared [OF _ it0(2) assms(3,2) M'(3) p] by blast
  qed (use new p in auto)
  moreover have "\<exists>it k v. cs_items s' p = Some (it, k) \<and> cachekey2id (ci_cache_key it) = ident \<and>
      (is_released it \<or> S (ci_cache_key it) = Some v) \<and> item_holds E s' it v" if idx: "cs_index s' ident = Some p" for ident p
  proof -
    have "cs_index s ident = Some p" using movesD(8) [OF assms(2)] idx by blast
    then obtain it0 k0 v where it0: "cs_items s p = Some (it0, k0)" "cachekey2id (ci_cache_key it0) = ident"
      "is_released it0 \<or> S (ci_cache_key it0) = Some v" "item_holds E s it0 v" using M'(5) unfolding index_holds_def by blast
    obtain it k where it: "cs_items s' p = Some (it, k)" using own_alive [OF assms(3) own_index [OF assms(3) idx]] by auto
    have "cleared it0 it" using movesD(7) [OF assms(2) it] below_brkD(1) [OF M'(3) it0(1)] it0(1) by auto
    then show ?thesis using it it0 item_holds_cleared [OF it0(4) _ assms(3,2) M'(3) it] by (auto simp: cleared_def)
  qed
  ultimately show ?thesis
    using assms(3-6) M'(6-8) movesD(2,9) [OF assms(2)] unfolding mem_only_def items_ok_def index_holds_def by simp
qed

text \<open>A reference keeps its object.\<close>

lemma mem_only_item:
  assumes "mem_only E c R S s" and "RItem p \<in># R"
  obtains it k v where "cs_items s p = Some (it, k)" and "0 < k" and "item_holds E s it v"
  using own_root(1) [OF mem_onlyD(1) [OF assms(1)] assms(2)] mem_onlyD(4) [OF assms(1)] counted_pos [OF own_heaps(1) [OF mem_onlyD(1) [OF assms(1)]]]
  unfolding items_ok_def by metis

section \<open>Releasing references\<close>

text \<open>An operation that leaves the policies alone too.\<close>

definition still :: "ptr set \<Rightarrow> ('w, 'p, 'q) cache \<Rightarrow> ('w, 'p, 'q) cache \<Rightarrow> bool" where
  "still P s s' \<longleftrightarrow> moves P s s' \<and> cs_mem_policy s' = cs_mem_policy s \<and> cs_disk_policy s' = cs_disk_policy s"

lemma still_refl [simp]: "still P s s"
  by (simp add: still_def)

lemma still_trans: "still P a b \<Longrightarrow> still P b c \<Longrightarrow> still P a c"
  unfolding still_def using moves_trans by metis

lemma stillD:
  assumes "still P s s'" shows "moves P s s'" and "cs_mem_policy s' = cs_mem_policy s" and "cs_disk_policy s' = cs_disk_policy s"
  using assms by (simp_all add: still_def)

lemma dec_mem_used: "ms_used_bytes (dec_mem n m) = ms_used_bytes m - n"
  by (simp add: dec_mem_def Let_def)

lemma inc_mem_used: "inc_mem cfg n urgent m = (b, m') \<Longrightarrow> ms_used_bytes m' = (if b then ms_used_bytes m + n else ms_used_bytes m)"
  by (auto simp: inc_mem_def Let_def split: if_splits)

lemma mem_only_still:
  assumes "mem_only E c0 R S s" and "still P s s'" and "own R' s'" and "acct E c s'" and "cs_brk s' = cs_brk s"
    and "dom (cs_items s') \<subseteq> dom (cs_items s)" and "dom (cs_mem_blocks s') \<subseteq> dom (cs_mem_blocks s)"
    and "dom (cs_segments s') \<subseteq> dom (cs_segments s)" and "cs_disk_blocks s' = cs_disk_blocks s"
  shows "mem_only E c R' S s'"
proof (rule mem_only_step [OF assms(1) stillD(1) [OF assms(2)] assms(3,4) _ assms(9)])
  note B = mem_onlyD(3) [OF assms(1)]
  have *: "p < cs_brk s" if "cs_items s' p = Some x" for p x using that assms(6) below_brkD(1) [OF B] by fastforce
  moreover have "p < cs_brk s" if "cs_mem_blocks s' p = Some x" for p x using that assms(7) below_brkD(2) [OF B] by fastforce
  moreover have "p < cs_brk s" if "cs_segments s' p = Some x" for p x using that assms(8) below_brkD(3) [OF B] by fastforce
  ultimately show "below_brk s'" by (simp add: below_brk_def assms(5))
  show "\<exists>v. item_holds E s' it v" if "cs_items s' p = Some (it, k)" "cs_brk s \<le> p" for p it k using *[OF that(1)] that(2) by simp
qed

lemma release_segment_ok:
  assumes M: "mem_only E c (R + {#RSeg g#}) S s"
  shows "\<exists>s'. release_segment E g s = Some s' \<and> mem_only E c R S s' \<and> still P s s'"
proof -
  note M' = mem_onlyD [OF M]
  obtain seg n where g: "cs_segments s g = Some (seg, n)" using own_root(3) [OF M'(1), of g] by auto
  show ?thesis
  proof (cases "n \<le> 1")
    case True
    let ?s = "s\<lparr>cs_segments := (cs_segments s)(g := None), cs_mem := dec_mem (segment_charge E seg) (cs_mem s)\<rparr>"
    have "own R ?s" by (rule own_cong [OF own_last_seg [OF M'(1) g True]]) simp_all
    moreover have "acct E c ?s"
      using M'(2) heap_sum_in [OF own_heaps(4) [OF M'(1)] g, of "segment_charge E"] by (simp add: acct_def dec_mem_used algebra_simps)
    moreover have st: "still P s ?s" by (auto simp: still_def moves_def)
    ultimately have "mem_only E c R S ?s" by (intro mem_only_still [OF M]) auto
    moreover have "release_segment E g s = Some ?s" using g True by (simp add: release_segment_def drop_ref_def)
    ultimately show ?thesis using st by blast
  next
    case False
    let ?s = "s\<lparr>cs_segments := (cs_segments s)(g \<mapsto> (seg, n - 1))\<rparr>"
    have "own R ?s" by (rule own_less_seg [OF M'(1) g False])
    moreover have "acct E c ?s" using M'(2) g by (simp add: acct_def heap_sum_count)
    moreover have st: "still P s ?s" using g by (auto simp: still_def moves_def)
    ultimately have "mem_only E c R S ?s" using g by (intro mem_only_still [OF M]) auto
    moreover have "release_segment E g s = Some ?s" using g False by (simp add: release_segment_def drop_ref_def)
    ultimately show ?thesis using st by blast
  qed
qed

text \<open>A list of references released one by one.\<close>

lemma release_all_ok:
  assumes "\<And>R a s. mem_only E c (R + {#f a#}) S s \<Longrightarrow> \<exists>s'. g a s = Some s' \<and> mem_only E c R S s' \<and> still P s s'"
    and "mem_only E c (R + sum_list (map (opt_ref f) ps)) S s"
  shows "\<exists>s'. fold_opt (release_opt g) ps s = Some s' \<and> mem_only E c R S s' \<and> still P s s'"
  using assms(2)
proof (induction ps arbitrary: s)
  case (Cons p ps)
  have "\<exists>s1. release_opt g p s = Some s1 \<and> mem_only E c (R + sum_list (map (opt_ref f) ps)) S s1 \<and> still P s s1"
  proof (cases p)
    case (Some a)
    then show ?thesis using assms(1) [of "R + sum_list (map (opt_ref f) ps)" a s] Cons.prems by (simp add: release_opt_def ac_simps)
  qed (use Cons.prems in \<open>simp add: release_opt_def\<close>)
  then obtain s1 where s1: "release_opt g p s = Some s1" "mem_only E c (R + sum_list (map (opt_ref f) ps)) S s1" "still P s s1" by blast
  from Cons.IH [OF s1(2)] s1(1,3) still_trans show ?case by fastforce
qed simp

lemma sum_list_rev_mset: "sum_list (map f (rev xs)) = (sum_list (map f xs) :: 'a multiset)"
  by (induction xs) (simp_all add: ac_simps)

lemma release_mem_block_ok:
  assumes M: "mem_only E c (R + {#RMem m#}) S s"
  shows "\<exists>s'. release_mem_block E m s = Some s' \<and> mem_only E c R S s' \<and> still P s s'"
proof -
  note M' = mem_onlyD [OF M]
  obtain b n where m: "cs_mem_blocks s m = Some (b, n)" using own_root(2) [OF M'(1), of m] by auto
  show ?thesis
  proof (cases "n \<le> 1")
    case True
    let ?s = "s\<lparr>cs_mem_blocks := (cs_mem_blocks s)(m := None)\<rparr>"
    have "own (R + mem_refs b) ?s" by (rule own_last_mem [OF M'(1) m True])
    moreover have "acct E c ?s" using M'(2) by (simp add: acct_def)
    moreover have st: "still P s ?s" by (auto simp: still_def moves_def)
    ultimately have "mem_only E c (R + mem_refs b) S ?s" by (intro mem_only_still [OF M]) auto
    then have "mem_only E c (R + sum_list (map (opt_ref RSeg) (rev (mb_slices b)))) S ?s" by (simp add: mem_refs_def sum_list_rev_mset)
    from release_all_ok [where f = RSeg and g = "release_segment E", OF release_segment_ok this] obtain s' where
      s': "fold_opt (release_opt (release_segment E)) (rev (mb_slices b)) ?s = Some s'" "mem_only E c R S s'" "still P ?s s'" by blast
    moreover have "release_mem_block E m s = Some s'"
      using m True s'(1) by (simp add: release_mem_block_def drop_ref_def Let_def)
    ultimately show ?thesis using still_trans [OF st] by blast
  next
    case False
    let ?s = "s\<lparr>cs_mem_blocks := (cs_mem_blocks s)(m \<mapsto> (b, n - 1))\<rparr>"
    have "own R ?s" by (rule own_less_mem [OF M'(1) m False])
    moreover have "acct E c ?s" using M'(2) by (simp add: acct_def)
    moreover have st: "still P s ?s" using m by (auto simp: still_def moves_def)
    ultimately have "mem_only E c R S ?s" using m by (intro mem_only_still [OF M]) auto
    moreover have "release_mem_block E m s = Some ?s" using m False by (simp add: release_mem_block_def drop_ref_def Let_def)
    ultimately show ?thesis using st by blast
  qed
qed

lemma release_opt_mem_ok:
  assumes "mem_only E c (R + opt_ref RMem p) S s"
  shows "\<exists>s'. release_opt (release_mem_block E) p s = Some s' \<and> mem_only E c R S s' \<and> still P s s'"
  using release_mem_block_ok [of E c R _ S s] assms by (cases p) (simp_all add: release_opt_def)

text \<open>Blocks hold no disk block here.\<close>

lemma release_blocks_ok:
  "mem_only E c (R + sum_list (map block_refs bs)) S s \<Longrightarrow> \<forall>b \<in> set bs. blk_disk b = None \<Longrightarrow>
     \<exists>s'. fold_opt (release_block E) bs s = Some s' \<and> mem_only E c R S s' \<and> still P s s'"
proof (induction bs arbitrary: s)
  case (Cons b bs)
  have d: "blk_disk b = None" using Cons.prems(2) by simp
  have "mem_only E c ((R + sum_list (map block_refs bs)) + opt_ref RMem (blk_mem b)) S s"
  proof -
    have "block_refs b = opt_ref RMem (blk_mem b)" using d by (simp add: block_refs_def)
    then show ?thesis using Cons.prems(1) by (simp add: ac_simps)
  qed
  from release_opt_mem_ok [OF this] obtain s1 where
    s1: "release_opt (release_mem_block E) (blk_mem b) s = Some s1" "mem_only E c (R + sum_list (map block_refs bs)) S s1" "still P s s1" by blast
  have "release_block E b s = Some s1" using d s1(1) by (simp add: release_block_def release_opt_def)
  moreover obtain s2 where "fold_opt (release_block E) bs s1 = Some s2" "mem_only E c R S s2" "still P s1 s2"
    using Cons.IH [OF s1(2)] Cons.prems(2) by auto
  ultimately show ?case using still_trans [OF s1(3)] by auto
qed simp

lemma release_item_ok:
  assumes M: "mem_only E 0 (R + {#RItem p#}) S s"
  shows "\<exists>s'. release_item E p s = Some s' \<and> mem_only E 0 R S s' \<and> still P s s'"
proof -
  note M' = mem_onlyD [OF M]
  obtain it n where p: "cs_items s p = Some (it, n)" using own_root(1) [OF M'(1), of p] by auto
  show ?thesis
  proof (cases "n \<le> 1")
    case True
    let ?s = "s\<lparr>cs_items := (cs_items s)(p := None)\<rparr>"
    have "own (R + item_refs it) ?s" by (rule own_last_item [OF M'(1) p True])
    moreover have "acct E (it_charge E it) ?s"
      using M'(2) heap_sum_in [OF own_heaps(1) [OF M'(1)] p, of "it_charge E"] by (simp add: acct_def algebra_simps)
    moreover have st: "still P s ?s" by (auto simp: still_def moves_def)
    ultimately have "mem_only E (it_charge E it) (R + item_refs it) S ?s" by (intro mem_only_still [OF M]) auto
    then have "mem_only E (it_charge E it) (R + sum_list (map block_refs (rev (ci_blocks it)))) S ?s"
      by (simp add: item_refs_def sum_list_rev_mset)
    moreover obtain v where "item_holds E s it v" using M'(4) p unfolding items_ok_def by blast
    then have "\<forall>b \<in> set (rev (ci_blocks it)). blk_disk b = None" by (simp add: item_holds_def)
    ultimately obtain s1 where
      s1: "fold_opt (release_block E) (rev (ci_blocks it)) ?s = Some s1" "mem_only E (it_charge E it) R S s1" "still P ?s s1"
      using release_blocks_ok by blast
    let ?s2 = "s1\<lparr>cs_mem := dec_mem (it_charge E it) (cs_mem s1)\<rparr>"
    have "own R ?s2" by (rule own_cong [OF mem_onlyD(1) [OF s1(2)]]) simp_all
    moreover have "acct E 0 ?s2" using mem_onlyD(2) [OF s1(2)] by (simp add: acct_def dec_mem_used)
    moreover have st2: "still P s1 ?s2" by (auto simp: still_def moves_def)
    ultimately have "mem_only E 0 R S ?s2" by (intro mem_only_still [OF s1(2)]) auto
    moreover have "release_item E p s = Some ?s2"
      using p True s1(1) by (simp add: release_item_def drop_ref_def Let_def it_charge_def)
    ultimately show ?thesis using still_trans [OF st still_trans [OF s1(3) st2]] by blast
  next
    case False
    let ?s = "s\<lparr>cs_items := (cs_items s)(p \<mapsto> (it, n - 1))\<rparr>"
    have "own R ?s" by (rule own_less_item [OF M'(1) p False])
    moreover have "acct E 0 ?s" using M'(2) p by (simp add: acct_def heap_sum_count)
    moreover have st: "still P s ?s" using p by (auto simp: still_def moves_def)
    ultimately have "mem_only E 0 R S ?s" using p by (intro mem_only_still [OF M]) auto
    moreover have "release_item E p s = Some ?s" using p False by (simp add: release_item_def drop_ref_def Let_def)
    ultimately show ?thesis using st by blast
  qed
qed

lemma release_opt_item_ok:
  assumes "mem_only E 0 (R + opt_ref RItem p) S s"
  shows "\<exists>s'. release_opt (release_item E) p s = Some s' \<and> mem_only E 0 R S s' \<and> still P s s'"
  using release_item_ok [of E R _ S s] assms by (cases p) (simp_all add: release_opt_def)

section \<open>Taking references\<close>

lemma retain_item_ok:
  assumes M: "mem_only E 0 R S s" and p: "cs_items s p = Some (it, n)"
  shows "\<exists>s'. retain_item p s = Some s' \<and> mem_only E 0 (R + {#RItem p#}) S s' \<and> still P s s' \<and> cs_items s' p = Some (it, Suc n)"
proof -
  note M' = mem_onlyD [OF M]
  let ?s = "s\<lparr>cs_items := (cs_items s)(p \<mapsto> (it, Suc n))\<rparr>"
  have "own (R + {#RItem p#}) ?s" by (rule own_retain_item [OF M'(1) p])
  moreover have "acct E 0 ?s" using M'(2) p by (simp add: acct_def heap_sum_count)
  moreover have st: "still P s ?s" using p by (auto simp: still_def moves_def)
  ultimately have "mem_only E 0 (R + {#RItem p#}) S ?s" using p by (intro mem_only_still [OF M]) auto
  then show ?thesis using st p by (simp add: retain_item_def retain_def)
qed

lemma retain_mem_ok:
  assumes M: "mem_only E 0 R S s" and m: "cs_mem_blocks s m = Some (b, n)"
  shows "\<exists>s'. retain_mem_block m s = Some s' \<and> mem_only E 0 (R + {#RMem m#}) S s' \<and> still P s s' \<and> cs_items s' = cs_items s \<and>
    cs_mem_blocks s' m = Some (b, Suc n) \<and> cs_segments s' = cs_segments s"
proof -
  note M' = mem_onlyD [OF M]
  let ?s = "s\<lparr>cs_mem_blocks := (cs_mem_blocks s)(m \<mapsto> (b, Suc n))\<rparr>"
  have "own (R + {#RMem m#}) ?s" by (rule own_retain_mem [OF M'(1) m])
  moreover have "acct E 0 ?s" using M'(2) m by (simp add: acct_def)
  moreover have st: "still P s ?s" using m by (auto simp: still_def moves_def)
  ultimately have "mem_only E 0 (R + {#RMem m#}) S ?s" using m by (intro mem_only_still [OF M]) auto
  then show ?thesis using st m by (simp add: retain_mem_block_def retain_def)
qed

lemma retain_segment_ok:
  assumes M: "mem_only E 0 R S s" and g: "cs_segments s g = Some (sg, n)"
  shows "\<exists>s'. retain_segment g s = Some s' \<and> mem_only E 0 (R + {#RSeg g#}) S s' \<and> still P s s' \<and> cs_items s' = cs_items s \<and>
    cs_mem_blocks s' = cs_mem_blocks s"
proof -
  note M' = mem_onlyD [OF M]
  let ?s = "s\<lparr>cs_segments := (cs_segments s)(g \<mapsto> (sg, Suc n))\<rparr>"
  have "own (R + {#RSeg g#}) ?s" by (rule own_retain_seg [OF M'(1) g])
  moreover have "acct E 0 ?s" using M'(2) g by (simp add: acct_def heap_sum_count)
  moreover have st: "still P s ?s" using g by (auto simp: still_def moves_def)
  ultimately have "mem_only E 0 (R + {#RSeg g#}) S ?s" using g by (intro mem_only_still [OF M]) auto
  then show ?thesis using st g by (simp add: retain_segment_def retain_def)
qed

section \<open>The blocks of an item\<close>

lemma item_alive:
  assumes "mem_only E 0 R S s" and "RItem p \<in># R"
  shows "\<exists>it k v. cs_items s p = Some (it, k) \<and> item_holds E s it v"
  using mem_only_item [OF assms] by metis

lemma item_kept:
  assumes "mem_only E 0 R S s" and "moves P s s'" and "mem_only E 0 R' S' s'" and "RItem p \<in># R'" and "cs_items s p = Some (it, k)"
  shows "\<exists>it' k'. cs_items s' p = Some (it', k') \<and> cleared it it'"
proof -
  obtain it' k' where p': "cs_items s' p = Some (it', k')" using item_alive [OF assms(3,4)] by blast
  have "p < cs_brk s" by (rule below_brkD(1) [OF mem_onlyD(3) [OF assms(1)] assms(5)])
  with movesD(7) [OF assms(2) p'] assms(5) p' show ?thesis by auto
qed

lemma holds_kept:
  assumes "mem_only E 0 R S s" and "moves P s s'" and "mem_only E 0 R' S' s'" and "cs_items s p = Some (it, k)" and "item_holds E s it v"
    and "cs_items s' p = Some (it', k')"
  shows "item_holds E s' it' v"
proof -
  have "p < cs_brk s" by (rule below_brkD(1) [OF mem_onlyD(3) [OF assms(1)] assms(4)])
  then have "cleared it it'" using movesD(7) [OF assms(2,6)] assms(4) by auto
  then show ?thesis using item_holds_cleared assms mem_onlyD by metis
qed

lemma item_holdsD:
  assumes "item_holds E s it v"
  shows "ci_size it = length v" and "v \<noteq> []" and "length v + FLAGS_slice_size (e_cfg E) \<le> 2 ^ 32"
    and "length (ci_blocks it) = block_count (e_cfg E) it"
    and "b \<in> set (ci_blocks it) \<Longrightarrow> blk_disk b = None"
    and "i < length (ci_blocks it) \<Longrightarrow> blk_mem (ci_blocks it ! i) = Some m \<Longrightarrow> mem_holds E s m (chunk E v i)"
  using assms by (simp_all add: item_holds_def block_count_def)

lemma get_block_Some: "cs_items s p = Some (it, k) \<Longrightarrow> i < length (ci_blocks it) \<Longrightarrow> get_block p i s = Some (ci_blocks it ! i)"
  by (simp add: get_block_def get_item_def deref_def)

lemma get_item_Some: "cs_items s p = Some (it, k) \<Longrightarrow> get_item p s = Some it"
  by (simp add: get_item_def deref_def)

lemma mem_block_alive:
  assumes "mem_only E 0 R S s" and "cs_items s p = Some (it, k)" and "i < length (ci_blocks it)" and "blk_mem (ci_blocks it ! i) = Some m"
  shows "\<exists>b n. cs_mem_blocks s m = Some (b, n)"
proof -
  have "0 < count (R + owners s) (RMem m)"
    by (rule own_block [OF mem_onlyD(1) [OF assms(1)] assms(2) nth_mem [OF assms(3)]]) (simp add: block_refs_def assms(4))
  then show ?thesis using own_alive [OF mem_onlyD(1) [OF assms(1)]] by fastforce
qed

lemma mem_block_of_ok:
  assumes M: "mem_only E 0 R S s" and p: "cs_items s p = Some (it, k)" and i: "i < length (ci_blocks it)"
  shows "\<exists>s'. mem_block_of E p i None s = Some (blk_mem (ci_blocks it ! i), s') \<and>
    mem_only E 0 (R + opt_ref RMem (blk_mem (ci_blocks it ! i))) S s' \<and> still P s s' \<and> cs_items s' = cs_items s"
proof (cases "blk_mem (ci_blocks it ! i)")
  case None
  then show ?thesis using M p i by (simp add: mem_block_of_def shared_section_def get_block_Some release_opt_def)
next
  case (Some m)
  obtain b n where "cs_mem_blocks s m = Some (b, n)" using mem_block_alive [OF M p i Some] by blast
  from retain_mem_ok [OF M this, where P = P] show ?thesis
    using Some p i by (auto simp: mem_block_of_def shared_section_def get_block_Some release_opt_def)
qed

lemma disk_block_of_none:
  assumes "cs_items s p = Some (it, k)" and "item_holds E s it v" and "i < length (ci_blocks it)"
  shows "disk_block_of E p i None s = Some (None, s)"
  using item_holdsD(5) [OF assms(2) nth_mem [OF assms(3)]] assms(1,3)
  by (simp add: disk_block_of_def shared_section_def get_block_Some release_opt_def)

lemma sum_list_update_mset:
  "i < length xs \<Longrightarrow> sum_list (map f (xs[i := y])) + f (xs ! i) = sum_list (map f xs) + (f y :: 'a multiset)"
proof (induction xs arbitrary: i)
  case (Cons x xs)
  then show ?case by (cases i) (simp_all add: ac_simps)
qed simp

lemma item_refs_update:
  assumes "i < length (ci_blocks it)"
  shows "item_refs (it\<lparr>ci_blocks := (ci_blocks it)[i := b]\<rparr>) + block_refs (ci_blocks it ! i) = item_refs it + block_refs b"
  using sum_list_update_mset [OF assms, of block_refs b] by (simp add: item_refs_def)

text \<open>Replacing a block gives up the references of the new one and takes over those of the old one.\<close>

lemma own_change_block:
  assumes "own (R + block_refs b) s" and p: "cs_items s p = Some (it, n)" and i: "i < length (ci_blocks it)"
  shows "own (R + block_refs (ci_blocks it ! i)) (s\<lparr>cs_items := (cs_items s)(p \<mapsto> (it\<lparr>ci_blocks := (ci_blocks it)[i := b]\<rparr>, n))\<rparr>)"
proof -
  let ?it = "it\<lparr>ci_blocks := (ci_blocks it)[i := b]\<rparr>"
  have "heap_sum item_refs ((cs_items s)(p \<mapsto> (?it, n))) + item_refs it = heap_sum item_refs (cs_items s) + item_refs ?it"
    by (rule heap_sum_swap [OF own_heaps(1) [OF assms(1)] p])
  then have "heap_sum item_refs ((cs_items s)(p \<mapsto> (?it, n))) + block_refs (ci_blocks it ! i) + item_refs it =
      heap_sum item_refs (cs_items s) + (item_refs ?it + block_refs (ci_blocks it ! i))" by (simp add: ac_simps)
  then have "heap_sum item_refs ((cs_items s)(p \<mapsto> (?it, n))) + block_refs (ci_blocks it ! i) = heap_sum item_refs (cs_items s) + block_refs b"
    unfolding item_refs_update [OF i] by (simp add: ac_simps)
  then have sw: "heap_sum item_refs ((cs_items s)(p \<mapsto> (?it, n))) + block_refs (ci_blocks it ! i) = heap_sum item_refs (cs_items s) + block_refs b" .
  have "0 < n" by (rule counted_pos [OF own_heaps(1) [OF assms(1)] p])
  then show ?thesis
    using count_swap [OF sw] by (intro ownI [OF assms(1)]) (use p own_heaps [OF assms(1)] in \<open>auto simp: own_arith ac_simps\<close>)
qed

lemma heap_sum_same:
  assumes "hp p = Some (x, n)" and "g y = g x"
  shows "heap_sum g (hp(p \<mapsto> (y, k))) = heap_sum g hp"
proof -
  have "dom (hp(p \<mapsto> (y, k))) = dom hp" using assms by auto
  then show ?thesis unfolding heap_sum_def using assms by (intro sum.cong) auto
qed

lemma assign_mem_none_ok:
  assumes M: "mem_only E 0 R S s" and "RItem p \<in># R" and p: "cs_items s p = Some (it, k)" and i: "i < length (ci_blocks it)" and P: "p \<in> P"
  shows "\<exists>s'. assign_mem E p i None s = Some s' \<and> mem_only E 0 R S s' \<and> still P s s'"
proof -
  note M' = mem_onlyD [OF M]
  let ?b = "ci_blocks it ! i"
  let ?it = "it\<lparr>ci_blocks := (ci_blocks it)[i := ?b\<lparr>blk_mem := None\<rparr>]\<rparr>"
  let ?s = "s\<lparr>cs_items := (cs_items s)(p \<mapsto> (?it, k))\<rparr>"
  obtain v where v: "item_holds E s it v" using M'(4) p unfolding items_ok_def by blast
  have d: "blk_disk ?b = None" by (rule item_holdsD(5) [OF v nth_mem [OF i]])
  have "own (R + block_refs (?b\<lparr>blk_mem := None\<rparr>)) s" using M'(1) d by (simp add: block_refs_def)
  from own_change_block [OF this p i] have "own (R + opt_ref RMem (blk_mem ?b)) ?s" using d by (simp add: block_refs_def)
  moreover have "acct E 0 ?s" using M'(2) heap_sum_same [of "cs_items s" p it k "it_charge E" ?it k] p by (simp add: acct_def it_charge_def)
  moreover have "cleared it ?it" using i by (auto simp: cleared_def nth_list_update is_released_def has_state_def)
  then have st: "still P s ?s" using p P by (auto simp: still_def moves_def)
  ultimately have "mem_only E 0 (R + opt_ref RMem (blk_mem ?b)) S ?s" using p by (intro mem_only_still [OF M]) auto
  from release_opt_mem_ok [OF this] obtain s' where
    s': "release_opt (release_mem_block E) (blk_mem ?b) ?s = Some s'" "mem_only E 0 R S s'" "still P ?s s'" by blast
  have "assign_mem E p i None s = Some s'"
    using p i s'(1) get_block_Some [OF p i]
    by (simp add: assign_mem_def release_opt_def put_block_def update_item_def modify_def)
  then show ?thesis using s'(2) still_trans [OF st s'(3)] by blast
qed

lemma assign_disk_none:
  assumes p: "cs_items s p = Some (it, k)" and v: "item_holds E s it v" and i: "i < length (ci_blocks it)"
  shows "assign_disk E p i None s = Some s"
proof -
  have "(ci_blocks it ! i)\<lparr>blk_disk := None\<rparr> = ci_blocks it ! i" using item_holdsD(5) [OF v nth_mem [OF i]] by simp
  then have "it\<lparr>ci_blocks := (ci_blocks it)[i := (ci_blocks it ! i)\<lparr>blk_disk := None\<rparr>]\<rparr> = it" by simp
  moreover have "(cs_items s)(p \<mapsto> (it, k)) = cs_items s" using p by auto
  ultimately show ?thesis
    using p i get_block_Some [OF p i] item_holdsD(5) [OF v nth_mem [OF i]]
    by (simp add: assign_disk_def release_opt_def put_block_def update_item_def modify_def)
qed

lemma clear_block_none_ok:
  assumes M: "mem_only E 0 R S s" and p': "RItem p \<in># R" and p: "cs_items s p = Some (it, k)" and i: "i < length (ci_blocks it)" and P: "p \<in> P"
  shows "\<exists>s'. clear_block E p i None s = Some s' \<and> mem_only E 0 R S s' \<and> still P s s'"
proof -
  obtain s1 where s1: "assign_mem E p i None s = Some s1" "mem_only E 0 R S s1" "still P s s1"
    using assign_mem_none_ok [OF M p' p i P] by blast
  obtain it1 k1 where it1: "cs_items s1 p = Some (it1, k1)" "cleared it it1"
    using item_kept [OF M stillD(1) [OF s1(3)] s1(2) p' p] by blast
  obtain v where "item_holds E s1 it1 v" using mem_onlyD(4) [OF s1(2)] it1(1) unfolding items_ok_def by blast
  then have "assign_disk E p i None s1 = Some s1" using assign_disk_none [OF it1(1)] it1(2) i by (simp add: cleared_def)
  then show ?thesis using s1 by (simp add: clear_block_def with_lock_def)
qed

section \<open>States of an item\<close>

lemma item_flag_ok:
  assumes M: "mem_only E 0 R S s" and p: "cs_items s p = Some (it, k)" and f: "snd (f it) = it\<lparr>ci_state := st\<rparr>"
    and up: "is_released it \<longrightarrow> is_released (it\<lparr>ci_state := st\<rparr>)" and P: "p \<in> P"
  shows "\<exists>s'. item_flag p f s = Some (fst (f it), s') \<and> mem_only E 0 R S s' \<and> still P s s' \<and> cs_items s' p = Some (it\<lparr>ci_state := st\<rparr>, k)"
proof -
  note M' = mem_onlyD [OF M]
  let ?it = "it\<lparr>ci_state := st\<rparr>"
  let ?s = "s\<lparr>cs_items := (cs_items s)(p \<mapsto> (?it, k))\<rparr>"
  have k: "0 < k" by (rule counted_pos [OF own_heaps(1) [OF M'(1)] p])
  have sums: "heap_sum item_refs ((cs_items s)(p \<mapsto> (?it, k))) = heap_sum item_refs (cs_items s)"
    "heap_sum (it_charge E) ((cs_items s)(p \<mapsto> (?it, k))) = heap_sum (it_charge E) (cs_items s)"
    by (rule heap_sum_same [where x = it and n = k]; simp add: p item_refs_def it_charge_def)+
  have "own R ?s" by (rule ownI [OF M'(1)]) (use p k own_heaps [OF M'(1)] in \<open>auto simp: own_arith sums\<close>)
  moreover have "acct E 0 ?s" using M'(2) by (simp add: acct_def sums)
  moreover have "cleared it ?it" using up by (simp add: cleared_def)
  then have st: "still P s ?s" using p P by (auto simp: still_def moves_def)
  ultimately have "mem_only E 0 R S ?s" using p by (intro mem_only_still [OF M]) auto
  then show ?thesis using st p f by (simp add: item_flag_def get_item_Some [OF p] update_item_def modify_def)
qed

lemma state_value_state: "\<exists>w. snd (set_state_value st v it) = it\<lparr>ci_state := w\<rparr>"
  by (simp add: set_state_value_def Let_def) (metis cache_item.surjective cache_item.update_convs(5))

lemma is_released_states: "is_released it \<longleftrightarrow> RELEASED \<in> states_of it"
  by (simp add: is_released_def states_of_def)

text \<open>No operation takes back a release.\<close>

lemma pinned_state:
  "\<exists>st. snd (set_pinned b it) = it\<lparr>ci_state := st\<rparr> \<and> (is_released it \<longrightarrow> is_released (it\<lparr>ci_state := st\<rparr>))"
proof -
  obtain w where w: "snd (set_pinned b it) = it\<lparr>ci_state := w\<rparr>" unfolding set_pinned_def using state_value_state by blast
  have "is_released it \<longrightarrow> is_released (snd (set_pinned b it))" by (simp add: is_released_states set_pinned_def states_of_value)
  with w show ?thesis by metis
qed

lemma released_state:
  "\<exists>st. snd (set_released True it) = it\<lparr>ci_state := st\<rparr> \<and> is_released (it\<lparr>ci_state := st\<rparr>)"
proof -
  obtain w where w: "snd (set_released True it) = it\<lparr>ci_state := w\<rparr>" unfolding set_released_def using state_value_state by blast
  have "is_released (snd (set_released True it))" by (simp add: is_released_states set_released_def states_of_value)
  with w show ?thesis by metis
qed

lemma release_if_empty_state:
  "\<exists>st. snd (release_if_empty it) = it\<lparr>ci_state := st\<rparr> \<and> (is_released it \<longrightarrow> is_released (it\<lparr>ci_state := st\<rparr>))"
proof -
  have "\<exists>st. snd (release_if_empty it) = it\<lparr>ci_state := st\<rparr>"
    by (simp add: release_if_empty_def set_state_def) (metis cache_item.surjective cache_item.update_convs(5))
  moreover have "is_released it \<longrightarrow> is_released (snd (release_if_empty it))" by (simp add: release_if_empty_def)
  ultimately show ?thesis by metis
qed

section \<open>The access index\<close>

lemma index_find_ok:
  assumes M: "mem_only E 0 R S s"
  shows "\<exists>s'. index_find ident s = Some (cs_index s ident, s') \<and> mem_only E 0 (R + opt_ref RItem (cs_index s ident)) S s' \<and> still P s s'"
proof (cases "cs_index s ident")
  case None
  then show ?thesis using M by (simp add: index_find_def phm_find_def if_contains_def release_opt_def)
next
  case (Some p)
  obtain it n where "cs_items s p = Some (it, n)" using mem_onlyD(5) [OF M] Some unfolding index_holds_def by blast
  from retain_item_ok [OF M this, where P = P] show ?thesis
    using Some by (auto simp: index_find_def phm_find_def if_contains_def release_opt_def)
qed

lemma index_remove_ok:
  assumes M: "mem_only E 0 R S s"
  shows "\<exists>b s'. index_remove E ident s = Some (b, s') \<and> mem_only E 0 R S s' \<and> still P s s' \<and> cs_index s' ident = None"
proof -
  note M' = mem_onlyD [OF M]
  let ?s = "s\<lparr>cs_index := (cs_index s)(ident := None)\<rparr>"
  have "own (R + opt_ref RItem (cs_index s ident)) ?s" using own_index_upd [of R None s ident] M'(1) by simp
  moreover have "acct E 0 ?s" using M'(2) by (simp add: acct_def)
  moreover have st: "still P s ?s" by (auto simp: still_def moves_def split: if_splits)
  ultimately have "mem_only E 0 (R + opt_ref RItem (cs_index s ident)) S ?s" by (intro mem_only_still [OF M]) auto
  from release_opt_item_ok [OF this] obtain s' where
    s': "release_opt (release_item E) (cs_index s ident) ?s = Some s'" "mem_only E 0 R S s'" "still P ?s s'" by blast
  have "cs_index s' ident = None"
  proof (cases "cs_index s' ident")
    case (Some q)
    from movesD(8) [OF stillD(1) [OF s'(3)] this] show ?thesis by simp
  qed simp
  moreover have "phm_find ident (cs_index s) = cs_index s ident" "snd (phm_remove ident (cs_index s)) = (cs_index s)(ident := None)"
    by (auto simp: phm_find_def if_contains_def phm_remove_def erase_if_def split: option.splits)
  then have "\<exists>b. index_remove E ident s = Some (b, s')" using s'(1) by (simp add: index_remove_def split: prod.split)
  ultimately show ?thesis using s'(2) still_trans [OF st s'(3)] by blast
qed

end
