(* ===== verification/MemoryEvict.thy ===== *)
theory MemoryEvict
  imports MemoryOnly
begin

text \<open>
  Making room in a cache without a disk layer: removals, evictions and allocations with their retries always
  return, keep the invariant and leave every lock free. The eviction policies enter through their contract.
\<close>

definition policies_ok :: "(nat \<Rightarrow> 'p \<Rightarrow> bool) \<Rightarrow> (nat \<Rightarrow> 'q \<Rightarrow> bool) \<Rightarrow> ('q \<Rightarrow> cache_id set) \<Rightarrow> nat \<Rightarrow> ('w, 'p, 'q) cache \<Rightarrow> bool" where
  "policies_ok minv dinv dtracked n s \<longleftrightarrow>
     minv n (cs_mem_policy s) \<and> dinv 0 (cs_disk_policy s) \<and> dtracked (cs_disk_policy s) = {}"

definition cache_ok ::
    "('w, 'p, 'q) env \<Rightarrow> (nat \<Rightarrow> 'p \<Rightarrow> bool) \<Rightarrow> (nat \<Rightarrow> 'q \<Rightarrow> bool) \<Rightarrow> ('q \<Rightarrow> cache_id set) \<Rightarrow> nat \<Rightarrow> ref multiset
       \<Rightarrow> (cache_key \<rightharpoonup> bytes) \<Rightarrow> ('w, 'p, 'q) cache \<Rightarrow> bool" where
  "cache_ok E minv dinv dtracked n R S s \<longleftrightarrow>
     mem_only E 0 R S s \<and> policies_ok minv dinv dtracked n s \<and> cs_locks s = (\<lambda>i. Free)"

section \<open>Locks and policies leave the objects alone\<close>

lemma mem_only_fields [simp]:
  "mem_only E c R S (s\<lparr>cs_locks := L\<rparr>) = mem_only E c R S s"
  "mem_only E c R S (s\<lparr>cs_mem_policy := pm\<rparr>) = mem_only E c R S s"
  "mem_only E c R S (s\<lparr>cs_disk_policy := pd\<rparr>) = mem_only E c R S s"
  "mem_only E c R S (s\<lparr>cs_asked := a\<rparr>) = mem_only E c R S s"
  "mem_only E c R S (s\<lparr>cs_concurrent_writes := w\<rparr>) = mem_only E c R S s"
proof -
  have *: "mem_only E c R S t" if "mem_only E c R S s" "cs_items t = cs_items s" "cs_mem_blocks t = cs_mem_blocks s"
    "cs_disk_blocks t = cs_disk_blocks s" "cs_segments t = cs_segments s" "cs_index t = cs_index s" "cs_brk t = cs_brk s"
    "cs_mem t = cs_mem s" "cs_options t = cs_options s" "cs_disk t = cs_disk s" for s t :: "('a, 'b, 'c) cache"
    using that own_cong [OF mem_onlyD(1) [OF that(1)], of t]
    unfolding mem_only_def acct_def below_brk_def items_ok_def index_holds_def item_holds_def mem_holds_def by simp
  show "mem_only E c R S (s\<lparr>cs_locks := L\<rparr>) = mem_only E c R S s"
    using * [of s "s\<lparr>cs_locks := L\<rparr>"] * [of "s\<lparr>cs_locks := L\<rparr>" s] by auto
  show "mem_only E c R S (s\<lparr>cs_mem_policy := pm\<rparr>) = mem_only E c R S s"
    using * [of s "s\<lparr>cs_mem_policy := pm\<rparr>"] * [of "s\<lparr>cs_mem_policy := pm\<rparr>" s] by auto
  show "mem_only E c R S (s\<lparr>cs_disk_policy := pd\<rparr>) = mem_only E c R S s"
    using * [of s "s\<lparr>cs_disk_policy := pd\<rparr>"] * [of "s\<lparr>cs_disk_policy := pd\<rparr>" s] by auto
  show "mem_only E c R S (s\<lparr>cs_asked := a\<rparr>) = mem_only E c R S s"
    using * [of s "s\<lparr>cs_asked := a\<rparr>"] * [of "s\<lparr>cs_asked := a\<rparr>" s] by auto
  show "mem_only E c R S (s\<lparr>cs_concurrent_writes := w\<rparr>) = mem_only E c R S s"
    using * [of s "s\<lparr>cs_concurrent_writes := w\<rparr>"] * [of "s\<lparr>cs_concurrent_writes := w\<rparr>" s] by auto
qed

lemma moves_policy [simp]: "moves P s (s\<lparr>cs_mem_policy := pm\<rparr>)" "moves P s (s\<lparr>cs_disk_policy := pd\<rparr>)" "moves P s (s\<lparr>cs_asked := a\<rparr>)"
  unfolding moves_def using cleared_refl by auto

text \<open>A critical section of a unique lock.\<close>

definition in_section :: "config \<Rightarrow> block_key \<Rightarrow> ('w, 'p, 'q) cache \<Rightarrow> ('w, 'p, 'q) cache" where
  "in_section cfg key s = s\<lparr>cs_locks := (\<lambda>i. Free)(mutex_of cfg key := Exclusive)\<rparr>"

lemma lock_unique_ok:
  assumes "cs_locks s = (\<lambda>i. Free)"
  shows "lock_unique E key s = Some (in_section (e_cfg E) key s)"
  using assms by (simp add: lock_unique_def in_section_def Let_def)

lemma in_section_simps [simp]:
  "mem_only E c R S (in_section cfg key s) = mem_only E c R S s"
  "policies_ok minv dinv dtracked n (in_section cfg key s) = policies_ok minv dinv dtracked n s"
  "cs_items (in_section cfg key s) = cs_items s" "cs_mem_blocks (in_section cfg key s) = cs_mem_blocks s"
  "cs_segments (in_section cfg key s) = cs_segments s" "cs_index (in_section cfg key s) = cs_index s"
  "cs_brk (in_section cfg key s) = cs_brk s"
  by (simp_all add: in_section_def policies_ok_def)

lemma free_upd [simp]: "(\<lambda>i. Free)(k := Free) = (\<lambda>i. Free)"
  by (rule ext) simp

text \<open>Leaving the section.\<close>

lemma unlock_unique_ok:
  assumes "cs_locks s = (\<lambda>i. Free)" and "moves P (in_section (e_cfg E) key s) s2"
  shows "\<exists>s3. unlock_unique E key s2 = Some s3 \<and> s3 = s2\<lparr>cs_locks := \<lambda>i. Free\<rparr> \<and> moves P s s3"
proof -
  have L: "cs_locks s2 = (\<lambda>i. Free)(mutex_of (e_cfg E) key := Exclusive)" using movesD(3) [OF assms(2)] by (simp add: in_section_def)
  then have "unlock_unique E key s2 = Some (s2\<lparr>cs_locks := \<lambda>i. Free\<rparr>)" by (simp add: unlock_unique_def Let_def)
  moreover have "moves P s (s2\<lparr>cs_locks := \<lambda>i. Free\<rparr>)" using assms by (simp add: moves_def in_section_def)
  ultimately show ?thesis by blast
qed

section \<open>The cache over two eviction policies\<close>

locale memory_cache = mem: eviction_policy "e_mem_ops E" minv mtracked mholds + disk: eviction_policy "e_disk_ops E" dinv dtracked dholds
  for E :: "('w, 'p, 'q) env" and minv mtracked mholds dinv dtracked dholds +
  assumes ext: "ext_ok (e_ext E)" and cfg: "config_ok (e_cfg E)" and memalign: "memalign_ok (os_memalign (e_os E))"
begin

abbreviation good :: "nat \<Rightarrow> ref multiset \<Rightarrow> (cache_key \<rightharpoonup> bytes) \<Rightarrow> ('w, 'p, 'q) cache \<Rightarrow> bool" where
  "good \<equiv> cache_ok E minv dinv dtracked"

lemma goodD:
  assumes "good n R S s"
  shows "mem_only E 0 R S s" and "policies_ok minv dinv dtracked n s" and "cs_locks s = (\<lambda>i. Free)"
  using assms by (simp_all add: cache_ok_def)

lemma good_mono: "good (Suc n) R S s \<Longrightarrow> good n R S s"
  using mem.inv_mono by (auto simp: cache_ok_def policies_ok_def)

lemma good_still:
  assumes "good n R S s" and "mem_only E 0 R' S' s'" and "still P s s'"
  shows "good n R' S' s'"
  using assms(1,2) stillD [OF assms(3)] movesD(3) [OF stillD(1) [OF assms(3)]] by (simp add: cache_ok_def policies_ok_def)

text \<open>The invariant inside the section of a lock.\<close>

lemma leave_section:
  assumes "good n R S s" and "moves P (in_section (e_cfg E) key s) s2" and "mem_only E 0 R' S s2" and "policies_ok minv dinv dtracked n' s2"
  shows "\<exists>s3. unlock_unique E key s2 = Some s3 \<and> good n' R' S s3 \<and> moves P s s3 \<and> cs_items s3 = cs_items s2 \<and> cs_index s3 = cs_index s2"
  using unlock_unique_ok [OF goodD(3) [OF assms(1)] assms(2)] assms(3,4) by (auto simp: cache_ok_def policies_ok_def)

lemma still_policies: "still P s s' \<Longrightarrow> policies_ok minv dinv dtracked n s \<Longrightarrow> policies_ok minv dinv dtracked n s'"
  by (simp add: policies_ok_def stillD)

lemma untrack_ok:
  assumes "mem_only E 0 R S s" and "policies_ok minv dinv dtracked n s"
  shows "\<exists>s'. mem_evict_untrack E key s = Some s' \<and> mem_only E 0 R S s' \<and> policies_ok minv dinv dtracked n s' \<and> moves P s s'"
proof -
  obtain p where p: "p_remove (e_mem_ops E) key (cs_mem_policy s) = Some p" "minv n p"
    using mem.remove_law assms(2) unfolding policies_ok_def by blast
  let ?s = "s\<lparr>cs_mem_policy := p\<rparr>"
  have "mem_evict_untrack E key s = Some ?s" using p(1) by (simp add: mem_evict_untrack_def)
  moreover have "policies_ok minv dinv dtracked n ?s" using p(2) assms(2) by (simp add: policies_ok_def)
  ultimately show ?thesis using assms(1) by (intro exI [of _ ?s]) simp
qed

lemma disk_untrack_ok:
  assumes "good n R S s"
  shows "\<exists>s'. disk_evict_untrack E ident s = Some s' \<and> good n R S s' \<and> moves P s s' \<and> cs_index s' = cs_index s"
proof -
  note G = goodD [OF assms]
  obtain p where p: "p_remove (e_disk_ops E) ident (cs_disk_policy s) = Some p" "dinv 0 p" "dtracked p = {}"
    using disk.remove_law [of 0 "cs_disk_policy s" ident] G(2) unfolding policies_ok_def by auto
  let ?s = "s\<lparr>cs_disk_policy := p\<rparr>"
  have "disk_evict_untrack E ident s = Some ?s" using p(1) by (simp add: disk_evict_untrack_def)
  moreover have "good n R S ?s" using p G by (simp add: cache_ok_def policies_ok_def)
  ultimately show ?thesis by (intro exI [of _ ?s]) simp
qed

text \<open>On disk nothing is tracked: a touch misses, at no cost to the reference counts.\<close>

lemma disk_touch_ok:
  assumes "good n R S s"
  shows "\<exists>s'. disk_evict_touch E ident True s = Some (None, s') \<and> good n R S s' \<and> moves P s s' \<and> cs_items s' = cs_items s"
proof -
  note G = goodD [OF assms]
  obtain p where p: "p_touch (e_disk_ops E) ident (cs_disk_policy s) = Some (None, p)" "dinv 0 p" "dtracked p = {}"
    using disk.touch_miss_law [of 0 "cs_disk_policy s" ident] G(2) unfolding policies_ok_def by auto
  let ?s = "s\<lparr>cs_disk_policy := p\<rparr>"
  have "disk_evict_touch E ident True s = Some (None, ?s)" using p(1) by (simp add: disk_evict_touch_def)
  moreover have "good n R S ?s" using p G by (simp add: cache_ok_def policies_ok_def)
  ultimately show ?thesis by (intro exI [of _ ?s]) simp
qed

section \<open>Removing an item\<close>

lemma remove_block_ok:
  assumes G: "good n R S s" and p: "RItem p \<in># R" "cs_items s p = Some (it, k)" and i: "i < length (ci_blocks it)" and P: "p \<in> P"
  shows "\<exists>s'. remove_block E ident p i s = Some s' \<and> good n R S s' \<and> moves P s s'"
proof -
  let ?key = "block_key_of ident i"
  let ?s = "in_section (e_cfg E) ?key s"
  note G' = goodD [OF G]
  obtain s1 where s1: "clear_block E p i None ?s = Some s1" "mem_only E 0 R S s1" "still P ?s s1"
    using clear_block_none_ok [of E R S ?s p it k i P] G'(1) p i P by auto
  obtain s2 where s2: "mem_evict_untrack E ?key s1 = Some s2" "mem_only E 0 R S s2" "policies_ok minv dinv dtracked n s2" "moves P s1 s2"
    using untrack_ok [OF s1(2) still_policies [OF s1(3)], of n ?key P] G'(2) by auto
  obtain s3 where s3: "unlock_unique E ?key s2 = Some s3" "good n R S s3" "moves P s s3"
    using leave_section [OF G moves_trans [OF stillD(1) [OF s1(3)] s2(4)] s2(2,3)] by blast
  have "remove_block E ident p i s = Some s3"
    using lock_unique_ok [OF G'(3)] s1(1) s2(1) s3(1) by (simp add: remove_block_def)
  then show ?thesis using s3 by blast
qed

lemma remove_blocks_ok:
  assumes G: "good n R S s" and p: "RItem p \<in># R" "cs_items s p = Some (it, k)" and P: "p \<in> P"
  shows "\<exists>s'. fold_opt (remove_block E ident p) [0..<length (ci_blocks it)] s = Some s' \<and> good n R S s' \<and> moves P s s'"
proof (rule fold_opt_total [where I = "\<lambda>t. good n R S t \<and> moves P s t"])
  fix i t assume i: "i \<in> set [0..<length (ci_blocks it)]" and t: "good n R S t \<and> moves P s t"
  obtain it' k' where it': "cs_items t p = Some (it', k')" "cleared it it'"
    using item_kept [OF goodD(1) [OF G] _ goodD(1) p] t by blast
  then have "i < length (ci_blocks it')" using i by (simp add: cleared_def)
  from remove_block_ok [OF _ p(1) it'(1) this P] t show "\<exists>t'. remove_block E ident p i t = Some t' \<and> good n R S t' \<and> moves P s t'"
    using moves_trans by blast
qed (use G in simp)

lemma remove_cache_item_ok:
  assumes G: "good n R S s" and p: "RItem p \<in># R" and P: "p \<in> P"
  shows "\<exists>s'. remove_cache_item E ident p s = Some s' \<and> good n R S s' \<and> moves P s s' \<and> cs_index s' ident = None"
proof -
  obtain b s1 where s1: "index_remove E ident s = Some (b, s1)" "mem_only E 0 R S s1" "still P s s1" "cs_index s1 ident = None"
    using index_remove_ok [OF goodD(1) [OF G]] by blast
  have G1: "good n R S s1" by (rule good_still [OF G s1(2,3)])
  obtain it k v where it: "cs_items s1 p = Some (it, k)" "item_holds E s1 it v" using item_alive [OF s1(2) p] by blast
  obtain s2 where s2: "fold_opt (remove_block E ident p) [0..<length (ci_blocks it)] s1 = Some s2" "good n R S s2" "moves P s1 s2"
    using remove_blocks_ok [OF G1 p it(1) P] by blast
  obtain s3 where s3: "disk_evict_untrack E ident s2 = Some s3" "good n R S s3" "moves P s2 s3" "cs_index s3 = cs_index s2"
    using disk_untrack_ok [OF s2(2)] by blast
  have "remove_cache_item E ident p s = Some s3"
    using s1(1) s2(1) s3(1) get_item_Some [OF it(1)] item_holdsD(4) [OF it(2)] by (simp add: remove_cache_item_def)
  moreover have "cs_index s3 ident = None" using movesD(8) [OF s2(3)] s1(4) s3(4) by (cases "cs_index s2 ident") auto
  moreover have "moves P s s3" by (rule moves_trans [OF stillD(1) [OF s1(3)] moves_trans [OF s2(3) s3(3)]])
  ultimately show ?thesis using s3(2) by blast
qed

section \<open>Evicting\<close>

lemma clear_block_locked:
  "clear_block E p i (Some key) s = do { s \<leftarrow> lock_unique E key s; s \<leftarrow> clear_block E p i None s; unlock_unique E key s }"
  by (simp add: clear_block_def with_lock_def)

lemma clear_block_locked_ok:
  assumes G: "good n R S s" and p: "RItem p \<in># R" "cs_items s p = Some (it, k)" and i: "i < length (ci_blocks it)" and P: "p \<in> P"
  shows "\<exists>s'. clear_block E p i (Some key) s = Some s' \<and> good n R S s' \<and> moves P s s'"
proof -
  let ?s = "in_section (e_cfg E) key s"
  note G' = goodD [OF G]
  obtain s1 where s1: "clear_block E p i None ?s = Some s1" "mem_only E 0 R S s1" "still P ?s s1"
    using clear_block_none_ok [of E R S ?s p it k i P] G'(1) p i P by auto
  obtain s3 where s3: "unlock_unique E key s1 = Some s3" "good n R S s3" "moves P s s3"
    using leave_section [OF G stillD(1) [OF s1(3)] s1(2) still_policies [OF s1(3)]] G'(2) by auto
  have "clear_block E p i (Some key) s = Some s3"
    using lock_unique_ok [OF G'(3)] s1(1) s3(1) by (simp add: clear_block_locked)
  then show ?thesis using s3 by blast
qed

lemma delete_block_ok:
  assumes G: "good n R S s" and p: "RItem p \<in># R" "cs_items s p = Some (it, k)" and i: "key_index key < length (ci_blocks it)" and P: "p \<in> P"
  shows "\<exists>s'. delete_block E p key s = Some (OK, s') \<and> good n R S s' \<and> moves P s s'"
proof -
  obtain s1 where s1: "clear_block E p (key_index key) (Some key) s = Some s1" "good n R S s1" "moves P s s1"
    using clear_block_locked_ok [OF G p i P] by blast
  obtain it1 k1 where it1: "cs_items s1 p = Some (it1, k1)" using item_alive [OF goodD(1) [OF s1(2)] p(1)] by blast
  obtain st where "snd (release_if_empty it1) = it1\<lparr>ci_state := st\<rparr>" "is_released it1 \<longrightarrow> is_released (it1\<lparr>ci_state := st\<rparr>)"
    using release_if_empty_state by blast
  from item_flag_ok [OF goodD(1) [OF s1(2)] it1, of release_if_empty, OF this P] obtain s2 where
    s2: "item_flag p release_if_empty s1 = Some (fst (release_if_empty it1), s2)" "mem_only E 0 R S s2" "still P s1 s2" by blast
  have G2: "good n R S s2" by (rule good_still [OF s1(2) s2(2,3)])
  have M2: "moves P s s2" by (rule moves_trans [OF s1(3) stillD(1) [OF s2(3)]])
  show ?thesis
  proof (cases "fst (release_if_empty it1)")
    case True
    obtain s3 where "remove_cache_item E (bk_cache_id key) p s2 = Some s3" "good n R S s3" "moves P s2 s3"
      using remove_cache_item_ok [OF G2 p(1) P] by blast
    then show ?thesis using s1(1) s2(1) True moves_trans [OF M2] by (simp add: delete_block_def)
  next
    case False
    then show ?thesis using s1(1) s2(1) G2 M2 by (simp add: delete_block_def)
  qed
qed

lemma no_disk_layer: "mem_only E c R S s \<Longrightarrow> \<not> has_disk_layer s"
  by (simp add: has_disk_layer_def mem_onlyD(7))

lemma flush_mem_block_ok:
  assumes G: "good n R S s" and p: "RItem p \<in># R" "cs_items s p = Some (it, k)" and i: "key_index key < length (ci_blocks it)" and P: "p \<in> P"
  shows "\<exists>s'. flush_mem_block E p key m h s = Some (OK, s') \<and> good n R S s' \<and> moves P s s'"
  using delete_block_ok [OF assms] no_disk_layer [OF goodD(1) [OF G]] get_item_Some [OF p(2)] G
  by (cases "is_pinned it") (simp_all add: flush_mem_block_def Let_def)

lemma flush_block_ok:
  assumes G: "good n R S s" and p: "RItem p \<in># R" "cs_items s p = Some (it, k)" and i: "key_index key < length (ci_blocks it)" and P: "p \<in> P"
  shows "\<exists>st s'. flush_block E p key s = Some (st, s') \<and> good n R S s' \<and> moves P s s'"
proof (cases "is_released it")
  case True
  then show ?thesis using get_item_Some [OF p(2)] G by (simp add: flush_block_def)
next
  case False
  obtain s1 where s1: "disk_evict_touch E (bk_cache_id key) True s = Some (None, s1)" "good n R S s1" "moves P s s1" "cs_items s1 = cs_items s"
    using disk_touch_ok [OF G] by blast
  have it1: "cs_items s1 p = Some (it, k)" using s1(4) p(2) by simp
  show ?thesis
  proof (cases "blk_mem (ci_blocks it ! key_index key)")
    case None
    then show ?thesis using False s1 get_item_Some [OF p(2)] get_block_Some [OF it1 i]
      by (simp add: flush_block_def disk_drop_handle_def handle_release_def)
  next
    case (Some m)
    obtain b j where "cs_mem_blocks s1 m = Some (b, j)" using mem_block_alive [OF goodD(1) [OF s1(2)] it1 i Some] by blast
    from retain_mem_ok [OF goodD(1) [OF s1(2)] this] obtain s2 where
      s2: "retain_mem_block m s1 = Some s2" "mem_only E 0 (R + {#RMem m#}) S s2" "still P s1 s2" "cs_items s2 = cs_items s1" by blast
    have G2: "good n (R + {#RMem m#}) S s2" by (rule good_still [OF s1(2) s2(2,3)])
    have "RItem p \<in># R + {#RMem m#}" "cs_items s2 p = Some (it, k)" using p(1) it1 s2(4) by simp_all
    from flush_mem_block_ok [OF G2 this i P] obtain s3 where
      s3: "flush_mem_block E p key m None s2 = Some (OK, s3)" "good n (R + {#RMem m#}) S s3" "moves P s2 s3" by blast
    obtain s4 where s4: "release_mem_block E m s3 = Some s4" "mem_only E 0 R S s4" "still P s3 s4"
      using release_mem_block_ok [OF goodD(1) [OF s3(2)]] by blast
    have "good n R S s4" by (rule good_still [OF s3(2) s4(2,3)])
    moreover have "moves P s s4"
      by (rule moves_trans [OF s1(3) moves_trans [OF stillD(1) [OF s2(3)] moves_trans [OF s3(3) stillD(1) [OF s4(3)]]]])
    moreover have "flush_block E p key s = Some (OK, s4)"
      using False Some s1(1) s2(1) s3(1) s4(1) get_item_Some [OF p(2)] get_block_Some [OF it1 i]
      by (simp add: flush_block_def disk_drop_handle_def handle_release_def)
    ultimately show ?thesis by blast
  qed
qed

text \<open>The evicted key may be stale: its item or its block may be gone.\<close>

lemma evict_block_of_item_ok:
  assumes G: "good n R S s" and p: "RItem p \<in># R" and P: "p \<in> P"
  shows "\<exists>s'. evict_block_of_item E p key s = Some s' \<and> good n R S s' \<and> moves P s s'"
proof -
  let ?s = "in_section (e_cfg E) key s"
  let ?i = "key_index key"
  note G' = goodD [OF G]
  obtain it k v where it: "cs_items s p = Some (it, k)" "item_holds E s it v" using item_alive [OF G'(1) p] by blast
  have lock: "lock_unique E key s = Some ?s" by (rule lock_unique_ok [OF G'(3)])
  have get: "get_item p ?s = Some it" by (rule get_item_Some) (simp add: it)
  have len: "length (ci_blocks it) = block_count (e_cfg E) it" by (rule item_holdsD(4) [OF it(2)])
  have M: "mem_only E 0 R S ?s" using G'(1) by simp
  show ?thesis
  proof (cases "block_count (e_cfg E) it \<le> ?i")
    case True
    obtain s3 where "unlock_unique E key ?s = Some s3" "good n R S s3" "moves P s s3"
      using leave_section [OF G moves_refl M] G'(2) by auto
    then show ?thesis using lock get True by (simp add: evict_block_of_item_def)
  next
    case False
    then have i: "?i < length (ci_blocks it)" using len by simp
    have it': "cs_items ?s p = Some (it, k)" using it by simp
    obtain s1 where s1: "mem_block_of E p ?i None ?s = Some (blk_mem (ci_blocks it ! ?i), s1)"
      "mem_only E 0 (R + opt_ref RMem (blk_mem (ci_blocks it ! ?i))) S s1" "still P ?s s1" "cs_items s1 = cs_items ?s"
      using mem_block_of_ok [OF M it' i] by blast
    have P1: "policies_ok minv dinv dtracked n s1" by (rule still_policies [OF s1(3)]) (use G'(2) in simp)
    obtain s3 where s3: "unlock_unique E key s1 = Some s3" "good n (R + opt_ref RMem (blk_mem (ci_blocks it ! ?i))) S s3" "moves P s s3"
      "cs_items s3 = cs_items s1"
      using leave_section [OF G stillD(1) [OF s1(3)] s1(2) P1] by blast
    show ?thesis
    proof (cases "blk_mem (ci_blocks it ! ?i)")
      case None
      then show ?thesis using lock get False s1(1) s3 by (simp add: evict_block_of_item_def)
    next
      case (Some m)
      have it1: "cs_items s1 p = Some (it, k)" "cs_items s3 p = Some (it, k)" using s1(4) s3(4) it by simp_all
      obtain b j where b: "cs_mem_blocks s1 m = Some (b, j)" using mem_block_alive [OF s1(2) it1(1) i Some] by blast
      have d: "blk_disk (ci_blocks it ! ?i) = None" by (rule item_holdsD(5) [OF it(2) nth_mem [OF i]])
      have G3: "good n (R + {#RMem m#}) S s3" using s3(2) Some by simp
      have "RItem p \<in># R + {#RMem m#}" using p by simp
      from flush_block_ok [OF G3 this it1(2) i P] obtain st s4 where
        s4: "flush_block E p key s3 = Some (st, s4)" "good n (R + {#RMem m#}) S s4" "moves P s3 s4" by blast
      obtain s5 where s5: "release_mem_block E m s4 = Some s5" "mem_only E 0 R S s5" "still P s4 s5"
        using release_mem_block_ok [OF goodD(1) [OF s4(2)]] by blast
      have "good n R S s5" by (rule good_still [OF s4(2) s5(2,3)])
      moreover have "moves P s s5" by (rule moves_trans [OF s3(3) moves_trans [OF s4(3) stillD(1) [OF s5(3)]]])
      moreover have "deref (cs_mem_blocks s1) m = Some b" using b by (simp add: deref_def)
      then have "evict_block_of_item E p key s = Some s5"
        using lock get False s1(1) s3(1) s4(1) s5(1) Some d get_block_Some [OF it1(1) i] by (simp add: evict_block_of_item_def)
      ultimately show ?thesis by blast
    qed
  qed
qed

lemma evict_mem_key_ok:
  assumes G: "good n R S s" and P: "ran (cs_index s) \<subseteq> P"
  shows "\<exists>s'. evict_mem_key E key s = Some s' \<and> good n R S s' \<and> moves P s s'"
proof -
  obtain s1 where s1: "index_find (bk_cache_id key) s = Some (cs_index s (bk_cache_id key), s1)"
    "mem_only E 0 (R + opt_ref RItem (cs_index s (bk_cache_id key))) S s1" "still P s s1" using index_find_ok [OF goodD(1) [OF G]] by blast
  have G1: "good n (R + opt_ref RItem (cs_index s (bk_cache_id key))) S s1" by (rule good_still [OF G s1(2,3)])
  show ?thesis
  proof (cases "cs_index s (bk_cache_id key)")
    case None
    then show ?thesis using s1(1) G1 stillD(1) [OF s1(3)] by (simp add: evict_mem_key_def)
  next
    case (Some p)
    have G1': "good n (R + {#RItem p#}) S s1" using G1 Some by simp
    have "p \<in> P" using Some P by (auto simp: ran_def)
    then obtain s2 where s2: "evict_block_of_item E p key s1 = Some s2" "good n (R + {#RItem p#}) S s2" "moves P s1 s2"
      using evict_block_of_item_ok [OF G1', of p P key] by auto
    obtain s3 where s3: "release_item E p s2 = Some s3" "mem_only E 0 R S s3" "still P s2 s3"
      using release_item_ok [OF goodD(1) [OF s2(2)]] by blast
    have "good n R S s3" by (rule good_still [OF s2(2) s3(2,3)])
    moreover have "moves P s s3" by (rule moves_trans [OF stillD(1) [OF s1(3)] moves_trans [OF s2(3) stillD(1) [OF s3(3)]]])
    ultimately show ?thesis using s1(1) s2(1) s3(1) Some by (simp add: evict_mem_key_def)
  qed
qed

lemma process_evicted_ok:
  assumes G: "good n R S s" and P: "ran (cs_index s) \<subseteq> P"
  shows "\<exists>s'. process_evicted_mem_blocks E evicted s = Some s' \<and> good n R S s' \<and> moves P s s'"
  unfolding process_evicted_mem_blocks_def
proof (rule fold_opt_total [where I = "\<lambda>t. good n R S t \<and> moves P s t"])
  fix key t assume t: "good n R S t \<and> moves P s t"
  then have "ran (cs_index t) \<subseteq> ran (cs_index s)" using movesD(8) by (fastforce simp: ran_def)
  then have "ran (cs_index t) \<subseteq> P" using P by blast
  with t show "\<exists>t'. evict_mem_key E key t = Some t' \<and> good n R S t' \<and> moves P s t'" using evict_mem_key_ok moves_trans by blast
qed (use G in simp)

lemma new_mem_policy_ok: "good n R S s \<Longrightarrow> minv n p \<Longrightarrow> good n R S (s\<lparr>cs_mem_policy := p\<rparr>)"
  by (simp add: cache_ok_def policies_ok_def)

lemma evict_mem_block_ok:
  assumes G: "good n R S s" and P: "ran (cs_index s) \<subseteq> P"
  shows "\<exists>s'. evict_mem_block E sz s = Some s' \<and> good n R S s' \<and> moves P s s'"
proof -
  have "minv n (cs_mem_policy s)" using goodD(2) [OF G] by (simp add: policies_ok_def)
  from mem.evict_law [OF this, of "to_u64 (sz * FLAGS_mem_evict_times (e_cfg E))" "[]"] obtain out p where
    p: "p_evict (e_mem_ops E) (to_u64 (sz * FLAGS_mem_evict_times (e_cfg E))) [] (cs_mem_policy s) = Some (out, p)" "minv n p" by auto
  obtain s' where "process_evicted_mem_blocks E out (s\<lparr>cs_mem_policy := p\<rparr>) = Some s'" "good n R S s'" "moves P (s\<lparr>cs_mem_policy := p\<rparr>) s'"
    using process_evicted_ok [OF new_mem_policy_ok [OF G p(2)], of P out] P by auto
  then show ?thesis using p(1) moves_trans [OF moves_policy(1)] by (fastforce simp: evict_mem_block_def mem_evict_def)
qed

lemma evict_for_mem_block_ok:
  assumes G: "good n R S s" and P: "ran (cs_index s) \<subseteq> P"
  shows "\<exists>s'. evict_for_mem_block E key sz s = Some s' \<and> good n R S s' \<and> moves P s s'"
proof -
  have "minv n (cs_mem_policy s)" using goodD(2) [OF G] by (simp add: policies_ok_def)
  from mem.evict_for_law [OF this, of key "to_u64 (sz * FLAGS_mem_evict_times (e_cfg E))" "[]"] obtain out p where
    p: "p_evict_for (e_mem_ops E) key (to_u64 (sz * FLAGS_mem_evict_times (e_cfg E))) [] (cs_mem_policy s) = Some (out, p)" "minv n p" by auto
  have G1: "good n R S (s\<lparr>cs_mem_policy := p\<rparr>)" by (rule new_mem_policy_ok [OF G p(2)])
  show ?thesis
  proof (cases "out = []")
    case True
    then show ?thesis using p(1) G1 by (simp add: evict_for_mem_block_def mem_evict_for_def)
  next
    case False
    obtain s' where "process_evicted_mem_blocks E out (s\<lparr>cs_mem_policy := p\<rparr>) = Some s'" "good n R S s'" "moves P (s\<lparr>cs_mem_policy := p\<rparr>) s'"
      using process_evicted_ok [OF G1, of P out] P by auto
    then show ?thesis using p(1) False moves_trans [OF moves_policy(1)] by (fastforce simp: evict_for_mem_block_def mem_evict_for_def)
  qed
qed

end

end
