(* ===== verification/MemoryWrite.thy ===== *)
theory MemoryWrite
  imports MemoryEvict
begin

text \<open>
  Allocation and the write path of a cache without a disk layer: what a successful \<^verbatim>\<open>set\<close> leaves in memory is the
  value, and the index finds it.
\<close>

section \<open>New objects\<close>

lemma mem_only_mem:
  assumes "mem_only E c R S s" and "ms_used_bytes m = ms_used_bytes (cs_mem s)"
  shows "mem_only E c R S (s\<lparr>cs_mem := m\<rparr>)"
  using assms own_cong [OF mem_onlyD(1) [OF assms(1)], of "s\<lparr>cs_mem := m\<rparr>"]
  unfolding mem_only_def acct_def below_brk_def items_ok_def index_holds_def item_holds_def mem_holds_def by simp

lemma index_below:
  assumes "mem_only E c R S s" and "p \<in> ran (cs_index s)"
  shows "p < cs_brk s"
proof -
  obtain ident where "cs_index s ident = Some p" using assms(2) by (auto simp: ran_def)
  then obtain it k where "cs_items s p = Some (it, k)" using mem_onlyD(5) [OF assms(1)] unfolding index_holds_def by blast
  then show ?thesis by (rule below_brkD(1) [OF mem_onlyD(3) [OF assms(1)]])
qed

lemma brk_fresh:
  assumes "below_brk s"
  shows "cs_items s (cs_brk s) = None" and "cs_mem_blocks s (cs_brk s) = None" and "cs_segments s (cs_brk s) = None"
  using below_brkD [OF assms, of "cs_brk s"] by (metis less_irrefl option.exhaust)+

lemma item_new_holds:
  assumes "0 < sz" and "sz + FLAGS_slice_size (e_cfg E) \<le> 2 ^ 32" and "length v = sz"
  shows "item_holds E s (cache_item_new (e_cfg E) key sz t) v"
  using assms by (auto simp: item_holds_def cache_item_new_def block_item_new_def)

lemma sum_list_empty_mset: "sum_list (replicate k {#}) = {#}"
  by (induction k) simp_all

lemma add_item_ok:
  assumes M: "mem_only E 0 R S s" and sz: "0 < sz" "sz + FLAGS_slice_size (e_cfg E) \<le> 2 ^ 32"
    and m: "ms_used_bytes m = ms_used_bytes (cs_mem s) + item_charge E (length key) sz"
    and s': "s' = s\<lparr>cs_mem := m, cs_items := (cs_items s)(cs_brk s \<mapsto> (cache_item_new (e_cfg E) key sz t, 1)), cs_brk := cs_brk s + 1\<rparr>"
  shows "mem_only E 0 (R + {#RItem (cs_brk s)#}) S s'" and "still P s s'"
proof -
  note M' = mem_onlyD [OF M]
  let ?it = "cache_item_new (e_cfg E) key sz t"
  note fresh = brk_fresh [OF M'(3)]
  have none: "item_refs ?it = {#}"
    by (simp add: item_refs_def cache_item_new_def block_item_new_def block_refs_def sum_list_empty_mset)
  have "own (R + {#RItem (cs_brk s)#}) s'" by (rule own_cong [OF own_new_item [OF M'(1) fresh(1) none]]) (simp_all add: s')
  moreover have "acct E 0 s'"
    using M'(2) heap_sum_put [OF own_heaps(1) [OF M'(1)] fresh(1), of "it_charge E" ?it 1] m
    by (simp add: acct_def s' it_charge_def cache_item_new_def algebra_simps)
  moreover have "below_brk s'" using M'(3) by (auto simp: below_brk_def s' less_Suc_eq split: if_splits)
  moreover show st: "still P s s'" by (auto simp: still_def moves_def s')
  moreover have "\<exists>v. item_holds E s' it v" if "cs_items s' p = Some (it, k)" "cs_brk s \<le> p" for p it k
  proof (cases "p = cs_brk s")
    case True
    then show ?thesis using that item_new_holds [OF sz, of "replicate sz 0" s' key t] by (auto simp: s')
  next
    case False
    then have "cs_items s p = Some (it, k)" using that(1) by (simp add: s')
    from below_brkD(1) [OF M'(3) this] that(2) show ?thesis by simp
  qed
  ultimately show "mem_only E 0 (R + {#RItem (cs_brk s)#}) S s'" by (intro mem_only_step [OF M stillD(1) [OF st]]) (simp_all add: s')
qed

lemma add_segment_ok:
  assumes M: "mem_only E 0 R S s" and m: "ms_used_bytes m = ms_used_bytes (cs_mem s) + segment_charge E seg"
    and s': "s' = s\<lparr>cs_mem := m, cs_segments := (cs_segments s)(cs_brk s \<mapsto> (seg, 1)), cs_brk := cs_brk s + 1\<rparr>"
  shows "mem_only E 0 (R + {#RSeg (cs_brk s)#}) S s'" and "still P s s'"
proof -
  note M' = mem_onlyD [OF M]
  note fresh = brk_fresh [OF M'(3)]
  have "own (R + {#RSeg (cs_brk s)#}) s'" by (rule own_cong [OF own_new_seg [OF M'(1) fresh(3)]]) (simp_all add: s')
  moreover have "acct E 0 s'"
    using M'(2) heap_sum_put [OF own_heaps(4) [OF M'(1)] fresh(3), of "segment_charge E" seg 1] m
    by (simp add: acct_def s' algebra_simps)
  moreover have "below_brk s'" using M'(3) by (auto simp: below_brk_def s' less_Suc_eq split: if_splits)
  moreover show st: "still P s s'" by (auto simp: still_def moves_def s')
  moreover have "\<exists>v. item_holds E s' it v" if "cs_items s' p = Some (it, k)" "cs_brk s \<le> p" for p it k
    using below_brkD(1) [OF M'(3), of p] that by (simp add: s')
  ultimately show "mem_only E 0 (R + {#RSeg (cs_brk s)#}) S s'" by (intro mem_only_step [OF M stillD(1) [OF st]]) (simp_all add: s')
qed

lemma add_mem_block_ok:
  assumes M: "mem_only E 0 R S s" and s': "new_mem_block_item E st s = (m, s')"
  shows "mem_only E 0 (R + {#RMem m#}) S s'" and "still P s s'" and "cs_mem_blocks s' m = Some (mem_block_item_new (e_cfg E) st, 1)"
    and "m = cs_brk s" and "cs_segments s' = cs_segments s" and "cs_items s' = cs_items s" and "cs_index s' = cs_index s" and "cs_brk s' = cs_brk s + 1"
proof -
  note M' = mem_onlyD [OF M]
  note fresh = brk_fresh [OF M'(3)]
  let ?b = "mem_block_item_new (e_cfg E) st"
  have eq: "m = cs_brk s" "s' = s\<lparr>cs_mem_blocks := (cs_mem_blocks s)(cs_brk s \<mapsto> (?b, 1)), cs_brk := cs_brk s + 1\<rparr>"
    using s' by (auto simp: new_mem_block_item_def)
  have "mem_refs ?b = {#}" by (simp add: mem_refs_def mem_block_item_new_def sum_list_empty_mset)
  then have "own (R + {#RMem m#}) s'" unfolding eq by (intro own_cong [OF own_new_mem [OF M'(1) fresh(2)]]) simp_all
  moreover have "acct E 0 s'" using M'(2) by (simp add: acct_def eq)
  moreover have "below_brk s'" using M'(3) by (auto simp: below_brk_def eq less_Suc_eq split: if_splits)
  moreover show st: "still P s s'" by (auto simp: still_def moves_def eq)
  moreover have "\<exists>v. item_holds E s' it v" if "cs_items s' p = Some (it, k)" "cs_brk s \<le> p" for p it k
    using below_brkD(1) [OF M'(3), of p] that by (simp add: eq)
  ultimately show "mem_only E 0 (R + {#RMem m#}) S s'" by (intro mem_only_step [OF M stillD(1) [OF st]]) (simp_all add: eq)
  show "cs_mem_blocks s' m = Some (?b, 1)" "m = cs_brk s" "cs_segments s' = cs_segments s" "cs_items s' = cs_items s" "cs_index s' = cs_index s"
    "cs_brk s' = cs_brk s + 1" by (simp_all add: eq)
qed

section \<open>Filling a memory block\<close>

lemma fill_update: "n < cnt \<Longrightarrow> (replicate n x @ replicate (cnt - n) y)[n := x] = replicate (Suc n) x @ replicate (cnt - Suc n) y"
proof -
  assume "n < cnt"
  then have 1: "replicate (cnt - n) y = y # replicate (cnt - Suc n) y" by (metis Suc_diff_Suc replicate_Suc)
  have 2: "(replicate n x @ y # ys)[n := x] = replicate n x @ x # ys" for ys
    using list_update_length [of "replicate n x" y ys x] by simp
  show ?thesis unfolding 1 2 by (simp add: replicate_app_Cons_same)
qed

text \<open>The loop of \<^verbatim>\<open>set_block_segment\<close> on an empty block.\<close>

lemma assign_slices_eq:
  assumes "cs_mem_blocks s m = Some (b, km)" and "cs_segments s g = Some (sg, kg)" and "mb_slices b = replicate cnt None" and "n \<le> cnt"
  shows "fold_opt (assign_slice E m g) [0..<n] s =
    Some (s\<lparr>cs_segments := (cs_segments s)(g \<mapsto> (sg, kg + n)),
            cs_mem_blocks := (cs_mem_blocks s)(m \<mapsto> (b\<lparr>mb_slices := replicate n (Some g) @ replicate (cnt - n) None\<rparr>, km))\<rparr>)"
  using assms(4)
proof (induction n)
  case 0
  have "(cs_segments s)(g \<mapsto> (sg, kg)) = cs_segments s" "(cs_mem_blocks s)(m \<mapsto> (b, km)) = cs_mem_blocks s" using assms by auto
  moreover have "b\<lparr>mb_slices := replicate cnt None\<rparr> = b" using assms(3) by simp
  ultimately show ?case by simp
next
  case (Suc n)
  then have "n < cnt" by simp
  then show ?case
    using Suc.IH fill_update [OF \<open>n < cnt\<close>, of "Some g" None]
    by (simp add: fold_opt_append assign_slice_def deref_def nth_append retain_segment_def retain_def modify_def release_opt_def
        fun_upd_same fun_upd_upd del: fun_upd_apply)
qed

lemma own_retain_segs:
  assumes "own R s" and "cs_segments s g = Some (sg, kg)"
  shows "own (R + replicate_mset n (RSeg g)) (s\<lparr>cs_segments := (cs_segments s)(g \<mapsto> (sg, kg + n))\<rparr>)"
proof (induction n)
  case 0
  have "(cs_segments s)(g \<mapsto> (sg, kg)) = cs_segments s" using assms(2) by auto
  then show ?case using assms(1) by simp
next
  case (Suc n)
  from own_retain_seg [OF Suc, of g sg "kg + n"] show ?case by (simp add: ac_simps fun_upd_same del: fun_upd_apply)
qed

lemma sum_list_replicate_mset: "sum_list (replicate n {#x#}) = replicate_mset n x"
  by (induction n) simp_all

lemma fill_block_ok:
  assumes M: "mem_only E 0 (R + {#RSeg g#}) S s1" and new: "new_mem_block_item E st s1 = (m, s2)"
    and g: "cs_segments s1 g = Some (seg, kg)" and cfg: "config_ok (e_cfg E)"
    and seg: "sg_offset seg = 0" "sg_size seg = length d" "d \<noteq> []" "length d \<le> FLAGS_block_size (e_cfg E)"
      "length d \<le> iobuf_size (sg_buf seg)" "take (length d) (iobuf_bytes (sg_buf seg)) = d"
  shows "\<exists>s3. mem_write_block E m [g] s2 = Some (OK, s3) \<and> mem_only E 0 (R + {#RSeg g#} + {#RMem m#}) S s3 \<and> still P s1 s3 \<and>
    mem_holds E s3 m d \<and> cs_items s3 = cs_items s1 \<and> cs_index s3 = cs_index s1"
proof -
  note A = add_mem_block_ok [OF M new]
  note M1 = mem_onlyD [OF M]
  let ?b = "FLAGS_slice_size (e_cfg E)" and ?B = "FLAGS_block_size (e_cfg E)" and ?cnt = "block_slice_count (e_cfg E)"
  have C: "0 < ?b" "?b dvd ?B" "?B < 2 ^ 32" using cfg by (simp_all add: config_ok_def)
  define n where "n = Suc ((length d - 1) div ?b)"
  have L: "0 < length d" "length d < 2 ^ 32" using seg(3,4) C(3) by auto
  have cnt: "?cnt = ?B div ?b"
  proof -
    have "?B div ?b < 2 ^ 32" using C(3) by (metis div_le_dividend le_less_trans)
    then show ?thesis by (simp add: block_slice_count_def)
  qed
  have n_cnt: "n \<le> ?cnt"
  proof -
    have "(length d - 1) div ?b * ?b \<le> length d - 1" by (rule div_times_less_eq_dividend)
    also have "length d - 1 < ?B" using seg(4) L(1) by linarith
    also have "?B = ?B div ?b * ?b" using C(2) by simp
    finally have "(length d - 1) div ?b < ?B div ?b" by simp
    then show ?thesis by (simp add: n_def cnt)
  qed
  have d_n: "length d \<le> n * ?b"
  proof -
    have "length d - 1 < n * ?b" unfolding n_def by (rule less_Suc_div [OF C(1)])
    then show ?thesis by simp
  qed
  let ?s3 = "s2\<lparr>cs_segments := (cs_segments s2)(g \<mapsto> (seg, kg + n)),
    cs_mem_blocks := (cs_mem_blocks s2)(m \<mapsto> (mem_block_item_new (e_cfg E) st\<lparr>mb_slices := replicate n (Some g) @ replicate (?cnt - n) None\<rparr>, 1))\<rparr>"
  have g2: "cs_segments s2 g = Some (seg, kg)" using g A(5) by simp
  have empty: "mb_slices (mem_block_item_new (e_cfg E) st) = replicate ?cnt None" by (simp add: mem_block_item_new_def Let_def)
  have fold: "fold_opt (assign_slice E m g) [0..<n] s2 = Some ?s3" by (rule assign_slices_eq [OF A(3) g2 empty n_cnt])
  have last: "to_u32 (sg_offset seg + sg_size seg + (2 ^ 32 - 1)) = length d - 1"
  proof -
    have "sg_offset seg + sg_size seg + (2 ^ 32 - 1) = (length d - 1) + 2 ^ 32" using seg(1,2) L by simp
    then have "to_u32 (sg_offset seg + sg_size seg + (2 ^ 32 - 1)) = ((length d - 1) + 2 ^ 32) mod 2 ^ 32" by (simp only: to_u32_def)
    also have "\<dots> = (length d - 1) mod 2 ^ 32" by (rule mod_add_self2)
    finally show ?thesis using L by simp
  qed
  have ends: "off2slice (e_cfg E) (length d - 1) = (length d - 1) div ?b" "off2slice (e_cfg E) (sg_offset seg) = 0"
    using off2slice_small [of "length d - 1" "e_cfg E"] L seg(1) by (simp_all add: off2slice_def)
  have nz: "iobuf_size (sg_buf seg) \<noteq> 0" using L(1) seg(5) by linarith
  have "write_segment E m g s2 = (if iobuf_size (sg_buf seg) = 0 then Some s2
      else set_block_segment E m (off2slice (e_cfg E) (sg_offset seg))
        (off2slice (e_cfg E) (to_u32 (sg_offset seg + sg_size seg + (2 ^ 32 - 1)))) g s2)"
    unfolding write_segment_def deref_def g2 Let_def by simp
  also have "\<dots> = fold_opt (assign_slice E m g) [0..<n] s2"
    unfolding if_not_P [OF nz] last ends set_block_segment_def n_def by (rule refl)
  finally have "write_segment E m g s2 = Some ?s3" using fold by simp
  then have op: "mem_write_block E m [g] s2 = Some (OK, ?s3)" by (simp add: mem_write_block_def)
  have refs: "mem_refs (mem_block_item_new (e_cfg E) st) = {#}"
    "mem_refs (mem_block_item_new (e_cfg E) st\<lparr>mb_slices := replicate n (Some g) @ replicate (?cnt - n) None\<rparr>) = replicate_mset n (RSeg g)"
    by (simp_all add: mem_refs_def empty sum_list_empty_mset sum_list_replicate_mset)
  have "own (R + {#RSeg g#} + {#RMem m#} + replicate_mset n (RSeg g)) (s2\<lparr>cs_segments := (cs_segments s2)(g \<mapsto> (seg, kg + n))\<rparr>)"
    by (rule own_retain_segs [OF mem_onlyD(1) [OF A(1)] g2])
  from own_change_mem [OF this [folded refs(2)], of m "mem_block_item_new (e_cfg E) st" 1] A(3) refs(1)
  have own: "own (R + {#RSeg g#} + {#RMem m#}) ?s3" by simp
  have "0 < n" by (simp add: n_def)
  then have mem: "mem_holds E ?s3 m d"
    unfolding mem_holds_def
    by (intro exI [of _ "mem_block_item_new (e_cfg E) st\<lparr>mb_slices := replicate n (Some g) @ replicate (?cnt - n) None\<rparr>"] exI [of _ 1]
        exI [of _ g] exI [of _ seg] exI [of _ "kg + n"] exI [of _ n]) (use n_cnt d_n seg in simp)
  have eq: "m = cs_brk s1" "s2 = s1\<lparr>cs_mem_blocks := (cs_mem_blocks s1)(cs_brk s1 \<mapsto> (mem_block_item_new (e_cfg E) st, 1)), cs_brk := cs_brk s1 + 1\<rparr>"
    using new by (auto simp: new_mem_block_item_def)
  have st: "still P s1 ?s3" unfolding eq still_def moves_def by (use g in simp)
  have "acct E 0 ?s3" using mem_onlyD(2) [OF A(1)] g2 by (simp add: acct_def heap_sum_count)
  moreover have "below_brk ?s3" using mem_onlyD(3) [OF A(1)] below_brkD(3) [OF mem_onlyD(3) [OF A(1)] g2] A(4,8)
    by (simp add: below_brk_def)
  moreover have "cs_disk_blocks ?s3 = cs_disk_blocks s1" using mem_onlyD(6) [OF A(1)] M1(6) by simp
  moreover have "\<exists>v. item_holds E ?s3 it v" if "cs_items ?s3 p = Some (it, k)" "cs_brk s1 \<le> p" for p it k
    using below_brkD(1) [OF M1(3), of p] that A(6) by simp
  ultimately have "mem_only E 0 (R + {#RSeg g#} + {#RMem m#}) S ?s3" by (intro mem_only_step [OF M stillD(1) [OF st] own])
  then show ?thesis using op st mem A(6,7) by auto
qed

section \<open>A block enters an item\<close>

lemma assign_mem_some_ok:
  assumes M: "mem_only E 0 R S s" and m: "RMem m \<in># R" "mem_holds E s m (chunk E v i)"
    and p: "RItem p \<in># R" "cs_items s p = Some (it, k)" "item_holds E s it v" "p \<notin> ran (cs_index s)" and i: "i < length (ci_blocks it)"
  shows "\<exists>s' k'. assign_mem E p i (Some m) s = Some s' \<and> mem_only E 0 R S s' \<and>
    cs_items s' p = Some (it\<lparr>ci_blocks := (ci_blocks it)[i := (ci_blocks it ! i)\<lparr>blk_mem := Some m\<rparr>]\<rparr>, k') \<and>
    item_holds E s' (it\<lparr>ci_blocks := (ci_blocks it)[i := (ci_blocks it ! i)\<lparr>blk_mem := Some m\<rparr>]\<rparr>) v \<and>
    cs_locks s' = cs_locks s \<and> cs_mem_policy s' = cs_mem_policy s \<and> cs_disk_policy s' = cs_disk_policy s \<and>
    cs_concurrent_writes s' = cs_concurrent_writes s \<and> (\<forall>ident q. cs_index s' ident = Some q \<longrightarrow> cs_index s ident = Some q)"
proof -
  let ?b = "ci_blocks it ! i"
  let ?it = "it\<lparr>ci_blocks := (ci_blocks it)[i := ?b\<lparr>blk_mem := Some m\<rparr>]\<rparr>"
  obtain b n where b: "cs_mem_blocks s m = Some (b, n)" using own_root(2) [OF mem_onlyD(1) [OF M] m(1)] by blast
  obtain s1 where s1: "retain_mem_block m s = Some s1" "mem_only E 0 (R + {#RMem m#}) S s1" "still {} s s1" "cs_items s1 = cs_items s"
    using retain_mem_ok [OF M b] by blast
  note M1 = mem_onlyD [OF s1(2)]
  have it1: "cs_items s1 p = Some (it, k)" using s1(4) p(2) by simp
  have v1: "item_holds E s1 it v" by (rule holds_kept [OF M stillD(1) [OF s1(3)] s1(2) p(2,3) it1])
  have m1: "mem_holds E s1 m (chunk E v i)"
    by (rule mem_holds_moves [OF m(2) M1(1) stillD(1) [OF s1(3)] mem_onlyD(3) [OF M]]) simp
  have d: "blk_disk ?b = None" by (rule item_holdsD(5) [OF p(3) nth_mem [OF i]])
  let ?s = "s1\<lparr>cs_items := (cs_items s1)(p \<mapsto> (?it, k))\<rparr>"
  have "own (R + block_refs (?b\<lparr>blk_mem := Some m\<rparr>)) s1" using M1(1) d by (simp add: block_refs_def)
  from own_change_block [OF this it1 i] have own: "own (R + opt_ref RMem (blk_mem ?b)) ?s" using d by (simp add: block_refs_def)
  have acct: "acct E 0 ?s" using M1(2) heap_sum_same [of "cs_items s1" p it k "it_charge E" ?it k] it1 by (simp add: acct_def it_charge_def)
  have same: "item_holds E ?s x w = item_holds E s1 x w" for x w by (simp add: item_holds_def mem_holds_def)
  have v2: "item_holds E ?s ?it v"
    unfolding same using v1 m1 i d by (auto simp: item_holds_def nth_list_update dest!: set_update_subset_insert [THEN subsetD])
  have below: "below_brk ?s" using M1(3) it1 by (auto simp: below_brk_def)
  have items: "items_ok E ?s"
    unfolding items_ok_def
  proof (intro allI impI)
    fix q x j assume q: "cs_items ?s q = Some (x, j)"
    show "\<exists>w. item_holds E ?s x w"
    proof (cases "q = p")
      case True
      then show ?thesis using q v2 by auto
    next
      case False
      then have "cs_items s1 q = Some (x, j)" using q by simp
      then show ?thesis using M1(4) unfolding same items_ok_def by blast
    qed
  qed
  have idx1: "cs_index s1 ident = Some q \<Longrightarrow> cs_index s ident = Some q" for ident q by (rule movesD(8) [OF stillD(1) [OF s1(3)]])
  have index: "index_holds E S ?s"
    unfolding index_holds_def
  proof (intro allI impI)
    fix ident q assume q: "cs_index ?s ident = Some q"
    then have "q \<noteq> p" using p(4) idx1 by (auto simp: ran_def)
    then show "\<exists>it k v. cs_items ?s q = Some (it, k) \<and> cachekey2id (ci_cache_key it) = ident \<and>
        (is_released it \<or> S (ci_cache_key it) = Some v) \<and> item_holds E ?s it v"
      using M1(5) q unfolding same index_holds_def by simp
  qed
  have M2: "mem_only E 0 (R + opt_ref RMem (blk_mem ?b)) S ?s"
    unfolding mem_only_def using own acct below items index M1(6-8) by simp
  obtain s3 where s3: "release_opt (release_mem_block E) (blk_mem ?b) ?s = Some s3" "mem_only E 0 R S s3" "still {} ?s s3"
    using release_opt_mem_ok [OF M2] by blast
  have "RItem p \<in># R" by (rule p(1))
  then obtain it3 k3 where it3: "cs_items s3 p = Some (it3, k3)" using item_alive [OF s3(2)] by blast
  have "p < cs_brk ?s" using below_brkD(1) [OF M1(3) it1] by simp
  from movesD(7) [OF stillD(1) [OF s3(3)] it3 this] have "it3 = ?it" by simp
  note it3 = it3 [unfolded this]
  have v3: "item_holds E s3 ?it v"
    by (rule holds_kept [OF M2 stillD(1) [OF s3(3)] s3(2) _ v2 it3, of k]) simp
  have op: "assign_mem E p i (Some m) s = Some s3"
    using s1(1,4) s3(1) it1 get_block_Some [OF p(2) i] by (simp add: assign_mem_def release_opt_def put_block_def update_item_def modify_def)
  have "cs_index s3 ident = Some q \<Longrightarrow> cs_index s ident = Some q" for ident q
    using movesD(8) [OF stillD(1) [OF s3(3)], of ident q] idx1 by simp
  moreover have "cs_locks s3 = cs_locks s" "cs_mem_policy s3 = cs_mem_policy s" "cs_disk_policy s3 = cs_disk_policy s"
    "cs_concurrent_writes s3 = cs_concurrent_writes s"
    using stillD [OF s1(3)] stillD [OF s3(3)] movesD(3,4) [OF stillD(1) [OF s1(3)]] movesD(3,4) [OF stillD(1) [OF s3(3)]] by simp_all
  ultimately show ?thesis using op s3(2) it3 v3 by blast
qed

context memory_cache
begin

lemma new_cache_item_ok:
  assumes G: "good n R S s" and sz: "0 < sz" "sz + FLAGS_slice_size (e_cfg E) \<le> 2 ^ 32"
  shows "\<exists>r s'. new_cache_item E key sz t urgent s = (r, s') \<and> moves P s s' \<and> cs_index s' = cs_index s \<and> (case r of
      None \<Rightarrow> good n R S s'
    | Some p \<Rightarrow> good n (R + {#RItem p#}) S s' \<and> cs_items s' p = Some (cache_item_new (e_cfg E) key sz t, 1) \<and> p \<notin> ran (cs_index s'))"
proof -
  note G' = goodD [OF G]
  obtain b m where inc: "inc_mem (e_cfg E) (item_charge E (length key) sz) urgent (cs_mem s) = (b, m)" by (cases "inc_mem (e_cfg E) (item_charge E (length key) sz) urgent (cs_mem s)")
  note used = inc_mem_used [OF inc]
  show ?thesis
  proof (cases b)
    case True
    let ?s = "s\<lparr>cs_mem := m, cs_items := (cs_items s)(cs_brk s \<mapsto> (cache_item_new (e_cfg E) key sz t, 1)), cs_brk := cs_brk s + 1\<rparr>"
    have "ms_used_bytes m = ms_used_bytes (cs_mem s) + item_charge E (length key) sz" using used True by simp
    note add = add_item_ok [OF G'(1) sz this refl]
    have "cs_brk s \<notin> ran (cs_index s)" using index_below [OF G'(1)] by blast
    then show ?thesis
      using inc True good_still [OF G add(1) add(2) [where P = UNIV]] stillD(1) [OF add(2) [where P = P]] by (simp add: new_cache_item_def)
  next
    case False
    let ?s = "s\<lparr>cs_mem := m\<rparr>"
    have "mem_only E 0 R S ?s" by (rule mem_only_mem [OF G'(1)]) (use used False in simp)
    moreover have st: "still P s ?s" by (auto simp: still_def moves_def)
    ultimately have "good n R S ?s" by (rule good_still [OF G])
    then show ?thesis using inc False stillD(1) [OF st] by (simp add: new_cache_item_def)
  qed
qed

lemma alloc_item_retry_ok:
  assumes "good n R S s" and sz: "0 < sz" "sz + FLAGS_slice_size (e_cfg E) \<le> 2 ^ 32" and "ran (cs_index s) \<subseteq> P"
  shows "\<exists>r s'. alloc_item_retry E key sz t urgent j s = Some (r, s') \<and> moves P s s' \<and> (case r of
      None \<Rightarrow> good n R S s'
    | Some p \<Rightarrow> good n (R + {#RItem p#}) S s' \<and> cs_items s' p = Some (cache_item_new (e_cfg E) key sz t, 1) \<and> p \<notin> ran (cs_index s'))"
  using assms(1,4)
proof (induction j arbitrary: s urgent)
  case (Suc j)
  obtain r s1 where s1: "new_cache_item E key sz t urgent s = (r, s1)" "moves P s s1" "cs_index s1 = cs_index s"
    "case r of None \<Rightarrow> good n R S s1
      | Some p \<Rightarrow> good n (R + {#RItem p#}) S s1 \<and> cs_items s1 p = Some (cache_item_new (e_cfg E) key sz t, 1) \<and> p \<notin> ran (cs_index s1)"
    using new_cache_item_ok [OF Suc.prems(1) sz] by blast
  show ?case
  proof (cases r)
    case (Some p)
    then show ?thesis using s1 by simp
  next
    case None
    then have G1: "good n R S s1" using s1(4) by simp
    obtain s2 where s2: "evict_mem_block E sz s1 = Some s2" "good n R S s2" "moves P s1 s2"
      using evict_mem_block_ok [OF G1, of P sz] Suc.prems(2) s1(3) by auto
    have "ran (cs_index s2) \<subseteq> P" using movesD(8) [OF s2(3)] Suc.prems(2) s1(3) by (fastforce simp: ran_def)
    from Suc.IH [OF s2(2) this, of True] moves_trans [OF s1(2) moves_trans [OF s2(3)]] show ?thesis
      using s1(1) s2(1) None by fastforce
  qed
qed simp

lemma new_block_segment_ok:
  assumes G: "good n R S s"
  shows "\<exists>r s'. new_block_segment E off sz buf urgent s = (r, s') \<and> moves P s s' \<and> cs_index s' = cs_index s \<and> (case r of
      None \<Rightarrow> good n R S s'
    | Some g \<Rightarrow> good n (R + {#RSeg g#}) S s' \<and> cs_segments s' g = Some (block_segment_new off sz buf, 1))"
proof -
  note G' = goodD [OF G]
  let ?seg = "block_segment_new off sz buf"
  obtain b m where inc: "inc_mem (e_cfg E) (segment_charge E ?seg) urgent (cs_mem s) = (b, m)" by (cases "inc_mem (e_cfg E) (segment_charge E ?seg) urgent (cs_mem s)")
  note used = inc_mem_used [OF inc]
  show ?thesis
  proof (cases b)
    case True
    then have "ms_used_bytes m = ms_used_bytes (cs_mem s) + segment_charge E ?seg" using used by simp
    note add = add_segment_ok [OF G'(1) this refl]
    show ?thesis
      using inc True good_still [OF G add(1) add(2) [where P = UNIV]] stillD(1) [OF add(2) [where P = P]] by (simp add: new_block_segment_def Let_def)
  next
    case False
    let ?s = "s\<lparr>cs_mem := m\<rparr>"
    have "mem_only E 0 R S ?s" by (rule mem_only_mem [OF G'(1)]) (use used False in simp)
    moreover have st: "still P s ?s" by (auto simp: still_def moves_def)
    ultimately have "good n R S ?s" by (rule good_still [OF G])
    then show ?thesis using inc False stillD(1) [OF st] by (simp add: new_block_segment_def Let_def)
  qed
qed

lemma alloc_segment_retry_ok:
  assumes "good n R S s" and "ran (cs_index s) \<subseteq> P"
  shows "\<exists>r s'. alloc_segment_retry E key off sz buf urgent j s = Some (r, s') \<and> moves P s s' \<and> (case r of
      None \<Rightarrow> good n R S s'
    | Some g \<Rightarrow> good n (R + {#RSeg g#}) S s' \<and> cs_segments s' g = Some (block_segment_new off sz buf, 1))"
  using assms
proof (induction j arbitrary: s urgent)
  case (Suc j)
  obtain r s1 where s1: "new_block_segment E off sz buf urgent s = (r, s1)" "moves P s s1" "cs_index s1 = cs_index s"
    "case r of None \<Rightarrow> good n R S s1
      | Some g \<Rightarrow> good n (R + {#RSeg g#}) S s1 \<and> cs_segments s1 g = Some (block_segment_new off sz buf, 1)"
    using new_block_segment_ok [OF Suc.prems(1)] by blast
  show ?case
  proof (cases r)
    case (Some p)
    then show ?thesis using s1 by simp
  next
    case None
    then have G1: "good n R S s1" using s1(4) by simp
    obtain s2 where s2: "evict_for_mem_block E key sz s1 = Some s2" "good n R S s2" "moves P s1 s2"
      using evict_for_mem_block_ok [OF G1, of P key sz] Suc.prems(2) s1(3) by auto
    have "ran (cs_index s2) \<subseteq> P" using movesD(8) [OF s2(3)] Suc.prems(2) s1(3) by (fastforce simp: ran_def)
    from Suc.IH [OF s2(2) this, of True] moves_trans [OF s1(2) moves_trans [OF s2(3)]] show ?thesis
      using s1(1) s2(1) None by fastforce
  qed
qed simp

section \<open>Writing a block\<close>

lemma copy_for_memory_ok:
  assumes "iobuf_size buf \<le> FLAGS_block_size (e_cfg E)"
  shows "\<exists>r. copy_for_memory E buf = Some r \<and> (case r of None \<Rightarrow> True
     | Some sbuf \<Rightarrow> take (iobuf_size buf) (iobuf_bytes sbuf) = iobuf_bytes buf \<and> iobuf_size buf \<le> iobuf_size sbuf)"
proof (cases "FLAGS_enable_os_page_cache (e_cfg E)")
  case True
  then show ?thesis by (simp add: copy_for_memory_def ext_user_data [OF ext])
next
  case False
  have u: "0 < FLAGS_io_align_unit_size (e_cfg E)" using cfg by (simp add: config_ok_def)
  have "FLAGS_io_align_unit_size (e_cfg E) dvd FLAGS_block_size (e_cfg E)" "0 < FLAGS_block_size (e_cfg E)" "FLAGS_block_size (e_cfg E) < 2 ^ 32"
    using cfg by (auto simp: config_ok_def intro: dvd_trans)
  with assms have "iobuf_size buf + FLAGS_io_align_unit_size (e_cfg E) \<le> 2 ^ 63" by (auto dest!: dvd_imp_le)
  note R = round_up_nat [OF u this]
  obtain n d where a: "align_iobuf (e_cfg E) (os_memalign (e_os E)) buf = Some (n, d)"
    unfolding align_iobuf_def R nat_int bind.bind_lunit by (cases "os_memalign (e_os E) ((iobuf_size buf + (FLAGS_io_align_unit_size (e_cfg E) - 1)) div FLAGS_io_align_unit_size (e_cfg E) * FLAGS_io_align_unit_size (e_cfg E))") auto
  show ?thesis
  proof (cases "n = 0")
    case False
    note A = align_iobuf_Some [OF u memalign a False]
    have "iobuf_bytes (x_append_user_data (e_ext E) [] d) = d" by (simp add: ext_user_data [OF ext])
    then show ?thesis using a A \<open>\<not> FLAGS_enable_os_page_cache (e_cfg E)\<close> False by (simp add: copy_for_memory_def)
  qed (use a \<open>\<not> FLAGS_enable_os_page_cache (e_cfg E)\<close> in \<open>simp add: copy_for_memory_def\<close>)
qed

lemma alloc_block_segment_ok:
  assumes "good n R S s" and "ran (cs_index s) \<subseteq> P"
  shows "\<exists>r s'. alloc_block_segment E key off sz buf s = Some (r, s') \<and> moves P s s' \<and> (case r of
      None \<Rightarrow> good n R S s'
    | Some g \<Rightarrow> good n (R + {#RSeg g#}) S s' \<and> cs_segments s' g = Some (block_segment_new off (to_u32 sz) buf, 1))"
  unfolding alloc_block_segment_def by (rule alloc_segment_retry_ok [OF assms])

lemma track_ok:
  assumes "good (Suc n) R S s"
  shows "\<exists>s'. mem_evict_track E key sz s = Some s' \<and> good n R S s' \<and> moves P s s' \<and> cs_items s' = cs_items s"
proof -
  note G = goodD [OF assms]
  obtain p where p: "p_add (e_mem_ops E) key sz (cs_mem_policy s) = Some (True, p)" "minv n p"
    using mem.add_law G(2) unfolding policies_ok_def by blast
  let ?s = "s\<lparr>cs_mem_policy := p\<rparr>"
  have "mem_evict_track E key sz s = Some ?s" using p(1) by (simp add: mem_evict_track_def)
  moreover have "good n R S ?s" using p(2) G by (simp add: cache_ok_def policies_ok_def)
  ultimately show ?thesis by (intro exI [of _ ?s]) simp
qed

text \<open>An item outside the index is beyond the reach of evictions.\<close>

lemma item_exact:
  assumes "mem_only E 0 R S s" and "moves P s s'" and "mem_only E 0 R' S' s'" and "RItem p \<in># R'" and "cs_items s p = Some (it, k)" and "p \<notin> P"
  shows "\<exists>k'. cs_items s' p = Some (it, k')"
proof -
  obtain it' k' where p': "cs_items s' p = Some (it', k')" using item_alive [OF assms(3,4)] by blast
  have "p < cs_brk s" by (rule below_brkD(1) [OF mem_onlyD(3) [OF assms(1)] assms(5)])
  with movesD(7) [OF assms(2) p'] assms(6) have "it' = it" using assms(5) by auto
  then show ?thesis using p' by blast
qed

text \<open>A block put into the item \<open>p\<close> that is being written; the index may only shrink.\<close>

definition put_mem :: "nat \<Rightarrow> ptr \<Rightarrow> cache_item \<Rightarrow> cache_item" where
  "put_mem i m it = it\<lparr>ci_blocks := (ci_blocks it)[i := (ci_blocks it ! i)\<lparr>blk_mem := Some m\<rparr>]\<rparr>"

lemma put_mem_simps [simp]:
  "ci_cache_key (put_mem i m it) = ci_cache_key it" "ci_size (put_mem i m it) = ci_size it" "ci_state (put_mem i m it) = ci_state it"
  "length (ci_blocks (put_mem i m it)) = length (ci_blocks it)"
  by (simp_all add: put_mem_def)

lemma block_size_ok:
  assumes "item_holds E s it v" and "i < length (ci_blocks it)"
  shows "\<exists>bs. block_size (e_cfg E) it i = Some bs"
proof -
  have "0 < FLAGS_block_size (e_cfg E)" using cfg by (simp add: config_ok_def)
  moreover have "i < block_count_of (e_cfg E) (ci_size it)" using item_holdsD(4) [OF assms(1)] assms(2) by (simp add: block_count_def)
  ultimately have "i * FLAGS_block_size (e_cfg E) < ci_size it" by (rule block_start)
  moreover have "ci_size it < 2 ^ 63" using item_holdsD(1,3) [OF assms(1)] by simp
  ultimately have "block_size (e_cfg E) it i = Some (min (ci_size it - i * FLAGS_block_size (e_cfg E)) (FLAGS_block_size (e_cfg E)))"
    by (intro block_size_eq) simp_all
  then show ?thesis by blast
qed

text \<open>What a write leaves of the state around the item: the index may only shrink, and the count of writers stays.\<close>

definition confined :: "('w, 'p, 'q) cache \<Rightarrow> ('w, 'p, 'q) cache \<Rightarrow> bool" where
  "confined s s' \<longleftrightarrow> cs_concurrent_writes s' = cs_concurrent_writes s \<and> (\<forall>ident q. cs_index s' ident = Some q \<longrightarrow> cs_index s ident = Some q)"

lemma confined_moves: "moves P s s' \<Longrightarrow> confined s s'"
  using movesD(4,8) unfolding confined_def by metis

lemma confined_trans: "confined a b \<Longrightarrow> confined b c \<Longrightarrow> confined a c"
  unfolding confined_def by auto

lemma confined_ran: "confined s s' \<Longrightarrow> ran (cs_index s') \<subseteq> ran (cs_index s)"
  unfolding confined_def ran_def by blast

lemma set_mem_block_ok:
  assumes G: "good n R S s" and m: "RMem m \<in># R" "mem_holds E s m (chunk E v i)"
    and p: "RItem p \<in># R" "cs_items s p = Some (it, k)" "item_holds E s it v" "p \<notin> ran (cs_index s)" and i: "i < length (ci_blocks it)"
  shows "\<exists>s' k'. set_mem_block E p i (Some m) (Some key) s = Some s' \<and> good n R S s' \<and> confined s s' \<and>
    cs_items s' p = Some (put_mem i m it, k') \<and> item_holds E s' (put_mem i m it) v"
proof -
  let ?s = "in_section (e_cfg E) key s"
  note G' = goodD [OF G]
  have M: "mem_only E 0 R S ?s" using G'(1) by simp
  have same: "mem_holds E ?s m d = mem_holds E s m d" "item_holds E ?s x w = item_holds E s x w" for d x w
    by (simp_all add: mem_holds_def item_holds_def)
  have it': "cs_items ?s p = Some (it, k)" "p \<notin> ran (cs_index ?s)" using p by simp_all
  obtain s1 k1 where s1: "assign_mem E p i (Some m) ?s = Some s1" "mem_only E 0 R S s1" "cs_items s1 p = Some (put_mem i m it, k1)"
    "item_holds E s1 (put_mem i m it) v" "cs_locks s1 = cs_locks ?s" "cs_mem_policy s1 = cs_mem_policy ?s" "cs_disk_policy s1 = cs_disk_policy ?s"
    "cs_concurrent_writes s1 = cs_concurrent_writes ?s" "\<forall>ident q. cs_index s1 ident = Some q \<longrightarrow> cs_index ?s ident = Some q"
    using assign_mem_some_ok [OF M m(1) m(2) [folded same(1)] p(1) it'(1) p(3) [folded same(2)] it'(2) i] unfolding put_mem_def by blast
  let ?s3 = "s1\<lparr>cs_locks := \<lambda>i. Free\<rparr>"
  have "unlock_unique E key s1 = Some ?s3" using s1(5) by (simp add: unlock_unique_def in_section_def Let_def)
  then have "set_mem_block E p i (Some m) (Some key) s = Some ?s3"
    using lock_unique_ok [OF G'(3), of E key] s1(1) by (simp add: set_mem_block_def with_lock_def)
  moreover have "good n R S ?s3" using s1(2,6,7) G'(2) by (simp add: cache_ok_def policies_ok_def in_section_def)
  moreover have "confined s ?s3" using s1(8,9) by (simp add: confined_def in_section_def)
  moreover have "item_holds E ?s3 (put_mem i m it) v" using s1(4) by (simp add: item_holds_def mem_holds_def)
  ultimately show ?thesis using s1(3) by fastforce
qed

lemma chunk_ok:
  assumes "item_holds E s it v" and "i < length (ci_blocks it)"
  shows "chunk E v i \<noteq> []" and "length (chunk E v i) \<le> FLAGS_block_size (e_cfg E)"
proof -
  have "0 < FLAGS_block_size (e_cfg E)" using cfg by (simp add: config_ok_def)
  moreover have "i < block_count_of (e_cfg E) (length v)" using item_holdsD(1,4) [OF assms(1)] assms(2) by (simp add: block_count_def)
  ultimately have "i * FLAGS_block_size (e_cfg E) < length v" by (rule block_start)
  then show "chunk E v i \<noteq> []" using \<open>0 < FLAGS_block_size (e_cfg E)\<close> by (simp add: chunk_def)
  show "length (chunk E v i) \<le> FLAGS_block_size (e_cfg E)" by (simp add: chunk_def)
qed

text \<open>After a successful write the block is in memory; after an error the item is as before.\<close>

lemma write_block_to_mem_ok:
  assumes G: "good (Suc n) R S s"
    and p: "RItem p \<in># R" "cs_items s p = Some (it, k)" "item_holds E s it v" "p \<notin> ran (cs_index s)" and i: "key_index key < length (ci_blocks it)"
    and buf: "iobuf_bytes buf = chunk E v (key_index key)"
  shows "\<exists>st s' k'. write_block_to_mem E p key buf options s = Some (st, s') \<and> good n R S s' \<and> confined s s' \<and>
    (if ok st then \<exists>m. cs_items s' p = Some (put_mem (key_index key) m it, k') \<and> item_holds E s' (put_mem (key_index key) m it) v
     else st \<noteq> Err EBUSY \<and> st \<noteq> Err EEXIST)"
proof -
  let ?i = "key_index key" and ?P = "ran (cs_index s)"
  obtain r where r: "copy_for_memory E buf = Some r"
    "case r of None \<Rightarrow> True | Some sbuf \<Rightarrow> take (iobuf_size buf) (iobuf_bytes sbuf) = iobuf_bytes buf \<and> iobuf_size buf \<le> iobuf_size sbuf"
    using copy_for_memory_ok [of buf] chunk_ok(2) [OF p(3) i] buf by auto
  show ?thesis
  proof (cases r)
    case None
    then show ?thesis using r good_mono [OF G] by (auto simp: write_block_to_mem_def confined_def)
  next
    case (Some sbuf)
    have L: "length (chunk E v ?i) < 2 ^ 32" "chunk E v ?i \<noteq> []" "length (chunk E v ?i) \<le> FLAGS_block_size (e_cfg E)"
      using chunk_ok [OF p(3) i] cfg by (simp_all add: config_ok_def)
    obtain r1 s1 where s1: "alloc_block_segment E key 0 (iobuf_size buf) sbuf s = Some (r1, s1)" "moves ?P s s1"
      "case r1 of None \<Rightarrow> good (Suc n) R S s1
        | Some g \<Rightarrow> good (Suc n) (R + {#RSeg g#}) S s1 \<and> cs_segments s1 g = Some (block_segment_new 0 (to_u32 (iobuf_size buf)) sbuf, 1)"
      using alloc_block_segment_ok [OF G subset_refl] by blast
    show ?thesis
    proof (cases r1)
      case None
      then show ?thesis using r(1) Some s1 good_mono [of n R S s1] confined_moves [OF s1(2)] by (auto simp: write_block_to_mem_def)
    next
      case g: (Some g)
      have G1: "good (Suc n) (R + {#RSeg g#}) S s1" and seg: "cs_segments s1 g = Some (block_segment_new 0 (to_u32 (iobuf_size buf)) sbuf, 1)"
        using s1(3) g by simp_all
      have "RItem p \<in># R + {#RSeg g#}" using p(1) by simp
      then obtain k1 where it1: "cs_items s1 p = Some (it, k1)"
        using item_exact [OF goodD(1) [OF G] s1(2) goodD(1) [OF G1] _ p(2,4)] by blast
      have v1: "item_holds E s1 it v" by (rule holds_kept [OF goodD(1) [OF G] s1(2) goodD(1) [OF G1] p(2,3) it1])
      obtain m s2 where new: "new_mem_block_item E DIRTY s1 = (m, s2)" by (cases "new_mem_block_item E DIRTY s1")
      have data: "length (chunk E v ?i) \<le> iobuf_size sbuf" "take (length (chunk E v ?i)) (iobuf_bytes sbuf) = chunk E v ?i"
        using r(2) Some buf by simp_all
      obtain s3 where s3: "mem_write_block E m [g] s2 = Some (OK, s3)" "mem_only E 0 (R + {#RSeg g#} + {#RMem m#}) S s3" "still {} s1 s3"
        "mem_holds E s3 m (chunk E v ?i)" "cs_items s3 = cs_items s1" "cs_index s3 = cs_index s1"
        using fill_block_ok [OF goodD(1) [OF G1] new seg cfg, of "chunk E v ?i" "{}"] L data buf by (auto simp: block_segment_new_def)
      have G3: "good (Suc n) (R + {#RSeg g#} + {#RMem m#}) S s3" by (rule good_still [OF G1 s3(2,3)])
      have it3: "cs_items s3 p = Some (it, k1)" using it1 s3(5) by simp
      have v3: "item_holds E s3 it v" by (rule holds_kept [OF goodD(1) [OF G1] stillD(1) [OF s3(3)] s3(2) it1 v1 it3])
      have w3: "confined s s3" by (rule confined_trans [OF confined_moves [OF s1(2)] confined_moves [OF stillD(1) [OF s3(3)]]])
      then have out3: "p \<notin> ran (cs_index s3)" using confined_ran p(4) by blast
      have refs: "RMem m \<in># R + {#RSeg g#} + {#RMem m#}" "RItem p \<in># R + {#RSeg g#} + {#RMem m#}" using p(1) by simp_all
      obtain s4 k4 where s4: "set_mem_block E p ?i (Some m) (Some key) s3 = Some s4" "good (Suc n) (R + {#RSeg g#} + {#RMem m#}) S s4"
        "confined s3 s4" "cs_items s4 p = Some (put_mem ?i m it, k4)" "item_holds E s4 (put_mem ?i m it) v"
        using set_mem_block_ok [OF G3 refs(1) s3(4) refs(2) it3 v3 out3 i] by blast
      have i4: "?i < length (ci_blocks (put_mem ?i m it))" using i by simp
      obtain bs where bs: "block_size (e_cfg E) (put_mem ?i m it) ?i = Some bs" using block_size_ok [OF s4(5) i4] by blast
      obtain s5 where s5: "(if \<not> opt_pinned options \<or> has_disk_layer s4 then
            do { it \<leftarrow> get_item p s4; bs \<leftarrow> block_size (e_cfg E) it ?i; mem_evict_track E key bs s4 } else Some s4) = Some s5"
        "good n (R + {#RSeg g#} + {#RMem m#}) S s5" "moves {} s4 s5"
      proof (cases "\<not> opt_pinned options \<or> has_disk_layer s4")
        case True
        obtain s5 where "mem_evict_track E key bs s4 = Some s5" "good n (R + {#RSeg g#} + {#RMem m#}) S s5" "moves {} s4 s5"
          using track_ok [OF s4(2)] by blast
        then show ?thesis using that True get_item_Some [OF s4(4)] bs by simp
      next
        case False
        then show ?thesis using that good_mono [OF s4(2)] by simp
      qed
      obtain s6 where s6: "release_mem_block E m s5 = Some s6" "mem_only E 0 (R + {#RSeg g#}) S s6" "still {} s5 s6"
        using release_mem_block_ok [OF goodD(1) [OF s5(2)]] by blast
      obtain s7 where s7: "release_segment E g s6 = Some s7" "mem_only E 0 R S s7" "still {} s6 s7"
        using release_segment_ok [OF s6(2)] by blast
      have G7: "good n R S s7" by (rule good_still [OF good_still [OF s5(2) s6(2,3)] s7(2,3)])
      have mv: "moves {} s4 s7" by (rule moves_trans [OF s5(3) moves_trans [OF stillD(1) [OF s6(3)] stillD(1) [OF s7(3)]]])
      have "p \<notin> {}" by simp
      from item_exact [OF goodD(1) [OF s4(2)] mv s7(2) p(1) s4(4) this] obtain k7 where it7: "cs_items s7 p = Some (put_mem ?i m it, k7)" by blast
      have v7: "item_holds E s7 (put_mem ?i m it) v" by (rule holds_kept [OF goodD(1) [OF s4(2)] mv s7(2) s4(4,5) it7])
      have "write_block_to_mem E p key buf options s = Some (OK, s7)"
        unfolding write_block_to_mem_def r(1) Some bind.bind_lunit option.case s1(1) g prod.case new Let_def s3(1)
        using s4(1) s5(1) s6(1) s7(1) by simp
      moreover have "confined s s7" by (rule confined_trans [OF confined_trans [OF w3 s4(3)] confined_moves [OF mv]])
      ultimately show ?thesis using G7 it7 v7 by auto
    qed
  qed
qed

section \<open>Writing an object\<close>

lemma no_dirs: "dsm_alloc_block c dsm_empty = Some (Err E_INTERNAL, None, dsm_empty)"
  by (subst dsm_alloc_block.simps) (simp add: router_next_dir_index_def dsm_empty_def)

text \<open>Without directories a disk block is refused, whatever is evicted.\<close>

lemma alloc_disk_retry_none:
  assumes "good n R S s"
  shows "\<exists>s'. alloc_disk_retry E ident j s = Some (None, s') \<and> good n R S s' \<and> moves P s s' \<and> cs_items s' = cs_items s"
  using assms
proof (induction j arbitrary: s)
  case (Suc j)
  note G = goodD [OF Suc.prems]
  have d: "cs_disk s = dsm_empty" by (rule mem_onlyD(8) [OF G(1)])
  then have same: "s\<lparr>cs_disk := dsm_empty\<rparr> = s" by simp
  have refused: "new_disk_block_item E s = Some (None, s)" using same by (simp add: new_disk_block_item_def d no_dirs)
  obtain p where p: "p_evict_for (e_disk_ops E) ident (to_u64 (FLAGS_block_size (e_cfg E) * FLAGS_disk_evict_times (e_cfg E))) [] (cs_disk_policy s) = Some ([], p)"
    "dinv 0 p" "dtracked p = {}"
    using disk.evict_for_law [of 0 "cs_disk_policy s" ident "to_u64 (FLAGS_block_size (e_cfg E) * FLAGS_disk_evict_times (e_cfg E))" "[]"] G(2)
    unfolding policies_ok_def by auto
  let ?s = "s\<lparr>cs_disk_policy := p\<rparr>"
  have "good n R S ?s" using p(2,3) G by (simp add: cache_ok_def policies_ok_def)
  from Suc.IH [OF this] obtain s' where
    s': "alloc_disk_retry E ident j ?s = Some (None, s')" "good n R S s'" "moves P ?s s'" "cs_items s' = cs_items s" by auto
  have "evict_for_disk_block E ident (FLAGS_block_size (e_cfg E)) s = Some ?s" using p(1) by (simp add: evict_for_disk_block_def disk_evict_for_def)
  then show ?case using refused s' moves_trans [OF moves_policy(2) s'(3)] by simp
qed (simp_all)

lemma write_block_ok:
  assumes G: "good (Suc n) R S s"
    and p: "RItem p \<in># R" "cs_items s p = Some (it, k)" "item_holds E s it v" "p \<notin> ran (cs_index s)" and i: "key_index key < length (ci_blocks it)"
    and buf: "iobuf_bytes buf = chunk E v (key_index key)"
  shows "\<exists>st s' k'. write_block E p key buf options s = Some (st, s') \<and> good n R S s' \<and> confined s s' \<and>
    (if ok st then \<exists>m. cs_items s' p = Some (put_mem (key_index key) m it, k') \<and> item_holds E s' (put_mem (key_index key) m it) v
     else st \<noteq> Err EBUSY \<and> st \<noteq> Err EEXIST)"
proof -
  have "dm_quota_bytes (cs_disk s) = 0" using mem_onlyD(8) [OF goodD(1) [OF G]] by (simp add: dsm_empty_def)
  then have "check_write E options s = Some MEM \<or> check_write E options s = Some DISK" by (simp add: check_write_def)
  then show ?thesis
  proof
    assume "check_write E options s = Some MEM"
    then show ?thesis using write_block_to_mem_ok [OF assms, of options] get_block_Some [OF p(2) i] by (simp add: write_block_def)
  next
    assume c: "check_write E options s = Some DISK"
    obtain s' where s': "alloc_disk_block E key s = Some (None, s')" "good (Suc n) R S s'" "moves {} s s'"
      unfolding alloc_disk_block_def using alloc_disk_retry_none [OF G] by blast
    then have "write_block E p key buf options s = Some (Err E_INTERNAL, s')"
      using c get_block_Some [OF p(2) i] by (simp add: write_block_def write_block_to_disk_def)
    then show ?thesis using good_mono [OF s'(2)] confined_moves [OF s'(3)] by auto
  qed
qed

text \<open>The blocks \<open>j, \<dots>\<close> of the item; those before \<open>j\<close> are in memory already.\<close>

definition filled :: "nat \<Rightarrow> cache_item \<Rightarrow> bool" where
  "filled j it \<longleftrightarrow> (\<forall>i < j. i < length (ci_blocks it) \<longrightarrow> blk_mem (ci_blocks it ! i) \<noteq> None)"

lemma key_index_of [simp]: "i < 2 ^ 32 \<Longrightarrow> key_index (block_key_of ident i) = i"
  by (simp add: key_index_def block_key_of_def unat_of_nat)

lemma blocks_below:
  assumes "item_holds E s it v" and "i < length (ci_blocks it)"
  shows "i < 2 ^ 32"
proof -
  have B: "0 < FLAGS_block_size (e_cfg E)" using cfg by (simp add: config_ok_def)
  moreover have "i < block_count_of (e_cfg E) (length v)" using item_holdsD(1,4) [OF assms(1)] assms(2) by (simp add: block_count_def)
  ultimately have "i * FLAGS_block_size (e_cfg E) < length v" by (rule block_start)
  moreover have "i \<le> i * FLAGS_block_size (e_cfg E)" using B by simp
  ultimately show ?thesis using item_holdsD(3) [OF assms(1)] by linarith
qed

lemma write_blocks_ok:
  assumes buf: "iobuf_bytes buf = v"
  shows "good (l + n) R S s \<Longrightarrow> RItem p \<in># R \<Longrightarrow> cs_items s p = Some (it, k) \<Longrightarrow> item_holds E s it v \<Longrightarrow> p \<notin> ran (cs_index s) \<Longrightarrow>
    j + l = length (ci_blocks it) \<Longrightarrow> filled j it \<Longrightarrow>
    \<exists>st s'. write_blocks E ident p buf options [j..<j + l] s = Some (st, s') \<and> good n R S s' \<and> confined s s' \<and>
      (if ok st then \<exists>it' k'. cs_items s' p = Some (it', k') \<and> item_holds E s' it' v \<and> filled (length (ci_blocks it')) it' \<and>
         ci_cache_key it' = ci_cache_key it \<and> ci_state it' = ci_state it
       else st \<noteq> Err EBUSY \<and> st \<noteq> Err EEXIST)"
proof (induction l arbitrary: j s it k)
  case 0
  then show ?case by (auto simp: confined_def)
next
  case (Suc l)
  have j: "j < length (ci_blocks it)" using Suc.prems(6) by simp
  have j32: "j < 2 ^ 32" by (rule blocks_below [OF Suc.prems(4) j])
  let ?key = "block_key_of ident j" and ?B = "FLAGS_block_size (e_cfg E)"
  let ?seg = "if 1 < block_count_of (e_cfg E) (iobuf_size buf) then x_append_to (e_ext E) buf ?B (j * ?B) else buf"
  have seg: "iobuf_bytes ?seg = chunk E v (key_index ?key)"
  proof (cases "1 < block_count_of (e_cfg E) (iobuf_size buf)")
    case True
    then show ?thesis using j32 buf by (simp add: ext_append_to [OF ext] chunk_def)
  next
    case False
    have "length (ci_blocks it) = block_count_of (e_cfg E) (length v)" using item_holdsD(1,4) [OF Suc.prems(4)] by (simp add: block_count_def)
    then have "j = 0" "block_count_of (e_cfg E) (length v) = 1" using j False buf by auto
    then have "(length v - 1) div ?B = 0" using item_holdsD(2) [OF Suc.prems(4)] by (simp add: block_count_of_def)
    moreover have "0 < ?B" using cfg by (simp add: config_ok_def)
    ultimately have "length v \<le> ?B" by (simp add: div_eq_0_iff)
    then show ?thesis using False \<open>j = 0\<close> buf by (simp add: chunk_def)
  qed
  have G: "good (Suc (l + n)) R S s" using Suc.prems(1) by simp
  have i: "key_index ?key < length (ci_blocks it)" using j j32 by simp
  obtain st s1 k1 where s1: "write_block E p ?key ?seg options s = Some (st, s1)" "good (l + n) R S s1" "confined s s1"
    "if ok st then \<exists>m. cs_items s1 p = Some (put_mem (key_index ?key) m it, k1) \<and> item_holds E s1 (put_mem (key_index ?key) m it) v
     else st \<noteq> Err EBUSY \<and> st \<noteq> Err EEXIST"
    using write_block_ok [OF G Suc.prems(2-5) i seg] by blast
  have step: "write_blocks E ident p buf options [j..<j + Suc l] s =
      (if \<not> ok st then Some (st, s1) else write_blocks E ident p buf options [Suc j..<Suc j + l] s1)"
  proof -
    have list: "[j..<j + Suc l] = j # [Suc j..<Suc j + l]" by (simp add: upt_conv_Cons del: upt_Suc)
    show ?thesis unfolding list write_blocks.simps Let_def s1(1) bind.bind_lunit prod.case by (rule refl)
  qed
  show ?case
  proof (cases "ok st")
    case False
    have "good n R S s1" using s1(2)
    proof (induction l)
      case (Suc l)
      then show ?case using good_mono [of "l + n" R S s1] by simp
    qed simp
    then show ?thesis using step False s1(3,4) by auto
  next
    case True
    then obtain m where m: "cs_items s1 p = Some (put_mem j m it, k1)" "item_holds E s1 (put_mem j m it) v" using s1(4) j32 by auto
    have out: "p \<notin> ran (cs_index s1)" using confined_ran [OF s1(3)] Suc.prems(5) by blast
    have len: "Suc j + l = length (ci_blocks (put_mem j m it))" using Suc.prems(6) by simp
    have fill: "filled (Suc j) (put_mem j m it)" using Suc.prems(7) by (auto simp: filled_def put_mem_def nth_list_update less_Suc_eq)
    from Suc.IH [OF s1(2) Suc.prems(2) m out len fill] obtain st' s' where
      s': "write_blocks E ident p buf options [Suc j..<Suc j + l] s1 = Some (st', s')" "good n R S s'" "confined s1 s'"
      "if ok st' then \<exists>it' k'. cs_items s' p = Some (it', k') \<and> item_holds E s' it' v \<and> filled (length (ci_blocks it')) it' \<and>
         ci_cache_key it' = ci_cache_key (put_mem j m it) \<and> ci_state it' = ci_state (put_mem j m it)
       else st' \<noteq> Err EBUSY \<and> st' \<noteq> Err EEXIST" by blast
    show ?thesis using step True s'(1,2) s'(4) [unfolded put_mem_simps] confined_trans [OF s1(3) s'(3)] by simp
  qed
qed

end

end
