(* ===== verification/MemoryOps.thy ===== *)
theory MemoryOps
  imports MemoryWrite
begin

text \<open>
  The public operations of a cache without a disk layer, against the partial map from keys to the bytes last set.
\<close>

section \<open>Setting an object\<close>

lemma index_holds_unset:
  assumes "index_holds E S s" and "cs_index s (cachekey2id key) = None"
  shows "index_holds E (S(key := x)) s"
  unfolding index_holds_def
proof (intro allI impI)
  fix ident p assume i: "cs_index s ident = Some p"
  then obtain it k v where it: "cs_items s p = Some (it, k)" "cachekey2id (ci_cache_key it) = ident"
    "is_released it \<or> S (ci_cache_key it) = Some v" "item_holds E s it v" using assms(1) unfolding index_holds_def by blast
  then have "ci_cache_key it \<noteq> key" using i assms(2) by auto
  then show "\<exists>it k v. cs_items s p = Some (it, k) \<and> cachekey2id (ci_cache_key it) = ident \<and>
      (is_released it \<or> (S(key := x)) (ci_cache_key it) = Some v) \<and> item_holds E s it v"
    using it by auto
qed

lemma mem_only_unset: "mem_only E c R S s \<Longrightarrow> cs_index s (cachekey2id key) = None \<Longrightarrow> mem_only E c R (S(key := x)) s"
  using index_holds_unset [of E S s key x] unfolding mem_only_def by blast

lemma index_insert_ok:
  assumes M: "mem_only E 0 R S s" and p: "cs_items s p = Some (it, k)" "item_holds E s it v" and none: "cs_index s (cachekey2id (ci_cache_key it)) = None"
  shows "\<exists>s'. index_insert E (cachekey2id (ci_cache_key it)) p s = Some (True, s') \<and> mem_only E 0 R (S(ci_cache_key it \<mapsto> v)) s' \<and>
    cs_items s' p = Some (it, Suc k) \<and> item_holds E s' it v \<and> cs_index s' = (cs_index s)(cachekey2id (ci_cache_key it) \<mapsto> p) \<and>
    cs_locks s' = cs_locks s \<and> cs_mem_policy s' = cs_mem_policy s \<and> cs_disk_policy s' = cs_disk_policy s \<and>
    cs_concurrent_writes s' = cs_concurrent_writes s"
proof -
  let ?id = "cachekey2id (ci_cache_key it)"
  obtain s1 where s1: "retain_item p s = Some s1" "mem_only E 0 (R + {#RItem p#}) S s1" "still {} s s1" "cs_items s1 p = Some (it, Suc k)"
    using retain_item_ok [OF M p(1)] by blast
  have i1: "cs_index s1 = cs_index s" "cs_locks s1 = cs_locks s" "cs_concurrent_writes s1 = cs_concurrent_writes s"
    using s1(1) by (auto simp: retain_item_def retain_def split: bind_splits)
  have none1: "cs_index s1 ?id = None" using none i1 by simp
  note M1 = mem_onlyD [OF mem_only_unset [OF s1(2) none1, of "Some v"]]
  let ?s = "s1\<lparr>cs_index := (cs_index s1)(?id \<mapsto> p)\<rparr>"
  have v1: "item_holds E s1 it v" by (rule holds_kept [OF M stillD(1) [OF s1(3)] s1(2) p s1(4)])
  have same: "item_holds E ?s x w = item_holds E s1 x w" for x w by (simp add: item_holds_def mem_holds_def)
  have "own R ?s" using own_index_upd [of R "Some p" s1 ?id] M1(1) none1 by simp
  moreover have "acct E 0 ?s" using M1(2) by (simp add: acct_def)
  moreover have "below_brk ?s" using M1(3) by (simp add: below_brk_def)
  moreover have "items_ok E ?s" using M1(4) unfolding items_ok_def same by simp
  moreover have "index_holds E (S(ci_cache_key it \<mapsto> v)) ?s"
    unfolding index_holds_def
  proof (intro allI impI)
    fix ident q assume q: "cs_index ?s ident = Some q"
    show "\<exists>it' j w. cs_items ?s q = Some (it', j) \<and> cachekey2id (ci_cache_key it') = ident \<and>
        (is_released it' \<or> (S(ci_cache_key it \<mapsto> v)) (ci_cache_key it') = Some w) \<and> item_holds E ?s it' w"
    proof (cases "ident = ?id")
      case True
      then show ?thesis using q s1(4) v1 unfolding same by auto
    next
      case False
      then have "cs_index s1 ident = Some q" using q by simp
      then show ?thesis using M1(5) unfolding same index_holds_def by simp
    qed
  qed
  ultimately have "mem_only E 0 R (S(ci_cache_key it \<mapsto> v)) ?s" unfolding mem_only_def using M1(6-8) by simp
  moreover have "index_insert E ?id p s = Some (True, ?s)" using s1(1) none1 by (simp add: index_insert_def phm_find_def if_contains_def release_opt_def)
  ultimately show ?thesis using s1(4) v1 i1 stillD(2,3) [OF s1(3)] unfolding same [symmetric] by (intro exI [of _ ?s]) simp
qed

text \<open>A release leaves the index alone.\<close>

lemma fold_opt_keeps:
  assumes "\<And>x s s'. f x s = Some s' \<Longrightarrow> g s' = g s" and "fold_opt f xs s = Some s'"
  shows "g s' = g s"
  using assms(2)
proof (induction xs arbitrary: s)
  case (Cons x xs)
  then obtain t where "f x s = Some t" "fold_opt f xs t = Some s'" by (cases "f x s") auto
  then show ?case using Cons.IH assms(1) by metis
qed simp

lemma release_segment_index: "release_segment E p s = Some s' \<Longrightarrow> cs_index s' = cs_index s"
  by (auto simp: release_segment_def split: bind_splits option.splits)

lemma release_opt_index:
  assumes "\<And>p s s'. f p s = Some s' \<Longrightarrow> cs_index s' = cs_index s" and "release_opt f p s = Some s'"
  shows "cs_index s' = cs_index s"
  using assms by (auto simp: release_opt_def split: option.splits)

lemma release_mem_block_index: "release_mem_block E p s = Some s' \<Longrightarrow> cs_index s' = cs_index s"
  using fold_opt_keeps [where f = "release_opt (release_segment E)" and g = cs_index, OF release_opt_index [OF release_segment_index]]
  by (fastforce simp: release_mem_block_def Let_def split: bind_splits option.splits)

lemma release_disk_block_index: "release_disk_block E p s = Some s' \<Longrightarrow> cs_index s' = cs_index s"
  by (auto simp: release_disk_block_def Let_def split: bind_splits option.splits)

lemma release_block_index: "release_block E b s = Some s' \<Longrightarrow> cs_index s' = cs_index s"
  using release_opt_index [of "release_disk_block E", OF release_disk_block_index] release_opt_index [of "release_mem_block E", OF release_mem_block_index]
  by (fastforce simp: release_block_def split: bind_splits)

lemma release_item_index: "release_item E p s = Some s' \<Longrightarrow> cs_index s' = cs_index s"
  using fold_opt_keeps [where f = "release_block E" and g = cs_index, OF release_block_index]
  by (fastforce simp: release_item_def Let_def split: bind_splits option.splits)

text \<open>The allocation of the item of a \<^verbatim>\<open>set\<close> is refused after all retries: the code then uses a null pointer.\<close>

definition item_refused ::
    "('w, 'p, 'q) env \<Rightarrow> cache_key \<Rightarrow> nat \<Rightarrow> write_options option \<Rightarrow> ('w, 'p, 'q) cache \<Rightarrow> bool" where
  "item_refused E key sz options s \<longleftrightarrow> (\<exists>s'. alloc_cache_item E key sz
     (to_u64 (fst (ask E s) + (case options of None \<Rightarrow> 0 | Some o' \<Rightarrow> wo_ttl_seconds o'))) (snd (ask E s)) = Some (None, s'))"

text \<open>The object of a key is in the index, with all its blocks in memory.\<close>

definition resident :: "('w, 'p, 'q) env \<Rightarrow> cache_key \<Rightarrow> bytes \<Rightarrow> ('w, 'p, 'q) cache \<Rightarrow> bool" where
  "resident E key v s \<longleftrightarrow> (\<exists>p it k. cs_index s (cachekey2id key) = Some p \<and> cs_items s p = Some (it, k) \<and> ci_cache_key it = key \<and>
     item_holds E s it v \<and> \<not> is_released it \<and> (\<forall>b \<in> set (ci_blocks it). blk_mem b \<noteq> None))"

lemma resident_exact:
  assumes "mem_only E 0 R S s" and "moves {} s s'" and "mem_only E 0 R' S' s'" and "cs_index s' = cs_index s" and "resident E key v s"
  shows "resident E key v s'"
proof -
  obtain p it k where p: "cs_index s (cachekey2id key) = Some p" "cs_items s p = Some (it, k)" "ci_cache_key it = key" "item_holds E s it v"
    "\<not> is_released it" "\<forall>b \<in> set (ci_blocks it). blk_mem b \<noteq> None" using assms(5) unfolding resident_def by blast
  have "cs_index s' (cachekey2id key) = Some p" using p(1) assms(4) by simp
  then obtain it' k' where p': "cs_items s' p = Some (it', k')" using mem_onlyD(5) [OF assms(3)] unfolding index_holds_def by blast
  have "p < cs_brk s" by (rule below_brkD(1) [OF mem_onlyD(3) [OF assms(1)] p(2)])
  with movesD(7) [OF assms(2) p'] p(2) have "it' = it" by auto
  then show ?thesis
    using p p' assms(4) holds_kept [OF assms(1,2,3) p(2,4) p'] unfolding resident_def by auto
qed

text \<open>The state in which a \<^verbatim>\<open>set\<close> allocates its item: the object the key had is removed. It may be refused there.\<close>

definition set_start :: "('w, 'p, 'q) env \<Rightarrow> cache_key \<Rightarrow> write_options option \<Rightarrow> ('w, 'p, 'q) cache \<Rightarrow> ('w, 'p, 'q) cache option" where
  "set_start E key options s =
     do { (cache_item, s) \<leftarrow> index_find (cachekey2id key) (s\<lparr>cs_concurrent_writes := to_u64 (cs_concurrent_writes s + 1)\<rparr>);
          case cache_item of
            None \<Rightarrow> Some s
          | Some p \<Rightarrow> if (case options of None \<Rightarrow> True | Some o' \<Rightarrow> wo_overwrite o') then remove_cache_item E (cachekey2id key) p s else None }"

definition set_refused :: "('w, 'p, 'q) env \<Rightarrow> cache_key \<Rightarrow> nat \<Rightarrow> write_options option \<Rightarrow> ('w, 'p, 'q) cache \<Rightarrow> bool" where
  "set_refused E key sz options s \<longleftrightarrow> sz \<noteq> 0 \<and> to_u64 (cs_concurrent_writes s + 1) \<le> FLAGS_max_concurrent_writes (e_cfg E) \<and>
     (case set_start E key options s of None \<Rightarrow> False | Some t \<Rightarrow> item_refused E key sz options t)"

text \<open>What is stored after a \<^verbatim>\<open>set\<close>: an overwriting one that fails leaves nothing under the key.\<close>

definition stored_after :: "cache_key \<Rightarrow> bytes \<Rightarrow> status \<Rightarrow> (cache_key \<rightharpoonup> bytes) \<Rightarrow> (cache_key \<rightharpoonup> bytes)" where
  "stored_after key v st S = (if ok st then S(key \<mapsto> v) else if v = [] \<or> st = Err EBUSY \<or> st = Err EEXIST then S else S(key := None))"

context memory_cache
begin

lemma good_mono_add: "good (l + n) R S s \<Longrightarrow> good n R S s"
proof (induction l)
  case (Suc l)
  then show ?case using good_mono [of "l + n" R S s] by simp
qed simp

lemma pin_flag_ok:
  assumes G: "good n R S s" and p: "cs_items s p = Some (it, k)" "ci_state it = 0" "item_holds E s it v"
  shows "\<exists>s' it'. (if c then do { (changed, s) \<leftarrow> item_flag p (set_pinned True) s; Some s } else Some s) = Some s' \<and> good n R S s' \<and>
    confined s s' \<and> cs_items s' p = Some (it', k) \<and> item_holds E s' it' v \<and> ci_cache_key it' = ci_cache_key it \<and> \<not> is_released it' \<and>
    ci_blocks it' = ci_blocks it"
proof (cases c)
  case True
  have f: "snd (set_pinned True it) = it\<lparr>ci_state := 1\<rparr>" using p(2) by (simp add: set_pinned_def set_state_value_def state_masks)
  have up: "is_released it \<longrightarrow> is_released (it\<lparr>ci_state := 1\<rparr>)" using p(2) by (simp add: is_released_def has_state_def)
  obtain s' where s': "item_flag p (set_pinned True) s = Some (fst (set_pinned True it), s')" "mem_only E 0 R S s'" "still {p} s s'"
    "cs_items s' p = Some (it\<lparr>ci_state := 1\<rparr>, k)"
    using item_flag_ok [where f = "set_pinned True" and P = "{p}", OF goodD(1) [OF G] p(1) f up] by blast
  have "item_holds E s' (it\<lparr>ci_state := 1\<rparr>) v" by (rule holds_kept [OF goodD(1) [OF G] stillD(1) [OF s'(3)] s'(2) p(1,3) s'(4)])
  moreover have "\<not> is_released (it\<lparr>ci_state := 1\<rparr>)" by (simp add: is_released_def has_state_def state_masks)
  ultimately show ?thesis using True s' good_still [OF G s'(2,3)] confined_moves [OF stillD(1) [OF s'(3)]] by auto
next
  case False
  have "\<not> is_released it" using p(2) by (simp add: is_released_def has_state_def)
  then show ?thesis using False G p by (auto simp: confined_def)
qed

lemma write_cache_item_ok:
  assumes G: "good (block_count_of (e_cfg E) (length v) + n) R S s" and buf: "iobuf_bytes buf = v"
    and v: "v \<noteq> []" "length v + FLAGS_slice_size (e_cfg E) \<le> 2 ^ 32" and none: "cs_index s (cachekey2id key) = None"
  shows "if item_refused E key (length v) options s then write_cache_item E (cachekey2id key) key buf options s = None
    else (\<exists>st s'. write_cache_item E (cachekey2id key) key buf options s = Some (st, s') \<and>
       good n R (if ok st then S(key \<mapsto> v) else S(key := None)) s' \<and> cs_concurrent_writes s' = cs_concurrent_writes s \<and>
       st \<noteq> Err EBUSY \<and> st \<noteq> Err EEXIST \<and> (ok st \<longrightarrow> resident E key v s'))"
proof -
  let ?c = "block_count_of (e_cfg E) (length v)" and ?id = "cachekey2id key"
  let ?t = "to_u64 (fst (ask E s) + (case options of None \<Rightarrow> 0 | Some o' \<Rightarrow> wo_ttl_seconds o'))"
  let ?s0 = "s\<lparr>cs_asked := cs_asked s + 1\<rparr>"
  have ask: "ask E s = (e_oracle E (cs_asked s), ?s0)" by (simp add: ask_def)
  have G0: "good (?c + n) R S ?s0" using G by (simp add: cache_ok_def policies_ok_def)
  have sz: "0 < length v" using v(1) by simp
  obtain r s1 where s1: "alloc_cache_item E key (length v) ?t ?s0 = Some (r, s1)" "moves (ran (cs_index ?s0)) ?s0 s1"
    "case r of None \<Rightarrow> good (?c + n) R S s1
      | Some p \<Rightarrow> good (?c + n) (R + {#RItem p#}) S s1 \<and> cs_items s1 p = Some (cache_item_new (e_cfg E) key (length v) ?t, 1) \<and> p \<notin> ran (cs_index s1)"
    unfolding alloc_cache_item_def using alloc_item_retry_ok [OF G0 sz v(2) subset_refl] by blast
  show ?thesis
  proof (cases r)
    case None
    then have "item_refused E key (length v) options s" "write_cache_item E ?id key buf options s = None"
      using s1(1) ask buf by (auto simp: item_refused_def write_cache_item_def)
    then show ?thesis by simp
  next
    case (Some p)
    let ?it = "cache_item_new (e_cfg E) key (length v) ?t"
    have given: "\<not> item_refused E key (length v) options s" using s1(1) ask Some by (simp add: item_refused_def)
    have G1: "good (?c + n) (R + {#RItem p#}) S s1" and p1: "cs_items s1 p = Some (?it, 1)" "p \<notin> ran (cs_index s1)"
      using s1(3) Some by simp_all
    have w1: "confined s s1" using confined_moves [OF s1(2)] by (simp add: confined_def)
    have v1: "item_holds E s1 ?it v" by (rule item_new_holds [OF sz v(2) refl])
    have st0: "ci_state ?it = 0" by (simp add: cache_item_new_def)
    obtain s2 it2 where s2: "(if opt_pinned options then do { (changed, s) \<leftarrow> item_flag p (set_pinned True) s1; Some s } else Some s1) = Some s2"
      "good (?c + n) (R + {#RItem p#}) S s2" "confined s1 s2" "cs_items s2 p = Some (it2, 1)" "item_holds E s2 it2 v"
      "ci_cache_key it2 = ci_cache_key ?it" "\<not> is_released it2" "ci_blocks it2 = ci_blocks ?it"
      using pin_flag_ok [OF G1 p1(1) st0 v1] by blast
    have out2: "p \<notin> ran (cs_index s2)" using confined_ran [OF s2(3)] p1(2) by blast
    have key2: "ci_cache_key it2 = key" using s2(6) by (simp add: cache_item_new_def)
    have len2: "0 + ?c = length (ci_blocks it2)" using s2(8) by (simp add: cache_item_new_def)
    have fill2: "filled 0 it2" by (simp add: filled_def)
    have pR: "RItem p \<in># R + {#RItem p#}" by simp
    obtain st s3 where s3: "write_blocks E ?id p buf options [0..<0 + ?c] s2 = Some (st, s3)" "good n (R + {#RItem p#}) S s3" "confined s2 s3"
      "if ok st then \<exists>it' k'. cs_items s3 p = Some (it', k') \<and> item_holds E s3 it' v \<and> filled (length (ci_blocks it')) it' \<and>
         ci_cache_key it' = ci_cache_key it2 \<and> ci_state it' = ci_state it2
       else st \<noteq> Err EBUSY \<and> st \<noteq> Err EEXIST"
      using write_blocks_ok [OF buf s2(2) pR s2(4,5) out2 len2 fill2] by blast
    have c: "Suc ((iobuf_size buf - 1) div FLAGS_block_size (e_cfg E)) = 0 + ?c" using sz buf by (simp add: block_count_of_def)
    have none3: "cs_index s3 ?id = None"
      using confined_trans [OF w1 confined_trans [OF s2(3) s3(3)]] none by (cases "cs_index s3 ?id") (auto simp: confined_def)
    have cw: "cs_concurrent_writes s3 = cs_concurrent_writes s"
      using confined_trans [OF w1 confined_trans [OF s2(3) s3(3)]] by (simp add: confined_def)
    have run: "write_cache_item E ?id key buf options s =
        do { s \<leftarrow> (if \<not> ok st then Some s3 else do { (inserted, s) \<leftarrow> index_insert E ?id p s3; Some s });
             s \<leftarrow> release_item E p s;
             Some (st, s) }"
      unfolding write_cache_item_def ask prod.case Let_def buf s1(1) [unfolded ask fst_conv] Some bind.bind_lunit s2(1)
      using s3(1) c buf by simp
    show ?thesis
    proof (cases "ok st")
      case False
      obtain s4 where s4: "release_item E p s3 = Some s4" "mem_only E 0 R S s4" "still {} s3 s4"
        using release_item_ok [OF goodD(1) [OF s3(2)]] by blast
      have "cs_index s4 ?id = None" using movesD(8) [OF stillD(1) [OF s4(3)]] none3 by (cases "cs_index s4 ?id") auto
      then have "mem_only E 0 R (S(key := None)) s4" by (rule mem_only_unset [OF s4(2)])
      then have "good n R (S(key := None)) s4" using good_still [OF s3(2) _ s4(3)] by blast
      then show ?thesis using given run False s4(1) s3(4) cw movesD(4) [OF stillD(1) [OF s4(3)]] by auto
    next
      case True
      then obtain it3 k3 where it3: "cs_items s3 p = Some (it3, k3)" "item_holds E s3 it3 v" "filled (length (ci_blocks it3)) it3"
        "ci_cache_key it3 = key" "ci_state it3 = ci_state it2" using s3(4) key2 by auto
      have none3': "cs_index s3 (cachekey2id (ci_cache_key it3)) = None" using none3 it3(4) by simp
      obtain s4 where s4: "index_insert E ?id p s3 = Some (True, s4)" "mem_only E 0 (R + {#RItem p#}) (S(key \<mapsto> v)) s4"
        "cs_items s4 p = Some (it3, Suc k3)" "item_holds E s4 it3 v" "cs_index s4 = (cs_index s3)(?id \<mapsto> p)" "cs_locks s4 = cs_locks s3"
        "cs_mem_policy s4 = cs_mem_policy s3" "cs_disk_policy s4 = cs_disk_policy s3" "cs_concurrent_writes s4 = cs_concurrent_writes s3"
        using index_insert_ok [OF goodD(1) [OF s3(2)] it3(1,2) none3'] unfolding it3(4) by blast
      have G4: "good n (R + {#RItem p#}) (S(key \<mapsto> v)) s4" using s4(2,6-8) goodD [OF s3(2)] by (simp add: cache_ok_def policies_ok_def)
      have "\<not> is_released it3" using s2(7) it3(5) by (simp add: is_released_def has_state_def)
      moreover have "\<forall>b \<in> set (ci_blocks it3). blk_mem b \<noteq> None" using it3(3) by (auto simp: filled_def in_set_conv_nth)
      ultimately have res: "resident E key v s4" unfolding resident_def using s4(3,4,5) it3(4) by simp
      obtain s5 where s5: "release_item E p s4 = Some s5" "mem_only E 0 R (S(key \<mapsto> v)) s5" "still {} s4 s5" "cs_index s5 = cs_index s4"
        using release_item_ok [OF s4(2)] release_item_index by blast
      have "good n R (S(key \<mapsto> v)) s5" by (rule good_still [OF G4 s5(2,3)])
      moreover have "resident E key v s5" by (rule resident_exact [OF s4(2) stillD(1) [OF s5(3)] s5(2,4) res])
      ultimately show ?thesis using given run True s4(1,9) s5(1) s3(4) cw movesD(4) [OF stillD(1) [OF s5(3)]] by (cases st) auto
    qed
  qed
qed

lemma to_u64_back: "w < 2 ^ 64 \<Longrightarrow> sub64 (to_u64 (w + 1)) 1 = w"
  by (cases "w = 2 ^ 64 - 1") (simp_all add: to_u64_def sub64_def)

text \<open>A \<^verbatim>\<open>set\<close> returns, unless the allocation of its item is refused: then the code uses a null pointer.\<close>

lemma set_op_ok:
  assumes G: "good (block_count_of (e_cfg E) (length v) + n) R S s" and buf: "iobuf_bytes buf = v"
    and v: "length v + FLAGS_slice_size (e_cfg E) \<le> 2 ^ 32" and w: "cs_concurrent_writes s < 2 ^ 64"
  shows "if set_refused E key (length v) options s then set_op E key buf options s = None
    else (\<exists>st s'. set_op E key buf options s = Some (st, s') \<and> good n R (stored_after key v st S) s' \<and>
       cs_concurrent_writes s' = cs_concurrent_writes s \<and> (ok st \<longrightarrow> resident E key v s'))"
proof -
  let ?c = "block_count_of (e_cfg E) (length v)" and ?id = "cachekey2id key"
  let ?w = "to_u64 (cs_concurrent_writes s + 1)"
  have sz: "iobuf_size buf = length v" using buf by simp
  show ?thesis
  proof (cases "v = [] \<or> FLAGS_max_concurrent_writes (e_cfg E) < ?w")
    case True
    then have "\<not> set_refused E key (length v) options s" by (auto simp: set_refused_def)
    then show ?thesis using True good_mono_add [OF G] sz by (auto simp: set_op_def stored_after_def)
  next
    case False
    let ?s = "s\<lparr>cs_concurrent_writes := ?w\<rparr>"
    have G0: "good (?c + n) R S ?s" using G by (simp add: cache_ok_def policies_ok_def)
    obtain s1 where s1: "index_find ?id ?s = Some (cs_index ?s ?id, s1)" "mem_only E 0 (R + opt_ref RItem (cs_index ?s ?id)) S s1" "still {} ?s s1"
      using index_find_ok [OF goodD(1) [OF G0]] by blast
    let ?item = "cs_index ?s ?id"
    let ?R = "R + opt_ref RItem ?item"
    have G1: "good (?c + n) ?R S s1" by (rule good_still [OF G0 s1(2,3)])
    let ?over = "case options of None \<Rightarrow> True | Some o' \<Rightarrow> wo_overwrite o'"
    show ?thesis
    proof (cases "?item \<noteq> None \<and> \<not> ?over")
      case True
      then obtain p where p: "?item = Some p" by blast
      let ?s1 = "s1\<lparr>cs_concurrent_writes := sub64 (cs_concurrent_writes s1) 1\<rparr>"
      have w1: "cs_concurrent_writes ?s1 = cs_concurrent_writes s"
        using to_u64_back [OF w] movesD(4) [OF stillD(1) [OF s1(3)]] by simp
      have "good (?c + n) ?R S ?s1" using G1 by (simp add: cache_ok_def policies_ok_def)
      then obtain s2 where s2: "release_opt (release_item E) ?item ?s1 = Some s2" "mem_only E 0 R S s2" "still {} ?s1 s2"
        "good (?c + n) R S s2" using release_opt_item_ok [OF goodD(1)] good_still by blast
      have "set_op E key buf options s = Some (Err EEXIST, s2)"
        using False True s1(1) s2(1) sz p by (simp add: set_op_def)
      moreover have "\<not> set_refused E key (length v) options s" using True s1(1) p by (simp add: set_refused_def set_start_def)
      ultimately show ?thesis
        using good_mono_add [OF s2(4)] w1 movesD(4) [OF stillD(1) [OF s2(3)]] by (auto simp: stored_after_def)
    next
      case over: False
      obtain s2 where s2: "(case ?item of None \<Rightarrow> Some (OK, s1)
            | Some p \<Rightarrow> if ?over then do { s \<leftarrow> remove_cache_item E ?id p s1; Some (OK, s) } else Some (Err EEXIST, s1)) = Some (OK, s2)"
        "good (?c + n) ?R S s2" "cs_concurrent_writes s2 = ?w" "cs_index s2 ?id = None" "set_start E key options s = Some s2"
      proof (cases ?item)
        case None
        then have "cs_index s1 ?id = None" using movesD(8) [OF stillD(1) [OF s1(3)]] by (cases "cs_index s1 ?id") auto
        then show ?thesis using that None G1 movesD(4) [OF stillD(1) [OF s1(3)]] s1(1) by (simp add: set_start_def)
      next
        case (Some p)
        then have "RItem p \<in># ?R" by simp
        from remove_cache_item_ok [OF G1 this, of "{p}" ?id] obtain t where
          "remove_cache_item E ?id p s1 = Some t" "good (?c + n) ?R S t" "moves {p} s1 t" "cs_index t ?id = None" by auto
        then show ?thesis using that Some over movesD(4) [OF stillD(1) [OF s1(3)]] movesD(4) [of "{p}" s1 t] s1(1) by (simp add: set_start_def)
      qed
      have "v \<noteq> []" using False by simp
      note W = write_cache_item_ok [OF s2(2) buf this v s2(4), of options]
      have same: "set_refused E key (length v) options s = item_refused E key (length v) options s2"
        using False s2(5) by (simp add: set_refused_def not_less)
      show ?thesis
      proof (cases "item_refused E key (length v) options s2")
        case True
        then have "set_op E key buf options s = None" using False W s1(1) s2(1) sz by (simp add: set_op_def)
        then show ?thesis using same True by simp
      next
        case given: False
        then obtain st s3 where s3: "write_cache_item E ?id key buf options s2 = Some (st, s3)"
          "good n ?R (if ok st then S(key \<mapsto> v) else S(key := None)) s3" "cs_concurrent_writes s3 = cs_concurrent_writes s2"
          "st \<noteq> Err EBUSY" "st \<noteq> Err EEXIST" "ok st \<longrightarrow> resident E key v s3" using W by (simp only: if_False) blast
        have "stored_after key v st S = (if ok st then S(key \<mapsto> v) else S(key := None))" using s3(4,5) False by (simp add: stored_after_def)
        note s3(2) [folded this]
        let ?s3 = "s3\<lparr>cs_concurrent_writes := sub64 (cs_concurrent_writes s3) 1\<rparr>"
        have w3: "cs_concurrent_writes ?s3 = cs_concurrent_writes s" using to_u64_back [OF w] s3(3) s2(3) by simp
        have G3: "good n ?R (stored_after key v st S) ?s3"
          using \<open>good n ?R (stored_after key v st S) s3\<close> by (simp add: cache_ok_def policies_ok_def)
        obtain s4 where s4: "release_opt (release_item E) ?item ?s3 = Some s4" "mem_only E 0 R (stored_after key v st S) s4" "still {} ?s3 s4"
          "good n R (stored_after key v st S) s4" using release_opt_item_ok [OF goodD(1) [OF G3]] good_still [OF G3] by blast
        have "resident E key v s4" if j: "ok st"
        proof -
          have "resident E key v ?s3" using s3(6) j by (simp add: resident_def item_holds_def mem_holds_def)
          moreover have idx4: "cs_index s4 = cs_index ?s3" by (rule release_opt_index [OF _ s4(1)]) (rule release_item_index)
          ultimately show ?thesis
            using resident_exact [OF goodD(1) [OF G3] stillD(1) [OF s4(3)] s4(2)] by blast
        qed
        moreover have "set_op E key buf options s = Some (st, s4)"
          using False s1(1) s2(1) s3(1) s4(1) sz by (simp add: set_op_def)
        ultimately show ?thesis using same given s4(4) w3 movesD(4) [OF stillD(1) [OF s4(3)]] by auto
      qed
    qed
  qed
qed

end

end
