(* ===== verification/MemoryRead.thy ===== *)
theory MemoryRead
  imports MemoryOps
begin

text \<open>
  Reading from a cache without a disk layer: a read returns the bytes last set in the range asked for, or reports that
  a block is missing.
\<close>

section \<open>A block in memory\<close>

lemma cut_whole:
  assumes X: "ext_ok (e_ext E)" and "sg_offset seg = 0" and "off < 2 ^ 32" and "off + n \<le> iobuf_size (sg_buf seg)"
  shows "sg_offset (cut_segment E seg off n) = off" and "iobuf_bytes (sg_buf (cut_segment E seg off n)) = take n (drop off (iobuf_bytes (sg_buf seg)))"
proof -
  have "to_u32 (off + 2 ^ 32) = off" using assms(3) by (simp add: to_u32_def)
  then show "sg_offset (cut_segment E seg off n) = off"
    "iobuf_bytes (sg_buf (cut_segment E seg off n)) = take n (drop off (iobuf_bytes (sg_buf seg)))"
    using assms by (simp_all add: cut_segment_def Let_def block_segment_new_def ext_append_to [OF X])
qed

lemma fold_same_slice:
  assumes "\<And>i. i \<in> set is \<Longrightarrow> nth_opt slices i = Some cur"
  shows "fold_opt (read_slice E hp slices) is (cur, so, n, segs) = Some (cur, so, n, segs)"
  using assms by (induction "is") (simp_all add: read_slice_def)

text \<open>A range of slices that share one segment is read in one piece.\<close>

lemma read_one_segment:
  assumes X: "ext_ok (e_ext E)" and b: "0 < FLAGS_slice_size (e_cfg E)" and n: "0 < n" "off + n \<le> k * FLAGS_slice_size (e_cfg E)" "off + n < 2 ^ 32"
    and slices: "slices = replicate k (Some g) @ rest" and g: "deref hp g = Some seg"
  shows "read_slices E hp slices off n = Some [cut_segment E seg off n]"
proof -
  let ?b = "FLAGS_slice_size (e_cfg E)"
  have idx: "off2slice (e_cfg E) off = off div ?b" "off2slice (e_cfg E) (sub64 (off + n) 1) = (off + n - 1) div ?b"
    using n by (simp_all add: off2slice_small)
  have "off + n - 1 < k * ?b" using n by linarith
  then have last: "(off + n - 1) div ?b < k" by (simp add: less_mult_imp_div_less)
  have at: "nth_opt slices i = Some (Some g)" if "i < k" for i
    using that slices by (simp add: nth_append)
  have "off div ?b \<le> (off + n - 1) div ?b" using n by (intro div_le_mono) simp
  then have "off div ?b < k" using last by linarith
  then have first: "nth_opt slices (off div ?b) = Some (Some g)" by (rule at)
  have same: "fold_opt (read_slice E hp slices) [Suc (off div ?b)..<Suc ((off + n - 1) div ?b)] (Some g, off, n, []) = Some (Some g, off, n, [])"
    by (rule fold_same_slice) (use at last in auto)
  show ?thesis unfolding read_slices_def idx Let_def first bind.bind_lunit same prod.case using g by (simp add: flush_cur_def)
qed

lemma mem_holds_read:
  assumes X: "ext_ok (e_ext E)" and C: "config_ok (e_cfg E)" and m: "mem_holds E s m d" and n: "0 < n" "off + n \<le> length d"
  shows "\<exists>b k seg. cs_mem_blocks s m = Some (b, k) \<and> read_slices E (cs_segments s) (mb_slices b) off n = Some [seg] \<and>
    sg_offset seg = off \<and> iobuf_bytes (sg_buf seg) = take n (drop off d)"
proof -
  obtain b k g seg kg c where b: "cs_mem_blocks s m = Some (b, k)" "cs_segments s g = Some (seg, kg)"
    "mb_slices b = replicate c (Some g) @ replicate (block_slice_count (e_cfg E) - c) None" "c \<le> block_slice_count (e_cfg E)"
    "length d \<le> c * FLAGS_slice_size (e_cfg E)" "sg_offset seg = 0" "length d \<le> iobuf_size (sg_buf seg)"
    "take (length d) (iobuf_bytes (sg_buf seg)) = d"
    using m unfolding mem_holds_def by (elim exE conjE)
  have B: "0 < FLAGS_slice_size (e_cfg E)" "FLAGS_block_size (e_cfg E) < 2 ^ 32" using C by (simp_all add: config_ok_def)
  have "block_slice_count (e_cfg E) \<le> FLAGS_block_size (e_cfg E) div FLAGS_slice_size (e_cfg E)"
    by (simp add: block_slice_count_def to_u32_def)
  then have "c * FLAGS_slice_size (e_cfg E) \<le> FLAGS_block_size (e_cfg E) div FLAGS_slice_size (e_cfg E) * FLAGS_slice_size (e_cfg E)"
    using b(4) by (intro mult_le_mono1) linarith
  also have "\<dots> \<le> FLAGS_block_size (e_cfg E)" by (simp add: div_times_less_eq_dividend)
  finally have len: "off + n < 2 ^ 32" "off + n \<le> c * FLAGS_slice_size (e_cfg E)" "off < 2 ^ 32"
    using n b(5) B(2) by linarith+
  have whole: "off + n \<le> iobuf_size (sg_buf seg)" using n b(7) by linarith
  have "deref (cs_segments s) g = Some seg" using b(2) by (simp add: deref_def)
  from read_one_segment [OF X B(1) n(1) len(2,1) b(3) this]
  have "read_slices E (cs_segments s) (mb_slices b) off n = Some [cut_segment E seg off n]" .
  moreover have "take n (drop off (iobuf_bytes (sg_buf seg))) = take n (drop off (take (length d) (iobuf_bytes (sg_buf seg))))"
    using n(2) by (simp add: drop_take min_def)
  ultimately show ?thesis using b(1,8) cut_whole [OF X b(6) len(3) whole] by auto
qed

lemma mem_block_of_index: "mem_block_of E p i None s = Some (m, s') \<Longrightarrow> cs_index s' = cs_index s"
  by (auto simp: mem_block_of_def shared_section_def release_opt_def retain_mem_block_def split: bind_splits option.splits)

context memory_cache
begin

lemma touch_drop_ok:
  assumes P: "policies_ok minv dinv dtracked (Suc n) s"
  shows "\<exists>h s1 s2 a p. mem_evict_touch E key force s = Some (h, s1) \<and> mem_drop_handle E h s1 = Some s2 \<and>
    s2 = s\<lparr>cs_asked := a, cs_mem_policy := p\<rparr> \<and> policies_ok minv dinv dtracked (Suc n) s2"
proof -
  let ?t = "if force then (True, s) else (let (r, s) = rand_less_than E 100 s in (r < FLAGS_evict_touch_mem_probalility (e_cfg E), s))"
  obtain c t where t: "?t = (c, t)" by (cases ?t)
  have "\<exists>a. t = s\<lparr>cs_asked := a\<rparr>"
  proof (cases force)
    case True
    then have "t = s\<lparr>cs_asked := cs_asked s\<rparr>" using t by simp
    then show ?thesis by blast
  next
    case False
    then show ?thesis using t by (auto simp: rand_less_than_def ask_def Let_def)
  qed
  then obtain a where a: "t = s\<lparr>cs_asked := a\<rparr>" ..
  have same: "s\<lparr>cs_asked := a\<rparr> = s\<lparr>cs_asked := a, cs_mem_policy := cs_mem_policy s\<rparr>" by simp
  show ?thesis
  proof (cases c)
    case False
    then have "mem_evict_touch E key force s = Some (None, t)" using t by (simp add: mem_evict_touch_def)
    then show ?thesis using a same P
      by (intro exI [of _ None] exI [of _ t] exI [of _ a] exI [of _ "cs_mem_policy s"])
         (simp add: mem_drop_handle_def handle_release_def policies_ok_def)
  next
    case True
    have "minv (Suc n) (cs_mem_policy t)" using P a by (simp add: policies_ok_def)
    then obtain h p1 p2 where h: "p_touch (e_mem_ops E) key (cs_mem_policy t) = Some (h, p1)"
      "handle_release (e_mem_ops E) h p1 = Some p2" "minv (Suc n) p2" using mem.touch_drop_law by blast
    have "mem_evict_touch E key force s = Some (h, t\<lparr>cs_mem_policy := p1\<rparr>)" using t True h(1) by (simp add: mem_evict_touch_def)
    moreover have "mem_drop_handle E h (t\<lparr>cs_mem_policy := p1\<rparr>) = Some (s\<lparr>cs_asked := a, cs_mem_policy := p2\<rparr>)"
      using h(2) a by (simp add: mem_drop_handle_def)
    moreover have "policies_ok minv dinv dtracked (Suc n) (s\<lparr>cs_asked := a, cs_mem_policy := p2\<rparr>)" using h(3) P by (simp add: policies_ok_def)
    ultimately show ?thesis by blast
  qed
qed

lemma read_block_locked_ok:
  assumes P: "policies_ok minv dinv dtracked (Suc n) s" and n: "0 < sz" "off + sz \<le> length d"
    and m: "\<And>p. m = Some p \<Longrightarrow> mem_holds E s p d"
  shows "\<exists>buf s' a p. read_block_locked E key m None off sz s = Some (OK, False, buf, [], s') \<and>
    s' = s\<lparr>cs_asked := a, cs_mem_policy := p\<rparr> \<and> policies_ok minv dinv dtracked (Suc n) s' \<and>
    iobuf_bytes buf = (if m = None then [] else take sz (drop off d))"
proof (cases m)
  case None
  have "s = s\<lparr>cs_asked := cs_asked s, cs_mem_policy := cs_mem_policy s\<rparr>" by simp
  moreover have "read_block_locked E key m None off sz s = Some (OK, False, [], [], s)"
    using None by (simp add: read_block_locked_def mem_read_block_def)
  moreover have "iobuf_bytes [] = (if m = None then [] else take sz (drop off d))" using None by simp
  ultimately show ?thesis using P by blast
next
  case (Some p)
  obtain h s1 s2 a pm where t: "mem_evict_touch E key False s = Some (h, s1)" "mem_drop_handle E h s1 = Some s2"
    "s2 = s\<lparr>cs_asked := a, cs_mem_policy := pm\<rparr>" "policies_ok minv dinv dtracked (Suc n) s2" using touch_drop_ok [OF P] by blast
  have "mem_holds E s2 p d" using m [OF Some] t(3) by (simp add: mem_holds_def)
  from mem_holds_read [OF ext cfg this n] obtain b k seg where
    b: "cs_mem_blocks s2 p = Some (b, k)" "read_slices E (cs_segments s2) (mb_slices b) off sz = Some [seg]"
    "sg_offset seg = off" "iobuf_bytes (sg_buf seg) = take sz (drop off d)" by blast
  have "mem_read_block E key m off sz s = Some (OK, [seg], s2)"
    using Some n(1) t(1,2) b(1,2) by (simp add: mem_read_block_def deref_def)
  then have "read_block_locked E key m None off sz s = Some (OK, False, x_append (e_ext E) [] (sg_buf seg), [], s2)"
    using b(3) by (simp add: read_block_locked_def)
  moreover have "iobuf_bytes (x_append (e_ext E) [] (sg_buf seg)) = take sz (drop off d)" by (simp add: ext_append [OF ext] b(4))
  ultimately show ?thesis using Some t(3,4) by auto
qed

text \<open>A block is read when it is in memory, and reported missing when it is not.\<close>

lemma read_block_ok:
  assumes G: "good (Suc n) R S s" and p: "RItem p \<in># R" "cs_items s p = Some (it, k)" "item_holds E s it v"
    and i: "key_index key < length (ci_blocks it)" and n: "0 < sz" "off + sz \<le> length (chunk E v (key_index key))"
  shows "\<exists>st buf s'. read_block E p key off sz options s = Some (st, buf, s') \<and> good (Suc n) R S s' \<and> moves {} s s' \<and> cs_index s' = cs_index s \<and>
    (if blk_mem (ci_blocks it ! key_index key) = None then st = Err ENOENT
     else st = OK \<and> iobuf_bytes buf = take sz (drop off (chunk E v (key_index key))))"
proof -
  let ?i = "key_index key" and ?mx = "mutex_of (e_cfg E) key"
  let ?m = "blk_mem (ci_blocks it ! ?i)" and ?d = "chunk E v ?i"
  note G' = goodD [OF G]
  let ?s0 = "s\<lparr>cs_locks := (\<lambda>i. Free)(?mx := Shared 1)\<rparr>"
  have lock: "lock_shared E key s = Some ?s0" using G'(3) by (simp add: lock_shared_def Let_def)
  have M0: "mem_only E 0 R S ?s0" using G'(1) by simp
  have p0: "cs_items ?s0 p = Some (it, k)" using p(2) by simp
  obtain s1 where s1: "mem_block_of E p ?i None ?s0 = Some (?m, s1)" "mem_only E 0 (R + opt_ref RMem ?m) S s1" "still {} ?s0 s1"
    "cs_items s1 = cs_items ?s0" using mem_block_of_ok [OF M0 p0 i] by blast
  have p1: "cs_items s1 p = Some (it, k)" using s1(4) p(2) by simp
  have v0: "item_holds E ?s0 it v" using p(3) by (simp add: item_holds_def mem_holds_def)
  have v1: "item_holds E s1 it v" by (rule holds_kept [OF M0 stillD(1) [OF s1(3)] s1(2) p0 v0 p1])
  have P1: "policies_ok minv dinv dtracked (Suc n) s1" using G'(2) stillD(2,3) [OF s1(3)] by (simp add: policies_ok_def)
  have m1: "mem_holds E s1 m ?d" if "?m = Some m" for m using item_holdsD(6) [OF v1 i that] .
  obtain buf s2 a pm where s2: "read_block_locked E key ?m None off sz s1 = Some (OK, False, buf, [], s2)"
    "s2 = s1\<lparr>cs_asked := a, cs_mem_policy := pm\<rparr>" "policies_ok minv dinv dtracked (Suc n) s2"
    "iobuf_bytes buf = (if ?m = None then [] else take sz (drop off ?d))"
    using read_block_locked_ok [OF P1 n, of ?m key] m1 by blast
  have L2: "cs_locks s2 = (\<lambda>i. Free)(?mx := Shared 1)" using s2(2) movesD(3) [OF stillD(1) [OF s1(3)]] by simp
  let ?s3 = "s2\<lparr>cs_locks := \<lambda>i. Free\<rparr>"
  have unlock: "unlock_shared E key s2 = Some ?s3" using L2 by (simp add: unlock_shared_def Let_def)
  have M3: "mem_only E 0 (R + opt_ref RMem ?m) S ?s3" using s1(2) s2(2) by simp
  obtain s4 where s4: "release_opt (release_mem_block E) ?m ?s3 = Some s4" "mem_only E 0 R S s4" "still {} ?s3 s4"
    using release_opt_mem_ok [OF M3] by blast
  have len: "iobuf_size buf < sz \<longleftrightarrow> ?m = None" using s2(4) n by auto
  have "read_block E p key off sz options s = Some (if ?m = None then Err ENOENT else OK, buf, s4)"
    using lock s1(1) disk_block_of_none [OF p1 v1 i] s2(1) unlock s4(1) len
    by (cases ?m) (simp_all add: read_block_def release_opt_def)
  moreover have "good (Suc n) R S s4"
    using s4(2) s2(3) stillD(2,3) [OF s4(3)] movesD(3) [OF stillD(1) [OF s4(3)]] by (simp add: cache_ok_def policies_ok_def)
  moreover have "moves {} s ?s3"
    using stillD(1) [OF s1(3)] s2(2) G'(3) unfolding moves_def by simp
  then have "moves {} s s4" using moves_trans stillD(1) [OF s4(3)] by blast
  moreover have "cs_index s4 = cs_index s"
  proof -
    have "cs_index s1 = cs_index s" using mem_block_of_index [OF s1(1)] by simp
    then show ?thesis using release_opt_index [OF _ s4(1)] release_mem_block_index s2(2) by fastforce
  qed
  ultimately show ?thesis using s2(4) by auto
qed

end

section \<open>The blocks of a range\<close>

lemma chunk_part:
  "a + n \<le> FLAGS_block_size (e_cfg E) \<Longrightarrow> take n (drop a (chunk E v i)) = take n (drop (i * FLAGS_block_size (e_cfg E) + a) v)"
  by (simp add: chunk_def drop_take min_def ac_simps)

lemma block_part_range:
  assumes B: "0 < FLAGS_block_size cfg" and "lower \<le> upper" and "upper < 2 ^ 32"
    and i: "lower div FLAGS_block_size cfg \<le> i" "i \<le> upper div FLAGS_block_size cfg"
  shows "block_part cfg lower upper i =
      (max lower (i * FLAGS_block_size cfg) - i * FLAGS_block_size cfg,
       min (Suc upper) (Suc i * FLAGS_block_size cfg) - max lower (i * FLAGS_block_size cfg))"
    and "max lower (i * FLAGS_block_size cfg) \<le> upper" and "max lower (i * FLAGS_block_size cfg) < Suc i * FLAGS_block_size cfg"
proof -
  let ?B = "FLAGS_block_size cfg"
  have iB: "i * ?B \<le> upper" using i(2) B by (simp add: less_eq_div_iff_mult_less_eq)
  have low: "lower < Suc i * ?B"
  proof -
    have "lower < Suc (lower div ?B) * ?B" by (rule less_Suc_div [OF B])
    also have "\<dots> \<le> Suc i * ?B" using i(1) by (intro mult_le_mono1) simp
    finally show ?thesis .
  qed
  show "max lower (i * ?B) \<le> upper" using iB assms(2) by simp
  show "max lower (i * ?B) < Suc i * ?B" using low B by simp
  have off: "off2block cfg lower = lower div ?B" "off2block cfg upper = upper div ?B" "block_lower cfg i = i * ?B"
    using assms(2,3) iB by (simp_all add: off2block_small block_lower_small)
  have a: "(if i = lower div ?B then sub64 lower (i * ?B) else 0) = max lower (i * ?B) - i * ?B"
  proof (cases "i = lower div ?B")
    case True
    then have "i * ?B \<le> lower" by simp
    then show ?thesis using True assms(2,3) by simp
  next
    case False
    then have "Suc (lower div ?B) * ?B \<le> i * ?B" using i(1) by (intro mult_le_mono1) simp
    then have "lower < i * ?B" using less_Suc_div [OF B, of lower] by linarith
    then show ?thesis using False by simp
  qed
  have at: "i * ?B + (max lower (i * ?B) - i * ?B) = max lower (i * ?B)" by simp
  have "(if i = upper div ?B then to_u64 (sub64 upper (max lower (i * ?B)) + 1) else sub64 ?B (max lower (i * ?B) - i * ?B)) =
      min (Suc upper) (Suc i * ?B) - max lower (i * ?B)"
  proof (cases "i = upper div ?B")
    case True
    have "upper < Suc i * ?B" unfolding True by (rule less_Suc_div [OF B])
    then show ?thesis using True \<open>max lower (i * ?B) \<le> upper\<close> assms(3) by (simp add: to_u64_def Suc_diff_le)
  next
    case False
    have "Suc i * ?B \<le> upper div ?B * ?B" using False i(2) by (intro mult_le_mono1) simp
    also have "\<dots> \<le> upper" by (simp add: div_times_less_eq_dividend)
    finally have up: "Suc i * ?B \<le> upper" .
    then have "?B < 2 ^ 64" using assms(3) by simp
    moreover have "max lower (i * ?B) - i * ?B \<le> ?B" using low by simp
    ultimately show ?thesis using False up by simp
  qed
  then show "block_part cfg lower upper i =
      (max lower (i * ?B) - i * ?B, min (Suc upper) (Suc i * ?B) - max lower (i * ?B))"
    unfolding block_part_def off Let_def a at by simp
qed

lemma take_drop_join: "a \<le> b \<Longrightarrow> b \<le> c \<Longrightarrow> take (b - a) (drop a v) @ take (c - b) (drop b v) = take (c - a) (drop a v)"
proof -
  assume "a \<le> b" "b \<le> c"
  then have "take (b - a + (c - b)) (drop a v) = take (b - a) (drop a v) @ take (c - b) (drop (b - a) (drop a v))" by (rule_tac take_add)
  with \<open>a \<le> b\<close> \<open>b \<le> c\<close> show ?thesis by simp
qed

text \<open>The range of whole slices covers what was asked for and stays inside the object.\<close>

lemma read_bounds_cover:
  assumes b: "0 < FLAGS_slice_size cfg" and n: "0 < n" "off + n \<le> sz" and sz: "sz + FLAGS_slice_size cfg \<le> 2 ^ 32"
  shows "\<exists>lower upper. read_bounds cfg sz off n = (lower, upper) \<and> lower \<le> off \<and> off + n \<le> Suc upper \<and> upper < sz \<and> lower \<le> upper"
proof -
  let ?b = "FLAGS_slice_size cfg" and ?last = "off + n - 1"
  have small: "off < 2 ^ 32" "?last < 2 ^ 32" "off + n < 2 ^ 64" using n sz by simp_all
  have last: "sub64 (off + n) 1 = ?last" using n small by simp
  have lower: "slice_lower cfg (off2slice cfg off) = off - off mod ?b" by (rule slice_lower_off [OF small(1)])
  have "?last div ?b * ?b \<le> ?last" by (simp add: div_times_less_eq_dividend)
  then have "?b + ?last div ?b * ?b \<le> 2 ^ 32" using n sz by linarith
  then have "(?last div ?b + 1) * ?b \<le> 2 ^ 32" by (simp only: add_mult_distrib mult_1 add.commute)
  then have upper: "slice_upper cfg (off2slice cfg ?last) = (?last div ?b + 1) * ?b - 1"
    using slice_upper_small [OF b, of "?last div ?b"] small(2) by (simp add: off2slice_small)
  have "?last < Suc (?last div ?b) * ?b" by (rule less_Suc_div [OF b])
  then have up: "?last \<le> (?last div ?b + 1) * ?b - 1" by simp
  let ?u = "if sz \<le> (?last div ?b + 1) * ?b - 1 then sub64 sz 1 else (?last div ?b + 1) * ?b - 1"
  have sz1: "sub64 sz 1 = sz - 1" using n sz by simp
  have "read_bounds cfg sz off n = (off - off mod ?b, ?u)" unfolding read_bounds_def last lower upper Let_def by (rule refl)
  moreover have "?last \<le> ?u" "?u < sz" using up n sz1 by auto
  ultimately show ?thesis using n by (intro exI [of _ "off - off mod ?b"] exI [of _ ?u]) auto
qed

lemma clamp_size_min:
  assumes "item_size < 2 ^ 64" and "off + n < 2 ^ 64"
  shows "clamp_size item_size off n = min n (item_size - off)"
proof -
  have u: "to_u64 (off + n) = off + n" using assms(2) by (simp add: to_u64_def)
  have "sub64 item_size off = item_size - off" if "off < item_size" using that assms(1) by (intro sub64_nat) simp_all
  then show ?thesis unfolding clamp_size_def u by (cases "item_size \<le> off") auto
qed

lemma pop_back_to:
  assumes X: "ext_ok X" and bytes: "iobuf_bytes buf = take m xs" and "m \<le> length xs" and "n \<le> m"
  shows "iobuf_bytes (if n < iobuf_size buf then x_pop_back X buf (iobuf_size buf - n) else buf) = take n xs"
proof -
  have sz: "iobuf_size buf = m" using assms(2,3) by simp
  show ?thesis
  proof (cases "n < m")
    case True
    have "iobuf_bytes (x_pop_back X buf (m - n)) = take (m - (m - n)) (take m xs)" using ext_pop_back [OF X, of buf "m - n"] sz bytes by simp
    then show ?thesis using True sz by (simp add: min_def)
  next
    case False
    then show ?thesis using assms(4) sz bytes by simp
  qed
qed

context memory_cache
begin

lemma read_blocks_ok:
  assumes "lower \<le> upper" and upper: "upper < length v"
  shows "good (Suc n) R S s \<Longrightarrow> RItem p \<in># R \<Longrightarrow> cs_items s p = Some (it, k) \<Longrightarrow> item_holds E s it v \<Longrightarrow>
    lower div FLAGS_block_size (e_cfg E) \<le> j \<Longrightarrow> j + l = Suc (upper div FLAGS_block_size (e_cfg E)) \<Longrightarrow>
    \<exists>st out s'. read_blocks E ident p lower upper options [j..<j + l] buf s = Some (st, out, s') \<and> good (Suc n) R S s' \<and> moves {} s s' \<and>
      cs_index s' = cs_index s \<and> ((\<forall>b \<in> set (ci_blocks it). blk_mem b \<noteq> None) \<longrightarrow> st = OK) \<and>
      (if st = OK then iobuf_bytes out = iobuf_bytes buf @ take (Suc upper - max lower (j * FLAGS_block_size (e_cfg E)))
           (drop (max lower (j * FLAGS_block_size (e_cfg E))) v)
       else st = Err ENOENT)"
proof (induction l arbitrary: j s k buf)
  case 0
  have "upper < j * FLAGS_block_size (e_cfg E)"
    using less_Suc_div [of "FLAGS_block_size (e_cfg E)" upper] 0 cfg by (simp add: config_ok_def)
  then show ?case using 0 by auto
next
  case (Suc l)
  let ?B = "FLAGS_block_size (e_cfg E)" and ?key = "block_key_of ident j"
  let ?pos = "max lower (j * ?B)" and ?stop = "min (Suc upper) (Suc j * ?B)"
  have B: "0 < ?B" using cfg by (simp add: config_ok_def)
  have v: "length v < 2 ^ 32" using item_holdsD(3) [OF Suc.prems(4)] cfg by (simp add: config_ok_def)
  have j: "j \<le> upper div ?B" using Suc.prems(6) by simp
  also have "\<dots> \<le> (length v - 1) div ?B" using upper by (intro div_le_mono) simp
  finally have i: "j < length (ci_blocks it)"
    using item_holdsD(1,2,4) [OF Suc.prems(4)] by (simp add: block_count_def block_count_of_def)
  have j32: "j < 2 ^ 32" by (rule blocks_below [OF Suc.prems(4) i])
  then have ik: "key_index ?key < length (ci_blocks it)" using i by simp
  have u32: "upper < 2 ^ 32" using upper v by linarith
  note part = block_part_range [OF B assms(1) u32 Suc.prems(5) j]
  have n: "0 < ?stop - ?pos" "?pos - j * ?B + (?stop - ?pos) \<le> length (chunk E v (key_index ?key))"
  proof -
    show "0 < ?stop - ?pos" using part(2,3) by simp
    have "?pos - j * ?B + (?stop - ?pos) = ?stop - j * ?B" using part(2,3) by simp
    also have "\<dots> \<le> min ?B (length v - j * ?B)"
    proof -
      have "Suc j * ?B = ?B + j * ?B" by simp
      then show ?thesis using upper by linarith
    qed
    finally show "?pos - j * ?B + (?stop - ?pos) \<le> length (chunk E v (key_index ?key))" using j32 by (simp add: chunk_def min.commute)
  qed
  obtain st out s1 where s1: "read_block E p ?key (?pos - j * ?B) (?stop - ?pos) options s = Some (st, out, s1)" "good (Suc n) R S s1"
    "moves {} s s1" "cs_index s1 = cs_index s"
    "if blk_mem (ci_blocks it ! j) = None then st = Err ENOENT
     else st = OK \<and> iobuf_bytes out = take (?stop - ?pos) (drop (?pos - j * ?B) (chunk E v j))"
    using read_block_ok [OF Suc.prems(1-4) ik n, of options] j32 by auto
  have step: "read_blocks E ident p lower upper options [j..<j + Suc l] buf s =
      (if \<not> ok st then Some (st, buf, s1)
       else read_blocks E ident p lower upper options [Suc j..<Suc j + l] (x_append (e_ext E) buf out) s1)"
  proof -
    have list: "[j..<j + Suc l] = j # [Suc j..<Suc j + l]" by (simp add: upt_conv_Cons del: upt_Suc)
    show ?thesis unfolding list read_blocks.simps part(1) Let_def prod.case s1(1) bind.bind_lunit by (rule refl)
  qed
  show ?case
  proof (cases "blk_mem (ci_blocks it ! j) = None")
    case True
    moreover have "ci_blocks it ! j \<in> set (ci_blocks it)" using i by simp
    ultimately show ?thesis using step s1 by auto
  next
    case False
    then have st: "st = OK" and out: "iobuf_bytes out = take (?stop - ?pos) (drop ?pos v)"
      using s1(5) chunk_part [of "?pos - j * ?B" "?stop - ?pos" E v j] part(2,3) by auto
    obtain k1 where it1: "cs_items s1 p = Some (it, k1)"
      using item_exact [OF goodD(1) [OF Suc.prems(1)] s1(3) goodD(1) [OF s1(2)] Suc.prems(2,3)] by blast
    have v1: "item_holds E s1 it v" by (rule holds_kept [OF goodD(1) [OF Suc.prems(1)] s1(3) goodD(1) [OF s1(2)] Suc.prems(3,4) it1])
    have j1: "lower div ?B \<le> Suc j" "Suc j + l = Suc (upper div ?B)" using Suc.prems(5,6) by simp_all
    from Suc.IH [OF s1(2) Suc.prems(2) it1 v1 j1, of "x_append (e_ext E) buf out"] obtain st' out' s' where
      s': "read_blocks E ident p lower upper options [Suc j..<Suc j + l] (x_append (e_ext E) buf out) s1 = Some (st', out', s')"
      "good (Suc n) R S s'" "moves {} s1 s'" "cs_index s' = cs_index s1" "(\<forall>b \<in> set (ci_blocks it). blk_mem b \<noteq> None) \<longrightarrow> st' = OK"
      "if st' = OK then iobuf_bytes out' = iobuf_bytes (x_append (e_ext E) buf out) @
         take (Suc upper - max lower (Suc j * ?B)) (drop (max lower (Suc j * ?B)) v) else st' = Err ENOENT" by blast
    have mx: "max lower (Suc j * ?B) = Suc j * ?B" using part(3) by linarith
    have "take (?stop - ?pos) (drop ?pos v) @ take (Suc upper - Suc j * ?B) (drop (Suc j * ?B) v) = take (Suc upper - ?pos) (drop ?pos v)"
    proof (cases "Suc j * ?B \<le> Suc upper")
      case True
      then have "?stop = Suc j * ?B" by linarith
      then show ?thesis using take_drop_join [of ?pos "Suc j * ?B" "Suc upper" v] True part(3) by simp
    next
      case False
      then have "?stop = Suc upper" by linarith
      then show ?thesis using False by simp
    qed
    then have "if st' = OK then iobuf_bytes out' = iobuf_bytes buf @ take (Suc upper - ?pos) (drop ?pos v) else st' = Err ENOENT"
      using s'(6) unfolding mx by (simp add: ext_append [OF ext] out)
    then show ?thesis using step st s'(1,2,4,5) s1(4) moves_trans [OF s1(3) s'(3)] by auto
  qed
qed

text \<open>A read of an object either returns the range asked for, cut to the object, or finds a block missing.\<close>

lemma read_cache_item_ok:
  assumes G: "good (Suc n) R S s" and p: "RItem p \<in># R" "cs_items s p = Some (it, k)" "item_holds E s it v" and sum: "off + sz < 2 ^ 64"
  shows "\<exists>st out s'. read_cache_item E ident p off sz options s = Some (st, out, s') \<and> good (Suc n) R S s' \<and> moves {} s s' \<and>
    cs_index s' = cs_index s \<and> ((\<forall>b \<in> set (ci_blocks it). blk_mem b \<noteq> None) \<longrightarrow> st = OK) \<and>
    (if st = OK then iobuf_bytes out = take sz (drop off v) else st = Err ENOENT)"
proof -
  let ?n = "min sz (length v - off)" and ?B = "FLAGS_block_size (e_cfg E)"
  have C: "0 < FLAGS_slice_size (e_cfg E)" "0 < ?B" using cfg by (simp_all add: config_ok_def)
  have len: "length v + FLAGS_slice_size (e_cfg E) \<le> 2 ^ 32" "ci_size it = length v" using item_holdsD(1,3) [OF p(3)] by simp_all
  have clamp: "clamp_size (length v) off sz = ?n" using len sum by (simp add: clamp_size_min)
  have cut: "take sz (drop off v) = take ?n (drop off v)" by (simp add: min_def)
  show ?thesis
  proof (cases "?n = 0")
    case True
    then have "read_cache_item E ident p off sz options s = Some (OK, [], s)"
      using clamp len(2) get_item_Some [OF p(2)] by (simp add: read_cache_item_def)
    moreover have "iobuf_bytes [] = take sz (drop off v)" using True unfolding cut by simp
    ultimately show ?thesis using G by auto
  next
    case False
    then have n: "0 < ?n" "off + ?n \<le> length v" by linarith+
    obtain lower upper where lu: "read_bounds (e_cfg E) (length v) off ?n = (lower, upper)" "lower \<le> off" "off + ?n \<le> Suc upper"
      "upper < length v" "lower \<le> upper" using read_bounds_cover [OF C(1) n len(1)] by blast
    have u32: "lower < 2 ^ 32" "upper < 2 ^ 32" "off < 2 ^ 64" using lu(2,4,5) len(1) C(1) sum by linarith+
    have range: "[off2block (e_cfg E) lower..<Suc (off2block (e_cfg E) upper)] =
        [lower div ?B..<lower div ?B + (Suc (upper div ?B) - lower div ?B)]"
      using u32 div_le_mono [OF lu(5), of ?B] by (simp add: off2block_small)
    have l: "lower div ?B + (Suc (upper div ?B) - lower div ?B) = Suc (upper div ?B)" using div_le_mono [OF lu(5), of ?B] by simp
    have mx: "max lower (lower div ?B * ?B) = lower"
      using div_times_less_eq_dividend [of lower ?B] by (simp add: max_absorb1)
    from read_blocks_ok [OF lu(5,4) G p le_refl l, of ident options "[]", unfolded mx] obtain st out s1 where
      s1: "read_blocks E ident p lower upper options [lower div ?B..<lower div ?B + (Suc (upper div ?B) - lower div ?B)] [] s = Some (st, out, s1)"
      "good (Suc n) R S s1" "moves {} s s1" "cs_index s1 = cs_index s" "(\<forall>b \<in> set (ci_blocks it). blk_mem b \<noteq> None) \<longrightarrow> st = OK"
      "if st = OK then iobuf_bytes out = iobuf_bytes [] @ take (Suc upper - lower) (drop lower v) else st = Err ENOENT" by blast
    let ?buf = "x_pop_front (e_ext E) out (sub64 off lower)"
    let ?res = "if ?n < iobuf_size ?buf then x_pop_back (e_ext E) ?buf (iobuf_size ?buf - ?n) else ?buf"
    have "(?n = 0) = False" using False by simp
    then have run: "read_cache_item E ident p off sz options s = Some (if st = OK then (OK, ?res, s1) else (st, out, s1))"
      unfolding read_cache_item_def get_item_Some [OF p(2)] bind.bind_lunit Let_def len(2) clamp
      by (simp only: if_False lu(1) prod.case range s1(1) bind.bind_lunit) (cases st, simp_all)
    have "iobuf_bytes ?res = take sz (drop off v)" if j: "st = OK"
    proof -
      have "iobuf_bytes ?buf = take (Suc upper - off) (drop off v)"
        using s1(6) j lu(2,5) u32 by (simp add: ext_pop_front [OF ext] drop_take)
      moreover have "Suc upper - off \<le> length v - off" using lu(4) by simp
      moreover have "?n \<le> Suc upper - off" using lu(3) by linarith
      ultimately show ?thesis unfolding cut by (intro pop_back_to [OF ext]) simp_all
    qed
    then show ?thesis using run s1(2-6) by auto
  qed
qed

end

end
