(* ===== verification/MemoryRuns.thy ===== *)
theory MemoryRuns
  imports MemoryRead
begin

text \<open>
  A cache without a disk layer against the partial map from keys to the bytes last set: the public operations, and
  any sequence of them from initialisation on.
\<close>

section \<open>Finding an object\<close>

lemma index_find_index: "index_find ident s = Some (r, s') \<Longrightarrow> cs_index s' = cs_index s"
  by (auto simp: index_find_def phm_find_def release_opt_def retain_item_def Let_def split: bind_splits option.splits)

text \<open>A key that is not in the index, or only with a released object, may be bound to anything.\<close>

lemma mem_only_rebind:
  assumes M: "mem_only E c R S s"
    and free: "\<And>p it k. cs_index s (cachekey2id key) = Some p \<Longrightarrow> cs_items s p = Some (it, k) \<Longrightarrow> is_released it \<or> ci_cache_key it \<noteq> key"
  shows "mem_only E c R (S(key := x)) s"
proof -
  have "index_holds E (S(key := x)) s"
    unfolding index_holds_def
  proof (intro allI impI)
    fix ident p assume i: "cs_index s ident = Some p"
    then obtain it k v where it: "cs_items s p = Some (it, k)" "cachekey2id (ci_cache_key it) = ident"
      "is_released it \<or> S (ci_cache_key it) = Some v" "item_holds E s it v" using mem_onlyD(5) [OF M] unfolding index_holds_def by blast
    have "is_released it \<or> ci_cache_key it \<noteq> key" using free [of p it k] i it(1,2) by auto
    then show "\<exists>it k v. cs_items s p = Some (it, k) \<and> cachekey2id (ci_cache_key it) = ident \<and>
        (is_released it \<or> (S(key := x)) (ci_cache_key it) = Some v) \<and> item_holds E s it v" using it by auto
  qed
  then show ?thesis using M by (simp add: mem_only_def)
qed

text \<open>What \<^verbatim>\<open>get\<close> and \<^verbatim>\<open>read\<close> share: the range is \<open>f\<close> and \<open>g\<close> of the item found.\<close>

definition lookup_read where
  "lookup_read E key f g buf options s =
     do { (cache_item, s) \<leftarrow> index_find (cachekey2id key) s;
          found \<leftarrow> usable key cache_item s;
          (st, buf, s) \<leftarrow> (if \<not> found then Some (Err ENOENT, buf, s)
            else do { p \<leftarrow> cache_item; it \<leftarrow> get_item p s; read_cache_item E (cachekey2id key) p (f it) (g it) options s });
          s \<leftarrow> release_opt (release_item E) cache_item s;
          Some (st, buf, s) }"

lemma get_op_lookup: "get_op E key buf options s = lookup_read E key (\<lambda>it. 0) ci_size buf options s"
  by (simp add: get_op_def lookup_read_def Let_def)

lemma read_op_lookup: "read_op E key off sz buf options s = lookup_read E key (\<lambda>it. off) (\<lambda>it. sz) buf options s"
proof -
  have "do { it \<leftarrow> get_item p t; read_cache_item E ident p off sz options t } = read_cache_item E ident p off sz options t" for ident p t
    by (cases "get_item p t") (simp_all add: read_cache_item_def)
  then show ?thesis unfolding read_op_def lookup_read_def Let_def by (simp only:)
qed

context memory_cache
begin

lemma found_ok:
  assumes G: "good n R S s"
  shows "\<exists>s'. index_find (cachekey2id key) s = Some (cs_index s (cachekey2id key), s') \<and>
    good n (R + opt_ref RItem (cs_index s (cachekey2id key))) S s' \<and> moves {} s s' \<and> cs_index s' = cs_index s"
proof -
  obtain s' where s': "index_find (cachekey2id key) s = Some (cs_index s (cachekey2id key), s')"
    "mem_only E 0 (R + opt_ref RItem (cs_index s (cachekey2id key))) S s'" "still {} s s'"
    using index_find_ok [OF goodD(1) [OF G]] by blast
  then show ?thesis using good_still [OF G s'(2,3)] stillD(1) [OF s'(3)] index_find_index by blast
qed

lemma leave_ok:
  assumes G: "good n (R + opt_ref RItem p) S s"
  shows "\<exists>s'. release_opt (release_item E) p s = Some s' \<and> good n R S s' \<and> moves {} s s' \<and> cs_index s' = cs_index s"
proof -
  obtain s' where s': "release_opt (release_item E) p s = Some s'" "mem_only E 0 R S s'" "still {} s s'"
    using release_opt_item_ok [OF goodD(1) [OF G]] by blast
  have "cs_index s' = cs_index s" using release_opt_index [OF _ s'(1)] release_item_index by blast
  then show ?thesis using s'(1) good_still [OF G s'(2,3)] stillD(1) [OF s'(3)] by blast
qed

lemma indexed_item:
  assumes "good n R S s" and "cs_index s (cachekey2id key) = Some p"
  shows "\<exists>it k v. cs_items s p = Some (it, k) \<and> item_holds E s it v \<and> (is_released it \<or> S (ci_cache_key it) = Some v)"
  using mem_onlyD(5) [OF goodD(1) [OF assms(1)]] assms(2) unfolding index_holds_def by blast

lemma lookup_read_ok:
  assumes G: "good (Suc n) R S s" and fg: "\<forall>it. ci_size it < 2 ^ 32 \<longrightarrow> f it + g it < 2 ^ 64"
  shows "\<exists>st out s'. lookup_read E key f g buf options s = Some (st, out, s') \<and> good (Suc n) R S s' \<and> moves {} s s' \<and> cs_index s' = cs_index s \<and>
    (st = OK \<or> st = Err ENOENT) \<and>
    (st = OK \<longrightarrow> (\<exists>v it. S key = Some v \<and> ci_size it = length v \<and> iobuf_bytes out = take (g it) (drop (f it) v))) \<and>
    (resident E key v s \<longrightarrow> st = OK \<and> (\<exists>it. ci_size it = length v \<and> iobuf_bytes out = take (g it) (drop (f it) v)))"
proof -
  let ?id = "cachekey2id key"
  let ?R = "R + opt_ref RItem (cs_index s ?id)"
  obtain s1 where s1: "index_find ?id s = Some (cs_index s ?id, s1)" "good (Suc n) ?R S s1" "moves {} s s1" "cs_index s1 = cs_index s"
    using found_ok [OF G] by blast
  have miss: ?thesis if u: "usable key (cs_index s ?id) s1 = Some False" and r: "\<not> resident E key v s"
  proof -
    obtain s2 where "release_opt (release_item E) (cs_index s ?id) s1 = Some s2" "good (Suc n) R S s2" "moves {} s1 s2" "cs_index s2 = cs_index s1"
      using leave_ok [OF s1(2)] by blast
    then show ?thesis using s1 u r moves_trans [OF s1(3)] by (auto simp: lookup_read_def)
  qed
  have stays: "resident E key v s1" if "resident E key v s"
    by (rule resident_exact [OF goodD(1) [OF G] s1(3) goodD(1) [OF s1(2)] s1(4) that])
  show ?thesis
  proof (cases "cs_index s ?id")
    case None
    then have "\<not> resident E key v s" by (simp add: resident_def)
    then show ?thesis using miss None by (simp add: usable_def)
  next
    case (Some p)
    obtain it k w where it: "cs_items s1 p = Some (it, k)" "item_holds E s1 it w" "is_released it \<or> S (ci_cache_key it) = Some w"
      using indexed_item [OF s1(2)] s1(4) Some by fastforce
    show ?thesis
    proof (cases "ci_cache_key it = key \<and> \<not> is_released it")
      case False
      then have "\<not> resident E key v s" using stays it(1) Some s1(4) by (auto simp: resident_def)
      moreover have "usable key (cs_index s ?id) s1 = Some False" using False Some get_item_Some [OF it(1)] by (simp add: usable_def)
      ultimately show ?thesis using miss by blast
    next
      case True
      have sz: "ci_size it = length w" "length w < 2 ^ 32" using item_holdsD(1,3) [OF it(2)] cfg by (simp_all add: config_ok_def)
      have pR: "RItem p \<in># ?R" using Some by simp
      have range: "f it + g it < 2 ^ 64" using fg sz by simp
      obtain st out s2 where s2: "read_cache_item E ?id p (f it) (g it) options s1 = Some (st, out, s2)" "good (Suc n) ?R S s2" "moves {} s1 s2"
        "cs_index s2 = cs_index s1" "(\<forall>b \<in> set (ci_blocks it). blk_mem b \<noteq> None) \<longrightarrow> st = OK"
        "if st = OK then iobuf_bytes out = take (g it) (drop (f it) w) else st = Err ENOENT"
        using read_cache_item_ok [OF s1(2) pR it(1,2) range] by blast
      obtain s3 where s3: "release_opt (release_item E) (cs_index s ?id) s2 = Some s3" "good (Suc n) R S s3" "moves {} s2 s3" "cs_index s3 = cs_index s2"
        using leave_ok [OF s2(2)] by blast
      have "lookup_read E key f g buf options s = Some (st, out, s3)"
        using s1(1) s2(1) s3(1) Some True get_item_Some [OF it(1)] by (simp add: lookup_read_def usable_def)
      moreover have "S key = Some w" using it(3) True by blast
      moreover have "st = OK \<and> ci_size it = length v \<and> iobuf_bytes out = take (g it) (drop (f it) v)" if "resident E key v s"
      proof -
        have r: "item_holds E s1 it v" "\<forall>b \<in> set (ci_blocks it). blk_mem b \<noteq> None"
          using stays [OF that] it(1) Some s1(4) by (auto simp: resident_def)
        show ?thesis using read_cache_item_ok [OF s1(2) pR it(1) r(1) range, of ?id options] s2(1) r item_holdsD(1) [OF r(1)] by auto
      qed
      moreover have "moves {} s s3" by (rule moves_trans [OF s1(3) moves_trans [OF s2(3) s3(3)]])
      moreover have "(st = OK \<and> iobuf_bytes out = take (g it) (drop (f it) w)) \<or> st = Err ENOENT" using s2(6) by (cases "st = OK") simp_all
      ultimately show ?thesis using s3(2) s1(4) s2(4) s3(4) sz(1) by auto
    qed
  qed
qed

text \<open>A \<^verbatim>\<open>get\<close> returns the bytes stored or reports that something is missing, and finds an object that is resident.\<close>

lemma get_op_ok:
  assumes G: "good (Suc n) R S s"
  shows "\<exists>st out s'. get_op E key buf options s = Some (st, out, s') \<and> good (Suc n) R S s' \<and>
    cs_concurrent_writes s' = cs_concurrent_writes s \<and> (st = Err ENOENT \<or> (st = OK \<and> S key = Some (iobuf_bytes out))) \<and>
    (resident E key v s \<longrightarrow> st = OK \<and> iobuf_bytes out = v \<and> resident E key v s')"
proof -
  have range: "\<forall>it :: cache_item. ci_size it < 2 ^ 32 \<longrightarrow> 0 + ci_size it < 2 ^ 64" by simp
  obtain st out s' where r: "lookup_read E key (\<lambda>it. 0) ci_size buf options s = Some (st, out, s')" "good (Suc n) R S s'" "moves {} s s'"
    "cs_index s' = cs_index s" "st = OK \<or> st = Err ENOENT"
    "st = OK \<longrightarrow> (\<exists>v (it :: cache_item). S key = Some v \<and> ci_size it = length v \<and> iobuf_bytes out = take (ci_size it) (drop 0 v))"
    "resident E key v s \<longrightarrow> st = OK \<and> (\<exists>it :: cache_item. ci_size it = length v \<and> iobuf_bytes out = take (ci_size it) (drop 0 v))"
    using lookup_read_ok [where f = "\<lambda>it. 0" and g = ci_size and key = key and buf = buf and options = options and v = v, OF G range] by blast
  have "resident E key v s \<longrightarrow> resident E key v s'" using resident_exact [OF goodD(1) [OF G] r(3) goodD(1) [OF r(2)] r(4)] by blast
  then show ?thesis using r(1,2,5-7) movesD(4) [OF r(3)] by (auto simp: get_op_lookup)
qed

lemma read_op_ok:
  assumes G: "good (Suc n) R S s" and range: "off + sz < 2 ^ 64"
  shows "\<exists>st out s'. read_op E key off sz buf options s = Some (st, out, s') \<and> good (Suc n) R S s' \<and>
    cs_concurrent_writes s' = cs_concurrent_writes s \<and>
    (st = Err ENOENT \<or> (st = OK \<and> (\<exists>v. S key = Some v \<and> iobuf_bytes out = take sz (drop off v)))) \<and>
    (resident E key v s \<longrightarrow> st = OK \<and> iobuf_bytes out = take sz (drop off v) \<and> resident E key v s')"
proof -
  have "\<forall>it :: cache_item. ci_size it < 2 ^ 32 \<longrightarrow> off + sz < 2 ^ 64" using range by simp
  note range = this
  obtain st out s' where r: "lookup_read E key (\<lambda>it. off) (\<lambda>it. sz) buf options s = Some (st, out, s')" "good (Suc n) R S s'" "moves {} s s'"
    "cs_index s' = cs_index s" "st = OK \<or> st = Err ENOENT" "st = OK \<longrightarrow> (\<exists>v. S key = Some v \<and> iobuf_bytes out = take sz (drop off v))"
    "resident E key v s \<longrightarrow> st = OK \<and> iobuf_bytes out = take sz (drop off v)"
    using lookup_read_ok [where f = "\<lambda>it. off" and g = "\<lambda>it. sz" and key = key and buf = buf and options = options and v = v, OF G range] by blast
  have "resident E key v s \<longrightarrow> resident E key v s'" using resident_exact [OF goodD(1) [OF G] r(3) goodD(1) [OF r(2)] r(4)] by blast
  then show ?thesis using r(1,2,5-7) movesD(4) [OF r(3)] by (auto simp: read_op_lookup)
qed

section \<open>Removing\<close>

lemma flag_ok:
  assumes G: "good n R S s" and p: "cs_items s p = Some (it, k)"
    and f: "snd (f it) = it\<lparr>ci_state := st\<rparr>" "is_released it \<longrightarrow> is_released (it\<lparr>ci_state := st\<rparr>)"
  shows "\<exists>s'. item_flag p f s = Some (fst (f it), s') \<and> good n R S s' \<and> moves {p} s s' \<and> cs_items s' p = Some (it\<lparr>ci_state := st\<rparr>, k)"
proof -
  obtain s' where s': "item_flag p f s = Some (fst (f it), s')" "mem_only E 0 R S s'" "still {p} s s'"
    "cs_items s' p = Some (it\<lparr>ci_state := st\<rparr>, k)" using item_flag_ok [where f = f and P = "{p}", OF goodD(1) [OF G] p f] by blast
  then show ?thesis using good_still [OF G s'(2,3)] stillD(1) [OF s'(3)] by blast
qed

lemma good_rebind:
  assumes "good n R S s"
    and "\<And>p it k. cs_index s (cachekey2id key) = Some p \<Longrightarrow> cs_items s p = Some (it, k) \<Longrightarrow> is_released it \<or> ci_cache_key it \<noteq> key"
  shows "good n R (S(key := x)) s"
  using mem_only_rebind [OF goodD(1) [OF assms(1)] assms(2)] goodD [OF assms(1)] by (simp add: cache_ok_def)

text \<open>A \<^verbatim>\<open>remove\<close> returns, and leaves nothing under the key when it reports success.\<close>

lemma remove_op_ok:
  assumes G: "good n R S s"
  shows "\<exists>st s'. remove_op E key s = Some (st, s') \<and> good n R (if st = OK then S(key := None) else S) s' \<and>
    cs_concurrent_writes s' = cs_concurrent_writes s \<and> (st = OK \<or> st = Err ENOENT)"
proof -
  let ?id = "cachekey2id key"
  let ?R = "R + opt_ref RItem (cs_index s ?id)"
  obtain s1 where s1: "index_find ?id s = Some (cs_index s ?id, s1)" "good n ?R S s1" "moves {} s s1" "cs_index s1 = cs_index s"
    using found_ok [OF G] by blast
  have miss: ?thesis if "(case cs_index s ?id of None \<Rightarrow> True | Some p \<Rightarrow> \<exists>it k. cs_items s1 p = Some (it, k) \<and> ci_cache_key it \<noteq> key)"
  proof -
    obtain s2 where "release_opt (release_item E) (cs_index s ?id) s1 = Some s2" "good n R S s2" "moves {} s1 s2" using leave_ok [OF s1(2)] by blast
    then have "remove_op E key s = Some (Err ENOENT, s2)" "good n R S s2" "cs_concurrent_writes s2 = cs_concurrent_writes s"
      using that s1(1) movesD(4) [OF s1(3)] movesD(4) [of "{}" s1 s2] 
      by (auto simp: remove_op_def Let_def get_item_def deref_def split: option.splits)
    then show ?thesis by simp
  qed
  show ?thesis
  proof (cases "cs_index s ?id")
    case None
    then show ?thesis using miss by simp
  next
    case (Some p)
    obtain it k where it: "cs_items s1 p = Some (it, k)" using indexed_item [OF s1(2)] s1(4) Some by fastforce
    show ?thesis
    proof (cases "ci_cache_key it = key")
      case False
      then show ?thesis using miss Some it by simp
    next
      case key: True
      have pR: "RItem p \<in># ?R" using Some by simp
      obtain st where st: "snd (set_released True it) = it\<lparr>ci_state := st\<rparr>" "is_released (it\<lparr>ci_state := st\<rparr>)" using released_state by blast
      then obtain s2 where s2: "item_flag p (set_released True) s1 = Some (fst (set_released True it), s2)" "good n ?R S s2" "moves {p} s1 s2"
        "cs_items s2 p = Some (it\<lparr>ci_state := st\<rparr>, k)" using flag_ok [OF s1(2) it, of "set_released True" st] by blast
      obtain s3 where s3: "(if fst (set_released True it) then remove_cache_item E ?id p s2 else Some s2) = Some s3"
        "good n ?R (S(key := None)) s3" "moves {p} s2 s3"
      proof (cases "fst (set_released True it)")
        case True
        obtain t where t: "remove_cache_item E ?id p s2 = Some t" "good n ?R S t" "moves {p} s2 t" "cs_index t ?id = None"
          using remove_cache_item_ok [OF s2(2) pR, of "{p}" ?id] by blast
        have "good n ?R (S(key := None)) t" by (rule good_rebind [OF t(2)]) (use t(4) in simp)
        then show ?thesis using that True t(1,3) by simp
      next
        case False
        have "good n ?R (S(key := None)) s2"
        proof (rule good_rebind [OF s2(2)])
          fix q it' k' assume q: "cs_index s2 ?id = Some q" "cs_items s2 q = Some (it', k')"
          then have "q = p" using movesD(8) [OF s2(3)] s1(4) Some by fastforce
          then show "is_released it' \<or> ci_cache_key it' \<noteq> key" using q(2) s2(4) st(2) by simp
        qed
        then show ?thesis using that False by simp
      qed
      obtain s4 where s4: "release_opt (release_item E) (cs_index s ?id) s3 = Some s4" "good n R (S(key := None)) s4" "moves {} s3 s4"
        using leave_ok [OF s3(2)] by blast
      have "remove_op E key s = Some (OK, s4)"
        using s1(1) s2(1) s3(1) s4(1) Some key get_item_Some [OF it] by (simp add: remove_op_def Let_def)
      then show ?thesis
        using s4(2) movesD(4) [OF s1(3)] movesD(4) [OF s2(3)] movesD(4) [OF s3(3)] movesD(4) [OF s4(3)] by simp
    qed
  qed
qed

section \<open>Pinning\<close>

lemma untrack_good:
  assumes G: "good n R S s"
  shows "\<exists>s'. mem_evict_untrack E key s = Some s' \<and> good n R S s' \<and> moves {} s s'"
proof -
  obtain s' where s': "mem_evict_untrack E key s = Some s'" "mem_only E 0 R S s'" "policies_ok minv dinv dtracked n s'" "moves {} s s'"
    using untrack_ok [OF goodD(1,2) [OF G]] by blast
  then show ?thesis using goodD(3) [OF G] movesD(3) [OF s'(4)] by (simp add: cache_ok_def)
qed

lemma pin_cache_item_ok:
  assumes G: "good n R S s" and p: "cs_items s p = Some (it, k)"
  shows "\<exists>s'. pin_cache_item E ident p s = Some (OK, s') \<and> good n R S s' \<and> moves {p} s s'"
proof -
  obtain st where st: "snd (set_pinned True it) = it\<lparr>ci_state := st\<rparr>" "is_released it \<longrightarrow> is_released (it\<lparr>ci_state := st\<rparr>)"
    using pinned_state by blast
  obtain s1 where s1: "item_flag p (set_pinned True) s = Some (fst (set_pinned True it), s1)" "good n R S s1" "moves {p} s s1"
    "cs_items s1 p = Some (it\<lparr>ci_state := st\<rparr>, k)" using flag_ok [where f = "set_pinned True", OF G p st] by blast
  let ?is = "[0..<block_count (e_cfg E) (it\<lparr>ci_state := st\<rparr>)]"
  have "\<exists>s2. fold_opt (\<lambda>i. mem_evict_untrack E (block_key_of ident i)) ?is s1 = Some s2 \<and> (good n R S s2 \<and> moves {p} s1 s2)"
  proof (rule fold_opt_total)
    fix i t assume t: "good n R S t \<and> moves {p} s1 t"
    then obtain t' where t': "mem_evict_untrack E (block_key_of ident i) t = Some t'" "good n R S t'" "moves {} t t'"
      using untrack_good by blast
    then have "moves {p} t t'" unfolding moves_def by blast
    then show "\<exists>t'. mem_evict_untrack E (block_key_of ident i) t = Some t' \<and> good n R S t' \<and> moves {p} s1 t'"
      using t t' moves_trans by blast
  qed (use s1(2) in simp)
  then obtain s2 where s2: "fold_opt (\<lambda>i. mem_evict_untrack E (block_key_of ident i)) ?is s1 = Some s2" "good n R S s2" "moves {p} s1 s2" by blast
  show ?thesis
  proof (cases "fst (set_pinned True it)")
    case True
    then have "pin_cache_item E ident p s = Some (OK, s2)"
      using s1(1) s2(1) no_disk_layer [OF goodD(1) [OF s1(2)]] get_item_Some [OF s1(4)] by (simp add: pin_cache_item_def)
    then show ?thesis using s2 moves_trans [OF s1(3)] by blast
  next
    case False
    then show ?thesis using s1 by (simp add: pin_cache_item_def)
  qed
qed

lemma mem_block_of_locked:
  "mem_block_of E p i (Some key) s =
     do { s \<leftarrow> lock_shared E key s; (m, s) \<leftarrow> mem_block_of E p i None s; s \<leftarrow> unlock_shared E key s; Some (m, s) }"
  by (simp add: mem_block_of_def shared_section_def)

lemma mem_block_locked_ok:
  assumes G: "good n R S s" and p: "cs_items s p = Some (it, k)" and i: "i < length (ci_blocks it)"
  shows "\<exists>s'. mem_block_of E p i (Some key) s = Some (blk_mem (ci_blocks it ! i), s') \<and>
    good n (R + opt_ref RMem (blk_mem (ci_blocks it ! i))) S s' \<and> moves {} s s' \<and> cs_items s' = cs_items s"
proof -
  let ?mx = "mutex_of (e_cfg E) key" and ?m = "blk_mem (ci_blocks it ! i)"
  note G' = goodD [OF G]
  let ?s0 = "s\<lparr>cs_locks := (\<lambda>i. Free)(?mx := Shared 1)\<rparr>"
  have lock: "lock_shared E key s = Some ?s0" using G'(3) by (simp add: lock_shared_def Let_def)
  have M0: "mem_only E 0 R S ?s0" "cs_items ?s0 p = Some (it, k)" using G'(1) p by simp_all
  obtain s1 where s1: "mem_block_of E p i None ?s0 = Some (?m, s1)" "mem_only E 0 (R + opt_ref RMem ?m) S s1" "still {} ?s0 s1"
    "cs_items s1 = cs_items ?s0" using mem_block_of_ok [OF M0 i] by blast
  let ?s2 = "s1\<lparr>cs_locks := \<lambda>i. Free\<rparr>"
  have L1: "cs_locks s1 = (\<lambda>i. Free)(?mx := Shared 1)" using movesD(3) [OF stillD(1) [OF s1(3)]] by simp
  then have "unlock_shared E key s1 = Some ?s2" by (simp add: unlock_shared_def Let_def)
  then have "mem_block_of E p i (Some key) s = Some (?m, ?s2)"
    using lock s1(1) by (simp add: mem_block_of_locked)
  moreover have "good n (R + opt_ref RMem ?m) S ?s2" using s1(2) stillD(2,3) [OF s1(3)] G'(2) by (simp add: cache_ok_def policies_ok_def)
  moreover have "moves {} s ?s2" using stillD(1) [OF s1(3)] G'(3) unfolding moves_def by simp
  ultimately show ?thesis using s1(4) by (intro exI [of _ ?s2]) simp
qed

lemma unpin_mem_ok:
  assumes G: "good (Suc n) R S s" and p: "RItem p \<in># R" "cs_items s p = Some (it, k)" and i: "i < length (ci_blocks it)"
  shows "\<exists>s'. unpin_mem E ident p i s = Some s' \<and> good n R S s' \<and> moves {} s s'"
proof -
  let ?m = "blk_mem (ci_blocks it ! i)" and ?key = "block_key_of ident i"
  obtain s1 where s1: "mem_block_of E p i (Some ?key) s = Some (?m, s1)" "good (Suc n) (R + opt_ref RMem ?m) S s1" "moves {} s s1"
    "cs_items s1 = cs_items s" using mem_block_locked_ok [OF G p(2) i] by blast
  obtain s2 where s2: "release_opt (release_mem_block E) ?m s1 = Some s2" "mem_only E 0 R S s2" "still {} s1 s2"
    using release_opt_mem_ok [OF goodD(1) [OF s1(2)]] by blast
  have G2: "good (Suc n) R S s2" by (rule good_still [OF s1(2) s2(2,3)])
  have mv: "moves {} s s2" by (rule moves_trans [OF s1(3) stillD(1) [OF s2(3)]])
  obtain k2 where it2: "cs_items s2 p = Some (it, k2)" using item_exact [OF goodD(1) [OF G] mv s2(2) p] by blast
  obtain v where "item_holds E s2 it v" using mem_onlyD(4) [OF s2(2)] it2 unfolding items_ok_def by blast
  then obtain bs where bs: "block_size (e_cfg E) it i = Some bs" using block_size_ok i by blast
  show ?thesis
  proof (cases "?m = None")
    case True
    then show ?thesis using s1(1) s2(1) good_mono [OF G2] mv by (simp add: unpin_mem_def)
  next
    case False
    obtain s3 where "mem_evict_track E ?key bs s2 = Some s3" "good n R S s3" "moves {} s2 s3" using track_ok [OF G2] by blast
    then show ?thesis using s1(1) s2(1) False get_item_Some [OF it2] bs moves_trans [OF mv] by (auto simp: unpin_mem_def)
  qed
qed

lemma unpin_mems_ok:
  "good (l + n) R S s \<Longrightarrow> RItem p \<in># R \<Longrightarrow> cs_items s p = Some (it, k) \<Longrightarrow> j + l \<le> length (ci_blocks it) \<Longrightarrow>
    \<exists>s'. fold_opt (unpin_mem E ident p) [j..<j + l] s = Some s' \<and> good n R S s' \<and> moves {} s s'"
proof (induction l arbitrary: j s k)
  case (Suc l)
  obtain s1 where s1: "unpin_mem E ident p j s = Some s1" "good (l + n) R S s1" "moves {} s s1"
    using unpin_mem_ok [of "l + n" R S s p it k j ident] Suc.prems by auto
  obtain k1 where it1: "cs_items s1 p = Some (it, k1)"
    using item_exact [OF goodD(1) [OF Suc.prems(1)] s1(3) goodD(1) [OF s1(2)] Suc.prems(2,3)] by blast
  have "Suc j + l \<le> length (ci_blocks it)" using Suc.prems(4) by simp
  from Suc.IH [OF s1(2) Suc.prems(2) it1 this] obtain s2 where
    s2: "fold_opt (unpin_mem E ident p) [Suc j..<Suc j + l] s1 = Some s2" "good n R S s2" "moves {} s1 s2" by blast
  have "[j..<j + Suc l] = j # [Suc j..<Suc j + l]" by (simp add: upt_conv_Cons del: upt_Suc)
  then show ?case using s1(1) s2 moves_trans [OF s1(3)] by (simp del: upt_Suc)
qed simp

lemma unpin_cache_item_ok:
  assumes G: "good (block_count_of (e_cfg E) (ci_size it) + n) R S s" and p: "RItem p \<in># R" "cs_items s p = Some (it, k)"
  shows "\<exists>s'. unpin_cache_item E ident p s = Some (OK, s') \<and> good n R S s' \<and> moves {p} s s'"
proof -
  let ?c = "block_count_of (e_cfg E) (ci_size it)"
  obtain st where st: "snd (set_pinned False it) = it\<lparr>ci_state := st\<rparr>" "is_released it \<longrightarrow> is_released (it\<lparr>ci_state := st\<rparr>)"
    using pinned_state by blast
  let ?it = "it\<lparr>ci_state := st\<rparr>"
  obtain s1 where s1: "item_flag p (set_pinned False) s = Some (fst (set_pinned False it), s1)" "good (?c + n) R S s1" "moves {p} s s1"
    "cs_items s1 p = Some (?it, k)" using flag_ok [where f = "set_pinned False", OF G p(2) st] by blast
  obtain v where "item_holds E s1 ?it v" using mem_onlyD(4) [OF goodD(1) [OF s1(2)]] s1(4) unfolding items_ok_def by blast
  then have "0 + ?c \<le> length (ci_blocks ?it)" using item_holdsD(4) by (fastforce simp: block_count_def)
  from unpin_mems_ok [OF s1(2) p(1) s1(4) this] obtain s2 where
    s2: "fold_opt (unpin_mem E ident p) [0..<0 + ?c] s1 = Some s2" "good n R S s2" "moves {} s1 s2" by blast
  have "moves {p} s1 s2" using s2(3) unfolding moves_def by blast
  then have mv: "moves {p} s s2" by (rule moves_trans [OF s1(3)])
  show ?thesis
  proof (cases "fst (set_pinned False it)")
    case True
    then have "unpin_cache_item E ident p s = Some (OK, s2)"
      using s1(1) s2(1) no_disk_layer [OF goodD(1) [OF s1(2)]] get_item_Some [OF s1(4)] by (simp add: unpin_cache_item_def block_count_def)
    then show ?thesis using s2 mv by blast
  next
    case False
    then show ?thesis using s1 get_item_Some [OF s1(4)] good_mono_add [OF s1(2)] by (simp add: unpin_cache_item_def)
  qed
qed

text \<open>An operation on the object of a key, which keeps the invariant at a cost that depends on its size.\<close>

lemma on_item_ok:
  assumes G: "good (c + n) R S s"
    and f: "\<And>R s p it k v. good (c + n) R S s \<Longrightarrow> RItem p \<in># R \<Longrightarrow> cs_items s p = Some (it, k) \<Longrightarrow> S key = Some v \<Longrightarrow> ci_size it = length v \<Longrightarrow>
      \<exists>s'. f (cachekey2id key) p s = Some (OK, s') \<and> good n R S s' \<and> moves {p} s s'"
  shows "\<exists>st s'. on_item E f key s = Some (st, s') \<and> good n R S s' \<and> cs_concurrent_writes s' = cs_concurrent_writes s \<and>
    (st = OK \<or> st = Err ENOENT)"
proof -
  let ?id = "cachekey2id key"
  let ?R = "R + opt_ref RItem (cs_index s ?id)"
  obtain s1 where s1: "index_find ?id s = Some (cs_index s ?id, s1)" "good (c + n) ?R S s1" "moves {} s s1" "cs_index s1 = cs_index s"
    using found_ok [OF G] by blast
  show ?thesis
  proof (cases "usable key (cs_index s ?id) s1 = Some True")
    case True
    then obtain p where p: "cs_index s ?id = Some p" by (cases "cs_index s ?id") (auto simp: usable_def)
    obtain it k v where it: "cs_items s1 p = Some (it, k)" "item_holds E s1 it v" "is_released it \<or> S (ci_cache_key it) = Some v"
      using indexed_item [OF s1(2)] s1(4) p by fastforce
    then have v: "S key = Some v" "ci_size it = length v" using True p get_item_Some [OF it(1)] item_holdsD(1) [OF it(2)] by (auto simp: usable_def)
    have pR: "RItem p \<in># ?R" using p by simp
    obtain s2 where s2: "f ?id p s1 = Some (OK, s2)" "good n ?R S s2" "moves {p} s1 s2" using f [OF s1(2) pR it(1) v] by blast
    obtain s3 where s3: "release_opt (release_item E) (cs_index s ?id) s2 = Some s3" "good n R S s3" "moves {} s2 s3" using leave_ok [OF s2(2)] by blast
    have "on_item E f key s = Some (OK, s3)" using s1(1) True s2(1) s3(1) p by (simp add: on_item_def Let_def)
    then show ?thesis using s3(2) movesD(4) [OF s1(3)] movesD(4) [OF s2(3)] movesD(4) [OF s3(3)] by simp
  next
    case False
    have "usable key (cs_index s ?id) s1 = Some False"
    proof (cases "cs_index s ?id")
      case (Some p)
      then obtain it k where "cs_items s1 p = Some (it, k)" using indexed_item [OF s1(2)] s1(4) by fastforce
      then show ?thesis using False Some get_item_Some by (fastforce simp: usable_def)
    qed (simp add: usable_def)
    moreover obtain s2 where s2: "release_opt (release_item E) (cs_index s ?id) s1 = Some s2" "good (c + n) R S s2" "moves {} s1 s2"
      using leave_ok [OF s1(2)] by blast
    ultimately have "on_item E f key s = Some (Err ENOENT, s2)" using s1(1) by (simp add: on_item_def Let_def)
    then show ?thesis using good_mono_add [OF s2(2)] movesD(4) [OF s1(3)] movesD(4) [OF s2(3)] by simp
  qed
qed

end

end
