(* ===== verification/CacheRuns.thy ===== *)
theory CacheRuns
  imports MemoryRuns
begin

text \<open>
  Runs of a whole cache without a disk layer, from its initialisation: what every call replies follows from the
  bytes last set, nothing leaks, and the one way to fail is the null pointer of a refused item.
\<close>

section \<open>Calls and replies\<close>

datatype cache_call =
    SetObj cache_key iobuf "write_options option"
  | GetObj cache_key "read_options option"
  | ReadObj cache_key nat nat "read_options option"
  | RemoveObj cache_key
  | PinObj cache_key
  | UnpinObj cache_key

text \<open>A reply is the status, and the bytes read.\<close>

definition cache_step :: "('w, 'p, 'q) env \<Rightarrow> cache_call \<Rightarrow> ('w, 'p, 'q) cache \<Rightarrow> ((status \<times> bytes) \<times> ('w, 'p, 'q) cache) option" where
  "cache_step E call s = (case call of
      SetObj key buf options \<Rightarrow> do { (st, s) \<leftarrow> star_cache_set E key buf options s; Some ((st, []), s) }
    | GetObj key options \<Rightarrow> do { (st, out, s) \<leftarrow> star_cache_get E key [] options s; Some ((st, iobuf_bytes out), s) }
    | ReadObj key off sz options \<Rightarrow> do { (st, out, s) \<leftarrow> star_cache_read E key off sz [] options s; Some ((st, iobuf_bytes out), s) }
    | RemoveObj key \<Rightarrow> do { (st, s) \<leftarrow> star_cache_remove E key s; Some ((st, []), s) }
    | PinObj key \<Rightarrow> do { (st, s) \<leftarrow> star_cache_pin E key s; Some ((st, []), s) }
    | UnpinObj key \<Rightarrow> do { (st, s) \<leftarrow> star_cache_unpin E key s; Some ((st, []), s) })"

fun cache_run :: "('w, 'p, 'q) env \<Rightarrow> cache_call list \<Rightarrow> ('w, 'p, 'q) cache \<Rightarrow> ((status \<times> bytes) list \<times> ('w, 'p, 'q) cache) option" where
  "cache_run E [] s = Some ([], s)"
| "cache_run E (call # calls) s =
     do { (reply, s) \<leftarrow> cache_step E call s; (replies, s) \<leftarrow> cache_run E calls s; Some (reply # replies, s) }"

text \<open>The same calls on a partial map: the replies it allows, and what is stored afterwards.\<close>

definition reply_ok :: "cache_call \<Rightarrow> status \<times> bytes \<Rightarrow> (cache_key \<rightharpoonup> bytes) \<Rightarrow> bool" where
  "reply_ok call reply S = (case call of
      SetObj key buf options \<Rightarrow> snd reply = []
    | GetObj key options \<Rightarrow> fst reply = Err ENOENT \<or> (fst reply = OK \<and> S key = Some (snd reply))
    | ReadObj key off sz options \<Rightarrow>
        fst reply = Err ENOENT \<or> (fst reply = OK \<and> (case S key of None \<Rightarrow> False | Some v \<Rightarrow> snd reply = take sz (drop off v)))
    | _ \<Rightarrow> fst reply = Err ENOENT \<or> fst reply = OK)"

definition map_after :: "cache_call \<Rightarrow> status \<times> bytes \<Rightarrow> (cache_key \<rightharpoonup> bytes) \<Rightarrow> (cache_key \<rightharpoonup> bytes)" where
  "map_after call reply S = (case call of
      SetObj key buf options \<Rightarrow> stored_after key (iobuf_bytes buf) (fst reply) S
    | RemoveObj key \<Rightarrow> (if fst reply = OK then S(key := None) else S)
    | _ \<Rightarrow> S)"

fun replies_ok :: "cache_call list \<Rightarrow> (status \<times> bytes) list \<Rightarrow> (cache_key \<rightharpoonup> bytes) \<Rightarrow> bool" where
  "replies_ok [] [] S = True"
| "replies_ok (call # calls) (reply # replies) S =
     (reply_ok call reply S \<and> replies_ok calls replies (map_after call reply S))"
| "replies_ok _ _ S = False"

text \<open>The calls considered: objects of at most \<open>M\<close> bytes, and ranges whose end does not wrap.\<close>

definition call_ok :: "nat \<Rightarrow> cache_call \<Rightarrow> bool" where
  "call_ok M call = (case call of
      SetObj key buf options \<Rightarrow> iobuf_size buf \<le> M
    | ReadObj key off sz options \<Rightarrow> off + sz < 2 ^ 64
    | _ \<Rightarrow> True)"

text \<open>What a call may take from the budget of the reference counts of the eviction policy: reading is free.\<close>

definition call_cost :: "config \<Rightarrow> nat \<Rightarrow> cache_call \<Rightarrow> nat" where
  "call_cost cfg M call = (case call of SetObj key buf options \<Rightarrow> block_count_of cfg M | UnpinObj key \<Rightarrow> block_count_of cfg M | _ \<Rightarrow> 0)"

definition run_cost :: "config \<Rightarrow> nat \<Rightarrow> cache_call list \<Rightarrow> nat" where
  "run_cost cfg M calls = sum_list (map (call_cost cfg M) calls)"

text \<open>The one way to fail.\<close>

definition call_refused :: "('w, 'p, 'q) env \<Rightarrow> cache_call \<Rightarrow> ('w, 'p, 'q) cache \<Rightarrow> bool" where
  "call_refused E call s = (case call of SetObj key buf options \<Rightarrow> set_refused E key (iobuf_size buf) options s | _ \<Rightarrow> False)"

definition bounded_map :: "nat \<Rightarrow> (cache_key \<rightharpoonup> bytes) \<Rightarrow> bool" where
  "bounded_map M S \<longleftrightarrow> (\<forall>key v. S key = Some v \<longrightarrow> length v \<le> M)"

lemma bounded_map_after: "bounded_map M S \<Longrightarrow> call_ok M call \<Longrightarrow> bounded_map M (map_after call reply S)"
  by (auto simp: bounded_map_def call_ok_def map_after_def stored_after_def split: cache_call.splits)

lemma block_count_mono: "m \<le> n \<Longrightarrow> block_count_of cfg m \<le> block_count_of cfg n"
  by (auto simp: block_count_of_def intro: div_le_mono)

context memory_cache
begin

lemma good_below: "good m R S s \<Longrightarrow> n \<le> m \<Longrightarrow> good n R S s"
  using good_mono_add [of "m - n" n R S s] by simp

text \<open>One call: it returns what the map allows, unless it is refused.\<close>

lemma cache_step_ok:
  assumes G: "good (call_cost (e_cfg E) M call + Suc n) R S s" and S: "bounded_map M S" and M: "M + FLAGS_slice_size (e_cfg E) \<le> 2 ^ 32"
    and w: "cs_concurrent_writes s < 2 ^ 64" and c: "call_ok M call"
  shows "if call_refused E call s then cache_step E call s = None
    else (\<exists>reply s'. cache_step E call s = Some (reply, s') \<and> reply_ok call reply S \<and> good (Suc n) R (map_after call reply S) s' \<and>
      cs_concurrent_writes s' = cs_concurrent_writes s)"
proof -
  let ?c = "block_count_of (e_cfg E) M"
  have G0: "good (Suc n) R S s" by (rule good_below [OF G]) simp
  show ?thesis
  proof (cases call)
    case (SetObj key buf options)
    let ?v = "iobuf_bytes buf"
    have len: "length ?v \<le> M" using c SetObj by (simp add: call_ok_def)
    then have "good (block_count_of (e_cfg E) (length ?v) + Suc n) R S s"
      using good_below [OF G] block_count_mono [OF len, of "e_cfg E"] SetObj by (simp add: call_cost_def)
    from set_op_ok [where key = key and options = options and buf = buf, OF this refl _ w] len M show ?thesis
      using SetObj by (auto simp: call_refused_def cache_step_def star_cache_set_def reply_ok_def map_after_def split: if_splits)
  next
    case (GetObj key options)
    from get_op_ok [where key = key and buf = "[]" and options = options and v = "[]", OF G0] show ?thesis using GetObj
      by (auto simp: call_refused_def cache_step_def star_cache_get_def reply_ok_def map_after_def)
  next
    case (ReadObj key off sz options)
    then have "off + sz < 2 ^ 64" using c by (simp add: call_ok_def)
    from read_op_ok [where key = key and buf = "[]" and options = options and v = "[]", OF G0 this] show ?thesis using ReadObj
      by (auto simp: call_refused_def cache_step_def star_cache_read_def reply_ok_def map_after_def)
  next
    case (RemoveObj key)
    from remove_op_ok [OF G0, of key] show ?thesis using RemoveObj
      by (auto simp: call_refused_def cache_step_def star_cache_remove_def reply_ok_def map_after_def split: if_splits)
  next
    case (PinObj key)
    have "\<exists>st s'. pin_op E key s = Some (st, s') \<and> good (Suc n) R S s' \<and> cs_concurrent_writes s' = cs_concurrent_writes s \<and> (st = OK \<or> st = Err ENOENT)"
      unfolding pin_op_def by (rule on_item_ok [where c = 0]) (use G0 pin_cache_item_ok in auto)
    then show ?thesis using PinObj by (auto simp: call_refused_def cache_step_def star_cache_pin_def reply_ok_def map_after_def)
  next
    case (UnpinObj key)
    have "\<exists>st s'. unpin_op E key s = Some (st, s') \<and> good (Suc n) R S s' \<and> cs_concurrent_writes s' = cs_concurrent_writes s \<and> (st = OK \<or> st = Err ENOENT)"
      unfolding unpin_op_def
    proof (rule on_item_ok [where c = ?c])
      show "good (?c + Suc n) R S s" using G UnpinObj by (simp add: call_cost_def)
      fix R' t p it k v
      assume t: "good (?c + Suc n) R' S t" "RItem p \<in># R'" "cs_items t p = Some (it, k)" "S key = Some v" "ci_size it = length v"
      have "block_count_of (e_cfg E) (ci_size it) \<le> ?c" using S t(4,5) by (intro block_count_mono) (simp add: bounded_map_def)
      then have "good (block_count_of (e_cfg E) (ci_size it) + Suc n) R' S t" by (intro good_below [OF t(1)]) simp
      from unpin_cache_item_ok [OF this t(2,3)]
      show "\<exists>s'. unpin_cache_item E (cachekey2id key) p t = Some (OK, s') \<and> good (Suc n) R' S s' \<and> moves {p} t s'" .
    qed
    then show ?thesis using UnpinObj by (auto simp: call_refused_def cache_step_def star_cache_unpin_def reply_ok_def map_after_def)
  qed
qed

text \<open>A run either completes, or ends in a call that is refused.\<close>

lemma cache_run_ok:
  assumes M: "M + FLAGS_slice_size (e_cfg E) \<le> 2 ^ 32"
  shows "good (run_cost (e_cfg E) M calls + Suc n) R S s \<Longrightarrow> bounded_map M S \<Longrightarrow> cs_concurrent_writes s < 2 ^ 64 \<Longrightarrow> list_all (call_ok M) calls \<Longrightarrow>
    (\<exists>replies s' S'. cache_run E calls s = Some (replies, s') \<and> replies_ok calls replies S \<and> good (Suc n) R S' s' \<and>
      bounded_map M S' \<and> cs_concurrent_writes s' = cs_concurrent_writes s) \<or>
    (cache_run E calls s = None \<and> (\<exists>before call after replies t. calls = before @ call # after \<and> cache_run E before s = Some (replies, t) \<and>
      replies_ok before replies S \<and> call_refused E call t \<and> cache_step E call t = None))"
proof (induction calls arbitrary: s S)
  case Nil
  then show ?case by (auto simp: run_cost_def)
next
  case (Cons call calls)
  have c: "call_ok M call" "list_all (call_ok M) calls" using Cons.prems(4) by simp_all
  have G: "good (call_cost (e_cfg E) M call + Suc (run_cost (e_cfg E) M calls + n)) R S s" using Cons.prems(1) by (simp add: run_cost_def add.assoc)
  note step = cache_step_ok [OF G Cons.prems(2) M Cons.prems(3) c(1)]
  show ?case
  proof (cases "call_refused E call s")
    case True
    then have "cache_step E call s = None" using step by simp
    then have "cache_run E (call # calls) s = None" "call # calls = [] @ call # calls \<and> cache_run E [] s = Some ([], s) \<and>
        replies_ok [] [] S \<and> call_refused E call s \<and> cache_step E call s = None" using True by simp_all
    then show ?thesis by blast
  next
    case False
    then obtain reply s1 where s1: "cache_step E call s = Some (reply, s1)" "reply_ok call reply S"
      "good (Suc (run_cost (e_cfg E) M calls + n)) R (map_after call reply S) s1" "cs_concurrent_writes s1 = cs_concurrent_writes s"
      using step by auto
    have G1: "good (run_cost (e_cfg E) M calls + Suc n) R (map_after call reply S) s1" "cs_concurrent_writes s1 < 2 ^ 64"
      using s1(3,4) Cons.prems(3) by simp_all
    from Cons.IH [OF G1(1) bounded_map_after [OF Cons.prems(2) c(1)] G1(2) c(2)] show ?thesis
    proof (elim disjE exE conjE)
      fix replies s' S'
      assume "cache_run E calls s1 = Some (replies, s')" "replies_ok calls replies (map_after call reply S)" "good (Suc n) R S' s'"
        "bounded_map M S'" "cs_concurrent_writes s' = cs_concurrent_writes s1"
      then show ?thesis using s1(1,2,4) by auto
    next
      fix before call' after replies t
      assume r: "cache_run E calls s1 = None" "calls = before @ call' # after" "cache_run E before s1 = Some (replies, t)"
        "replies_ok before replies (map_after call reply S)" "call_refused E call' t" "cache_step E call' t = None"
      then have "cache_run E (call # calls) s = None" using s1(1) by simp
      moreover have "call # calls = (call # before) @ call' # after" "cache_run E (call # before) s = Some (reply # replies, t)"
        "replies_ok (call # before) (reply # replies) S" using r(2-4) s1(1,2) by simp_all
      ultimately show ?thesis using r(5,6) by blast
    qed
  qed
qed

text \<open>An item larger than what an empty cache can grant is refused after every retry.\<close>

lemma alloc_item_starved:
  assumes big: "\<not> item_charge E (length key) sz < q * of_nat (FLAGS_alloc_mem_threshold (e_cfg E)) div 100" "item_charge E (length key) sz \<noteq> 0"
  shows "minv n (cs_mem_policy s) \<Longrightarrow> mtracked (cs_mem_policy s) = {} \<Longrightarrow> ms_quota_bytes (cs_mem s) = q \<Longrightarrow> ms_used_bytes (cs_mem s) = 0 \<Longrightarrow>
    ms_private_quota_bytes (cs_mem s) = 0 \<Longrightarrow> \<exists>s'. alloc_item_retry E key sz t urgent j s = Some (None, s')"
proof (induction j arbitrary: s urgent)
  case (Suc j)
  let ?m = "snd (inc_mem (e_cfg E) (item_charge E (length key) sz) urgent (cs_mem s))"
  have m: "\<not> fst (inc_mem (e_cfg E) (item_charge E (length key) sz) urgent (cs_mem s))" "ms_quota_bytes ?m = q" "ms_used_bytes ?m = 0"
    "ms_private_quota_bytes ?m = 0" using big Suc.prems by (simp_all add: inc_mem_def Let_def)
  let ?s = "s\<lparr>cs_mem := ?m\<rparr>"
  have new: "new_cache_item E key sz t urgent s = (None, ?s)" using m(1)
    by (cases "inc_mem (e_cfg E) (item_charge E (length key) sz) urgent (cs_mem s)") (simp add: new_cache_item_def Let_def)
  obtain p where p: "p_evict (e_mem_ops E) (to_u64 (sz * FLAGS_mem_evict_times (e_cfg E))) [] (cs_mem_policy s) = Some ([], p)"
    "minv n p" "mtracked p = {}"
    using mem.evict_law [OF Suc.prems(1), of "to_u64 (sz * FLAGS_mem_evict_times (e_cfg E))" "[]"] Suc.prems(2) by auto
  then have "evict_mem_block E sz ?s = Some (?s\<lparr>cs_mem_policy := p\<rparr>)"
    by (simp add: evict_mem_block_def mem_evict_def process_evicted_mem_blocks_def)
  moreover have "\<exists>s'. alloc_item_retry E key sz t True j (?s\<lparr>cs_mem_policy := p\<rparr>) = Some (None, s')"
    by (rule Suc.IH) (use p m in simp_all)
  ultimately show ?case using new by simp
qed simp

end

section \<open>Initialisation\<close>

text \<open>The environment of the program: both eviction policies are the LRU policy.\<close>

definition lru_env :: "('w, sharded_lru, sharded_lru) env \<Rightarrow> byte list \<Rightarrow> bool" where
  "lru_env E pad \<longleftrightarrow> e_mem_ops E = lru_policy True (block_key_codec pad) \<and> e_disk_ops E = lru_policy True cache_id_codec \<and>
     e_mem_policy_new E = lru_policy_new (e_cfg E) True \<and> e_disk_policy_new E = lru_policy_new (e_cfg E) True \<and>
     FLAGS_lru_container_shard_bits (e_cfg E) < 32 \<and> ext_ok (e_ext E) \<and> config_ok (e_cfg E) \<and> memalign_ok (os_memalign (e_os E))"

lemma lru_env_cache:
  assumes "lru_env E pad"
  shows "memory_cache E (sharded_ok (block_key_codec pad)) (sh_tracked (block_key_codec pad)) sh_holds
    (sharded_ok cache_id_codec) (sh_tracked cache_id_codec) sh_holds"
  using assms mem_policy.eviction_policy_axioms [of pad] disk_policy.eviction_policy_axioms
  unfolding lru_env_def memory_cache_def memory_cache_axioms_def by simp

abbreviation lru_good :: "byte list \<Rightarrow> ('w, sharded_lru, sharded_lru) env \<Rightarrow> nat \<Rightarrow> (cache_key \<rightharpoonup> bytes) \<Rightarrow> ('w, sharded_lru, sharded_lru) cache \<Rightarrow> bool" where
  "lru_good pad E n S s \<equiv> cache_ok E (sharded_ok (block_key_codec pad)) (sharded_ok cache_id_codec) (sh_tracked cache_id_codec) n {#} S s"

definition memory_options :: "nat \<Rightarrow> cache_options" where
  "memory_options quota = \<lparr>co_mem_quota_bytes = quota, co_disk_dir_spaces = []\<rparr>"

lemma init_ok:
  assumes "lru_env E pad" and "n < 2 ^ 31"
  shows "\<exists>s. star_cache_init E (memory_options quota) (star_cache_new w p q seed) = Some (OK, s) \<and> lru_good pad E n Map.empty s \<and>
    cs_concurrent_writes s = 0 \<and> sh_tracked (block_key_codec pad) (cs_mem_policy s) = {} \<and>
    cs_mem s = add_cache_zone (of_nat quota) mem_reset \<and> cs_index s = Map.empty"
proof -
  let ?N = "2 ^ FLAGS_lru_container_shard_bits (e_cfg E) :: nat"
  have N: "0 < ?N" "?N < 2 ^ 32"
    using power_strict_increasing [of "FLAGS_lru_container_shard_bits (e_cfg E)" 32 "2 :: nat"] assms(1) by (simp_all add: lru_env_def)
  from sharded_new_ok [OF N assms(2), of "block_key_codec pad"] obtain pm where pm: "sharded_new True ?N = Some pm" "sharded_ok (block_key_codec pad) n pm" "sh_tracked (block_key_codec pad) pm = {}"
    by (elim exE conjE)
  have "(0 :: nat) < 2 ^ 31" by simp
  from sharded_new_ok [OF N this, of cache_id_codec] obtain pd where pd: "sharded_new True ?N = Some pd" "sharded_ok cache_id_codec 0 pd" "sh_tracked cache_id_codec pd = {}"
    by (elim exE conjE)
  let ?s0 = "(cache_new w p q seed)\<lparr>cs_options := memory_options quota, cs_mem := add_cache_zone (of_nat quota) mem_reset, cs_mem_policy := pm,
    cs_disk := dsm_empty, cs_disk_policy := pd, cs_index := Map.empty\<rparr>"
  obtain a g where "star_cache_init E (memory_options quota) (star_cache_new w p q seed) =
      Some (OK, ?s0\<lparr>cs_asked := a, cs_rand_generator := g\<rparr>)"
    using assms(1) pm(1) pd(1)
    by (simp add: star_cache_init_def star_cache_new_def init_op_def mem_cache_init_def disk_cache_init_def memory_options_def lru_env_def
        lru_policy_new_def dsm_reset_def ask_def Let_def cache_new_def)
  moreover have "own {#} (?s0\<lparr>cs_asked := a, cs_rand_generator := g\<rparr>)"
  proof -
    have "use_count (?s0\<lparr>cs_asked := a, cs_rand_generator := g\<rparr>) r = 0" for r
      by (cases r) (simp_all add: count_in_def cache_new_def)
    then show ?thesis by (simp add: own_def counted_def owners_def index_refs_def cache_new_def)
  qed
  ultimately show ?thesis
    using pm pd
    by (simp add: cache_ok_def policies_ok_def mem_only_def acct_def below_brk_def items_ok_def index_holds_def cache_new_def memory_options_def
        add_cache_zone_def mem_reset_def)
qed

end
