(* ===== verification/Reachability.thy ===== *)
theory Reachability
  imports MemoryOnly
begin

text \<open>
  When no operation runs, every live object of a cache without a disk layer is reached from the index, by exactly
  the references its use count says: nothing leaks.
\<close>

lemma in_heap_sum:
  assumes "r \<in># heap_sum g hp"
  shows "\<exists>p x n. hp p = Some (x, n) \<and> r \<in># g x"
proof -
  have "(\<Sum>p \<in> dom hp. count (g (fst (the (hp p)))) r) \<noteq> 0"
    using assms by (simp add: heap_sum_def count_sum [symmetric] count_eq_zero_iff)
  then obtain p where p: "p \<in> dom hp" "count (g (fst (the (hp p)))) r \<noteq> 0" by (meson sum.neutral)
  then show ?thesis by (auto simp: count_eq_zero_iff) (metis count_greater_zero_iff fst_conv)
qed

lemma in_item_refs: "r \<in># item_refs it \<longleftrightarrow> (\<exists>b \<in> set (ci_blocks it). r \<in># block_refs b)"
  by (simp add: item_refs_def)

lemma in_block_refs: "r \<in># block_refs b \<longleftrightarrow> (\<exists>p. r = RDisk p \<and> blk_disk b = Some p \<or> r = RMem p \<and> blk_mem b = Some p)"
  by (auto simp: block_refs_def opt_ref_def split: option.splits)

lemma in_mem_refs: "r \<in># mem_refs b \<longleftrightarrow> (\<exists>p. r = RSeg p \<and> Some p \<in> set (mb_slices b))"
  by (force simp: mem_refs_def opt_ref_def split: option.splits)

lemma count_index_refs:
  assumes "finite (dom m)"
  shows "count (index_refs m) (RItem p) = card {x \<in> dom m. m x = Some p}"
proof -
  have "count (index_refs m) (RItem p) = (\<Sum>x \<in> dom m. if m x = Some p then 1 else 0)"
    unfolding index_refs_def count_sum by (rule sum.cong) auto
  also have "\<dots> = card {x \<in> dom m. m x = Some p}" using assms by (simp add: sum.If_cases Int_def)
  finally show ?thesis .
qed

lemma index_refs_item:
  assumes "finite (dom m)" and "r \<in># index_refs m"
  shows "\<exists>p. r = RItem p"
proof (rule ccontr)
  assume r: "\<nexists>p. r = RItem p"
  then have "count (index_refs m) r = 0" unfolding index_refs_def count_sum by (intro sum.neutral) auto
  then show False using assms(2) by (simp add: count_eq_zero_iff)
qed

text \<open>The use count of an item is the number of entries of the index for it.\<close>

lemma item_owned:
  assumes "own {#} s" and "cs_items s p = Some (it, k)"
  shows "k = card {x \<in> dom (cs_index s). cs_index s x = Some p}"
proof -
  have "RItem p \<notin># heap_sum item_refs (cs_items s)" "RItem p \<notin># heap_sum mem_refs (cs_mem_blocks s)"
    by (auto dest!: in_heap_sum simp: in_item_refs in_block_refs in_mem_refs)
  then have "count (owners s) (RItem p) = card {x \<in> dom (cs_index s). cs_index s x = Some p}"
    using count_index_refs [OF ownD(5) [OF assms(1)]] by (simp add: owners_def not_in_iff)
  then show ?thesis using ownD(6) [OF assms(1), of "RItem p"] assms(2) by (simp add: count_in_def)
qed

lemma live_owned:
  assumes "own {#} s" and "0 < use_count s r"
  shows "r \<in># owners s"
  using assms ownD(6) [OF assms(1), of r] by simp

lemma mem_block_owned:
  assumes "own {#} s" and "cs_mem_blocks s m = Some (b, k)"
  shows "\<exists>p it n block. cs_items s p = Some (it, n) \<and> block \<in> set (ci_blocks it) \<and> blk_mem block = Some m"
proof -
  have "0 < use_count s (RMem m)" using assms(2) counted_pos [OF ownD(2) [OF assms(1)]] by (simp add: count_in_def)
  then have "RMem m \<in># owners s" by (rule live_owned [OF assms(1)])
  moreover have "RMem m \<notin># heap_sum mem_refs (cs_mem_blocks s)" by (auto dest!: in_heap_sum simp: in_mem_refs)
  moreover have "RMem m \<notin># index_refs (cs_index s)" using index_refs_item [OF ownD(5) [OF assms(1)]] by blast
  ultimately have "RMem m \<in># heap_sum item_refs (cs_items s)" by (simp add: owners_def)
  from in_heap_sum [OF this] obtain p it n where p: "cs_items s p = Some (it, n)" "RMem m \<in># item_refs it" by blast
  from p(2) obtain block where "block \<in> set (ci_blocks it)" "blk_mem block = Some m" by (auto simp: in_item_refs in_block_refs)
  then show ?thesis using p(1) by blast
qed

lemma segment_owned:
  assumes "own {#} s" and "cs_segments s g = Some (seg, k)"
  shows "\<exists>m b n. cs_mem_blocks s m = Some (b, n) \<and> Some g \<in> set (mb_slices b)"
proof -
  have "0 < use_count s (RSeg g)" using assms(2) counted_pos [OF ownD(4) [OF assms(1)]] by (simp add: count_in_def)
  then have "RSeg g \<in># owners s" by (rule live_owned [OF assms(1)])
  moreover have "RSeg g \<notin># heap_sum item_refs (cs_items s)" by (auto dest!: in_heap_sum simp: in_item_refs in_block_refs)
  moreover have "RSeg g \<notin># index_refs (cs_index s)" using index_refs_item [OF ownD(5) [OF assms(1)]] by blast
  ultimately have "RSeg g \<in># heap_sum mem_refs (cs_mem_blocks s)" by (simp add: owners_def)
  from in_heap_sum [OF this] obtain m b n where m: "cs_mem_blocks s m = Some (b, n)" "RSeg g \<in># mem_refs b" by blast
  from m(2) have "Some g \<in> set (mb_slices b)" by (simp add: in_mem_refs)
  then show ?thesis using m(1) by blast
qed

text \<open>An item of the index has one entry there, that of its key.\<close>

lemma item_in_index:
  assumes "mem_only E c {#} S s" and "cs_items s p = Some (it, k)"
  shows "k = 1" and "cs_index s (cachekey2id (ci_cache_key it)) = Some p"
proof -
  note own = mem_onlyD(1) [OF assms(1)]
  let ?X = "{x \<in> dom (cs_index s). cs_index s x = Some p}"
  have "0 < k" by (rule counted_pos [OF ownD(1) [OF own] assms(2)])
  then have "?X \<noteq> {}" using item_owned [OF own assms(2)] by (metis card.empty less_irrefl)
  moreover have only: "x = cachekey2id (ci_cache_key it)" if "x \<in> ?X" for x
    using mem_onlyD(5) [OF assms(1)] that assms(2) unfolding index_holds_def by fastforce
  ultimately have X: "?X = {cachekey2id (ci_cache_key it)}" by blast
  then show "k = 1" using item_owned [OF own assms(2)] by simp
  show "cs_index s (cachekey2id (ci_cache_key it)) = Some p" using X by blast
qed

end
