(* ===== verification/CacheProps.thy ===== *)
theory CacheProps
  imports CacheRuns Reachability "HOL-Library.Code_Target_Numeral"
begin

text \<open>
  What a cache without a disk layer guarantees over its lifetime, with runs of it that are evaluated from the
  initialisation to the last reply.
\<close>

section \<open>Evaluating a run\<close>

text \<open>Code equations for the loops, and for the two hash values the example below uses over and over.\<close>

declare evict_from_lru.simps [code] rehash_chain.simps [code] prune_from.simps [code] find_from.simps [code] grow.simps [code]

lemma memcmp_code [code]:
  "memcmp xs ys n = (if n = 0 then 0 else case xs of [] \<Rightarrow> 0 | a # as \<Rightarrow> (case ys of [] \<Rightarrow> 0 | b # bs \<Rightarrow>
     if a < b then - 1 else if b < a then 1 else memcmp as bs (n - 1)))"
  by (cases xs; cases ys; cases n; simp)

lemma demo_id: "cachekey2id [1] = 17366249907517494147"
  by (simp add: cachekey2id_short tail_x64_64_def tail_byte_def mix1_x64_def rotl64_def fmix64_def Let_def)

lemma cachekey2id_code [code]: "cachekey2id key = (if key = [1] then 17366249907517494147 else hash64 key (to_i32 (int (length key))) 0)"
  using demo_id by (simp add: cachekey2id_def)

lemma demo_hash: "key_hash [131, 147, 61, 210, 71, 80, 1, 241, 0, 0, 0, 0, 0, 0, 0, 0] 0 = 3339543682"
  by (simp add: key_hash_def key_hash_body.simps decode_fixed32_def Let_def)

lemma key_hash_code [code]:
  "key_hash k seed = (if k = [131, 147, 61, 210, 71, 80, 1, 241, 0, 0, 0, 0, 0, 0, 0, 0] \<and> seed = 0 then 3339543682
     else key_hash_body k (seed XOR (of_nat (length k) * 0xc6a4a793)))"
  using demo_hash by (simp add: key_hash_def)

definition run_from_init ::
    "('w, 'p, 'q) env \<Rightarrow> nat \<Rightarrow> ('w, 'p, 'q) cache \<Rightarrow> cache_call list \<Rightarrow> ((status \<times> bytes) list \<times> ('w, 'p, 'q) cache) option" where
  "run_from_init E quota s calls = do { (st, s) \<leftarrow> star_cache_init E (memory_options quota) s; cache_run E calls s }"

lemma demo_run_set:
  "map_option fst (run_from_init (demo_env small_config) 4000 demo_cache [SetObj [1] [[1, 2], [3]] None]) = Some [(OK, [])]"
  by code_simp

section \<open>From initialisation on\<close>

lemma demo_lru_env: "config_ok cfg \<Longrightarrow> FLAGS_lru_container_shard_bits cfg < 32 \<Longrightarrow> lru_env (demo_env cfg) [0, 0, 0, 0]"
  by (simp add: lru_env_def demo_env_def simple_ext_ok memalign_ok_def simple_os_def)

lemma small_lru_env: "lru_env (demo_env small_config) [0, 0, 0, 0]"
  by (rule demo_lru_env [OF small_config_ok]) (simp add: small_config_def default_config_def)

interpretation default_cache: memory_cache "demo_env default_config"
    "sharded_ok (block_key_codec [0, 0, 0, 0])" "sh_tracked (block_key_codec [0, 0, 0, 0])" sh_holds
    "sharded_ok cache_id_codec" "sh_tracked cache_id_codec" sh_holds
  by (rule lru_env_cache [OF demo_lru_env [OF default_config_ok]]) (simp add: default_config_def)

text \<open>A fresh cache and the calls of a run: what the theorems below ask of them.\<close>

definition run_ok :: "('w, sharded_lru, sharded_lru) env \<Rightarrow> byte list \<Rightarrow> nat \<Rightarrow> cache_call list \<Rightarrow> bool" where
  "run_ok E pad M calls \<longleftrightarrow> lru_env E pad \<and> M + FLAGS_slice_size (e_cfg E) \<le> 2 ^ 32 \<and> list_all (call_ok M) calls \<and>
     run_cost (e_cfg E) M calls + 1 < 2 ^ 31"

lemma run_okD:
  assumes "run_ok E pad M calls"
  shows "lru_env E pad" and "M + FLAGS_slice_size (e_cfg E) \<le> 2 ^ 32" and "list_all (call_ok M) calls" and "run_cost (e_cfg E) M calls + Suc 0 < 2 ^ 31"
  using assms by (simp_all add: run_ok_def)

lemma run_from_init_ok:
  assumes E: "lru_env E pad" and M: "M + FLAGS_slice_size (e_cfg E) \<le> 2 ^ 32" and calls: "list_all (call_ok M) calls"
    and cost: "run_cost (e_cfg E) M calls + Suc n < 2 ^ 31"
  shows "(\<exists>replies s S. run_from_init E quota (star_cache_new w p q seed) calls = Some (replies, s) \<and> replies_ok calls replies Map.empty \<and>
      lru_good pad E (Suc n) S s \<and> cs_concurrent_writes s = 0) \<or>
    (run_from_init E quota (star_cache_new w p q seed) calls = None \<and> (\<exists>before call after replies t. calls = before @ call # after \<and>
      run_from_init E quota (star_cache_new w p q seed) before = Some (replies, t) \<and> replies_ok before replies Map.empty \<and>
      call_refused E call t \<and> cache_step E call t = None))"
proof -
  obtain s where s: "star_cache_init E (memory_options quota) (star_cache_new w p q seed) = Some (OK, s)"
    "lru_good pad E (run_cost (e_cfg E) M calls + Suc n) Map.empty s" "cs_concurrent_writes s = 0"
    using init_ok [OF E cost] by blast
  have run: "run_from_init E quota (star_cache_new w p q seed) cs = cache_run E cs s" for cs by (simp add: run_from_init_def s(1))
  have "bounded_map M Map.empty" "cs_concurrent_writes s < 2 ^ 64" using s(3) by (simp_all add: bounded_map_def)
  from memory_cache.cache_run_ok [OF lru_env_cache [OF E] M s(2) this calls] show ?thesis
    unfolding run s(3) by blast
qed

text \<open>A run that returned ended in a good state.\<close>

lemma run_returned:
  assumes E: "lru_env E pad" and M: "M + FLAGS_slice_size (e_cfg E) \<le> 2 ^ 32" and calls: "list_all (call_ok M) calls"
    and cost: "run_cost (e_cfg E) M calls + Suc n < 2 ^ 31"
    and r: "run_from_init E quota (star_cache_new w p q seed) calls = Some (replies, s)"
  shows "\<exists>S. lru_good pad E (Suc n) S s \<and> cs_concurrent_writes s = 0"
  using run_from_init_ok [OF E M calls cost, of quota w p q seed] r by auto

lemma cache_run_append:
  "cache_run E (xs @ ys) s = do { (r1, s) \<leftarrow> cache_run E xs s; (r2, s) \<leftarrow> cache_run E ys s; Some (r1 @ r2, s) }"
proof (induction xs arbitrary: s)
  case Nil
  show ?case by (cases "cache_run E ys s") auto
next
  case (Cons x xs)
  have "do { (r1, s) \<leftarrow> do { (rs, s) \<leftarrow> cache_run E xs t; Some (reply # rs, s) }; (r2, s) \<leftarrow> cache_run E ys s; Some (r1 @ r2, s) } =
      do { (r1, s) \<leftarrow> do { (r1, s) \<leftarrow> cache_run E xs t; (r2, s) \<leftarrow> cache_run E ys s; Some (r1 @ r2, s) }; Some (reply # r1, s) }" for reply t
    by (auto split: bind_splits)
  then show ?case by (cases "cache_step E x s") (auto simp: Cons.IH)
qed

lemma run_snoc:
  assumes "run_from_init E quota s0 (calls @ [call]) = Some (replies @ [reply], s)"
  shows "\<exists>t. run_from_init E quota s0 calls = Some (replies, t) \<and> cache_step E call t = Some (reply, s)"
  using assms by (auto simp: run_from_init_def cache_run_append split: bind_splits)

section \<open>What a cache without a disk layer guarantees\<close>

text \<open>
  C1: whatever is called after initialisation, every call returns and its reply is that of a map from keys to the bytes
  last set (where an object may have been evicted), and the locks are free afterwards; the one exception is a
  \<^verbatim>\<open>set\<close> whose item is refused memory after all retries, which uses a null pointer.
\<close>
theorem cache_runs_meet_map_spec:
  assumes "run_ok E pad M calls"
  shows "(\<exists>replies s. run_from_init E quota (star_cache_new w p q seed) calls = Some (replies, s) \<and> replies_ok calls replies Map.empty \<and>
      cs_locks s = (\<lambda>i. Free)) \<or>
    (\<exists>before call after replies t. calls = before @ call # after \<and>
      run_from_init E quota (star_cache_new w p q seed) before = Some (replies, t) \<and> replies_ok before replies Map.empty \<and>
      call_refused E call t \<and> cache_step E call t = None)"
  using run_from_init_ok [OF run_okD [OF assms], of quota w p q seed] unfolding cache_ok_def by blast

text \<open>
  C2: in a cache without a disk layer, once a \<^verbatim>\<open>set\<close> has succeeded, a \<^verbatim>\<open>get\<close> that follows returns exactly the bytes of it, and a read of a range exactly
  those of the range.
\<close>
theorem set_then_get_round_trip:
  assumes "run_ok E pad M (calls @ [SetObj key buf options])" and "off + n < 2 ^ 64"
    and "run_from_init E quota (star_cache_new w p q seed) (calls @ [SetObj key buf options]) = Some (replies @ [(OK, out)], s)"
  shows "(\<exists>s'. cache_step E (GetObj key r) s = Some ((OK, iobuf_bytes buf), s')) \<and>
    (\<exists>s'. cache_step E (ReadObj key off n r) s = Some ((OK, take n (drop off (iobuf_bytes buf))), s'))"
proof -
  let ?v = "iobuf_bytes buf" and ?run = "run_from_init E quota (star_cache_new w p q seed)"
  obtain t where t: "?run calls = Some (replies, t)" "cache_step E (SetObj key buf options) t = Some ((OK, out), s)"
    using run_snoc [OF assms(3)] by blast
  have E: "lru_env E pad" and M: "length ?v \<le> M" "M + FLAGS_slice_size (e_cfg E) \<le> 2 ^ 32" and calls: "list_all (call_ok M) calls"
    and cost: "run_cost (e_cfg E) M calls + Suc (block_count_of (e_cfg E) M) < 2 ^ 31"
    using assms(1) by (simp_all add: run_ok_def call_ok_def run_cost_def call_cost_def)
  have v: "length ?v + FLAGS_slice_size (e_cfg E) \<le> 2 ^ 32" using M by linarith
  note cache = lru_env_cache [OF E]
  obtain S where G: "lru_good pad E (block_count_of (e_cfg E) (length ?v) + 1) S t" "cs_concurrent_writes t < 2 ^ 64"
  proof -
    obtain S where S: "lru_good pad E (Suc (block_count_of (e_cfg E) M)) S t" "cs_concurrent_writes t = 0"
      using run_returned [OF E M(2) calls cost t(1)] by blast
    have "lru_good pad E (block_count_of (e_cfg E) (length ?v) + 1) S t"
      using memory_cache.good_below [OF cache S(1)] block_count_mono [OF M(1), of "e_cfg E"] by simp
    then show ?thesis using that S(2) by simp
  qed
  from memory_cache.set_op_ok [OF cache G(1) refl v G(2), of key options] t(2) obtain st s1 where
    s1: "lru_good pad E 1 (stored_after key ?v st S) s" "resident E key ?v s"
    by (auto simp: cache_step_def star_cache_set_def split: if_splits bind_splits)
  have G1: "lru_good pad E (Suc 0) (stored_after key ?v st S) s" using s1(1) by simp
  show ?thesis
    using memory_cache.get_op_ok [where v = ?v and key = key and buf = "[]" and options = r, OF cache G1]
      memory_cache.read_op_ok [where v = ?v and key = key and buf = "[]" and options = r, OF cache G1 assms(2)] s1(2)
    by (auto simp: cache_step_def star_cache_get_def star_cache_read_def get_op_def read_op_def)
qed

text \<open>
  C4: in a cache without a disk layer, after any calls that returned (C1 says which do), every use count is the number of references to the object, the memory in use is
  the sum of the charges of the live segments and items, and no lock is held.
\<close>
theorem reference_counts_and_memory_exact:
  assumes "run_ok E pad M calls" and "run_from_init E quota (star_cache_new w p q seed) calls = Some (replies, s)"
  shows "(\<forall>r. use_count s r = count (owners s) r) \<and>
    ms_used_bytes (cs_mem s) = heap_sum (segment_charge E) (cs_segments s) + heap_sum (it_charge E) (cs_items s) \<and>
    cs_locks s = (\<lambda>i. Free) \<and> cs_concurrent_writes s = 0"
proof -
  obtain S where S: "lru_good pad E (Suc 0) S s" "cs_concurrent_writes s = 0"
    using run_returned [OF run_okD [OF assms(1)] assms(2)] by blast
  then show ?thesis by (simp add: cache_ok_def mem_only_def own_def acct_def)
qed

text \<open>
  C3: nothing leaks in a cache without a disk layer. After any calls that returned (C1 says which do), an item alive is the one the index has for its key, with a use
  count of one, every memory block alive belongs to such an item, and every segment alive to such a block.
\<close>
theorem live_objects_are_reachable:
  assumes "run_ok E pad M calls" and "run_from_init E quota (star_cache_new w p q seed) calls = Some (replies, s)"
  shows "(\<forall>i it k. cs_items s i = Some (it, k) \<longrightarrow> k = 1 \<and> cs_index s (cachekey2id (ci_cache_key it)) = Some i) \<and>
    (\<forall>m b k. cs_mem_blocks s m = Some (b, k) \<longrightarrow>
       (\<exists>i it n block. cs_items s i = Some (it, n) \<and> block \<in> set (ci_blocks it) \<and> blk_mem block = Some m)) \<and>
    (\<forall>g seg k. cs_segments s g = Some (seg, k) \<longrightarrow> (\<exists>m b n. cs_mem_blocks s m = Some (b, n) \<and> Some g \<in> set (mb_slices b)))"
proof -
  obtain S where "lru_good pad E (Suc 0) S s" using run_returned [OF run_okD [OF assms(1)] assms(2)] by blast
  then have S: "mem_only E 0 {#} S s" by (simp add: cache_ok_def)
  show ?thesis
    using item_in_index [OF S] mem_block_owned [OF mem_onlyD(1) [OF S]] segment_owned [OF mem_onlyD(1) [OF S]] by blast
qed

text \<open>
  C33: a \<^verbatim>\<open>set\<close> on a fresh cache whose memory cannot grant even the charge of the item does not fail with ENOMEM: after
  all retries it uses a null pointer.
\<close>
theorem set_on_small_cache_crashes:
  assumes "lru_env E pad" and "iobuf_size buf \<noteq> 0" and "1 \<le> FLAGS_max_concurrent_writes (e_cfg E)"
    and "iobuf_size buf + FLAGS_slice_size (e_cfg E) \<le> 2 ^ 32" and "block_count_of (e_cfg E) (iobuf_size buf) + 1 < 2 ^ 31"
    and "of_nat quota * of_nat (FLAGS_alloc_mem_threshold (e_cfg E)) div 100 \<le> item_charge E (length key) (iobuf_size buf)"
    and "item_charge E (length key) (iobuf_size buf) \<noteq> 0"
  shows "run_from_init E quota (star_cache_new w p q seed) [SetObj key buf options] = None"
proof -
  note cache = lru_env_cache [OF assms(1)]
  obtain s where s: "star_cache_init E (memory_options quota) (star_cache_new w p q seed) = Some (OK, s)"
    "lru_good pad E (block_count_of (e_cfg E) (iobuf_size buf) + 1) Map.empty s" "cs_concurrent_writes s = 0"
    "sh_tracked (block_key_codec pad) (cs_mem_policy s) = {}" "cs_mem s = add_cache_zone (of_nat quota) mem_reset" "cs_index s = Map.empty"
    using init_ok [OF assms(1,5)] by blast
  let ?s = "s\<lparr>cs_concurrent_writes := to_u64 (cs_concurrent_writes s + 1)\<rparr>"
  have start: "set_start E key options s = Some ?s" using s(6) by (simp add: set_start_def index_find_def phm_find_def release_opt_def Let_def)
  have "sharded_ok (block_key_codec pad) (block_count_of (e_cfg E) (iobuf_size buf) + 1) (cs_mem_policy s)"
    using s(2) by (simp add: cache_ok_def policies_ok_def)
  with memory_cache.alloc_item_starved [OF cache, of key "iobuf_size buf" "of_nat quota"] assms(6,7) s(4,5)
  have "item_refused E key (iobuf_size buf) options ?s"
    by (simp add: item_refused_def alloc_cache_item_def ask_def add_cache_zone_def mem_reset_def not_less)
  then have "set_refused E key (iobuf_size buf) options s"
    using assms(2,3) s(3) start by (simp add: set_refused_def)
  with memory_cache.set_op_ok [OF cache s(2) refl assms(4), of key options] s(3) have "set_op E key buf options s = None" by simp
  then show ?thesis by (simp add: run_from_init_def s(1) cache_step_def star_cache_set_def)
qed

section \<open>Examples\<close>

lemma demo_fresh: "star_cache_new ([], \<lambda>fd i. 0) \<lparr>sl_shards = [], sl_brk = 1\<rparr> \<lparr>sl_shards = [], sl_brk = 1\<rparr> 1 = demo_cache"
  by (simp add: demo_cache_def star_cache_new_def)

lemma demo_run_ok: "run_ok (demo_env small_config) [0, 0, 0, 0] 16 [SetObj [1] [[1, 2], [3]] None]"
  using small_lru_env
  by (simp add: run_ok_def small_config_def default_config_def call_ok_def run_cost_def call_cost_def block_count_of_def)

lemma demo_run_returns: "\<exists>s. run_from_init (demo_env small_config) 4000 demo_cache [SetObj [1] [[1, 2], [3]] None] = Some ([(OK, [])], s)"
  using demo_run_set by auto

lemma cache_runs_meet_map_spec_witness:
  "(\<exists>replies s. run_from_init (demo_env small_config) 4000 demo_cache [SetObj [1] [[1, 2], [3]] None] = Some (replies, s) \<and>
      replies_ok [SetObj [1] [[1, 2], [3]] None] replies Map.empty \<and> cs_locks s = (\<lambda>i. Free)) \<or>
    (\<exists>before call after replies t. [SetObj [1] [[1, 2], [3]] None] = before @ call # after \<and>
      run_from_init (demo_env small_config) 4000 demo_cache before = Some (replies, t) \<and> replies_ok before replies Map.empty \<and>
      call_refused (demo_env small_config) call t \<and> cache_step (demo_env small_config) call t = None)"
  using cache_runs_meet_map_spec [OF demo_run_ok] unfolding demo_fresh [symmetric] .

lemma set_then_get_round_trip_witness:
  "\<exists>s. run_from_init (demo_env small_config) 4000 demo_cache [SetObj [1] [[1, 2], [3]] None] = Some ([(OK, [])], s) \<and>
     (\<exists>s'. cache_step (demo_env small_config) (GetObj [1] None) s = Some ((OK, [1, 2, 3]), s'))"
proof -
  obtain s where s: "run_from_init (demo_env small_config) 4000 demo_cache ([] @ [SetObj [1] [[1, 2], [3]] None]) = Some ([] @ [(OK, [])], s)"
    using demo_run_returns by auto
  have "(0 :: nat) + 3 < 2 ^ 64" "iobuf_bytes [[1, 2], [3]] = [1, 2, 3 :: byte]" by simp_all
  with set_then_get_round_trip [where calls = "[]" and options = None and r = None, OF _ this(1) s [folded demo_fresh]] demo_run_ok s show ?thesis by auto
qed

lemma reference_counts_and_memory_exact_witness:
  "\<exists>s. run_from_init (demo_env small_config) 4000 demo_cache [SetObj [1] [[1, 2], [3]] None] = Some ([(OK, [])], s) \<and>
     (\<forall>r. use_count s r = count (owners s) r)"
  using demo_run_returns reference_counts_and_memory_exact [OF demo_run_ok] unfolding demo_fresh [symmetric] by blast

lemma live_objects_are_reachable_witness:
  "\<exists>s. run_from_init (demo_env small_config) 4000 demo_cache [SetObj [1] [[1, 2], [3]] None] = Some ([(OK, [])], s) \<and>
     (\<forall>i it k. cs_items s i = Some (it, k) \<longrightarrow> k = 1)"
  using demo_run_returns live_objects_are_reachable [OF demo_run_ok] unfolding demo_fresh [symmetric] by blast

lemma set_on_small_cache_crashes_witness:
  "run_from_init (demo_env small_config) 100 demo_cache [SetObj [1] [[1, 2], [3]] None] = None"
  unfolding demo_fresh [symmetric]
  by (rule set_on_small_cache_crashes [OF small_lru_env])
    (simp_all add: small_config_def default_config_def block_count_of_def item_charge_def demo_env_def)

end
