(* ===== verification/BlockingQueue.thy ===== *)
theory BlockingQueue
  imports Prelude
begin

text \<open>
  The two blocking queues of \<^verbatim>\<open>src/utils/blocking_queue.hpp\<close>. An operation holds the lock from its start
  to its return, or to the wait on a condition variable, so it is one function of the queue; the
  threads that wait on the two condition variables, those that were notified and not yet served, and
  the choice of the thread that \<^verbatim>\<open>notify_one\<close> wakes are a step relation. The theorems hold for every
  interleaving of any number of threads, spurious wake-ups included.
\<close>

section \<open>Bounded queue, under the lock\<close>

record 'a blocking_queue =
  bq_capacity :: nat
  bq_items :: "'a list"
  bq_shutdown :: bool

text \<open>Which condition variable an operation notifies before it returns.\<close>

datatype notify = NotifyNone | NotifyNotFull | NotifyNotEmpty | NotifyAll

definition bq_new :: "nat \<Rightarrow> 'a blocking_queue" where
  "bq_new capacity = \<lparr>bq_capacity = capacity, bq_items = [], bq_shutdown = False\<rparr>"

text \<open>The predicates the two waits test.\<close>

definition get_ready :: "'a blocking_queue \<Rightarrow> bool" where
  "get_ready q \<longleftrightarrow> bq_items q \<noteq> [] \<or> bq_shutdown q"

definition put_ready :: "'a blocking_queue \<Rightarrow> bool" where
  "put_ready q \<longleftrightarrow> length (bq_items q) < bq_capacity q \<or> bq_shutdown q"

text \<open>\<open>None\<close> when the thread waits; else the value taken, if any.\<close>

definition bq_blocking_get :: "'a blocking_queue \<Rightarrow> ('a option \<times> notify \<times> 'a blocking_queue) option" where
  "bq_blocking_get q =
     (if \<not> get_ready q then None
      else case bq_items q of
          x # xs \<Rightarrow> Some (Some x, NotifyNotFull, q\<lparr>bq_items := xs\<rparr>)
        | [] \<Rightarrow> Some (None, NotifyNone, q))"

definition bq_try_get :: "'a blocking_queue \<Rightarrow> int \<times> 'a option \<times> notify \<times> 'a blocking_queue" where
  "bq_try_get q = (case bq_items q of
       x # xs \<Rightarrow> (1, Some x, NotifyNotFull, q\<lparr>bq_items := xs\<rparr>)
     | [] \<Rightarrow> (if bq_shutdown q then -1 else 0, None, NotifyNone, q))"

text \<open>The two overloads of \<^verbatim>\<open>blocking_put\<close> differ in how the value is stored only.\<close>

definition bq_blocking_put :: "'a \<Rightarrow> 'a blocking_queue \<Rightarrow> (bool \<times> notify \<times> 'a blocking_queue) option" where
  "bq_blocking_put v q =
     (if \<not> put_ready q then None
      else if \<not> bq_shutdown q then Some (True, NotifyNotEmpty, q\<lparr>bq_items := bq_items q @ [v]\<rparr>)
      else Some (False, NotifyNone, q))"

definition bq_blocking_put_move :: "'a \<Rightarrow> 'a blocking_queue \<Rightarrow> (bool \<times> notify \<times> 'a blocking_queue) option" where
  "bq_blocking_put_move v q =
     (if \<not> put_ready q then None
      else if \<not> bq_shutdown q then Some (True, NotifyNotEmpty, q\<lparr>bq_items := bq_items q @ [v]\<rparr>)
      else Some (False, NotifyNone, q))"

definition bq_try_put :: "'a \<Rightarrow> 'a blocking_queue \<Rightarrow> bool \<times> notify \<times> 'a blocking_queue" where
  "bq_try_put v q =
     (if bq_capacity q \<le> length (bq_items q) \<or> bq_shutdown q then (False, NotifyNone, q)
      else (True, NotifyNotEmpty, q\<lparr>bq_items := bq_items q @ [v]\<rparr>))"

definition bq_do_shutdown :: "'a blocking_queue \<Rightarrow> notify \<times> 'a blocking_queue" where
  "bq_do_shutdown q = (if bq_shutdown q then (NotifyNone, q) else (NotifyAll, q\<lparr>bq_shutdown := True\<rparr>))"

definition bq_get_size :: "'a blocking_queue \<Rightarrow> nat" where "bq_get_size q = length (bq_items q)"

definition bq_empty :: "'a blocking_queue \<Rightarrow> bool" where "bq_empty q \<longleftrightarrow> bq_items q = []"

section \<open>Threads and condition variables\<close>

text \<open>
  Threads by number. \<open>wait_get\<close> and \<open>wait_put\<close> sleep on \<^verbatim>\<open>_not_empty\<close> and \<^verbatim>\<open>_not_full\<close>; \<open>woken_get\<close> and
  \<open>woken_put\<close> left the condition variable and will test their predicate again once they get the lock.
\<close>

record ('q, 'a) bq_system =
  sy_queue :: 'q
  wait_get :: "nat list"
  woken_get :: "nat list"
  wait_put :: "(nat \<times> 'a) list"
  woken_put :: "(nat \<times> 'a) list"

definition sys_new :: "'q \<Rightarrow> ('q, 'a) bq_system" where
  "sys_new q = \<lparr>sy_queue = q, wait_get = [], woken_get = [], wait_put = [], woken_put = []\<rparr>"

definition idle :: "('q, 'a, 'z) bq_system_scheme \<Rightarrow> nat \<Rightarrow> bool" where
  "idle s t \<longleftrightarrow> t \<notin> set (wait_get s) \<union> set (woken_get s) \<union> fst ` (set (wait_put s) \<union> set (woken_put s))"

definition wake_get :: "nat \<Rightarrow> ('q, 'a, 'z) bq_system_scheme \<Rightarrow> ('q, 'a, 'z) bq_system_scheme" where
  "wake_get t s = s\<lparr>wait_get := remove1 t (wait_get s), woken_get := t # woken_get s\<rparr>"

definition wake_put :: "nat \<times> 'a \<Rightarrow> ('q, 'a, 'z) bq_system_scheme \<Rightarrow> ('q, 'a, 'z) bq_system_scheme" where
  "wake_put tv s = s\<lparr>wait_put := remove1 tv (wait_put s), woken_put := tv # woken_put s\<rparr>"

inductive notified :: "notify \<Rightarrow> ('q, 'a, 'z) bq_system_scheme \<Rightarrow> ('q, 'a, 'z) bq_system_scheme \<Rightarrow> bool" where
  notified_none: "notified NotifyNone s s"
| notified_not_empty_idle: "wait_get s = [] \<Longrightarrow> notified NotifyNotEmpty s s"
| notified_not_empty: "t \<in> set (wait_get s) \<Longrightarrow> notified NotifyNotEmpty s (wake_get t s)"
| notified_not_full_idle: "wait_put s = [] \<Longrightarrow> notified NotifyNotFull s s"
| notified_not_full: "tv \<in> set (wait_put s) \<Longrightarrow> notified NotifyNotFull s (wake_put tv s)"
| notified_all:
    "notified NotifyAll s (s\<lparr>wait_get := [], woken_get := wait_get s @ woken_get s,
                             wait_put := [], woken_put := wait_put s @ woken_put s\<rparr>)"

code_pred notified .

inductive_cases notifiedE: "notified n s s'"

text \<open>What is visible of a step: calls that return, with their thread and result, and calls that wait.\<close>

datatype 'a bq_event =
    Waits nat | Spurious nat | Got nat "'a option" | Put nat 'a bool | TryGot nat int "'a option" | TryPut nat 'a bool
  | Shutdown nat | Notifies nat | Cleared nat "'a list"

inductive bq_step :: "('a blocking_queue, 'a) bq_system \<Rightarrow> 'a bq_event \<Rightarrow> ('a blocking_queue, 'a) bq_system \<Rightarrow> bool" where
  get_waits: "idle s t \<Longrightarrow> bq_blocking_get (sy_queue s) = None \<Longrightarrow> bq_step s (Waits t) (s\<lparr>wait_get := t # wait_get s\<rparr>)"
| get_returns:
    "idle s t \<Longrightarrow> bq_blocking_get (sy_queue s) = Some (out, n, q) \<Longrightarrow> notified n (s\<lparr>sy_queue := q\<rparr>) s'
      \<Longrightarrow> bq_step s (Got t out) s'"
| get_waits_again:
    "t \<in> set (woken_get s) \<Longrightarrow> bq_blocking_get (sy_queue s) = None
      \<Longrightarrow> bq_step s (Waits t) (s\<lparr>wait_get := t # wait_get s, woken_get := remove1 t (woken_get s)\<rparr>)"
| get_wakes_and_returns:
    "t \<in> set (woken_get s) \<Longrightarrow> bq_blocking_get (sy_queue s) = Some (out, n, q)
      \<Longrightarrow> notified n (s\<lparr>sy_queue := q, woken_get := remove1 t (woken_get s)\<rparr>) s' \<Longrightarrow> bq_step s (Got t out) s'"
| put_waits:
    "idle s t \<Longrightarrow> bq_blocking_put v (sy_queue s) = None \<Longrightarrow> bq_step s (Waits t) (s\<lparr>wait_put := (t, v) # wait_put s\<rparr>)"
| put_returns:
    "idle s t \<Longrightarrow> bq_blocking_put v (sy_queue s) = Some (b, n, q) \<Longrightarrow> notified n (s\<lparr>sy_queue := q\<rparr>) s'
      \<Longrightarrow> bq_step s (Put t v b) s'"
| put_waits_again:
    "(t, v) \<in> set (woken_put s) \<Longrightarrow> bq_blocking_put v (sy_queue s) = None
      \<Longrightarrow> bq_step s (Waits t) (s\<lparr>wait_put := (t, v) # wait_put s, woken_put := remove1 (t, v) (woken_put s)\<rparr>)"
| put_wakes_and_returns:
    "(t, v) \<in> set (woken_put s) \<Longrightarrow> bq_blocking_put v (sy_queue s) = Some (b, n, q)
      \<Longrightarrow> notified n (s\<lparr>sy_queue := q, woken_put := remove1 (t, v) (woken_put s)\<rparr>) s' \<Longrightarrow> bq_step s (Put t v b) s'"
| get_spurious: "t \<in> set (wait_get s) \<Longrightarrow> bq_step s (Spurious t) (wake_get t s)"
| put_spurious: "(t, v) \<in> set (wait_put s) \<Longrightarrow> bq_step s (Spurious t) (wake_put (t, v) s)"
| try_get:
    "idle s t \<Longrightarrow> bq_try_get (sy_queue s) = (r, out, n, q) \<Longrightarrow> notified n (s\<lparr>sy_queue := q\<rparr>) s'
      \<Longrightarrow> bq_step s (TryGot t r out) s'"
| try_put:
    "idle s t \<Longrightarrow> bq_try_put v (sy_queue s) = (b, n, q) \<Longrightarrow> notified n (s\<lparr>sy_queue := q\<rparr>) s'
      \<Longrightarrow> bq_step s (TryPut t v b) s'"
| shutdown:
    "idle s t \<Longrightarrow> bq_do_shutdown (sy_queue s) = (n, q) \<Longrightarrow> notified n (s\<lparr>sy_queue := q\<rparr>) s' \<Longrightarrow> bq_step s (Shutdown t) s'"

inductive_cases bq_stepE: "bq_step s e s'"

inductive bq_run ::
    "('a blocking_queue, 'a) bq_system \<Rightarrow> 'a bq_event list \<Rightarrow> ('a blocking_queue, 'a) bq_system \<Rightarrow> bool" where
  bq_run_nil: "bq_run s [] s"
| bq_run_step: "bq_run s es s1 \<Longrightarrow> bq_step s1 e s2 \<Longrightarrow> bq_run s (es @ [e]) s2"

text \<open>The values that entered the queue and those that left it, in the order of the calls that did it.\<close>

fun accepted :: "'a bq_event \<Rightarrow> 'a list" where
  "accepted (Put t v b) = (if b then [v] else [])"
| "accepted (TryPut t v b) = (if b then [v] else [])"
| "accepted e = []"

fun departed :: "'a bq_event \<Rightarrow> 'a list" where
  "departed (Got t out) = (case out of None \<Rightarrow> [] | Some x \<Rightarrow> [x])"
| "departed (TryGot t r out) = (case out of None \<Rightarrow> [] | Some x \<Rightarrow> [x])"
| "departed (Cleared t xs) = xs"
| "departed e = []"

lemmas bq_ops = bq_blocking_get_def bq_blocking_put_def bq_try_get_def bq_try_put_def bq_do_shutdown_def get_ready_def put_ready_def

section \<open>Invariant\<close>

text \<open>
  No wake-up is lost: as long as a thread still sleeps, every item (free place) has a woken thread that will
  take it. A shutdown leaves no thread asleep.
\<close>

definition bq_ok :: "('a blocking_queue, 'a) bq_system \<Rightarrow> bool" where
  "bq_ok s \<longleftrightarrow> length (bq_items (sy_queue s)) \<le> bq_capacity (sy_queue s) \<and>
     (wait_get s \<noteq> [] \<longrightarrow> \<not> bq_shutdown (sy_queue s) \<and> length (bq_items (sy_queue s)) \<le> length (woken_get s)) \<and>
     (wait_put s \<noteq> [] \<longrightarrow> \<not> bq_shutdown (sy_queue s) \<and>
        bq_capacity (sy_queue s) \<le> length (bq_items (sy_queue s)) + length (woken_put s))"

lemma bq_step_ok:
  assumes "bq_step s e s'" and "bq_ok s"
  shows "bq_ok s'"
  using assms
  by (cases rule: bq_step.cases)
    (auto simp: bq_ops bq_ok_def wake_get_def wake_put_def length_remove1 split: if_splits list.splits elim!: notifiedE
      dest: length_pos_if_in_set)

lemma bq_step_values:
  assumes "bq_step s e s'"
  shows "bq_items (sy_queue s) @ accepted e = departed e @ bq_items (sy_queue s') \<and>
    bq_capacity (sy_queue s') = bq_capacity (sy_queue s)"
  using assms
  by (cases rule: bq_step.cases) (auto simp: bq_ops wake_get_def wake_put_def split: if_splits list.splits elim!: notifiedE)

lemma bq_run_ok:
  assumes "bq_run s es s'" and "bq_ok s"
  shows "bq_ok s'"
  using assms by (induction rule: bq_run.induct) (auto intro: bq_step_ok)

lemma bq_run_values:
  assumes "bq_run s es s'"
  shows "bq_items (sy_queue s) @ concat (map accepted es) = concat (map departed es) @ bq_items (sy_queue s') \<and>
    bq_capacity (sy_queue s') = bq_capacity (sy_queue s)"
  using assms
proof (induction rule: bq_run.induct)
  case (bq_run_step s es s1 e s2)
  from bq_run_step.IH have "bq_items (sy_queue s) @ concat (map accepted (es @ [e])) =
      concat (map departed es) @ (bq_items (sy_queue s1) @ accepted e)" by simp
  then show ?case using bq_step_values [OF bq_run_step.hyps(2)] bq_run_step.IH by simp
qed simp

lemma bq_new_ok: "bq_ok (sys_new (bq_new capacity))"
  by (simp add: bq_ok_def sys_new_def bq_new_def)

lemma bq_new_items: "bq_items (sy_queue (sys_new (bq_new capacity))) = []" "bq_capacity (sy_queue (sys_new (bq_new capacity))) = capacity"
  by (simp_all add: sys_new_def bq_new_def)

lemma bq_reachable:
  assumes "bq_run (sys_new (bq_new capacity)) es s"
  shows "bq_ok s" and "bq_capacity (sy_queue s) = capacity"
  using bq_run_ok [OF assms bq_new_ok] bq_run_values [OF assms] by (simp_all add: bq_new_items)

lemma notified_exists: "\<exists>s'. notified n s s'"
proof (cases n)
  case NotifyNotFull
  show ?thesis
  proof (cases "wait_put s")
    case (Cons tv tvs)
    then show ?thesis using NotifyNotFull notified_not_full [of tv s] by auto
  qed (use NotifyNotFull in \<open>auto intro: notified.intros\<close>)
next
  case NotifyNotEmpty
  show ?thesis
  proof (cases "wait_get s")
    case (Cons t ts)
    then show ?thesis using NotifyNotEmpty notified_not_empty [of t s] by auto
  qed (use NotifyNotEmpty in \<open>auto intro: notified.intros\<close>)
qed (auto intro: notified.intros)

lemma woken_get_returns:
  assumes "t \<in> set (woken_get s)" and "bq_blocking_get (sy_queue s) = Some (out, n, q)"
  shows "\<exists>s'. bq_step s (Got t out) s'"
  using get_wakes_and_returns [OF assms] notified_exists by blast

lemma woken_put_returns:
  assumes "(t, v) \<in> set (woken_put s)" and "bq_blocking_put v (sy_queue s) = Some (b, n, q)"
  shows "\<exists>s'. bq_step s (Put t v b) s'"
  using put_wakes_and_returns [OF assms] notified_exists by blast

section \<open>Properties of the bounded queue\<close>

text \<open>
  C15: whatever the threads do, the values that left the bounded queue are the first ones that entered it, in
  order, the rest is in the queue, and the queue never holds more than its capacity.
\<close>
theorem bounded_queue_is_fifo:
  assumes "bq_run (sys_new (bq_new capacity)) es s"
  shows "concat (map accepted es) = concat (map departed es) @ bq_items (sy_queue s) \<and> bq_get_size (sy_queue s) \<le> capacity"
  using bq_run_values [OF assms] bq_reachable [OF assms] by (simp add: bq_new_items bq_ok_def bq_get_size_def)

text \<open>A queue of capacity 1: threads 1 and 3 wait for a value, thread 2 puts one, which wakes thread 1, and a second one.\<close>

definition demo_queue :: "nat list \<Rightarrow> bool \<Rightarrow> nat blocking_queue" where
  "demo_queue xs b = \<lparr>bq_capacity = 1, bq_items = xs, bq_shutdown = b\<rparr>"

definition demo_sys :: "nat list \<Rightarrow> bool \<Rightarrow> nat list \<Rightarrow> nat list \<Rightarrow> (nat \<times> nat) list \<Rightarrow> (nat \<times> nat) list \<Rightarrow> (nat blocking_queue, nat) bq_system" where
  "demo_sys xs b wg kg wp kp =
     \<lparr>sy_queue = demo_queue xs b, wait_get = wg, woken_get = kg, wait_put = wp, woken_put = kp\<rparr>"

lemmas demo_simps = demo_sys_def demo_queue_def bq_ops idle_def wake_get_def wake_put_def

lemma demo_start: "bq_run (sys_new (bq_new 1)) [] (demo_sys [] False [] [] [] [])"
  using bq_run_nil by (simp add: demo_simps sys_new_def bq_new_def)

lemma demo_two_wait: "bq_run (sys_new (bq_new 1)) [Waits 3, Waits 1] (demo_sys [] False [1, 3] [] [] [])"
proof -
  have "bq_step (demo_sys [] False [] [] [] []) (Waits 3) (demo_sys [] False [3] [] [] [])"
    using get_waits [of "demo_sys [] False [] [] [] []" 3] by (simp add: demo_simps)
  moreover have "bq_step (demo_sys [] False [3] [] [] []) (Waits 1) (demo_sys [] False [1, 3] [] [] [])"
    using get_waits [of "demo_sys [] False [3] [] [] []" 1] by (simp add: demo_simps)
  ultimately show ?thesis using bq_run_step [OF bq_run_step [OF demo_start]] by simp
qed

lemma demo_put: "bq_run (sys_new (bq_new 1)) [Waits 3, Waits 1, Put 2 5 True] (demo_sys [5] False [3] [1] [] [])"
proof -
  have "bq_step (demo_sys [] False [1, 3] [] [] []) (Put 2 5 True) (demo_sys [5] False [3] [1] [] [])"
    using put_returns [OF _ _ notified_not_empty [of 1], of "demo_sys [] False [1, 3] [] [] []" 2 5 True "demo_queue [5] False"]
    by (simp add: demo_simps)
  then show ?thesis using bq_run_step [OF demo_two_wait] by simp
qed

lemma demo_got:
  "bq_run (sys_new (bq_new 1)) [Waits 3, Waits 1, Put 2 5 True, Waits 2, Got 1 (Some 5)] (demo_sys [] False [3] [] [] [(2, 6)])"
proof -
  have "bq_step (demo_sys [5] False [3] [1] [] []) (Waits 2) (demo_sys [5] False [3] [1] [(2, 6)] [])"
    using put_waits [of "demo_sys [5] False [3] [1] [] []" 2 6] by (simp add: demo_simps)
  moreover have "bq_step (demo_sys [5] False [3] [1] [(2, 6)] []) (Got 1 (Some 5)) (demo_sys [] False [3] [] [] [(2, 6)])"
    using get_wakes_and_returns [OF _ _ notified_not_full [of "(2, 6)"],
        of 1 "demo_sys [5] False [3] [1] [(2, 6)] []" "Some 5" "demo_queue [] False"]
    by (simp add: demo_simps)
  ultimately show ?thesis using bq_run_step [OF bq_run_step [OF demo_put]] by simp
qed

lemma demo_shut: "bq_run (sys_new (bq_new 1)) [Waits 3, Waits 1, Shutdown 2] (demo_sys [] True [] [1, 3] [] [])"
proof -
  have "bq_step (demo_sys [] False [1, 3] [] [] []) (Shutdown 2) (demo_sys [] True [] [1, 3] [] [])"
    using shutdown [OF _ _ notified_all, of "demo_sys [] False [1, 3] [] [] []" 2 "demo_queue [] True"] by (simp add: demo_simps)
  then show ?thesis using bq_run_step [OF demo_two_wait] by simp
qed

theorem bounded_queue_is_fifo_witness:
  "concat (map accepted [Waits 3, Waits 1, Put 2 5 True, Waits 2, Got 1 (Some 5)]) =
     concat (map departed [Waits 3, Waits 1, Put 2 5 True, Waits 2, Got 1 (Some (5 :: nat))]) @ [] \<and> 0 \<le> (1 :: nat)"
  using bounded_queue_is_fifo [OF demo_got] by (simp add: demo_sys_def demo_queue_def)

text \<open>
  C14: no wake-up of the bounded queue is lost: whenever a thread sleeps on \<^verbatim>\<open>_not_empty\<close> although the queue
  has an item, an awake thread can take that item at once, and whenever one sleeps on \<^verbatim>\<open>_not_full\<close> although there is a free
  place, an awake thread can fill it.
\<close>
theorem bounded_queue_loses_no_wakeup:
  assumes "bq_run (sys_new (bq_new capacity)) es s"
  shows "(wait_get s \<noteq> [] \<and> \<not> bq_empty (sy_queue s) \<longrightarrow>
            (\<exists>t \<in> set (woken_get s). \<exists>s'. bq_step s (Got t (Some (hd (bq_items (sy_queue s))))) s')) \<and>
         (wait_put s \<noteq> [] \<and> bq_get_size (sy_queue s) < capacity \<longrightarrow>
            (\<exists>(t, v) \<in> set (woken_put s). \<exists>s'. bq_step s (Put t v True) s'))"
proof (intro conjI impI; elim conjE)
  assume w: "wait_get s \<noteq> []" and "\<not> bq_empty (sy_queue s)"
  then obtain x xs where items: "bq_items (sy_queue s) = x # xs" by (cases "bq_items (sy_queue s)") (auto simp: bq_empty_def)
  with w bq_reachable(1) [OF assms] have "woken_get s \<noteq> []" by (auto simp: bq_ok_def)
  then obtain t where "t \<in> set (woken_get s)" by (meson last_in_set)
  moreover have "bq_blocking_get (sy_queue s) = Some (Some x, NotifyNotFull, sy_queue s\<lparr>bq_items := xs\<rparr>)"
    using items by (simp add: bq_ops)
  ultimately show "\<exists>t \<in> set (woken_get s). \<exists>s'. bq_step s (Got t (Some (hd (bq_items (sy_queue s))))) s'"
    using woken_get_returns items by (metis list.sel(1))
next
  assume w: "wait_put s \<noteq> []" and c: "bq_get_size (sy_queue s) < capacity"
  with bq_reachable [OF assms] have wk: "woken_put s \<noteq> []" and up: "\<not> bq_shutdown (sy_queue s)"
    by (auto simp: bq_ok_def bq_get_size_def)
  from wk obtain t v where tv: "(t, v) \<in> set (woken_put s)" by (cases "woken_put s") auto
  have "bq_blocking_put v (sy_queue s) =
      Some (True, NotifyNotEmpty, sy_queue s\<lparr>bq_items := bq_items (sy_queue s) @ [v]\<rparr>)"
    using up c bq_reachable(2) [OF assms] by (simp add: bq_ops bq_get_size_def)
  from woken_put_returns [OF tv this] tv show "\<exists>(t, v) \<in> set (woken_put s). \<exists>s'. bq_step s (Put t v True) s'" by blast
qed

theorem bounded_queue_loses_no_wakeup_witness:
  "\<exists>s'. bq_step (demo_sys [5] False [3] [1] [] []) (Got 1 (Some 5)) s'"
  using bounded_queue_loses_no_wakeup [OF demo_put] by (simp add: demo_sys_def demo_queue_def bq_empty_def)

text \<open>
  C29: after a shutdown of the bounded queue no thread sleeps, none starts to wait again, and every awake one returns with its next step.
\<close>
theorem shutdown_releases_every_thread:
  assumes "bq_run (sys_new (bq_new capacity)) es s" and "bq_shutdown (sy_queue s)"
  shows "wait_get s = [] \<and> wait_put s = [] \<and> (\<nexists>t s'. bq_step s (Waits t) s') \<and>
    (\<forall>t \<in> set (woken_get s). \<exists>out s'. bq_step s (Got t out) s') \<and>
    (\<forall>(t, v) \<in> set (woken_put s). \<exists>s'. bq_step s (Put t v False) s')"
proof (intro conjI)
  show "wait_get s = []" "wait_put s = []" using bq_reachable(1) [OF assms(1)] assms(2) by (auto simp: bq_ok_def)
  show "\<nexists>t s'. bq_step s (Waits t) s'" using assms(2) by (auto simp: bq_ops elim!: bq_stepE split: if_splits list.splits)
  have "\<exists>out n q. bq_blocking_get (sy_queue s) = Some (out, n, q)"
    using assms(2) by (cases "bq_items (sy_queue s)") (simp_all add: bq_ops)
  then show "\<forall>t \<in> set (woken_get s). \<exists>out s'. bq_step s (Got t out) s'" using woken_get_returns by blast
  have "bq_blocking_put v (sy_queue s) = Some (False, NotifyNone, sy_queue s)" for v using assms(2) by (simp add: bq_ops)
  note woken_put_returns [OF _ this]
  then show "\<forall>(t, v) \<in> set (woken_put s). \<exists>s'. bq_step s (Put t v False) s'" by auto
qed

theorem shutdown_releases_every_thread_witness:
  "(\<nexists>t s'. bq_step (demo_sys [] True [] [1, 3] [] []) (Waits t) s') \<and>
   (\<exists>out s'. bq_step (demo_sys [] True [] [1, 3] [] []) (Got 3 out) s')"
  using shutdown_releases_every_thread [OF demo_shut] by (simp add: demo_sys_def demo_queue_def)

section \<open>Unbounded queue\<close>

record 'a unbounded_queue =
  uq_items :: "'a list"
  uq_shutdown :: bool

definition uq_new :: "'a unbounded_queue" where
  "uq_new = \<lparr>uq_items = [], uq_shutdown = False\<rparr>"

definition uq_blocking_get :: "'a unbounded_queue \<Rightarrow> ('a option \<times> 'a unbounded_queue) option" where
  "uq_blocking_get q =
     (if \<not> (uq_items q \<noteq> [] \<or> uq_shutdown q) then None
      else case uq_items q of
          x # xs \<Rightarrow> Some (Some x, q\<lparr>uq_items := xs\<rparr>)
        | [] \<Rightarrow> Some (None, q))"

definition uq_try_get :: "'a unbounded_queue \<Rightarrow> 'a option \<times> 'a unbounded_queue" where
  "uq_try_get q = (case uq_items q of x # xs \<Rightarrow> (Some x, q\<lparr>uq_items := xs\<rparr>) | [] \<Rightarrow> (None, q))"

text \<open>
  \<^verbatim>\<open>put\<close> unlocks before it notifies: \<open>uq_put\<close> is the part under the lock, and its result says whether the
  notification follows. The overload for rvalues does the same.
\<close>

definition uq_put :: "'a \<Rightarrow> 'a unbounded_queue \<Rightarrow> bool \<times> 'a unbounded_queue" where
  "uq_put v q = (if \<not> uq_shutdown q then (True, q\<lparr>uq_items := uq_items q @ [v]\<rparr>) else (False, q))"

definition uq_put_move :: "'a \<Rightarrow> 'a unbounded_queue \<Rightarrow> bool \<times> 'a unbounded_queue" where
  "uq_put_move v q = (if \<not> uq_shutdown q then (True, q\<lparr>uq_items := uq_items q @ [v]\<rparr>) else (False, q))"

definition uq_do_shutdown :: "'a unbounded_queue \<Rightarrow> notify \<times> 'a unbounded_queue" where
  "uq_do_shutdown q = (if uq_shutdown q then (NotifyNone, q) else (NotifyAll, q\<lparr>uq_shutdown := True\<rparr>))"

definition uq_get_size :: "'a unbounded_queue \<Rightarrow> nat" where "uq_get_size q = length (uq_items q)"

definition uq_empty :: "'a unbounded_queue \<Rightarrow> bool" where "uq_empty q \<longleftrightarrow> uq_items q = []"

definition uq_clear :: "'a unbounded_queue \<Rightarrow> 'a unbounded_queue" where "uq_clear q = q\<lparr>uq_items := []\<rparr>"

text \<open>\<open>notifying\<close> holds the threads between the unlock and the notification of \<^verbatim>\<open>put\<close>. Nothing waits to put.\<close>

record ('q, 'a) uq_system = "('q, 'a) bq_system" +
  notifying :: "nat list"

type_synonym 'a uq_sys = "('a unbounded_queue, 'a) uq_system"

definition uq_sys_new :: "'a uq_sys" where
  "uq_sys_new = \<lparr>sy_queue = uq_new, wait_get = [], woken_get = [], wait_put = [], woken_put = [], notifying = []\<rparr>"

definition uq_idle :: "'a uq_sys \<Rightarrow> nat \<Rightarrow> bool" where
  "uq_idle s t \<longleftrightarrow> idle s t \<and> t \<notin> set (notifying s)"

inductive uq_step :: "'a uq_sys \<Rightarrow> 'a bq_event \<Rightarrow> 'a uq_sys \<Rightarrow> bool" where
  uq_get_waits:
    "uq_idle s t \<Longrightarrow> uq_blocking_get (sy_queue s) = None \<Longrightarrow> uq_step s (Waits t) (s\<lparr>wait_get := t # wait_get s\<rparr>)"
| uq_get_returns:
    "uq_idle s t \<Longrightarrow> uq_blocking_get (sy_queue s) = Some (out, q) \<Longrightarrow> uq_step s (Got t out) (s\<lparr>sy_queue := q\<rparr>)"
| uq_get_waits_again:
    "t \<in> set (woken_get s) \<Longrightarrow> uq_blocking_get (sy_queue s) = None
      \<Longrightarrow> uq_step s (Waits t) (s\<lparr>wait_get := t # wait_get s, woken_get := remove1 t (woken_get s)\<rparr>)"
| uq_get_wakes_and_returns:
    "t \<in> set (woken_get s) \<Longrightarrow> uq_blocking_get (sy_queue s) = Some (out, q)
      \<Longrightarrow> uq_step s (Got t out) (s\<lparr>sy_queue := q, woken_get := remove1 t (woken_get s)\<rparr>)"
| uq_spurious: "t \<in> set (wait_get s) \<Longrightarrow> uq_step s (Spurious t) (wake_get t s)"
| uq_try: "uq_idle s t \<Longrightarrow> uq_try_get (sy_queue s) = (out, q)
      \<Longrightarrow> uq_step s (TryGot t (if out = None then 0 else 1) out) (s\<lparr>sy_queue := q\<rparr>)"
| uq_put_stores:
    "uq_idle s t \<Longrightarrow> uq_put v (sy_queue s) = (b, q)
      \<Longrightarrow> uq_step s (Put t v b) (s\<lparr>sy_queue := q, notifying := (if b then t # notifying s else notifying s)\<rparr>)"
| uq_put_notifies:
    "t \<in> set (notifying s) \<Longrightarrow> notified NotifyNotEmpty (s\<lparr>notifying := remove1 t (notifying s)\<rparr>) s' \<Longrightarrow> uq_step s (Notifies t) s'"
| uq_shutdowns:
    "uq_idle s t \<Longrightarrow> uq_do_shutdown (sy_queue s) = (n, q) \<Longrightarrow> notified n (s\<lparr>sy_queue := q\<rparr>) s' \<Longrightarrow> uq_step s (Shutdown t) s'"
| uq_clears:
    "uq_idle s t \<Longrightarrow> uq_step s (Cleared t (uq_items (sy_queue s))) (s\<lparr>sy_queue := uq_clear (sy_queue s)\<rparr>)"

inductive uq_run :: "'a uq_sys \<Rightarrow> 'a bq_event list \<Rightarrow> 'a uq_sys \<Rightarrow> bool" where
  uq_run_nil: "uq_run s [] s"
| uq_run_step: "uq_run s es s1 \<Longrightarrow> uq_step s1 e s2 \<Longrightarrow> uq_run s (es @ [e]) s2"

lemmas uq_ops = uq_blocking_get_def uq_try_get_def uq_put_def uq_do_shutdown_def uq_clear_def

definition uq_ok :: "'a uq_sys \<Rightarrow> bool" where
  "uq_ok s \<longleftrightarrow> (wait_get s \<noteq> [] \<longrightarrow> \<not> uq_shutdown (sy_queue s) \<and>
     length (uq_items (sy_queue s)) \<le> length (woken_get s) + length (notifying s))"

lemma uq_step_ok:
  assumes "uq_step s e s'" and "uq_ok s"
  shows "uq_ok s'"
  using assms
  by (cases rule: uq_step.cases)
    (auto simp: uq_ops uq_ok_def wake_get_def length_remove1 split: if_splits list.splits elim!: notifiedE
      dest: length_pos_if_in_set)

lemma uq_step_values:
  assumes "uq_step s e s'"
  shows "uq_items (sy_queue s) @ accepted e = departed e @ uq_items (sy_queue s')"
  using assms
  by (cases rule: uq_step.cases)
    (auto simp: uq_ops wake_get_def wake_put_def split: if_splits list.splits elim!: notifiedE)

lemma uq_run_ok:
  assumes "uq_run s es s'" and "uq_ok s"
  shows "uq_ok s'"
  using assms by (induction rule: uq_run.induct) (auto intro: uq_step_ok)

lemma uq_run_values:
  assumes "uq_run s es s'"
  shows "uq_items (sy_queue s) @ concat (map accepted es) = concat (map departed es) @ uq_items (sy_queue s')"
  using assms
proof (induction rule: uq_run.induct)
  case (uq_run_step s es s1 e s2)
  from uq_run_step.IH have "uq_items (sy_queue s) @ concat (map accepted (es @ [e])) =
      concat (map departed es) @ (uq_items (sy_queue s1) @ accepted e)" by simp
  then show ?case using uq_step_values [OF uq_run_step.hyps(2)] by simp
qed simp

text \<open>
  C30: the unbounded queue, which notifies after it unlocked, keeps the order of its values too (those dropped
  by \<^verbatim>\<open>clear\<close> count as departed) and loses no wake-up: when a thread sleeps although the queue has an item,
  an awake thread can take the item or a thread is about to notify; after a shutdown no thread sleeps.
\<close>
theorem unbounded_queue_correct:
  assumes "uq_run uq_sys_new es s"
  shows "concat (map accepted es) = concat (map departed es) @ uq_items (sy_queue s) \<and>
    (wait_get s \<noteq> [] \<and> \<not> uq_empty (sy_queue s) \<longrightarrow> notifying s \<noteq> [] \<or>
       (\<exists>t \<in> set (woken_get s). \<exists>s'. uq_step s (Got t (Some (hd (uq_items (sy_queue s))))) s')) \<and>
    (uq_shutdown (sy_queue s) \<longrightarrow> wait_get s = [])"
proof (intro conjI impI; (elim conjE)?)
  have ok: "uq_ok s" by (rule uq_run_ok [OF assms]) (simp add: uq_ok_def uq_sys_new_def)
  show "concat (map accepted es) = concat (map departed es) @ uq_items (sy_queue s)"
    using uq_run_values [OF assms] by (simp add: uq_sys_new_def uq_new_def)
  show "uq_shutdown (sy_queue s) \<Longrightarrow> wait_get s = []" using ok by (auto simp: uq_ok_def)
  assume w: "wait_get s \<noteq> []" and "\<not> uq_empty (sy_queue s)"
  then obtain x xs where items: "uq_items (sy_queue s) = x # xs" by (cases "uq_items (sy_queue s)") (auto simp: uq_empty_def)
  then have got: "uq_blocking_get (sy_queue s) = Some (Some x, sy_queue s\<lparr>uq_items := xs\<rparr>)" by (simp add: uq_ops)
  show "notifying s \<noteq> [] \<or> (\<exists>t \<in> set (woken_get s). \<exists>s'. uq_step s (Got t (Some (hd (uq_items (sy_queue s))))) s')"
  proof (cases "notifying s")
    case Nil
    with w ok items have "woken_get s \<noteq> []" by (auto simp: uq_ok_def)
    then obtain t where "t \<in> set (woken_get s)" by (meson last_in_set)
    with uq_get_wakes_and_returns [OF this got] items show ?thesis by auto
  qed simp
qed

lemma demo_uq_run:
  "uq_run uq_sys_new [Waits 1, Put 2 (7 :: nat) True]
     (uq_sys_new\<lparr>sy_queue := \<lparr>uq_items = [7], uq_shutdown = False\<rparr>, wait_get := [1], notifying := [2]\<rparr>)"
proof -
  have "uq_step uq_sys_new (Waits 1) (uq_sys_new\<lparr>wait_get := [1]\<rparr> :: nat uq_sys)"
    using uq_get_waits [of uq_sys_new 1] by (simp add: uq_sys_new_def uq_new_def uq_ops uq_idle_def idle_def)
  moreover have "uq_step (uq_sys_new\<lparr>wait_get := [1]\<rparr>) (Put 2 (7 :: nat) True)
      (uq_sys_new\<lparr>sy_queue := \<lparr>uq_items = [7], uq_shutdown = False\<rparr>, wait_get := [1], notifying := [2]\<rparr>)"
    using uq_put_stores [of "uq_sys_new\<lparr>wait_get := [1]\<rparr>" 2 "7 :: nat" True "\<lparr>uq_items = [7], uq_shutdown = False\<rparr>"]
    by (simp add: uq_sys_new_def uq_new_def uq_ops uq_idle_def idle_def)
  ultimately show ?thesis using uq_run_step [OF uq_run_step [OF uq_run_nil]] by (metis append_Cons append_Nil)
qed

theorem unbounded_queue_correct_witness:
  "concat (map accepted [Waits 1, Put 2 (7 :: nat) True]) = concat (map departed [Waits 1, Put 2 7 True]) @ [7]"
  using unbounded_queue_correct [OF demo_uq_run] by simp

end
