(* ===== verification/HashBits.thy ===== *)
theory HashBits
  imports ShardedLru
begin

text \<open>
  The bit counting of \<^verbatim>\<open>src/utils/phmap/phmap_bits.h\<close>, the class \<^verbatim>\<open>BitMask\<close> of \<^verbatim>\<open>phmap.h\<close>, which steps through the set
  bits of a word, and the little-endian loads and stores.
\<close>

section \<open>Counting zeros\<close>

text \<open>The builtins of the compiler, \<^verbatim>\<open>__builtin_ctz\<close> and \<^verbatim>\<open>__builtin_clz\<close>.\<close>

definition ctz :: "'a::len word \<Rightarrow> nat" where
  "ctz w = length (takeWhile (\<lambda>i. \<not> bit w i) [0..<LENGTH('a)])"

definition clz :: "'a::len word \<Rightarrow> nat" where
  "clz w = length (takeWhile (\<lambda>i. \<not> bit w i) (rev [0..<LENGTH('a)]))"

definition count_leading_zeros64 :: "u64 \<Rightarrow> nat" where
  "count_leading_zeros64 n = (if n = 0 then 64 else clz n)"

definition count_leading_zeros32 :: "u32 \<Rightarrow> nat" where
  "count_leading_zeros32 n = (if n = 0 then 32 else clz n)"

definition count_trailing_zeros64 :: "u64 \<Rightarrow> nat" where
  "count_trailing_zeros64 n = ctz n"

definition count_trailing_zeros32 :: "u32 \<Rightarrow> nat" where
  "count_trailing_zeros32 n = ctz n"

text \<open>The portable versions.\<close>

definition nibble_zeros :: "nat list" where
  "nibble_zeros = [4, 3, 2, 2, 1, 1, 1, 1, 0, 0, 0, 0, 0, 0, 0, 0]"

definition count_leading_zeros64_slow :: "u64 \<Rightarrow> nat" where
  "count_leading_zeros64_slow n =
     (let zeroes = 60;
          (zeroes, n) = (if drop_bit 32 n \<noteq> 0 then (zeroes - 32, drop_bit 32 n) else (zeroes, n));
          (zeroes, n) = (if drop_bit 16 n \<noteq> 0 then (zeroes - 16, drop_bit 16 n) else (zeroes, n));
          (zeroes, n) = (if drop_bit 8 n \<noteq> 0 then (zeroes - 8, drop_bit 8 n) else (zeroes, n));
          (zeroes, n) = (if drop_bit 4 n \<noteq> 0 then (zeroes - 4, drop_bit 4 n) else (zeroes, n))
      in nibble_zeros ! unat n + zeroes)"

definition count_leading_zeros32_slow :: "u64 \<Rightarrow> nat" where
  "count_leading_zeros32_slow n =
     (let zeroes = 28;
          (zeroes, n) = (if drop_bit 16 n \<noteq> 0 then (zeroes - 16, drop_bit 16 n) else (zeroes, n));
          (zeroes, n) = (if drop_bit 8 n \<noteq> 0 then (zeroes - 8, drop_bit 8 n) else (zeroes, n));
          (zeroes, n) = (if drop_bit 4 n \<noteq> 0 then (zeroes - 4, drop_bit 4 n) else (zeroes, n))
      in nibble_zeros ! unat n + zeroes)"

definition count_trailing_zeros64_slow :: "u64 \<Rightarrow> nat" where
  "count_trailing_zeros64_slow n =
     (let c = 63;
          n = n AND (NOT n + 1);
          c = (if n AND 0x00000000FFFFFFFF \<noteq> 0 then c - 32 else c);
          c = (if n AND 0x0000FFFF0000FFFF \<noteq> 0 then c - 16 else c);
          c = (if n AND 0x00FF00FF00FF00FF \<noteq> 0 then c - 8 else c);
          c = (if n AND 0x0F0F0F0F0F0F0F0F \<noteq> 0 then c - 4 else c);
          c = (if n AND 0x3333333333333333 \<noteq> 0 then c - 2 else c)
      in if n AND 0x5555555555555555 \<noteq> 0 then c - 1 else c)"

definition count_trailing_zeros32_slow :: "u32 \<Rightarrow> nat" where
  "count_trailing_zeros32_slow n =
     (let c = 31;
          n = n AND (NOT n + 1);
          c = (if n AND 0x0000FFFF \<noteq> 0 then c - 16 else c);
          c = (if n AND 0x00FF00FF \<noteq> 0 then c - 8 else c);
          c = (if n AND 0x0F0F0F0F \<noteq> 0 then c - 4 else c);
          c = (if n AND 0x33333333 \<noteq> 0 then c - 2 else c)
      in if n AND 0x55555555 \<noteq> 0 then c - 1 else c)"

section \<open>\<^verbatim>\<open>BitMask\<close>\<close>

text \<open>A mask of type \<open>'a word\<close>, of which every \<open>2 ^ sh\<close> bits stand for one position.\<close>

definition bm_lowest :: "nat \<Rightarrow> 'a::len word \<Rightarrow> nat" where
  "bm_lowest sh m = ctz m div 2 ^ sh"

definition bm_highest :: "nat \<Rightarrow> 'a::len word \<Rightarrow> nat" where
  "bm_highest sh m = (LENGTH('a) - clz m - 1) div 2 ^ sh"

definition bm_next :: "'a::len word \<Rightarrow> 'a word" where
  "bm_next m = m AND (m - 1)"

definition bm_trailing_zeros :: "nat \<Rightarrow> 'a::len word \<Rightarrow> nat" where
  "bm_trailing_zeros sh m = ctz m div 2 ^ sh"

definition bm_leading_zeros :: "nat \<Rightarrow> nat \<Rightarrow> 'a::len word \<Rightarrow> nat" where
  "bm_leading_zeros significant_bits sh m =
     (let total_significant_bits = significant_bits * 2 ^ sh;
          extra_bits = LENGTH('a) - total_significant_bits
      in clz (push_bit extra_bits m) div 2 ^ sh)"

section \<open>Loads and stores\<close>

text \<open>On a little-endian host; an unaligned access is a \<^verbatim>\<open>memcpy\<close>.\<close>

definition load64 :: "bytes \<Rightarrow> u64" where
  "load64 p = le_word (take 8 p)"

definition store64 :: "u64 \<Rightarrow> bytes" where
  "store64 v = word_bytes 8 v"

section \<open>The lowest bit\<close>

lemma upt_split: "k < n \<Longrightarrow> [0..<n] = [0..<k] @ k # [Suc k..<n]"
  using upt_add_eq_append [of 0 k "n - k"] upt_conv_Cons [of k n] by simp

lemma takeWhile_upt:
  assumes "k < n" and "\<not> P k" and "\<And>i. i < k \<Longrightarrow> P i"
  shows "length (takeWhile P [0..<n]) = k"
proof -
  show ?thesis using assms(2,3) unfolding upt_split [OF assms(1)] by (simp add: takeWhile_append)
qed

lemma ctzI: "bit w k \<Longrightarrow> (\<And>i. i < k \<Longrightarrow> \<not> bit w i) \<Longrightarrow> ctz w = k"
  for w :: "'a::len word"
  unfolding ctz_def by (rule takeWhile_upt) (auto dest: bit_imp_le_length)

lemma clzI:
  fixes w :: "'a::len word"
  assumes "bit w k" and "\<And>i. k < i \<Longrightarrow> \<not> bit w i"
  shows "clz w = LENGTH('a) - 1 - k"
proof -
  have k: "k < LENGTH('a)" using assms(1) by (rule bit_imp_le_length)
  have "rev [0..<LENGTH('a)] = rev [Suc k..<LENGTH('a)] @ k # rev [0..<k]" unfolding upt_split [OF k] by simp
  then show ?thesis using assms k by (simp add: clz_def takeWhile_append)
qed

lemma lowest_bit:
  fixes w :: "'a::len word"
  assumes "w \<noteq> 0"
  shows "bit w (ctz w)" and "i < ctz w \<Longrightarrow> \<not> bit w i" and "ctz w < LENGTH('a)"
proof -
  have "\<exists>k. bit w k" using assms by (auto simp: bit_eq_iff)
  then have k: "bit w (LEAST k. bit w k)" "\<And>i. i < (LEAST k. bit w k) \<Longrightarrow> \<not> bit w i"
    by (auto intro: LeastI dest: not_less_Least)
  then have c: "ctz w = (LEAST k. bit w k)" by (rule ctzI)
  show "bit w (ctz w)" unfolding c by (rule k(1))
  then show "ctz w < LENGTH('a)" by (rule bit_imp_le_length)
  show "i < ctz w \<Longrightarrow> \<not> bit w i" unfolding c by (rule k(2))
qed

lemma highest_bit:
  fixes w :: "'a::len word"
  assumes "w \<noteq> 0"
  obtains k where "bit w k" "\<And>i. k < i \<Longrightarrow> \<not> bit w i"
proof -
  let ?B = "{k. bit w k}"
  have "finite ?B" by (rule finite_subset [of _ "{..<LENGTH('a)}"]) (auto dest: bit_imp_le_length)
  moreover have "?B \<noteq> {}" using assms by (auto simp: bit_eq_iff)
  ultimately have "bit w (Max ?B)" "\<And>i. Max ?B < i \<Longrightarrow> \<not> bit w i"
    using Max_in [of ?B] Max_ge [of ?B] by (auto simp: not_less [symmetric])
  then show ?thesis by (rule that)
qed

text \<open>Subtracting one turns the lowest bit and the zeros below it around, and leaves the bits above.\<close>

lemma pred_div: "n mod d \<noteq> 0 \<Longrightarrow> (n - 1) div d = n div (d :: nat)"
  by (cases n) (simp_all add: div_Suc)

lemma bit_unat: "bit w i \<longleftrightarrow> odd (unat w div 2 ^ i)" for w :: "'a::len word"
  by (simp add: bit_iff_odd [symmetric] bit_unsigned_iff)

lemma bit_pred:
  fixes w :: "'a::len word"
  assumes "w \<noteq> 0"
  shows "bit (w - 1) i \<longleftrightarrow> (if i < ctz w then i < LENGTH('a) else if i = ctz w then False else bit w i)"
proof -
  let ?k = "ctz w" and ?n = "unat w"
  have n: "unat (w - 1) = ?n - 1" using assms by (metis unat_minus_one)
  have pos: "0 < ?n" using assms by (simp add: unat_gt_0)
  have low: "?n mod 2 ^ ?k = 0"
  proof -
    have "take_bit ?k w = 0" using lowest_bit(2) [OF assms] by (intro bit_eqI) (auto simp: bit_take_bit_iff)
    then have "take_bit ?k ?n = 0" by (metis unsigned_0 unsigned_take_bit_eq)
    then show ?thesis by (simp add: take_bit_eq_mod)
  qed
  have odd: "odd (?n div 2 ^ ?k)" using lowest_bit(1) [OF assms] by (simp add: bit_unat)
  obtain q where q: "?n = 2 ^ ?k * (2 * q + 1)" using low odd by (metis dvd_mult_div_cancel mod_0_imp_dvd oddE)
  show ?thesis
  proof (cases "i \<le> ?k")
    case True
    then have "2 ^ ?k = 2 ^ i * (2 :: nat) ^ (?k - i)" by (simp flip: power_add)
    then have "?n - 1 = 2 ^ i * (2 ^ (?k - i) * (2 * q + 1)) - 1" using q by (simp only: mult.assoc)
    also have "\<dots> div 2 ^ i = 2 ^ (?k - i) * (2 * q + 1) - 1"
    proof -
      obtain m where m: "2 ^ (?k - i) * (2 * q + 1) = Suc m" by (metis gr0_conv_Suc mult_pos_pos zero_less_numeral zero_less_power add_gr_0 zero_less_one)
      have "2 ^ i * Suc m - 1 = 2 ^ i * m + (2 ^ i - 1 :: nat)" by simp
      then have "(2 ^ i * Suc m - 1 :: nat) div 2 ^ i = (2 ^ i * m + (2 ^ i - 1)) div 2 ^ i" by (rule arg_cong)
      also have "\<dots> = m" by (subst div_mult_self4) simp_all
      finally have "(2 ^ i * Suc m - 1 :: nat) div 2 ^ i = m" .
      then show ?thesis using m by simp
    qed
    finally have "bit (w - 1) i \<longleftrightarrow> odd (2 ^ (?k - i) * (2 * q + 1) - 1)" by (simp add: bit_unat n)
    then show ?thesis using True lowest_bit(3) [OF assms] by (cases "i = ?k") auto
  next
    case False
    have "?n mod 2 ^ i \<noteq> 0"
    proof
      assume "?n mod 2 ^ i = 0"
      then have "2 ^ Suc ?k dvd ?n" using False by (meson Suc_leI dvd_trans le_imp_power_dvd mod_0_imp_dvd not_le_imp_less)
      then have "2 ^ ?k * 2 dvd 2 ^ ?k * (2 * q + 1)" by (simp only: q power_Suc mult.commute)
      then show False unfolding nat_mult_dvd_cancel_disj by simp
    qed
    then have "(?n - 1) div 2 ^ i = ?n div 2 ^ i" by (rule pred_div)
    then show ?thesis using False by (simp add: bit_unat n)
  qed
qed

text \<open>Adding one moves the lowest set bit behind the ones at the end.\<close>

lemma ctz_succ:
  fixes w :: "'a::len word"
  assumes "k < LENGTH('a)" and "\<And>i. i < k \<Longrightarrow> bit w i" and "\<not> bit w k"
  shows "ctz (w + 1) = k"
proof -
  have n: "bit (NOT w) k" "\<And>i. i < k \<Longrightarrow> \<not> bit (NOT w) i" using assms by (simp_all add: bit_not_iff)
  then have c: "ctz (NOT w) = k" by (rule ctzI)
  have nz: "NOT w \<noteq> 0" using n(1) by auto
  have eq: "w + 1 = NOT (NOT w - 1)" by (simp add: not_eq_complement)
  show ?thesis
  proof (rule ctzI)
    show "bit (w + 1) k" using assms(1) unfolding eq bit_not_iff bit_pred [OF nz] c by simp
    show "\<not> bit (w + 1) i" if "i < k" for i using that assms(1) unfolding eq bit_not_iff bit_pred [OF nz] c by simp
  qed
qed

lemma bit_bm_next: "w \<noteq> 0 \<Longrightarrow> bit (bm_next w) i \<longleftrightarrow> bit w i \<and> i \<noteq> ctz w"
  using lowest_bit(2) [of w i] by (auto simp: bm_next_def bit_and_iff bit_pred)

lemma bm_next_less:
  assumes "w \<noteq> 0"
  shows "unat (bm_next w) < unat w"
proof -
  have "bm_next w \<le> w" unfolding bm_next_def by (rule word_and_le2)
  moreover have "bm_next w \<noteq> w" using bit_bm_next [OF assms, of "ctz w"] lowest_bit(1) [OF assms] by metis
  ultimately have "bm_next w < w" by simp
  then show ?thesis by (simp add: word_less_nat_alt)
qed

text \<open>The positions an iteration over the mask gives.\<close>

function bm_iter :: "nat \<Rightarrow> 'a::len word \<Rightarrow> nat list" where
  "bm_iter sh m = (if m = 0 then [] else bm_lowest sh m # bm_iter sh (bm_next m))"
  by auto

termination by (relation "measure (\<lambda>(sh, m). unat m)") (auto simp: bm_next_less)

declare bm_iter.simps [simp del]

lemma bm_iter_set: "set (bm_iter sh m) = (\<lambda>b. b div 2 ^ sh) ` {b. bit m b}"
proof (induction sh m rule: bm_iter.induct)
  case (1 sh m)
  show ?case
  proof (cases "m = 0")
    case True
    then show ?thesis by (simp add: bm_iter.simps)
  next
    case False
    have "{b. bit m b} = insert (ctz m) {b. bit (bm_next m) b}" using bit_bm_next [OF False] lowest_bit(1) [OF False] by auto
    then show ?thesis using 1 [OF False] False by (simp add: bm_iter.simps [of sh m] bm_lowest_def)
  qed
qed

section \<open>The portable counts are the builtins\<close>

lemma lowest_isolated:
  fixes w :: "'a::len word"
  assumes "w \<noteq> 0"
  shows "w AND (NOT w + 1) = push_bit (ctz w) 1"
proof (rule bit_eqI)
  fix i assume "possible_bit TYPE('a word) i"
  then have i: "i < LENGTH('a)" by simp
  have "NOT w + 1 = NOT (w - 1)" by (simp add: not_diff_distrib)
  then show "bit (w AND (NOT w + 1)) i = bit (push_bit (ctz w) (1 :: 'a word)) i"
    using i lowest_bit [OF assms] by (auto simp: bit_and_iff bit_not_iff bit_pred [OF assms] bit_push_bit_iff bit_1_iff bit_exp_iff)
qed

lemma nonzero_bit: "w \<noteq> 0 \<longleftrightarrow> (\<exists>i. bit w i)" for w :: "'a::len word"
  by (metis bit_0_eq bit_eqI bot_apply bot_bool_def)

lemma isolated_mask:
  fixes m :: "'a::len word"
  assumes "k < LENGTH('a)"
  shows "push_bit k 1 AND m \<noteq> 0 \<longleftrightarrow> bit m k"
proof -
  have "bit (push_bit k 1 AND m) i \<longleftrightarrow> i = k \<and> bit m k" for i
    using assms by (auto simp: bit_and_iff bit_push_bit_iff bit_1_iff bit_exp_iff)
  then show ?thesis unfolding nonzero_bit by blast
qed

lemma list_all_upt: "list_all P [0..<n] \<Longrightarrow> k < n \<Longrightarrow> P k"
  by (simp add: list_all_iff)

lemma trailing_slow64:
  assumes "n \<noteq> 0"
  shows "count_trailing_zeros64_slow n = count_trailing_zeros64 n"
proof -
  have "list_all (\<lambda>k. (let c = 63;
          c = (if bit (0x00000000FFFFFFFF :: u64) k then c - 32 else c);
          c = (if bit (0x0000FFFF0000FFFF :: u64) k then c - 16 else c);
          c = (if bit (0x00FF00FF00FF00FF :: u64) k then c - 8 else c);
          c = (if bit (0x0F0F0F0F0F0F0F0F :: u64) k then c - 4 else c);
          c = (if bit (0x3333333333333333 :: u64) k then c - 2 else c)
      in if bit (0x5555555555555555 :: u64) k then c - 1 else c) = k) [0..<64]"
    by (simp add: upt_conv_Cons del: upt_Suc)
  from list_all_upt [OF this lowest_bit(3) [OF assms, simplified]] show ?thesis
    unfolding count_trailing_zeros64_slow_def count_trailing_zeros64_def Let_def lowest_isolated [OF assms]
      isolated_mask [OF lowest_bit(3) [OF assms]] .
qed

lemma trailing_slow32:
  assumes "n \<noteq> 0"
  shows "count_trailing_zeros32_slow n = count_trailing_zeros32 n"
proof -
  have "list_all (\<lambda>k. (let c = 31;
          c = (if bit (0x0000FFFF :: u32) k then c - 16 else c);
          c = (if bit (0x00FF00FF :: u32) k then c - 8 else c);
          c = (if bit (0x0F0F0F0F :: u32) k then c - 4 else c);
          c = (if bit (0x33333333 :: u32) k then c - 2 else c)
      in if bit (0x55555555 :: u32) k then c - 1 else c) = k) [0..<32]"
    by (simp add: upt_conv_Cons del: upt_Suc)
  from list_all_upt [OF this lowest_bit(3) [OF assms, simplified]] show ?thesis
    unfolding count_trailing_zeros32_slow_def count_trailing_zeros32_def Let_def lowest_isolated [OF assms]
      isolated_mask [OF lowest_bit(3) [OF assms]] .
qed

lemma clz_range:
  fixes w :: "'a::len word"
  assumes "2 ^ k \<le> unat w" and "unat w < 2 ^ Suc k"
  shows "clz w = LENGTH('a) - 1 - k"
proof (rule clzI)
  have "unat w div 2 ^ k = 1" using assms by (intro div_nat_eqI) simp_all
  then show "bit w k" by (simp add: bit_unat)
  show "\<not> bit w i" if "k < i" for i
  proof -
    have "(2 :: nat) ^ Suc k \<le> 2 ^ i" using that by (intro power_increasing) auto
    then show ?thesis using assms(2) by (simp add: bit_unat)
  qed
qed

lemma unat_drop: "unat (drop_bit j w) = unat w div 2 ^ j" for w :: "'a::len word"
proof -
  have "take_bit LENGTH('a) (unat w) = unat w" by (rule take_bit_nat_eq_self) (rule unsigned_less)
  then show ?thesis by (simp only: unsigned_drop_bit_eq) (simp add: drop_bit_eq_div)
qed

lemma drop_bit_zero_iff: "drop_bit j w = 0 \<longleftrightarrow> unat w < 2 ^ j" for w :: "'a::len word"
proof -
  have "drop_bit j w = 0 \<longleftrightarrow> unat (drop_bit j w) = 0" by (simp only: unat_eq_0)
  also have "\<dots> \<longleftrightarrow> unat w < 2 ^ j" by (simp only: unat_drop div_eq_0_iff) simp
  finally show ?thesis .
qed

lemma nibble:
  assumes "2 ^ r \<le> v" and "v < 2 ^ Suc r" and "r < 4"
  shows "nibble_zeros ! v = 3 - r"
proof -
  consider "r = 0" | "r = 1" | "r = 2" | "r = 3" using assms(3) by linarith
  then show ?thesis
  proof cases
    case 1
    then have "v = 1" using assms by simp
    then show ?thesis using 1 by (simp add: nibble_zeros_def)
  next
    case 2
    then have "v = 2 \<or> v = 3" using assms by auto
    then show ?thesis using 2 by (auto simp: nibble_zeros_def)
  next
    case 3
    then have "v = 4 \<or> v = 5 \<or> v = 6 \<or> v = 7" using assms by auto
    then show ?thesis using 3 by (auto simp: nibble_zeros_def)
  next
    case 4
    then have "v = 8 \<or> v = 9 \<or> v = 10 \<or> v = 11 \<or> v = 12 \<or> v = 13 \<or> v = 14 \<or> v = 15" using assms by auto
    then show ?thesis using 4 by (auto simp: nibble_zeros_def)
  qed
qed

lemma nibble_of:
  fixes n :: u64
  assumes k: "2 ^ k \<le> unat n" "unat n < 2 ^ Suc k" and c: "c \<le> k" "k < c + 4"
  shows "nibble_zeros ! unat (drop_bit c n) = 3 - (k - c)"
proof (rule nibble)
  have p: "(2 :: nat) ^ k = 2 ^ c * 2 ^ (k - c)" "(2 :: nat) ^ Suc k = 2 ^ c * 2 ^ Suc (k - c)" using c(1) by (simp_all flip: power_add)
  show "2 ^ (k - c) \<le> unat (drop_bit c n)" "unat (drop_bit c n) < 2 ^ Suc (k - c)"
    using k unfolding p unat_drop by (simp_all add: less_eq_div_iff_mult_less_eq div_less_iff_less_mult mult.commute)
qed (use c in linarith)

lemma leading_slow64: "count_leading_zeros64_slow n = count_leading_zeros64 n"
proof (cases "n = 0")
  case True
  then show ?thesis by (simp add: count_leading_zeros64_slow_def count_leading_zeros64_def nibble_zeros_def)
next
  case False
  then obtain k where k: "2 ^ k \<le> unat n" "unat n < 2 ^ Suc k" using ex_power_ivl1 [of 2 "unat n"] unat_gt_0 [of n] by auto
  have drop: "drop_bit j n = 0 \<longleftrightarrow> k < j" for j
  proof -
    have "unat n < 2 ^ j \<longleftrightarrow> k < j"
      using k by (metis Suc_leI less_le_trans not_less not_less_eq one_less_numeral_iff power_increasing_iff semiring_norm(76) le_less_trans)
    then show ?thesis by (simp add: drop_bit_zero_iff)
  qed
  have "k < 64" using k(1) unsigned_less [of n, where ?'a = nat] power_less_imp_less_exp [of "2 :: nat" k 64] by simp
  then show ?thesis
    using clz_range [OF k] False nibble_of [OF k] nibble_of [OF k, of 0]
    by (auto simp: count_leading_zeros64_slow_def count_leading_zeros64_def Let_def drop_bit_drop_bit drop not_less)
qed

text \<open>The 32-bit version, on the 64-bit argument it is given.\<close>

lemma leading_slow32:
  fixes n :: u32
  shows "count_leading_zeros32_slow (ucast n) = count_leading_zeros32 n"
proof (cases "n = 0")
  case True
  then show ?thesis by (simp add: count_leading_zeros32_slow_def count_leading_zeros32_def nibble_zeros_def)
next
  case False
  define m where "m = (ucast n :: u64)"
  have m: "unat m = unat n" by (simp add: m_def unsigned_ucast_eq take_bit_nat_eq_self less_trans [OF unsigned_less])
  obtain k where k: "2 ^ k \<le> unat n" "unat n < 2 ^ Suc k" using False ex_power_ivl1 [of 2 "unat n"] unat_gt_0 [of n] by auto
  have drop: "drop_bit j m = 0 \<longleftrightarrow> k < j" for j
  proof -
    have "unat m < 2 ^ j \<longleftrightarrow> k < j"
      using k unfolding m
      by (metis Suc_leI less_le_trans not_less not_less_eq one_less_numeral_iff power_increasing_iff semiring_norm(76) le_less_trans)
    then show ?thesis by (simp add: drop_bit_zero_iff)
  qed
  have "k < 32" using k(1) unsigned_less [of n, where ?'a = nat] power_less_imp_less_exp [of "2 :: nat" k 32] by simp
  then show ?thesis
    using clz_range [OF k] False nibble_of [of k m, unfolded m, OF k] nibble_of [of k m 0, unfolded m, OF k]
    unfolding m_def [symmetric]
    by (auto simp: count_leading_zeros32_slow_def count_leading_zeros32_def Let_def drop_bit_drop_bit drop not_less)
qed

end
