(* ===== verification/CtrlGroup.thy ===== *)
theory CtrlGroup
  imports HashBits
begin

text \<open>
  Control bytes and groups of them (\<^verbatim>\<open>src/utils/phmap/phmap.h\<close>): the two implementations \<^verbatim>\<open>GroupSse2Impl\<close> and
  \<^verbatim>\<open>GroupPortableImpl\<close>, and the interface \<open>hash_group\<close> that the table relies on.
\<close>

section \<open>Control bytes\<close>

text \<open>\<^verbatim>\<open>ctrl_t\<close> is a signed char.\<close>

definition kEmpty :: byte where "kEmpty = 0x80"
definition kDeleted :: byte where "kDeleted = 0xFE"
definition kSentinel :: byte where "kSentinel = 0xFF"

definition empty_group :: "byte list" where
  "empty_group = kSentinel # replicate 15 kEmpty"

definition hash_h1 :: "u64 \<Rightarrow> u64" where
  "hash_h1 hashval = drop_bit 7 hashval"

definition hash_h2 :: "u64 \<Rightarrow> byte" where
  "hash_h2 hashval = ucast (hashval AND 0x7F)"

definition is_empty :: "byte \<Rightarrow> bool" where "is_empty c = (c = kEmpty)"
definition is_full :: "byte \<Rightarrow> bool" where "is_full c = (0 \<le>s c)"
definition is_deleted :: "byte \<Rightarrow> bool" where "is_deleted c = (c = kDeleted)"
definition is_empty_or_deleted :: "byte \<Rightarrow> bool" where "is_empty_or_deleted c = (c <s kSentinel)"

section \<open>The interface of a group\<close>

text \<open>
  What the table asks of the \<open>gr_width\<close> bytes of a group: the positions that may match a hash (\<open>Match\<close>), whether and where
  there is an empty byte (\<open>MatchEmpty\<close>), the first free one (\<open>MatchEmptyOrDeleted\<close>).
\<close>

record group_ops =
  gr_width :: nat
  gr_match :: "byte \<Rightarrow> byte list \<Rightarrow> nat list"
  gr_has_empty :: "byte list \<Rightarrow> bool"
  gr_empty_trailing :: "byte list \<Rightarrow> nat"
  gr_empty_leading :: "byte list \<Rightarrow> nat"
  gr_first_free :: "byte list \<Rightarrow> nat option"
  gr_count_leading :: "byte list \<Rightarrow> nat"
  gr_convert :: "byte list \<Rightarrow> byte list"

section \<open>\<^verbatim>\<open>GroupSse2Impl\<close>\<close>

text \<open>The intrinsics work on 16 signed bytes.\<close>

definition mm_movemask_epi8 :: "byte list \<Rightarrow> u32" where
  "mm_movemask_epi8 v = horner_sum of_bool 2 (map (\<lambda>c. bit c 7) v)"

definition mm_cmpeq_epi8 :: "byte list \<Rightarrow> byte list \<Rightarrow> byte list" where
  "mm_cmpeq_epi8 a b = map2 (\<lambda>x y. if x = y then 0xFF else 0) a b"

definition mm_cmpgt_epi8 :: "byte list \<Rightarrow> byte list \<Rightarrow> byte list" where
  "mm_cmpgt_epi8 a b = map2 (\<lambda>x y. if y <s x then 0xFF else 0) a b"

definition mm_subs_epi8 :: "byte list \<Rightarrow> byte list \<Rightarrow> byte list" where
  "mm_subs_epi8 a b = map2 (\<lambda>x y. word_of_int (max (- 128) (min 127 (sint x - sint y)))) a b"

definition mm_set1_epi8 :: "byte \<Rightarrow> byte list" where
  "mm_set1_epi8 c = replicate 16 c"

text \<open>The comparison where \<^verbatim>\<open>char\<close> is unsigned, and elsewhere.\<close>

definition mm_cmpgt_epi8_fixed :: "bool \<Rightarrow> byte list \<Rightarrow> byte list \<Rightarrow> byte list" where
  "mm_cmpgt_epi8_fixed unsigned_char a b =
     (if unsigned_char then
        let m = mm_set1_epi8 0x80; diff = mm_subs_epi8 b a in mm_cmpeq_epi8 (map2 (AND) diff m) m
      else mm_cmpgt_epi8 a b)"

definition sse2_match :: "byte \<Rightarrow> byte list \<Rightarrow> u32" where
  "sse2_match hash ctrl = mm_movemask_epi8 (mm_cmpeq_epi8 (mm_set1_epi8 hash) ctrl)"

definition sse2_match_empty :: "byte list \<Rightarrow> u32" where
  "sse2_match_empty ctrl = sse2_match kEmpty ctrl"

definition sse2_match_empty_or_deleted :: "byte list \<Rightarrow> u32" where
  "sse2_match_empty_or_deleted ctrl = mm_movemask_epi8 (mm_cmpgt_epi8 (mm_set1_epi8 kSentinel) ctrl)"

definition sse2_count_leading :: "byte list \<Rightarrow> nat" where
  "sse2_count_leading ctrl = count_trailing_zeros32 (mm_movemask_epi8 (mm_cmpgt_epi8 (mm_set1_epi8 kSentinel) ctrl) + 1)"

definition sse2_convert :: "byte list \<Rightarrow> byte list" where
  "sse2_convert ctrl =
     (let msbs = mm_set1_epi8 0x80; x126 = mm_set1_epi8 126; zero = mm_set1_epi8 0;
          special_mask = mm_cmpgt_epi8 zero ctrl
      in map2 (OR) msbs (map2 (\<lambda>a b. NOT a AND b) special_mask x126))"

text \<open>With \<^verbatim>\<open>PHMAP_HAVE_SSSE3\<close> two operations use other intrinsics.\<close>

definition mm_sign_epi8 :: "byte list \<Rightarrow> byte list \<Rightarrow> byte list" where
  "mm_sign_epi8 a b = map2 (\<lambda>x y. if y <s 0 then - x else if y = 0 then 0 else x) a b"

definition mm_shuffle_epi8 :: "byte list \<Rightarrow> byte list \<Rightarrow> byte list" where
  "mm_shuffle_epi8 a b = map (\<lambda>y. if bit y 7 then 0 else a ! unat (y AND 15)) b"

definition ssse3_match_empty :: "byte list \<Rightarrow> u32" where
  "ssse3_match_empty ctrl = mm_movemask_epi8 (mm_sign_epi8 ctrl ctrl)"

definition ssse3_convert :: "byte list \<Rightarrow> byte list" where
  "ssse3_convert ctrl = map2 (OR) (mm_shuffle_epi8 (mm_set1_epi8 126) ctrl) (mm_set1_epi8 0x80)"

definition sse2_group :: group_ops where
  "sse2_group = \<lparr>gr_width = 16,
     gr_match = (\<lambda>hash g. bm_iter 0 (sse2_match hash g)),
     gr_has_empty = (\<lambda>g. sse2_match_empty g \<noteq> 0),
     gr_empty_trailing = (\<lambda>g. bm_trailing_zeros 0 (sse2_match_empty g)),
     gr_empty_leading = (\<lambda>g. bm_leading_zeros 16 0 (sse2_match_empty g)),
     gr_first_free = (\<lambda>g. let mask = sse2_match_empty_or_deleted g in if mask = 0 then None else Some (bm_lowest 0 mask)),
     gr_count_leading = sse2_count_leading,
     gr_convert = sse2_convert\<rparr>"

definition ssse3_group :: group_ops where
  "ssse3_group = sse2_group\<lparr>
     gr_has_empty := (\<lambda>g. ssse3_match_empty g \<noteq> 0),
     gr_empty_trailing := (\<lambda>g. bm_trailing_zeros 0 (ssse3_match_empty g)),
     gr_empty_leading := (\<lambda>g. bm_leading_zeros 16 0 (ssse3_match_empty g)),
     gr_convert := ssse3_convert\<rparr>"

section \<open>\<^verbatim>\<open>GroupPortableImpl\<close>\<close>

definition msbs :: u64 where "msbs = 0x8080808080808080"
definition lsbs :: u64 where "lsbs = 0x0101010101010101"

definition portable_match :: "byte \<Rightarrow> byte list \<Rightarrow> u64" where
  "portable_match hash g = (let x = load64 g XOR (lsbs * ucast hash) in (x - lsbs) AND NOT x AND msbs)"

definition portable_match_empty :: "byte list \<Rightarrow> u64" where
  "portable_match_empty g = (let ctrl = load64 g in ctrl AND push_bit 6 (NOT ctrl) AND msbs)"

definition portable_match_empty_or_deleted :: "byte list \<Rightarrow> u64" where
  "portable_match_empty_or_deleted g = (let ctrl = load64 g in ctrl AND push_bit 7 (NOT ctrl) AND msbs)"

definition portable_count_leading :: "byte list \<Rightarrow> nat" where
  "portable_count_leading g =
     (let ctrl = load64 g; gaps = 0x00FEFEFEFEFEFEFE
      in (count_trailing_zeros64 (((NOT ctrl AND drop_bit 7 ctrl) OR gaps) + 1) + 7) div 8)"

definition portable_convert :: "byte list \<Rightarrow> byte list" where
  "portable_convert g = (let x = load64 g AND msbs in store64 ((NOT x + drop_bit 7 x) AND NOT lsbs))"

definition portable_group :: group_ops where
  "portable_group = \<lparr>gr_width = 8,
     gr_match = (\<lambda>hash g. bm_iter 3 (portable_match hash g)),
     gr_has_empty = (\<lambda>g. portable_match_empty g \<noteq> 0),
     gr_empty_trailing = (\<lambda>g. bm_trailing_zeros 3 (portable_match_empty g)),
     gr_empty_leading = (\<lambda>g. bm_leading_zeros 8 3 (portable_match_empty g)),
     gr_first_free = (\<lambda>g. let mask = portable_match_empty_or_deleted g in if mask = 0 then None else Some (bm_lowest 3 mask)),
     gr_count_leading = portable_count_leading,
     gr_convert = portable_convert\<rparr>"

section \<open>The contract\<close>

definition valid_ctrl :: "byte \<Rightarrow> bool" where
  "valid_ctrl c \<longleftrightarrow> is_full c \<or> c = kEmpty \<or> c = kDeleted \<or> c = kSentinel"

definition is_free :: "byte \<Rightarrow> bool" where
  "is_free c \<longleftrightarrow> c = kEmpty \<or> c = kDeleted"

locale hash_group =
  fixes G :: group_ops
  assumes width: "gr_width G = 8 \<or> gr_width G = 16"
    and match_hit: "length g = gr_width G \<Longrightarrow> is_full h \<Longrightarrow> i < gr_width G \<Longrightarrow> g ! i = h \<Longrightarrow> i \<in> set (gr_match G h g)"
    and match_only: "length g = gr_width G \<Longrightarrow> is_full h \<Longrightarrow> i \<in> set (gr_match G h g) \<Longrightarrow> i < gr_width G \<and> is_full (g ! i)"
    and has_empty: "length g = gr_width G \<Longrightarrow> list_all valid_ctrl g \<Longrightarrow> gr_has_empty G g \<longleftrightarrow> kEmpty \<in> set g"
    and trailing: "length g = gr_width G \<Longrightarrow> list_all valid_ctrl g \<Longrightarrow> kEmpty \<in> set g \<Longrightarrow>
      gr_empty_trailing G g < gr_width G \<and> g ! gr_empty_trailing G g = kEmpty"
    and leading: "length g = gr_width G \<Longrightarrow> list_all valid_ctrl g \<Longrightarrow> kEmpty \<in> set g \<Longrightarrow>
      gr_empty_leading G g < gr_width G \<and> g ! (gr_width G - 1 - gr_empty_leading G g) = kEmpty \<and>
      (\<forall>i. gr_width G - 1 - gr_empty_leading G g < i \<and> i < gr_width G \<longrightarrow> g ! i \<noteq> kEmpty)"
    and first_free_None: "length g = gr_width G \<Longrightarrow> list_all valid_ctrl g \<Longrightarrow> gr_first_free G g = None \<longleftrightarrow> \<not> (\<exists>c \<in> set g. is_free c)"
    and first_free_Some: "length g = gr_width G \<Longrightarrow> list_all valid_ctrl g \<Longrightarrow> gr_first_free G g = Some i \<Longrightarrow>
      i < gr_width G \<and> is_free (g ! i) \<and> (\<forall>j < i. \<not> is_free (g ! j))"
    and free_run: "length g = gr_width G \<Longrightarrow> list_all valid_ctrl g \<Longrightarrow> gr_count_leading G g \<le> gr_width G \<and>
      (\<forall>j < gr_count_leading G g. is_free (g ! j)) \<and> (gr_count_leading G g < gr_width G \<longrightarrow> \<not> is_free (g ! gr_count_leading G g))"
    and convert: "length g = gr_width G \<Longrightarrow> list_all valid_ctrl g \<Longrightarrow> gr_convert G g = map (\<lambda>c. if is_full c then kDeleted else kEmpty) g"

section \<open>Single bytes\<close>

lemma is_full_bit: "is_full c \<longleftrightarrow> \<not> bit c 7"
  by (simp add: is_full_def word_sle_eq sint_uint signed_take_bit_nonnegative_iff bit_uint_iff)

lemma sign_of_difference: "word_of_int (max (- 128) (min 127 (sint y - sint x))) AND 0x80 = (0x80 :: byte) \<longleftrightarrow> y <s x" for x y :: byte
proof -
  let ?d = "max (- 128) (min 127 (sint y - sint x))"
  have bit: "w AND 0x80 = 0x80 \<longleftrightarrow> bit w 7" for w :: byte
  proof -
    have b: "bit (0x80 :: byte) n \<longleftrightarrow> n = 7" for n
    proof -
      have "(0x80 :: byte) = push_bit 7 1" by simp
      then show ?thesis by (simp only: bit_push_bit_iff bit_1_iff) auto
    qed
    show ?thesis
    proof
      assume "w AND 0x80 = 0x80"
      then have "bit (w AND 0x80) 7" by (simp only: b)
      then show "bit w 7" by (simp only: bit_and_iff)
    next
      assume "bit w 7"
      then show "w AND 0x80 = 0x80" by (intro bit_word_eqI) (auto simp only: bit_and_iff b)
    qed
  qed
  have "signed_take_bit 7 ?d = ?d" by (rule signed_take_bit_int_eq_self) simp_all
  then have "bit ?d 7 \<longleftrightarrow> ?d < 0" using signed_take_bit_negative_iff [of 7 ?d] by simp
  then show ?thesis unfolding bit word_sless_alt by (auto simp: bit_word_of_int_iff)
qed

text \<open>The two comparisons agree.\<close>

lemma mm_cmpgt_fixed: "length a = 16 \<Longrightarrow> length b = 16 \<Longrightarrow> mm_cmpgt_epi8_fixed u a b = mm_cmpgt_epi8 a b"
  by (cases u; rule nth_equalityI)
    (simp_all add: mm_cmpgt_epi8_fixed_def mm_cmpgt_epi8_def mm_cmpeq_epi8_def mm_subs_epi8_def mm_set1_epi8_def sign_of_difference Let_def)

lemma is_full_special [simp]: "\<not> is_full kEmpty" "\<not> is_full kDeleted" "\<not> is_full kSentinel" "is_full 0"
  by (simp_all add: is_full_bit kEmpty_def kDeleted_def kSentinel_def)

lemma special_distinct [simp]: "kEmpty \<noteq> kDeleted" "kDeleted \<noteq> kEmpty" "kEmpty \<noteq> kSentinel" "kSentinel \<noteq> kEmpty"
  "kDeleted \<noteq> kSentinel" "kSentinel \<noteq> kDeleted"
  by (simp_all add: kEmpty_def kDeleted_def kSentinel_def)

lemma is_full_h2 [simp]: "is_full (hash_h2 h)"
  by (simp add: is_full_bit hash_h2_def bit_ucast_iff bit_and_iff)

lemma full_neq_special: "is_full c \<Longrightarrow> c \<noteq> kEmpty \<and> c \<noteq> kDeleted \<and> c \<noteq> kSentinel"
  by auto

lemma valid_special [simp]: "valid_ctrl kEmpty" "valid_ctrl kDeleted" "valid_ctrl kSentinel" "is_full c \<Longrightarrow> valid_ctrl c"
  by (simp_all add: valid_ctrl_def)

lemma free_special [simp]: "is_free kEmpty" "is_free kDeleted" "\<not> is_free kSentinel" "is_full c \<Longrightarrow> \<not> is_free c"
  by (auto simp: is_free_def)

lemma below_sentinel: "c <s kSentinel \<longleftrightarrow> \<not> is_full c \<and> c \<noteq> kSentinel"
proof -
  have "sint kSentinel = - 1" by (simp add: kSentinel_def)
  moreover have "is_full c \<longleftrightarrow> 0 \<le> sint c" by (simp add: is_full_def word_sle_eq)
  moreover have "c = kSentinel \<longleftrightarrow> sint c = - 1" using \<open>sint kSentinel = - 1\<close> by (metis signed_word_eqI)
  ultimately show ?thesis by (auto simp: word_sless_alt)
qed

lemma is_empty_or_deleted_free: "valid_ctrl c \<Longrightarrow> is_empty_or_deleted c \<longleftrightarrow> is_free c"
  by (auto simp: is_empty_or_deleted_def below_sentinel valid_ctrl_def is_free_def)

section \<open>Masks\<close>

text \<open>The mask of the positions below \<open>n\<close> with property \<open>P\<close>: the highest bit of each is set.\<close>

definition marks :: "nat \<Rightarrow> nat \<Rightarrow> (nat \<Rightarrow> bool) \<Rightarrow> 'a::len word \<Rightarrow> bool" where
  "marks sh n P m \<longleftrightarrow> n * 2 ^ sh \<le> LENGTH('a) \<and> (\<forall>b. bit m b \<longleftrightarrow> Suc b mod 2 ^ sh = 0 \<and> b div 2 ^ sh < n \<and> P (b div 2 ^ sh))"

lemma marks_bit: "marks sh n P m \<Longrightarrow> bit m b \<longleftrightarrow> Suc b mod 2 ^ sh = 0 \<and> b div 2 ^ sh < n \<and> P (b div 2 ^ sh)"
  by (simp add: marks_def)

definition mark_at :: "nat \<Rightarrow> nat \<Rightarrow> nat" where
  "mark_at sh i = i * 2 ^ sh + (2 ^ sh - 1)"

lemma mark_at_div [simp]: "mark_at sh i div 2 ^ sh = i"
  unfolding mark_at_def by (subst div_mult_self3) simp_all

lemma Suc_mark_at [simp]: "Suc (mark_at sh i) = Suc i * 2 ^ sh"
  by (simp add: mark_at_def)

lemma mark_at_less: "j < i \<Longrightarrow> mark_at sh j < i * 2 ^ sh"
  unfolding Suc_le_eq [symmetric] Suc_mark_at by (intro mult_le_mono1)

lemma marked:
  assumes "marks sh n P m" and "i < n"
  shows "bit m (mark_at sh i) \<longleftrightarrow> P i"
  using assms(2) by (simp add: marks_bit [OF assms(1)] del: mult_Suc)

lemma marks_iter: "marks sh n P m \<Longrightarrow> set (bm_iter sh m) = {i. i < n \<and> P i}"
proof -
  assume m: "marks sh n P m"
  show ?thesis
  proof
    show "set (bm_iter sh m) \<subseteq> {i. i < n \<and> P i}" using marks_bit [OF m] by (auto simp: bm_iter_set)
    show "{i. i < n \<and> P i} \<subseteq> set (bm_iter sh m)"
    proof
      fix i assume "i \<in> {i. i < n \<and> P i}"
      then have "bit m (mark_at sh i)" using marked [OF m] by simp
      then show "i \<in> set (bm_iter sh m)" unfolding bm_iter_set by (metis (mono_tags, lifting) image_eqI mark_at_div mem_Collect_eq)
    qed
  qed
qed

lemma marks_nonzero:
  assumes "marks sh n P m"
  shows "m \<noteq> 0 \<longleftrightarrow> (\<exists>i < n. P i)"
proof
  assume "m \<noteq> 0"
  then obtain b where "bit m b" by (auto simp: nonzero_bit)
  then show "\<exists>i < n. P i" using marks_bit [OF assms] by blast
next
  assume "\<exists>i < n. P i"
  then show "m \<noteq> 0" using marked [OF assms] nonzero_bit by metis
qed

lemma marks_lowest:
  assumes "marks sh n P m" and "m \<noteq> 0"
  shows "ctz m div 2 ^ sh < n \<and> P (ctz m div 2 ^ sh) \<and> (\<forall>j < ctz m div 2 ^ sh. \<not> P j)"
proof -
  have low: "ctz m div 2 ^ sh < n" "P (ctz m div 2 ^ sh)" using lowest_bit(1) [OF assms(2)] marks_bit [OF assms(1)] by blast+
  moreover have "\<not> P j" if j: "j < ctz m div 2 ^ sh" for j
  proof
    assume "P j"
    then have "bit m (mark_at sh j)" using marked [OF assms(1)] j low(1) by simp
    moreover have "mark_at sh j < ctz m" using mark_at_less [OF j] div_times_less_eq_dividend by (rule less_le_trans)
    ultimately show False using lowest_bit(2) [OF assms(2)] by blast
  qed
  ultimately show ?thesis by blast
qed

lemma marks_leading:
  fixes m :: "'a::len word"
  assumes m: "marks sh n P m" and "m \<noteq> 0"
  shows "bm_leading_zeros n sh m < n \<and> P (n - 1 - bm_leading_zeros n sh m) \<and> (\<forall>i. n - 1 - bm_leading_zeros n sh m < i \<and> i < n \<longrightarrow> \<not> P i)"
proof -
  obtain b where b: "bit m b" "\<And>i. b < i \<Longrightarrow> \<not> bit m i" using highest_bit [OF assms(2)] by metis
  let ?e = "LENGTH('a) - n * 2 ^ sh" and ?i = "b div 2 ^ sh"
  have i: "Suc b mod 2 ^ sh = 0" "?i < n" "P ?i" using b(1) marks_bit [OF m] by blast+
  have n: "n * 2 ^ sh \<le> LENGTH('a)" using m by (simp add: marks_def)
  obtain q where q: "Suc b = 2 ^ sh * q" using i(1) by (auto elim: dvdE)
  have pos: "(0 :: nat) < 2 ^ sh" by simp
  have "q = Suc ?i"
  proof -
    have "0 < q" using q by (cases q) auto
    then obtain r where r: "q = Suc r" by (cases q) auto
    have "b = mark_at sh r" using q r by (metis Suc_mark_at nat.inject mult.commute)
    then show ?thesis using r by simp
  qed
  then have b_eq: "Suc b = Suc ?i * 2 ^ sh" using q by simp
  have bn: "Suc b \<le> n * 2 ^ sh" unfolding b_eq using i(2) by (intro mult_le_mono1) simp
  have "clz (push_bit ?e m) = LENGTH('a) - 1 - (?e + b)"
  proof (rule clzI)
    have "?e + b < LENGTH('a)" "?e \<le> ?e + b" using bn n by linarith+
    then show "bit (push_bit ?e m) (?e + b)" using b(1) by (simp add: bit_push_bit_iff del: le_add1)
    show "\<not> bit (push_bit ?e m) j" if "?e + b < j" for j using b(2) [of "j - ?e"] that by (simp add: bit_push_bit_iff)
  qed
  also have "\<dots> = (n - Suc ?i) * 2 ^ sh" using bn n b_eq by (simp add: diff_mult_distrib)
  finally have lz: "bm_leading_zeros n sh m = n - Suc ?i" using pos by (simp add: bm_leading_zeros_def Let_def)
  then have at: "n - 1 - bm_leading_zeros n sh m = ?i" using i(2) by simp
  have "\<not> P j" if "?i < j" "j < n" for j
  proof
    assume "P j"
    then have "bit m (mark_at sh j)" using marked [OF m that(2)] by simp
    moreover have "Suc b \<le> j * 2 ^ sh" unfolding b_eq using that(1) by (intro mult_le_mono1) simp
    then have "b < mark_at sh j" unfolding mark_at_def by linarith
    ultimately show False using b(2) by blast
  qed
  then show ?thesis using i lz at by auto
qed

section \<open>Both implementations meet the contract\<close>

lemma marks_movemask:
  assumes "length g = 16"
  shows "marks 0 16 (\<lambda>i. bit (g ! i) 7) (mm_movemask_epi8 g)"
  using assms by (auto simp: marks_def mm_movemask_epi8_def bit_horner_sum_bit_iff)

lemma marks_cong: "marks sh n P m \<Longrightarrow> (\<And>i. i < n \<Longrightarrow> P i \<longleftrightarrow> Q i) \<Longrightarrow> marks sh n Q m"
  by (auto simp: marks_def)

lemma sse2_match_marks:
  assumes "length g = 16"
  shows "marks 0 16 (\<lambda>i. g ! i = h) (sse2_match h g)"
  unfolding sse2_match_def
  by (rule marks_cong [OF marks_movemask]) (use assms in \<open>auto simp: mm_cmpeq_epi8_def mm_set1_epi8_def\<close>)

lemma sse2_free_marks:
  assumes "length g = 16" and "list_all valid_ctrl g"
  shows "marks 0 16 (\<lambda>i. is_free (g ! i)) (sse2_match_empty_or_deleted g)"
proof -
  have "is_empty_or_deleted (g ! i) \<longleftrightarrow> is_free (g ! i)" if "i < 16" for i
    using assms that by (intro is_empty_or_deleted_free) (simp add: list_all_length)
  then show ?thesis
    unfolding sse2_match_empty_or_deleted_def
    by (intro marks_cong [OF marks_movemask]) (use assms(1) in \<open>auto simp: mm_cmpgt_epi8_def mm_set1_epi8_def is_empty_or_deleted_def\<close>)
qed

lemma sse2_convert_byte: "0x80 OR (NOT (if c <s 0 then 0xFF else 0) AND 126) = (if is_full c then kDeleted else kEmpty)"
  by (simp add: is_full_def kDeleted_def kEmpty_def word_sless_alt word_sle_eq)

lemma sse2_convert_ok: "length g = 16 \<Longrightarrow> sse2_convert g = map (\<lambda>c. if is_full c then kDeleted else kEmpty) g"
  by (rule nth_equalityI)
    (simp_all add: sse2_convert_def Let_def mm_set1_epi8_def mm_cmpgt_epi8_def sse2_convert_byte del: if_distrib)

text \<open>The first byte that is not free.\<close>

definition free_prefix :: "byte list \<Rightarrow> nat" where
  "free_prefix g = length (takeWhile is_free g)"

lemma free_prefix:
  "free_prefix g \<le> length g" "j < free_prefix g \<Longrightarrow> is_free (g ! j)" "free_prefix g < length g \<Longrightarrow> \<not> is_free (g ! free_prefix g)"
  using set_takeWhileD [of _ is_free g] nth_mem [of j "takeWhile is_free g"] takeWhile_nth [of j is_free g]
  by (auto simp: free_prefix_def length_takeWhile_le nth_length_takeWhile)

lemma sse2_count_leading_ok:
  assumes "length g = 16" and "list_all valid_ctrl g"
  shows "sse2_count_leading g = free_prefix g"
proof -
  let ?m = "mm_movemask_epi8 (mm_cmpgt_epi8 (mm_set1_epi8 kSentinel) g)"
  have "bit ?m i \<longleftrightarrow> i < 16 \<and> is_free (g ! i)" for i
    using marks_bit [OF sse2_free_marks [OF assms], of i] by (simp add: sse2_match_empty_or_deleted_def)
  then have "ctz (?m + 1) = free_prefix g" using free_prefix [where g = g] assms(1) by (intro ctz_succ) auto
  then show ?thesis by (simp add: sse2_count_leading_def count_trailing_zeros32_def)
qed

interpretation sse2: hash_group sse2_group
proof
  fix g :: "byte list" and h :: byte and i :: nat
  show "gr_width sse2_group = 8 \<or> gr_width sse2_group = 16" by (simp add: sse2_group_def)
  assume "length g = gr_width sse2_group"
  then have len: "length g = 16" by (simp add: sse2_group_def)
  note match = sse2_match_marks [OF len, of h] and empty = sse2_match_marks [OF len, of kEmpty]
  show "i \<in> set (gr_match sse2_group h g)" if "is_full h" "i < gr_width sse2_group" "g ! i = h"
    using that marks_iter [OF match] by (simp add: sse2_group_def)
  show "i < gr_width sse2_group \<and> is_full (g ! i)" if "is_full h" "i \<in> set (gr_match sse2_group h g)"
    using that marks_iter [OF match] by (simp add: sse2_group_def)
  assume valid: "list_all valid_ctrl g"
  have mem: "kEmpty \<in> set g \<longleftrightarrow> (\<exists>i < 16. g ! i = kEmpty)" using len by (auto simp: in_set_conv_nth)
  have nz: "sse2_match_empty g \<noteq> 0 \<longleftrightarrow> kEmpty \<in> set g" using marks_nonzero [OF empty] mem by (simp add: sse2_match_empty_def)
  then show "gr_has_empty sse2_group g = (kEmpty \<in> set g)" by (simp add: sse2_group_def)
  show "gr_empty_trailing sse2_group g < gr_width sse2_group \<and> g ! gr_empty_trailing sse2_group g = kEmpty" if "kEmpty \<in> set g"
    using marks_lowest [OF empty] that nz by (simp add: sse2_group_def sse2_match_empty_def bm_trailing_zeros_def)
  show "gr_empty_leading sse2_group g < gr_width sse2_group \<and> g ! (gr_width sse2_group - 1 - gr_empty_leading sse2_group g) = kEmpty \<and>
      (\<forall>i. gr_width sse2_group - 1 - gr_empty_leading sse2_group g < i \<and> i < gr_width sse2_group \<longrightarrow> g ! i \<noteq> kEmpty)" if "kEmpty \<in> set g"
    using marks_leading [OF empty] that nz by (simp add: sse2_group_def sse2_match_empty_def)
  note free = sse2_free_marks [OF len valid]
  have ex: "(\<exists>c \<in> set g. is_free c) \<longleftrightarrow> (\<exists>i < 16. is_free (g ! i))" using len by (force simp: in_set_conv_nth)
  show "(gr_first_free sse2_group g = None) = (\<not> (\<exists>c \<in> set g. is_free c))"
    using marks_nonzero [OF free] ex by (auto simp: sse2_group_def Let_def)
  show "i < gr_width sse2_group \<and> is_free (g ! i) \<and> (\<forall>j < i. \<not> is_free (g ! j))" if "gr_first_free sse2_group g = Some i"
    using marks_lowest [OF free] that by (auto simp: sse2_group_def Let_def bm_lowest_def split: if_splits)
  show "gr_convert sse2_group g = map (\<lambda>c. if is_full c then kDeleted else kEmpty) g"
    using sse2_convert_ok [OF len] by (simp add: sse2_group_def)
  show "gr_count_leading sse2_group g \<le> gr_width sse2_group \<and> (\<forall>j < gr_count_leading sse2_group g. is_free (g ! j)) \<and>
      (gr_count_leading sse2_group g < gr_width sse2_group \<longrightarrow> \<not> is_free (g ! gr_count_leading sse2_group g))"
    using free_prefix [where g = g] sse2_count_leading_ok [OF len valid] len by (simp add: sse2_group_def)
qed

lemma sign_byte: "bit (if c <s 0 then - c else if c = 0 then 0 else c) 7 \<longleftrightarrow> c = kEmpty" for c :: byte
proof (cases "bit c 7")
  case True
  then have "\<not> is_full c" by (simp add: is_full_bit)
  then have neg: "c <s 0" by (simp add: is_full_def word_sless_alt word_sle_eq)
  have u: "128 \<le> unat c" "unat c < 256"
    using True unsigned_less [of c, where ?'a = nat] by (auto simp: bit_unat intro: ccontr)
  have "of_nat (256 - unat c) + c = (of_nat (256 - unat c + unat c) :: byte)" by (simp only: of_nat_add of_nat_unat ucast_id)
  also have "\<dots> = 0" using u by simp
  finally have e: "- c = of_nat (256 - unat c)" unfolding add.commute [of _ c] by (rule minus_unique)
  have m: "unat (- c) = 256 - unat c" unfolding e unat_of_nat using u by simp
  have "unat c = 128" if "bit (- c) 7"
  proof (rule ccontr)
    assume "unat c \<noteq> 128"
    then have "256 - unat c < 128" using u by linarith
    then show False using that unfolding bit_unat m by simp
  qed
  moreover have "bit (- c) 7" if "unat c = 128" using that unfolding bit_unat m by simp
  ultimately have "bit (- c) 7 \<longleftrightarrow> unat c = 128" by blast
  then show ?thesis using neg by (simp add: kEmpty_def word_unat_eq_iff)
next
  case False
  then have "is_full c" by (simp add: is_full_bit)
  then have "\<not> c <s 0" by (simp add: is_full_def word_sless_alt word_sle_eq)
  moreover have "c \<noteq> kEmpty" using False is_full_bit is_full_special(1) by auto
  ultimately show ?thesis using False by simp
qed

lemma ssse3_match_empty_ok: "length g = 16 \<Longrightarrow> ssse3_match_empty g = sse2_match_empty g"
proof -
  assume len: "length g = 16"
  have "marks 0 16 (\<lambda>i. g ! i = kEmpty) (ssse3_match_empty g)"
    unfolding ssse3_match_empty_def
    by (rule marks_cong [OF marks_movemask]) (use len in \<open>auto simp: mm_sign_epi8_def sign_byte\<close>)
  then show ?thesis
    using sse2_match_marks [OF len, of kEmpty] by (intro bit_word_eqI) (simp add: marks_bit sse2_match_empty_def)
qed

lemma ssse3_convert_ok: "length g = 16 \<Longrightarrow> ssse3_convert g = sse2_convert g"
proof -
  assume len: "length g = 16"
  have idx: "unat (c AND 15) < 16" for c :: byte
  proof -
    have "c AND 15 = take_bit 4 c" by (simp add: take_bit_eq_mask mask_eq_exp_minus_1)
    then show ?thesis using take_bit_nat_less_exp [of 4 "unat c"] by (simp add: unsigned_take_bit_eq)
  qed
  have "ssse3_convert g = map (\<lambda>c. if is_full c then kDeleted else kEmpty) g"
    using len idx by (intro nth_equalityI) (auto simp: ssse3_convert_def mm_shuffle_epi8_def mm_set1_epi8_def is_full_bit kEmpty_def kDeleted_def)
  then show ?thesis using sse2_convert_ok [OF len] by simp
qed

interpretation ssse3: hash_group ssse3_group
proof
  fix g :: "byte list" and h :: byte and i :: nat
  have w: "gr_width ssse3_group = gr_width sse2_group" by (simp add: ssse3_group_def)
  show "gr_width ssse3_group = 8 \<or> gr_width ssse3_group = 16" unfolding w by (rule sse2.width)
  assume "length g = gr_width ssse3_group"
  then have len: "length g = gr_width sse2_group" "length g = 16" by (simp_all add: ssse3_group_def sse2_group_def)
  have same: "gr_match ssse3_group = gr_match sse2_group" "gr_has_empty ssse3_group g = gr_has_empty sse2_group g"
    "gr_empty_trailing ssse3_group g = gr_empty_trailing sse2_group g" "gr_empty_leading ssse3_group g = gr_empty_leading sse2_group g"
    "gr_first_free ssse3_group = gr_first_free sse2_group" "gr_count_leading ssse3_group = gr_count_leading sse2_group"
    "gr_convert ssse3_group g = gr_convert sse2_group g"
    by (simp_all add: ssse3_group_def ssse3_match_empty_ok [OF len(2)] ssse3_convert_ok [OF len(2)]) (simp_all add: sse2_group_def)
  note laws = sse2.match_hit [OF len(1)] sse2.match_only [OF len(1)] sse2.has_empty [OF len(1)] sse2.trailing [OF len(1)]
    sse2.leading [OF len(1)] sse2.first_free_None [OF len(1)] sse2.first_free_Some [OF len(1)] sse2.free_run [OF len(1)] sse2.convert [OF len(1)]
  show "i \<in> set (gr_match ssse3_group h g)" if "is_full h" "i < gr_width ssse3_group" "g ! i = h"
    using that laws(1) unfolding same w by blast
  show "i < gr_width ssse3_group \<and> is_full (g ! i)" if "is_full h" "i \<in> set (gr_match ssse3_group h g)"
    using that laws(2) unfolding same w by blast
  assume valid: "list_all valid_ctrl g"
  note laws = laws(3-) [OF valid]
  show "gr_has_empty ssse3_group g = (kEmpty \<in> set g)" unfolding same by (rule laws(1))
  show "gr_empty_trailing ssse3_group g < gr_width ssse3_group \<and> g ! gr_empty_trailing ssse3_group g = kEmpty" if "kEmpty \<in> set g"
    unfolding same w using that by (rule laws(2))
  show "gr_empty_leading ssse3_group g < gr_width ssse3_group \<and> g ! (gr_width ssse3_group - 1 - gr_empty_leading ssse3_group g) = kEmpty \<and>
      (\<forall>i. gr_width ssse3_group - 1 - gr_empty_leading ssse3_group g < i \<and> i < gr_width ssse3_group \<longrightarrow> g ! i \<noteq> kEmpty)" if "kEmpty \<in> set g"
    unfolding same w using that by (rule laws(3))
  show "(gr_first_free ssse3_group g = None) = (\<not> (\<exists>c \<in> set g. is_free c))" unfolding same by (rule laws(4))
  show "i < gr_width ssse3_group \<and> is_free (g ! i) \<and> (\<forall>j < i. \<not> is_free (g ! j))" if "gr_first_free ssse3_group g = Some i"
    using that unfolding same w by (rule laws(5))
  show "gr_count_leading ssse3_group g \<le> gr_width ssse3_group \<and> (\<forall>j < gr_count_leading ssse3_group g. is_free (g ! j)) \<and>
      (gr_count_leading ssse3_group g < gr_width ssse3_group \<longrightarrow> \<not> is_free (g ! gr_count_leading ssse3_group g))"
    unfolding same w by (rule laws(6))
  show "gr_convert ssse3_group g = map (\<lambda>c. if is_full c then kDeleted else kEmpty) g" unfolding same by (rule laws(7))
qed

text \<open>The portable group reads its eight bytes as one word.\<close>

lemma bit_load64: "length g = 8 \<Longrightarrow> bit (load64 g) b \<longleftrightarrow> b < 64 \<and> bit (g ! (b div 8)) (b mod 8)"
  by (auto simp: load64_def bit_le_word)

lemma le_word_Cons: "(le_word (b # bs) :: 'a::len word) = ucast b + 256 * le_word bs"
proof -
  have "\<not> bit (ucast b AND push_bit 8 (le_word bs) :: 'a word) i" for i
    using bit_imp_le_length [of b i] by (auto simp: bit_and_iff bit_ucast_iff bit_push_bit_iff)
  then have "ucast b AND push_bit 8 (le_word bs) = (0 :: 'a word)" using nonzero_bit by blast
  with word_plus_and_or [of "ucast b" "push_bit 8 (le_word bs) :: 'a word"]
  have "ucast b OR push_bit 8 (le_word bs) = ucast b + push_bit 8 (le_word bs :: 'a word)" by (simp only: add_0)
  then show ?thesis by (simp add: push_bit_eq_mult mult.commute)
qed

lemma replicate8: "replicate 8 h = [h, h, h, h, h, h, h, h]"
  by (simp add: numeral_eq_Suc)

lemma lsbs_times: "lsbs * ucast h = le_word (replicate 8 h)"
proof -
  have "le_word (replicate 8 h) = (ucast h + 256 * (ucast h + 256 * (ucast h + 256 * (ucast h + 256 *
      (ucast h + 256 * (ucast h + 256 * (ucast h + 256 * (ucast h + 256 * 0))))))) :: u64)"
    unfolding replicate8 le_word_Cons by (simp only: le_word.simps)
  also have "\<dots> = lsbs * ucast h" by (simp add: lsbs_def distrib_left)
  finally show ?thesis by simp
qed

lemma bit_lsbs_times: "bit (lsbs * ucast h) b \<longleftrightarrow> b < 64 \<and> bit h (b mod 8)" for h :: byte
  unfolding lsbs_times bit_le_word by (auto simp: nth_replicate)

lemma bit_msbs: "bit msbs b \<longleftrightarrow> b < 64 \<and> b mod 8 = 7"
proof -
  have "msbs = lsbs * ucast (0x80 :: byte)" by (simp add: msbs_def lsbs_def)
  moreover have "bit (push_bit 7 (1 :: byte)) k \<longleftrightarrow> k = 7" for k
    by (auto simp: bit_push_bit_iff bit_1_iff simp del: push_bit_of_1 push_bit_numeral)
  moreover have "push_bit 7 (1 :: byte) = 0x80" by simp
  ultimately show ?thesis by (metis bit_lsbs_times)
qed

text \<open>The highest bit of byte \<open>i\<close>, and the bits below it.\<close>

lemma high_bit_cases:
  assumes "b mod 8 = 7 \<and> b div 8 < (8 :: nat)"
  obtains i where "b = 8 * i + 7" "i < 8" "(b - 6) div 8 = i" "(b - 6) mod 8 = 1" "(b - 7) div 8 = i" "(b - 7) mod 8 = 0" "b div 8 = i" "b < 64"
proof (rule that [of "b div 8"])
  show b: "b = 8 * (b div 8) + 7" using assms mult_div_mod_eq [of 8 b] by simp
  have e: "b - 6 = b div 8 * 8 + 1" "b - 7 = b div 8 * 8" using b by linarith+
  show "(b - 6) mod 8 = 1" unfolding e(1) by (subst mod_mult_self3) simp
  show "(b - 6) div 8 = b div 8" "(b - 7) div 8 = b div 8" "(b - 7) mod 8 = 0" unfolding e by simp_all
  show "b div 8 < 8" "b div 8 = b div 8" "b < 64" using assms by auto
qed

lemma mod8_last: "Suc b mod 8 = 0 \<longleftrightarrow> b mod 8 = 7"
  by presburger

lemma portable_empty_marks:
  assumes "length g = 8" and "list_all valid_ctrl g"
  shows "marks 3 8 (\<lambda>i. g ! i = kEmpty) (portable_match_empty g)"
proof -
  have byte: "c = kEmpty \<longleftrightarrow> bit c 7 \<and> \<not> bit c 1" if "valid_ctrl c" for c
    using that by (auto simp: is_full_bit valid_ctrl_def kEmpty_def kDeleted_def kSentinel_def)
  have "bit (portable_match_empty g) b \<longleftrightarrow> b mod 8 = 7 \<and> b div 8 < 8 \<and> g ! (b div 8) = kEmpty" for b
  proof (cases "b mod 8 = 7 \<and> b div 8 < 8")
    case True
    then obtain i where i: "b = 8 * i + 7" "i < 8" "(b - 6) div 8 = i" "(b - 6) mod 8 = 1" "b div 8 = i" "b < 64" using high_bit_cases by metis
    then show ?thesis using assms True byte [of "g ! i"]
      by (simp del: One_nat_def add: portable_match_empty_def Let_def bit_and_iff bit_push_bit_iff bit_not_iff bit_load64 bit_msbs list_all_length)
  next
    case False
    then show ?thesis by (auto simp: portable_match_empty_def Let_def bit_and_iff bit_msbs)
  qed
  then show ?thesis by (simp add: marks_def mod8_last)
qed

lemma portable_free_marks:
  assumes "length g = 8" and "list_all valid_ctrl g"
  shows "marks 3 8 (\<lambda>i. is_free (g ! i)) (portable_match_empty_or_deleted g)"
proof -
  have byte: "is_free c \<longleftrightarrow> bit c 7 \<and> \<not> bit c 0" if "valid_ctrl c" for c
    using that by (auto simp: is_full_bit valid_ctrl_def is_free_def kEmpty_def kDeleted_def kSentinel_def)
  have "bit (portable_match_empty_or_deleted g) b \<longleftrightarrow> b mod 8 = 7 \<and> b div 8 < 8 \<and> is_free (g ! (b div 8))" for b
  proof (cases "b mod 8 = 7 \<and> b div 8 < 8")
    case True
    then obtain i where i: "b = 8 * i + 7" "i < 8" "(b - 7) div 8 = i" "(b - 7) mod 8 = 0" "b div 8 = i" "b < 64" using high_bit_cases by metis
    then show ?thesis using assms True byte [of "g ! i"]
      by (simp add: portable_match_empty_or_deleted_def Let_def bit_and_iff bit_push_bit_iff bit_not_iff bit_load64 bit_msbs list_all_length)
  next
    case False
    then show ?thesis by (auto simp: portable_match_empty_or_deleted_def Let_def bit_and_iff bit_msbs)
  qed
  then show ?thesis by (simp add: marks_def mod8_last)
qed

text \<open>
  The borrow of the subtraction may mark a byte that does not match, but a byte that matches is always marked, and only
  bytes below 128 are.
\<close>

lemma sub_borrow:
  fixes A B :: int
  assumes "0 < d" and "A div d mod 256 = 0" and "B div d mod 256 = 1"
  shows "odd ((A - B) div (d * 128))"
proof -
  have cases: "(A - B) div d = A div d - B div d \<or> (A - B) div d = A div d - B div d - 1"
  proof -
    have "A = d * (A div d) + A mod d" "B = d * (B div d) + B mod d" by simp_all
    then have *: "A - B = d * (A div d - B div d) + (A mod d - B mod d)" by (simp add: algebra_simps)
    have r: "0 \<le> A mod d" "A mod d < d" "0 \<le> B mod d" "B mod d < d" using assms(1) by simp_all
    have "(A - B) div d = A div d - B div d + (A mod d - B mod d) div d" unfolding * using assms(1) by simp
    moreover have "(A mod d - B mod d) div d = 0 \<or> (A mod d - B mod d) div d = - 1"
    proof (cases "B mod d \<le> A mod d")
      case True
      then have "(A mod d - B mod d) div d = 0" by (intro div_pos_pos_trivial) (use r in linarith)+
      then show ?thesis ..
    next
      case False
      then have "(A mod d - B mod d) div d = - 1"
        by (intro int_div_pos_eq [where r = "A mod d - B mod d + d"]) (use r False in linarith)+
      then show ?thesis ..
    qed
    ultimately show ?thesis by auto
  qed
  obtain m where m: "A div d = 256 * m" using assms(2) by (metis dvdE mod_0_imp_dvd)
  obtain n where n: "B div d = 256 * n + 1" using assms(3) mult_div_mod_eq [of 256 "B div d"] by metis
  have "(256 * m - (256 * n + 1)) div 128 = 2 * (m - n) - 1" by (rule int_div_pos_eq [where r = 127]) simp_all
  moreover have "(256 * m - (256 * n + 1) - 1) div 128 = 2 * (m - n) - 1" by (rule int_div_pos_eq [where r = 126]) simp_all
  ultimately have "(A - B) div d div 128 = 2 * (m - n) - 1" using cases unfolding m n by (elim disjE) (simp_all only:)
  moreover have "(A - B) div (d * 128) = (A - B) div d div 128" using assms(1) by (simp add: zdiv_zmult2_eq)
  ultimately show ?thesis by simp
qed

lemma bit_uint_diff: "bit (x - y) n \<longleftrightarrow> n < LENGTH('a) \<and> odd ((uint x - uint y) div 2 ^ n)" for x y :: "'a::len word"
proof -
  have "x - y = word_of_int (uint x - uint y)" by simp
  then show ?thesis by (simp only: bit_word_of_int_iff bit_iff_odd [of "uint x - uint y"])
qed

lemma portable_hit:
  assumes "length g = 8" and "is_full h" and "i < 8" and "g ! i = h"
  shows "bit (portable_match h g) (8 * i + 7)"
proof -
  let ?x = "load64 g XOR (lsbs * ucast h)"
  have x: "\<not> bit ?x (8 * i + j)" if "j < 8" for j
  proof -
    have "(8 * i + j) div 8 = i" "(8 * i + j) mod 8 = j" "8 * i + j < 64" using that assms(3) by simp_all
    then show ?thesis using assms by (simp add: bit_xor_iff bit_load64 bit_lsbs_times)
  qed
  have "uint ?x div 2 ^ (8 * i) mod 256 = 0"
  proof -
    have "take_bit 8 (drop_bit (8 * i) (uint ?x)) = 0"
      using x by (intro bit_eqI) (auto simp: bit_take_bit_iff bit_drop_bit_eq bit_uint_iff)
    then show ?thesis by (simp add: take_bit_eq_mod drop_bit_eq_div)
  qed
  moreover have "uint lsbs div 2 ^ (8 * i) mod 256 = 1"
  proof -
    have "list_all (\<lambda>i. uint lsbs div 2 ^ (8 * i) mod 256 = 1) [0..<8]" by (simp add: lsbs_def upt_conv_Cons del: upt_Suc)
    then show ?thesis using assms(3) by (rule list_all_upt)
  qed
  ultimately have "odd ((uint ?x - uint lsbs) div (2 ^ (8 * i) * 128))" by (intro sub_borrow) simp_all
  then have "bit (?x - lsbs) (8 * i + 7)" using assms(3) by (simp add: bit_uint_diff power_add)
  moreover have "\<not> bit ?x (8 * i + 7)" by (rule x) simp
  ultimately show ?thesis using assms(3) by (simp add: portable_match_def Let_def bit_and_iff bit_not_iff bit_msbs)
qed

lemma portable_only:
  assumes "length g = 8" and "is_full h" and "bit (portable_match h g) b"
  shows "b div 8 < 8 \<and> is_full (g ! (b div 8))"
proof -
  have b: "b < 64" "b mod 8 = 7" "\<not> bit (load64 g XOR (lsbs * ucast h)) b"
    using assms(3) by (auto simp: portable_match_def Let_def bit_and_iff bit_not_iff bit_msbs)
  then show ?thesis using assms(1,2) by (auto simp: bit_xor_iff bit_load64 bit_lsbs_times is_full_bit)
qed

lemma word_bytes_le: "length bs = n \<Longrightarrow> 8 * n \<le> LENGTH('a) \<Longrightarrow> word_bytes n (le_word bs :: 'a::len word) = bs"
proof (rule nth_equalityI)
  fix i assume n: "length bs = n" "8 * n \<le> LENGTH('a)" and "i < length (word_bytes n (le_word bs :: 'a word))"
  then have i: "i < n" by simp
  show "word_bytes n (le_word bs :: 'a word) ! i = bs ! i"
    using n i by (intro bit_word_eqI) (auto simp: word_bytes_def bit_ucast_iff bit_drop_bit_eq bit_le_word)
qed simp

lemma wrap64: "(18446744073709551616 :: u64) = 0"
proof -
  have "(18446744073709551616 :: u64) = 2 ^ LENGTH(64)" by simp
  also have "\<dots> = 0" by (rule word_exp_length_eq_0)
  finally show ?thesis .
qed

lemma portable_convert_ok:
  assumes "length g = 8"
  shows "portable_convert g = map (\<lambda>c. if is_full c then kDeleted else kEmpty) g"
proof -
  let ?f = "\<lambda>c :: byte. if is_full c then kDeleted else kEmpty" and ?v = "\<lambda>c :: byte. if is_full c then 0 else 1 :: byte"
    and ?r = "\<lambda>c :: byte. if is_full c then 0xFF else 0x80 :: byte"
  let ?x = "load64 g AND msbs" and ?u = "le_word (map ?v g) :: u64"
  have u: "drop_bit 7 ?x = ?u"
  proof (rule bit_word_eqI)
    fix n assume n: "n < LENGTH(64)"
    have "bit (?v c) k \<longleftrightarrow> k = 0 \<and> bit c 7" for c k by (auto simp: is_full_bit bit_1_iff)
    moreover have "(7 + n) mod 8 = 7 \<longleftrightarrow> n mod 8 = 0" by presburger
    moreover have "(7 + n) div 8 = n div 8 \<and> 7 + n < 64" if "n mod 8 = 0"
    proof -
      have "n = 8 * (n div 8)" using that by presburger
      then obtain j where j: "n = j * 8" by (metis mult.commute)
      have "(7 + j * 8) div 8 = j" by (subst div_mult_self1) simp_all
      then show ?thesis using n j by simp
    qed
    ultimately show "bit (drop_bit 7 ?x) n = bit ?u n"
      using assms n by (auto simp: bit_drop_bit_eq bit_and_iff bit_load64 bit_msbs bit_le_word)
  qed
  have x: "?x = 128 * ?u"
  proof -
    have "?x = push_bit 7 (drop_bit 7 ?x)"
      by (intro bit_word_eqI) (auto simp: bit_push_bit_iff bit_drop_bit_eq bit_and_iff bit_msbs)
    then have "?x = push_bit 7 ?u" unfolding u .
    then show ?thesis by (simp only: push_bit_eq_mult) simp
  qed
  have "NOT ?x + ?u = - 1 - 127 * ?u" unfolding x by (simp add: not_eq_complement)
  also have "\<dots> = le_word (map ?r g)"
  proof -
    obtain a b c d e f k l where g: "g = [a, b, c, d, e, f, k, l]" using assms by (auto simp: numeral_eq_Suc length_Suc_conv)
    have r: "ucast (?r c) = 255 - 127 * (ucast (?v c) :: u64)" for c by simp
    show ?thesis unfolding g list.map le_word_Cons r by (simp add: algebra_simps wrap64 del: iszero_word_no)
  qed
  finally have sum: "NOT ?x + ?u = le_word (map ?r g)" .
  have "le_word (map ?r g) AND NOT lsbs = (le_word (map ?f g) :: u64)"
  proof (rule bit_word_eqI)
    fix n assume n: "n < LENGTH(64)"
    have l: "bit lsbs n \<longleftrightarrow> n < 64 \<and> n mod 8 = 0" using bit_lsbs_times [of 1 n] by (simp add: bit_1_iff)
    have "bit (?f c) j \<longleftrightarrow> bit (?r c) j \<and> j \<noteq> 0" if "j < 8" for c j
    proof -
      have "j = 0 \<or> j = 1 \<or> j = 2 \<or> j = 3 \<or> j = 4 \<or> j = 5 \<or> j = 6 \<or> j = 7" using that by linarith
      then show ?thesis by (auto simp: kDeleted_def kEmpty_def)
    qed
    then show "bit (le_word (map ?r g) AND NOT lsbs) n = bit (le_word (map ?f g) :: u64) n"
      using assms n by (auto simp: bit_and_iff bit_not_iff l bit_le_word)
  qed
  then show ?thesis using sum u assms by (simp add: portable_convert_def Let_def store64_def word_bytes_le)
qed

lemma portable_count_leading_ok:
  assumes "length g = 8" and "list_all valid_ctrl g"
  shows "portable_count_leading g = free_prefix g"
proof -
  let ?gaps = "0x00FEFEFEFEFEFEFE :: u64"
  let ?m = "(NOT (load64 g) AND drop_bit 7 (load64 g)) OR ?gaps"
  have "list_all (\<lambda>b. bit ?gaps b \<longleftrightarrow> b < 56 \<and> b mod 8 \<noteq> 0) [0..<64]" by (simp add: upt_conv_Cons del: upt_Suc)
  then have gaps: "bit ?gaps b \<longleftrightarrow> b < 56 \<and> b mod 8 \<noteq> 0" if "b < 64" for b using that by (rule list_all_upt)
  have byte: "is_free c \<longleftrightarrow> bit c 7 \<and> \<not> bit c 0" if "valid_ctrl c" for c
    using that by (auto simp: is_full_bit valid_ctrl_def is_free_def kEmpty_def kDeleted_def kSentinel_def)
  have low: "bit ?m (8 * i) \<longleftrightarrow> is_free (g ! i)" if "i < 8" for i
  proof -
    have "(7 + 8 * i) div 8 = i" "(7 + 8 * i) mod 8 = 7" "7 + 8 * i < 64" using that by simp_all
    then show ?thesis using that assms gaps [of "8 * i"] byte [of "g ! i"]
      by (auto simp: bit_or_iff bit_and_iff bit_not_iff bit_drop_bit_eq bit_load64 list_all_length)
  qed
  have rest: "bit ?m b" if "b < 56" "b mod 8 \<noteq> 0" for b using that gaps [of b] by (simp add: bit_or_iff)
  have split: "b = 8 * (b div 8)" if "b mod 8 = 0" for b :: nat using that by presburger
  note p = free_prefix [where g = g]
  have "ctz (?m + 1) = (if free_prefix g < 8 then 8 * free_prefix g else 57)"
  proof (cases "free_prefix g < 8")
    case True
    have "bit ?m b" if "b < 8 * free_prefix g" for b
    proof (cases "b mod 8 = 0")
      case mod: True
      then have "b = 8 * (b div 8)" by (rule split)
      moreover have "b div 8 < free_prefix g" using that by (simp add: less_mult_imp_div_less mult.commute)
      ultimately show ?thesis using low [of "b div 8"] p(2) [of "b div 8"] True by simp
    next
      case False
      moreover have "b < 56" using that True by simp
      ultimately show ?thesis by (rule rest [rotated])
    qed
    moreover have "\<not> bit ?m (8 * free_prefix g)" using low [OF True] p(3) True assms(1) by simp
    ultimately have "ctz (?m + 1) = 8 * free_prefix g" using True by (intro ctz_succ) simp_all
    then show ?thesis using True by simp
  next
    case False
    have "bit ?m b" if "b < 57" for b
    proof (cases "b mod 8 = 0")
      case mod: True
      then have "b = 8 * (b div 8)" by (rule split)
      moreover have "b div 8 < 8" using that by (simp add: less_mult_imp_div_less)
      ultimately show ?thesis using low [of "b div 8"] p(2) [of "b div 8"] False by simp
    next
      case nz: False
      then have "b \<noteq> 56" by (intro notI) simp
      then have "b < 56" using that by simp
      then show ?thesis using nz by (rule rest)
    qed
    moreover have "\<not> bit ?m 57" using gaps [of 57] assms(1) by (simp add: bit_or_iff bit_and_iff bit_drop_bit_eq bit_load64)
    ultimately have "ctz (?m + 1) = 57" by (intro ctz_succ) simp_all
    then show ?thesis using False by simp
  qed
  then show ?thesis using p(1) assms(1)
    by (auto simp: portable_count_leading_def Let_def count_trailing_zeros64_def)
qed

interpretation portable: hash_group portable_group
proof
  fix g :: "byte list" and h :: byte and i :: nat
  show "gr_width portable_group = 8 \<or> gr_width portable_group = 16" by (simp add: portable_group_def)
  assume "length g = gr_width portable_group"
  then have len: "length g = 8" by (simp add: portable_group_def)
  show "i \<in> set (gr_match portable_group h g)" if h: "is_full h" "i < gr_width portable_group" "g ! i = h"
  proof -
    have "bit (portable_match h g) (8 * i + 7)" using portable_hit [OF len h(1) _ h(3)] h(2) by (simp add: portable_group_def)
    then have "(8 * i + 7) div 8 \<in> set (bm_iter 3 (portable_match h g))" unfolding bm_iter_set by force
    then show ?thesis by (simp add: portable_group_def)
  qed
  show "i < gr_width portable_group \<and> is_full (g ! i)" if "is_full h" "i \<in> set (gr_match portable_group h g)"
    using that portable_only [OF len] by (auto simp: portable_group_def bm_iter_set)
  assume valid: "list_all valid_ctrl g"
  note empty = portable_empty_marks [OF len valid]
  have mem: "kEmpty \<in> set g \<longleftrightarrow> (\<exists>i < 8. g ! i = kEmpty)" using len by (auto simp: in_set_conv_nth)
  have nz: "portable_match_empty g \<noteq> 0 \<longleftrightarrow> kEmpty \<in> set g" using marks_nonzero [OF empty] mem by simp
  then show "gr_has_empty portable_group g = (kEmpty \<in> set g)" by (simp add: portable_group_def)
  show "gr_empty_trailing portable_group g < gr_width portable_group \<and> g ! gr_empty_trailing portable_group g = kEmpty" if "kEmpty \<in> set g"
    using marks_lowest [OF empty] that nz by (simp add: portable_group_def bm_trailing_zeros_def)
  show "gr_empty_leading portable_group g < gr_width portable_group \<and> g ! (gr_width portable_group - 1 - gr_empty_leading portable_group g) = kEmpty \<and>
      (\<forall>i. gr_width portable_group - 1 - gr_empty_leading portable_group g < i \<and> i < gr_width portable_group \<longrightarrow> g ! i \<noteq> kEmpty)" if "kEmpty \<in> set g"
    using marks_leading [OF empty] that nz by (simp add: portable_group_def)
  note free = portable_free_marks [OF len valid]
  have ex: "(\<exists>c \<in> set g. is_free c) \<longleftrightarrow> (\<exists>i < 8. is_free (g ! i))" using len by (force simp: in_set_conv_nth)
  show "(gr_first_free portable_group g = None) = (\<not> (\<exists>c \<in> set g. is_free c))"
    using marks_nonzero [OF free] ex by (auto simp: portable_group_def Let_def)
  show "i < gr_width portable_group \<and> is_free (g ! i) \<and> (\<forall>j < i. \<not> is_free (g ! j))" if "gr_first_free portable_group g = Some i"
    using marks_lowest [OF free] that by (auto simp: portable_group_def Let_def bm_lowest_def split: if_splits)
  show "gr_convert portable_group g = map (\<lambda>c. if is_full c then kDeleted else kEmpty) g"
    using portable_convert_ok [OF len] by (simp add: portable_group_def)
  show "gr_count_leading portable_group g \<le> gr_width portable_group \<and> (\<forall>j < gr_count_leading portable_group g. is_free (g ! j)) \<and>
      (gr_count_leading portable_group g < gr_width portable_group \<longrightarrow> \<not> is_free (g ! gr_count_leading portable_group g))"
    using free_prefix [where g = g] portable_count_leading_ok [OF len valid] len by (simp add: portable_group_def)
qed

end
