(* ===== verification/RawHashSet.thy ===== *)
theory RawHashSet
  imports CtrlGroup CacheItems "HOL-Library.Signed_Division"
begin

text \<open>
  The class \<^verbatim>\<open>raw_hash_set\<close> of \<^verbatim>\<open>src/utils/phmap/phmap.h\<close>, the open-addressing table behind the flat hash maps: control
  bytes and slots, probing by groups, insertion, erasure, growth and the removal of tombstones. The bytes of a
  key are hashed by a parameter (\<^verbatim>\<open>std::hash\<close>), and allocations succeed. A slot that is read unconstructed, constructed
  twice or out of range is undefined behaviour, and a probe that never ends does not return.
\<close>

section \<open>Mixing the hash\<close>

text \<open>The mix of the build, which does not define \<^verbatim>\<open>ENABLE_PHMAP_MIX\<close>, and the two others.\<close>

definition phmap_mix8 :: "u64 \<Rightarrow> u64" where
  "phmap_mix8 a = a"

definition umul128 :: "u64 \<Rightarrow> u64 \<Rightarrow> u64 \<times> u64" where
  "umul128 a b = (let r = unat a * unat b in (of_nat r, of_nat (r div 2 ^ 64)))"

definition phmap_mix8_umul :: "u64 \<Rightarrow> u64" where
  "phmap_mix8_umul a = (let k = 0xde5fb9d2630458e9; (l, h) = umul128 a k in h + l)"

definition phmap_mix8_shift :: "u64 \<Rightarrow> u64" where
  "phmap_mix8_shift a =
     (let a = NOT a + push_bit 21 a;
          a = a XOR drop_bit 24 a;
          a = (a + push_bit 3 a) + push_bit 8 a;
          a = a XOR drop_bit 14 a;
          a = (a + push_bit 2 a) + push_bit 4 a;
          a = a XOR drop_bit 28 a
      in a + push_bit 31 a)"

record 'k hash_env =
  he_group :: group_ops
  he_hash :: "'k \<Rightarrow> u64"
  he_mix :: "u64 \<Rightarrow> u64"
  he_garbage :: byte

abbreviation group_width :: "'k hash_env \<Rightarrow> nat" where
  "group_width E \<equiv> gr_width (he_group E)"

text \<open>\<^verbatim>\<open>HashElement\<close>\<close>

definition element_hash :: "'k hash_env \<Rightarrow> 'k \<Rightarrow> u64" where
  "element_hash E key = he_mix E (he_hash E key)"

section \<open>Probe sequences\<close>

record probe_seq =
  pb_mask :: nat
  pb_offset :: nat
  pb_index :: nat

definition probe_seq_new :: "u64 \<Rightarrow> nat \<Rightarrow> probe_seq" where
  "probe_seq_new hashval m = \<lparr>pb_mask = m, pb_offset = unat hashval AND m, pb_index = 0\<rparr>"

definition probe_offset :: "probe_seq \<Rightarrow> nat \<Rightarrow> nat" where
  "probe_offset p i = to_u64 (pb_offset p + i) AND pb_mask p"

definition probe_next :: "nat \<Rightarrow> probe_seq \<Rightarrow> probe_seq" where
  "probe_next w p =
     (let index = to_u64 (pb_index p + w)
      in p\<lparr>pb_index := index, pb_offset := to_u64 (pb_offset p + index) AND pb_mask p\<rparr>)"

section \<open>The table\<close>

record ('k, 'v) raw_set =
  rs_ctrl :: "byte list"
  rs_slots :: "('k \<times> 'v) option list"
  rs_size :: nat
  rs_capacity :: nat
  rs_growth_left :: nat

definition raw_set_new :: "('k, 'v) raw_set" where
  "raw_set_new = \<lparr>rs_ctrl = empty_group, rs_slots = [], rs_size = 0, rs_capacity = 0, rs_growth_left = 0\<rparr>"

definition is_valid_capacity :: "nat \<Rightarrow> bool" where
  "is_valid_capacity n \<longleftrightarrow> to_u64 (n + 1) AND n = 0 \<and> 0 < n"

definition normalize_capacity :: "nat \<Rightarrow> nat" where
  "normalize_capacity n = (if n \<noteq> 0 then unat (drop_bit (count_leading_zeros64 (of_nat n)) (- 1 :: u64)) else 1)"

definition capacity_to_growth :: "'k hash_env \<Rightarrow> nat \<Rightarrow> nat" where
  "capacity_to_growth E capacity = (if group_width E = 8 \<and> capacity = 7 then 6 else capacity - capacity div 8)"

definition growth_to_lowerbound_capacity :: "'k hash_env \<Rightarrow> nat \<Rightarrow> nat" where
  "growth_to_lowerbound_capacity E growth =
     (if group_width E = 8 \<and> growth = 7 then 8
      else nat ((int growth + (sint (of_nat growth :: u64) - 1) sdiv 7) mod 2 ^ 64))"

text \<open>The group at an offset, and the element of a slot.\<close>

definition group_at :: "'k hash_env \<Rightarrow> nat \<Rightarrow> ('k, 'v) raw_set \<Rightarrow> byte list option" where
  "group_at E pos t = (if pos + group_width E \<le> length (rs_ctrl t) then Some (take (group_width E) (drop pos (rs_ctrl t))) else None)"

definition slot_at :: "nat \<Rightarrow> ('k, 'v) raw_set \<Rightarrow> ('k \<times> 'v) option" where
  "slot_at i t = do { s \<leftarrow> nth_opt (rs_slots t) i; s }"

definition construct :: "nat \<Rightarrow> 'k \<times> 'v \<Rightarrow> ('k, 'v) raw_set \<Rightarrow> ('k, 'v) raw_set option" where
  "construct i kv t = do { s \<leftarrow> nth_opt (rs_slots t) i; guard (s = None); Some (t\<lparr>rs_slots := (rs_slots t)[i := Some kv]\<rparr>) }"

definition destroy :: "nat \<Rightarrow> ('k, 'v) raw_set \<Rightarrow> ('k, 'v) raw_set option" where
  "destroy i t = do { kv \<leftarrow> slot_at i t; Some (t\<lparr>rs_slots := (rs_slots t)[i := None]\<rparr>) }"

definition assign :: "nat \<Rightarrow> ('v \<Rightarrow> 'v) \<Rightarrow> ('k, 'v) raw_set \<Rightarrow> ('k, 'v) raw_set option" where
  "assign i f t = do { (k, v) \<leftarrow> slot_at i t; Some (t\<lparr>rs_slots := (rs_slots t)[i := Some (k, f v)]\<rparr>) }"

text \<open>\<^verbatim>\<open>PolicyTraits::transfer\<close>\<close>

definition transfer :: "nat \<Rightarrow> nat \<Rightarrow> ('k, 'v) raw_set \<Rightarrow> ('k, 'v) raw_set option" where
  "transfer new_i old_i t = do { kv \<leftarrow> slot_at old_i t; t \<leftarrow> construct new_i kv t; destroy old_i t }"

definition probe :: "'k hash_env \<Rightarrow> u64 \<Rightarrow> ('k, 'v) raw_set \<Rightarrow> probe_seq" where
  "probe E hashval t = probe_seq_new (hash_h1 hashval) (rs_capacity t)"

definition is_small :: "'k hash_env \<Rightarrow> ('k, 'v) raw_set \<Rightarrow> bool" where
  "is_small E t \<longleftrightarrow> rs_capacity t < group_width E - 1"

definition reset_ctrl :: "'k hash_env \<Rightarrow> ('k, 'v) raw_set \<Rightarrow> ('k, 'v) raw_set" where
  "reset_ctrl E t =
     t\<lparr>rs_ctrl := (replicate (rs_capacity t + group_width E) kEmpty @ drop (rs_capacity t + group_width E) (rs_ctrl t))
         [rs_capacity t := kSentinel]\<rparr>"

definition reset_growth_left :: "'k hash_env \<Rightarrow> ('k, 'v) raw_set \<Rightarrow> ('k, 'v) raw_set" where
  "reset_growth_left E t = t\<lparr>rs_growth_left := sub64 (capacity_to_growth E (rs_capacity t)) (rs_size t)\<rparr>"

text \<open>The control byte and its copy behind the sentinel.\<close>

definition set_ctrl :: "'k hash_env \<Rightarrow> nat \<Rightarrow> byte \<Rightarrow> ('k, 'v) raw_set \<Rightarrow> ('k, 'v) raw_set option" where
  "set_ctrl E i h t =
     (let copy = (sub64 i (group_width E) AND rs_capacity t) + 1 + ((group_width E - 1) AND rs_capacity t)
      in if i < rs_capacity t \<and> copy < length (rs_ctrl t) then Some (t\<lparr>rs_ctrl := (rs_ctrl t)[i := h, copy := h]\<rparr>) else None)"

section \<open>Finding\<close>

text \<open>The candidates of one group.\<close>

fun find_match :: "'k \<Rightarrow> probe_seq \<Rightarrow> nat list \<Rightarrow> ('k, 'v) raw_set \<Rightarrow> nat option option" where
  "find_match key p [] t = Some None"
| "find_match key p (i # is) t =
     (let offset = probe_offset p i
      in do { (k, v) \<leftarrow> slot_at offset t; if k = key then Some (Some offset) else find_match key p is t })"

partial_function (option) find_loop ::
    "'k hash_env \<Rightarrow> 'k \<Rightarrow> byte \<Rightarrow> ('k, 'v) raw_set \<Rightarrow> probe_seq \<Rightarrow> nat option option" where
  "find_loop E key h2 t p =
     do { g \<leftarrow> group_at E (pb_offset p) t;
          hit \<leftarrow> find_match key p (gr_match (he_group E) h2 g) t;
          (case hit of
             Some i \<Rightarrow> Some (Some i)
           | None \<Rightarrow> if gr_has_empty (he_group E) g then Some None else find_loop E key h2 t (probe_next (group_width E) p)) }"

definition find_impl :: "'k hash_env \<Rightarrow> 'k \<Rightarrow> u64 \<Rightarrow> ('k, 'v) raw_set \<Rightarrow> nat option option" where
  "find_impl E key hashval t = find_loop E key (hash_h2 hashval) t (probe E hashval t)"

text \<open>The first empty or deleted slot, and the length of the probe.\<close>

partial_function (option) first_free_loop :: "'k hash_env \<Rightarrow> ('k, 'v) raw_set \<Rightarrow> probe_seq \<Rightarrow> (nat \<times> nat) option" where
  "first_free_loop E t p =
     do { g \<leftarrow> group_at E (pb_offset p) t;
          (case gr_first_free (he_group E) g of
             Some i \<Rightarrow> Some (probe_offset p i, pb_index p)
           | None \<Rightarrow> first_free_loop E t (probe_next (group_width E) p)) }"

definition find_first_non_full :: "'k hash_env \<Rightarrow> u64 \<Rightarrow> ('k, 'v) raw_set \<Rightarrow> (nat \<times> nat) option" where
  "find_first_non_full E hashval t = first_free_loop E t (probe E hashval t)"

section \<open>Growing\<close>

definition initialize_slots :: "'k hash_env \<Rightarrow> ('k, 'v) raw_set \<Rightarrow> ('k, 'v) raw_set" where
  "initialize_slots E t =
     reset_growth_left E (reset_ctrl E (t\<lparr>rs_ctrl := replicate (rs_capacity t + group_width E + 1) (he_garbage E),
       rs_slots := replicate (rs_capacity t) None\<rparr>))"

text \<open>The loop that destroys the elements, of \<^verbatim>\<open>destroy_slots\<close> and \<^verbatim>\<open>clear\<close>.\<close>

definition destroy_if_full :: "nat \<Rightarrow> ('k, 'v) raw_set \<Rightarrow> ('k, 'v) raw_set option" where
  "destroy_if_full i t = do { c \<leftarrow> nth_opt (rs_ctrl t) i; if is_full c then destroy i t else Some t }"

definition destroy_elements :: "('k, 'v) raw_set \<Rightarrow> ('k, 'v) raw_set option" where
  "destroy_elements t = fold_opt destroy_if_full [0..<rs_capacity t] t"

definition destroy_slots :: "('k, 'v) raw_set \<Rightarrow> ('k, 'v) raw_set option" where
  "destroy_slots t = (if rs_capacity t = 0 then Some t else do { t \<leftarrow> destroy_elements t; Some raw_set_new })"

definition move_slot :: "'k hash_env \<Rightarrow> ('k, 'v) raw_set \<Rightarrow> nat \<Rightarrow> ('k, 'v) raw_set \<Rightarrow> ('k, 'v) raw_set option" where
  "move_slot E old i t =
     do { c \<leftarrow> nth_opt (rs_ctrl old) i;
          if \<not> is_full c then Some t
          else do { (k, v) \<leftarrow> slot_at i old;
                    let hashval = element_hash E k;
                    (new_i, len) \<leftarrow> find_first_non_full E hashval t;
                    t \<leftarrow> set_ctrl E new_i (hash_h2 hashval) t;
                    construct new_i (k, v) t } }"

definition rs_resize :: "'k hash_env \<Rightarrow> nat \<Rightarrow> ('k, 'v) raw_set \<Rightarrow> ('k, 'v) raw_set option" where
  "rs_resize E new_capacity t =
     fold_opt (move_slot E t) [0..<rs_capacity t] (initialize_slots E (t\<lparr>rs_capacity := new_capacity\<rparr>))"

section \<open>Dropping the tombstones\<close>

definition store_group :: "nat \<Rightarrow> byte list \<Rightarrow> byte list \<Rightarrow> byte list" where
  "store_group pos g ctrl = take pos ctrl @ g @ drop (pos + length g) ctrl"

partial_function (option) convert_loop :: "'k hash_env \<Rightarrow> nat \<Rightarrow> nat \<Rightarrow> byte list \<Rightarrow> byte list option" where
  "convert_loop E capacity pos ctrl =
     (if pos = capacity + 1 then Some ctrl
      else if pos + group_width E \<le> length ctrl then
        convert_loop E capacity (pos + group_width E)
          (store_group pos (gr_convert (he_group E) (take (group_width E) (drop pos ctrl))) ctrl)
      else None)"

definition convert_deleted_to_empty_and_full_to_deleted :: "'k hash_env \<Rightarrow> ('k, 'v) raw_set \<Rightarrow> ('k, 'v) raw_set option" where
  "convert_deleted_to_empty_and_full_to_deleted E t =
     do { ctrl \<leftarrow> convert_loop E (rs_capacity t) 0 (rs_ctrl t);
          Some (t\<lparr>rs_ctrl := (store_group (rs_capacity t + 1) (take (group_width E) ctrl) ctrl)[rs_capacity t := kSentinel]\<rparr>) }"

definition probe_index :: "'k hash_env \<Rightarrow> u64 \<Rightarrow> ('k, 'v) raw_set \<Rightarrow> nat \<Rightarrow> nat" where
  "probe_index E hashval t pos = (sub64 pos (pb_offset (probe E hashval t)) AND rs_capacity t) div group_width E"

partial_function (option) drop_loop :: "'k hash_env \<Rightarrow> nat \<Rightarrow> ('k, 'v) raw_set \<Rightarrow> ('k, 'v) raw_set option" where
  "drop_loop E i t =
     (if i = rs_capacity t then Some t
      else do { c \<leftarrow> nth_opt (rs_ctrl t) i;
        (if \<not> is_deleted c then drop_loop E (i + 1) t
         else do { (k, v) \<leftarrow> slot_at i t;
           let hashval = element_hash E k;
           (new_i, len) \<leftarrow> find_first_non_full E hashval t;
           (if probe_index E hashval t new_i = probe_index E hashval t i then
              do { t \<leftarrow> set_ctrl E i (hash_h2 hashval) t; drop_loop E (i + 1) t }
            else do { c' \<leftarrow> nth_opt (rs_ctrl t) new_i;
              (if is_empty c' then
                 do { t \<leftarrow> set_ctrl E new_i (hash_h2 hashval) t;
                      t \<leftarrow> transfer new_i i t;
                      t \<leftarrow> set_ctrl E i kEmpty t;
                      drop_loop E (i + 1) t }
               else
                 do { t \<leftarrow> set_ctrl E new_i (hash_h2 hashval) t;
                      other \<leftarrow> slot_at new_i t;
                      drop_loop E i (t\<lparr>rs_slots := (rs_slots t)[i := Some other, new_i := Some (k, v)]\<rparr>) }) }) }) })"

definition drop_deletes_without_resize :: "'k hash_env \<Rightarrow> ('k, 'v) raw_set \<Rightarrow> ('k, 'v) raw_set option" where
  "drop_deletes_without_resize E t =
     do { t \<leftarrow> convert_deleted_to_empty_and_full_to_deleted E t;
          t \<leftarrow> drop_loop E 0 t;
          Some (reset_growth_left E t) }"

definition rehash_and_grow_if_necessary :: "'k hash_env \<Rightarrow> ('k, 'v) raw_set \<Rightarrow> ('k, 'v) raw_set option" where
  "rehash_and_grow_if_necessary E t =
     (if rs_capacity t = 0 then rs_resize E 1 t
      else if rs_size t \<le> capacity_to_growth E (rs_capacity t) div 2 then drop_deletes_without_resize E t
      else rs_resize E (to_u64 (rs_capacity t * 2 + 1)) t)"

definition rehash :: "'k hash_env \<Rightarrow> nat \<Rightarrow> ('k, 'v) raw_set \<Rightarrow> ('k, 'v) raw_set option" where
  "rehash E n t =
     (if n = 0 \<and> rs_capacity t = 0 then Some t
      else if n = 0 \<and> rs_size t = 0 then destroy_slots t
      else
        (let m = normalize_capacity (max n (rs_size t))
         in if n = 0 \<or> rs_capacity t < m then rs_resize E m t else Some t))"

definition reserve :: "'k hash_env \<Rightarrow> nat \<Rightarrow> ('k, 'v) raw_set \<Rightarrow> ('k, 'v) raw_set option" where
  "reserve E n t = rehash E (growth_to_lowerbound_capacity E n) t"

section \<open>Inserting and erasing\<close>

definition prepare_insert :: "'k hash_env \<Rightarrow> u64 \<Rightarrow> ('k, 'v) raw_set \<Rightarrow> (nat \<times> ('k, 'v) raw_set) option" where
  "prepare_insert E hashval t =
     do { (target, len) \<leftarrow> find_first_non_full E hashval t;
          c \<leftarrow> nth_opt (rs_ctrl t) target;
          (target, t) \<leftarrow> (if rs_growth_left t = 0 \<and> \<not> is_deleted c then
              do { t \<leftarrow> rehash_and_grow_if_necessary E t;
                   (target, len) \<leftarrow> find_first_non_full E hashval t;
                   Some (target, t) }
            else Some (target, t));
          let t = t\<lparr>rs_size := to_u64 (rs_size t + 1)\<rparr>;
          c \<leftarrow> nth_opt (rs_ctrl t) target;
          let t = t\<lparr>rs_growth_left := sub64 (rs_growth_left t) (of_bool (is_empty c))\<rparr>;
          t \<leftarrow> set_ctrl E target (hash_h2 hashval) t;
          Some (target, t) }"

definition find_or_prepare_insert :: "'k hash_env \<Rightarrow> 'k \<Rightarrow> u64 \<Rightarrow> ('k, 'v) raw_set \<Rightarrow> (nat \<times> bool \<times> ('k, 'v) raw_set) option" where
  "find_or_prepare_insert E key hashval t =
     do { hit \<leftarrow> find_loop E key (hash_h2 hashval) t (probe E hashval t);
          (case hit of
             Some i \<Rightarrow> Some (i, False, t)
           | None \<Rightarrow> do { (i, t) \<leftarrow> prepare_insert E hashval t; Some (i, True, t) }) }"

definition erase_meta_only :: "'k hash_env \<Rightarrow> nat \<Rightarrow> ('k, 'v) raw_set \<Rightarrow> ('k, 'v) raw_set option" where
  "erase_meta_only E index t =
     (let t = t\<lparr>rs_size := sub64 (rs_size t) 1\<rparr>;
          index_before = sub64 index (group_width E) AND rs_capacity t
      in do { group_after \<leftarrow> group_at E index t;
              group_before \<leftarrow> group_at E index_before t;
              let was_never_full = (gr_has_empty (he_group E) group_before \<and> gr_has_empty (he_group E) group_after \<and>
                gr_empty_trailing (he_group E) group_after + gr_empty_leading (he_group E) group_before < group_width E);
              t \<leftarrow> set_ctrl E index (if was_never_full then kEmpty else kDeleted) t;
              Some (t\<lparr>rs_growth_left := to_u64 (rs_growth_left t + of_bool was_never_full)\<rparr>) })"

text \<open>\<^verbatim>\<open>_erase\<close>, and the erasure of a key.\<close>

definition erase_at :: "'k hash_env \<Rightarrow> nat \<Rightarrow> ('k, 'v) raw_set \<Rightarrow> ('k, 'v) raw_set option" where
  "erase_at E i t = do { t \<leftarrow> destroy i t; erase_meta_only E i t }"

definition rs_find :: "'k hash_env \<Rightarrow> 'k \<Rightarrow> ('k, 'v) raw_set \<Rightarrow> nat option option" where
  "rs_find E key t = find_impl E key (element_hash E key) t"

definition rs_erase :: "'k hash_env \<Rightarrow> 'k \<Rightarrow> ('k, 'v) raw_set \<Rightarrow> (nat \<times> ('k, 'v) raw_set) option" where
  "rs_erase E key t =
     do { hit \<leftarrow> rs_find E key t;
          (case hit of None \<Rightarrow> Some (0, t) | Some i \<Rightarrow> do { t \<leftarrow> erase_at E i t; Some (1, t) }) }"

definition rs_clear :: "'k hash_env \<Rightarrow> ('k, 'v) raw_set \<Rightarrow> ('k, 'v) raw_set option" where
  "rs_clear E t =
     (if rs_size t = 0 then Some t
      else if 127 < rs_capacity t then destroy_slots t
      else if rs_capacity t \<noteq> 0 then do { t \<leftarrow> destroy_elements t; Some (reset_growth_left E (reset_ctrl E (t\<lparr>rs_size := 0\<rparr>))) }
      else Some t)"

text \<open>\<^verbatim>\<open>emplace_decomposable\<close>, \<^verbatim>\<open>try_emplace_impl\<close>, \<^verbatim>\<open>insert_or_assign_impl\<close> and \<^verbatim>\<open>operator[]\<close> with an assignment, of a flat hash map.\<close>

definition rs_emplace :: "'k hash_env \<Rightarrow> 'k \<Rightarrow> 'v \<Rightarrow> ('k, 'v) raw_set \<Rightarrow> (bool \<times> ('k, 'v) raw_set) option" where
  "rs_emplace E key v t =
     do { (i, inserted, t) \<leftarrow> find_or_prepare_insert E key (element_hash E key) t;
          t \<leftarrow> (if inserted then construct i (key, v) t else Some t);
          Some (inserted, t) }"

definition rs_insert_or_assign :: "'k hash_env \<Rightarrow> 'k \<Rightarrow> 'v \<Rightarrow> ('k, 'v) raw_set \<Rightarrow> (bool \<times> ('k, 'v) raw_set) option" where
  "rs_insert_or_assign E key v t =
     do { (i, inserted, t) \<leftarrow> find_or_prepare_insert E key (element_hash E key) t;
          t \<leftarrow> (if inserted then construct i (key, v) t else assign i (\<lambda>old. v) t);
          Some (inserted, t) }"

definition rs_lookup :: "'k hash_env \<Rightarrow> 'k \<Rightarrow> ('k, 'v) raw_set \<Rightarrow> 'v option option" where
  "rs_lookup E key t =
     do { hit \<leftarrow> rs_find E key t;
          (case hit of None \<Rightarrow> Some None | Some i \<Rightarrow> do { (k, v) \<leftarrow> slot_at i t; Some (Some v) }) }"

end
