(* ===== verification/RawHashProbe.thy ===== *)
theory RawHashProbe
  imports RawHashSet
begin

text \<open>
  Probing (\<^verbatim>\<open>probe_seq\<close> of \<^verbatim>\<open>phmap.h\<close>): the windows of the control bytes that a probe looks at. A probe visits
  every slot of the table, and two slots with the same probe index are visited at the same time.
\<close>

section \<open>Capacities\<close>

definition valid_cap :: "nat \<Rightarrow> bool" where
  "valid_cap cap \<longleftrightarrow> (\<exists>k. 1 \<le> k \<and> k \<le> 60 \<and> cap + 1 = 2 ^ k)"

lemma valid_capE:
  assumes "valid_cap cap"
  obtains k where "1 \<le> k" "k \<le> 60" "cap + 1 = 2 ^ k"
  using assms unfolding valid_cap_def by blast

lemma valid_cap_range: "valid_cap cap \<Longrightarrow> 1 \<le> cap \<and> cap < 2 ^ 60"
proof (erule valid_capE)
  fix k :: nat assume k: "1 \<le> k" "k \<le> 60" "cap + 1 = 2 ^ k"
  have "(2 :: nat) ^ 1 \<le> 2 ^ k" "(2 :: nat) ^ k \<le> 2 ^ 60" using k by (intro power_increasing; simp)+
  then show "1 \<le> cap \<and> cap < 2 ^ 60" using k(3) by simp
qed

lemma and_cap: "valid_cap cap \<Longrightarrow> n AND cap = n mod (cap + 1)"
proof (erule valid_capE)
  fix k assume "cap + 1 = 2 ^ k"
  then have "cap = mask k" by (simp add: mask_eq_exp_minus_1)
  then show "n AND cap = n mod (cap + 1)" using \<open>cap + 1 = 2 ^ k\<close> by (simp add: take_bit_eq_mask [symmetric] take_bit_eq_mod)
qed

lemma cap_dvd_64: "valid_cap cap \<Longrightarrow> (cap + 1) dvd 2 ^ 64"
proof (erule valid_capE)
  fix k assume k: "k \<le> 60" "cap + 1 = 2 ^ k"
  show "(cap + 1) dvd 2 ^ 64" unfolding k(2) using k(1) by (intro le_imp_power_dvd) simp
qed

lemma to_u64_and_cap: "valid_cap cap \<Longrightarrow> to_u64 n AND cap = n mod (cap + 1)"
  unfolding to_u64_def by (simp only: and_cap mod_mod_cancel [OF cap_dvd_64])

lemma next_cap: "valid_cap cap \<Longrightarrow> cap < 2 ^ 59 \<Longrightarrow> valid_cap (cap * 2 + 1)"
proof (erule valid_capE)
  fix k assume k: "1 \<le> k" "k \<le> 60" "cap + 1 = 2 ^ k" and c: "cap < 2 ^ 59"
  have "(2 :: nat) ^ k \<le> 2 ^ 59" using k(3) c by simp
  then have "k \<le> 59" by (rule power_le_imp_le_exp [rotated]) simp
  then show "valid_cap (cap * 2 + 1)" unfolding valid_cap_def using k by (intro exI [of _ "k + 1"]) simp
qed

section \<open>Triangular numbers\<close>

primrec tri :: "nat \<Rightarrow> nat" where
  "tri 0 = 0"
| "tri (Suc j) = tri j + Suc j"

lemma tri_twice: "2 * tri j = j * (j + 1)"
  by (induction j) simp_all

lemma tri_diff:
  assumes "i \<le> j"
  shows "2 * (tri j - tri i) = (j - i) * (j + i + 1)" and "tri i \<le> tri j"
proof -
  have "tri i \<le> tri j" using assms by (induction j rule: dec_induct) auto
  moreover have "j * (j + 1) = i * (i + 1) + (j - i) * (j + i + 1)"
    using assms by (auto simp: le_iff_add algebra_simps)
  ultimately show "2 * (tri j - tri i) = (j - i) * (j + i + 1)" "tri i \<le> tri j"
    using tri_twice [of j] tri_twice [of i] by (simp_all add: diff_mult_distrib2)
qed

lemma tri_distinct:
  assumes "i < j" and "j < 2 ^ n"
  shows "tri i mod 2 ^ n \<noteq> tri j mod 2 ^ n"
proof
  assume "tri i mod 2 ^ n = tri j mod 2 ^ n"
  then have "(2 :: nat) ^ n dvd tri j - tri i" using tri_diff(2) [of i j] assms(1) mod_eq_dvd_iff_nat [of "tri i" "tri j" "2 ^ n"] by simp
  then have "(2 :: nat) * 2 ^ n dvd 2 * (tri j - tri i)" by (rule mult_dvd_mono [OF dvd_refl])
  then have d: "(2 :: nat) ^ Suc n dvd (j - i) * (j + i + 1)" unfolding tri_diff(1) [OF less_imp_le [OF assms(1)]] by simp
  have "odd (j - i) \<or> odd (j + i + 1)" using assms(1) by presburger
  then have "coprime (2 ^ Suc n) (j - i) \<or> coprime (2 ^ Suc n) (j + i + 1)"
    using coprime_power_left_iff by (auto simp del: power_Suc)
  then have "2 ^ Suc n dvd j + i + 1 \<or> 2 ^ Suc n dvd j - i"
    using d coprime_dvd_mult_right_iff coprime_dvd_mult_left_iff by metis
  then have "2 ^ Suc n \<le> j + i + 1 \<or> 2 ^ Suc n \<le> j - i" using assms(1) by (auto dest!: dvd_imp_le)
  then show False using assms by auto
qed

lemma tri_onto:
  assumes "r < 2 ^ n"
  shows "\<exists>j < 2 ^ n. tri j mod 2 ^ n = r"
proof -
  have "inj_on (\<lambda>j. tri j mod 2 ^ n) {..<2 ^ n}"
    by (rule linorder_inj_onI) (use tri_distinct in auto)
  then have "(\<lambda>j. tri j mod 2 ^ n) ` {..<2 ^ n} = {..<2 ^ n}"
    by (intro endo_inj_surj) auto
  then show ?thesis using assms by (metis (no_types, lifting) imageE lessThan_iff)
qed

section \<open>Positions of a probe\<close>

definition probe_pos :: "nat \<Rightarrow> u64 \<Rightarrow> nat \<Rightarrow> nat \<Rightarrow> nat" where
  "probe_pos w hashval cap j = (unat (hash_h1 hashval) + w * tri j) mod (cap + 1)"

definition probe_state :: "nat \<Rightarrow> u64 \<Rightarrow> nat \<Rightarrow> nat \<Rightarrow> probe_seq" where
  "probe_state w hashval cap j = \<lparr>pb_mask = cap, pb_offset = probe_pos w hashval cap j, pb_index = (w * j) mod 2 ^ 64\<rparr>"

lemma probe_pos_le: "probe_pos w hashval cap j \<le> cap"
  unfolding probe_pos_def using mod_less_divisor [of "cap + 1"] by (simp add: less_Suc_eq_le)

lemma probe_state_simps [simp]:
  "pb_mask (probe_state w hashval cap j) = cap"
  "pb_offset (probe_state w hashval cap j) = probe_pos w hashval cap j"
  by (simp_all add: probe_state_def)

lemma probe_start: "valid_cap (rs_capacity t) \<Longrightarrow> probe E hashval t = probe_state (group_width E) hashval (rs_capacity t) 0"
  by (simp add: probe_def probe_seq_new_def probe_state_def probe_pos_def and_cap)

lemma probe_step:
  assumes "valid_cap cap"
  shows "probe_next w (probe_state w hashval cap j) = probe_state w hashval cap (Suc j)"
proof -
  have index: "to_u64 ((w * j) mod 2 ^ 64 + w) = (w * Suc j) mod 2 ^ 64"
    by (simp only: to_u64_def mod_add_left_eq mult_Suc_right add.commute [of w])
  have "to_u64 (probe_pos w hashval cap j + (w * Suc j) mod 2 ^ 64) AND cap
      = (probe_pos w hashval cap j + (w * Suc j) mod 2 ^ 64 mod (cap + 1)) mod (cap + 1)"
    by (simp only: to_u64_and_cap [OF assms] mod_add_right_eq)
  also have "\<dots> = probe_pos w hashval cap (Suc j)"
    by (simp only: mod_mod_cancel [OF cap_dvd_64 [OF assms]] mod_add_right_eq mod_add_left_eq probe_pos_def tri.simps add.assoc distrib_left)
  finally show ?thesis unfolding probe_next_def Let_def using index by (simp add: probe_state_def del: mult_Suc_right)
qed

lemma probe_offset_state: "valid_cap cap \<Longrightarrow> probe_offset (probe_state w hashval cap j) d = (probe_pos w hashval cap j + d) mod (cap + 1)"
  by (simp add: probe_offset_def to_u64_and_cap)

section \<open>Windows\<close>

text \<open>The slots of the group at an offset: a table smaller than a group is seen once, and then empty bytes.\<close>

definition seen :: "nat \<Rightarrow> nat \<Rightarrow> nat \<Rightarrow> nat \<Rightarrow> bool" where
  "seen w cap off d \<longleftrightarrow> d < w \<and> (off + d < 2 * cap + 1 \<or> w \<le> cap + 1)"

definition in_window :: "nat \<Rightarrow> nat \<Rightarrow> nat \<Rightarrow> nat \<Rightarrow> bool" where
  "in_window w cap off i \<longleftrightarrow> (\<exists>d. seen w cap off d \<and> (off + d) mod (cap + 1) = i)"

lemma mod_cancel_right: "(a + c) mod m = (b + c) mod m \<longleftrightarrow> a mod m = b mod (m :: nat)"
proof -
  have "(int a + int c) mod int m = (int b + int c) mod int m \<longleftrightarrow> int a mod int m = int b mod int m"
    by (simp add: mod_eq_dvd_iff)
  then show ?thesis by (simp flip: of_nat_add zmod_int add: of_nat_eq_iff)
qed

lemma wrap_once [simp]: "i \<le> cap \<Longrightarrow> Suc (i + cap) mod Suc cap = i" "i \<le> cap \<Longrightarrow> Suc (cap + i) mod Suc cap = i"
  using mod_add_self2 [of i "Suc cap"] by (simp_all add: add.commute)

lemma offset_between:
  fixes i off cap :: nat
  assumes "i \<le> cap" "off \<le> cap"
  obtains d where "d \<le> cap" "off + d \<le> 2 * cap" "(off + d) mod (cap + 1) = i"
proof (cases "off \<le> i")
  case True
  then show ?thesis using assms that [of "i - off"] by simp
next
  case False
  have "(off + (cap + 1 + i - off)) mod (cap + 1) = i" using assms False by simp
  then show ?thesis using assms False that [of "cap + 1 + i - off"] by simp
qed

lemma small_window:
  assumes "cap + 1 < w" "off \<le> cap" "i \<le> cap"
  shows "in_window w cap off i"
proof -
  obtain d where "d \<le> cap" "off + d \<le> 2 * cap" "(off + d) mod (cap + 1) = i" using offset_between [OF assms(3,2)] by metis
  then show ?thesis unfolding in_window_def seen_def using assms(1) by (intro exI [of _ d]) simp
qed

text \<open>The distance of a slot from the start of the probe, in groups.\<close>

definition probe_group :: "nat \<Rightarrow> u64 \<Rightarrow> nat \<Rightarrow> nat \<Rightarrow> nat" where
  "probe_group w hashval cap i = ((i + (cap + 1) - probe_pos w hashval cap 0) mod (cap + 1)) div w"

lemma window_group:
  assumes "cap + 1 = w * n" "0 < w" "i \<le> cap"
  shows "in_window w cap (probe_pos w hashval cap j) i \<longleftrightarrow> probe_group w hashval cap i = tri j mod n"
proof -
  let ?s = "probe_pos w hashval cap 0"
  let ?x = "(i + (cap + 1) - ?s) mod (cap + 1)"
  have n: "0 < n" using assms(1) by (cases n) auto
  have s: "?s \<le> cap" by (rule probe_pos_le)
  have x: "?x < w * n" unfolding assms(1) using n assms(2) by simp
  have sx: "(?s + ?x) mod (cap + 1) = i"
    using s assms(3) by (simp only: mod_add_right_eq) simp
  have shift: "(probe_pos w hashval cap j + d) mod (cap + 1) = (?s + (w * (tri j mod n) + d)) mod (cap + 1)" for d
  proof -
    let ?h = "unat (hash_h1 hashval)"
    have "w * (tri j mod n) = w * tri j mod (cap + 1)" unfolding assms(1) by (rule mult_mod_right)
    then have "(?s + (w * (tri j mod n) + d)) mod (cap + 1) = (?h + (d + w * tri j mod (cap + 1))) mod (cap + 1)"
      unfolding probe_pos_def by (simp only: mod_add_left_eq tri.simps mult_0_right add_0_right add.commute [of d])
    also have "\<dots> = (?h + d + w * tri j) mod (cap + 1)" by (simp only: add.assoc [symmetric] mod_add_right_eq)
    also have "\<dots> = (probe_pos w hashval cap j + d) mod (cap + 1)"
      unfolding probe_pos_def by (simp only: mod_add_left_eq add.assoc add.commute [of d])
    finally show ?thesis ..
  qed
  show ?thesis
  proof
    assume "in_window w cap (probe_pos w hashval cap j) i"
    then obtain d where d: "d < w" "(probe_pos w hashval cap j + d) mod (cap + 1) = i" unfolding in_window_def seen_def by blast
    then have "(?s + (w * (tri j mod n) + d)) mod (cap + 1) = (?s + ?x) mod (cap + 1)" using shift sx by simp
    then have "(w * (tri j mod n) + d) mod (cap + 1) = ?x" unfolding add.commute [of ?s] mod_cancel_right mod_mod_trivial .
    moreover have "w * (tri j mod n) + d < cap + 1"
    proof -
      have "w * (tri j mod n) + w \<le> w * n" using n by (metis Suc_leI mod_less_divisor mult_Suc_right mult_le_mono2 add.commute)
      then show ?thesis unfolding assms(1) using d(1) by simp
    qed
    ultimately have "w * (tri j mod n) + d = ?x" by (simp only: mod_less)
    then show "probe_group w hashval cap i = tri j mod n" unfolding probe_group_def using d(1) by (metis assms(2) div_less div_mult_self4 add.commute add.right_neutral mult.commute not_gr_zero)
  next
    assume g: "probe_group w hashval cap i = tri j mod n"
    have "?x = w * (tri j mod n) + ?x mod w" using g mult_div_mod_eq [of w ?x] unfolding probe_group_def by simp
    then have "(probe_pos w hashval cap j + ?x mod w) mod (cap + 1) = i" using shift sx by simp
    moreover have "seen w cap (probe_pos w hashval cap j) (?x mod w)" unfolding seen_def using assms(1,2) n by simp
    ultimately show "in_window w cap (probe_pos w hashval cap j) i" unfolding in_window_def by blast
  qed
qed

section \<open>What a probe visits\<close>

lemma groups_of_cap:
  assumes "valid_cap cap" "w = 8 \<or> w = 16" "w \<le> cap + 1"
  obtains n where "cap + 1 = w * 2 ^ n"
proof -
  obtain k where k: "cap + 1 = 2 ^ k" using assms(1) by (rule valid_capE)
  obtain a where a: "w = 2 ^ a"
  proof (cases "w = 8")
    case True
    then show ?thesis using that [of 3] by simp
  next
    case False
    then show ?thesis using that [of 4] assms(2) by simp
  qed
  have "a \<le> k" using assms(3) unfolding a k by (rule power_le_imp_le_exp [rotated]) simp
  then have "cap + 1 = w * 2 ^ (k - a)" unfolding a k by (simp flip: power_add)
  then show ?thesis by (rule that)
qed

lemma same_group_same_window:
  assumes "valid_cap cap" "w = 8 \<or> w = 16" "i \<le> cap" "i' \<le> cap" "probe_group w hashval cap i = probe_group w hashval cap i'"
    and "in_window w cap (probe_pos w hashval cap j) i"
  shows "in_window w cap (probe_pos w hashval cap j) i'"
proof (cases "cap + 1 < w")
  case True
  then show ?thesis using assms(4) probe_pos_le by (intro small_window)
next
  case False
  then obtain n where n: "cap + 1 = w * 2 ^ n" using groups_of_cap [OF assms(1,2)] by (metis not_less)
  have "0 < w" using assms(2) by auto
  then show ?thesis using window_group [OF n _ assms(3)] window_group [OF n _ assms(4)] assms(5,6) by metis
qed

lemma probe_covers:
  assumes "valid_cap cap" "w = 8 \<or> w = 16" "i \<le> cap"
  shows "\<exists>j. j * w \<le> cap \<and> in_window w cap (probe_pos w hashval cap j) i"
proof (cases "cap + 1 < w")
  case True
  then show ?thesis using small_window [OF _ probe_pos_le assms(3)] by (intro exI [of _ 0]) simp
next
  case False
  then obtain n where n: "cap + 1 = w * 2 ^ n" using groups_of_cap [OF assms(1,2)] by (metis not_less)
  have w: "0 < w" using assms(2) by auto
  have "(i + (cap + 1) - probe_pos w hashval cap 0) mod (cap + 1) < 2 ^ n * w" using n mod_less_divisor [of "cap + 1"] by (metis mult.commute zero_less_Suc Suc_eq_plus1)
  then have "probe_group w hashval cap i < 2 ^ n" unfolding probe_group_def by (rule less_mult_imp_div_less)
  then obtain j where j: "j < 2 ^ n" "tri j mod 2 ^ n = probe_group w hashval cap i" using tri_onto by blast
  have "(j + 1) * w \<le> cap + 1" unfolding n mult.commute [of w] using j(1) by (intro mult_le_mono1) simp
  then have "j * w \<le> cap" using w by simp
  then show ?thesis using window_group [OF n w assms(3), of hashval j] j(2) by auto
qed

lemma sub64_and_cap:
  assumes "valid_cap cap" "i \<le> cap" "o' \<le> cap"
  shows "sub64 i o' AND cap = (i + (cap + 1) - o') mod (cap + 1)"
proof -
  obtain k where k: "2 ^ 64 = (cap + 1) * k" using cap_dvd_64 [OF assms(1)] by (rule dvdE)
  have o': "o' < 2 ^ 64" using assms(3) valid_cap_range [OF assms(1)] by simp
  have "0 < k" using k by (cases k) auto
  then obtain q where q: "k = Suc q" by (cases k) auto
  have "sub64 i o' AND cap = (i + (2 ^ 64 - o')) mod (cap + 1)" using o' by (simp add: sub64_def to_u64_and_cap [OF assms(1)])
  also have "i + (2 ^ 64 - o') = (i + (cap + 1) - o') + (cap + 1) * q" unfolding k q using assms(3) by simp
  finally show ?thesis by (simp only: mod_mult_self2)
qed

lemma probe_index_group:
  assumes "valid_cap (rs_capacity t)" "i \<le> rs_capacity t"
  shows "probe_index E hashval t i = probe_group (group_width E) hashval (rs_capacity t) i"
  by (simp only: probe_index_def probe_group_def probe_start [OF assms(1)] probe_state_simps sub64_and_cap [OF assms probe_pos_le])

end
