(* ===== verification/RawHashOk.thy ===== *)
theory RawHashOk
  imports RawHashProbe
begin

text \<open>
  Control bytes in order, and what searching them gives: \<^verbatim>\<open>find_impl\<close>, \<^verbatim>\<open>find_first_non_full\<close> and \<^verbatim>\<open>set_ctrl\<close> of
  \<^verbatim>\<open>phmap.h\<close>, proved in the locale \<open>hash_table\<close> over the contract of a group.
\<close>

section \<open>Control bytes of a table\<close>

text \<open>The bytes behind the sentinel copy the first ones; the last byte allocated is never read.\<close>

definition ctrl_ok :: "nat \<Rightarrow> nat \<Rightarrow> byte list \<Rightarrow> bool" where
  "ctrl_ok w cap ctrl \<longleftrightarrow> valid_cap cap \<and> length ctrl = cap + w + 1 \<and> ctrl ! cap = kSentinel \<and>
     (\<forall>i < cap. is_full (ctrl ! i) \<or> is_free (ctrl ! i)) \<and>
     (\<forall>i < w - 1. ctrl ! (cap + 1 + i) = (if i < cap then ctrl ! i else kEmpty))"

lemma ctrl_okD:
  assumes "ctrl_ok w cap ctrl"
  shows "valid_cap cap" "length ctrl = cap + w + 1" "ctrl ! cap = kSentinel" "i < cap \<Longrightarrow> is_full (ctrl ! i) \<or> is_free (ctrl ! i)"
    "i < w - 1 \<Longrightarrow> ctrl ! (cap + 1 + i) = (if i < cap then ctrl ! i else kEmpty)"
  using assms unfolding ctrl_ok_def by blast+

lemma ctrl_valid: "ctrl_ok w cap ctrl \<Longrightarrow> i \<le> cap \<Longrightarrow> valid_ctrl (ctrl ! i)"
  using ctrl_okD(3,4) [of w cap ctrl] by (metis is_free_def le_neq_implies_less valid_ctrl_def)

definition window_bytes :: "nat \<Rightarrow> nat \<Rightarrow> byte list \<Rightarrow> nat \<Rightarrow> byte list" where
  "window_bytes w cap ctrl off = map (\<lambda>d. if seen w cap off d then ctrl ! ((off + d) mod (cap + 1)) else kEmpty) [0..<w]"

definition window_has :: "nat \<Rightarrow> nat \<Rightarrow> byte list \<Rightarrow> (byte \<Rightarrow> bool) \<Rightarrow> nat \<Rightarrow> bool" where
  "window_has w cap ctrl P off \<longleftrightarrow> cap + 1 < w \<or> (\<exists>i. in_window w cap off i \<and> P (ctrl ! i))"

text \<open>Slot \<open>i\<close> is reached before any group that has a byte with \<open>P\<close>.\<close>

definition placed :: "nat \<Rightarrow> nat \<Rightarrow> byte list \<Rightarrow> (byte \<Rightarrow> bool) \<Rightarrow> u64 \<Rightarrow> nat \<Rightarrow> bool" where
  "placed w cap ctrl P hashval i \<longleftrightarrow> (\<exists>j. in_window w cap (probe_pos w hashval cap j) i \<and>
     (\<forall>j' < j. \<not> window_has w cap ctrl P (probe_pos w hashval cap j')))"

lemma mod_cap_le [simp]: "n mod Suc cap \<le> cap" "n mod (cap + 1) \<le> cap"
  using mod_less_divisor [of "Suc cap" n] by simp_all

lemma in_window_le: "in_window w cap off i \<Longrightarrow> i \<le> cap"
  by (auto simp: in_window_def)

lemma in_windowE:
  assumes "in_window w cap off i"
  obtains d where "seen w cap off d" "(off + d) mod (cap + 1) = i" "d < w"
  using assms unfolding in_window_def seen_def by blast

lemma window_has_mono:
  assumes "\<And>i. i \<le> cap \<Longrightarrow> P (ctrl ! i) \<Longrightarrow> Q (ctrl' ! i)" and "window_has w cap ctrl P off"
  shows "window_has w cap ctrl' Q off"
  using assms in_window_le unfolding window_has_def by metis

lemma placed_mono:
  assumes "\<And>i. i \<le> cap \<Longrightarrow> P (ctrl' ! i) \<Longrightarrow> Q (ctrl ! i)" and "placed w cap ctrl Q hashval i"
  shows "placed w cap ctrl' P hashval i"
  using window_has_mono [of cap P ctrl' Q ctrl w] assms unfolding placed_def by metis

lemma window_bytes_length [simp]: "length (window_bytes w cap ctrl off) = w"
  by (simp add: window_bytes_def)

lemma window_bytes_nth: "d < w \<Longrightarrow> window_bytes w cap ctrl off ! d = (if seen w cap off d then ctrl ! ((off + d) mod (cap + 1)) else kEmpty)"
  by (simp add: window_bytes_def)

lemma window_bytes_valid: "ctrl_ok w cap ctrl \<Longrightarrow> list_all valid_ctrl (window_bytes w cap ctrl off)"
  unfolding window_bytes_def
  by (auto simp: list_all_iff intro!: ctrl_valid [of w cap ctrl])

lemma small_cap:
  assumes "valid_cap cap" "w = 8 \<or> w = 16" "cap + 1 < w"
  shows "2 * (cap + 1) \<le> w"
proof -
  obtain k where k: "cap + 1 = 2 ^ k" using assms(1) by (rule valid_capE)
  have w: "w \<in> {2 ^ 3, 2 ^ 4}" using assms(2) by simp
  then obtain a where a: "w = 2 ^ a" by blast
  have "k < a" using assms(3) unfolding a k by (rule power_less_imp_less_exp [rotated]) simp
  then have "(2 :: nat) ^ Suc k \<le> 2 ^ a" by (intro power_increasing) simp_all
  then show ?thesis unfolding a k by simp
qed

lemma small_dvd:
  assumes "valid_cap cap" "w = 8 \<or> w = 16" "cap + 1 \<le> w"
  shows "(cap + 1) dvd w"
proof -
  obtain k where k: "cap + 1 = 2 ^ k" using assms(1) by (rule valid_capE)
  have "w \<in> {2 ^ 3, 2 ^ 4}" using assms(2) by simp
  then obtain a where a: "w = 2 ^ a" by blast
  have "(2 :: nat) ^ k \<le> 2 ^ a" using assms(3) k a by metis
  then have "k \<le> a" by (rule power_le_imp_le_exp [rotated]) simp
  then show ?thesis unfolding k a by (rule le_imp_power_dvd)
qed

lemma window_has_bytes:
  assumes "valid_cap cap" "w = 8 \<or> w = 16" "off \<le> cap" "P kEmpty"
  shows "(\<exists>c \<in> set (window_bytes w cap ctrl off). P c) \<longleftrightarrow> window_has w cap ctrl P off"
proof (cases "cap + 1 < w")
  case True
  have d: "2 * cap + 1 - off < w" using small_cap [OF assms(1,2) True] by simp
  moreover have "\<not> seen w cap off (2 * cap + 1 - off)" using True assms(3) by (simp add: seen_def)
  ultimately have "window_bytes w cap ctrl off ! (2 * cap + 1 - off) = kEmpty" by (simp add: window_bytes_nth)
  then have "kEmpty \<in> set (window_bytes w cap ctrl off)" using d nth_mem window_bytes_length by metis
  then show ?thesis using True assms(4) by (auto simp: window_has_def)
next
  case False
  then have "seen w cap off d \<longleftrightarrow> d < w" for d by (simp add: seen_def)
  then show ?thesis using False unfolding window_has_def in_window_def window_bytes_def by (auto simp: Bex_def)
qed

section \<open>The table over a group\<close>

definition key_at :: "'k \<Rightarrow> ('k, 'v) raw_set \<Rightarrow> nat \<Rightarrow> bool" where
  "key_at key t i \<longleftrightarrow> i < rs_capacity t \<and> (\<exists>v. rs_slots t ! i = Some (key, v))"

text \<open>Full slots hold elements, under the bits of their hash.\<close>

definition searchable :: "'k hash_env \<Rightarrow> ('k, 'v) raw_set \<Rightarrow> bool" where
  "searchable E t \<longleftrightarrow> ctrl_ok (group_width E) (rs_capacity t) (rs_ctrl t) \<and> length (rs_slots t) = rs_capacity t \<and>
     (\<forall>i < rs_capacity t. is_full (rs_ctrl t ! i) \<longrightarrow> rs_slots t ! i \<noteq> None) \<and>
     (\<forall>i k v. i < rs_capacity t \<longrightarrow> rs_slots t ! i = Some (k, v) \<longrightarrow> rs_ctrl t ! i = hash_h2 (element_hash E k))"

text \<open>One round of a search, that goes on with \<open>rest\<close>.\<close>

definition find_body :: "'k hash_env \<Rightarrow> 'k \<Rightarrow> byte \<Rightarrow> ('k, 'v) raw_set \<Rightarrow> (probe_seq \<Rightarrow> nat option option) \<Rightarrow> probe_seq \<Rightarrow> nat option option" where
  "find_body E key h2 t rest p =
     do { g \<leftarrow> group_at E (pb_offset p) t;
          hit \<leftarrow> find_match key p (gr_match (he_group E) h2 g) t;
          (case hit of
             Some i \<Rightarrow> Some (Some i)
           | None \<Rightarrow> if gr_has_empty (he_group E) g then Some None else rest (probe_next (group_width E) p)) }"

locale hash_table = hash_group "he_group E" for E :: "'k hash_env"

context hash_table
begin

abbreviation W :: nat where "W \<equiv> group_width E"

lemma group_at_window:
  assumes "ctrl_ok W (rs_capacity t) (rs_ctrl t)" "off \<le> rs_capacity t"
  shows "group_at E off t = Some (window_bytes W (rs_capacity t) (rs_ctrl t) off)"
proof -
  let ?cap = "rs_capacity t" and ?ctrl = "rs_ctrl t"
  note ok = ctrl_okD [OF assms(1)]
  have "take W (drop off ?ctrl) = window_bytes W ?cap ?ctrl off"
  proof (rule nth_equalityI)
    show "length (take W (drop off ?ctrl)) = length (window_bytes W ?cap ?ctrl off)" using ok(2) assms(2) by simp
    fix d assume "d < length (take W (drop off ?ctrl))"
    then have d: "d < W" by simp
    have "?ctrl ! (off + d) = (if seen W ?cap off d then ?ctrl ! ((off + d) mod (?cap + 1)) else kEmpty)"
    proof (cases "off + d \<le> ?cap")
      case True
      then show ?thesis using d by (simp add: seen_def)
    next
      case False
      then obtain i where i: "off + d = ?cap + 1 + i" using le_Suc_ex [of "?cap + 1" "off + d"] by auto
      have iw: "i < W - 1" using i d assms(2) by linarith
      have "(off + d) mod (?cap + 1) = i \<and> i < ?cap" if "seen W ?cap off d"
      proof -
        have "i < ?cap" using that i iw unfolding seen_def by linarith
        then show ?thesis using i by simp
      qed
      moreover have "\<not> i < ?cap" if "\<not> seen W ?cap off d" using that d i unfolding seen_def by linarith
      ultimately show ?thesis using ok(5) [OF iw] i by auto
    qed
    then show "take W (drop off ?ctrl) ! d = window_bytes W ?cap ?ctrl off ! d" using d ok(2) assms(2) by (simp add: window_bytes_nth)
  qed
  then show ?thesis using ok(2) assms(2) by (simp add: group_at_def)
qed

lemma Wcase: "W = 8 \<or> W = 16" by (rule width)

lemma Wpos: "0 < W" using Wcase by auto

lemmas window_laws = group_at_window window_bytes_valid

section \<open>Finding\<close>

lemma find_match_result:
  assumes "valid_cap (rs_capacity t)"
    and "\<And>d. d \<in> set ds \<Longrightarrow> \<exists>kv. slot_at ((probe_pos W hashval (rs_capacity t) j + d) mod (rs_capacity t + 1)) t = Some kv"
  shows "case find_match key (probe_state W hashval (rs_capacity t) j) ds t of
    None \<Rightarrow> False
  | Some None \<Rightarrow> \<forall>d \<in> set ds. \<forall>v. slot_at ((probe_pos W hashval (rs_capacity t) j + d) mod (rs_capacity t + 1)) t \<noteq> Some (key, v)
  | Some (Some i) \<Rightarrow> \<exists>d \<in> set ds. \<exists>v. i = (probe_pos W hashval (rs_capacity t) j + d) mod (rs_capacity t + 1) \<and> slot_at i t = Some (key, v)"
  using assms(2)
proof (induction ds)
  case Nil
  then show ?case by simp
next
  case (Cons d ds)
  obtain k v where kv: "slot_at ((probe_pos W hashval (rs_capacity t) j + d) mod (rs_capacity t + 1)) t = Some (k, v)"
    using Cons.prems [of d] by auto
  show ?case
  proof (cases "k = key")
    case True
    then show ?thesis using kv by (auto simp: Let_def probe_offset_state [OF assms(1)] simp del: One_nat_def add_Suc_right)
  next
    case False
    then show ?thesis using kv Cons.IH Cons.prems
      by (auto simp: Let_def probe_offset_state [OF assms(1)] simp del: One_nat_def add_Suc_right split: option.splits)
  qed
qed

lemma find_body_step:
  fixes t :: "('k, 'v) raw_set" and key :: 'k and rest :: "probe_seq \<Rightarrow> nat option option" and j :: nat
  assumes "searchable E t"
  defines "hashval \<equiv> element_hash E key"
  defines "cap \<equiv> rs_capacity t"
  defines "off \<equiv> probe_pos W hashval cap j"
  defines "body \<equiv> find_body E key (hash_h2 hashval) t rest (probe_state W hashval cap j)"
  shows "(\<exists>i. body = Some (Some i) \<and> key_at key t i) \<or>
    (\<forall>i. in_window W cap off i \<longrightarrow> \<not> key_at key t i) \<and>
    body = (if window_has W cap (rs_ctrl t) (\<lambda>c. c = kEmpty) off then Some None else rest (probe_state W hashval cap (Suc j)))"
proof -
  let ?h = "hash_h2 hashval" and ?g = "window_bytes W cap (rs_ctrl t) off"
  have ok: "ctrl_ok W cap (rs_ctrl t)" and len: "length (rs_slots t) = cap"
    and full: "\<And>i. i < cap \<Longrightarrow> is_full (rs_ctrl t ! i) \<Longrightarrow> rs_slots t ! i \<noteq> None"
    and h2: "\<And>i k v. i < cap \<Longrightarrow> rs_slots t ! i = Some (k, v) \<Longrightarrow> rs_ctrl t ! i = hash_h2 (element_hash E k)"
    using assms(1) unfolding searchable_def cap_def by blast+
  note cap = ctrl_okD(1) [OF ok]
  have off: "off \<le> cap" unfolding off_def by (rule probe_pos_le)
  have g: "group_at E off t = Some ?g" using group_at_window [of t off] ok off unfolding cap_def by simp
  have valid: "list_all valid_ctrl ?g" using ok by (rule window_bytes_valid)
  have slot: "slot_at i t = Some (k, v) \<longleftrightarrow> i < cap \<and> rs_slots t ! i = Some (k, v)" for i k v
    by (auto simp: slot_at_def nth_opt_def len bind_eq_Some_conv)
  have match: "d < W \<and> seen W cap off d \<and> (off + d) mod (cap + 1) < cap \<and> is_full (rs_ctrl t ! ((off + d) mod (cap + 1)))"
    if "d \<in> set (gr_match (he_group E) ?h ?g)" for d
  proof -
    have d: "d < W" "is_full (?g ! d)" using match_only [of ?g ?h d] that by simp_all
    then have "seen W cap off d" "is_full (rs_ctrl t ! ((off + d) mod (cap + 1)))" by (simp_all add: window_bytes_nth split: if_splits)
    moreover have "(off + d) mod (cap + 1) \<noteq> cap" using calculation(2) ctrl_okD(3) [OF ok] by auto
    then have "(off + d) mod (cap + 1) < cap" using mod_cap_le(2) by (metis le_neq_implies_less)
    ultimately show ?thesis using d(1) by blast
  qed
  have all: "\<exists>kv. slot_at ((off + d) mod (cap + 1)) t = Some kv" if "d \<in> set (gr_match (he_group E) ?h ?g)" for d
    using match [OF that] full slot by (metis not_None_eq old.prod.exhaust)
  have unf: "body = do { hit \<leftarrow> find_match key (probe_state W hashval cap j) (gr_match (he_group E) ?h ?g) t;
      (case hit of Some i \<Rightarrow> Some (Some i)
       | None \<Rightarrow> if gr_has_empty (he_group E) ?g then Some None else rest (probe_state W hashval cap (Suc j))) }"
    unfolding body_def find_body_def by (simp add: g off_def [symmetric] probe_step [OF cap])
  note res = find_match_result [of t "gr_match (he_group E) ?h ?g" hashval j key, folded cap_def, folded off_def, OF cap all]
  show ?thesis
  proof (cases "find_match key (probe_state W hashval cap j) (gr_match (he_group E) ?h ?g) t")
    case None
    then show ?thesis using res by simp
  next
    case (Some r)
    show ?thesis
    proof (cases r)
      case (Some i)
      then have "\<exists>v. slot_at i t = Some (key, v)" using res \<open>find_match _ _ _ _ = Some r\<close> by auto
      then have "key_at key t i" unfolding key_at_def using slot cap_def by auto
      moreover have "body = Some (Some i)" unfolding unf using \<open>find_match _ _ _ _ = Some r\<close> Some by simp
      ultimately show ?thesis by blast
    next
      case None
      have miss: "\<And>d v. d \<in> set (gr_match (he_group E) ?h ?g) \<Longrightarrow> slot_at ((off + d) mod (cap + 1)) t \<noteq> Some (key, v)"
        using res \<open>find_match _ _ _ _ = Some r\<close> None by simp
      have "\<not> key_at key t i" if win: "in_window W cap off i" for i
      proof
        assume "key_at key t i"
        then obtain v where v: "i < cap" "rs_slots t ! i = Some (key, v)" unfolding key_at_def cap_def by blast
        obtain d where d: "seen W cap off d" "(off + d) mod (cap + 1) = i" "d < W" using win by (rule in_windowE)
        have "?g ! d = ?h" using h2 [OF v] d by (simp add: window_bytes_nth hashval_def)
        then have "d \<in> set (gr_match (he_group E) ?h ?g)" using match_hit d(3) by simp
        then show False using miss slot v d(2) by blast
      qed
      moreover have "gr_has_empty (he_group E) ?g \<longleftrightarrow> window_has W cap (rs_ctrl t) (\<lambda>c. c = kEmpty) off"
        using has_empty [of ?g] valid window_has_bytes [OF cap Wcase off, of "\<lambda>c. c = kEmpty"] by simp
      then have "body = (if window_has W cap (rs_ctrl t) (\<lambda>c. c = kEmpty) off then Some None else rest (probe_state W hashval cap (Suc j)))"
        unfolding unf using \<open>find_match _ _ _ _ = Some r\<close> None by simp
      ultimately show ?thesis by blast
    qed
  qed
qed

lemma find_loop_body: "find_loop E key h2 t p = find_body E key h2 t (find_loop E key h2 t) p"
  unfolding find_body_def by (rule find_loop.simps)

lemma find_step:
  fixes t :: "('k, 'v) raw_set" and key :: 'k and j :: nat
  assumes "searchable E t"
  defines "hashval \<equiv> element_hash E key"
  defines "cap \<equiv> rs_capacity t"
  defines "loop \<equiv> \<lambda>j. find_loop E key (hash_h2 hashval) t (probe_state W hashval cap j)"
  shows "(\<exists>i. loop j = Some (Some i) \<and> key_at key t i) \<or>
    (\<forall>i. in_window W cap (probe_pos W hashval cap j) i \<longrightarrow> \<not> key_at key t i) \<and>
    loop j = (if window_has W cap (rs_ctrl t) (\<lambda>c. c = kEmpty) (probe_pos W hashval cap j) then Some None else loop (Suc j))"
  unfolding loop_def hashval_def cap_def
  using find_body_step [OF assms(1), of key "find_loop E key (hash_h2 (element_hash E key)) t" j]
  unfolding find_loop_body [symmetric] .

text \<open>Where no byte is empty, a search for a key that is absent never ends.\<close>

lemma find_loop_full:
  fixes t :: "('k, 'v) raw_set" and key :: 'k
  assumes "searchable E t" "\<And>i. \<not> key_at key t i" "W \<le> rs_capacity t + 1" "\<And>i. i \<le> rs_capacity t \<Longrightarrow> rs_ctrl t ! i \<noteq> kEmpty"
  shows "find_loop E key (hash_h2 (element_hash E key)) t (probe_state W (element_hash E key) (rs_capacity t) j) = None"
proof -
  let ?st = "probe_state W (element_hash E key) (rs_capacity t)"
  have no: "\<not> window_has W (rs_capacity t) (rs_ctrl t) (\<lambda>c. c = kEmpty) off" for off
    using assms(3,4) in_window_le unfolding window_has_def by (metis not_less)
  let ?P = "\<lambda>E' key' h' t' p r. \<forall>j. E' = E \<longrightarrow> key' = key \<longrightarrow> h' = hash_h2 (element_hash E key) \<longrightarrow> t' = t \<longrightarrow> p \<noteq> ?st j"
  have "?P E key (hash_h2 (element_hash E key)) t (?st j) r"
    if "find_loop E key (hash_h2 (element_hash E key)) t (?st j) = Some r" for r
  proof (rule find_loop.raw_induct [OF _ that, where P = ?P], intro allI impI notI)
    fix loop E' key' h' t' p r j
    assume IH: "\<And>E' key' h' t' p r. loop E' key' h' t' p = Some r \<Longrightarrow> ?P E' key' h' t' p r"
      and body: "do { g \<leftarrow> group_at E' (pb_offset p) t';
          hit \<leftarrow> find_match key' p (gr_match (he_group E') h' g) t';
          (case hit of
             Some i \<Rightarrow> Some (Some i)
           | None \<Rightarrow> if gr_has_empty (he_group E') g then Some None else loop E' key' h' t' (probe_next (group_width E') p)) } = Some r"
      and eqs: "E' = E" "key' = key" "h' = hash_h2 (element_hash E key)" "t' = t" "p = ?st j"
    have "find_body E key (hash_h2 (element_hash E key)) t (loop E key (hash_h2 (element_hash E key)) t) (?st j) = Some r"
      using body unfolding eqs find_body_def .
    then have "loop E key (hash_h2 (element_hash E key)) t (?st (Suc j)) = Some r"
      using find_body_step [OF assms(1), of key "loop E key (hash_h2 (element_hash E key)) t" j] assms(2) no by simp
    then show False using IH by blast
  qed
  then show ?thesis by (metis not_None_eq)
qed

lemma find_loop_result:
  fixes t :: "('k, 'v) raw_set" and key :: 'k
  assumes "searchable E t" "j \<le> J"
  defines "cap \<equiv> rs_capacity t"
  defines "pos \<equiv> probe_pos W (element_hash E key) cap"
  defines "loop \<equiv> \<lambda>j. find_loop E key (hash_h2 (element_hash E key)) t (probe_state W (element_hash E key) cap j)"
  assumes "window_has W cap (rs_ctrl t) (\<lambda>c. c = kEmpty) (pos J)"
  shows "(\<exists>i. loop j = Some (Some i) \<and> key_at key t i) \<or>
    loop j = Some None \<and> (\<exists>j' \<ge> j. window_has W cap (rs_ctrl t) (\<lambda>c. c = kEmpty) (pos j') \<and>
      (\<forall>n i. j \<le> n \<and> n \<le> j' \<and> in_window W cap (pos n) i \<longrightarrow> \<not> key_at key t i))"
  using assms(2)
proof (induction rule: inc_induct)
  let ?has = "\<lambda>j. window_has W cap (rs_ctrl t) (\<lambda>c. c = kEmpty) (pos j)"
  have here: "(\<exists>i. loop n = Some (Some i) \<and> key_at key t i) \<or>
      (\<forall>i. in_window W cap (pos n) i \<longrightarrow> \<not> key_at key t i) \<and> loop n = (if ?has n then Some None else loop (Suc n))" for n
    unfolding loop_def cap_def pos_def by (rule find_step [OF assms(1)])
  {
    case base
    show ?case
    proof (cases "\<exists>i. loop J = Some (Some i) \<and> key_at key t i")
      case False
      then have "loop J = Some None" "\<And>i. in_window W cap (pos J) i \<Longrightarrow> \<not> key_at key t i" using here [of J] assms(6) by auto
      then show ?thesis using assms(6) by (intro disjI2 conjI exI [of _ J]) auto
    qed simp
  next
    case (step n)
    show ?case
    proof (cases "\<exists>i. loop n = Some (Some i) \<and> key_at key t i")
      case False
      then have miss: "\<And>i. in_window W cap (pos n) i \<Longrightarrow> \<not> key_at key t i"
        and eq: "loop n = (if ?has n then Some None else loop (Suc n))" using here [of n] by auto
      show ?thesis
      proof (cases "?has n")
        case True
        then show ?thesis using eq miss by (intro disjI2 conjI exI [of _ n]) auto
      next
        case False
        then have "loop (Suc n) = loop n" using eq by simp
        note IH = step.IH [unfolded this]
        have "\<not> (\<exists>i. loop n = Some (Some i) \<and> key_at key t i)" by fact
        then obtain j' where j': "loop n = Some None" "Suc n \<le> j'" "?has j'"
            and rest: "\<And>m i. Suc n \<le> m \<Longrightarrow> m \<le> j' \<Longrightarrow> in_window W cap (pos m) i \<Longrightarrow> \<not> key_at key t i"
          using IH by auto
        have "\<not> key_at key t i" if "n \<le> m" "m \<le> j'" "in_window W cap (pos m) i" for m i
          using that miss rest [of m i] by (cases "m = n") auto
        then show ?thesis using j' by (intro disjI2 conjI exI [of _ j']) auto
      qed
    qed simp
  }
qed

lemma find_impl_result:
  fixes t :: "('k, 'v) raw_set" and key :: 'k
  assumes "searchable E t" and "rs_capacity t + 1 < W \<or> (\<exists>e < rs_capacity t. rs_ctrl t ! e = kEmpty)"
    and reach: "\<And>i. key_at key t i \<Longrightarrow> placed W (rs_capacity t) (rs_ctrl t) (\<lambda>c. c = kEmpty) (element_hash E key) i"
  shows "(\<exists>i. find_impl E key (element_hash E key) t = Some (Some i) \<and> key_at key t i) \<or>
    find_impl E key (element_hash E key) t = Some None \<and> (\<forall>i. \<not> key_at key t i)"
proof -
  let ?has = "\<lambda>j. window_has W (rs_capacity t) (rs_ctrl t) (\<lambda>c. c = kEmpty) (probe_pos W (element_hash E key) (rs_capacity t) j)"
  have cap: "valid_cap (rs_capacity t)" using assms(1) ctrl_okD(1) unfolding searchable_def by blast
  have "\<exists>J. ?has J"
    using assms(2) probe_covers [OF cap Wcase, of _ "element_hash E key"] unfolding window_has_def by (metis less_imp_le)
  then obtain J where "?has J" by blast
  note res = find_loop_result [OF assms(1) le0 this, folded find_impl_def]
  have eq: "find_impl E key (element_hash E key) t =
    find_loop E key (hash_h2 (element_hash E key)) t (probe_state W (element_hash E key) (rs_capacity t) 0)"
    by (simp add: find_impl_def probe_start [OF cap])
  show ?thesis
  proof (cases "\<exists>i. find_impl E key (element_hash E key) t = Some (Some i) \<and> key_at key t i")
    case False
    then obtain j' where none: "find_impl E key (element_hash E key) t = Some None" and j': "?has j'"
      and miss: "\<And>n i. n \<le> j' \<Longrightarrow> in_window W (rs_capacity t) (probe_pos W (element_hash E key) (rs_capacity t) n) i \<Longrightarrow> \<not> key_at key t i"
      using res unfolding eq by auto
    have "\<not> key_at key t i" for i
    proof
      assume k: "key_at key t i"
      obtain n where n: "in_window W (rs_capacity t) (probe_pos W (element_hash E key) (rs_capacity t) n) i" "\<And>m. m < n \<Longrightarrow> \<not> ?has m"
        using reach [OF k] unfolding placed_def by blast
      then have "n \<le> j'" using j' not_less by blast
      then show False using miss n(1) k by blast
    qed
    then show ?thesis using none by blast
  qed simp
qed

section \<open>The first free slot\<close>

lemma first_free_window:
  assumes "ctrl_ok W cap ctrl" "off \<le> cap" "gr_first_free (he_group E) (window_bytes W cap ctrl off) = Some d"
  defines "i \<equiv> (off + d) mod (cap + 1)"
  shows "in_window W cap off i \<and> is_free (ctrl ! i) \<or> i = cap \<and> (\<forall>n \<le> cap. \<not> is_free (ctrl ! n))"
proof -
  let ?g = "window_bytes W cap ctrl off"
  have d: "d < W" "is_free (?g ! d)" and less: "\<And>e. e < d \<Longrightarrow> \<not> is_free (?g ! e)"
    using first_free_Some [OF _ window_bytes_valid [OF assms(1)], of off d] assms(3) by simp_all
  show ?thesis
  proof (cases "seen W cap off d")
    case True
    then show ?thesis using d unfolding i_def in_window_def by (auto simp: window_bytes_nth)
  next
    case False
    then have far: "2 * cap + 1 \<le> off + d" and small: "\<not> W \<le> cap + 1" using d(1) unfolding seen_def by auto
    have "\<not> is_free (ctrl ! n)" if n: "n \<le> cap" for n
    proof -
      obtain e where e: "e \<le> cap" "off + e \<le> 2 * cap" "(off + e) mod (cap + 1) = n" using offset_between [OF n assms(2)] by metis
      have "e < d" using e(2) far by linarith
      moreover have "seen W cap off e" unfolding seen_def using \<open>e < d\<close> d(1) e(2) by linarith
      ultimately show ?thesis using less [of e] d(1) e(3) by (simp add: window_bytes_nth)
    qed
    moreover have "off + d = cap + (cap + 1)"
    proof (rule ccontr)
      assume "off + d \<noteq> cap + (cap + 1)"
      then have "2 * cap + 1 \<le> off + (d - 1)" "d - 1 < d" using far assms(2) by linarith+
      moreover then have "\<not> seen W cap off (d - 1)" unfolding seen_def using small by linarith
      ultimately show False using less [of "d - 1"] d(1) by (simp add: window_bytes_nth)
    qed
    then have "i = cap" unfolding i_def by simp
    ultimately show ?thesis by blast
  qed
qed

lemma first_free_unfold:
  assumes "ctrl_ok W (rs_capacity t) (rs_ctrl t)"
  shows "first_free_loop E t (probe_state W hashval (rs_capacity t) j) =
    (case gr_first_free (he_group E) (window_bytes W (rs_capacity t) (rs_ctrl t) (probe_pos W hashval (rs_capacity t) j)) of
       Some d \<Rightarrow> Some ((probe_pos W hashval (rs_capacity t) j + d) mod (rs_capacity t + 1), pb_index (probe_state W hashval (rs_capacity t) j))
     | None \<Rightarrow> first_free_loop E t (probe_state W hashval (rs_capacity t) (Suc j)))"
  by (subst first_free_loop.simps)
    (simp only: probe_state_simps group_at_window [OF assms probe_pos_le] bind.bind_lunit probe_offset_state [OF ctrl_okD(1) [OF assms]]
      probe_step [OF ctrl_okD(1) [OF assms]])

lemma first_free_iff:
  assumes "ctrl_ok W cap ctrl" "off \<le> cap"
  shows "window_has W cap ctrl is_free off \<longleftrightarrow> gr_first_free (he_group E) (window_bytes W cap ctrl off) \<noteq> None"
  using window_has_bytes [OF ctrl_okD(1) [OF assms(1)] Wcase assms(2), of is_free ctrl] first_free_None [of "window_bytes W cap ctrl off"]
    window_bytes_valid [OF assms(1)] by simp

text \<open>The slot found for a free slot or, in a full table smaller than a group, the sentinel.\<close>

definition free_found :: "('k, 'v) raw_set \<Rightarrow> u64 \<Rightarrow> nat \<Rightarrow> nat \<Rightarrow> bool" where
  "free_found t hashval j i \<longleftrightarrow>
     in_window W (rs_capacity t) (probe_pos W hashval (rs_capacity t) j) i \<and> is_free (rs_ctrl t ! i) \<or>
     i = rs_capacity t \<and> (\<forall>n \<le> rs_capacity t. \<not> is_free (rs_ctrl t ! n))"

lemma first_free_here:
  assumes "ctrl_ok W (rs_capacity t) (rs_ctrl t)"
    and "window_has W (rs_capacity t) (rs_ctrl t) is_free (probe_pos W hashval (rs_capacity t) j)"
  shows "\<exists>i len. first_free_loop E t (probe_state W hashval (rs_capacity t) j) = Some (i, len) \<and> free_found t hashval j i"
proof -
  obtain d where "gr_first_free (he_group E) (window_bytes W (rs_capacity t) (rs_ctrl t) (probe_pos W hashval (rs_capacity t) j)) = Some d"
    using assms(2) first_free_iff [OF assms(1) probe_pos_le] by auto
  then show ?thesis
    using first_free_window [OF assms(1) probe_pos_le] first_free_unfold [OF assms(1), of hashval j] unfolding free_found_def by simp
qed

lemma first_free_result:
  assumes "ctrl_ok W (rs_capacity t) (rs_ctrl t)" "j \<le> J"
    and "window_has W (rs_capacity t) (rs_ctrl t) is_free (probe_pos W hashval (rs_capacity t) J)"
  shows "\<exists>i len j'. first_free_loop E t (probe_state W hashval (rs_capacity t) j) = Some (i, len) \<and> free_found t hashval j' i \<and>
    (\<forall>n. j \<le> n \<and> n < j' \<longrightarrow> \<not> window_has W (rs_capacity t) (rs_ctrl t) is_free (probe_pos W hashval (rs_capacity t) n))"
  using assms(2)
proof (induction rule: inc_induct)
  case base
  show ?case using first_free_here [OF assms(1,3)] by (metis not_less)
next
  case (step n)
  show ?case
  proof (cases "window_has W (rs_capacity t) (rs_ctrl t) is_free (probe_pos W hashval (rs_capacity t) n)")
    case True
    show ?thesis using first_free_here [OF assms(1) True] by (metis not_less)
  next
    case False
    then have "first_free_loop E t (probe_state W hashval (rs_capacity t) n) = first_free_loop E t (probe_state W hashval (rs_capacity t) (Suc n))"
      using first_free_unfold [OF assms(1), of hashval n] first_free_iff [OF assms(1) probe_pos_le] by simp
    then show ?thesis using step.IH False by (metis Suc_leI le_neq_implies_less)
  qed
qed

lemma find_first_non_full_result:
  assumes "ctrl_ok W (rs_capacity t) (rs_ctrl t)"
    and "rs_capacity t + 1 < W \<or> (\<exists>i < rs_capacity t. is_free (rs_ctrl t ! i))"
  obtains i len where "find_first_non_full E hashval t = Some (i, len)"
    and "i < rs_capacity t \<and> is_free (rs_ctrl t ! i) \<and> placed W (rs_capacity t) (rs_ctrl t) is_free hashval i \<or>
         i = rs_capacity t \<and> (\<forall>n < rs_capacity t. \<not> is_free (rs_ctrl t ! n))"
proof -
  let ?cap = "rs_capacity t"
  let ?pos = "probe_pos W hashval ?cap"
  note cap = ctrl_okD(1) [OF assms(1)]
  have "\<exists>J. window_has W ?cap (rs_ctrl t) is_free (?pos J)"
    using assms(2) probe_covers [OF cap Wcase, of _ hashval] unfolding window_has_def by (metis less_imp_le)
  then obtain J where J: "window_has W ?cap (rs_ctrl t) is_free (?pos J)" by blast
  obtain i len j where r: "first_free_loop E t (probe_state W hashval ?cap 0) = Some (i, len)" "free_found t hashval j i"
      "\<And>n. n < j \<Longrightarrow> \<not> window_has W ?cap (rs_ctrl t) is_free (?pos n)"
    using first_free_result [OF assms(1) le0 J] by auto
  show ?thesis
  proof (rule that)
    show "find_first_non_full E hashval t = Some (i, len)" using r(1) by (simp add: find_first_non_full_def probe_start [OF cap])
    have "i < ?cap" if "in_window W ?cap (?pos j) i" "is_free (rs_ctrl t ! i)"
      using in_window_le [OF that(1)] that(2) ctrl_okD(3) [OF assms(1)] by (metis free_special(3) le_neq_implies_less)
    then show "i < ?cap \<and> is_free (rs_ctrl t ! i) \<and> placed W ?cap (rs_ctrl t) is_free hashval i \<or> i = ?cap \<and> (\<forall>n < ?cap. \<not> is_free (rs_ctrl t ! n))"
      using r(2,3) unfolding free_found_def placed_def by (metis less_imp_le)
  qed
qed

section \<open>Setting a control byte\<close>

lemma set_ctrl_copy:
  assumes "valid_cap cap" "i < cap"
  shows "(sub64 i W AND cap) + 1 + ((W - 1) AND cap) = (if i < W then cap + 1 + i else i)"
proof (cases "W \<le> cap")
  case True
  have W: "(W - 1) AND cap = W - 1" using True by (simp add: and_cap [OF assms(1)])
  have "sub64 i W AND cap = (i + (cap + 1) - W) mod (cap + 1)" using sub64_and_cap [OF assms(1) _ True, of i] assms(2) by simp
  also have "\<dots> = (if i < W then i + (cap + 1) - W else i - W)"
  proof (cases "i < W")
    case False
    then have "i + (cap + 1) - W = (i - W) + (cap + 1)" by simp
    then show ?thesis using False assms(2) by (simp only: mod_add_self2) simp
  qed (use True in simp)
  finally show ?thesis using W True Wpos by simp
next
  case False
  have d: "(cap + 1) dvd W" using small_dvd [OF assms(1) Wcase] False by simp
  then obtain q where q: "W = (cap + 1) * q" by (rule dvdE)
  obtain r where r: "2 ^ 64 - W = (cap + 1) * r" using dvd_diff_nat [OF cap_dvd_64 [OF assms(1)] d] by (rule dvdE)
  have "W < 2 ^ 64" using Wcase by auto
  then have "sub64 i W AND cap = (i + (2 ^ 64 - W)) mod (cap + 1)" by (simp add: sub64_def to_u64_and_cap [OF assms(1)])
  then have "sub64 i W AND cap = i" unfolding r mod_mult_self2 using assms(2) by simp
  moreover have "(W - 1) mod (cap + 1) = cap"
  proof -
    have "0 < q" using q Wpos by (cases q) auto
    then have "W - 1 = cap + (cap + 1) * (q - 1)" unfolding q by (cases q) auto
    then show ?thesis by (simp only: mod_mult_self2) simp
  qed
  ultimately show ?thesis using False assms(2) by (simp add: and_cap [OF assms(1)])
qed

lemma set_ctrl_result:
  assumes "ctrl_ok W (rs_capacity t) (rs_ctrl t)" "i < rs_capacity t" "is_full c \<or> is_free c"
  obtains ctrl' where "set_ctrl E i c t = Some (t\<lparr>rs_ctrl := ctrl'\<rparr>)" "ctrl_ok W (rs_capacity t) ctrl'"
    and "\<And>n. n \<le> rs_capacity t \<Longrightarrow> ctrl' ! n = (if n = i then c else rs_ctrl t ! n)"
proof -
  let ?cap = "rs_capacity t" and ?ctrl = "rs_ctrl t"
  let ?copy = "if i < W then ?cap + 1 + i else i"
  let ?new = "?ctrl[i := c, ?copy := c]"
  note ok = ctrl_okD [OF assms(1)]
  have copy: "?copy < length ?ctrl" using ok(2) assms(2) by simp
  have eq: "set_ctrl E i c t = Some (t\<lparr>rs_ctrl := ?new\<rparr>)"
    unfolding set_ctrl_def Let_def set_ctrl_copy [OF ok(1) assms(2)] using assms(2) copy by simp
  have nth: "?new ! n = (if n = i then c else ?ctrl ! n)" if "n \<le> ?cap" for n
    using that ok(2) assms(2) by (auto simp: nth_list_update)
  have "ctrl_ok W ?cap ?new"
    unfolding ctrl_ok_def
  proof (intro conjI allI impI)
    show "valid_cap ?cap" by (rule ok(1))
    show "length ?new = ?cap + W + 1" using ok(2) by simp
    show "?new ! ?cap = kSentinel" using nth [of ?cap] ok(3) assms(2) by simp
    show "is_full (?new ! n) \<or> is_free (?new ! n)" if "n < ?cap" for n using nth [of n] that ok(4) [of n] assms(3) by simp
    show "?new ! (?cap + 1 + n) = (if n < ?cap then ?new ! n else kEmpty)" if n: "n < W - 1" for n
    proof -
      have "?new ! (?cap + 1 + n) = (if n = i then c else ?ctrl ! (?cap + 1 + n))"
        using n ok(2) assms(2) by (auto simp: nth_list_update)
      moreover have "n < ?cap \<Longrightarrow> ?new ! n = (if n = i then c else ?ctrl ! n)" by (rule nth) simp
      ultimately show ?thesis using ok(5) [OF n] assms(2) by auto
    qed
  qed
  with eq show ?thesis using nth by (rule that)
qed

end

end
