(* ===== verification/RawHashTable.thy ===== *)
theory RawHashTable
  imports RawHashOk
begin

text \<open>
  The invariant of \<^verbatim>\<open>raw_hash_set\<close> and what inserting, removing, growing and erasing do to the elements
  (\<^verbatim>\<open>resize\<close>, \<^verbatim>\<open>prepare_insert\<close>, \<^verbatim>\<open>erase_meta_only\<close> of \<^verbatim>\<open>phmap.h\<close>).
\<close>

section \<open>The invariant\<close>

definition is_kempty :: "byte \<Rightarrow> bool" where
  "is_kempty c \<longleftrightarrow> c = kEmpty"

text \<open>A full byte has an element, which a search reaches; a key is stored once.\<close>

definition tab_ok :: "'k hash_env \<Rightarrow> nat \<Rightarrow> byte list \<Rightarrow> ('k \<times> 'v) option list \<Rightarrow> bool" where
  "tab_ok E cap ctrl slots \<longleftrightarrow> ctrl_ok (group_width E) cap ctrl \<and> length slots = cap \<and>
     (\<forall>i < cap. is_full (ctrl ! i) \<longrightarrow> slots ! i \<noteq> None) \<and>
     (\<forall>i k v. i < cap \<longrightarrow> slots ! i = Some (k, v) \<longrightarrow>
        ctrl ! i = hash_h2 (element_hash E k) \<and> placed (group_width E) cap ctrl (\<lambda>c. c = kEmpty) (element_hash E k) i) \<and>
     (\<forall>i j k v v'. i < cap \<longrightarrow> j < cap \<longrightarrow> slots ! i = Some (k, v) \<longrightarrow> slots ! j = Some (k, v') \<longrightarrow> i = j)"

definition ctrl_count :: "(byte \<Rightarrow> bool) \<Rightarrow> nat \<Rightarrow> byte list \<Rightarrow> nat" where
  "ctrl_count P cap ctrl = (\<Sum>i < cap. of_bool (P (ctrl ! i)))"

text \<open>The number of elements and the number of slots that may still be filled; a table smaller than a group has no tombstones.\<close>

definition rs_ok :: "'k hash_env \<Rightarrow> ('k, 'v) raw_set \<Rightarrow> bool" where
  "rs_ok E t \<longleftrightarrow>
     (if rs_capacity t = 0 then t = raw_set_new
      else tab_ok E (rs_capacity t) (rs_ctrl t) (rs_slots t) \<and> rs_size t = ctrl_count is_full (rs_capacity t) (rs_ctrl t) \<and>
        rs_growth_left t + ctrl_count is_full (rs_capacity t) (rs_ctrl t) + ctrl_count is_deleted (rs_capacity t) (rs_ctrl t)
          = capacity_to_growth E (rs_capacity t) \<and>
        (rs_capacity t + 1 < group_width E \<longrightarrow> ctrl_count is_deleted (rs_capacity t) (rs_ctrl t) = 0))"

text \<open>The content as a map.\<close>

definition rs_map :: "('k, 'v) raw_set \<Rightarrow> 'k \<rightharpoonup> 'v" where
  "rs_map t = map_of (List.map_filter (\<lambda>s. s) (rs_slots t))"

section \<open>Counting\<close>

lemma ctrl_count_update:
  assumes "i < cap" and "\<And>n. n < cap \<Longrightarrow> ctrl' ! n = (if n = i then c else ctrl ! n)"
  shows "ctrl_count P cap ctrl' + of_bool (P (ctrl ! i)) = ctrl_count P cap ctrl + of_bool (P c)"
proof -
  have i: "i \<in> {..<cap}" using assms(1) by simp
  have "(\<Sum>n \<in> {..<cap} - {i}. of_bool (P (ctrl' ! n))) = (\<Sum>n \<in> {..<cap} - {i}. (of_bool (P (ctrl ! n)) :: nat))"
    by (rule sum.cong) (use assms(2) in auto)
  moreover have "ctrl' ! i = c" using assms by simp
  ultimately show ?thesis unfolding ctrl_count_def sum.remove [OF finite_lessThan i] by simp
qed

lemma ctrl_count_split:
  assumes "ctrl_ok w cap ctrl"
  shows "ctrl_count is_full cap ctrl + ctrl_count is_deleted cap ctrl + ctrl_count is_kempty cap ctrl = cap"
proof -
  have "ctrl_count is_full cap ctrl + ctrl_count is_deleted cap ctrl + ctrl_count is_kempty cap ctrl
      = (\<Sum>i < cap. of_bool (is_full (ctrl ! i)) + of_bool (is_deleted (ctrl ! i)) + of_bool (is_kempty (ctrl ! i)))"
    by (simp add: ctrl_count_def sum.distrib)
  also have "\<dots> = (\<Sum>i < cap. 1)"
  proof (rule sum.cong [OF refl])
    fix i assume "i \<in> {..<cap}"
    then have "is_full (ctrl ! i) \<or> ctrl ! i = kEmpty \<or> ctrl ! i = kDeleted" using ctrl_okD(4) [OF assms] by (auto simp: is_free_def)
    then show "of_bool (is_full (ctrl ! i)) + of_bool (is_deleted (ctrl ! i)) + of_bool (is_kempty (ctrl ! i)) = (1 :: nat)"
      by (auto simp: is_deleted_def is_kempty_def)
  qed
  finally show ?thesis by simp
qed

lemma ctrl_count_pos: "0 < ctrl_count P cap ctrl \<longleftrightarrow> (\<exists>i < cap. P (ctrl ! i))"
  by (auto simp: ctrl_count_def zero_less_iff_neq_zero)

lemma ctrl_count_mono: "m \<le> n \<Longrightarrow> ctrl_count P m ctrl \<le> ctrl_count P n ctrl"
  unfolding ctrl_count_def by (intro sum_mono2) auto

lemma ctrl_count_Suc: "ctrl_count P (Suc n) ctrl = ctrl_count P n ctrl + of_bool (P (ctrl ! n))"
  by (simp add: ctrl_count_def)

section \<open>Elements\<close>

lemma tab_okD:
  assumes "tab_ok E cap ctrl slots"
  shows "ctrl_ok (group_width E) cap ctrl" "length slots = cap" "i < cap \<Longrightarrow> is_full (ctrl ! i) \<longleftrightarrow> slots ! i \<noteq> None"
    "i < cap \<Longrightarrow> slots ! i = Some (k, v) \<Longrightarrow> ctrl ! i = hash_h2 (element_hash E k)"
    "i < cap \<Longrightarrow> slots ! i = Some (k, v) \<Longrightarrow> placed (group_width E) cap ctrl (\<lambda>c. c = kEmpty) (element_hash E k) i"
    "i < cap \<Longrightarrow> j < cap \<Longrightarrow> slots ! i = Some (k, v) \<Longrightarrow> slots ! j = Some (k, v') \<Longrightarrow> i = j"
proof -
  note a = assms [unfolded tab_ok_def]
  show "ctrl_ok (group_width E) cap ctrl" "length slots = cap"
    "i < cap \<Longrightarrow> slots ! i = Some (k, v) \<Longrightarrow> ctrl ! i = hash_h2 (element_hash E k)"
    "i < cap \<Longrightarrow> slots ! i = Some (k, v) \<Longrightarrow> placed (group_width E) cap ctrl (\<lambda>c. c = kEmpty) (element_hash E k) i"
    "i < cap \<Longrightarrow> j < cap \<Longrightarrow> slots ! i = Some (k, v) \<Longrightarrow> slots ! j = Some (k, v') \<Longrightarrow> i = j"
    using a by blast+
  show "is_full (ctrl ! i) \<longleftrightarrow> slots ! i \<noteq> None" if "i < cap"
  proof (cases "slots ! i")
    case None
    then show ?thesis using a that by blast
  next
    case (Some kv)
    then have "ctrl ! i = hash_h2 (element_hash E (fst kv))" using a that by (metis prod.collapse)
    then show ?thesis using Some by simp
  qed
qed

lemma tab_searchable: "tab_ok E (rs_capacity t) (rs_ctrl t) (rs_slots t) \<Longrightarrow> searchable E t"
  unfolding searchable_def tab_ok_def by blast

lemma tab_insert:
  assumes "tab_ok E cap ctrl slots" "i < cap" "is_free (ctrl ! i)"
    and "placed (group_width E) cap ctrl is_free (element_hash E k) i" "\<And>v. Some (k, v) \<notin> set slots"
    and "ctrl_ok (group_width E) cap ctrl'" "\<And>n. n \<le> cap \<Longrightarrow> ctrl' ! n = (if n = i then hash_h2 (element_hash E k) else ctrl ! n)"
  shows "tab_ok E cap ctrl' (slots[i := Some (k, v)])"
proof -
  note ok = tab_okD [OF assms(1)]
  have grow: "placed (group_width E) cap ctrl P h n \<Longrightarrow> P kEmpty \<Longrightarrow> placed (group_width E) cap ctrl' (\<lambda>c. c = kEmpty) h n" for P h n
    by (rule placed_mono [of cap]) (use assms(7) full_neq_special [OF is_full_h2] in \<open>auto split: if_splits\<close>)
  have fresh: "slots ! n \<noteq> Some (k, v')" if "n < cap" for n v' using assms(5) that ok(2) nth_mem by metis
  show ?thesis
    unfolding tab_ok_def
  proof (intro conjI allI impI)
    show "ctrl_ok (group_width E) cap ctrl'" by (rule assms(6))
    show "length (slots[i := Some (k, v)]) = cap" using ok(2) by simp
    show "slots[i := Some (k, v)] ! n \<noteq> None" if "n < cap" "is_full (ctrl' ! n)" for n
      using that assms(7) [of n] ok(2,3) by (cases "n = i") auto
    show "ctrl' ! n = hash_h2 (element_hash E k')" if "n < cap" "slots[i := Some (k, v)] ! n = Some (k', v')" for n k' v'
      using that assms(7) [of n] ok(2,4) by (cases "n = i") auto
    show "placed (group_width E) cap ctrl' (\<lambda>c. c = kEmpty) (element_hash E k') n"
      if "n < cap" "slots[i := Some (k, v)] ! n = Some (k', v')" for n k' v'
      using that grow [OF assms(4)] grow [OF ok(5)] ok(2) by (cases "n = i") auto
    show "n = m" if "n < cap" "m < cap" "slots[i := Some (k, v)] ! n = Some (k', v1)" "slots[i := Some (k, v)] ! m = Some (k', v2)"
      for n m k' v1 v2
      using that fresh ok(2,6) by (cases "n = i"; cases "m = i") auto
  qed
qed

lemma tab_remove:
  assumes "tab_ok E cap ctrl slots" "i < cap" "\<not> is_full c"
    and "ctrl_ok (group_width E) cap ctrl'" "\<And>n. n \<le> cap \<Longrightarrow> ctrl' ! n = (if n = i then c else ctrl ! n)"
    and "\<And>off. off \<le> cap \<Longrightarrow> window_has (group_width E) cap ctrl' (\<lambda>c. c = kEmpty) off \<Longrightarrow>
      window_has (group_width E) cap ctrl (\<lambda>c. c = kEmpty) off"
  shows "tab_ok E cap ctrl' (slots[i := None])"
proof -
  note ok = tab_okD [OF assms(1)]
  have keep: "placed (group_width E) cap ctrl (\<lambda>c. c = kEmpty) h n \<Longrightarrow> placed (group_width E) cap ctrl' (\<lambda>c. c = kEmpty) h n" for h n
    unfolding placed_def using assms(6) [OF probe_pos_le] by metis
  show ?thesis
    unfolding tab_ok_def
  proof (intro conjI allI impI)
    show "ctrl_ok (group_width E) cap ctrl'" by (rule assms(4))
    show "length (slots[i := None]) = cap" using ok(2) by simp
    show "slots[i := None] ! n \<noteq> None" if "n < cap" "is_full (ctrl' ! n)" for n
      using that assms(3) assms(5) [of n] ok(2,3) by (cases "n = i") auto
    show "ctrl' ! n = hash_h2 (element_hash E k')" if "n < cap" "slots[i := None] ! n = Some (k', v')" for n k' v'
      using that assms(5) [of n] ok(2,4) by (cases "n = i") auto
    show "placed (group_width E) cap ctrl' (\<lambda>c. c = kEmpty) (element_hash E k') n" if "n < cap" "slots[i := None] ! n = Some (k', v')" for n k' v'
      using that keep [OF ok(5)] ok(2) by (cases "n = i") auto
    show "n = m" if "n < cap" "m < cap" "slots[i := None] ! n = Some (k', v1)" "slots[i := None] ! m = Some (k', v2)" for n m k' v1 v2
      using that ok(2,6) by (cases "n = i"; cases "m = i") auto
  qed
qed

lemma tab_assign:
  assumes "tab_ok E cap ctrl slots" "i < cap" "slots ! i = Some (k, v)"
  shows "tab_ok E cap ctrl (slots[i := Some (k, v')])"
proof -
  note ok = tab_okD [OF assms(1)]
  have same: "\<exists>w. slots ! n = Some (k', w)" if "n < cap" "slots[i := Some (k, v')] ! n = Some (k', v2)" for n k' v2
    using that assms(3) ok(2) by (cases "n = i") auto
  show ?thesis
    unfolding tab_ok_def
  proof (intro conjI allI impI)
    show "ctrl_ok (group_width E) cap ctrl" "length (slots[i := Some (k, v')]) = cap" using ok by simp_all
    show "slots[i := Some (k, v')] ! n \<noteq> None" if "n < cap" "is_full (ctrl ! n)" for n
      using that ok(2,3) by (cases "n = i") auto
    show "ctrl ! n = hash_h2 (element_hash E k')" if "n < cap" "slots[i := Some (k, v')] ! n = Some (k', v2)" for n k' v2
      using same [OF that] ok(4) [OF that(1)] by blast
    show "placed (group_width E) cap ctrl (\<lambda>c. c = kEmpty) (element_hash E k') n"
      if "n < cap" "slots[i := Some (k, v')] ! n = Some (k', v2)" for n k' v2
      using same [OF that] ok(5) [OF that(1)] by blast
    show "n = m" if "n < cap" "m < cap" "slots[i := Some (k, v')] ! n = Some (k', v1)" "slots[i := Some (k, v')] ! m = Some (k', v2)"
      for n m k' v1 v2
      using same [OF that(1,3)] same [OF that(2,4)] ok(6) [OF that(1,2)] by blast
  qed
qed

lemma tab_map:
  assumes "tab_ok E (rs_capacity t) (rs_ctrl t) (rs_slots t)"
  shows "rs_map t k = Some v \<longleftrightarrow> Some (k, v) \<in> set (rs_slots t)"
proof
  assume "rs_map t k = Some v"
  then have "(k, v) \<in> set (List.map_filter (\<lambda>s. s) (rs_slots t))" unfolding rs_map_def by (rule map_of_SomeD)
  then show "Some (k, v) \<in> set (rs_slots t)" by (auto simp: map_filter_def)
next
  assume a: "Some (k, v) \<in> set (rs_slots t)"
  then have "(k, v) \<in> set (List.map_filter (\<lambda>s. s) (rs_slots t))" by (force simp: map_filter_def)
  then obtain v' where v': "rs_map t k = Some v'" unfolding rs_map_def by (metis not_None_eq weak_map_of_SomeI)
  then have "(k, v') \<in> set (List.map_filter (\<lambda>s. s) (rs_slots t))" unfolding rs_map_def by (rule map_of_SomeD)
  then have b: "Some (k, v') \<in> set (rs_slots t)" by (auto simp: map_filter_def)
  have "v = v'" using a b tab_okD(2,6) [OF assms] unfolding in_set_conv_nth by (metis option.inject prod.inject)
  then show "rs_map t k = Some v" using v' by simp
qed

end
