(* ===== verification/RawHashGrow.thy ===== *)
theory RawHashGrow
  imports RawHashTable
begin

text \<open>
  Searching, filling a free slot and moving to a larger array (\<^verbatim>\<open>find\<close>, \<^verbatim>\<open>resize\<close> of \<^verbatim>\<open>phmap.h\<close>) keep the elements.
\<close>

context hash_table
begin

section \<open>Searching\<close>

lemma find_impl_map:
  fixes t :: "('k, 'v) raw_set"
  assumes "tab_ok E (rs_capacity t) (rs_ctrl t) (rs_slots t)" and "rs_capacity t + 1 < W \<or> (\<exists>e < rs_capacity t. rs_ctrl t ! e = kEmpty)"
  shows "(\<exists>i v. find_impl E key (element_hash E key) t = Some (Some i) \<and> i < rs_capacity t \<and> rs_slots t ! i = Some (key, v) \<and>
      rs_map t key = Some v) \<or>
    find_impl E key (element_hash E key) t = Some None \<and> rs_map t key = None"
proof -
  note ok = tab_okD [OF assms(1)]
  have map: "rs_map t key = Some v \<longleftrightarrow> (\<exists>i < rs_capacity t. rs_slots t ! i = Some (key, v))" for v
    unfolding tab_map [OF assms(1)] in_set_conv_nth ok(2) ..
  have reach: "placed W (rs_capacity t) (rs_ctrl t) (\<lambda>c. c = kEmpty) (element_hash E key) i" if "key_at key t i" for i
    using that ok(5) unfolding key_at_def by blast
  have "(\<exists>i. find_impl E key (element_hash E key) t = Some (Some i) \<and> key_at key t i) \<or>
      find_impl E key (element_hash E key) t = Some None \<and> (\<forall>i. \<not> key_at key t i)"
    by (rule find_impl_result [OF tab_searchable [OF assms(1)] assms(2) reach])
  then show ?thesis
  proof (elim disjE exE conjE)
    fix i assume i: "find_impl E key (element_hash E key) t = Some (Some i)" "key_at key t i"
    then obtain v where "i < rs_capacity t" "rs_slots t ! i = Some (key, v)" unfolding key_at_def by blast
    then show ?thesis using i(1) map by blast
  next
    assume none: "find_impl E key (element_hash E key) t = Some None" "\<forall>i. \<not> key_at key t i"
    then have "rs_map t key \<noteq> Some v" for v unfolding map key_at_def by blast
    then have "rs_map t key = None" by (cases "rs_map t key") auto
    then show ?thesis using none by blast
  qed
qed

section \<open>Filling a free slot\<close>

lemma fill_slot:
  fixes t :: "('k, 'v) raw_set"
  assumes "tab_ok E (rs_capacity t) (rs_ctrl t) (rs_slots t)" "i < rs_capacity t" "is_free (rs_ctrl t ! i)"
    and "placed W (rs_capacity t) (rs_ctrl t) is_free (element_hash E k) i" "\<And>v. Some (k, v) \<notin> set (rs_slots t)"
  obtains ctrl' where "set_ctrl E i (hash_h2 (element_hash E k)) t = Some (t\<lparr>rs_ctrl := ctrl'\<rparr>)"
    and "tab_ok E (rs_capacity t) ctrl' ((rs_slots t)[i := Some (k, v)])" and "i < length (rs_slots t)" "rs_slots t ! i = None"
    and "\<And>n. n \<le> rs_capacity t \<Longrightarrow> ctrl' ! n = (if n = i then hash_h2 (element_hash E k) else rs_ctrl t ! n)"
proof -
  note ok = tab_okD [OF assms(1)]
  obtain ctrl' where c: "set_ctrl E i (hash_h2 (element_hash E k)) t = Some (t\<lparr>rs_ctrl := ctrl'\<rparr>)" "ctrl_ok W (rs_capacity t) ctrl'"
      "\<And>n. n \<le> rs_capacity t \<Longrightarrow> ctrl' ! n = (if n = i then hash_h2 (element_hash E k) else rs_ctrl t ! n)"
    using set_ctrl_result [OF ok(1) assms(2), of "hash_h2 (element_hash E k)"] by auto
  have "rs_slots t ! i = None" using ok(3) [OF assms(2)] assms(3) by (metis free_special(4))
  then show ?thesis using c assms(2) ok(2) tab_insert [OF assms(1-5) c(2,3)] by (intro that [of ctrl']) simp_all
qed

lemma set_update_None:
  assumes "i < length xs" "xs ! i = None" "y \<noteq> None"
  shows "y \<in> set (xs[i := x]) \<longleftrightarrow> y = x \<or> y \<in> set xs"
proof
  show "y \<in> set (xs[i := x]) \<Longrightarrow> y = x \<or> y \<in> set xs" using set_update_subset_insert [of xs i x] by blast
  assume "y = x \<or> y \<in> set xs"
  then show "y \<in> set (xs[i := x])"
  proof
    assume "y \<in> set xs"
    then obtain n where n: "n < length xs" "xs ! n = y" unfolding in_set_conv_nth by blast
    then have "n \<noteq> i" using assms(2,3) by auto
    then have "xs[i := x] ! n = y" using n(2) by simp
    then show ?thesis using n(1) nth_mem [of n "xs[i := x]"] by simp
  qed (simp add: assms(1) set_update_memI)
qed

section \<open>A new array\<close>

lemma reset_ok:
  fixes t :: "('k, 'v) raw_set"
  assumes "valid_cap (rs_capacity t)" "length (rs_ctrl t) = rs_capacity t + W + 1" "rs_slots t = replicate (rs_capacity t) None"
  defines "t' \<equiv> reset_growth_left E (reset_ctrl E t)"
  shows "tab_ok E (rs_capacity t) (rs_ctrl t') (rs_slots t')" "rs_capacity t' = rs_capacity t" "rs_size t' = rs_size t"
    "rs_growth_left t' = sub64 (capacity_to_growth E (rs_capacity t)) (rs_size t)" "rs_slots t' = rs_slots t"
    "\<And>i. i < rs_capacity t \<Longrightarrow> rs_ctrl t' ! i = kEmpty"
proof -
  let ?cap = "rs_capacity t"
  have ctrl: "rs_ctrl t' = (replicate (?cap + W) kEmpty @ drop (?cap + W) (rs_ctrl t))[?cap := kSentinel]"
    by (simp add: t'_def reset_growth_left_def reset_ctrl_def)
  have nth: "rs_ctrl t' ! i = (if i = ?cap then kSentinel else kEmpty)" if "i < ?cap + W" for i
    using that by (simp add: ctrl nth_list_update nth_append)
  show slots: "rs_slots t' = rs_slots t" and "rs_capacity t' = ?cap" "rs_size t' = rs_size t"
    "rs_growth_left t' = sub64 (capacity_to_growth E ?cap) (rs_size t)"
    by (simp_all add: t'_def reset_growth_left_def reset_ctrl_def)
  show "\<And>i. i < ?cap \<Longrightarrow> rs_ctrl t' ! i = kEmpty" using nth by simp
  have "ctrl_ok W ?cap (rs_ctrl t')"
    unfolding ctrl_ok_def
  proof (intro conjI allI impI)
    show "length (rs_ctrl t') = ?cap + W + 1" using assms(2) by (simp add: ctrl)
  qed (use assms(1) nth Wpos in auto)
  then show "tab_ok E ?cap (rs_ctrl t') (rs_slots t')" unfolding tab_ok_def slots assms(3) using nth by auto
qed

lemmas initialize_ok = reset_ok [of "t\<lparr>rs_ctrl := replicate (rs_capacity t + W + 1) (he_garbage E),
  rs_slots := replicate (rs_capacity t) None\<rparr>" for t :: "('k, 'v) raw_set", folded initialize_slots_def]

lemma move_slot_ok:
  fixes old t :: "('k, 'v) raw_set"
  assumes "tab_ok E (rs_capacity t) (rs_ctrl t) (rs_slots t)" and "tab_ok E (rs_capacity old) (rs_ctrl old) (rs_slots old)"
    and "i < rs_capacity old" and "ctrl_count is_full (rs_capacity t) (rs_ctrl t) = ctrl_count is_full i (rs_ctrl old)"
    and "ctrl_count is_full (rs_capacity old) (rs_ctrl old) \<le> rs_capacity t" and "ctrl_count is_deleted (rs_capacity t) (rs_ctrl t) = 0"
    and "\<And>k v. Some (k, v) \<in> set (rs_slots t) \<longleftrightarrow> (\<exists>j < i. rs_slots old ! j = Some (k, v))"
  obtains t' where "move_slot E old i t = Some t'" "tab_ok E (rs_capacity t') (rs_ctrl t') (rs_slots t')"
    and "rs_capacity t' = rs_capacity t" "rs_size t' = rs_size t" "rs_growth_left t' = rs_growth_left t"
    and "ctrl_count is_full (rs_capacity t) (rs_ctrl t') = ctrl_count is_full (Suc i) (rs_ctrl old)"
    and "ctrl_count is_deleted (rs_capacity t) (rs_ctrl t') = 0"
    and "\<And>k v. Some (k, v) \<in> set (rs_slots t') \<longleftrightarrow> (\<exists>j < Suc i. rs_slots old ! j = Some (k, v))"
proof (cases "is_full (rs_ctrl old ! i)")
  case False
  note old = tab_okD [OF assms(2)]
  have "rs_slots old ! i = None" using False old(3) [OF assms(3)] by blast
  moreover have "move_slot E old i t = Some t" using False assms(3) old(1,2) ctrl_okD(2) [OF old(1)] by (simp add: move_slot_def)
  moreover have "(\<exists>j < Suc i. rs_slots old ! j = Some (k, v)) \<longleftrightarrow> (\<exists>j < i. rs_slots old ! j = Some (k, v))" for k v
    using calculation(1) by (auto simp: less_Suc_eq)
  ultimately show ?thesis using False assms by (intro that [of t]) (simp_all add: ctrl_count_Suc)
next
  case True
  note old = tab_okD [OF assms(2)] and ok = tab_okD [OF assms(1)]
  obtain k v where kv: "rs_slots old ! i = Some (k, v)" using True old(3) [OF assms(3)] by auto
  have fresh: "Some (k, v') \<notin> set (rs_slots t)" for v'
  proof
    assume "Some (k, v') \<in> set (rs_slots t)"
    then obtain j where j: "j < i" "rs_slots old ! j = Some (k, v')" using assms(7) by blast
    then have "j = i" using old(6) [of j i k v' v] kv assms(3) by simp
    then show False using j by simp
  qed
  have "ctrl_count is_full (Suc i) (rs_ctrl old) \<le> ctrl_count is_full (rs_capacity old) (rs_ctrl old)" using assms(3) by (intro ctrl_count_mono) simp
  then have "ctrl_count is_full (rs_capacity t) (rs_ctrl t) < rs_capacity t" using True assms(4,5) by (simp add: ctrl_count_Suc)
  then have "0 < ctrl_count is_kempty (rs_capacity t) (rs_ctrl t)" using ctrl_count_split [OF ok(1)] assms(6) by simp
  then obtain e where e: "e < rs_capacity t" "rs_ctrl t ! e = kEmpty" unfolding ctrl_count_pos is_kempty_def by blast
  then have free: "rs_capacity t + 1 < W \<or> (\<exists>i < rs_capacity t. is_free (rs_ctrl t ! i))" by auto
  obtain n len where n: "find_first_non_full E (element_hash E k) t = Some (n, len)" "n < rs_capacity t" "is_free (rs_ctrl t ! n)"
      "placed W (rs_capacity t) (rs_ctrl t) is_free (element_hash E k) n"
    using find_first_non_full_result [OF ok(1) free, of "element_hash E k"] e by (metis free_special(1))
  obtain ctrl' where c: "set_ctrl E n (hash_h2 (element_hash E k)) t = Some (t\<lparr>rs_ctrl := ctrl'\<rparr>)"
      "tab_ok E (rs_capacity t) ctrl' ((rs_slots t)[n := Some (k, v)])" "n < length (rs_slots t)" "rs_slots t ! n = None"
      "\<And>m. m \<le> rs_capacity t \<Longrightarrow> ctrl' ! m = (if m = n then hash_h2 (element_hash E k) else rs_ctrl t ! m)"
    using fill_slot [OF assms(1) n(2-4) fresh, where v = v] by metis
  let ?t = "t\<lparr>rs_ctrl := ctrl', rs_slots := (rs_slots t)[n := Some (k, v)]\<rparr>"
  have count: "ctrl_count P (rs_capacity t) ctrl' + of_bool (P (rs_ctrl t ! n)) = ctrl_count P (rs_capacity t) (rs_ctrl t) + of_bool (P (hash_h2 (element_hash E k)))" for P
    using n(2) c(5) by (intro ctrl_count_update) simp_all
  have nf: "\<not> is_full (rs_ctrl t ! n)" using n(3) by (metis free_special(4))
  have h2: "\<not> is_deleted (hash_h2 (element_hash E k))" using full_neq_special [OF is_full_h2] by (simp add: is_deleted_def)
  show ?thesis
  proof (rule that [of ?t])
    show "move_slot E old i t = Some ?t"
      using True kv n(1) c(1,3,4) assms(3) ctrl_okD(2) [OF old(1)] old(2) by (simp add: move_slot_def slot_at_def construct_def Let_def)
    show "ctrl_count is_full (rs_capacity t) (rs_ctrl ?t) = ctrl_count is_full (Suc i) (rs_ctrl old)"
      using count [of is_full] nf True assms(4) by (simp add: ctrl_count_Suc)
    show "ctrl_count is_deleted (rs_capacity t) (rs_ctrl ?t) = 0" using count [of is_deleted] assms(6) h2 by simp
    show "Some (k', v') \<in> set (rs_slots ?t) \<longleftrightarrow> (\<exists>j < Suc i. rs_slots old ! j = Some (k', v'))" for k' v'
      using assms(7) [of k' v'] kv c(3,4) by (auto simp: set_update_None less_Suc_eq)
  qed (use c(2) in simp_all)
qed

lemma move_slots_ok:
  fixes old t :: "('k, 'v) raw_set"
  assumes "rs_capacity old = 0 \<and> rs_slots old = [] \<or> tab_ok E (rs_capacity old) (rs_ctrl old) (rs_slots old)"
    and "tab_ok E (rs_capacity t) (rs_ctrl t) (rs_slots t)" "\<And>k v. Some (k, v) \<notin> set (rs_slots t)"
    and "ctrl_count is_full (rs_capacity t) (rs_ctrl t) = 0" "ctrl_count is_deleted (rs_capacity t) (rs_ctrl t) = 0"
    and "ctrl_count is_full (rs_capacity old) (rs_ctrl old) \<le> rs_capacity t"
  obtains t' where "fold_opt (move_slot E old) [0..<rs_capacity old] t = Some t'" "tab_ok E (rs_capacity t') (rs_ctrl t') (rs_slots t')"
    and "rs_capacity t' = rs_capacity t" "rs_size t' = rs_size t" "rs_growth_left t' = rs_growth_left t"
    and "ctrl_count is_full (rs_capacity t) (rs_ctrl t') = ctrl_count is_full (rs_capacity old) (rs_ctrl old)"
    and "ctrl_count is_deleted (rs_capacity t) (rs_ctrl t') = 0"
    and "\<And>k v. Some (k, v) \<in> set (rs_slots t') \<longleftrightarrow> Some (k, v) \<in> set (rs_slots old)"
proof -
  let ?cap = "rs_capacity t"
  have "\<exists>t'. fold_opt (move_slot E old) [0..<i] t = Some t' \<and> tab_ok E ?cap (rs_ctrl t') (rs_slots t') \<and>
      rs_capacity t' = ?cap \<and> rs_size t' = rs_size t \<and> rs_growth_left t' = rs_growth_left t \<and>
      ctrl_count is_full ?cap (rs_ctrl t') = ctrl_count is_full i (rs_ctrl old) \<and> ctrl_count is_deleted ?cap (rs_ctrl t') = 0 \<and>
      (\<forall>k v. Some (k, v) \<in> set (rs_slots t') \<longleftrightarrow> (\<exists>j < i. rs_slots old ! j = Some (k, v)))" if "i \<le> rs_capacity old" for i
    using that
  proof (induction i)
    case 0
    show ?case using assms(2-5) by (intro exI [of _ t]) (simp add: ctrl_count_def)
  next
    case (Suc i)
    then have i: "i < rs_capacity old" by simp
    then have old: "tab_ok E (rs_capacity old) (rs_ctrl old) (rs_slots old)" using assms(1) by auto
    from Suc obtain t1 where t1: "fold_opt (move_slot E old) [0..<i] t = Some t1" "tab_ok E ?cap (rs_ctrl t1) (rs_slots t1)"
        "rs_capacity t1 = ?cap" "rs_size t1 = rs_size t" "rs_growth_left t1 = rs_growth_left t"
        "ctrl_count is_full ?cap (rs_ctrl t1) = ctrl_count is_full i (rs_ctrl old)" "ctrl_count is_deleted ?cap (rs_ctrl t1) = 0"
        "\<And>k v. Some (k, v) \<in> set (rs_slots t1) \<longleftrightarrow> (\<exists>j < i. rs_slots old ! j = Some (k, v))"
      by auto
    have tab: "tab_ok E (rs_capacity t1) (rs_ctrl t1) (rs_slots t1)" using t1(2,3) by simp
    obtain t2 where "move_slot E old i t1 = Some t2" "tab_ok E (rs_capacity t2) (rs_ctrl t2) (rs_slots t2)"
        "rs_capacity t2 = rs_capacity t1" "rs_size t2 = rs_size t1" "rs_growth_left t2 = rs_growth_left t1"
        "ctrl_count is_full (rs_capacity t1) (rs_ctrl t2) = ctrl_count is_full (Suc i) (rs_ctrl old)"
        "ctrl_count is_deleted (rs_capacity t1) (rs_ctrl t2) = 0"
        "\<And>k v. Some (k, v) \<in> set (rs_slots t2) \<longleftrightarrow> (\<exists>j < Suc i. rs_slots old ! j = Some (k, v))"
      by (rule move_slot_ok [OF tab old i]) (use t1 assms(6) in simp_all)
    then show ?case using t1(1,3-5) by (intro exI [of _ t2]) (simp add: fold_opt_append)
  qed
  from this [OF order_refl] obtain t' where t': "fold_opt (move_slot E old) [0..<rs_capacity old] t = Some t'"
      "tab_ok E ?cap (rs_ctrl t') (rs_slots t')" "rs_capacity t' = ?cap" "rs_size t' = rs_size t" "rs_growth_left t' = rs_growth_left t"
      "ctrl_count is_full ?cap (rs_ctrl t') = ctrl_count is_full (rs_capacity old) (rs_ctrl old)" "ctrl_count is_deleted ?cap (rs_ctrl t') = 0"
      "\<And>k v. Some (k, v) \<in> set (rs_slots t') \<longleftrightarrow> (\<exists>j < rs_capacity old. rs_slots old ! j = Some (k, v))"
    by auto
  have len: "length (rs_slots old) = rs_capacity old" using assms(1) tab_okD(2) by auto
  have "Some (k, v) \<in> set (rs_slots t') \<longleftrightarrow> Some (k, v) \<in> set (rs_slots old)" for k v
    unfolding t'(8) by (auto simp: in_set_conv_nth len)
  then show ?thesis using t' by (intro that [of t']) simp_all
qed

lemma resize_ok:
  fixes t :: "('k, 'v) raw_set"
  assumes "rs_capacity t = 0 \<and> rs_slots t = [] \<or> tab_ok E (rs_capacity t) (rs_ctrl t) (rs_slots t)" and "valid_cap cap"
    and "ctrl_count is_full (rs_capacity t) (rs_ctrl t) \<le> cap"
  obtains t' where "rs_resize E cap t = Some t'" "tab_ok E (rs_capacity t') (rs_ctrl t') (rs_slots t')"
    and "rs_capacity t' = cap" "rs_size t' = rs_size t" "rs_growth_left t' = sub64 (capacity_to_growth E cap) (rs_size t)"
    and "ctrl_count is_full cap (rs_ctrl t') = ctrl_count is_full (rs_capacity t) (rs_ctrl t)"
    and "ctrl_count is_deleted cap (rs_ctrl t') = 0"
    and "\<And>k v. Some (k, v) \<in> set (rs_slots t') \<longleftrightarrow> Some (k, v) \<in> set (rs_slots t)"
proof -
  let ?init = "initialize_slots E (t\<lparr>rs_capacity := cap\<rparr>)"
  have init: "tab_ok E cap (rs_ctrl ?init) (rs_slots ?init)" "rs_capacity ?init = cap" "rs_size ?init = rs_size t"
    "rs_growth_left ?init = sub64 (capacity_to_growth E cap) (rs_size t)" "rs_slots ?init = replicate cap None"
    "\<And>i. i < cap \<Longrightarrow> rs_ctrl ?init ! i = kEmpty"
    using initialize_ok [of "t\<lparr>rs_capacity := cap\<rparr>"] assms(2) by (simp_all del: replicate_Suc)
  have zero: "ctrl_count P cap (rs_ctrl ?init) = 0" if "\<not> P kEmpty" for P
    using ctrl_count_pos [of P cap "rs_ctrl ?init"] init(6) that by auto
  have new: "tab_ok E (rs_capacity ?init) (rs_ctrl ?init) (rs_slots ?init)" "\<And>k v. Some (k, v) \<notin> set (rs_slots ?init)"
    "ctrl_count is_full (rs_capacity ?init) (rs_ctrl ?init) = 0" "ctrl_count is_deleted (rs_capacity ?init) (rs_ctrl ?init) = 0"
    "ctrl_count is_full (rs_capacity t) (rs_ctrl t) \<le> rs_capacity ?init"
    using init(1,2,5) zero [of is_full] zero [of is_deleted] assms(3) by (simp_all add: is_deleted_def)
  show ?thesis
  proof (rule move_slots_ok [OF assms(1) new])
    fix t' assume t': "fold_opt (move_slot E t) [0..<rs_capacity t] ?init = Some t'" "tab_ok E (rs_capacity t') (rs_ctrl t') (rs_slots t')"
      "rs_capacity t' = rs_capacity ?init" "rs_size t' = rs_size ?init" "rs_growth_left t' = rs_growth_left ?init"
      "ctrl_count is_full (rs_capacity ?init) (rs_ctrl t') = ctrl_count is_full (rs_capacity t) (rs_ctrl t)"
      "ctrl_count is_deleted (rs_capacity ?init) (rs_ctrl t') = 0"
      "\<And>k v. Some (k, v) \<in> set (rs_slots t') \<longleftrightarrow> Some (k, v) \<in> set (rs_slots t)"
    then show ?thesis by (intro that [of t']) (simp_all add: rs_resize_def init)
  qed
qed

end

end
