(* ===== verification/RawHashDrop.thy ===== *)
theory RawHashDrop
  imports RawHashGrow "HOL-Library.Multiset"
begin

text \<open>
  \<^verbatim>\<open>drop_deletes_without_resize\<close> of \<^verbatim>\<open>phmap.h\<close>: every full byte is marked deleted and every other one empty; then each
  element stays where it is, moves to an empty slot or changes places with an element that is still to be placed.
\<close>

section \<open>While elements are placed again\<close>

definition drop_ok :: "'k hash_env \<Rightarrow> nat \<Rightarrow> byte list \<Rightarrow> ('k \<times> 'v) option list \<Rightarrow> bool" where
  "drop_ok E cap ctrl slots \<longleftrightarrow> ctrl_ok (group_width E) cap ctrl \<and> length slots = cap \<and>
     (\<forall>i < cap. slots ! i = None \<longleftrightarrow> ctrl ! i = kEmpty) \<and>
     (\<forall>i k v. i < cap \<longrightarrow> is_full (ctrl ! i) \<longrightarrow> slots ! i = Some (k, v) \<longrightarrow>
        ctrl ! i = hash_h2 (element_hash E k) \<and> placed (group_width E) cap ctrl is_free (element_hash E k) i) \<and>
     (\<forall>i j k v v'. i < cap \<longrightarrow> j < cap \<longrightarrow> slots ! i = Some (k, v) \<longrightarrow> slots ! j = Some (k, v') \<longrightarrow> i = j)"

lemma drop_okD:
  assumes "drop_ok E cap ctrl slots"
  shows "ctrl_ok (group_width E) cap ctrl" "length slots = cap" "i < cap \<Longrightarrow> slots ! i = None \<longleftrightarrow> ctrl ! i = kEmpty"
    "i < cap \<Longrightarrow> is_full (ctrl ! i) \<Longrightarrow> slots ! i = Some (k, v) \<Longrightarrow> ctrl ! i = hash_h2 (element_hash E k)"
    "i < cap \<Longrightarrow> is_full (ctrl ! i) \<Longrightarrow> slots ! i = Some (k, v) \<Longrightarrow> placed (group_width E) cap ctrl is_free (element_hash E k) i"
    "i < cap \<Longrightarrow> j < cap \<Longrightarrow> slots ! i = Some (k, v) \<Longrightarrow> slots ! j = Some (k, v') \<Longrightarrow> i = j"
  using assms unfolding drop_ok_def by blast+

definition swap_slots :: "nat \<Rightarrow> nat \<Rightarrow> 'a list \<Rightarrow> 'a list" where
  "swap_slots i n xs = xs[i := xs ! n, n := xs ! i]"

lemma swap_slots_nth:
  "i < length xs \<Longrightarrow> n < length xs \<Longrightarrow> m < length xs \<Longrightarrow>
     swap_slots i n xs ! m = (if m = n then xs ! i else if m = i then xs ! n else xs ! m)"
  by (auto simp: swap_slots_def nth_list_update)

lemma swap_slots_length [simp]: "length (swap_slots i n xs) = length xs"
  by (simp add: swap_slots_def)

lemma swap_slots_mset: "i < length xs \<Longrightarrow> n < length xs \<Longrightarrow> mset (swap_slots i n xs) = mset xs"
  unfolding swap_slots_def by (metis list_update_swap mset_swap)

text \<open>An element that is to be placed goes to the free slot \<open>n\<close>; what was there takes its place.\<close>

lemma drop_exchange:
  assumes "drop_ok E cap ctrl slots" "i < cap" "n < cap" "ctrl ! i = kDeleted" "is_free (ctrl ! n)" "slots ! i = Some (k, v)"
    and "placed (group_width E) cap ctrl is_free (element_hash E k) n" "ctrl_ok (group_width E) cap ctrl'"
    and "\<And>m. m \<le> cap \<Longrightarrow> ctrl' ! m = (if m = n then hash_h2 (element_hash E k) else if m = i then ctrl ! n else ctrl ! m)"
  shows "drop_ok E cap ctrl' (swap_slots i n slots)"
proof -
  note ok = drop_okD [OF assms(1)]
  have keep: "placed (group_width E) cap ctrl is_free h m \<Longrightarrow> placed (group_width E) cap ctrl' is_free h m" for h m
    by (rule placed_mono [of cap]) (use assms(4,9) in \<open>auto split: if_splits\<close>)
  have nth: "swap_slots i n slots ! m = (if m = n then Some (k, v) else if m = i then slots ! n else slots ! m)" if "m < cap" for m
    using that swap_slots_nth [of i slots n m] ok(2) assms(2,3,6) by simp
  have n_free: "\<not> is_full (ctrl ! n)" using assms(5) by (metis free_special(4))
  show ?thesis
    unfolding drop_ok_def
  proof (intro conjI allI impI)
    show "ctrl_ok (group_width E) cap ctrl'" "length (swap_slots i n slots) = cap" using assms(8) ok(2) by simp_all
    show "swap_slots i n slots ! m = None \<longleftrightarrow> ctrl' ! m = kEmpty" if "m < cap" for m
      using nth [OF that] ok(3) [OF that] ok(3) [OF assms(3)] assms(9) [of m] full_neq_special [OF is_full_h2] that by auto
    show "ctrl' ! m = hash_h2 (element_hash E k')"
      if "m < cap" "is_full (ctrl' ! m)" "swap_slots i n slots ! m = Some (k', v')" for m k' v'
      using that nth [OF that(1)] ok(4) [OF that(1), of k' v'] assms(9) [of m] n_free by (auto split: if_splits)
    show "placed (group_width E) cap ctrl' is_free (element_hash E k') m"
      if "m < cap" "is_full (ctrl' ! m)" "swap_slots i n slots ! m = Some (k', v')" for m k' v'
      using that nth [OF that(1)] keep [OF ok(5) [OF that(1), of k' v']] keep [OF assms(7)] assms(9) [of m] n_free by (auto split: if_splits)
    show "m = m'" if "m < cap" "m' < cap" "swap_slots i n slots ! m = Some (k', v1)" "swap_slots i n slots ! m' = Some (k', v2)" for m m' k' v1 v2
    proof -
      let ?p = "\<lambda>m. if m = n then i else if m = i then n else m"
      have "slots ! ?p m = Some (k', v1)" "slots ! ?p m' = Some (k', v2)" using that nth assms(6) by (auto split: if_splits)
      moreover have "?p m < cap" "?p m' < cap" using that assms(2,3) by auto
      ultimately have "?p m = ?p m'" using ok(6) by blast
      then show ?thesis by (auto split: if_splits)
    qed
  qed
qed

lemma drop_finished:
  assumes "drop_ok E cap ctrl slots" "\<And>i. i < cap \<Longrightarrow> ctrl ! i \<noteq> kDeleted"
  shows "tab_ok E cap ctrl slots"
proof -
  note ok = drop_okD [OF assms(1)]
  have full: "is_full (ctrl ! i)" if "i < cap" "slots ! i = Some kv" for i kv
    using ctrl_okD(4) [OF ok(1) that(1)] assms(2) [OF that(1)] ok(3) [OF that(1)] that(2) by (auto simp: is_free_def)
  have weak: "placed (group_width E) cap ctrl is_free h i \<Longrightarrow> placed (group_width E) cap ctrl (\<lambda>c. c = kEmpty) h i" for h i
    by (rule placed_mono [of cap]) auto
  show ?thesis
    unfolding tab_ok_def
  proof (intro conjI allI impI)
    show "ctrl_ok (group_width E) cap ctrl" "length slots = cap" using ok by simp_all
    show "slots ! i \<noteq> None" if "i < cap" "is_full (ctrl ! i)" for i using that ok(3) full_neq_special by blast
    show "ctrl ! i = hash_h2 (element_hash E k)" if "i < cap" "slots ! i = Some (k, v)" for i k v
      using ok(4) [OF that(1) full [OF that] that(2)] .
    show "placed (group_width E) cap ctrl (\<lambda>c. c = kEmpty) (element_hash E k) i" if "i < cap" "slots ! i = Some (k, v)" for i k v
      using weak [OF ok(5) [OF that(1) full [OF that] that(2)]] .
    show "i = j" if "i < cap" "j < cap" "slots ! i = Some (k, v)" "slots ! j = Some (k, v')" for i j k v v'
      using ok(6) [OF that] .
  qed
qed

lemma tab_full_count:
  assumes "tab_ok E cap ctrl slots"
  shows "ctrl_count is_full cap ctrl = length (filter (\<lambda>s. s \<noteq> None) slots)"
proof -
  have "ctrl_count is_full cap ctrl = card {i. i < cap \<and> is_full (ctrl ! i)}"
    by (simp add: ctrl_count_def lessThan_def Collect_conj_eq [symmetric])
  also have "{i. i < cap \<and> is_full (ctrl ! i)} = {i. i < length slots \<and> slots ! i \<noteq> None}" using tab_okD(2,3) [OF assms] by auto
  finally show ?thesis by (simp add: length_filter_conv_card)
qed

context hash_table
begin

section \<open>The loop\<close>

lemma drop_step:
  fixes t :: "('k, 'v) raw_set"
  assumes "drop_ok E (rs_capacity t) (rs_ctrl t) (rs_slots t)" "i < rs_capacity t" "rs_ctrl t ! i = kDeleted"
  obtains ctrl' n where "n < rs_capacity t" "is_free (rs_ctrl t ! n)" "drop_ok E (rs_capacity t) ctrl' (swap_slots i n (rs_slots t))"
    and "\<And>m. m \<le> rs_capacity t \<Longrightarrow> ctrl' ! m = (if m = n then ctrl' ! n else if m = i then rs_ctrl t ! n else rs_ctrl t ! m)"
    and "is_full (ctrl' ! n)"
    and "drop_loop E i t = drop_loop E (if n = i \<or> rs_ctrl t ! n = kEmpty then i + 1 else i)
      (t\<lparr>rs_ctrl := ctrl', rs_slots := swap_slots i n (rs_slots t)\<rparr>)"
proof -
  let ?cap = "rs_capacity t"
  note ok = drop_okD [OF assms(1)]
  note cap = ctrl_okD(1) [OF ok(1)]
  obtain k v where kv: "rs_slots t ! i = Some (k, v)" using ok(3) [OF assms(2)] assms(3) by auto
  let ?h = "element_hash E k"
  obtain n len where n: "find_first_non_full E ?h t = Some (n, len)" "n < ?cap" "is_free (rs_ctrl t ! n)" "placed W ?cap (rs_ctrl t) is_free ?h n"
  proof -
    have free: "is_free (rs_ctrl t ! i)" using assms(3) by simp
    show ?thesis
    proof (rule find_first_non_full_result [OF ok(1), of ?h])
      show "?cap + 1 < W \<or> (\<exists>i < ?cap. is_free (rs_ctrl t ! i))" using assms(2) free by blast
    qed (use that assms(2) free in blast)
  qed
  have len: "i < length (rs_ctrl t)" "n < length (rs_ctrl t)" "i < length (rs_slots t)" "n < length (rs_slots t)"
    using assms(2) n(2) ctrl_okD(2) [OF ok(1)] ok(2) by simp_all
  have slot: "slot_at i t = Some (k, v)" using kv len by (simp add: slot_at_def)
  have pi: "probe_index E ?h t m = probe_group W ?h ?cap m" if "m < ?cap" for m using probe_index_group [OF cap, of m] that by simp
  have deleted: "is_deleted (rs_ctrl t ! i)" "i \<noteq> ?cap" using assms(2,3) by (simp_all add: is_deleted_def)
  note unf = drop_loop.simps [of E i t]
  show ?thesis
  proof (cases "probe_index E ?h t n = probe_index E ?h t i")
    case True
    have "placed W ?cap (rs_ctrl t) is_free ?h i"
      using n(4) same_group_same_window [OF cap Wcase, of n i ?h] True n(2) assms(2) unfolding pi [OF n(2)] pi [OF assms(2)] placed_def
      by (metis less_imp_le)
    moreover obtain ctrl' where c: "set_ctrl E i (hash_h2 ?h) t = Some (t\<lparr>rs_ctrl := ctrl'\<rparr>)" "ctrl_ok W ?cap ctrl'"
        "\<And>m. m \<le> ?cap \<Longrightarrow> ctrl' ! m = (if m = i then hash_h2 ?h else rs_ctrl t ! m)"
      using set_ctrl_result [OF ok(1) assms(2), of "hash_h2 ?h"] by auto
    ultimately have "drop_ok E ?cap ctrl' (swap_slots i i (rs_slots t))"
      using assms(3) kv c(2,3) by (intro drop_exchange [OF assms(1,2,2)]) auto
    moreover have "drop_loop E i t = drop_loop E (i + 1) (t\<lparr>rs_ctrl := ctrl'\<rparr>)"
      unfolding unf using True c(1) n(1) slot deleted len by simp
    ultimately show ?thesis using c assms(2,3) by (intro that [of i ctrl']) (auto simp: swap_slots_def)
  next
    case False
    then have ni: "n \<noteq> i" by auto
    obtain c1 where c1: "set_ctrl E n (hash_h2 ?h) t = Some (t\<lparr>rs_ctrl := c1\<rparr>)" "ctrl_ok W ?cap c1"
        "\<And>m. m \<le> ?cap \<Longrightarrow> c1 ! m = (if m = n then hash_h2 ?h else rs_ctrl t ! m)"
      using set_ctrl_result [OF ok(1) n(2), of "hash_h2 ?h"] by auto
    show ?thesis
    proof (cases "rs_ctrl t ! n = kEmpty")
      case True
      let ?t1 = "t\<lparr>rs_ctrl := c1, rs_slots := swap_slots i n (rs_slots t)\<rparr>"
      have t1: "rs_ctrl ?t1 = c1" "rs_capacity ?t1 = ?cap" by simp_all
      have ki: "is_full kEmpty \<or> is_free kEmpty" by simp
      obtain c2 where c2: "set_ctrl E i kEmpty ?t1 = Some (?t1\<lparr>rs_ctrl := c2\<rparr>)" "ctrl_ok W ?cap c2"
          "\<And>m. m \<le> ?cap \<Longrightarrow> c2 ! m = (if m = i then kEmpty else c1 ! m)"
        using set_ctrl_result [of ?t1 i kEmpty, unfolded t1, OF c1(2) assms(2) ki] by metis
      have nth: "c2 ! m = (if m = n then hash_h2 ?h else if m = i then rs_ctrl t ! n else rs_ctrl t ! m)" if "m \<le> ?cap" for m
        using c2(3) [OF that] c1(3) [OF that] ni True by auto
      have none: "rs_slots t ! n = None" using ok(3) [OF n(2)] True by simp
      have "transfer n i (t\<lparr>rs_ctrl := c1\<rparr>) = Some ?t1"
        using kv none len ni
        by (simp add: transfer_def slot_at_def construct_def destroy_def swap_slots_def list_update_swap [of i n])
      then have "drop_loop E i t = drop_loop E (i + 1) (?t1\<lparr>rs_ctrl := c2\<rparr>)"
        unfolding unf using False c1(1) c2(1) n(1) slot deleted len True by (simp add: is_empty_def)
      also have "?t1\<lparr>rs_ctrl := c2\<rparr> = t\<lparr>rs_ctrl := c2, rs_slots := swap_slots i n (rs_slots t)\<rparr>" by (cases t) simp
      finally have "drop_loop E i t = drop_loop E (i + 1) (t\<lparr>rs_ctrl := c2, rs_slots := swap_slots i n (rs_slots t)\<rparr>)" .
      moreover have "drop_ok E ?cap c2 (swap_slots i n (rs_slots t))" by (rule drop_exchange [OF assms(1,2) n(2) assms(3) n(3) kv n(4) c2(2) nth])
      ultimately show ?thesis using n(2,3) nth True by (intro that [of n c2]) auto
    next
      case other: False
      have nth: "c1 ! m = (if m = n then hash_h2 ?h else if m = i then rs_ctrl t ! n else rs_ctrl t ! m)" if "m \<le> ?cap" for m
        using c1(3) [OF that] n(3) other assms(3) by (auto simp: is_free_def)
      obtain kv' where kv': "rs_slots t ! n = Some kv'" using ok(3) [OF n(2)] other by auto
      have "drop_loop E i t = drop_loop E i (t\<lparr>rs_ctrl := c1, rs_slots := swap_slots i n (rs_slots t)\<rparr>)"
        by (subst unf, use False c1(1) n(1) slot deleted len other kv kv' in \<open>simp add: is_empty_def slot_at_def swap_slots_def\<close>)
      moreover have "drop_ok E ?cap c1 (swap_slots i n (rs_slots t))" by (rule drop_exchange [OF assms(1,2) n(2) assms(3) n(3) kv n(4) c1(2) nth])
      ultimately show ?thesis using n(2,3) nth other ni by (intro that [of n c1]) auto
    qed
  qed
qed

lemma drop_loop_result:
  fixes t :: "('k, 'v) raw_set"
  assumes "drop_ok E (rs_capacity t) (rs_ctrl t) (rs_slots t)" "i \<le> rs_capacity t" "\<And>m. m < i \<Longrightarrow> rs_ctrl t ! m \<noteq> kDeleted"
  shows "\<exists>ctrl' slots'. drop_loop E i t = Some (t\<lparr>rs_ctrl := ctrl', rs_slots := slots'\<rparr>) \<and>
    tab_ok E (rs_capacity t) ctrl' slots' \<and> ctrl_count is_deleted (rs_capacity t) ctrl' = 0 \<and> mset slots' = mset (rs_slots t)"
  using assms
proof (induction "rs_capacity t - i + ctrl_count is_deleted (rs_capacity t) (rs_ctrl t)" arbitrary: i t rule: less_induct)
  case less
  let ?cap = "rs_capacity t"
  note ok = drop_okD [OF less.prems(1)]
  show ?case
  proof (cases "i = ?cap")
    case True
    have "drop_loop E i t = Some (t\<lparr>rs_ctrl := rs_ctrl t, rs_slots := rs_slots t\<rparr>)" using True by (subst drop_loop.simps) simp
    moreover have "tab_ok E ?cap (rs_ctrl t) (rs_slots t)" using less.prems(1,3) True by (intro drop_finished) auto
    moreover have "ctrl_count is_deleted ?cap (rs_ctrl t) = 0"
      using ctrl_count_pos [of is_deleted ?cap "rs_ctrl t"] less.prems(3) True by (auto simp: is_deleted_def)
    ultimately show ?thesis by blast
  next
    case False
    then have i: "i < ?cap" using less.prems(2) by simp
    show ?thesis
    proof (cases "rs_ctrl t ! i = kDeleted")
      case False
      have "drop_loop E i t = drop_loop E (i + 1) t"
        using i False ctrl_okD(2) [OF ok(1)] by (subst drop_loop.simps) (simp add: is_deleted_def)
      moreover have "\<exists>ctrl' slots'. drop_loop E (i + 1) t = Some (t\<lparr>rs_ctrl := ctrl', rs_slots := slots'\<rparr>) \<and>
        tab_ok E ?cap ctrl' slots' \<and> ctrl_count is_deleted ?cap ctrl' = 0 \<and> mset slots' = mset (rs_slots t)"
        using i less.prems(3) False by (intro less.hyps less.prems(1)) (auto simp: less_Suc_eq)
      ultimately show ?thesis by simp
    next
      case True
      obtain ctrl' n where n: "n < ?cap" "is_free (rs_ctrl t ! n)" "drop_ok E ?cap ctrl' (swap_slots i n (rs_slots t))"
          "\<And>m. m \<le> ?cap \<Longrightarrow> ctrl' ! m = (if m = n then ctrl' ! n else if m = i then rs_ctrl t ! n else rs_ctrl t ! m)"
          "is_full (ctrl' ! n)"
          "drop_loop E i t = drop_loop E (if n = i \<or> rs_ctrl t ! n = kEmpty then i + 1 else i)
            (t\<lparr>rs_ctrl := ctrl', rs_slots := swap_slots i n (rs_slots t)\<rparr>)"
        using drop_step [OF less.prems(1) i True] by metis
      let ?t = "t\<lparr>rs_ctrl := ctrl', rs_slots := swap_slots i n (rs_slots t)\<rparr>"
      let ?i = "if n = i \<or> rs_ctrl t ! n = kEmpty then i + 1 else i"
      have lt: "ctrl_count is_deleted ?cap ctrl' < ctrl_count is_deleted ?cap (rs_ctrl t)"
        unfolding ctrl_count_def
      proof (rule sum_strict_mono_ex1)
        have le: "is_deleted (ctrl' ! m) \<Longrightarrow> is_deleted (rs_ctrl t ! m)" if "m < ?cap" for m
          using n(4) [of m] n(5) True that full_neq_special by (auto simp: is_deleted_def split: if_splits)
        then show "\<forall>m \<in> {..<?cap}. of_bool (is_deleted (ctrl' ! m)) \<le> (of_bool (is_deleted (rs_ctrl t ! m)) :: nat)" by auto
        have "\<exists>m < ?cap. is_deleted (rs_ctrl t ! m) \<and> \<not> is_deleted (ctrl' ! m)"
        proof (cases "n = i \<or> rs_ctrl t ! n = kDeleted")
          case True
          then show ?thesis using n(1,5) \<open>rs_ctrl t ! i = kDeleted\<close> full_neq_special by (intro exI [of _ n]) (auto simp: is_deleted_def)
        next
          case False
          then show ?thesis using n(2) n(4) [of i] i True by (intro exI [of _ i]) (auto simp: is_deleted_def is_free_def)
        qed
        then show "\<exists>m \<in> {..<?cap}. of_bool (is_deleted (ctrl' ! m)) < (of_bool (is_deleted (rs_ctrl t ! m)) :: nat)" by auto
      qed simp
      have "?cap - ?i \<le> ?cap - i" by (simp add: diff_le_mono2)
      have t: "rs_capacity ?t = ?cap" "rs_ctrl ?t = ctrl'" by simp_all
      from add_le_less_mono [OF \<open>?cap - ?i \<le> ?cap - i\<close> lt]
      have "rs_capacity ?t - ?i + ctrl_count is_deleted (rs_capacity ?t) (rs_ctrl ?t) < ?cap - i + ctrl_count is_deleted ?cap (rs_ctrl t)"
        unfolding t .
      moreover have "rs_ctrl ?t ! m \<noteq> kDeleted" if "m < ?i" for m
        using n(4) [of m] n(2,5) less.prems(3) [of m] that i full_neq_special by (auto split: if_splits)
      ultimately have "\<exists>c s. drop_loop E ?i ?t = Some (?t\<lparr>rs_ctrl := c, rs_slots := s\<rparr>) \<and> tab_ok E (rs_capacity ?t) c s \<and>
          ctrl_count is_deleted (rs_capacity ?t) c = 0 \<and> mset s = mset (rs_slots ?t)"
        using n(3) i by (intro less.hyps) auto
      then show ?thesis using n(6) swap_slots_mset [of i "rs_slots t" n] i n(1) ok(2) by auto
    qed
  qed
qed

section \<open>Marking\<close>

abbreviation marked_byte :: "byte \<Rightarrow> byte" where
  "marked_byte c \<equiv> if is_full c then kDeleted else kEmpty"

lemma store_group_nth:
  "pos + length g \<le> length ctrl \<Longrightarrow> i < length ctrl \<Longrightarrow>
     store_group pos g ctrl ! i = (if pos \<le> i \<and> i < pos + length g then g ! (i - pos) else ctrl ! i)"
  by (auto simp: store_group_def nth_append min_def)

lemma store_group_length [simp]: "pos + length g \<le> length ctrl \<Longrightarrow> length (store_group pos g ctrl) = length ctrl"
  by (simp add: store_group_def)

lemma convert_loop_result:
  assumes "m \<le> N" "cap + 1 = W * N" "length ctrl = cap + W + 1" "\<And>i. m * W \<le> i \<Longrightarrow> i \<le> cap \<Longrightarrow> valid_ctrl (ctrl ! i)"
  shows "\<exists>ctrl'. convert_loop E cap (m * W) ctrl = Some ctrl' \<and> length ctrl' = length ctrl \<and>
    (\<forall>i \<le> cap. ctrl' ! i = (if i < m * W then ctrl ! i else marked_byte (ctrl ! i)))"
  using assms(1,3,4)
proof (induction m arbitrary: ctrl rule: inc_induct)
  case base
  have "N * W = cap + 1" using assms(2) by simp
  then show ?case by (subst convert_loop.simps) auto
next
  case (step m)
  let ?g = "take W (drop (m * W) ctrl)"
  let ?c = "store_group (m * W) (gr_convert (he_group E) ?g) ctrl"
  have "(m + 1) * W \<le> N * W" using step.hyps by (intro mult_le_mono1) simp
  then have m: "m * W + W \<le> cap + 1" using assms(2) by (simp add: mult.commute)
  have g: "length ?g = W" using m step.prems(1) by simp
  have "list_all valid_ctrl ?g" unfolding list_all_length using m step.prems by auto
  then have conv: "gr_convert (he_group E) ?g = map marked_byte ?g" using convert [OF g] by simp
  have nth: "?c ! i = (if m * W \<le> i \<and> i < m * W + W then marked_byte (ctrl ! i) else ctrl ! i)" if "i \<le> cap" for i
    using that m step.prems(1) g unfolding conv by (subst store_group_nth) auto
  have len: "length ?c = cap + W + 1" using m step.prems(1) g unfolding conv by simp
  have "\<exists>ctrl'. convert_loop E cap (Suc m * W) ?c = Some ctrl' \<and> length ctrl' = length ?c \<and>
    (\<forall>i \<le> cap. ctrl' ! i = (if i < Suc m * W then ?c ! i else marked_byte (?c ! i)))"
    by (rule step.IH [OF len]) (use nth step.prems(2) in auto)
  moreover have "convert_loop E cap (m * W) ctrl = convert_loop E cap (Suc m * W) ?c"
    using m step.prems(1) Wpos by (subst convert_loop.simps) (simp add: add.commute)
  ultimately obtain ctrl' where c: "convert_loop E cap (m * W) ctrl = Some ctrl'" "length ctrl' = length ctrl"
      "\<And>i. i \<le> cap \<Longrightarrow> ctrl' ! i = (if i < Suc m * W then ?c ! i else marked_byte (?c ! i))"
    using len step.prems(1) by auto
  have "ctrl' ! i = (if i < m * W then ctrl ! i else marked_byte (ctrl ! i))" if "i \<le> cap" for i
    using c(3) [OF that] nth [OF that] by auto
  then show ?case using c(1,2) by blast
qed

lemma convert_result:
  fixes t :: "('k, 'v) raw_set"
  assumes "tab_ok E (rs_capacity t) (rs_ctrl t) (rs_slots t)" "W \<le> rs_capacity t + 1"
  obtains ctrl' where "convert_deleted_to_empty_and_full_to_deleted E t = Some (t\<lparr>rs_ctrl := ctrl'\<rparr>)"
    and "drop_ok E (rs_capacity t) ctrl' (rs_slots t)"
proof -
  let ?cap = "rs_capacity t"
  note tab = tab_okD [OF assms(1)]
  note ok = ctrl_okD [OF tab(1)]
  obtain n where n: "?cap + 1 = W * 2 ^ n" using groups_of_cap [OF ok(1) Wcase assms(2)] by metis
  obtain c where c: "convert_loop E ?cap 0 (rs_ctrl t) = Some c" "length c = ?cap + W + 1" "\<And>i. i \<le> ?cap \<Longrightarrow> c ! i = marked_byte (rs_ctrl t ! i)"
    using convert_loop_result [of 0 "2 ^ n" ?cap "rs_ctrl t"] n ok(2) ctrl_valid [OF tab(1)] by auto
  let ?d = "(store_group (?cap + 1) (take W c) c)[?cap := kSentinel]"
  have nth: "?d ! i = marked_byte (rs_ctrl t ! i)" if "i < ?cap" for i
    using that c(2,3) by (simp add: store_group_nth)
  have "ctrl_ok W ?cap ?d"
    unfolding ctrl_ok_def
  proof (intro conjI allI impI)
    show "valid_cap ?cap" by (rule ok(1))
    show "length ?d = ?cap + W + 1" "?d ! ?cap = kSentinel" using c(2) by simp_all
    show "is_full (?d ! i) \<or> is_free (?d ! i)" if "i < ?cap" for i using nth [OF that] by simp
    show "?d ! (?cap + 1 + i) = (if i < ?cap then ?d ! i else kEmpty)" if "i < W - 1" for i
    proof -
      have "i < ?cap" using that assms(2) by linarith
      moreover have "i < W" using that by simp
      then have "?d ! (?cap + 1 + i) = c ! i" using c(2) by (simp add: store_group_nth)
      ultimately show ?thesis using nth c(3) by simp
    qed
  qed
  moreover have "rs_slots t ! i = None \<longleftrightarrow> ?d ! i = kEmpty" if "i < ?cap" for i
    unfolding nth [OF that] tab(3) [OF that] by (cases "rs_slots t ! i") simp_all
  moreover have "\<not> is_full (?d ! i)" if "i < ?cap" for i unfolding nth [OF that] by simp
  ultimately have "drop_ok E ?cap ?d (rs_slots t)" unfolding drop_ok_def using tab(2,6) by blast
  moreover have "convert_deleted_to_empty_and_full_to_deleted E t = Some (t\<lparr>rs_ctrl := ?d\<rparr>)"
    unfolding convert_deleted_to_empty_and_full_to_deleted_def using c(1) by simp
  ultimately show ?thesis by (intro that)
qed

lemma drop_deletes_ok:
  fixes t :: "('k, 'v) raw_set"
  assumes "tab_ok E (rs_capacity t) (rs_ctrl t) (rs_slots t)" "W \<le> rs_capacity t + 1"
  obtains t' where "drop_deletes_without_resize E t = Some t'" "tab_ok E (rs_capacity t') (rs_ctrl t') (rs_slots t')"
    and "rs_capacity t' = rs_capacity t" "rs_size t' = rs_size t"
    and "rs_growth_left t' = sub64 (capacity_to_growth E (rs_capacity t)) (rs_size t)"
    and "ctrl_count is_deleted (rs_capacity t) (rs_ctrl t') = 0"
    and "ctrl_count is_full (rs_capacity t) (rs_ctrl t') = ctrl_count is_full (rs_capacity t) (rs_ctrl t)"
    and "\<And>s. s \<in> set (rs_slots t') \<longleftrightarrow> s \<in> set (rs_slots t)"
proof -
  obtain c where c: "convert_deleted_to_empty_and_full_to_deleted E t = Some (t\<lparr>rs_ctrl := c\<rparr>)" "drop_ok E (rs_capacity t) c (rs_slots t)"
    using convert_result [OF assms] by metis
  obtain d s where d: "drop_loop E 0 (t\<lparr>rs_ctrl := c\<rparr>) = Some (t\<lparr>rs_ctrl := d, rs_slots := s\<rparr>)"
      "tab_ok E (rs_capacity t) d s" "ctrl_count is_deleted (rs_capacity t) d = 0" "mset s = mset (rs_slots t)"
    using drop_loop_result [of "t\<lparr>rs_ctrl := c\<rparr>" 0] c(2) by auto
  show ?thesis
  proof (rule that)
    show "drop_deletes_without_resize E t = Some (reset_growth_left E (t\<lparr>rs_ctrl := d, rs_slots := s\<rparr>))"
      unfolding drop_deletes_without_resize_def using c(1) d(1) by simp
    have "ctrl_count is_full (rs_capacity t) d = ctrl_count is_full (rs_capacity t) (rs_ctrl t)"
      unfolding tab_full_count [OF d(2)] tab_full_count [OF assms(1)] using d(4) by (metis mset_filter size_mset)
    then show "ctrl_count is_full (rs_capacity t) (rs_ctrl (reset_growth_left E (t\<lparr>rs_ctrl := d, rs_slots := s\<rparr>))) =
        ctrl_count is_full (rs_capacity t) (rs_ctrl t)"
      by (simp add: reset_growth_left_def)
  qed (use d mset_eq_setD [OF d(4)] in \<open>simp_all add: reset_growth_left_def\<close>)
qed

end

end
