(* ===== verification/RawHashOps.thy ===== *)
theory RawHashOps
  imports RawHashDrop
begin

text \<open>
  Every operation of \<^verbatim>\<open>raw_hash_set\<close> keeps the invariant \<open>rs_ok\<close> and does to the map of the elements what its name says:
  \<^verbatim>\<open>find\<close>, \<^verbatim>\<open>erase\<close>, \<^verbatim>\<open>try_emplace\<close>, \<^verbatim>\<open>insert_or_assign\<close>, \<^verbatim>\<open>clear\<close>, through growing and dropping tombstones.
\<close>

section \<open>Growth\<close>

lemma growth_bounds:
  assumes "group_width E = 8 \<or> group_width E = 16" "1 \<le> cap"
  shows "1 \<le> capacity_to_growth E cap" "capacity_to_growth E cap \<le> cap"
    "group_width E \<le> cap + 1 \<Longrightarrow> capacity_to_growth E cap < cap"
    "capacity_to_growth E cap < capacity_to_growth E (cap * 2 + 1)"
    "capacity_to_growth E cap div 2 < n \<Longrightarrow> cap * 2 + 1 \<le> 5 * n + 1"
proof -
  have "1 \<le> cap div 8" if "8 \<le> cap" using div_le_mono [OF that, of 8] by simp
  then show "group_width E \<le> cap + 1 \<Longrightarrow> capacity_to_growth E cap < cap" using assms by (auto simp: capacity_to_growth_def)
  show "1 \<le> capacity_to_growth E cap" "capacity_to_growth E cap \<le> cap" using assms by (auto simp: capacity_to_growth_def)
  show "capacity_to_growth E cap < capacity_to_growth E (cap * 2 + 1)"
    using assms by (auto simp: capacity_to_growth_def)
  show "capacity_to_growth E cap div 2 < n \<Longrightarrow> cap * 2 + 1 \<le> 5 * n + 1"
    using assms by (auto simp: capacity_to_growth_def split: if_splits)
qed

context hash_table
begin

section \<open>Maps\<close>

lemma tab_map_eqI:
  fixes t :: "('k, 'v) raw_set"
  assumes "tab_ok E (rs_capacity t) (rs_ctrl t) (rs_slots t)" and "\<And>k v. m k = Some v \<longleftrightarrow> Some (k, v) \<in> set (rs_slots t)"
  shows "rs_map t = m"
proof
  fix k show "rs_map t k = m k" using tab_map [OF assms(1), of k] assms(2) [of k] by (metis not_None_eq)
qed

lemma rs_map_new [simp]: "rs_map raw_set_new = Map.empty"
  by (simp add: rs_map_def raw_set_new_def map_filter_def)

lemma rs_ok_new [simp]: "rs_ok E raw_set_new"
  by (simp add: rs_ok_def raw_set_new_def)

lemma rs_okD:
  assumes "rs_ok E t" "rs_capacity t \<noteq> 0"
  shows "tab_ok E (rs_capacity t) (rs_ctrl t) (rs_slots t)" "rs_size t = ctrl_count is_full (rs_capacity t) (rs_ctrl t)"
    "rs_growth_left t + ctrl_count is_full (rs_capacity t) (rs_ctrl t) + ctrl_count is_deleted (rs_capacity t) (rs_ctrl t)
      = capacity_to_growth E (rs_capacity t)"
    "rs_capacity t + 1 < W \<Longrightarrow> ctrl_count is_deleted (rs_capacity t) (rs_ctrl t) = 0"
  using assms unfolding rs_ok_def by simp_all

lemma rs_ok_empty:
  fixes t :: "('k, 'v) raw_set"
  assumes "rs_ok E t" "rs_capacity t \<noteq> 0"
  shows "rs_capacity t + 1 < W \<or> (\<exists>e < rs_capacity t. rs_ctrl t ! e = kEmpty)"
proof (cases "rs_capacity t + 1 < W")
  case False
  note ok = rs_okD [OF assms]
  have "capacity_to_growth E (rs_capacity t) < rs_capacity t" using growth_bounds(3) [OF Wcase, of "rs_capacity t"] assms(2) False by simp
  then have "0 < ctrl_count is_kempty (rs_capacity t) (rs_ctrl t)" using ctrl_count_split [OF tab_okD(1) [OF ok(1)]] ok(3) by simp
  then show ?thesis unfolding ctrl_count_pos is_kempty_def by blast
qed simp

section \<open>Finding\<close>

lemma empty_group_first:
  defines "g \<equiv> take W empty_group"
  shows "length g = W" "list_all valid_ctrl g" "kEmpty \<in> set g" "d < W \<Longrightarrow> \<not> is_full (g ! d)"
    "group_at E 0 (raw_set_new :: ('k, 'v) raw_set) = Some g"
proof -
  show len: "length g = W" and "kEmpty \<in> set g" using Wcase by (auto simp: g_def empty_group_def)
  have "set g \<subseteq> {kSentinel, kEmpty}" using set_take_subset [of W empty_group] by (auto simp: g_def empty_group_def)
  then have el: "c = kSentinel \<or> c = kEmpty" if "c \<in> set g" for c using that by blast
  have "valid_ctrl c" if "c \<in> set g" for c using el [OF that] by (elim disjE) simp_all
  then show "list_all valid_ctrl g" by (simp add: list_all_iff)
  have "\<not> is_full c" if "c \<in> set g" for c using el [OF that] by (elim disjE) simp_all
  then show "d < W \<Longrightarrow> \<not> is_full (g ! d)" using len by simp
  show "group_at E 0 (raw_set_new :: ('k, 'v) raw_set) = Some g" using len by (simp add: group_at_def raw_set_new_def g_def)
qed

lemma find_new: "find_impl E key hashval (raw_set_new :: ('k, 'v) raw_set) = Some None"
proof -
  note g = empty_group_first
  have at: "group_at E 0 (raw_set_new :: ('k, 'v) raw_set) = Some (take W empty_group)" by (rule g(5))
  have "gr_match (he_group E) (hash_h2 hashval) (take W empty_group) = []"
    using match_only [OF g(1) is_full_h2] g(4) by (metis list.set_intros(1) neq_Nil_conv)
  moreover have "gr_has_empty (he_group E) (take W empty_group)" using has_empty [OF g(1,2)] g(3) by simp
  ultimately show ?thesis using at
    unfolding find_impl_def by (subst find_loop.simps) (simp add: probe_def probe_seq_new_def raw_set_new_def)
qed

lemma find_ok:
  fixes t :: "('k, 'v) raw_set"
  assumes "rs_ok E t"
  shows "(\<exists>i v. rs_find E key t = Some (Some i) \<and> i < rs_capacity t \<and> rs_slots t ! i = Some (key, v) \<and> rs_map t key = Some v) \<or>
    rs_find E key t = Some None \<and> rs_map t key = None"
proof (cases "rs_capacity t = 0")
  case True
  then have "t = raw_set_new" using assms by (simp add: rs_ok_def)
  then show ?thesis by (simp add: rs_find_def find_new)
next
  case False
  show ?thesis unfolding rs_find_def by (rule find_impl_map [OF rs_okD(1) [OF assms False] rs_ok_empty [OF assms False]])
qed

lemma lookup_ok:
  fixes t :: "('k, 'v) raw_set"
  assumes "rs_ok E t"
  shows "rs_lookup E key t = Some (rs_map t key)"
  using find_ok [OF assms, of key]
proof (elim disjE exE conjE)
  fix i v assume i: "rs_find E key t = Some (Some i)" "i < rs_capacity t" "rs_slots t ! i = Some (key, v)" "rs_map t key = Some v"
  then have "length (rs_slots t) = rs_capacity t" using rs_okD(1) [OF assms] tab_okD(2) by fastforce
  then show ?thesis using i by (simp add: rs_lookup_def slot_at_def)
qed (simp add: rs_lookup_def)

section \<open>Growing\<close>

lemma first_free_new:
  "\<exists>len. find_first_non_full E hashval (raw_set_new :: ('k, 'v) raw_set) = Some (0, len)"
proof -
  note g = empty_group_first
  have at: "group_at E 0 (raw_set_new :: ('k, 'v) raw_set) = Some (take W empty_group)" by (rule g(5))
  obtain d where "gr_first_free (he_group E) (take W empty_group) = Some d"
    using first_free_None [OF g(1,2)] g(3) free_special(1) by blast
  then show ?thesis using at
    unfolding find_first_non_full_def by (subst first_free_loop.simps) (simp add: probe_def probe_seq_new_def raw_set_new_def probe_offset_def)
qed

lemma grow_ok:
  fixes t :: "('k, 'v) raw_set"
  assumes "rs_ok E t" "rs_growth_left t = 0" "rs_capacity t < 2 ^ 58"
  obtains t' where "rehash_and_grow_if_necessary E t = Some t'" "rs_ok E t'" "rs_capacity t' \<noteq> 0" "0 < rs_growth_left t'"
    and "rs_map t' = rs_map t" "rs_size t' = rs_size t" "rs_capacity t' \<le> max (rs_capacity t) (5 * rs_size t + 1)"
proof (cases "rs_capacity t = 0")
  case True
  then have new: "t = raw_set_new" using assms by (simp add: rs_ok_def)
  have "valid_cap 1" unfolding valid_cap_def by (rule exI [of _ 1]) simp
  then obtain t' where t': "rs_resize E 1 t = Some t'" "tab_ok E (rs_capacity t') (rs_ctrl t') (rs_slots t')" "rs_capacity t' = 1"
      "rs_size t' = rs_size t" "rs_growth_left t' = sub64 (capacity_to_growth E 1) (rs_size t)"
      "ctrl_count is_full 1 (rs_ctrl t') = ctrl_count is_full (rs_capacity t) (rs_ctrl t)" "ctrl_count is_deleted 1 (rs_ctrl t') = 0"
      "\<And>k v. Some (k, v) \<in> set (rs_slots t') \<longleftrightarrow> Some (k, v) \<in> set (rs_slots t)"
    using resize_ok [of t 1] new by (auto simp: raw_set_new_def ctrl_count_def)
  have g: "capacity_to_growth E 1 = 1" by (simp add: capacity_to_growth_def)
  have size: "rs_size t = 0" "ctrl_count is_full (rs_capacity t) (rs_ctrl t) = 0" using new by (simp_all add: raw_set_new_def ctrl_count_def)
  have "rs_map t' = rs_map t" by (rule tab_map_eqI [OF t'(2)]) (simp add: new t'(8), simp add: raw_set_new_def)
  moreover have "rs_ok E t'" using t' g size by (simp add: rs_ok_def)
  moreover have "rehash_and_grow_if_necessary E t = Some t'" using True t'(1) by (simp add: rehash_and_grow_if_necessary_def)
  ultimately show ?thesis using t' g size by (intro that [of t']) simp_all
next
  case False
  let ?cap = "rs_capacity t" and ?G = "capacity_to_growth E"
  note ok = rs_okD [OF assms(1) False]
  note cap = ctrl_okD(1) [OF tab_okD(1) [OF ok(1)]]
  have pos: "1 \<le> ?cap" using False by simp
  note G = growth_bounds [OF Wcase pos]
  have small: "?G n < 2 ^ 64" if "n < 2 ^ 60" "1 \<le> n" for n using growth_bounds(2) [OF Wcase that(2)] that(1) by simp
  have map: "rs_map t' = rs_map t" if "tab_ok E (rs_capacity t') (rs_ctrl t') (rs_slots t')"
      "\<And>k v. Some (k, v) \<in> set (rs_slots t') \<longleftrightarrow> Some (k, v) \<in> set (rs_slots t)" for t' :: "('k, 'v) raw_set"
    using that tab_map [OF ok(1)] by (intro tab_map_eqI) simp_all
  show ?thesis
  proof (cases "rs_size t \<le> ?G ?cap div 2")
    case True
    have large: "W \<le> ?cap + 1"
    proof (rule ccontr)
      assume "\<not> W \<le> ?cap + 1"
      then have "rs_size t = ?G ?cap" using ok(2-4) assms(2) by simp
      then show False using True G(1) by simp
    qed
    obtain t' where t': "drop_deletes_without_resize E t = Some t'" "tab_ok E (rs_capacity t') (rs_ctrl t') (rs_slots t')"
        "rs_capacity t' = ?cap" "rs_size t' = rs_size t" "rs_growth_left t' = sub64 (?G ?cap) (rs_size t)"
        "ctrl_count is_deleted ?cap (rs_ctrl t') = 0" "ctrl_count is_full ?cap (rs_ctrl t') = ctrl_count is_full ?cap (rs_ctrl t)"
        "\<And>s. s \<in> set (rs_slots t') \<longleftrightarrow> s \<in> set (rs_slots t)"
      using drop_deletes_ok [OF ok(1) large] by metis
    have "rs_growth_left t' = ?G ?cap - rs_size t" using t'(5) True small [of ?cap] pos assms(3) by simp
    moreover have "rs_size t < ?G ?cap" using True G(1) by linarith
    ultimately show ?thesis using t' map [OF t'(2,8)] True False ok(2)
      by (intro that [of t']) (simp_all add: rehash_and_grow_if_necessary_def rs_ok_def)
  next
    case big: False
    let ?cap' = "?cap * 2 + 1"
    have cap': "valid_cap ?cap'" using next_cap [OF cap] assms(3) by simp
    have "ctrl_count is_full ?cap (rs_ctrl t) \<le> ?cap'" using ctrl_count_split [OF tab_okD(1) [OF ok(1)]] by simp
    then obtain t' where t': "rs_resize E ?cap' t = Some t'" "tab_ok E (rs_capacity t') (rs_ctrl t') (rs_slots t')" "rs_capacity t' = ?cap'"
        "rs_size t' = rs_size t" "rs_growth_left t' = sub64 (?G ?cap') (rs_size t)"
        "ctrl_count is_full ?cap' (rs_ctrl t') = ctrl_count is_full ?cap (rs_ctrl t)" "ctrl_count is_deleted ?cap' (rs_ctrl t') = 0"
        "\<And>k v. Some (k, v) \<in> set (rs_slots t') \<longleftrightarrow> Some (k, v) \<in> set (rs_slots t)"
      using resize_ok [OF disjI2 [OF ok(1)] cap'] by metis
    have size: "rs_size t < ?G ?cap'" using G(4) ok(2,3) by simp
    then have "rs_growth_left t' = ?G ?cap' - rs_size t" using t'(5) small [of ?cap'] assms(3) by simp
    moreover have "to_u64 ?cap' = ?cap'" using assms(3) by (intro to_u64_id) simp
    moreover have "?cap' \<le> max ?cap (5 * rs_size t + 1)" using G(5) [of "rs_size t"] big by simp
    ultimately show ?thesis using t' map [OF t'(2,8)] False big ok(2) size
      by (intro that [of t']) (simp_all add: rehash_and_grow_if_necessary_def rs_ok_def)
  qed
qed

end

end
