(* ===== verification/RawHashInsert.thy ===== *)
theory RawHashInsert
  imports RawHashOps
begin

text \<open>
  Inserting, erasing and clearing (\<^verbatim>\<open>prepare_insert\<close>, \<^verbatim>\<open>erase_meta_only\<close>, \<^verbatim>\<open>clear\<close> of \<^verbatim>\<open>phmap.h\<close>) keep the invariant and change
  the map of the elements as they should.
\<close>

context hash_table
begin

section \<open>Inserting\<close>

lemma growth_left_empty:
  fixes t :: "('k, 'v) raw_set"
  assumes "rs_ok E t" "rs_capacity t \<noteq> 0" "0 < rs_growth_left t"
  shows "\<exists>e < rs_capacity t. rs_ctrl t ! e = kEmpty"
proof -
  note ok = rs_okD [OF assms(1,2)]
  have "capacity_to_growth E (rs_capacity t) \<le> rs_capacity t" using growth_bounds(2) [OF Wcase, of "rs_capacity t"] assms(2) by simp
  then have "0 < ctrl_count is_kempty (rs_capacity t) (rs_ctrl t)" using ctrl_count_split [OF tab_okD(1) [OF ok(1)]] ok(3) assms(3) by simp
  then show ?thesis unfolding ctrl_count_pos is_kempty_def by blast
qed

definition insert_result :: "('k, 'v) raw_set \<Rightarrow> 'k \<Rightarrow> nat \<Rightarrow> ('k, 'v) raw_set \<Rightarrow> bool" where
  "insert_result t k i t1 \<longleftrightarrow> (\<forall>v. \<exists>t2. construct i (k, v) t1 = Some t2 \<and> rs_ok E t2 \<and> rs_map t2 = (rs_map t)(k \<mapsto> v) \<and>
     rs_size t2 = rs_size t + 1 \<and> rs_capacity t2 \<le> max (rs_capacity t) (5 * rs_size t + 1))"

lemma insert_at:
  fixes t :: "('k, 'v) raw_set" and k :: 'k
  assumes "rs_ok E t" "rs_capacity t \<noteq> 0" "rs_map t k = None" "i < rs_capacity t" "is_free (rs_ctrl t ! i)"
    and "placed W (rs_capacity t) (rs_ctrl t) is_free (element_hash E k) i" "0 < rs_growth_left t \<or> is_deleted (rs_ctrl t ! i)"
  defines "t0 \<equiv> t\<lparr>rs_size := to_u64 (rs_size t + 1), rs_growth_left := sub64 (rs_growth_left t) (of_bool (is_empty (rs_ctrl t ! i)))\<rparr>"
  obtains t1 where "set_ctrl E i (hash_h2 (element_hash E k)) t0 = Some t1" "insert_result t k i t1"
proof -
  let ?cap = "rs_capacity t" and ?h = "hash_h2 (element_hash E k)"
  note ok = rs_okD [OF assms(1,2)]
  note cap = valid_cap_range [OF ctrl_okD(1) [OF tab_okD(1) [OF ok(1)]]]
  note G = growth_bounds(2) [OF Wcase, of ?cap]
  have size: "rs_size t \<le> ?cap" "rs_growth_left t < 2 ^ 64" using ok(2,3) G cap by auto
  have fresh: "Some (k, v) \<notin> set (rs_slots t)" for v using assms(3) tab_map [OF ok(1), of k v] by simp
  have t0: "rs_capacity t0 = ?cap" "rs_ctrl t0 = rs_ctrl t" "rs_slots t0 = rs_slots t" by (simp_all add: t0_def)
  have tab0: "tab_ok E (rs_capacity t0) (rs_ctrl t0) (rs_slots t0)" unfolding t0 by (rule ok(1))
  note fill = fill_slot [OF tab0, unfolded t0, OF assms(4,5,6) fresh]
  obtain c where c: "set_ctrl E i ?h t0 = Some (t0\<lparr>rs_ctrl := c\<rparr>)" "\<And>n. n \<le> ?cap \<Longrightarrow> c ! n = (if n = i then ?h else rs_ctrl t ! n)"
    using fill by metis
  have nf: "\<not> is_full (rs_ctrl t ! i)" using assms(5) by (metis free_special(4))
  have h2: "\<not> is_deleted ?h" using full_neq_special [OF is_full_h2] by (simp add: is_deleted_def)
  have count: "ctrl_count P ?cap c + of_bool (P (rs_ctrl t ! i)) = ctrl_count P ?cap (rs_ctrl t) + of_bool (P ?h)" for P
    using assms(4) c(2) by (intro ctrl_count_update) simp_all
  have full: "ctrl_count is_full ?cap c = ctrl_count is_full ?cap (rs_ctrl t) + 1" using count [of is_full] nf by simp
  have del: "ctrl_count is_deleted ?cap c + of_bool (is_deleted (rs_ctrl t ! i)) = ctrl_count is_deleted ?cap (rs_ctrl t)"
    using count [of is_deleted] h2 by simp
  have gl: "rs_growth_left t0 + of_bool (is_empty (rs_ctrl t ! i)) = rs_growth_left t"
    using assms(5,7) size(2) by (auto simp: t0_def is_empty_def is_deleted_def is_free_def)
  have one: "of_bool (is_deleted (rs_ctrl t ! i)) + of_bool (is_empty (rs_ctrl t ! i)) = (1 :: nat)"
    using assms(5) by (auto simp: is_empty_def is_deleted_def is_free_def)
  have "insert_result t k i (t0\<lparr>rs_ctrl := c\<rparr>)"
    unfolding insert_result_def
  proof
    fix v :: 'v
    obtain c' where c': "set_ctrl E i ?h t0 = Some (t0\<lparr>rs_ctrl := c'\<rparr>)" "tab_ok E ?cap c' ((rs_slots t)[i := Some (k, v)])"
        "i < length (rs_slots t)" "rs_slots t ! i = None"
      using fill [where v = v] by metis
    have "c' = c" using c(1) c'(1) by (metis option.inject raw_set.select_convs(1) raw_set.surjective raw_set.update_convs(1))
    let ?t = "t0\<lparr>rs_ctrl := c, rs_slots := (rs_slots t)[i := Some (k, v)]\<rparr>"
    have tab: "tab_ok E (rs_capacity ?t) (rs_ctrl ?t) (rs_slots ?t)" using c'(2) \<open>c' = c\<close> t0(1) by simp
    have "construct i (k, v) (t0\<lparr>rs_ctrl := c\<rparr>) = Some ?t" using c'(3,4) t0(3) by (simp add: construct_def)
    moreover have "rs_size ?t = rs_size t + 1" using size(1) cap by (simp add: t0_def)
    moreover have "rs_ok E ?t"
      using assms(2) tab full del gl one ok(2-4) calculation(2) t0(1) by (auto simp: rs_ok_def)
    moreover have "rs_map ?t = (rs_map t)(k \<mapsto> v)"
    proof (rule tab_map_eqI [OF tab])
      show "((rs_map t)(k \<mapsto> v)) k' = Some v' \<longleftrightarrow> Some (k', v') \<in> set (rs_slots ?t)" for k' v'
        using set_update_None [OF c'(3,4), of "Some (k', v')" "Some (k, v)"] tab_map [OF ok(1), of k' v'] fresh [of v'] by auto
    qed
    ultimately show "\<exists>t2. construct i (k, v) (t0\<lparr>rs_ctrl := c\<rparr>) = Some t2 \<and> rs_ok E t2 \<and> rs_map t2 = (rs_map t)(k \<mapsto> v) \<and>
        rs_size t2 = rs_size t + 1 \<and> rs_capacity t2 \<le> max (rs_capacity t) (5 * rs_size t + 1)"
      using t0(1) by (intro exI [of _ ?t]) simp
  qed
  with c(1) show ?thesis by (rule that)
qed

lemma prepare_insert_ok:
  fixes t :: "('k, 'v) raw_set" and k :: 'k
  assumes "rs_ok E t" "rs_capacity t < 2 ^ 58" "rs_map t k = None"
  obtains i t1 where "prepare_insert E (element_hash E k) t = Some (i, t1)" "insert_result t k i t1"
proof -
  let ?h = "element_hash E k"
  note result = that
  have grow: ?thesis
    if i: "find_first_non_full E ?h t = Some (i, len)" "nth_opt (rs_ctrl t) i = Some c" "rs_growth_left t = 0" "\<not> is_deleted c" for i len c
  proof -
    obtain t' where t': "rehash_and_grow_if_necessary E t = Some t'" "rs_ok E t'" "rs_capacity t' \<noteq> 0" "0 < rs_growth_left t'"
        "rs_map t' = rs_map t" "rs_size t' = rs_size t" "rs_capacity t' \<le> max (rs_capacity t) (5 * rs_size t + 1)"
      using grow_ok [OF assms(1) i(3) assms(2)] by metis
    note tab' = rs_okD(1) [OF t'(2,3)]
    note e = growth_left_empty [OF t'(2-4)]
    then have free: "rs_capacity t' + 1 < W \<or> (\<exists>i < rs_capacity t'. is_free (rs_ctrl t' ! i))" by (metis free_special(1))
    obtain j len' where j: "find_first_non_full E ?h t' = Some (j, len')" "j < rs_capacity t'" "is_free (rs_ctrl t' ! j)"
        "placed W (rs_capacity t') (rs_ctrl t') is_free ?h j"
      using find_first_non_full_result [OF tab_okD(1) [OF tab'] free, of ?h] e by (metis free_special(1))
    have "rs_map t' k = None" using t'(5) assms(3) by simp
    then obtain t1 where t1: "set_ctrl E j (hash_h2 ?h) (t'\<lparr>rs_size := to_u64 (rs_size t' + 1),
        rs_growth_left := sub64 (rs_growth_left t') (of_bool (is_empty (rs_ctrl t' ! j)))\<rparr>) = Some t1" "insert_result t' k j t1"
      using insert_at [OF t'(2,3) _ j(2-4)] t'(4) by metis
    have "j < length (rs_ctrl t')" using j(2) ctrl_okD(2) [OF tab_okD(1) [OF tab']] by simp
    then have "prepare_insert E ?h t = Some (j, t1)"
      using i t'(1) j(1) t1(1) by (simp add: prepare_insert_def Let_def)
    moreover have "insert_result t k j t1" using t1(2) t'(5-7) unfolding insert_result_def by fastforce
    ultimately show ?thesis by (rule result)
  qed
  show ?thesis
  proof (cases "rs_capacity t = 0")
    case True
    then have new: "t = raw_set_new" using assms(1) by (simp add: rs_ok_def)
    obtain len where "find_first_non_full E ?h t = Some (0, len)" using first_free_new new by blast
    then show ?thesis by (rule grow [of 0 len kSentinel]) (simp_all add: new raw_set_new_def empty_group_def is_deleted_def)
  next
    case False
    note tab = rs_okD(1) [OF assms(1) False]
    note ctrl = ctrl_okD [OF tab_okD(1) [OF tab]]
    have free: "rs_capacity t + 1 < W \<or> (\<exists>i < rs_capacity t. is_free (rs_ctrl t ! i))"
      using rs_ok_empty [OF assms(1) False] by (metis free_special(1))
    obtain i len where i: "find_first_non_full E ?h t = Some (i, len)"
        "i < rs_capacity t \<and> is_free (rs_ctrl t ! i) \<and> placed W (rs_capacity t) (rs_ctrl t) is_free ?h i \<or>
         i = rs_capacity t \<and> (\<forall>n < rs_capacity t. \<not> is_free (rs_ctrl t ! n))"
      using find_first_non_full_result [OF tab_okD(1) [OF tab] free, of ?h] by metis
    have len: "i < length (rs_ctrl t)" using i(2) ctrl(2) Wpos by auto
    show ?thesis
    proof (cases "rs_growth_left t = 0 \<and> \<not> is_deleted (rs_ctrl t ! i)")
      case True
      then show ?thesis using i(1) len by (intro grow [of i len "rs_ctrl t ! i"]) simp_all
    next
      case stay: False
      have "i \<noteq> rs_capacity t \<or> \<not> (\<forall>n < rs_capacity t. \<not> is_free (rs_ctrl t ! n))"
        using stay growth_left_empty [OF assms(1) False] ctrl(3) by (metis free_special(1) is_deleted_def not_gr_zero special_distinct(6))
      then have "i < rs_capacity t" "is_free (rs_ctrl t ! i)" "placed W (rs_capacity t) (rs_ctrl t) is_free ?h i" using i(2) by blast+
      then obtain t1 where t1: "set_ctrl E i (hash_h2 ?h) (t\<lparr>rs_size := to_u64 (rs_size t + 1),
          rs_growth_left := sub64 (rs_growth_left t) (of_bool (is_empty (rs_ctrl t ! i)))\<rparr>) = Some t1" "insert_result t k i t1"
        using insert_at [OF assms(1) False assms(3)] stay by (metis not_gr_zero)
      then have "prepare_insert E ?h t = Some (i, t1)" using i(1) len stay by (auto simp: prepare_insert_def Let_def)
      then show ?thesis using t1(2) by (rule that)
    qed
  qed
qed

section \<open>Erasing\<close>

lemma group_before:
  assumes "valid_cap cap"
  shows "((sub64 i W AND cap) + W) mod (cap + 1) = i mod (cap + 1)"
proof -
  have W: "W < 2 ^ 64" using Wcase by auto
  then have "sub64 i W AND cap = (i + (2 ^ 64 - W)) mod (cap + 1)" by (simp add: sub64_def to_u64_and_cap [OF assms])
  then have "((sub64 i W AND cap) + W) mod (cap + 1) = (i + (2 ^ 64 - W) + W) mod (cap + 1)" by (simp only: mod_add_left_eq)
  also have "i + (2 ^ 64 - W) + W = i + 2 ^ 64" using W by simp
  also have "(i + 2 ^ 64) mod (cap + 1) = i mod (cap + 1)" using cap_dvd_64 [OF assms] by (metis mod_add_right_eq add.right_neutral mod_0_imp_dvd dvd_imp_mod_0)
  finally show ?thesis .
qed

text \<open>With an empty byte near enough before and after a slot, every group that sees the slot sees another empty byte.\<close>

lemma never_full:
  assumes "valid_cap cap" "W \<le> cap + 1" "i \<le> cap" "off \<le> cap" "in_window W cap off i"
    and "ctrl ! ((i + tz) mod (cap + 1)) = kEmpty" "ctrl ! ((b + (W - 1 - lz)) mod (cap + 1)) = kEmpty"
    and "(b + W) mod (cap + 1) = i mod (cap + 1)" "tz + lz < W"
  shows "window_has W cap ctrl (\<lambda>c. c = kEmpty) off"
proof -
  obtain d where d: "seen W cap off d" "(off + d) mod (cap + 1) = i" "d < W" using assms(5) by (rule in_windowE)
  have sees: "window_has W cap ctrl (\<lambda>c. c = kEmpty) off" if "e < W" "ctrl ! ((off + e) mod (cap + 1)) = kEmpty" for e
    unfolding window_has_def in_window_def seen_def using that assms(2) by blast
  show ?thesis
  proof (cases "d + tz < W")
    case True
    have "(off + (d + tz)) mod (cap + 1) = (i + tz) mod (cap + 1)" unfolding d(2) [symmetric] by (simp only: mod_add_left_eq add.assoc)
    then show ?thesis using sees [OF True] assms(6) by simp
  next
    case False
    then have lz: "lz + 1 \<le> d" "lz + 1 \<le> W" using assms(9) by linarith+
    have "(off + (d - (lz + 1)) + (lz + 1)) mod (cap + 1) = (b + (W - 1 - lz) + (lz + 1)) mod (cap + 1)"
    proof -
      have "off + (d - (lz + 1)) + (lz + 1) = off + d" "b + (W - 1 - lz) + (lz + 1) = b + W" using lz by simp_all
      then show ?thesis using d(2) assms(3,8) by simp
    qed
    then have "(off + (d - (lz + 1))) mod (cap + 1) = (b + (W - 1 - lz)) mod (cap + 1)" unfolding mod_cancel_right .
    then show ?thesis using sees [of "d - (lz + 1)"] d(3) assms(7) by simp
  qed
qed

text \<open>The test of \<^verbatim>\<open>erase_meta_only\<close>, and when it holds.\<close>

definition never_full_test :: "('k, 'v) raw_set \<Rightarrow> nat \<Rightarrow> bool" where
  "never_full_test t i \<longleftrightarrow>
     (let after = window_bytes W (rs_capacity t) (rs_ctrl t) i;
          before = window_bytes W (rs_capacity t) (rs_ctrl t) (sub64 i W AND rs_capacity t)
      in gr_has_empty (he_group E) before \<and> gr_has_empty (he_group E) after \<and>
         gr_empty_trailing (he_group E) after + gr_empty_leading (he_group E) before < W)"

lemma never_full_large:
  fixes t :: "('k, 'v) raw_set"
  assumes "ctrl_ok W (rs_capacity t) (rs_ctrl t)" "never_full_test t i" "W \<le> rs_capacity t + 1" "i \<le> rs_capacity t" "off \<le> rs_capacity t"
    and "in_window W (rs_capacity t) off i"
  shows "window_has W (rs_capacity t) (rs_ctrl t) (\<lambda>c. c = kEmpty) off"
proof -
  let ?cap = "rs_capacity t"
  let ?b = "sub64 i W AND ?cap"
  let ?after = "window_bytes W ?cap (rs_ctrl t) i" and ?before = "window_bytes W ?cap (rs_ctrl t) ?b"
  note valid = window_bytes_valid [OF assms(1)] and cap = ctrl_okD(1) [OF assms(1)]
  have t: "gr_has_empty (he_group E) ?before" "gr_has_empty (he_group E) ?after"
    "gr_empty_trailing (he_group E) ?after + gr_empty_leading (he_group E) ?before < W"
    using assms(2) unfolding never_full_test_def Let_def by blast+
  have "kEmpty \<in> set ?after" "kEmpty \<in> set ?before" using t(1,2) has_empty [OF _ valid] by simp_all
  then have e: "?after ! gr_empty_trailing (he_group E) ?after = kEmpty" "?before ! (W - 1 - gr_empty_leading (he_group E) ?before) = kEmpty"
    "gr_empty_trailing (he_group E) ?after < W"
    using trailing [OF _ valid] leading [OF _ valid] by simp_all
  have nth: "window_bytes W ?cap (rs_ctrl t) o' ! d = rs_ctrl t ! ((o' + d) mod (?cap + 1))" if "d < W" for o' d
    using that assms(3) by (simp add: window_bytes_nth seen_def)
  show ?thesis
  proof (rule never_full [OF cap assms(3-6) _ _ group_before [OF cap] t(3)])
    show "rs_ctrl t ! ((i + gr_empty_trailing (he_group E) ?after) mod (?cap + 1)) = kEmpty" using e(1,3) nth by metis
    show "rs_ctrl t ! ((?b + (W - 1 - gr_empty_leading (he_group E) ?before)) mod (?cap + 1)) = kEmpty"
      using e(2) nth [of "W - 1 - gr_empty_leading (he_group E) ?before" ?b] Wpos by simp
  qed
qed

lemma never_full_small:
  fixes t :: "('k, 'v) raw_set"
  assumes "ctrl_ok W (rs_capacity t) (rs_ctrl t)" "rs_capacity t + 1 < W" "i < rs_capacity t"
  shows "never_full_test t i"
proof -
  let ?cap = "rs_capacity t"
  let ?g = "window_bytes W ?cap (rs_ctrl t) i"
  note valid = window_bytes_valid [OF assms(1)] and cap = ctrl_okD(1) [OF assms(1)]
  have b: "sub64 i W AND ?cap = i"
  proof -
    have "((sub64 i W AND ?cap) + W) mod (?cap + 1) = i mod (?cap + 1)" by (rule group_before [OF cap])
    moreover obtain q where "W = (?cap + 1) * q" using small_dvd [OF cap Wcase] assms(2) by (auto elim: dvdE)
    ultimately have "(sub64 i W AND ?cap) mod (?cap + 1) = i mod (?cap + 1)" by (metis mod_mult_self2)
    then show ?thesis using assms(3) by (simp add: and_cap [OF cap])
  qed
  have "kEmpty \<in> set ?g"
    using window_has_bytes [OF cap Wcase, of i "\<lambda>c. c = kEmpty" "rs_ctrl t"] assms(2,3) by (simp add: window_has_def)
  moreover then have "gr_has_empty (he_group E) ?g" using has_empty [OF _ valid] by simp
  moreover have "gr_empty_trailing (he_group E) ?g + gr_empty_leading (he_group E) ?g < W"
  proof -
    have "gr_empty_leading (he_group E) ?g < W"
      "\<forall>n. W - 1 - gr_empty_leading (he_group E) ?g < n \<and> n < W \<longrightarrow> ?g ! n \<noteq> kEmpty"
      using leading [OF _ valid] calculation(1) by simp_all
    moreover have "gr_empty_trailing (he_group E) ?g < W" "?g ! gr_empty_trailing (he_group E) ?g = kEmpty"
      using trailing [OF _ valid] \<open>kEmpty \<in> set ?g\<close> by simp_all
    ultimately have "\<not> W - 1 - gr_empty_leading (he_group E) ?g < gr_empty_trailing (he_group E) ?g" by blast
    then show ?thesis using Wpos \<open>gr_empty_leading (he_group E) ?g < W\<close> by linarith
  qed
  ultimately show ?thesis unfolding never_full_test_def b Let_def by blast
qed

lemma erase_at_result:
  fixes t :: "('k, 'v) raw_set"
  assumes "tab_ok E (rs_capacity t) (rs_ctrl t) (rs_slots t)" "i < rs_capacity t" "rs_slots t ! i = Some (k, v)"
  obtains ctrl' where "erase_at E i t = Some (t\<lparr>rs_slots := (rs_slots t)[i := None], rs_size := sub64 (rs_size t) 1, rs_ctrl := ctrl',
      rs_growth_left := to_u64 (rs_growth_left t + of_bool (never_full_test t i))\<rparr>)"
    and "tab_ok E (rs_capacity t) ctrl' ((rs_slots t)[i := None])"
    and "\<And>n. n \<le> rs_capacity t \<Longrightarrow> ctrl' ! n = (if n = i then if never_full_test t i then kEmpty else kDeleted else rs_ctrl t ! n)"
proof -
  let ?cap = "rs_capacity t" and ?c = "if never_full_test t i then kEmpty else kDeleted"
  note ok = tab_okD [OF assms(1)]
  note cap = ctrl_okD(1) [OF ok(1)]
  have c: "\<not> is_full ?c" "is_full ?c \<or> is_free ?c" by simp_all
  let ?t = "t\<lparr>rs_slots := (rs_slots t)[i := None], rs_size := sub64 (rs_size t) 1\<rparr>"
  have t: "rs_capacity ?t = ?cap" "rs_ctrl ?t = rs_ctrl t" by simp_all
  obtain ctrl' where ctrl': "set_ctrl E i ?c ?t = Some (?t\<lparr>rs_ctrl := ctrl'\<rparr>)" "ctrl_ok W ?cap ctrl'"
      "\<And>n. n \<le> ?cap \<Longrightarrow> ctrl' ! n = (if n = i then ?c else rs_ctrl t ! n)"
    using set_ctrl_result [of ?t i ?c, unfolded t, OF ok(1) assms(2) c(2)] by metis
  have b: "sub64 i W AND ?cap \<le> ?cap" by (simp add: and_cap [OF cap])
  have "destroy i t = Some (t\<lparr>rs_slots := (rs_slots t)[i := None]\<rparr>)" using assms(2,3) ok(2) by (simp add: destroy_def slot_at_def)
  moreover have "group_at E i ?t = Some (window_bytes W ?cap (rs_ctrl t) i)"
    "group_at E (sub64 i W AND ?cap) ?t = Some (window_bytes W ?cap (rs_ctrl t) (sub64 i W AND ?cap))"
    using group_at_window [of ?t] ok(1) assms(2) b by simp_all
  ultimately have "erase_at E i t = Some (t\<lparr>rs_slots := (rs_slots t)[i := None], rs_size := sub64 (rs_size t) 1, rs_ctrl := ctrl',
      rs_growth_left := to_u64 (rs_growth_left t + of_bool (never_full_test t i))\<rparr>)"
    using ctrl'(1) by (simp add: erase_at_def erase_meta_only_def Let_def never_full_test_def)
  moreover have "tab_ok E ?cap ctrl' ((rs_slots t)[i := None])"
  proof (rule tab_remove [OF assms(1,2) c(1) ctrl'(2,3)])
    fix off assume off: "off \<le> ?cap" "window_has W ?cap ctrl' (\<lambda>c. c = kEmpty) off"
    show "window_has W ?cap (rs_ctrl t) (\<lambda>c. c = kEmpty) off"
    proof (cases "?cap + 1 < W")
      case True
      then show ?thesis by (simp add: window_has_def)
    next
      case False
      then obtain n where n: "in_window W ?cap off n" "ctrl' ! n = kEmpty" using off(2) unfolding window_has_def by blast
      show ?thesis
      proof (cases "n = i")
        case True
        then have "never_full_test t i" using ctrl'(3) [of i] n(2) assms(2) by (auto split: if_splits)
        then show ?thesis using never_full_large [OF ok(1)] False assms(2) off(1) n(1) True by simp
      next
        case False
        then have "rs_ctrl t ! n = kEmpty" using ctrl'(3) [OF in_window_le [OF n(1)]] n(2) by simp
        then show ?thesis using n(1) unfolding window_has_def by blast
      qed
    qed
  qed
  ultimately show ?thesis using ctrl'(3) by (rule that)
qed

end

end
