(* ===== verification/RawHashMap.thy ===== *)
theory RawHashMap
  imports RawHashInsert
begin

text \<open>
  The flat hash map of \<^verbatim>\<open>phmap.h\<close> is a map: every run of calls on an empty table replies like a partial function, for both
  implementations of a group and any hash function.
\<close>

section \<open>Calls\<close>

datatype ('k, 'v) map_call = Emplace 'k 'v | InsertOrAssign 'k 'v | Lookup 'k | Erase 'k | Clear

datatype 'v map_reply = Inserted bool | Found "'v option" | Erased nat | Cleared

definition rs_call :: "'k hash_env \<Rightarrow> ('k, 'v) map_call \<Rightarrow> ('k, 'v) raw_set \<Rightarrow> ('v map_reply \<times> ('k, 'v) raw_set) option" where
  "rs_call E c t = (case c of
     Emplace k v \<Rightarrow> map_option (\<lambda>(b, t). (Inserted b, t)) (rs_emplace E k v t)
   | InsertOrAssign k v \<Rightarrow> map_option (\<lambda>(b, t). (Inserted b, t)) (rs_insert_or_assign E k v t)
   | Lookup k \<Rightarrow> map_option (\<lambda>r. (Found r, t)) (rs_lookup E k t)
   | Erase k \<Rightarrow> map_option (\<lambda>(n, t). (Erased n, t)) (rs_erase E k t)
   | Clear \<Rightarrow> map_option (\<lambda>t. (Cleared, t)) (rs_clear E t))"

fun map_spec :: "('k, 'v) map_call \<Rightarrow> ('k \<rightharpoonup> 'v) \<Rightarrow> 'v map_reply \<times> ('k \<rightharpoonup> 'v)" where
  "map_spec (Emplace k v) m = (if m k = None then (Inserted True, m(k \<mapsto> v)) else (Inserted False, m))"
| "map_spec (InsertOrAssign k v) m = (Inserted (m k = None), m(k \<mapsto> v))"
| "map_spec (Lookup k) m = (Found (m k), m)"
| "map_spec (Erase k) m = (Erased (of_bool (m k \<noteq> None)), m(k := None))"
| "map_spec Clear m = (Cleared, Map.empty)"

text \<open>Runs, with their replies.\<close>

fun rs_run :: "'k hash_env \<Rightarrow> ('k, 'v) map_call list \<Rightarrow> ('k, 'v) raw_set \<Rightarrow> ('v map_reply list \<times> ('k, 'v) raw_set) option" where
  "rs_run E [] t = Some ([], t)"
| "rs_run E (c # cs) t = do { (r, t) \<leftarrow> rs_call E c t; (rs, t) \<leftarrow> rs_run E cs t; Some (r # rs, t) }"

fun spec_run :: "('k, 'v) map_call list \<Rightarrow> ('k \<rightharpoonup> 'v) \<Rightarrow> 'v map_reply list \<times> ('k \<rightharpoonup> 'v)" where
  "spec_run [] m = ([], m)"
| "spec_run (c # cs) m = (let (r, m) = map_spec c m; (rs, m) = spec_run cs m in (r # rs, m))"

text \<open>What holds after \<open>n\<close> calls: few enough elements that no capacity overflows.\<close>

definition rs_good :: "'k hash_env \<Rightarrow> nat \<Rightarrow> ('k, 'v) raw_set \<Rightarrow> bool" where
  "rs_good E n t \<longleftrightarrow> rs_ok E t \<and> rs_size t \<le> n \<and> rs_capacity t \<le> 5 * n + 1"

lemma rs_good_mono: "rs_good E m t \<Longrightarrow> m \<le> n \<Longrightarrow> rs_good E n t"
  by (auto simp: rs_good_def)

context hash_table
begin

section \<open>Inserting and assigning\<close>

lemma rs_slots_length:
  fixes t :: "('k, 'v) raw_set"
  assumes "rs_ok E t"
  shows "length (rs_slots t) = rs_capacity t"
proof (cases "rs_capacity t = 0")
  case True
  then show ?thesis using assms by (simp add: rs_ok_def raw_set_new_def)
next
  case False
  then show ?thesis using rs_okD(1) [OF assms] tab_okD(2) by blast
qed

lemma find_or_prepare_ok:
  fixes t :: "('k, 'v) raw_set" and k :: 'k
  assumes "rs_ok E t" "rs_capacity t < 2 ^ 58"
  shows "(\<exists>i v. find_or_prepare_insert E k (element_hash E k) t = Some (i, False, t) \<and> i < rs_capacity t \<and>
      rs_slots t ! i = Some (k, v) \<and> rs_map t k = Some v) \<or>
    (\<exists>i t1. find_or_prepare_insert E k (element_hash E k) t = Some (i, True, t1) \<and> insert_result t k i t1 \<and> rs_map t k = None)"
  using find_ok [OF assms(1), of k]
proof (elim disjE exE conjE)
  fix i v assume "rs_find E k t = Some (Some i)" "i < rs_capacity t" "rs_slots t ! i = Some (k, v)" "rs_map t k = Some v"
  then show ?thesis by (simp add: find_or_prepare_insert_def rs_find_def find_impl_def)
next
  assume none: "rs_find E k t = Some None" "rs_map t k = None"
  obtain i t1 where "prepare_insert E (element_hash E k) t = Some (i, t1)" "insert_result t k i t1"
    using prepare_insert_ok [OF assms none(2)] by metis
  then show ?thesis using none by (simp add: find_or_prepare_insert_def rs_find_def find_impl_def)
qed

lemma assign_ok:
  fixes t :: "('k, 'v) raw_set"
  assumes "rs_ok E t" "i < rs_capacity t" "rs_slots t ! i = Some (k, v)"
  obtains t' where "assign i f t = Some t'" "rs_ok E t'" "rs_map t' = (rs_map t)(k \<mapsto> f v)" "rs_size t' = rs_size t" "rs_capacity t' = rs_capacity t"
proof -
  have pos: "rs_capacity t \<noteq> 0" using assms(2) by simp
  note ok = rs_okD [OF assms(1) pos]
  note tab = tab_okD [OF ok(1)]
  let ?t = "t\<lparr>rs_slots := (rs_slots t)[i := Some (k, f v)]\<rparr>"
  have tab': "tab_ok E (rs_capacity ?t) (rs_ctrl ?t) (rs_slots ?t)" using tab_assign [OF ok(1) assms(2,3)] by simp
  have "rs_map ?t = (rs_map t)(k \<mapsto> f v)"
  proof (rule tab_map_eqI [OF tab'])
    fix k' v'
    have "Some (k', v') \<in> set (rs_slots ?t) \<longleftrightarrow> (k' = k \<and> v' = f v) \<or> (k' \<noteq> k \<and> Some (k', v') \<in> set (rs_slots t))"
    proof
      assume "Some (k', v') \<in> set (rs_slots ?t)"
      then obtain n where n: "n < rs_capacity t" "(rs_slots t)[i := Some (k, f v)] ! n = Some (k', v')" using tab(2) by (auto simp: in_set_conv_nth)
      show "(k' = k \<and> v' = f v) \<or> (k' \<noteq> k \<and> Some (k', v') \<in> set (rs_slots t))"
      proof (cases "n = i")
        case True
        then show ?thesis using n tab(2) by simp
      next
        case False
        then have at: "rs_slots t ! n = Some (k', v')" using n(2) by simp
        have "k' \<noteq> k" using tab(6) [OF n(1) assms(2) at] assms(3) False by blast
        moreover have "Some (k', v') \<in> set (rs_slots t)" using at n(1) tab(2) nth_mem by metis
        ultimately show ?thesis by blast
      qed
    next
      assume "(k' = k \<and> v' = f v) \<or> (k' \<noteq> k \<and> Some (k', v') \<in> set (rs_slots t))"
      then show "Some (k', v') \<in> set (rs_slots ?t)"
      proof (elim disjE conjE)
        assume "k' = k" "v' = f v"
        then show ?thesis using assms(2) tab(2) by (simp add: set_update_memI)
      next
        assume k': "k' \<noteq> k" "Some (k', v') \<in> set (rs_slots t)"
        then obtain n where n: "n < rs_capacity t" "rs_slots t ! n = Some (k', v')" unfolding in_set_conv_nth tab(2) by blast
        then have "n \<noteq> i" using assms(3) k'(1) by auto
        then have "rs_slots ?t ! n = Some (k', v')" using n(2) by simp
        moreover have "n < length (rs_slots ?t)" using n(1) tab(2) by simp
        ultimately show ?thesis using nth_mem by metis
      qed
    qed
    then show "((rs_map t)(k \<mapsto> f v)) k' = Some v' \<longleftrightarrow> Some (k', v') \<in> set (rs_slots ?t)" using tab_map [OF ok(1), of k' v'] by auto
  qed
  moreover have "assign i f t = Some ?t" using assms(2,3) tab(2) by (simp add: assign_def slot_at_def)
  moreover have "rs_ok E ?t" using tab' ok pos by (simp add: rs_ok_def)
  ultimately show ?thesis by (intro that [of ?t]) simp_all
qed

section \<open>Erasing and clearing\<close>

lemma erase_ok:
  fixes t :: "('k, 'v) raw_set"
  assumes "rs_ok E t" "i < rs_capacity t" "rs_slots t ! i = Some (k, v)"
  obtains t' where "erase_at E i t = Some t'" "rs_ok E t'" "rs_map t' = (rs_map t)(k := None)" "rs_size t' \<le> rs_size t" "rs_capacity t' = rs_capacity t"
proof -
  let ?cap = "rs_capacity t" and ?b = "never_full_test t i"
  have pos: "?cap \<noteq> 0" using assms(2) by simp
  note ok = rs_okD [OF assms(1) pos]
  note tab = tab_okD [OF ok(1)]
  obtain c where c: "erase_at E i t = Some (t\<lparr>rs_slots := (rs_slots t)[i := None], rs_size := sub64 (rs_size t) 1, rs_ctrl := c,
      rs_growth_left := to_u64 (rs_growth_left t + of_bool ?b)\<rparr>)"
      "tab_ok E ?cap c ((rs_slots t)[i := None])"
      "\<And>n. n \<le> ?cap \<Longrightarrow> c ! n = (if n = i then if ?b then kEmpty else kDeleted else rs_ctrl t ! n)"
    using erase_at_result [OF ok(1) assms(2,3)] by metis
  let ?t = "t\<lparr>rs_slots := (rs_slots t)[i := None], rs_size := sub64 (rs_size t) 1, rs_ctrl := c,
      rs_growth_left := to_u64 (rs_growth_left t + of_bool ?b)\<rparr>"
  have tab': "tab_ok E (rs_capacity ?t) (rs_ctrl ?t) (rs_slots ?t)" using c(2) by simp
  have full_i: "is_full (rs_ctrl t ! i)" using tab(3) [OF assms(2)] assms(3) by simp
  have count: "ctrl_count P ?cap c + of_bool (P (rs_ctrl t ! i)) = ctrl_count P ?cap (rs_ctrl t) + of_bool (P (if ?b then kEmpty else kDeleted))" for P
    using c(3) assms(2) by (intro ctrl_count_update) simp_all
  have full: "ctrl_count is_full ?cap c + 1 = ctrl_count is_full ?cap (rs_ctrl t)" using count [of is_full] full_i by simp
  have del: "ctrl_count is_deleted ?cap c = ctrl_count is_deleted ?cap (rs_ctrl t) + of_bool (\<not> ?b)"
    using count [of is_deleted] full_neq_special [OF full_i] by (simp add: is_deleted_def)
  have cap: "?cap < 2 ^ 60" "1 \<le> ?cap" using valid_cap_range [OF ctrl_okD(1) [OF tab(1)]] by auto
  have growth: "rs_growth_left t < 2 ^ 60" "rs_size t < 2 ^ 60" "1 \<le> rs_size t"
    using ok(2,3) growth_bounds(2) [OF Wcase cap(2)] cap(1) full by simp_all
  have "to_u64 (rs_growth_left t + of_bool ?b) = rs_growth_left t + of_bool ?b" using growth by (intro to_u64_id) (auto split: split_of_bool)
  moreover have "sub64 (rs_size t) 1 = rs_size t - 1" using growth by simp
  moreover have "?cap + 1 < W \<Longrightarrow> ?b" using never_full_small [OF tab(1)] assms(2) by simp
  ultimately have "rs_ok E ?t" and "rs_size ?t \<le> rs_size t"
    using tab' pos full del ok(2-4) by (auto simp: rs_ok_def split: split_of_bool)
  moreover have "rs_map ?t = (rs_map t)(k := None)"
  proof (rule tab_map_eqI [OF tab'])
    fix k' v'
    have "Some (k', v') \<in> set (rs_slots ?t) \<longleftrightarrow> k' \<noteq> k \<and> Some (k', v') \<in> set (rs_slots t)"
    proof
      assume "Some (k', v') \<in> set (rs_slots ?t)"
      then obtain n where n: "n < ?cap" "(rs_slots t)[i := None] ! n = Some (k', v')" using tab(2) by (auto simp: in_set_conv_nth)
      then have "n \<noteq> i" using tab(2) by auto
      then have at: "rs_slots t ! n = Some (k', v')" using n(2) by simp
      then show "k' \<noteq> k \<and> Some (k', v') \<in> set (rs_slots t)" using tab(6) [OF n(1) assms(2) at] assms(3) \<open>n \<noteq> i\<close> n(1) tab(2) nth_mem by metis
    next
      assume k': "k' \<noteq> k \<and> Some (k', v') \<in> set (rs_slots t)"
      then obtain n where n: "n < ?cap" "rs_slots t ! n = Some (k', v')" unfolding in_set_conv_nth tab(2) by blast
      then have "n \<noteq> i" using assms(3) k' by auto
      then have "rs_slots ?t ! n = Some (k', v')" using n(2) by simp
      moreover have "n < length (rs_slots ?t)" using n(1) tab(2) by simp
      ultimately show "Some (k', v') \<in> set (rs_slots ?t)" using nth_mem by metis
    qed
    then show "((rs_map t)(k := None)) k' = Some v' \<longleftrightarrow> Some (k', v') \<in> set (rs_slots ?t)" using tab_map [OF ok(1), of k' v'] by auto
  qed
  ultimately show ?thesis using c(1) by (intro that [of ?t]) simp_all
qed

lemma destroy_elements_ok:
  fixes t :: "('k, 'v) raw_set"
  assumes "tab_ok E (rs_capacity t) (rs_ctrl t) (rs_slots t)"
  shows "destroy_elements t = Some (t\<lparr>rs_slots := replicate (rs_capacity t) None\<rparr>)"
proof -
  note tab = tab_okD [OF assms]
  have "fold_opt destroy_if_full [0..<i] t = Some (t\<lparr>rs_slots := replicate i None @ drop i (rs_slots t)\<rparr>)" if "i \<le> rs_capacity t" for i
    using that
  proof (induction i)
    case (Suc i)
    let ?t = "t\<lparr>rs_slots := replicate i None @ drop i (rs_slots t)\<rparr>"
    have i: "i < rs_capacity t" "i < length (rs_slots t)" using Suc(2) tab(2) by simp_all
    have d: "drop i (rs_slots t) = rs_slots t ! i # drop (Suc i) (rs_slots t)" using i(2) by (rule Cons_nth_drop_Suc [symmetric])
    have c: "nth_opt (rs_ctrl ?t) i = Some (rs_ctrl t ! i)" using ctrl_okD(2) [OF tab(1)] i(1) by simp
    have "destroy_if_full i ?t = Some (t\<lparr>rs_slots := replicate (Suc i) None @ drop (Suc i) (rs_slots t)\<rparr>)"
      using tab(3) [OF i(1)] c
      by (cases "rs_slots t ! i") (auto simp: destroy_if_full_def destroy_def slot_at_def d nth_append list_update_append replicate_append_same [symmetric])
    then show ?case using Suc by (simp add: fold_opt_append)
  qed simp
  from this [OF order_refl] show ?thesis using tab(2) by (simp add: destroy_elements_def)
qed

lemma clear_ok:
  fixes t :: "('k, 'v) raw_set"
  assumes "rs_ok E t"
  obtains t' where "rs_clear E t = Some t'" "rs_ok E t'" "rs_map t' = Map.empty" "rs_size t' = 0" "rs_capacity t' \<le> rs_capacity t"
proof (cases "rs_capacity t = 0")
  case True
  then have "t = raw_set_new" using assms by (simp add: rs_ok_def)
  moreover have "rs_clear E (raw_set_new :: ('k, 'v) raw_set) = Some raw_set_new" by (simp add: rs_clear_def) (simp add: raw_set_new_def)
  ultimately show ?thesis by (intro that [of raw_set_new]) (simp_all, simp add: raw_set_new_def)
next
  case False
  let ?cap = "rs_capacity t"
  note ok = rs_okD [OF assms False]
  note tab = tab_okD [OF ok(1)]
  consider "rs_size t = 0" | "rs_size t \<noteq> 0" "127 < ?cap" | "rs_size t \<noteq> 0" "\<not> 127 < ?cap" by blast
  then show ?thesis
  proof cases
    case 1
    then have "\<not> (\<exists>i < ?cap. is_full (rs_ctrl t ! i))" using ok(2) ctrl_count_pos [of is_full] by (metis not_gr_zero)
    then have "s = None" if "s \<in> set (rs_slots t)" for s using that tab(2,3) unfolding in_set_conv_nth by metis
    then have "rs_map t = Map.empty" by (intro tab_map_eqI [OF ok(1)]) auto
    then show ?thesis using 1 assms by (intro that [of t]) (simp_all add: rs_clear_def)
  next
    case 2
    then have "rs_clear E t = Some raw_set_new" using destroy_elements_ok [OF ok(1)] by (simp add: rs_clear_def destroy_slots_def)
    then show ?thesis by (intro that [of raw_set_new]) (simp_all, simp_all add: raw_set_new_def)
  next
    case 3
    let ?t = "t\<lparr>rs_slots := replicate ?cap None, rs_size := 0\<rparr>"
    let ?r = "reset_growth_left E (reset_ctrl E ?t)"
    have r: "rs_clear E t = Some ?r" using 3 False destroy_elements_ok [OF ok(1)] by (simp add: rs_clear_def)
    have len: "length (rs_ctrl ?t) = rs_capacity ?t + W + 1" using ctrl_okD(2) [OF tab(1)] by simp
    have new: "tab_ok E ?cap (rs_ctrl ?r) (rs_slots ?r)" "rs_capacity ?r = ?cap" "rs_size ?r = 0"
      "rs_growth_left ?r = sub64 (capacity_to_growth E ?cap) 0" "rs_slots ?r = replicate ?cap None"
      "\<And>i. i < ?cap \<Longrightarrow> rs_ctrl ?r ! i = kEmpty"
      using reset_ok [of ?t] ctrl_okD(1) [OF tab(1)] len by (simp_all del: replicate_Suc)
    have zero: "ctrl_count P ?cap (rs_ctrl ?r) = 0" if "\<not> P kEmpty" for P
      using ctrl_count_pos [of P ?cap "rs_ctrl ?r"] new(6) that by auto
    have "rs_growth_left ?r = capacity_to_growth E ?cap"
      using new(4) growth_bounds(2) [OF Wcase, of ?cap] 3 False by simp
    then have "rs_ok E ?r"
      using new(1-3) zero [of is_full] zero [of is_deleted] False by (simp add: rs_ok_def is_deleted_def)
    moreover have tab': "tab_ok E (rs_capacity ?r) (rs_ctrl ?r) (rs_slots ?r)" using new(1,2) by simp
    have "rs_map ?r = Map.empty" by (rule tab_map_eqI [OF tab']) (simp add: new(5))
    ultimately show ?thesis using r new(2,3) by (intro that [of ?r]) simp_all
  qed
qed

lemma insert_good:
  fixes t :: "('k, 'v) raw_set"
  assumes "insert_result t k i t1" "rs_good E n t"
  obtains t2 where "construct i (k, v) t1 = Some t2" "rs_good E (Suc n) t2" "rs_map t2 = (rs_map t)(k \<mapsto> v)"
proof -
  obtain t2 where t2: "construct i (k, v) t1 = Some t2" "rs_ok E t2" "rs_map t2 = (rs_map t)(k \<mapsto> v)"
      "rs_size t2 = rs_size t + 1" "rs_capacity t2 \<le> max (rs_capacity t) (5 * rs_size t + 1)"
    using assms(1) unfolding insert_result_def by blast
  moreover have "rs_good E (Suc n) t2" using t2(2,4,5) assms(2) by (auto simp: rs_good_def)
  ultimately show ?thesis by (intro that)
qed

lemma rs_call_ok:
  fixes t :: "('k, 'v) raw_set"
  assumes "rs_good E n t" "n < 2 ^ 50"
  obtains t' where "rs_call E c t = Some (fst (map_spec c (rs_map t)), t')" "rs_good E (Suc n) t'" "rs_map t' = snd (map_spec c (rs_map t))"
proof -
  note result = that
  have ok: "rs_ok E t" "rs_capacity t < 2 ^ 58" using assms by (auto simp: rs_good_def)
  have keep: "rs_good E (Suc n) t" using assms(1) by (rule rs_good_mono) simp
  have up: "rs_good E (Suc n) t'" if "rs_ok E t'" "rs_size t' \<le> rs_size t" "rs_capacity t' \<le> rs_capacity t" for t' :: "('k, 'v) raw_set"
    using that assms(1) by (auto simp: rs_good_def)
  have len: "length (rs_slots t) = rs_capacity t" by (rule rs_slots_length [OF ok(1)])
  show ?thesis
  proof (cases c)
    case (Emplace k v)
    from find_or_prepare_ok [OF ok, of k] show ?thesis
    proof (elim disjE exE conjE)
      fix i t1 assume i: "find_or_prepare_insert E k (element_hash E k) t = Some (i, True, t1)" "insert_result t k i t1" "rs_map t k = None"
      obtain t2 where "construct i (k, v) t1 = Some t2" "rs_good E (Suc n) t2" "rs_map t2 = (rs_map t)(k \<mapsto> v)"
        using insert_good [OF i(2) assms(1)] by metis
      then show ?thesis using i Emplace by (intro result [of t2]) (simp_all add: rs_call_def rs_emplace_def)
    qed (use Emplace keep in \<open>intro result [of t], simp_all add: rs_call_def rs_emplace_def\<close>)
  next
    case (InsertOrAssign k v)
    from find_or_prepare_ok [OF ok, of k] show ?thesis
    proof (elim disjE exE conjE)
      fix i t1 assume i: "find_or_prepare_insert E k (element_hash E k) t = Some (i, True, t1)" "insert_result t k i t1" "rs_map t k = None"
      obtain t2 where "construct i (k, v) t1 = Some t2" "rs_good E (Suc n) t2" "rs_map t2 = (rs_map t)(k \<mapsto> v)"
        using insert_good [OF i(2) assms(1)] by metis
      then show ?thesis using i InsertOrAssign by (intro result [of t2]) (simp_all add: rs_call_def rs_insert_or_assign_def)
    next
      fix i w assume i: "find_or_prepare_insert E k (element_hash E k) t = Some (i, False, t)" "i < rs_capacity t"
        "rs_slots t ! i = Some (k, w)" "rs_map t k = Some w"
      obtain t' where "assign i (\<lambda>old. v) t = Some t'" "rs_ok E t'" "rs_map t' = (rs_map t)(k \<mapsto> v)" "rs_size t' = rs_size t"
          "rs_capacity t' = rs_capacity t"
        using assign_ok [OF ok(1) i(2,3), of "\<lambda>old. v"] by metis
      then show ?thesis using i InsertOrAssign up [of t'] by (intro result [of t']) (simp_all add: rs_call_def rs_insert_or_assign_def)
    qed
  next
    case (Lookup k)
    then show ?thesis using lookup_ok [OF ok(1), of k] keep by (intro result [of t]) (simp_all add: rs_call_def)
  next
    case (Erase k)
    from find_ok [OF ok(1), of k] show ?thesis
    proof (elim disjE exE conjE)
      fix i w assume i: "rs_find E k t = Some (Some i)" "i < rs_capacity t" "rs_slots t ! i = Some (k, w)" "rs_map t k = Some w"
      obtain t' where "erase_at E i t = Some t'" "rs_ok E t'" "rs_map t' = (rs_map t)(k := None)" "rs_size t' \<le> rs_size t"
          "rs_capacity t' = rs_capacity t"
        using erase_ok [OF ok(1) i(2,3)] by metis
      then show ?thesis using i Erase up [of t'] by (intro result [of t']) (simp_all add: rs_call_def rs_erase_def)
    next
      assume "rs_find E k t = Some None" "rs_map t k = None"
      then show ?thesis using Erase keep by (intro result [of t]) (simp_all add: rs_call_def rs_erase_def fun_upd_idem)
    qed
  next
    case Clear
    obtain t' where "rs_clear E t = Some t'" "rs_ok E t'" "rs_map t' = Map.empty" "rs_size t' = 0" "rs_capacity t' \<le> rs_capacity t"
      using clear_ok [OF ok(1)] by metis
    then show ?thesis using Clear up [of t'] by (intro result [of t']) (simp_all add: rs_call_def)
  qed
qed

lemma rs_run_ok:
  fixes t :: "('k, 'v) raw_set"
  assumes "rs_good E n t" "n + length cs < 2 ^ 50"
  shows "\<exists>t'. rs_run E cs t = Some (fst (spec_run cs (rs_map t)), t') \<and> rs_good E (n + length cs) t' \<and> rs_map t' = snd (spec_run cs (rs_map t))"
  using assms
proof (induction cs arbitrary: n t)
  case Nil
  then show ?case by simp
next
  case (Cons c cs)
  obtain t1 where t1: "rs_call E c t = Some (fst (map_spec c (rs_map t)), t1)" "rs_good E (Suc n) t1" "rs_map t1 = snd (map_spec c (rs_map t))"
    using rs_call_ok [OF Cons.prems(1), of c] Cons.prems(2) by auto
  obtain t2 where "rs_run E cs t1 = Some (fst (spec_run cs (rs_map t1)), t2)" "rs_good E (Suc n + length cs) t2"
      "rs_map t2 = snd (spec_run cs (rs_map t1))"
    using Cons.IH [OF t1(2)] Cons.prems(2) by auto
  then show ?case using t1 by (intro exI [of _ t2]) (simp add: Let_def case_prod_beta)
qed

end

section \<open>Tables over the groups\<close>

text \<open>A table over any of the groups the build may choose (\<^verbatim>\<open>using Group\<close>), with any hash, mix and uninitialised byte.\<close>

datatype group_kind = Portable | Sse2 | Ssse3

fun group_of :: "group_kind \<Rightarrow> group_ops" where
  "group_of Portable = portable_group"
| "group_of Sse2 = sse2_group"
| "group_of Ssse3 = ssse3_group"

definition table_env :: "group_kind \<Rightarrow> ('k \<Rightarrow> u64) \<Rightarrow> (u64 \<Rightarrow> u64) \<Rightarrow> byte \<Rightarrow> 'k hash_env" where
  "table_env s h mix g = \<lparr>he_group = group_of s, he_hash = h, he_mix = mix, he_garbage = g\<rparr>"

lemma table_env_group: "hash_group (he_group (table_env s h mix g))"
  using portable.hash_group_axioms sse2.hash_group_axioms ssse3.hash_group_axioms by (cases s) (simp_all add: table_env_def)

interpretation table: hash_table "table_env s h mix g" for s h mix g
  by (simp add: hash_table_def table_env_group)

end
