(* ===== verification/RawHashReserve.thy ===== *)
theory RawHashReserve
  imports RawHashMap
begin

text \<open>
  Capacities (\<^verbatim>\<open>NormalizeCapacity\<close>, \<^verbatim>\<open>GrowthToLowerboundCapacity\<close>), the size of a table, and \<^verbatim>\<open>reserve\<close> and \<^verbatim>\<open>rehash\<close>
  of \<^verbatim>\<open>phmap.h\<close>.
\<close>

section \<open>Capacities\<close>

lemma normalize_capacity_power:
  assumes "2 ^ k \<le> n" "n < 2 ^ Suc k" "k < 64"
  shows "normalize_capacity n = 2 ^ Suc k - 1"
proof -
  have n: "n < 2 ^ 64" using assms(2) power_increasing [of "Suc k" 64 "2 :: nat"] assms(3) by simp
  then have u: "unat (of_nat n :: u64) = n" by (simp add: unat_of_nat)
  have "n \<noteq> 0" using assms(1) by (cases n) simp_all
  have "of_nat n \<noteq> (0 :: u64)" using u assms(1) by (metis unat_0 le_zero_eq power_not_zero zero_neq_numeral)
  then have c: "count_leading_zeros64 (of_nat n) = 63 - k"
    using clz_range [of k "of_nat n :: u64"] u assms(1,2) by (simp add: count_leading_zeros64_def)
  have ones: "unat (- 1 :: u64) = 2 ^ 64 - 1" by (simp add: unsigned_minus_1_eq_mask mask_eq_exp_minus_1)
  have "unat (drop_bit (63 - k) (- 1 :: u64)) = (2 ^ 64 - 1) div 2 ^ (63 - k)" unfolding unat_drop ones ..
  also have "\<dots> = 2 ^ Suc k - 1"
  proof -
    have "(2 :: nat) ^ 64 = 2 ^ Suc k * 2 ^ (63 - k)" using assms(3) by (simp flip: power_add)
    then have "(2 :: nat) ^ 64 - 1 = (2 ^ Suc k - 1) * 2 ^ (63 - k) + (2 ^ (63 - k) - 1)" by (simp add: diff_mult_distrib)
    moreover have "(2 :: nat) ^ (63 - k) - 1 < 2 ^ (63 - k)" by simp
    ultimately show ?thesis by (metis div_mult_self3 div_less add.right_neutral power_not_zero zero_neq_numeral)
  qed
  finally show ?thesis using c \<open>n \<noteq> 0\<close> by (simp only: normalize_capacity_def if_True not_False_eq_True)
qed

lemma normalize_capacity_ok:
  assumes "0 < n" "n < 2 ^ 60"
  shows "valid_cap (normalize_capacity n)" "n \<le> normalize_capacity n" "normalize_capacity n < 2 * n"
proof -
  obtain k where k: "2 ^ k \<le> n" "n < 2 ^ Suc k" using ex_power_ivl1 [of 2 n] assms(1) by auto
  have "(2 :: nat) ^ k < 2 ^ 60" using k(1) assms(2) by linarith
  then have k60: "k < 60" by (rule power_less_imp_less_exp [rotated]) simp
  then have n: "normalize_capacity n = 2 ^ Suc k - 1" using normalize_capacity_power [OF k] by simp
  show "valid_cap (normalize_capacity n)" unfolding valid_cap_def n using k60 by (intro exI [of _ "Suc k"]) simp
  show "n \<le> normalize_capacity n" "normalize_capacity n < 2 * n" unfolding n using k by simp_all
qed

lemma growth_lowerbound:
  assumes "g < 2 ^ 58" "0 < g"
  shows "growth_to_lowerbound_capacity E g = (if group_width E = 8 \<and> g = 7 then 8 else g + (g - 1) div 7)"
proof -
  have s: "sint (of_nat g :: u64) = int g" using assms(1) by (simp add: signed_of_nat signed_take_bit_int_eq_self)
  have "(int g - 1) sdiv 7 = int ((g - 1) div 7)"
    using assms(2) by (cases "g = 1") (simp_all add: signed_divide_int_def of_nat_diff zdiv_int)
  moreover have "(int g + int ((g - 1) div 7)) mod 2 ^ 64 = int (g + (g - 1) div 7)"
  proof -
    have "(g - 1) div 7 \<le> g" by simp
    then have "g + (g - 1) div 7 < 2 ^ 64" using assms(1) by simp
    then show ?thesis by (metis mod_less of_nat_add of_nat_mod of_nat_numeral of_nat_power)
  qed
  ultimately have "nat ((int g + (int g - 1) sdiv 7) mod 2 ^ 64) = g + (g - 1) div 7" by (simp only: nat_int)
  then show ?thesis using s unfolding growth_to_lowerbound_capacity_def by (simp only:)
qed

lemma growth_mono_div:
  assumes "m \<le> n"
  shows "m - m div 8 \<le> n - n div (8 :: nat)"
proof -
  have "k - k div 8 \<le> Suc k - Suc k div 8" for k :: nat using div_le_dividend [of k 8] by (auto simp: div_Suc)
  then show ?thesis using assms by (rule lift_Suc_mono_le [of "\<lambda>k. k - k div 8"])
qed

lemma reserve_suffices:
  assumes "group_width E = 8 \<or> group_width E = 16" "0 < g" "g < 2 ^ 58"
  shows "g \<le> capacity_to_growth E (normalize_capacity (growth_to_lowerbound_capacity E g))"
proof -
  let ?c = "g + (g - 1) div 7" and ?l = "growth_to_lowerbound_capacity E g"
  have l: "?l = (if group_width E = 8 \<and> g = 7 then 8 else ?c)" by (rule growth_lowerbound [OF assms(3,2)])
  have d: "(g - 1) div 7 \<le> g" by simp
  have "0 < ?l" "?l < 2 ^ 60" using l assms(2,3) d by auto
  note n = normalize_capacity_ok [OF this]
  have c: "?c - ?c div 8 = g"
  proof -
    let ?q = "(g - 1) div 7" and ?r = "(g - 1) mod 7"
    have g: "g = 7 * ?q + ?r + 1" using div_mult_mod_eq [of "g - 1" 7] assms(2) by linarith
    have r: "?r + 1 < 8" by simp
    have "?c = ?q * 8 + (?r + 1)" using g by linarith
    then have "?c div 8 = ?q" using r by (metis div_mult_self3 div_less add.right_neutral zero_neq_numeral mult.commute)
    then show ?thesis by simp
  qed
  show ?thesis
  proof (cases "group_width E = 8 \<and> normalize_capacity ?l = 7")
    case False
    have "?c \<le> ?l" using l by auto
    then have "?c \<le> normalize_capacity ?l" using n(2) by linarith
    then have "g \<le> normalize_capacity ?l - normalize_capacity ?l div 8" using growth_mono_div [of ?c] c by fastforce
    then show ?thesis using False unfolding capacity_to_growth_def by (simp only: if_False)
  next
    case True
    then have "?l \<le> 7" using n(2) by simp
    then have "g \<le> 6" using l True by (cases "g = 7") auto
    then show ?thesis using True by (simp add: capacity_to_growth_def)
  qed
qed

lemma normalize_capacity_least:
  assumes "0 < n" "n < 2 ^ 60" "valid_cap c" "n \<le> c"
  shows "normalize_capacity n \<le> c"
proof -
  obtain k where k: "2 ^ k \<le> n" "n < 2 ^ Suc k" using ex_power_ivl1 [of 2 n] assms(1) by auto
  obtain j where j: "c + 1 = 2 ^ j" using assms(3) by (rule valid_capE)
  have "(2 :: nat) ^ k < 2 ^ 60" using k(1) assms(2) by linarith
  then have k60: "k < 64" using power_less_imp_less_exp [of "2 :: nat" k 60] by simp
  have "(2 :: nat) ^ k < 2 ^ j" using k(1) assms(4) j by linarith
  then have "k < j" by (rule power_less_imp_less_exp [rotated]) simp
  then have "(2 :: nat) ^ Suc k \<le> 2 ^ j" by (intro power_increasing) simp_all
  then show ?thesis unfolding normalize_capacity_power [OF k k60] using j by linarith
qed

lemma growth_mono:
  assumes "m \<le> n"
  shows "capacity_to_growth E m \<le> capacity_to_growth E n"
proof (cases "group_width E = 8 \<and> n = 7 \<and> m \<noteq> 7")
  case True
  then show ?thesis using assms by (simp add: capacity_to_growth_def)
next
  case False
  then show ?thesis using growth_mono_div [OF assms] assms by (auto simp: capacity_to_growth_def)
qed

context hash_table
begin

section \<open>The size\<close>

lemma rs_size_card:
  fixes t :: "('k, 'v) raw_set"
  assumes "rs_ok E t"
  shows "rs_size t = card (dom (rs_map t))"
proof (cases "rs_capacity t = 0")
  case True
  then have "t = raw_set_new" using assms by (simp add: rs_ok_def)
  then show ?thesis by simp (simp add: raw_set_new_def)
next
  case False
  note ok = rs_okD [OF assms False]
  note tab = tab_okD [OF ok(1)]
  let ?I = "{i. i < length (rs_slots t) \<and> rs_slots t ! i \<noteq> None}" and ?key = "\<lambda>i. fst (the (rs_slots t ! i))"
  have "inj_on ?key ?I"
  proof (rule inj_onI)
    fix i j assume a: "i \<in> ?I" "j \<in> ?I" "?key i = ?key j"
    then obtain k v v' where "rs_slots t ! i = Some (k, v)" "rs_slots t ! j = Some (k, v')" by auto
    then show "i = j" using a(1,2) tab(6) unfolding tab(2) by blast
  qed
  moreover have "?key ` ?I = dom (rs_map t)"
  proof
    show "?key ` ?I \<subseteq> dom (rs_map t)"
    proof
      fix k assume "k \<in> ?key ` ?I"
      then obtain i v where "i < length (rs_slots t)" "rs_slots t ! i = Some (k, v)" by auto
      then have "Some (k, v) \<in> set (rs_slots t)" using nth_mem by metis
      then have "rs_map t k = Some v" using tab_map [OF ok(1)] by blast
      then show "k \<in> dom (rs_map t)" by blast
    qed
    show "dom (rs_map t) \<subseteq> ?key ` ?I"
    proof
      fix k assume "k \<in> dom (rs_map t)"
      then obtain v where "Some (k, v) \<in> set (rs_slots t)" using tab_map [OF ok(1)] by blast
      then obtain i where "i < length (rs_slots t)" "rs_slots t ! i = Some (k, v)" unfolding in_set_conv_nth by blast
      then show "k \<in> ?key ` ?I" by (intro image_eqI [of _ _ i]) auto
    qed
  qed
  ultimately have "card (dom (rs_map t)) = card ?I" using card_image by fastforce
  then show ?thesis using ok(2) tab_full_count [OF ok(1)] by (simp add: length_filter_conv_card)
qed

section \<open>\<^verbatim>\<open>reserve\<close> and \<^verbatim>\<open>rehash\<close>\<close>

lemma resize_map:
  fixes t :: "('k, 'v) raw_set"
  assumes "rs_ok E t" "valid_cap cap" "rs_size t \<le> cap"
  obtains t' where "rs_resize E cap t = Some t'" "tab_ok E (rs_capacity t') (rs_ctrl t') (rs_slots t')" "rs_capacity t' = cap"
    and "rs_size t' = rs_size t" "rs_growth_left t' = sub64 (capacity_to_growth E cap) (rs_size t)" "rs_map t' = rs_map t"
    and "ctrl_count is_full cap (rs_ctrl t') = rs_size t" "ctrl_count is_deleted cap (rs_ctrl t') = 0"
proof -
  have old: "rs_capacity t = 0 \<and> rs_slots t = [] \<or> tab_ok E (rs_capacity t) (rs_ctrl t) (rs_slots t)"
    using assms(1) by (auto simp: rs_ok_def raw_set_new_def split: if_splits)
  have size: "ctrl_count is_full (rs_capacity t) (rs_ctrl t) = rs_size t"
    using assms(1) by (auto simp: rs_ok_def raw_set_new_def ctrl_count_def split: if_splits)
  obtain t' where t': "rs_resize E cap t = Some t'" "tab_ok E (rs_capacity t') (rs_ctrl t') (rs_slots t')" "rs_capacity t' = cap"
      "rs_size t' = rs_size t" "rs_growth_left t' = sub64 (capacity_to_growth E cap) (rs_size t)"
      "ctrl_count is_full cap (rs_ctrl t') = ctrl_count is_full (rs_capacity t) (rs_ctrl t)" "ctrl_count is_deleted cap (rs_ctrl t') = 0"
      "\<And>k v. Some (k, v) \<in> set (rs_slots t') \<longleftrightarrow> Some (k, v) \<in> set (rs_slots t)"
    using resize_ok [OF old assms(2)] size assms(3) by metis
  have "rs_map t k = Some v \<longleftrightarrow> Some (k, v) \<in> set (rs_slots t)" for k v
    using old
  proof
    assume "rs_capacity t = 0 \<and> rs_slots t = []"
    then show ?thesis by (simp add: rs_map_def map_filter_def)
  qed (rule tab_map)
  then have "rs_map t' = rs_map t" using t'(8) by (intro tab_map_eqI [OF t'(2)]) simp
  then show ?thesis using t' size by (intro that [of t']) simp_all
qed

lemma reserve_ok:
  fixes t :: "('k, 'v) raw_set"
  assumes "rs_ok E t" "0 < n" "n < 2 ^ 57" "rs_capacity t < 2 ^ 58"
  obtains t' where "reserve E n t = Some t'" "rs_ok E t'" "rs_map t' = rs_map t" "rs_size t' = rs_size t"
    and "n \<le> capacity_to_growth E (rs_capacity t')"
proof -
  let ?l = "growth_to_lowerbound_capacity E n"
  let ?m = "normalize_capacity (max ?l (rs_size t))"
  have "(n - 1) div 7 \<le> n" by simp
  then have l: "0 < ?l" "?l < 2 ^ 59" using growth_lowerbound [of n E] assms(2,3) by auto
  have size: "rs_size t \<le> capacity_to_growth E (rs_capacity t)" "rs_size t \<le> rs_capacity t"
  proof -
    show "rs_size t \<le> capacity_to_growth E (rs_capacity t)" using assms(1) by (auto simp: rs_ok_def raw_set_new_def split: if_splits)
    then show "rs_size t \<le> rs_capacity t"
      using growth_bounds(2) [OF Wcase, of "rs_capacity t"] assms(1) by (cases "rs_capacity t = 0") (auto simp: rs_ok_def raw_set_new_def)
  qed
  have m: "0 < max ?l (rs_size t)" "max ?l (rs_size t) < 2 ^ 60" using l size(2) assms(4) by auto
  note norm = normalize_capacity_ok [OF m]
  have l_le: "normalize_capacity ?l \<le> ?m" using normalize_capacity_least [OF l(1) _ norm(1)] norm(2) l(2) by simp
  have n_le: "n \<le> capacity_to_growth E (normalize_capacity ?l)" using reserve_suffices [OF Wcase assms(2)] assms(3) by simp
  show ?thesis
  proof (cases "rs_capacity t < ?m")
    case True
    obtain t' where t': "rs_resize E ?m t = Some t'" "tab_ok E (rs_capacity t') (rs_ctrl t') (rs_slots t')" "rs_capacity t' = ?m"
        "rs_size t' = rs_size t" "rs_growth_left t' = sub64 (capacity_to_growth E ?m) (rs_size t)" "rs_map t' = rs_map t"
        "ctrl_count is_full ?m (rs_ctrl t') = rs_size t" "ctrl_count is_deleted ?m (rs_ctrl t') = 0"
      using resize_map [OF assms(1) norm(1)] norm(2) by (metis max.bounded_iff)
    have g: "capacity_to_growth E (rs_capacity t) \<le> capacity_to_growth E ?m" using True by (intro growth_mono) simp
    have "capacity_to_growth E ?m < 2 ^ 64"
      using growth_bounds(2) [OF Wcase, of ?m] valid_cap_range [OF norm(1)] by simp
    then have "rs_growth_left t' = capacity_to_growth E ?m - rs_size t" using t'(5) g size(1) by simp
    then have "rs_ok E t'" using t' g size(1) True by (simp add: rs_ok_def)
    moreover have "reserve E n t = Some t'" using l(1) True t'(1) by (simp add: reserve_def rehash_def Let_def)
    moreover have "n \<le> capacity_to_growth E (rs_capacity t')" using n_le growth_mono [OF l_le, of E] t'(3) by simp
    ultimately show ?thesis using t'(4,6) by (intro that [of t']) simp_all
  next
    case False
    then have "normalize_capacity ?l \<le> rs_capacity t" using l_le by linarith
    then have "n \<le> capacity_to_growth E (rs_capacity t)" using n_le growth_mono order_trans by blast
    moreover have "reserve E n t = Some t" using l(1) False by (simp add: reserve_def rehash_def Let_def)
    ultimately show ?thesis using assms(1) by (intro that [of t]) simp_all
  qed
qed

text \<open>\<^verbatim>\<open>rehash(0)\<close> gives as many slots as there are elements, if that is a capacity, and no search for another key ends.\<close>

lemma rehash_zero_full:
  fixes t :: "('k, 'v) raw_set"
  assumes "rs_ok E t" "valid_cap (rs_size t)" "W \<le> rs_size t + 1" "rs_size t < 2 ^ 58"
  obtains t' where "rehash E 0 t = Some t'" "rs_map t' = rs_map t" "rs_capacity t' = rs_size t" "rs_size t' = rs_size t"
    and "\<And>key. rs_map t key = None \<Longrightarrow> rs_find E key t' = None"
proof -
  have size: "0 < rs_size t" using valid_cap_range [OF assms(2)] by simp
  then have pos: "rs_capacity t \<noteq> 0" using assms(1) by (auto simp: rs_ok_def raw_set_new_def split: if_splits)
  have m: "normalize_capacity (rs_size t) = rs_size t"
    using normalize_capacity_ok(2) [of "rs_size t"] normalize_capacity_least [of "rs_size t" "rs_size t"] assms(2,4) size by (intro antisym) simp_all
  obtain t' where t': "rs_resize E (rs_size t) t = Some t'" "tab_ok E (rs_capacity t') (rs_ctrl t') (rs_slots t')" "rs_capacity t' = rs_size t"
      "rs_size t' = rs_size t" "rs_growth_left t' = sub64 (capacity_to_growth E (rs_size t)) (rs_size t)" "rs_map t' = rs_map t"
      "ctrl_count is_full (rs_size t) (rs_ctrl t') = rs_size t" "ctrl_count is_deleted (rs_size t) (rs_ctrl t') = 0"
    using resize_map [OF assms(1,2) order_refl] by metis
  note tab = tab_okD [OF t'(2)]
  have "rs_find E key t' = None" if "rs_map t key = None" for key
  proof -
    have "\<not> key_at key t' i" for i
    proof
      assume "key_at key t' i"
      then obtain v where "Some (key, v) \<in> set (rs_slots t')" unfolding key_at_def using tab(2) nth_mem by metis
      then have "rs_map t' key = Some v" using tab_map [OF t'(2)] by blast
      then show False using t'(6) that by simp
    qed
    moreover have "rs_ctrl t' ! i \<noteq> kEmpty" if i: "i \<le> rs_capacity t'" for i
    proof (cases "i = rs_capacity t'")
      case True
      then show ?thesis using ctrl_okD(3) [OF tab(1)] by simp
    next
      case False
      have "ctrl_count is_kempty (rs_size t) (rs_ctrl t') = 0" using ctrl_count_split [OF tab(1)] t'(3,7,8) by simp
      then show ?thesis using ctrl_count_pos [of is_kempty "rs_size t" "rs_ctrl t'"] False i t'(3) by (auto simp: is_kempty_def)
    qed
    ultimately show ?thesis
      unfolding rs_find_def find_impl_def probe_start [OF ctrl_okD(1) [OF tab(1)]]
      using assms(3) t'(3) by (intro find_loop_full [OF tab_searchable [OF t'(2)]]) simp_all
  qed
  moreover have "rehash E 0 t = Some t'" using pos size m t'(1) by (simp add: rehash_def Let_def)
  ultimately show ?thesis using t' by (intro that [of t']) simp_all
qed

end

end
