(* ===== verification/RawHashIterate.thy ===== *)
theory RawHashIterate
  imports RawHashReserve
begin

text \<open>
  Iterators of \<^verbatim>\<open>raw_hash_set\<close> (\<^verbatim>\<open>phmap.h\<close>) and what walks over a table with them: listing the elements, copying a table,
  erasing a range and merging a table into another. An iterator is its position; the one behind the last element is at the capacity.
\<close>

section \<open>Iterators\<close>

partial_function (option) skip_empty_or_deleted :: "'k hash_env \<Rightarrow> ('k, 'v) raw_set \<Rightarrow> nat \<Rightarrow> nat option" where
  "skip_empty_or_deleted E t pos =
     do { c \<leftarrow> nth_opt (rs_ctrl t) pos;
          (if \<not> is_empty_or_deleted c then Some pos
           else do { g \<leftarrow> group_at E pos t; skip_empty_or_deleted E t (pos + gr_count_leading (he_group E) g) }) }"

definition rs_begin :: "'k hash_env \<Rightarrow> ('k, 'v) raw_set \<Rightarrow> nat option" where
  "rs_begin E t = skip_empty_or_deleted E t 0"

definition iterator_next :: "'k hash_env \<Rightarrow> ('k, 'v) raw_set \<Rightarrow> nat \<Rightarrow> nat option" where
  "iterator_next E t pos = skip_empty_or_deleted E t (pos + 1)"

text \<open>\<^verbatim>\<open>for (const auto& v : that)\<close>\<close>

partial_function (option) elements_loop :: "'k hash_env \<Rightarrow> ('k, 'v) raw_set \<Rightarrow> nat \<Rightarrow> ('k \<times> 'v) list option" where
  "elements_loop E t pos =
     (if pos = rs_capacity t then Some []
      else do { kv \<leftarrow> slot_at pos t; pos \<leftarrow> iterator_next E t pos; kvs \<leftarrow> elements_loop E t pos; Some (kv # kvs) })"

definition rs_elements :: "'k hash_env \<Rightarrow> ('k, 'v) raw_set \<Rightarrow> ('k \<times> 'v) list option" where
  "rs_elements E t = do { pos \<leftarrow> rs_begin E t; elements_loop E t pos }"

section \<open>Walks\<close>

text \<open>The copy constructor, and \<^verbatim>\<open>erase(first, last)\<close>.\<close>

definition copy_element :: "'k hash_env \<Rightarrow> 'k \<times> 'v \<Rightarrow> ('k, 'v) raw_set \<Rightarrow> ('k, 'v) raw_set option" where
  "copy_element E kv t =
     (let hashval = element_hash E (fst kv)
      in do { (i, len) \<leftarrow> find_first_non_full E hashval t;
              t \<leftarrow> set_ctrl E i (hash_h2 hashval) t;
              construct i kv t })"

definition rs_copy :: "'k hash_env \<Rightarrow> ('k, 'v) raw_set \<Rightarrow> ('k, 'v) raw_set option" where
  "rs_copy E that =
     do { t \<leftarrow> reserve E (rs_size that) raw_set_new;
          kvs \<leftarrow> rs_elements E that;
          t \<leftarrow> fold_opt (copy_element E) kvs t;
          Some (t\<lparr>rs_size := rs_size that, rs_growth_left := sub64 (rs_growth_left t) (rs_size that)\<rparr>) }"

partial_function (option) erase_range :: "'k hash_env \<Rightarrow> nat \<Rightarrow> nat \<Rightarrow> ('k, 'v) raw_set \<Rightarrow> ('k, 'v) raw_set option" where
  "erase_range E first end_it t =
     (if first = end_it then Some t
      else do { next \<leftarrow> iterator_next E t first; t \<leftarrow> erase_at E first t; erase_range E next end_it t })"

text \<open>\<^verbatim>\<open>merge\<close>, from a table whose hash function may be another.\<close>

partial_function (option) merge_loop ::
    "'k hash_env \<Rightarrow> 'k hash_env \<Rightarrow> nat \<Rightarrow> ('k, 'v) raw_set \<Rightarrow> ('k, 'v) raw_set \<Rightarrow> (('k, 'v) raw_set \<times> ('k, 'v) raw_set) option" where
  "merge_loop E E' pos t src =
     (if pos = rs_capacity src then Some (t, src)
      else do { (k, v) \<leftarrow> slot_at pos src;
                (i, inserted, t) \<leftarrow> find_or_prepare_insert E k (element_hash E k) t;
                (t, src) \<leftarrow> (if inserted then do { t \<leftarrow> construct i (k, v) t; src \<leftarrow> erase_at E' pos src; Some (t, src) }
                  else Some (t, src));
                pos \<leftarrow> iterator_next E' src pos;
                merge_loop E E' pos t src })"

definition rs_merge :: "'k hash_env \<Rightarrow> 'k hash_env \<Rightarrow> ('k, 'v) raw_set \<Rightarrow> ('k, 'v) raw_set \<Rightarrow> (('k, 'v) raw_set \<times> ('k, 'v) raw_set) option" where
  "rs_merge E E' t src = do { pos \<leftarrow> rs_begin E' src; merge_loop E E' pos t src }"

section \<open>The elements from a position on\<close>

definition elements_from :: "nat \<Rightarrow> ('k \<times> 'v) option list \<Rightarrow> ('k \<times> 'v) list" where
  "elements_from pos slots = List.map_filter (\<lambda>s. s) (drop pos slots)"

lemma elements_from_step: "slots ! pos = Some kv \<Longrightarrow> pos < length slots \<Longrightarrow> elements_from pos slots = kv # elements_from (Suc pos) slots"
  by (simp add: elements_from_def Cons_nth_drop_Suc [symmetric])

lemma elements_from_None: "slots ! pos = None \<Longrightarrow> pos < length slots \<Longrightarrow> elements_from pos slots = elements_from (Suc pos) slots"
  by (simp add: elements_from_def Cons_nth_drop_Suc [symmetric])

lemma elements_from_end [simp]: "elements_from (length slots) slots = []"
  by (simp add: elements_from_def map_filter_def)

lemma elements_from_skip:
  assumes "pos \<le> p" "p \<le> length slots" "\<And>j. pos \<le> j \<Longrightarrow> j < p \<Longrightarrow> slots ! j = None"
  shows "elements_from pos slots = elements_from p slots"
  using assms
proof (induction "p - pos" arbitrary: pos)
  case (Suc n)
  then have "pos < p" by simp
  moreover have "elements_from (Suc pos) slots = elements_from p slots" using Suc by (intro Suc(1)) simp_all
  ultimately show ?case using elements_from_None [of slots pos] Suc(4,5) by simp
qed simp

lemma elements_from_update: "i < pos \<Longrightarrow> elements_from pos (slots[i := s]) = elements_from pos slots"
  by (simp add: elements_from_def)

lemma map_of_elements: "map_of (elements_from 0 (rs_slots t)) = rs_map t"
  by (simp add: elements_from_def rs_map_def)

text \<open>An iterator at an element or at the end.\<close>

definition at_element :: "('k, 'v) raw_set \<Rightarrow> nat \<Rightarrow> bool" where
  "at_element t pos \<longleftrightarrow> pos \<le> rs_capacity t \<and> (pos < rs_capacity t \<longrightarrow> rs_slots t ! pos \<noteq> None)"

context hash_table
begin

section \<open>Skipping\<close>

lemma run_of_free:
  fixes t :: "('k, 'v) raw_set"
  assumes "tab_ok E (rs_capacity t) (rs_ctrl t) (rs_slots t)" "pos < rs_capacity t" "is_free (rs_ctrl t ! pos)"
  obtains g where "group_at E pos t = Some g" "0 < gr_count_leading (he_group E) g" "pos + gr_count_leading (he_group E) g \<le> rs_capacity t"
    and "\<And>j. j < gr_count_leading (he_group E) g \<Longrightarrow> is_free (rs_ctrl t ! (pos + j))"
proof -
  let ?cap = "rs_capacity t"
  note ctrl = tab_okD(1) [OF assms(1)]
  let ?g = "take W (drop pos (rs_ctrl t))"
  have le: "pos + W \<le> length (rs_ctrl t)" using ctrl_okD(2) [OF ctrl] assms(2) by simp
  then have g: "group_at E pos t = Some ?g" by (simp add: group_at_def)
  have len: "length ?g = W" using le by simp
  have nth: "?g ! j = rs_ctrl t ! (pos + j)" if "j < W" for j using that le by simp
  have "?g = window_bytes W ?cap (rs_ctrl t) pos" using group_at_window [OF ctrl, of pos] g assms(2) by simp
  then have valid: "list_all valid_ctrl ?g" using window_bytes_valid [OF ctrl, of pos] by simp
  let ?n = "gr_count_leading (he_group E) ?g"
  note run = free_run [OF len valid]
  have W: "0 < W" using width by auto
  have pos': "0 < ?n"
  proof (rule ccontr)
    assume "\<not> 0 < ?n"
    then have "\<not> is_free (?g ! 0)" using run W by simp
    then show False using nth [OF W] assms(3) by simp
  qed
  have free: "is_free (rs_ctrl t ! (pos + j))" if "j < ?n" for j using run nth [of j] that by auto
  have "pos + ?n \<le> ?cap"
  proof (rule ccontr)
    assume "\<not> pos + ?n \<le> ?cap"
    then have "is_free (rs_ctrl t ! (pos + (?cap - pos)))" using assms(2) by (intro free) linarith
    then show False using ctrl_okD(3) [OF ctrl] assms(2) by simp
  qed
  then show ?thesis using g pos' free by (intro that)
qed

lemma skip_tab:
  fixes t :: "('k, 'v) raw_set"
  assumes "tab_ok E (rs_capacity t) (rs_ctrl t) (rs_slots t)" "pos \<le> rs_capacity t"
  shows "\<exists>p. skip_empty_or_deleted E t pos = Some p \<and> pos \<le> p \<and> p \<le> rs_capacity t \<and> \<not> is_free (rs_ctrl t ! p) \<and>
    (\<forall>j. pos \<le> j \<and> j < p \<longrightarrow> is_free (rs_ctrl t ! j))"
  using assms(2)
proof (induction "rs_capacity t - pos" arbitrary: pos rule: less_induct)
  case less
  note ctrl = tab_okD(1) [OF assms(1)]
  have c: "nth_opt (rs_ctrl t) pos = Some (rs_ctrl t ! pos)" using ctrl_okD(2) [OF ctrl] less(2) by simp
  have free: "is_empty_or_deleted (rs_ctrl t ! pos) \<longleftrightarrow> is_free (rs_ctrl t ! pos)" using ctrl_valid [OF ctrl less(2)] by (rule is_empty_or_deleted_free)
  show ?case
  proof (cases "is_free (rs_ctrl t ! pos)")
    case False
    then have "skip_empty_or_deleted E t pos = Some pos" using c free by (subst skip_empty_or_deleted.simps) simp
    then show ?thesis using False less(2) by auto
  next
    case True
    then have "pos \<noteq> rs_capacity t" using ctrl_okD(3) [OF ctrl] by auto
    then have "pos < rs_capacity t" using less(2) by simp
    obtain g where g: "group_at E pos t = Some g" "0 < gr_count_leading (he_group E) g" "pos + gr_count_leading (he_group E) g \<le> rs_capacity t"
        "\<And>j. j < gr_count_leading (he_group E) g \<Longrightarrow> is_free (rs_ctrl t ! (pos + j))"
      using run_of_free [OF assms(1) \<open>pos < rs_capacity t\<close> True] by metis
    let ?q = "pos + gr_count_leading (he_group E) g"
    have "rs_capacity t - ?q < rs_capacity t - pos" using g(2) \<open>pos < rs_capacity t\<close> by simp
    from less(1) [OF this g(3)] obtain p where p: "skip_empty_or_deleted E t ?q = Some p" "?q \<le> p" "p \<le> rs_capacity t"
        "\<not> is_free (rs_ctrl t ! p)" "\<And>j. ?q \<le> j \<Longrightarrow> j < p \<Longrightarrow> is_free (rs_ctrl t ! j)"
      by blast
    have "skip_empty_or_deleted E t pos = Some p" using c free True g(1) p(1) by (subst skip_empty_or_deleted.simps) simp
    moreover have "is_free (rs_ctrl t ! j)" if "pos \<le> j" "j < p" for j
      using p(5) [of j] g(4) [of "j - pos"] that by (cases "?q \<le> j") simp_all
    ultimately show ?thesis using p(2-4) by (intro exI [of _ p]) simp
  qed
qed

lemma skip_ok:
  fixes t :: "('k, 'v) raw_set"
  assumes "rs_ok E t" "pos \<le> rs_capacity t"
  obtains p where "skip_empty_or_deleted E t pos = Some p" "pos \<le> p" "p \<le> rs_capacity t" "p < rs_capacity t \<Longrightarrow> rs_slots t ! p \<noteq> None"
    and "\<And>j. pos \<le> j \<Longrightarrow> j < p \<Longrightarrow> rs_slots t ! j = None" and "elements_from pos (rs_slots t) = elements_from p (rs_slots t)"
proof (cases "rs_capacity t = 0")
  case True
  then have "t = raw_set_new" "pos = 0" using assms by (simp_all add: rs_ok_def)
  moreover have "skip_empty_or_deleted E (raw_set_new :: ('k, 'v) raw_set) 0 = Some 0"
    by (subst skip_empty_or_deleted.simps) (simp add: raw_set_new_def empty_group_def is_empty_or_deleted_def)
  ultimately show ?thesis by (intro that [of 0]) (simp_all add: raw_set_new_def)
next
  case False
  note tab = rs_okD(1) [OF assms(1) False]
  obtain p where p: "skip_empty_or_deleted E t pos = Some p" "pos \<le> p" "p \<le> rs_capacity t" "\<not> is_free (rs_ctrl t ! p)"
      "\<And>j. pos \<le> j \<Longrightarrow> j < p \<Longrightarrow> is_free (rs_ctrl t ! j)"
    using skip_tab [OF tab assms(2)] by blast
  have none: "rs_slots t ! j = None" if "pos \<le> j" "j < p" for j
    using p(3) p(5) [OF that] tab_okD(3) [OF tab, of j] that by (metis free_special(4) less_le_trans)
  moreover have "rs_slots t ! p \<noteq> None" if "p < rs_capacity t"
    using p(4) tab_okD(3) [OF tab that] ctrl_okD(4) [OF tab_okD(1) [OF tab] that] by blast
  moreover have "elements_from pos (rs_slots t) = elements_from p (rs_slots t)"
    using p(2,3) none tab_okD(2) [OF tab] by (intro elements_from_skip) simp_all
  ultimately show ?thesis using p(1-3) by (intro that)
qed

section \<open>From an element to the next\<close>

lemma begin_ok:
  fixes t :: "('k, 'v) raw_set"
  assumes "rs_ok E t"
  obtains p where "rs_begin E t = Some p" "at_element t p" "elements_from 0 (rs_slots t) = elements_from p (rs_slots t)"
    and "\<And>j. j < p \<Longrightarrow> rs_slots t ! j = None"
  by (rule skip_ok [OF assms, of 0]) (auto simp: rs_begin_def at_element_def intro!: that)

lemma next_ok:
  fixes t :: "('k, 'v) raw_set"
  assumes "rs_ok E t" "pos < rs_capacity t"
  obtains p where "iterator_next E t pos = Some p" "at_element t p" "pos < p" "elements_from (Suc pos) (rs_slots t) = elements_from p (rs_slots t)"
    and "\<And>j. pos < j \<Longrightarrow> j < p \<Longrightarrow> rs_slots t ! j = None"
proof -
  obtain p where "skip_empty_or_deleted E t (Suc pos) = Some p" "Suc pos \<le> p" "p \<le> rs_capacity t" "p < rs_capacity t \<Longrightarrow> rs_slots t ! p \<noteq> None"
      "\<And>j. Suc pos \<le> j \<Longrightarrow> j < p \<Longrightarrow> rs_slots t ! j = None" "elements_from (Suc pos) (rs_slots t) = elements_from p (rs_slots t)"
    using skip_ok [OF assms(1), of "Suc pos"] assms(2) by (metis Suc_leI)
  then show ?thesis by (intro that [of p]) (simp_all add: iterator_next_def at_element_def)
qed

lemma at_elementE:
  fixes t :: "('k, 'v) raw_set"
  assumes "rs_ok E t" "at_element t pos" "pos \<noteq> rs_capacity t"
  obtains k v where "pos < rs_capacity t" "pos < length (rs_slots t)" "rs_slots t ! pos = Some (k, v)" "slot_at pos t = Some (k, v)"
proof -
  have pos: "pos < rs_capacity t" using assms(2,3) by (simp add: at_element_def)
  then obtain k v where "rs_slots t ! pos = Some (k, v)" using assms(2) by (auto simp: at_element_def)
  then show ?thesis using pos rs_slots_length [OF assms(1)] by (intro that) (simp_all add: slot_at_def)
qed

lemma elements_loop_ok:
  fixes t :: "('k, 'v) raw_set"
  assumes "rs_ok E t" "at_element t pos"
  shows "elements_loop E t pos = Some (elements_from pos (rs_slots t))"
  using assms(2)
proof (induction "rs_capacity t - pos" arbitrary: pos rule: less_induct)
  case less
  show ?case
  proof (cases "pos = rs_capacity t")
    case True
    then show ?thesis using rs_slots_length [OF assms(1)] elements_from_end [of "rs_slots t"] by (subst elements_loop.simps) simp
  next
    case False
    obtain k v where at: "pos < rs_capacity t" "pos < length (rs_slots t)" "rs_slots t ! pos = Some (k, v)" "slot_at pos t = Some (k, v)"
      using at_elementE [OF assms(1) less(2) False] by metis
    obtain p where p: "iterator_next E t pos = Some p" "at_element t p" "pos < p" "elements_from (Suc pos) (rs_slots t) = elements_from p (rs_slots t)"
      using next_ok [OF assms(1) at(1)] by metis
    have "rs_capacity t - p < rs_capacity t - pos" using at(1) p(3) by simp
    from less(1) [OF this p(2)] have "elements_loop E t p = Some (elements_from p (rs_slots t))" .
    then show ?thesis using False at(4) p(1,4) elements_from_step [OF at(3,2)] by (subst elements_loop.simps) simp
  qed
qed

lemma rs_elements_ok:
  fixes t :: "('k, 'v) raw_set"
  assumes "rs_ok E t"
  shows "rs_elements E t = Some (elements_from 0 (rs_slots t))"
proof -
  obtain p where "rs_begin E t = Some p" "at_element t p" "elements_from 0 (rs_slots t) = elements_from p (rs_slots t)"
    using begin_ok [OF assms] by metis
  then show ?thesis using elements_loop_ok [OF assms, of p] by (simp add: rs_elements_def)
qed

lemma elements_distinct:
  fixes t :: "('k, 'v) raw_set"
  assumes "rs_ok E t"
  shows "distinct (map fst (elements_from pos (rs_slots t)))"
proof (cases "rs_capacity t = 0")
  case True
  then show ?thesis using assms by (simp add: rs_ok_def raw_set_new_def elements_from_def map_filter_def)
next
  case False
  note tab = tab_okD [OF rs_okD(1) [OF assms False]]
  have once: "i = j" if "i < length (rs_slots t)" "j < length (rs_slots t)" "rs_slots t ! i = Some x" "rs_slots t ! j = Some y" "fst x = fst y" for i j x y
    using tab(6) [of i j "fst x" "snd x" "snd y"] that tab(2) by (cases x; cases y) simp
  show ?thesis
  proof (induction "length (rs_slots t) - pos" arbitrary: pos)
    case 0
    then show ?case by (simp add: elements_from_def map_filter_def)
  next
    case (Suc n)
    then have pos: "pos < length (rs_slots t)" by simp
    have rest: "distinct (map fst (elements_from (Suc pos) (rs_slots t)))" using Suc by simp
    show ?case
    proof (cases "rs_slots t ! pos")
      case None
      then show ?thesis using rest elements_from_None [OF None pos] by simp
    next
      case (Some kv)
      have "fst kv \<notin> fst ` set (elements_from (Suc pos) (rs_slots t))"
      proof
        assume "fst kv \<in> fst ` set (elements_from (Suc pos) (rs_slots t))"
        then obtain x where x: "Some x \<in> set (drop (Suc pos) (rs_slots t))" "fst x = fst kv"
          by (auto simp: elements_from_def map_filter_def)
        then obtain j where "j < length (rs_slots t) - Suc pos" "rs_slots t ! (Suc pos + j) = Some x"
          by (auto simp: in_set_conv_nth)
        moreover from this have "Suc pos + j < length (rs_slots t)" by simp
        ultimately show False using once [of pos "Suc pos + j" kv x] Some pos x(2) by simp
      qed
      then show ?thesis using rest elements_from_step [OF Some pos] by simp
    qed
  qed
qed

section \<open>Copying\<close>

lemma copy_moves:
  fixes old t :: "('k, 'v) raw_set"
  assumes "rs_capacity old = 0 \<and> rs_slots old = [] \<or> tab_ok E (rs_capacity old) (rs_ctrl old) (rs_slots old)" "pos \<le> rs_capacity old"
  shows "fold_opt (copy_element E) (elements_from pos (rs_slots old)) t = fold_opt (move_slot E old) [pos..<rs_capacity old] t"
  using assms(2)
proof (induction "rs_capacity old - pos" arbitrary: pos t)
  case 0
  have "length (rs_slots old) = rs_capacity old" using assms(1) tab_okD(2) by auto
  then show ?case using 0 by (simp add: elements_from_def map_filter_def)
next
  case (Suc n)
  then have pos: "pos < rs_capacity old" by simp
  then have tab: "tab_ok E (rs_capacity old) (rs_ctrl old) (rs_slots old)" using assms(1) by auto
  note old = tab_okD [OF tab]
  have len: "pos < length (rs_slots old)" using old(2) pos by simp
  have rest: "fold_opt (copy_element E) (elements_from (Suc pos) (rs_slots old)) u = fold_opt (move_slot E old) [Suc pos..<rs_capacity old] u" for u
    using Suc by (intro Suc(1)) simp_all
  have c: "nth_opt (rs_ctrl old) pos = Some (rs_ctrl old ! pos)" using ctrl_okD(2) [OF old(1)] pos by simp
  show ?case
  proof (cases "rs_slots old ! pos")
    case None
    then have "move_slot E old pos t = Some t" using c old(3) [OF pos] by (simp add: move_slot_def)
    then show ?thesis using elements_from_None [OF None len] rest pos by (simp add: upt_conv_Cons)
  next
    case (Some kv)
    then have "move_slot E old pos t = copy_element E kv t"
      using c old(3) [OF pos] len by (cases kv) (simp add: move_slot_def copy_element_def slot_at_def)
    then show ?thesis using elements_from_step [OF Some len] rest pos by (simp add: upt_conv_Cons cong: option.case_cong)
  qed
qed

lemma rs_copy_ok:
  fixes t :: "('k, 'v) raw_set"
  assumes "rs_ok E t" "rs_size t < 2 ^ 57"
  obtains t' where "rs_copy E t = Some t'" "rs_ok E t'" "rs_map t' = rs_map t" "rs_size t' = rs_size t"
proof (cases "rs_size t = 0")
  case True
  have none: "elements_from 0 (rs_slots t) = []"
  proof -
    have "finite (dom (rs_map t))" by (simp add: rs_map_def finite_dom_map_of)
    then have "rs_map t = Map.empty" using True rs_size_card [OF assms(1)] by simp
    then show ?thesis unfolding map_of_elements [symmetric] by simp
  qed
  then have "rs_map t = Map.empty" using map_of_elements [of t] by simp
  moreover have "reserve E 0 (raw_set_new :: ('k, 'v) raw_set) = Some raw_set_new"
    by (simp add: reserve_def rehash_def growth_to_lowerbound_capacity_def signed_divide_int_def) (simp add: raw_set_new_def)
  then have "rs_copy E t = Some raw_set_new" using True none rs_elements_ok [OF assms(1)] by (simp add: rs_copy_def) (simp add: raw_set_new_def)
  moreover have "rs_size t = rs_size (raw_set_new :: ('k, 'v) raw_set)" using True by (simp add: raw_set_new_def)
  ultimately show ?thesis by (intro that [of raw_set_new]) simp_all
next
  case False
  let ?n = "rs_size t"
  let ?l = "growth_to_lowerbound_capacity E ?n"
  let ?m = "normalize_capacity ?l"
  let ?new = "raw_set_new :: ('k, 'v) raw_set"
  have "(?n - 1) div 7 \<le> ?n" by simp
  then have l: "0 < ?l" "?l < 2 ^ 59" using growth_lowerbound [of ?n E] assms(2) False by auto
  have norm: "valid_cap ?m" "?m < 2 ^ 60" using normalize_capacity_ok [OF l(1)] l(2) by auto
  have n_le: "?n \<le> capacity_to_growth E ?m" using reserve_suffices [OF Wcase, of ?n] assms(2) False by simp
  have pos: "?m \<noteq> 0" using valid_cap_range [OF norm(1)] by simp
  obtain t0 where t0: "rs_resize E ?m ?new = Some t0" "tab_ok E (rs_capacity t0) (rs_ctrl t0) (rs_slots t0)" "rs_capacity t0 = ?m"
      "rs_size t0 = rs_size ?new" "rs_growth_left t0 = sub64 (capacity_to_growth E ?m) (rs_size ?new)" "rs_map t0 = rs_map ?new"
      "ctrl_count is_full ?m (rs_ctrl t0) = rs_size ?new" "ctrl_count is_deleted ?m (rs_ctrl t0) = 0"
    using resize_map [OF rs_ok_new norm(1)] by (metis raw_set.select_convs(3) raw_set_new_def zero_le)
  have new: "rs_size ?new = 0" "rs_capacity ?new = 0" by (simp_all add: raw_set_new_def)
  have reserve: "reserve E ?n ?new = Some t0" using l(1) pos t0(1) new by (simp add: reserve_def rehash_def)
  have old: "rs_capacity t = 0 \<and> rs_slots t = [] \<or> tab_ok E (rs_capacity t) (rs_ctrl t) (rs_slots t)"
    using assms(1) by (auto simp: rs_ok_def raw_set_new_def split: if_splits)
  have size: "ctrl_count is_full (rs_capacity t) (rs_ctrl t) = ?n"
    using assms(1) by (auto simp: rs_ok_def raw_set_new_def ctrl_count_def split: if_splits)
  have grow: "capacity_to_growth E ?m \<le> ?m" "capacity_to_growth E ?m < 2 ^ 64"
    using growth_bounds(2) [OF Wcase, of ?m] pos norm(2) by simp_all
  have none: "Some (k, v) \<notin> set (rs_slots t0)" for k v using tab_map [OF t0(2), of k v] t0(6) by simp
  obtain t1 where t1: "fold_opt (move_slot E t) [0..<rs_capacity t] t0 = Some t1" "tab_ok E (rs_capacity t1) (rs_ctrl t1) (rs_slots t1)"
      "rs_capacity t1 = ?m" "rs_growth_left t1 = rs_growth_left t0"
      "ctrl_count is_full ?m (rs_ctrl t1) = ?n" "ctrl_count is_deleted ?m (rs_ctrl t1) = 0"
      "\<And>k v. Some (k, v) \<in> set (rs_slots t1) \<longleftrightarrow> Some (k, v) \<in> set (rs_slots t)"
    by (rule move_slots_ok [OF old t0(2) none]) (use t0(3,7,8) new size n_le grow(1) in simp_all)
  let ?t = "t1\<lparr>rs_size := ?n, rs_growth_left := sub64 (rs_growth_left t1) ?n\<rparr>"
  have copy: "rs_copy E t = Some ?t"
    using reserve rs_elements_ok [OF assms(1)] copy_moves [OF old, of 0 t0] t1(1) by (simp add: rs_copy_def)
  have "rs_growth_left ?t = capacity_to_growth E ?m - ?n" using t1(4) t0(5) new(1) n_le grow(2) by simp
  then have ok: "rs_ok E ?t" using t1(2,3,5,6) pos n_le by (simp add: rs_ok_def)
  have "rs_map t k = Some v \<longleftrightarrow> Some (k, v) \<in> set (rs_slots t)" for k v
    using old
  proof
    assume "rs_capacity t = 0 \<and> rs_slots t = []"
    then show ?thesis by (simp add: rs_map_def map_filter_def)
  qed (rule tab_map)
  then have "rs_map ?t = rs_map t" using t1(2,7) by (intro tab_map_eqI [of ?t]) simp_all
  then show ?thesis using copy ok by (intro that [of ?t]) simp_all
qed

section \<open>Erasing a range\<close>

lemma erase_at_slots:
  assumes "erase_at E i t = Some t'"
  shows "rs_slots t' = (rs_slots t)[i := None]"
  using assms
  by (auto simp: erase_at_def destroy_def erase_meta_only_def set_ctrl_def Let_def split: option.splits if_splits bind_splits)

lemma erase_element:
  fixes t :: "('k, 'v) raw_set"
  assumes "rs_ok E t" "pos < rs_capacity t" "rs_slots t ! pos = Some (k, v)"
  obtains t' where "erase_at E pos t = Some t'" "rs_ok E t'" "rs_map t' = (rs_map t)(k := None)" "rs_capacity t' = rs_capacity t"
    and "rs_slots t' = (rs_slots t)[pos := None]"
  using erase_ok [OF assms] erase_at_slots by metis

lemma erase_range_ok:
  fixes t :: "('k, 'v) raw_set"
  assumes "rs_ok E t" "at_element t first" "at_element t end_it" "first \<le> end_it"
  shows "\<exists>t'. erase_range E first end_it t = Some t' \<and> rs_ok E t' \<and> rs_capacity t' = rs_capacity t \<and>
    (\<forall>j < rs_capacity t. rs_slots t' ! j = (if first \<le> j \<and> j < end_it then None else rs_slots t ! j))"
  using assms
proof (induction "end_it - first" arbitrary: first t rule: less_induct)
  case less
  show ?case
  proof (cases "first = end_it")
    case True
    then show ?thesis using less(2) by (intro exI [of _ t]) (subst erase_range.simps, auto)
  next
    case False
    then have lt: "first < end_it" "end_it \<le> rs_capacity t" using less(4,5) by (simp_all add: at_element_def)
    then have "first \<noteq> rs_capacity t" by simp
    obtain k v where at: "first < rs_capacity t" "first < length (rs_slots t)" "rs_slots t ! first = Some (k, v)"
      using at_elementE [OF less(2,3) \<open>first \<noteq> rs_capacity t\<close>] by metis
    obtain p where p: "iterator_next E t first = Some p" "at_element t p" "first < p" "\<And>j. first < j \<Longrightarrow> j < p \<Longrightarrow> rs_slots t ! j = None"
      using next_ok [OF less(2) at(1)] by metis
    have "p \<le> end_it"
    proof (rule ccontr)
      assume "\<not> p \<le> end_it"
      then have "rs_slots t ! end_it = None" "end_it < rs_capacity t" using p(2) p(4) [of end_it] lt(1) by (simp_all add: at_element_def)
      then show False using less(4) by (simp add: at_element_def)
    qed
    obtain t1 where t1: "erase_at E first t = Some t1" "rs_ok E t1" "rs_capacity t1 = rs_capacity t" "rs_slots t1 = (rs_slots t)[first := None]"
      using erase_element [OF less(2) at(1,3)] by metis
    have at': "at_element t1 p" "at_element t1 end_it" using p(2,3) less(4) lt(1) t1(3,4) by (simp_all add: at_element_def)
    have "end_it - p < end_it - first" using p(3) lt(1) by simp
    from less(1) [OF this t1(2) at' \<open>p \<le> end_it\<close>] obtain t' where t': "erase_range E p end_it t1 = Some t'" "rs_ok E t'"
        "rs_capacity t' = rs_capacity t" "\<And>j. j < rs_capacity t \<Longrightarrow> rs_slots t' ! j = (if p \<le> j \<and> j < end_it then None else rs_slots t1 ! j)"
      using t1(3) by auto
    have "rs_slots t' ! j = (if first \<le> j \<and> j < end_it then None else rs_slots t ! j)" if "j < rs_capacity t" for j
      using t'(4) [OF that] p(4) [of j] p(3) \<open>p \<le> end_it\<close> at(2) unfolding t1(4) by (cases j first rule: linorder_cases) auto
    moreover have "erase_range E first end_it t = Some t'" using False p(1) t1(1) t'(1) by (subst erase_range.simps) simp
    ultimately show ?thesis using t'(2,3) by blast
  qed
qed

section \<open>Merging\<close>

lemma merge_loop_ok:
  fixes t src :: "('k, 'v) raw_set"
  assumes "hash_table E'" "rs_good E n t" "rs_ok E' src" "at_element src pos" "n + (rs_capacity src - pos) < 2 ^ 55"
  shows "\<exists>t' src'. merge_loop E E' pos t src = Some (t', src') \<and> rs_ok E t' \<and> rs_ok E' src' \<and>
    rs_map t' = map_of (elements_from pos (rs_slots src)) ++ rs_map t \<and>
    rs_map src' = (\<lambda>k. if k \<in> dom (map_of (elements_from pos (rs_slots src))) - dom (rs_map t) then None else rs_map src k)"
  using assms(2-)
proof (induction "rs_capacity src - pos" arbitrary: pos n t src rule: less_induct)
  case less
  note next' = hash_table.next_ok [OF assms(1)] and len = hash_table.rs_slots_length [OF assms(1) less(3)]
  have good: "rs_ok E t" "rs_capacity t < 2 ^ 58" using less(2,5) by (auto simp: rs_good_def)
  show ?case
  proof (cases "pos = rs_capacity src")
    case True
    then have "elements_from pos (rs_slots src) = []" using len elements_from_end [of "rs_slots src"] by simp
    then show ?thesis using True good(1) less(3) by (intro exI [of _ t] exI [of _ src]) (subst merge_loop.simps, simp)
  next
    case False
    obtain k v where at: "pos < rs_capacity src" "pos < length (rs_slots src)" "rs_slots src ! pos = Some (k, v)" "slot_at pos src = Some (k, v)"
      using hash_table.at_elementE [OF assms(1) less(3,4) False] by metis
    have step: "elements_from pos (rs_slots src) = (k, v) # elements_from (Suc pos) (rs_slots src)" by (rule elements_from_step [OF at(3,2)])
    have fresh: "map_of (elements_from (Suc pos) (rs_slots src)) k = None"
      using hash_table.elements_distinct [OF assms(1) less(3), of pos] unfolding step by (simp add: map_of_eq_None_iff)
    from find_or_prepare_ok [OF good, of k] show ?thesis
    proof (elim disjE exE conjE)
      fix i w assume old: "find_or_prepare_insert E k (element_hash E k) t = Some (i, False, t)" "rs_map t k = Some w"
      obtain p where p: "iterator_next E' src pos = Some p" "at_element src p" "pos < p" "elements_from (Suc pos) (rs_slots src) = elements_from p (rs_slots src)"
        using next' [OF less(3) at(1)] by metis
      have "rs_capacity src - p < rs_capacity src - pos" "n + (rs_capacity src - p) < 2 ^ 55" using p(3) at(1) less(5) by linarith+
      from less(1) [OF this(1) less(2,3) p(2) this(2)] obtain t' src' where r: "merge_loop E E' p t src = Some (t', src')" "rs_ok E t'" "rs_ok E' src'"
          "rs_map t' = map_of (elements_from p (rs_slots src)) ++ rs_map t"
          "rs_map src' = (\<lambda>k. if k \<in> dom (map_of (elements_from p (rs_slots src))) - dom (rs_map t) then None else rs_map src k)"
        by blast
      have "merge_loop E E' pos t src = Some (t', src')" using False at(4) old(1) p(1) r(1) by (subst merge_loop.simps) simp
      moreover have "rs_map t' = map_of (elements_from pos (rs_slots src)) ++ rs_map t"
        unfolding r(4) step p(4) [symmetric] using old(2) by (auto simp: map_add_def fun_eq_iff split: option.split)
      moreover have "rs_map src' = (\<lambda>k. if k \<in> dom (map_of (elements_from pos (rs_slots src))) - dom (rs_map t) then None else rs_map src k)"
        unfolding r(5) step p(4) [symmetric] using old(2) by (auto simp: fun_eq_iff)
      ultimately show ?thesis using r(2,3) by blast
    next
      fix i t1 assume new: "find_or_prepare_insert E k (element_hash E k) t = Some (i, True, t1)" "insert_result t k i t1" "rs_map t k = None"
      obtain t2 where t2: "construct i (k, v) t1 = Some t2" "rs_good E (Suc n) t2" "rs_map t2 = (rs_map t)(k \<mapsto> v)"
        using insert_good [OF new(2) less(2)] by metis
      obtain src1 where src1: "erase_at E' pos src = Some src1" "rs_ok E' src1" "rs_map src1 = (rs_map src)(k := None)"
          "rs_capacity src1 = rs_capacity src" "rs_slots src1 = (rs_slots src)[pos := None]"
        using hash_table.erase_element [OF assms(1) less(3) at(1,3)] by metis
      have pos1: "pos < rs_capacity src1" using at(1) src1(4) by simp
      obtain p where p: "iterator_next E' src1 pos = Some p" "at_element src1 p" "pos < p" "elements_from (Suc pos) (rs_slots src1) = elements_from p (rs_slots src1)"
        using next' [OF src1(2) pos1] by metis
      have rest: "elements_from p (rs_slots src1) = elements_from (Suc pos) (rs_slots src)"
        using p(4) elements_from_update [of pos "Suc pos" "rs_slots src" None] unfolding src1(5) by simp
      have "rs_capacity src1 - p < rs_capacity src - pos" "Suc n + (rs_capacity src1 - p) < 2 ^ 55" using p(3) at(1) less(5) src1(4) by linarith+
      from less(1) [OF this(1) t2(2) src1(2) p(2) this(2)] obtain t' src' where r: "merge_loop E E' p t2 src1 = Some (t', src')" "rs_ok E t'" "rs_ok E' src'"
          "rs_map t' = map_of (elements_from (Suc pos) (rs_slots src)) ++ rs_map t2"
          "rs_map src' = (\<lambda>k. if k \<in> dom (map_of (elements_from (Suc pos) (rs_slots src))) - dom (rs_map t2) then None else rs_map src1 k)"
        unfolding rest by blast
      have "merge_loop E E' pos t src = Some (t', src')" using False at(4) new(1) t2(1) src1(1) p(1) r(1) by (subst merge_loop.simps) simp
      moreover have "rs_map t' = map_of (elements_from pos (rs_slots src)) ++ rs_map t"
        unfolding r(4) step t2(3) using new(3) by (auto simp: map_add_def fun_eq_iff split: option.split)
      moreover have "rs_map src' = (\<lambda>k. if k \<in> dom (map_of (elements_from pos (rs_slots src))) - dom (rs_map t) then None else rs_map src k)"
        unfolding r(5) step t2(3) src1(3) using new(3) fresh by (auto simp: fun_eq_iff)
      ultimately show ?thesis using r(2,3) by blast
    qed
  qed
qed

lemma rs_merge_ok:
  fixes t src :: "('k, 'v) raw_set"
  assumes "hash_table E'" "rs_good E n t" "rs_ok E' src" "n + rs_capacity src < 2 ^ 55"
  shows "\<exists>t' src'. rs_merge E E' t src = Some (t', src') \<and> rs_ok E t' \<and> rs_ok E' src' \<and> rs_map t' = rs_map src ++ rs_map t \<and>
    rs_map src' = rs_map src |` dom (rs_map t)"
proof -
  obtain p where p: "rs_begin E' src = Some p" "at_element src p" "elements_from 0 (rs_slots src) = elements_from p (rs_slots src)"
    using hash_table.begin_ok [OF assms(1,3)] by metis
  have "n + (rs_capacity src - p) < 2 ^ 55" using assms(4) by linarith
  from merge_loop_ok [OF assms(1-3) p(2) this] show ?thesis
    using p(1) unfolding p(3) [symmetric] map_of_elements by (auto simp: rs_merge_def restrict_map_def fun_eq_iff)
qed

end

end
