(* ===== verification/ParallelMap.thy ===== *)
theory ParallelMap
  imports RawHashIterate KvMap
begin

text \<open>
  \<^verbatim>\<open>parallel_hash_set\<close> and \<^verbatim>\<open>parallel_hash_map\<close> of \<^verbatim>\<open>src/utils/phmap/phmap.h\<close>: \<^verbatim>\<open>2 ^ N\<close> tables, each under a lock, and the table of a
  key chosen from its hash; and \<^verbatim>\<open>ParallelHashMap\<close> on top of it. Every operation holds the lock of the table of its key from
  beginning to end, and calls are steps. A successful \<^verbatim>\<open>erase_if\<close> also advances the iterator it erases by, which reads the
  tables that follow without their locks: no effect when calls run one at a time, as here, but a data race between
  threads. Runs refine the partial functions with which \<^verbatim>\<open>KvMap\<close> models these maps.
\<close>

section \<open>The table of a key\<close>

definition idxmapping :: "nat list" where
  "idxmapping = concat (map (\<lambda>(n, i). replicate n i)
     [(8, 0), (9, 1), (10, 2), (11, 3), (12, 4), (13, 5), (14, 6), (15, 7),
      (17, 8), (18, 9), (19, 10), (20, 11), (21, 12), (22, 13), (23, 14), (24, 15)])"

definition subidx :: "bool \<Rightarrow> nat \<Rightarrow> u64 \<Rightarrow> nat" where
  "subidx balance N hashval =
     (let x = unat (drop_bit 8 hashval XOR drop_bit 16 hashval XOR drop_bit 24 hashval)
      in if balance then x AND (2 ^ N - 1) else idxmapping ! (x AND 0xFF))"

type_synonym ('k, 'v) sub_maps = "('k, 'v) raw_set list"

definition parallel_new :: "nat \<Rightarrow> ('k, 'v) sub_maps" where
  "parallel_new N = replicate (2 ^ N) raw_set_new"

section \<open>The operations of \<^verbatim>\<open>parallel_hash_map\<close>\<close>

definition pm_try_emplace_l ::
    "'k hash_env \<Rightarrow> nat \<Rightarrow> 'k \<Rightarrow> ('v \<Rightarrow> 'v) \<Rightarrow> 'v \<Rightarrow> ('k, 'v) sub_maps \<Rightarrow> (bool \<times> ('k, 'v) sub_maps) option" where
  "pm_try_emplace_l E N key f v sets =
     (let hashval = element_hash E key; i = subidx True N hashval
      in do { inner \<leftarrow> nth_opt sets i;
              (j, inserted, inner) \<leftarrow> find_or_prepare_insert E key hashval inner;
              inner \<leftarrow> (if inserted then construct j (key, v) inner else assign j f inner);
              Some (inserted, sets[i := inner]) })"

definition pm_if_contains :: "'k hash_env \<Rightarrow> nat \<Rightarrow> 'k \<Rightarrow> ('v \<Rightarrow> 'a) \<Rightarrow> ('k, 'v) sub_maps \<Rightarrow> 'a option option" where
  "pm_if_contains E N key f sets =
     (let hashval = element_hash E key
      in do { inner \<leftarrow> nth_opt sets (subidx True N hashval);
              hit \<leftarrow> find_impl E key hashval inner;
              (case hit of None \<Rightarrow> Some None | Some j \<Rightarrow> do { (k, v) \<leftarrow> slot_at j inner; Some (Some (f v)) }) })"

text \<open>
  The iterator: a table and a position in it, \<open>None\<close> at the end. \<open>pm_skip_empty\<close> takes the tables that are left, the first of
  them the \<open>i\<close>-th. \<^verbatim>\<open>erase(it)\<close> is \<^verbatim>\<open>_erase(it++)\<close>.
\<close>

type_synonym pm_iterator = "(nat \<times> nat) option"

fun pm_skip_empty :: "'k hash_env \<Rightarrow> nat \<Rightarrow> ('k, 'v) sub_maps \<Rightarrow> pm_iterator option" where
  "pm_skip_empty E i [] = Some None"
| "pm_skip_empty E i (t # ts) =
     do { pos \<leftarrow> rs_begin E t;
          (if pos = rs_capacity t then pm_skip_empty E (Suc i) ts else Some (Some (i, pos))) }"

definition pm_iterator_next :: "'k hash_env \<Rightarrow> ('k, 'v) sub_maps \<Rightarrow> nat \<Rightarrow> nat \<Rightarrow> pm_iterator option" where
  "pm_iterator_next E sets i pos =
     do { t \<leftarrow> nth_opt sets i;
          pos \<leftarrow> iterator_next E t pos;
          (if pos = rs_capacity t then pm_skip_empty E (Suc i) (drop (Suc i) sets) else Some (Some (i, pos))) }"

definition pm_erase :: "'k hash_env \<Rightarrow> nat \<Rightarrow> nat \<Rightarrow> ('k, 'v) sub_maps \<Rightarrow> (pm_iterator \<times> ('k, 'v) sub_maps) option" where
  "pm_erase E i pos sets =
     do { it \<leftarrow> pm_iterator_next E sets i pos;
          inner \<leftarrow> nth_opt sets i;
          inner \<leftarrow> erase_at E pos inner;
          Some (it, sets[i := inner]) }"

definition pm_erase_if :: "'k hash_env \<Rightarrow> nat \<Rightarrow> 'k \<Rightarrow> ('v \<Rightarrow> bool) \<Rightarrow> ('k, 'v) sub_maps \<Rightarrow> (bool \<times> ('k, 'v) sub_maps) option" where
  "pm_erase_if E N key f sets =
     (let hashval = element_hash E key; i = subidx True N hashval
      in do { inner \<leftarrow> nth_opt sets i;
              hit \<leftarrow> find_impl E key hashval inner;
              (case hit of
                 None \<Rightarrow> Some (False, sets)
               | Some j \<Rightarrow> do { (k, v) \<leftarrow> slot_at j inner;
                   (if f v then do { (it, sets) \<leftarrow> pm_erase E i j sets; Some (True, sets) } else Some (False, sets)) }) })"

section \<open>\<^verbatim>\<open>ParallelHashMap\<close>\<close>

definition pm_insert :: "'k hash_env \<Rightarrow> nat \<Rightarrow> 'k \<Rightarrow> 'v \<Rightarrow> ('k, 'v) sub_maps \<Rightarrow> (bool \<times> ('k, 'v) sub_maps) option" where
  "pm_insert E N key v sets = pm_try_emplace_l E N key (\<lambda>old. old) v sets"

definition pm_update :: "'k hash_env \<Rightarrow> nat \<Rightarrow> 'k \<Rightarrow> 'v \<Rightarrow> ('k, 'v) sub_maps \<Rightarrow> ('k, 'v) sub_maps option" where
  "pm_update E N key v sets = do { (inserted, sets) \<leftarrow> pm_try_emplace_l E N key (\<lambda>old. v) v sets; Some sets }"

definition pm_find :: "'k hash_env \<Rightarrow> nat \<Rightarrow> 'k \<Rightarrow> ('k, 'v) sub_maps \<Rightarrow> 'v option option" where
  "pm_find E N key sets = pm_if_contains E N key (\<lambda>v. v) sets"

definition pm_remove :: "'k hash_env \<Rightarrow> nat \<Rightarrow> 'k \<Rightarrow> ('k, 'v) sub_maps \<Rightarrow> (bool \<times> ('k, 'v) sub_maps) option" where
  "pm_remove E N key sets = pm_erase_if E N key (\<lambda>v. True) sets"

section \<open>Content and invariant\<close>

definition pm_map :: "'k hash_env \<Rightarrow> nat \<Rightarrow> ('k, 'v) sub_maps \<Rightarrow> 'k \<rightharpoonup> 'v" where
  "pm_map E N sets = (\<lambda>k. rs_map (sets ! subidx True N (element_hash E k)) k)"

definition pm_good :: "'k hash_env \<Rightarrow> nat \<Rightarrow> nat \<Rightarrow> ('k, 'v) sub_maps \<Rightarrow> bool" where
  "pm_good E N n sets \<longleftrightarrow> length sets = 2 ^ N \<and> (\<forall>t \<in> set sets. rs_good E n t)"

lemma subidx_less: "subidx True N hashval < 2 ^ N"
proof -
  have "subidx True N hashval = take_bit N (unat (drop_bit 8 hashval XOR drop_bit 16 hashval XOR drop_bit 24 hashval))"
    by (simp add: subidx_def take_bit_eq_mask mask_eq_exp_minus_1)
  then show ?thesis by simp
qed

lemma idxmapping_facts: "length idxmapping = 256 \<and> list_all (\<lambda>i. i < 16) idxmapping"
  by (simp add: idxmapping_def list_all_iff)

lemma subidx_unbalanced: "subidx False 4 hashval < 16"
proof -
  have "(255 :: nat) = mask 8" by (simp add: mask_eq_exp_minus_1)
  then have "unat (drop_bit 8 hashval XOR drop_bit 16 hashval XOR drop_bit 24 hashval) AND 255 < length idxmapping"
    using idxmapping_facts take_bit_nat_less_exp [of 8] by (simp only: take_bit_eq_mask) simp
  then show ?thesis using idxmapping_facts by (simp add: subidx_def list_all_length)
qed

section \<open>Refinement\<close>

datatype ('k, 'v) pm_call = PmInsert 'k 'v | PmUpdate 'k 'v | PmFind 'k | PmRemove 'k

datatype 'v pm_reply = PmBool bool | PmValue "'v option" | PmDone

definition pm_step :: "'k hash_env \<Rightarrow> nat \<Rightarrow> ('k, 'v) pm_call \<Rightarrow> ('k, 'v) sub_maps \<Rightarrow> ('v pm_reply \<times> ('k, 'v) sub_maps) option" where
  "pm_step E N c sets = (case c of
     PmInsert k v \<Rightarrow> map_option (\<lambda>(b, s). (PmBool b, s)) (pm_insert E N k v sets)
   | PmUpdate k v \<Rightarrow> map_option (\<lambda>s. (PmDone, s)) (pm_update E N k v sets)
   | PmFind k \<Rightarrow> map_option (\<lambda>r. (PmValue r, sets)) (pm_find E N k sets)
   | PmRemove k \<Rightarrow> map_option (\<lambda>(b, s). (PmBool b, s)) (pm_remove E N k sets))"

fun phm_step :: "('k, 'v) pm_call \<Rightarrow> ('k \<rightharpoonup> 'v) \<Rightarrow> 'v pm_reply \<times> ('k \<rightharpoonup> 'v)" where
  "phm_step (PmInsert k v) m = (let (b, m) = phm_insert k v m in (PmBool b, m))"
| "phm_step (PmUpdate k v) m = (PmDone, phm_update k v m)"
| "phm_step (PmFind k) m = (PmValue (phm_find k m), m)"
| "phm_step (PmRemove k) m = (let (b, m) = phm_remove k m in (PmBool b, m))"

fun pm_run :: "'k hash_env \<Rightarrow> nat \<Rightarrow> ('k, 'v) pm_call list \<Rightarrow> ('k, 'v) sub_maps \<Rightarrow> ('v pm_reply list \<times> ('k, 'v) sub_maps) option" where
  "pm_run E N [] sets = Some ([], sets)"
| "pm_run E N (c # cs) sets = do { (r, sets) \<leftarrow> pm_step E N c sets; (rs, sets) \<leftarrow> pm_run E N cs sets; Some (r # rs, sets) }"

fun phm_run :: "('k, 'v) pm_call list \<Rightarrow> ('k \<rightharpoonup> 'v) \<Rightarrow> 'v pm_reply list \<times> ('k \<rightharpoonup> 'v)" where
  "phm_run [] m = ([], m)"
| "phm_run (c # cs) m = (let (r, m) = phm_step c m; (rs, m) = phm_run cs m in (r # rs, m))"

context hash_table
begin

lemma sub_map:
  assumes "pm_good E N n sets"
  shows "subidx True N (element_hash E k) < length sets" "rs_good E n (sets ! subidx True N (element_hash E k))"
    "rs_map (sets ! subidx True N (element_hash E k)) k = pm_map E N sets k"
  using assms subidx_less [of N "element_hash E k"] by (auto simp: pm_good_def pm_map_def)

lemma sub_map_update:
  assumes "pm_good E N n sets" "rs_good E (Suc n) t" "rs_map t = (rs_map (sets ! subidx True N (element_hash E k)))(k := x)"
  shows "pm_good E N (Suc n) (sets[subidx True N (element_hash E k) := t])"
    "pm_map E N (sets[subidx True N (element_hash E k) := t]) = (pm_map E N sets)(k := x)"
proof -
  have "rs_good E (Suc n) t'" if "t' \<in> set sets" for t' using that assms(1) by (auto simp: pm_good_def intro: rs_good_mono [of E n])
  then show "pm_good E N (Suc n) (sets[subidx True N (element_hash E k) := t])"
    using assms(1,2) set_update_subset_insert by (fastforce simp: pm_good_def)
  have "pm_map E N (sets[subidx True N (element_hash E k) := t]) k' = ((pm_map E N sets)(k := x)) k'" for k'
    using sub_map(1) [OF assms(1), of k] assms(3)
    by (cases "subidx True N (element_hash E k') = subidx True N (element_hash E k)") (auto simp: pm_map_def)
  then show "pm_map E N (sets[subidx True N (element_hash E k) := t]) = (pm_map E N sets)(k := x)" by (rule ext)
qed

lemma pm_try_emplace_ok:
  fixes sets :: "('k, 'v) sub_maps"
  assumes "pm_good E N n sets" "n < 2 ^ 50"
  obtains sets' where "pm_try_emplace_l E N k f v sets = Some (fst (try_emplace_l k f v (pm_map E N sets)), sets')"
    and "pm_good E N (Suc n) sets'" "pm_map E N sets' = snd (try_emplace_l k f v (pm_map E N sets))"
proof -
  note result = that
  let ?i = "subidx True N (element_hash E k)"
  let ?t = "sets ! ?i"
  note sub = sub_map [OF assms(1), of k]
  have ok: "rs_ok E ?t" "rs_capacity ?t < 2 ^ 58" using sub(2) assms(2) by (auto simp: rs_good_def)
  from find_or_prepare_ok [OF ok, of k] show ?thesis
  proof (elim disjE exE conjE)
    fix i t1 assume i: "find_or_prepare_insert E k (element_hash E k) ?t = Some (i, True, t1)" "insert_result ?t k i t1" "rs_map ?t k = None"
    obtain t2 where t2: "construct i (k, v) t1 = Some t2" "rs_good E (Suc n) t2" "rs_map t2 = (rs_map ?t)(k \<mapsto> v)"
      using insert_good [OF i(2) sub(2)] by metis
    show ?thesis
      using sub i t2(1) sub_map_update [OF assms(1) t2(2,3)]
      by (intro result [of "sets[?i := t2]"]) (simp_all add: pm_try_emplace_l_def try_emplace_l_def Let_def)
  next
    fix i w assume i: "find_or_prepare_insert E k (element_hash E k) ?t = Some (i, False, ?t)" "i < rs_capacity ?t"
      "rs_slots ?t ! i = Some (k, w)" "rs_map ?t k = Some w"
    obtain t2 where t2: "assign i f ?t = Some t2" "rs_ok E t2" "rs_map t2 = (rs_map ?t)(k \<mapsto> f w)" "rs_size t2 = rs_size ?t"
        "rs_capacity t2 = rs_capacity ?t"
      using assign_ok [OF ok(1) i(2,3), of f] by metis
    have m: "pm_map E N sets k = Some w" using sub(3) i(4) by simp
    have "rs_good E (Suc n) t2" using t2(2,4,5) sub(2) by (auto simp: rs_good_def)
    then show ?thesis
      using sub(1,2) i(1) m t2(1) sub_map_update [OF assms(1) _ t2(3)]
      by (intro result [of "sets[?i := t2]"]) (simp_all add: pm_try_emplace_l_def try_emplace_l_def Let_def)
  qed
qed

lemma pm_if_contains_ok:
  fixes sets :: "('k, 'v) sub_maps"
  assumes "pm_good E N n sets"
  shows "pm_if_contains E N k f sets = Some (if_contains k f (pm_map E N sets))"
proof -
  let ?t = "sets ! subidx True N (element_hash E k)"
  note sub = sub_map [OF assms, of k]
  have ok: "rs_ok E ?t" using sub(2) by (simp add: rs_good_def)
  from find_ok [OF ok, of k] show ?thesis
    by (elim disjE exE conjE)
      (use sub rs_slots_length [OF ok] in \<open>simp_all add: pm_if_contains_def if_contains_def Let_def rs_find_def slot_at_def\<close>)
qed

text \<open>Advancing the iterator returns.\<close>

lemma pm_skip_empty_ok:
  fixes sets :: "('k, 'v) sub_maps"
  assumes "\<forall>t \<in> set sets. rs_ok E t"
  shows "\<exists>it. pm_skip_empty E i sets = Some it"
  using assms
proof (induction sets arbitrary: i)
  case (Cons t ts)
  then have "rs_ok E t" by simp
  then obtain p where "rs_begin E t = Some p" using begin_ok by metis
  then show ?case using Cons by simp
qed simp

lemma pm_iterator_next_ok:
  fixes sets :: "('k, 'v) sub_maps"
  assumes "pm_good E N n sets" "i < length sets" "pos < rs_capacity (sets ! i)"
  shows "\<exists>it. pm_iterator_next E sets i pos = Some it"
proof -
  have ok: "\<forall>t \<in> set sets. rs_ok E t" using assms(1) by (auto simp: pm_good_def rs_good_def)
  then obtain p where "iterator_next E (sets ! i) pos = Some p" using next_ok [OF _ assms(3)] assms(2) by (metis nth_mem)
  moreover have "\<exists>it. pm_skip_empty E (Suc i) (drop (Suc i) sets) = Some it"
    using ok by (intro pm_skip_empty_ok) (auto dest: in_set_dropD)
  ultimately show ?thesis using assms(2) by (auto simp: pm_iterator_next_def)
qed

lemma pm_erase_if_ok:
  fixes sets :: "('k, 'v) sub_maps"
  assumes "pm_good E N n sets"
  obtains sets' where "pm_erase_if E N k f sets = Some (fst (erase_if k f (pm_map E N sets)), sets')"
    and "pm_good E N (Suc n) sets'" "pm_map E N sets' = snd (erase_if k f (pm_map E N sets))"
proof -
  note result = that
  let ?i = "subidx True N (element_hash E k)"
  let ?t = "sets ! ?i"
  note sub = sub_map [OF assms(1), of k]
  have ok: "rs_ok E ?t" using sub(2) by (simp add: rs_good_def)
  have keep: "pm_good E N (Suc n) sets" using assms by (auto simp: pm_good_def intro: rs_good_mono [of E n])
  from find_ok [OF ok, of k] show ?thesis
  proof (elim disjE exE conjE)
    assume "rs_find E k ?t = Some None" "rs_map ?t k = None"
    then show ?thesis using sub keep by (intro result [of sets]) (simp_all add: pm_erase_if_def erase_if_def Let_def rs_find_def)
  next
    fix i w assume i: "rs_find E k ?t = Some (Some i)" "i < rs_capacity ?t" "rs_slots ?t ! i = Some (k, w)" "rs_map ?t k = Some w"
    have slot: "slot_at i ?t = Some (k, w)" using i(2,3) rs_slots_length [OF ok] by (simp add: slot_at_def)
    obtain t2 where t2: "erase_at E i ?t = Some t2" "rs_ok E t2" "rs_map t2 = (rs_map ?t)(k := None)" "rs_size t2 \<le> rs_size ?t"
        "rs_capacity t2 = rs_capacity ?t"
      using erase_ok [OF ok i(2,3)] by metis
    have m: "pm_map E N sets k = Some w" using sub(3) i(4) by simp
    have good: "rs_good E (Suc n) t2" using t2(2,4,5) sub(2) by (auto simp: rs_good_def)
    obtain it where it: "pm_iterator_next E sets ?i i = Some it" using pm_iterator_next_ok [OF assms sub(1) i(2)] by blast
    show ?thesis
    proof (cases "f w")
      case True
      then show ?thesis using sub(1,2) i(1) m slot t2(1) it sub_map_update [OF assms good t2(3)]
        by (intro result [of "sets[?i := t2]"]) (simp_all add: pm_erase_if_def pm_erase_def erase_if_def Let_def rs_find_def)
    next
      case False
      then show ?thesis using sub(1,2) i(1) m slot keep
        by (intro result [of sets]) (simp_all add: pm_erase_if_def erase_if_def Let_def rs_find_def)
    qed
  qed
qed

lemma pm_step_ok:
  fixes sets :: "('k, 'v) sub_maps"
  assumes "pm_good E N n sets" "n < 2 ^ 50"
  obtains sets' where "pm_step E N c sets = Some (fst (phm_step c (pm_map E N sets)), sets')" "pm_good E N (Suc n) sets'"
    and "pm_map E N sets' = snd (phm_step c (pm_map E N sets))"
proof (cases c)
  case (PmInsert k v)
  obtain s where "pm_try_emplace_l E N k (\<lambda>old. old) v sets = Some (fst (try_emplace_l k (\<lambda>old. old) v (pm_map E N sets)), s)"
      "pm_good E N (Suc n) s" "pm_map E N s = snd (try_emplace_l k (\<lambda>old. old) v (pm_map E N sets))"
    using pm_try_emplace_ok [OF assms] by metis
  then show ?thesis using PmInsert by (intro that [of s]) (simp_all add: pm_step_def pm_insert_def phm_insert_def case_prod_beta Let_def)
next
  case (PmUpdate k v)
  obtain s where "pm_try_emplace_l E N k (\<lambda>old. v) v sets = Some (fst (try_emplace_l k (\<lambda>old. v) v (pm_map E N sets)), s)"
      "pm_good E N (Suc n) s" "pm_map E N s = snd (try_emplace_l k (\<lambda>old. v) v (pm_map E N sets))"
    using pm_try_emplace_ok [OF assms] by metis
  then show ?thesis using PmUpdate by (intro that [of s]) (simp_all add: pm_step_def pm_update_def phm_update_def del: phm_update_eq)
next
  case (PmFind k)
  have "pm_good E N (Suc n) sets" using assms(1) by (auto simp: pm_good_def intro: rs_good_mono [of E n])
  then show ?thesis using PmFind pm_if_contains_ok [OF assms(1), of k "\<lambda>v. v"]
    by (intro that [of sets]) (simp_all add: pm_step_def pm_find_def phm_find_def del: phm_find_eq)
next
  case (PmRemove k)
  obtain s where "pm_erase_if E N k (\<lambda>v. True) sets = Some (fst (erase_if k (\<lambda>v. True) (pm_map E N sets)), s)"
      "pm_good E N (Suc n) s" "pm_map E N s = snd (erase_if k (\<lambda>v. True) (pm_map E N sets))"
    using pm_erase_if_ok [OF assms(1)] by metis
  then show ?thesis using PmRemove
    by (intro that [of s]) (simp_all add: pm_step_def pm_remove_def phm_remove_def case_prod_beta Let_def del: phm_remove_eq)
qed

lemma pm_run_ok:
  fixes sets :: "('k, 'v) sub_maps"
  assumes "pm_good E N n sets" "n + length cs < 2 ^ 50"
  shows "\<exists>s. pm_run E N cs sets = Some (fst (phm_run cs (pm_map E N sets)), s) \<and> pm_map E N s = snd (phm_run cs (pm_map E N sets))"
  using assms
proof (induction cs arbitrary: n sets)
  case Nil
  then show ?case by simp
next
  case (Cons c cs)
  obtain s1 where s1: "pm_step E N c sets = Some (fst (phm_step c (pm_map E N sets)), s1)" "pm_good E N (Suc n) s1"
      "pm_map E N s1 = snd (phm_step c (pm_map E N sets))"
    using pm_step_ok [OF Cons.prems(1), of c] Cons.prems(2) by auto
  obtain s2 where "pm_run E N cs s1 = Some (fst (phm_run cs (pm_map E N s1)), s2)" "pm_map E N s2 = snd (phm_run cs (pm_map E N s1))"
    using Cons.IH [OF s1(2)] Cons.prems(2) by auto
  then show ?case using s1 by (intro exI [of _ s2]) (simp add: Let_def case_prod_beta)
qed

lemma pm_new_good: "pm_good E N 0 (parallel_new N :: ('k, 'v) sub_maps)" "pm_map E N (parallel_new N :: ('k, 'v) sub_maps) = Map.empty"
  using subidx_less [of N] by (auto simp: pm_good_def parallel_new_def rs_good_def pm_map_def) (simp_all add: raw_set_new_def)

end

end
