(* ===== verification/RawHashProps.thy ===== *)
theory RawHashProps
  imports ParallelMap RawHashIterate
begin

text \<open>
  The properties of the hash tables.
\<close>

lemma run_from_new:
  assumes "length cs < 2 ^ 50"
  shows "\<exists>t. rs_run (table_env s h mix g) cs raw_set_new = Some (fst (spec_run cs Map.empty), t) \<and> rs_ok (table_env s h mix g) t \<and>
    rs_capacity t \<le> 5 * length cs + 1 \<and> rs_map t = snd (spec_run cs Map.empty)"
proof -
  have "rs_good (table_env s h mix g) 0 raw_set_new" by (simp add: rs_good_def) (simp add: raw_set_new_def)
  then show ?thesis using table.rs_run_ok [of s h mix g 0 raw_set_new cs] assms by (auto simp: rs_good_def)
qed

lemma emplace_all:
  "snd (spec_run (map (\<lambda>k. Emplace k k) ks) m) = (\<lambda>k. if k \<in> set ks \<and> m k = None then Some k else m k)"
  by (induction ks arbitrary: m) (auto simp: Let_def case_prod_beta fun_eq_iff)

text \<open>
  C5: the flat hash map is a map. Any sequence of fewer than \<open>2 ^ 50\<close> calls (insertions, assignments, lookups, erasures, clearing) on
  a new table returns: no probe goes on for ever, no slot is read unconstructed, constructed twice or out of range. The replies are those of a
  partial function, the table ends with its content, and \<^verbatim>\<open>size()\<close> is the number of its keys. This holds for the SSE2, the
  SSSE3 and the portable groups, any hash function and mix, and any content of fresh memory, through growth and the removal of tombstones.
\<close>
theorem hash_table_runs_meet_map:
  assumes "length cs < 2 ^ 50"
  shows "\<exists>t. rs_run (table_env s h mix g) cs raw_set_new = Some (fst (spec_run cs Map.empty), t) \<and>
    rs_map t = snd (spec_run cs Map.empty) \<and> rs_size t = card (dom (snd (spec_run cs Map.empty)))"
  using run_from_new [OF assms, of s h mix g] table.rs_size_card [of s h mix g] by metis

theorem hash_table_runs_meet_map_witness:
  "\<exists>t. rs_run (table_env Sse2 (\<lambda>k. of_nat (k mod 3)) phmap_mix8 7) [Emplace 5 (10 :: nat), InsertOrAssign 8 20, Erase 5, Lookup 8, Lookup (5 :: nat)] raw_set_new =
    Some ([Inserted True, Inserted True, Erased 1, Found (Some 20), Found None], t)"
  using hash_table_runs_meet_map [of "[Emplace 5 (10 :: nat), InsertOrAssign 8 20, Erase 5, Lookup 8, Lookup (5 :: nat)]"
      Sse2 "\<lambda>k. of_nat (k mod 3)" phmap_mix8 7] by auto

lemma probe_states:
  assumes "valid_cap (rs_capacity t)"
  shows "(probe_next (group_width E) ^^ j) (probe E hashval t) = probe_state (group_width E) hashval (rs_capacity t) j"
  by (induction j) (simp_all add: probe_start [OF assms] probe_step [OF assms])

text \<open>
  C23: a probe visits every slot. For a table of \<open>2 ^ k - 1\<close> slots, whatever the hash, each position up to the sentinel is in
  one of the groups looked at before the probe has covered as many bytes as there are slots.
\<close>
theorem probe_visits_every_slot:
  assumes "rs_capacity t = 2 ^ k - 1" and "1 \<le> k" and "k \<le> 60" and "i \<le> rs_capacity t"
  shows "\<exists>j d. j * group_width (table_env s h mix g) \<le> rs_capacity t \<and> d < group_width (table_env s h mix g) \<and>
    probe_offset ((probe_next (group_width (table_env s h mix g)) ^^ j) (probe (table_env s h mix g) hashval t)) d = i"
proof -
  let ?E = "table_env s h mix g"
  have cap: "valid_cap (rs_capacity t)" unfolding valid_cap_def assms(1) using assms(2,3) by (intro exI [of _ k]) simp
  obtain j where j: "j * group_width ?E \<le> rs_capacity t" "in_window (group_width ?E) (rs_capacity t) (probe_pos (group_width ?E) hashval (rs_capacity t) j) i"
    using probe_covers [OF cap table.Wcase assms(4)] by blast
  obtain d where "(probe_pos (group_width ?E) hashval (rs_capacity t) j + d) mod (rs_capacity t + 1) = i" "d < group_width ?E"
    using j(2) by (rule in_windowE)
  then show ?thesis using j(1) by (intro exI [of _ j] exI [of _ d]) (simp only: probe_states [OF cap] probe_offset_state [OF cap])
qed

theorem probe_visits_every_slot_witness:
  "\<exists>j d. j * 16 \<le> 31 \<and> d < 16 \<and>
    probe_offset ((probe_next 16 ^^ j) (probe (table_env Sse2 id phmap_mix8 0) 77 ((raw_set_new :: (u64, nat) raw_set)\<lparr>rs_capacity := 31\<rparr>))) d = 20"
  using probe_visits_every_slot [of "(raw_set_new :: (u64, nat) raw_set)\<lparr>rs_capacity := 31\<rparr>" 5 20 Sse2 id phmap_mix8 0 77]
  by (simp add: table_env_def sse2_group_def)

text \<open>
  C21: \<^verbatim>\<open>reserve\<close> keeps the content and makes room: after \<^verbatim>\<open>reserve(n)\<close> with positive \<open>n\<close> the growth bound of the
  capacity is at least \<open>n\<close>, that is the rounding of \<^verbatim>\<open>GrowthToLowerboundCapacity\<close> and \<^verbatim>\<open>NormalizeCapacity\<close> is enough for
  \<^verbatim>\<open>CapacityToGrowth\<close>.
\<close>
theorem reserve_makes_room:
  assumes "length cs < 2 ^ 50" and "rs_run (table_env s h mix g) cs raw_set_new = Some (rs, t)" and "0 < n" and "n < 2 ^ 57"
  shows "\<exists>t'. reserve (table_env s h mix g) n t = Some t' \<and> rs_map t' = rs_map t \<and> rs_size t' = rs_size t \<and>
    n \<le> capacity_to_growth (table_env s h mix g) (rs_capacity t')"
proof -
  have "rs_ok (table_env s h mix g) t" "rs_capacity t < 2 ^ 58" using run_from_new [OF assms(1), of s h mix g] assms(1,2) by auto
  then show ?thesis using table.reserve_ok [of s h mix g t n] assms(3,4) by metis
qed

theorem reserve_makes_room_witness:
  "\<exists>t'. reserve (table_env Portable id phmap_mix8 0) 100 (raw_set_new :: (u64, nat) raw_set) = Some t' \<and> rs_map t' = Map.empty \<and> rs_size t' = 0 \<and>
    100 \<le> capacity_to_growth (table_env Portable (id :: u64 \<Rightarrow> u64) phmap_mix8 0) (rs_capacity t')"
  using reserve_makes_room [of "[]" Portable id phmap_mix8 0 "[]" "raw_set_new :: (u64, nat) raw_set" 100] by (simp add: raw_set_new_def rs_map_def)

text \<open>
  C19: walking over a table from \<^verbatim>\<open>begin()\<close> to \<^verbatim>\<open>end()\<close>, which skips the empty and deleted slots a group at a time, returns and meets
  each element once: as many elements as \<^verbatim>\<open>size()\<close> says, no key twice, and together they are the content of the table. The copy
  constructor, which fills a reserved table from such a walk, returns a table in order with the same content, and erasing the range from
  \<^verbatim>\<open>begin()\<close> to \<^verbatim>\<open>end()\<close> leaves no element.
\<close>
theorem walks_meet_each_element_once:
  fixes t :: "('k, 'v) raw_set"
  assumes "length cs < 2 ^ 50" and "rs_run (table_env s h mix g) cs raw_set_new = Some (rs, t)"
  shows "\<exists>kvs first t1 t2. rs_elements (table_env s h mix g) t = Some kvs \<and> length kvs = rs_size t \<and> distinct (map fst kvs) \<and>
    map_of kvs = snd (spec_run cs Map.empty) \<and>
    rs_copy (table_env s h mix g) t = Some t1 \<and> rs_ok (table_env s h mix g) t1 \<and> rs_map t1 = map_of kvs \<and> rs_size t1 = rs_size t \<and>
    rs_begin (table_env s h mix g) t = Some first \<and> erase_range (table_env s h mix g) first (rs_capacity t) t = Some t2 \<and>
    rs_ok (table_env s h mix g) t2 \<and> rs_map t2 = Map.empty"
proof -
  let ?E = "table_env s h mix g" and ?kvs = "elements_from 0 (rs_slots t)"
  have t: "rs_ok ?E t" "rs_capacity t \<le> 5 * length cs + 1" "rs_map t = snd (spec_run cs Map.empty)"
    using run_from_new [OF assms(1), of s h mix g] assms(2) by auto
  note kvs = table.rs_elements_ok [OF t(1)] table.elements_distinct [OF t(1), of 0]
  have "dom (rs_map t) = fst ` set ?kvs" unfolding map_of_elements [symmetric] by (rule dom_map_of_conv_image_fst)
  then have len: "length ?kvs = rs_size t"
    using table.rs_size_card [OF t(1)] distinct_card [OF kvs(2)] by simp
  have "length ?kvs \<le> length (rs_slots t)" unfolding elements_from_def map_filter_def by (simp add: le_trans [OF length_filter_le])
  then have "rs_size t < 2 ^ 57" using len table.rs_slots_length [OF t(1)] t(2) assms(1) by simp
  then obtain t1 where t1: "rs_copy ?E t = Some t1" "rs_ok ?E t1" "rs_map t1 = rs_map t" "rs_size t1 = rs_size t"
    using table.rs_copy_ok [OF t(1)] by metis
  obtain p where p: "rs_begin ?E t = Some p" "at_element t p" "\<And>j. j < p \<Longrightarrow> rs_slots t ! j = None"
    using table.begin_ok [OF t(1)] by metis
  have "at_element t (rs_capacity t)" "p \<le> rs_capacity t" using p(2) by (simp_all add: at_element_def)
  from table.erase_range_ok [OF t(1) p(2) this] obtain t2 where t2: "erase_range ?E p (rs_capacity t) t = Some t2" "rs_ok ?E t2"
      "rs_capacity t2 = rs_capacity t" "\<And>j. j < rs_capacity t \<Longrightarrow> rs_slots t2 ! j = (if p \<le> j \<and> j < rs_capacity t then None else rs_slots t ! j)"
    by blast
  have "rs_slots t2 = replicate (rs_capacity t) None"
    using t2(4) p(3) table.rs_slots_length [OF t2(2)] t2(3) by (intro nth_equalityI) (auto simp: not_le)
  then have "rs_map t2 = Map.empty" by (simp add: rs_map_def map_filter_def)
  then show ?thesis
    using kvs len t(3) t1 p(1) t2(1,2) map_of_elements [of t]
    by (intro exI [of _ ?kvs] exI [of _ p] exI [of _ t1] exI [of _ t2]) simp
qed

theorem walks_meet_each_element_once_witness:
  "\<exists>t kvs. rs_run (table_env Ssse3 id phmap_mix8 0) [Emplace 1 (10 :: nat), Emplace 17 20, Erase 1] raw_set_new =
      Some ([Inserted True, Inserted True, Erased 1], t) \<and> rs_elements (table_env Ssse3 id phmap_mix8 0) t = Some kvs \<and>
    map_of kvs = [17 :: u64 \<mapsto> 20]"
proof -
  let ?cs = "[Emplace 1 (10 :: nat), Emplace 17 20, Erase (1 :: u64)]"
  obtain t where t: "rs_run (table_env Ssse3 id phmap_mix8 0) ?cs raw_set_new = Some ([Inserted True, Inserted True, Erased 1], t)"
    using run_from_new [of ?cs Ssse3 id phmap_mix8 0] by auto
  then show ?thesis using walks_meet_each_element_once [OF _ t] by auto
qed

text \<open>
  C20: \<^verbatim>\<open>merge\<close> moves elements between tables: it returns, the destination keeps its elements and gains those of the source
  whose keys it did not have, the source keeps exactly the elements whose keys were taken, and both tables stay in order. The source
  is walked over while it is erased from, the two may differ in their hash functions.
\<close>
theorem merge_moves_missing_keys:
  assumes "length cs < 2 ^ 50" and "length cs' < 2 ^ 50"
    and "rs_run (table_env s h mix g) cs raw_set_new = Some (rs, t)" and "rs_run (table_env s h' mix g') cs' raw_set_new = Some (rs', src)"
  shows "\<exists>t' src'. rs_merge (table_env s h mix g) (table_env s h' mix g') t src = Some (t', src') \<and>
    rs_ok (table_env s h mix g) t' \<and> rs_ok (table_env s h' mix g') src' \<and>
    rs_map t' = snd (spec_run cs' Map.empty) ++ snd (spec_run cs Map.empty) \<and>
    rs_map src' = snd (spec_run cs' Map.empty) |` dom (snd (spec_run cs Map.empty))"
proof -
  have "rs_good (table_env s h mix g) 0 raw_set_new" by (simp add: rs_good_def) (simp add: raw_set_new_def)
  then have "rs_good (table_env s h mix g) (length cs) t" "rs_map t = snd (spec_run cs Map.empty)"
    using table.rs_run_ok [of s h mix g 0 raw_set_new cs] assms(1,3) by auto
  moreover have "rs_ok (table_env s h' mix g') src" "rs_capacity src \<le> 5 * length cs' + 1" "rs_map src = snd (spec_run cs' Map.empty)"
    using run_from_new [OF assms(2), of s h' mix g'] assms(4) by auto
  moreover from this(2) have "length cs + rs_capacity src < 2 ^ 55" using assms(1,2) by simp
  ultimately show ?thesis
    using table.rs_merge_ok [OF table.hash_table_axioms, of s h mix g "length cs" t s h' mix g' src] by simp
qed

theorem merge_moves_missing_keys_witness:
  "\<exists>t src t' src'. rs_run (table_env Sse2 id phmap_mix8 0) [Emplace 1 (10 :: nat)] raw_set_new = Some ([Inserted True], t) \<and>
     rs_run (table_env Sse2 (\<lambda>k. 0) phmap_mix8 0) [Emplace 1 (20 :: nat), Emplace 2 30] raw_set_new = Some ([Inserted True, Inserted True], src) \<and>
     rs_merge (table_env Sse2 id phmap_mix8 0) (table_env Sse2 (\<lambda>k. 0) phmap_mix8 0) t src = Some (t', src') \<and>
     rs_map t' = [1 :: u64 \<mapsto> 10, 2 \<mapsto> 30] \<and> rs_map src' = [1 \<mapsto> 20]"
proof -
  let ?cs = "[Emplace (1 :: u64) (10 :: nat)]" and ?cs' = "[Emplace (1 :: u64) (20 :: nat), Emplace 2 30]"
  obtain t where t: "rs_run (table_env Sse2 id phmap_mix8 0) ?cs raw_set_new = Some ([Inserted True], t)"
    using run_from_new [of ?cs Sse2 id phmap_mix8 0] by auto
  obtain src where src: "rs_run (table_env Sse2 (\<lambda>k. 0) phmap_mix8 0) ?cs' raw_set_new = Some ([Inserted True, Inserted True], src)"
    using run_from_new [of ?cs' Sse2 "\<lambda>k. 0" phmap_mix8 0] by auto
  show ?thesis
    using merge_moves_missing_keys [OF _ _ t src] t src by (auto simp: fun_eq_iff map_add_def restrict_map_def)
qed

text \<open>
  C22: \<^verbatim>\<open>reserve(0)\<close> breaks a table. With 15 elements it is \<^verbatim>\<open>rehash(0)\<close>, which takes 15 as the capacity without leaving an
  empty slot: the content is kept, but the search for a key that is absent never ends.
\<close>
theorem reserve_zero_hangs_lookups:
  "\<exists>t t'. map_option snd (rs_run (table_env s h mix g) (map (\<lambda>k. Emplace k k) [0..<15]) raw_set_new) = Some t \<and>
     reserve (table_env s h mix g) 0 t = Some t' \<and> rs_map t' = rs_map t \<and> rs_capacity t' = 15 \<and> rs_find (table_env s h mix g) 15 t' = None"
proof -
  let ?cs = "map (\<lambda>k :: nat. Emplace k k) [0..<15]" and ?E = "table_env s h mix g"
  obtain t where t: "rs_run ?E ?cs raw_set_new = Some (fst (spec_run ?cs Map.empty), t)" "rs_ok ?E t" "rs_map t = snd (spec_run ?cs Map.empty)"
    using run_from_new [of ?cs s h mix g] by auto
  have m: "snd (spec_run ?cs Map.empty) = (\<lambda>k. if k < 15 then Some k else None)"
    by (simp add: emplace_all fun_eq_iff del: upt_Suc)
  have "dom (rs_map t) = {..<15}" unfolding t(3) m by (auto split: if_splits)
  then have size: "rs_size t = 15" using table.rs_size_card [OF t(2)] by simp
  have "valid_cap 15" unfolding valid_cap_def by (intro exI [of _ 4]) simp
  moreover have "group_width ?E \<le> 15 + 1" using table.Wcase [of s h mix g] by auto
  moreover have "(15 :: nat) < 2 ^ 58" by simp
  ultimately obtain t' where t': "rehash ?E 0 t = Some t'" "rs_map t' = rs_map t" "rs_capacity t' = 15" "rs_size t' = 15"
      "\<And>key. rs_map t key = None \<Longrightarrow> rs_find ?E key t' = None"
    by (rule table.rehash_zero_full [OF t(2), unfolded size]) blast
  have "reserve ?E 0 t = rehash ?E 0 t"
    by (simp add: reserve_def growth_to_lowerbound_capacity_def signed_divide_int_def)
  then show ?thesis using t t' size m by (intro exI [of _ t] exI [of _ t']) simp
qed

text \<open>
  C35: the portable loops that count leading and trailing zeros agree with the built-in instructions, in both widths: leading zeros
  of every number, trailing zeros of every one that is not 0.
\<close>
theorem slow_counts_agree:
  assumes "w \<noteq> 0" and "v \<noteq> 0"
  shows "count_leading_zeros64_slow n = count_leading_zeros64 n \<and> count_leading_zeros32_slow (ucast (m :: u32)) = count_leading_zeros32 m \<and>
    count_trailing_zeros64_slow w = count_trailing_zeros64 w \<and> count_trailing_zeros32_slow v = count_trailing_zeros32 v"
  using leading_slow64 leading_slow32 trailing_slow64 [OF assms(1)] trailing_slow32 [OF assms(2)] by simp

theorem slow_counts_agree_witness:
  "count_leading_zeros64_slow 40 = count_leading_zeros64 40 \<and> count_leading_zeros32_slow (ucast (40 :: u32)) = count_leading_zeros32 40 \<and>
    count_trailing_zeros64_slow 40 = count_trailing_zeros64 40 \<and> count_trailing_zeros32_slow 40 = count_trailing_zeros32 40"
  by (rule slow_counts_agree) simp_all

text \<open>
  C10: \<^verbatim>\<open>ParallelHashMap\<close> is a map. Any sequence of fewer than \<open>2 ^ 50\<close> calls on a new map of \<open>2 ^ N\<close> tables returns, with the
  replies and the content of the partial function that \<^verbatim>\<open>KvMap\<close> uses for it and on which the models of the caches rest.
\<close>
theorem parallel_map_refines_partial_function:
  assumes "length cs < 2 ^ 50"
  shows "\<exists>sets. pm_run (table_env s h mix g) N cs (parallel_new N) = Some (fst (phm_run cs Map.empty), sets) \<and>
    pm_map (table_env s h mix g) N sets = snd (phm_run cs Map.empty)"
  using table.pm_run_ok [OF table.pm_new_good(1), of cs] assms unfolding table.pm_new_good(2) by simp

theorem parallel_map_refines_partial_function_witness:
  "\<exists>sets. pm_run (table_env Sse2 id phmap_mix8 0) 5 [PmInsert (3 :: u64) (10 :: nat), PmUpdate 3 20, PmFind 3, PmRemove 4] (parallel_new 5) =
    Some ([PmBool True, PmDone, PmValue (Some 20), PmBool False], sets)"
  using parallel_map_refines_partial_function [of "[PmInsert (3 :: u64) (10 :: nat), PmUpdate 3 20, PmFind 3, PmRemove 4]" Sse2 id phmap_mix8 0 5]
  by (auto simp: phm_insert_def try_emplace_l_def)

end
