(* ===== verification/Spec2Isabelle.thy ===== *)
theory Spec2Isabelle
  imports MemSpace DiskProps EvictionPolicy CacheProps BlockingQueue RawHashProps
begin

text \<open>
  Verification library for StarCache, a two-level (memory and disk) object cache. Sources are named
  relative to the repository's directory \<^verbatim>\<open>src/\<close>.

  \<^bold>\<open>The program.\<close> A cache object is a key with a byte string, cut into blocks of \<^verbatim>\<open>FLAGS_block_size\<close> and
  slices of \<^verbatim>\<open>FLAGS_slice_size\<close>. \<^verbatim>\<open>StarCacheImpl\<close> finds objects by the 64-bit hash of their key in the
  access index and keeps each block in memory (segments hung on the slices of a memory block), on disk (a
  numbered block in a file), or both. Every allocation asks a manager for room and, when refused, evicts:
  the eviction policies (sharded LRU lists) name the victims, a victim in memory is flushed to disk, dropped
  or kept as the admission policy says, and its objects are freed by the deleters of their shared
  pointers, which return the charges to the managers. Reads merge memory and disk segments and promote what came
  from disk as the promotion policy says.

  \<^bold>\<open>Theories and the code they model.\<close>
  \<^item> \<^verbatim>\<open>Prelude\<close>: option monad, machine integers as numbers with their wrap-around, status codes, printing of numbers.
  \<^item> \<^verbatim>\<open>StarTypes\<close>: \<^verbatim>\<open>common/types.h\<close>, \<^verbatim>\<open>common/config.h\<close>, \<^verbatim>\<open>common/config.cpp\<close>.
  \<^item> \<^verbatim>\<open>AuxFuncs\<close>, \<^verbatim>\<open>MurmurHash\<close>: \<^verbatim>\<open>aux_funcs.h\<close>, \<^verbatim>\<open>aux_funcs.cpp\<close>, \<^verbatim>\<open>utils/murmur_hash3.cpp\<close>; offsets, alignment,
    checksums, hashing. Lemmas: bounds of slices and where they wrap, independence of the checksum from the
    fragmentation of a buffer, keys whose hashes differ.
  \<^item> \<^verbatim>\<open>MemSpace\<close>: \<^verbatim>\<open>mem_space_manager.cpp\<close>. Lemmas: exact accounting and the quota as an invariant of all runs.
  \<^item> \<^verbatim>\<open>LruKey\<close>, \<^verbatim>\<open>HandleTable\<close>, \<^verbatim>\<open>LruContainer\<close>, \<^verbatim>\<open>LruRefine\<close>: \<^verbatim>\<open>utils/lru_container.h\<close> and \<^verbatim>\<open>.cpp\<close>, one shard, on a heap
    of handles linked by pointers. The table refines a map; the container refines a state with a list
    of unreferenced entries and a finite map, under which runs are safe, the usage is exact and evictions take the oldest entries.
  \<^item> \<^verbatim>\<open>ShardedLru\<close>, \<^verbatim>\<open>EvictionPolicy\<close>: the sharded container and \<^verbatim>\<open>lru_eviction_policy-inl.h\<close> behind
    \<^verbatim>\<open>eviction_policy.h\<close>. The locale \<open>eviction_policy\<close> is the contract the caches rely on; it is
    interpreted on the LRU policy for block keys (of constant padding) and for cache ids.
  \<^item> \<^verbatim>\<open>BlockFile\<close>, \<^verbatim>\<open>DiskSpace\<close>, \<^verbatim>\<open>DiskAlloc\<close>, \<^verbatim>\<open>DiskProps\<close>: \<^verbatim>\<open>block_file.cpp\<close>, \<^verbatim>\<open>disk_space_manager.cpp\<close>. Files through a
    record of system calls; free lists and bit sets, the weighted router. Lemmas: no block is given out
    twice, allocation fails only when the disks are full, writes do not interfere, what a write transferred is read back, the shares of
    the directories.
  \<^item> \<^verbatim>\<open>KvMap\<close>: \<^verbatim>\<open>utils/parallel_hash_map.h\<close> and \<^verbatim>\<open>utils/dbd_hash_map.h\<close> on partial functions, under the locale \<open>kv_map\<close>; the
    access index uses this model.
  \<^item> \<^verbatim>\<open>HashBits\<close>, \<^verbatim>\<open>CtrlGroup\<close>: \<^verbatim>\<open>utils/phmap/phmap_bits.h\<close> and the bit masks, control bytes and groups of \<^verbatim>\<open>utils/phmap/phmap.h\<close>.
    The locale \<open>hash_group\<close> is what a table asks of a group (which bytes may match, whether and where there is an empty
    or free one, how long the free bytes run, the marking of full bytes); it is interpreted on the SSE2, the SSSE3 and the portable group, from the bits of
    their words.
  \<^item> \<^verbatim>\<open>RawHashSet\<close>: the class \<^verbatim>\<open>raw_hash_set\<close> of \<^verbatim>\<open>phmap.h\<close> as a record of control bytes, slots and counters, with the mixes of
    \<^verbatim>\<open>phmap_utils.h\<close>. \<^verbatim>\<open>RawHashProbe\<close> (triangular probing covers all slots), \<^verbatim>\<open>RawHashOk\<close> (searching), \<^verbatim>\<open>RawHashTable\<close> (the invariant
    \<open>rs_ok\<close> and the content \<open>rs_map\<close>), \<^verbatim>\<open>RawHashGrow\<close> (resizing), \<^verbatim>\<open>RawHashDrop\<close> (removing the tombstones in place), \<^verbatim>\<open>RawHashOps\<close>,
    \<^verbatim>\<open>RawHashInsert\<close> (insertion and erasure), \<^verbatim>\<open>RawHashMap\<close> (calls and runs), \<^verbatim>\<open>RawHashReserve\<close> (capacities, \<^verbatim>\<open>reserve\<close>) and \<^verbatim>\<open>RawHashIterate\<close> (iterators,
    copies, ranges, \<^verbatim>\<open>merge\<close>) prove in the locale \<open>hash_table\<close> that every operation keeps \<open>rs_ok\<close> and acts on \<open>rs_map\<close> as on a
    partial function, and that the probes end. Runs have fewer than \<open>2 ^ 50\<close> calls, so that no capacity overflows.
  \<^item> \<^verbatim>\<open>ParallelMap\<close>, \<^verbatim>\<open>RawHashProps\<close>: \<^verbatim>\<open>parallel_hash_map\<close> of \<^verbatim>\<open>phmap.h\<close> with the operations of \<^verbatim>\<open>utils/parallel_hash_map.h\<close> on
    \<^verbatim>\<open>2 ^ N\<close> such tables, calls one at a time, which refines the model of \<^verbatim>\<open>KvMap\<close>; and the properties of the tables.
  \<^item> \<^verbatim>\<open>CacheItems\<close>, \<^verbatim>\<open>CacheState\<close>: \<^verbatim>\<open>block_item.h\<close>, \<^verbatim>\<open>cache_item.h\<close>, \<^verbatim>\<open>sharded_lock_manager.h\<close>,
    \<^verbatim>\<open>hashtable_access_index.cpp\<close>; heaps of shared objects with their use counts, deleters, locks, the state of the whole cache.
  \<^item> \<^verbatim>\<open>Policies\<close>: \<^verbatim>\<open>size_based_admission_policy.cpp\<close>, \<^verbatim>\<open>capacity_based_promotion_policy.cpp\<close>.
  \<^item> \<^verbatim>\<open>MemCache\<close>, \<^verbatim>\<open>DiskCache\<close>: \<^verbatim>\<open>mem_cache.cpp\<close>, \<^verbatim>\<open>disk_cache.cpp\<close>. Lemmas: a memory read returns exactly the bytes
    present, checksums detect what they are meant to detect.
  \<^item> \<^verbatim>\<open>StarCacheImpl\<close>, \<^verbatim>\<open>StarCacheOps\<close>: \<^verbatim>\<open>star_cache_impl.cpp\<close> and the facade \<^verbatim>\<open>star_cache.cpp\<close>: eviction and flush, then the
    read and write paths and the public operations.
  \<^item> \<^verbatim>\<open>Ownership\<close>, \<^verbatim>\<open>MemoryOnly\<close>, \<^verbatim>\<open>MemoryEvict\<close>, \<^verbatim>\<open>MemoryWrite\<close>, \<^verbatim>\<open>MemoryOps\<close>, \<^verbatim>\<open>MemoryRead\<close>, \<^verbatim>\<open>MemoryRuns\<close>, \<^verbatim>\<open>Reachability\<close>,
    \<^verbatim>\<open>CacheRuns\<close>, \<^verbatim>\<open>CacheProps\<close>: no new code, but the correctness of the whole cache without a disk layer, through the
    locale \<open>memory_cache\<close> over the contracts of the policies. Every use count is the number of references
    (\<open>own\<close>), the memory in use is the sum of the charges (\<open>acct\<close>), an object of the index holds the bytes last set wherever it holds
    any (\<open>index_holds\<close>); every operation keeps this, and runs of calls from the initialisation on
    reply like a map that may lose objects, leak nothing, and fail in one way only. Bounds: objects end a slice below 4 GiB, and the blocks written and
    unpinned over the life of the cache stay below \<open>2 ^ 31\<close> (the reference counts of the policy are 32-bit and never go
    back; reads are free). \<^verbatim>\<open>CacheProps\<close> evaluates a run completely, from initialisation to reply.
  \<^item> \<^verbatim>\<open>BlockingQueue\<close>: \<^verbatim>\<open>utils/blocking_queue.hpp\<close>, with its threads and condition variables as a step relation.

  \<^bold>\<open>Conventions.\<close> An operation that may fail at run time returns an option: \<open>None\<close> is a null or dangling
  pointer, a failed \<^verbatim>\<open>DCHECK\<close>, a division by zero, or a lock its own thread holds; errors the code reports are
  values of the type \<open>status\<close>. Except in \<^verbatim>\<open>BlockingQueue\<close> one operation runs at a time, with the locks it takes recorded.
  Unsigned quantities are words where the wrap-around takes part in the logic and numbers with an explicit
  reduction (\<open>to_u32\<close>, \<open>to_u64\<close>, \<open>sub64\<close>) elsewhere. Signed ones are integers: \<open>to_i32\<close> and \<open>to_i64\<close> are conversions and the sums of the
  router, which wrap in the model where the source leaves an overflow undefined, \<open>checked_i64\<close> is a result that is \<open>None\<close> when it
  overflows. Doubles are reals. The padding bytes of a block key, which the source leaves indeterminate in every object, are a
  parameter of its codec, the same for a whole run; \<open>touch_misses_other_padding\<close> says what happens when they differ. Loops whose end is not structural (chains of the hash table,
  the eviction loop) are \<open>partial_function (option)\<close>, and that they end is part of what is proved; retry loops count
  down the configured number of retries, as in the code, so no fuel is involved. Buffers (\<^verbatim>\<open>IOBuf\<close>), \<^verbatim>\<open>crc32c\<close>,
  \<^verbatim>\<open>posix_memalign\<close>, system calls, object sizes, random numbers, the clock and addresses are parameters;
  \<open>ext_ok\<close>, \<open>os_ok\<close> and \<open>memalign_ok\<close> state their documented behaviour, and the models \<open>simple_ext\<close> and \<open>simple_os\<close> satisfy them.

  \<^bold>\<open>Not modelled.\<close> Of the vendored library under \<^verbatim>\<open>utils/phmap\<close>: allocation failures, moves, swaps and comparisons of tables, node handles and
  node sets, the part of \<^verbatim>\<open>parallel_hash_map\<close> the program does not call, and the files \<^verbatim>\<open>phmap_base.h\<close> (replacements of
  the standard library), \<^verbatim>\<open>btree.h\<close> (unused), \<^verbatim>\<open>phmap_config.h\<close>, \<^verbatim>\<open>phmap_dump.h\<close>, \<^verbatim>\<open>phmap_hash.h\<close>. Elsewhere: logging and the JSON
  report \<^verbatim>\<open>get_status\<close>, the destructor of \<^verbatim>\<open>StarCacheImpl\<close> (it frees the policies only), the tester under \<^verbatim>\<open>tools\<close>, and
  interleavings of the cache operations of several threads.
\<close>

end
